(* ===== verification/JS_Prelude.thy ===== *)
theory JS_Prelude
  imports Main "HOL-Library.AList" "HOL-Library.Sublist"
begin

text \<open>
  What every component shares: the JavaScript notions the scripts use (strings as lists of
  characters, property objects as association lists in insertion order, array indexing with
  a start offset, white space), the collections of rewrite rules, and the interface of a
  key/value store as a locale.  A character stands for a UTF-16 code unit below 256; numbers
  that the code uses as indices and counters are \<^typ>\<open>int\<close> or \<^typ>\<open>nat\<close>.
\<close>

named_theorems js_obj \<open>facts on property objects\<close>
named_theorems js_arr \<open>facts on array scans\<close>
named_theorems js_str \<open>facts on strings\<close>

section \<open>Property objects\<close>

type_synonym 'v obj = "(string \<times> 'v) list"

definition oget :: "('k \<times> 'v) list \<Rightarrow> 'k \<Rightarrow> 'v option" where
  "oget ob k = map_of ob k"

definition oset :: "('k \<times> 'v) list \<Rightarrow> 'k \<Rightarrow> 'v \<Rightarrow> ('k \<times> 'v) list" where
  "oset ob k v = AList.update k v ob"

definition odel :: "('k \<times> 'v) list \<Rightarrow> 'k \<Rightarrow> ('k \<times> 'v) list" where
  "odel ob k = AList.delete k ob"

definition okeys :: "('k \<times> 'v) list \<Rightarrow> 'k list" where
  "okeys ob = map fst ob"

lemma oget_oset [js_obj, simp]: "oget (oset ob k v) k' = (if k' = k then Some v else oget ob k')"
  by (simp add: oget_def oset_def update_conv')

lemma oget_odel [js_obj, simp]: "oget (odel ob k) k' = (if k' = k then None else oget ob k')"
  by (simp add: oget_def odel_def delete_conv')

lemma oget_Nil [js_obj, simp]: "oget [] k = None"
  by (simp add: oget_def)

lemma oget_Cons [js_obj]: "oget ((a, b) # ob) k = (if k = a then Some b else oget ob k)"
  by (simp add: oget_def)

lemma set_okeys_oset [js_obj, simp]: "set (okeys (oset ob k v)) = insert k (set (okeys ob))"
  by (simp add: okeys_def oset_def dom_update)

lemma distinct_okeys_oset [js_obj, simp]: "distinct (okeys ob) \<Longrightarrow> distinct (okeys (oset ob k v))"
  by (simp add: okeys_def oset_def distinct_update)

lemma distinct_okeys_odel [js_obj, simp]: "distinct (okeys ob) \<Longrightarrow> distinct (okeys (odel ob k))"
  by (simp add: okeys_def odel_def distinct_delete)

lemma set_okeys_odel [js_obj, simp]: "set (okeys (odel ob k)) = set (okeys ob) - {k}"
  by (simp add: okeys_def odel_def delete_keys)

lemma oget_None_iff [js_obj]: "oget ob k = None \<longleftrightarrow> k \<notin> set (okeys ob)"
  by (force simp: oget_def okeys_def map_of_eq_None_iff)

lemma oget_Some_keys [js_obj]: "oget ob k = Some v \<Longrightarrow> k \<in> set (okeys ob)"
  by (metis oget_None_iff option.distinct(1))

lemma set_oset: "set (oset ob k v) \<subseteq> insert (k, v) (set ob)"
  unfolding oset_def by (induction ob) auto

lemma set_odel: "set (odel ob k) \<subseteq> set ob"
  by (auto simp: odel_def AList.delete_eq)

text \<open>
  The interface of a store: what a reader finds after a write and after a removal.  The
  clients of the library (element data, option caches, cookies) only rely on these laws.
\<close>

locale kv_store =
  fixes look :: "'s \<Rightarrow> 'k \<Rightarrow> 'v option"
    and put :: "'s \<Rightarrow> 'k \<Rightarrow> 'v \<Rightarrow> 's"
    and del :: "'s \<Rightarrow> 'k \<Rightarrow> 's"
  assumes look_put: "look (put s k v) k' = (if k' = k then Some v else look s k')"
    and look_del: "look (del s k) k' = (if k' = k then None else look s k')"
begin

lemma look_put_same: "look (put s k v) k = Some v"
  by (simp add: look_put)

lemma look_put_other: "k' \<noteq> k \<Longrightarrow> look (put s k v) k' = look s k'"
  by (simp add: look_put)

lemma put_put: "look (put (put s k v) k w) = look (put s k w)"
  by (auto simp: look_put fun_eq_iff)

lemma del_put: "look (del (put s k v) k) = look (del s k)"
  by (auto simp: look_put look_del fun_eq_iff)

lemma put_commute: "k \<noteq> k' \<Longrightarrow> look (put (put s k v) k' w) = look (put (put s k' w) k v)"
  by (auto simp: look_put fun_eq_iff)

lemma look_foldl_put:
  "look (foldl (\<lambda>s (k, v). put s k v) s kvs) k = (case map_of (rev kvs) k of Some v \<Rightarrow> Some v | None \<Rightarrow> look s k)"
  by (induction kvs arbitrary: s)
     (auto simp: look_put map_add_def split: option.splits prod.splits)

lemma look_foldl_del:
  "look (foldl del s ks) k = (if k \<in> set ks then None else look s k)"
  by (induction ks arbitrary: s) (auto simp: look_del)

end

interpretation obj_store: kv_store oget oset odel
  by unfold_locales simp_all

text \<open>
  A store that names a key in several ways: keys with the same normal form are one key.  The laws
  hold for the states of an invariant and for well-behaved keys.
\<close>

locale kv_alias =
  fixes keeps :: "'s \<Rightarrow> bool"
    and fine :: "'k \<Rightarrow> bool"
    and norm :: "'k \<Rightarrow> 'k"
    and look :: "'s \<Rightarrow> 'k \<Rightarrow> 'v option"
    and put :: "'s \<Rightarrow> 'k \<Rightarrow> 'v \<Rightarrow> 's"
    and del :: "'s \<Rightarrow> 'k \<Rightarrow> 's"
  assumes keeps_put: "keeps s \<Longrightarrow> fine k \<Longrightarrow> keeps (put s k v)"
    and keeps_del: "keeps s \<Longrightarrow> fine k \<Longrightarrow> keeps (del s k)"
    and alias_put: "keeps s \<Longrightarrow> fine k \<Longrightarrow> fine k' \<Longrightarrow> look (put s k v) k' = (if norm k' = norm k then Some v else look s k')"
    and alias_del: "keeps s \<Longrightarrow> fine k \<Longrightarrow> fine k' \<Longrightarrow> look (del s k) k' = (if norm k' = norm k then None else look s k')"
begin

lemma put_then_look: "keeps s \<Longrightarrow> fine k \<Longrightarrow> look (put s k v) k = Some v"
  by (simp add: alias_put)

lemma put_del_look: "keeps s \<Longrightarrow> fine k \<Longrightarrow> look (del (put s k v) k) k = None"
  by (simp add: alias_del keeps_put)

text \<open>A list of writes: the last one to an alias of the key counts.\<close>

lemma keeps_puts: "keeps s \<Longrightarrow> \<forall>(k, v) \<in> set kvs. fine k \<Longrightarrow> keeps (foldl (\<lambda>s (k, v). put s k v) s kvs)"
  by (induction kvs arbitrary: s) (auto simp: keeps_put)

lemma look_puts:
  "keeps s \<Longrightarrow> \<forall>(k, v) \<in> set kvs. fine k \<Longrightarrow> fine k' \<Longrightarrow>
   look (foldl (\<lambda>s (k, v). put s k v) s kvs) k' =
     (case List.find (\<lambda>(k, v). norm k = norm k') (rev kvs) of Some (k, v) \<Rightarrow> Some v | None \<Rightarrow> look s k')"
proof (induction kvs rule: rev_induct)
  case (snoc kv kvs)
  obtain k v where kv: "kv = (k, v)" by fastforce
  have "keeps (foldl (\<lambda>s (k, v). put s k v) s kvs)" by (rule keeps_puts) (use snoc.prems in auto)
  with snoc kv show ?case by (simp add: alias_put)
qed simp

end

sublocale kv_store \<subseteq> kv_alias "\<lambda>_. True" "\<lambda>_. True" id look put del
  by unfold_locales (simp_all add: look_put look_del)

section \<open>Array scans\<close>

text \<open>
  \<open>indexOf\<close> over an array from a start position: the position of the first element
  identical to the one sought, or -1.
\<close>

fun scan :: "'a \<Rightarrow> 'a list \<Rightarrow> int \<Rightarrow> int" where
  "scan e [] k = -1"
| "scan e (x # xs) k = (if x = e then k else scan e xs (k + 1))"

lemma scan_notin [js_arr]: "e \<notin> set xs \<Longrightarrow> scan e xs k = -1"
  by (induction xs arbitrary: k) auto

lemma scan_in [js_arr]:
  "e \<in> set xs \<Longrightarrow> \<exists>n < length xs. scan e xs k = k + int n \<and> xs ! n = e \<and> e \<notin> set (take n xs)"
proof (induction xs arbitrary: k)
  case (Cons x xs)
  show ?case
  proof (cases "x = e")
    case True
    then show ?thesis by (intro exI [of _ 0]) simp
  next
    case False
    with Cons obtain n where "n < length xs" "scan e xs (k + 1) = k + 1 + int n"
      "xs ! n = e" "e \<notin> set (take n xs)" by fastforce
    with False show ?thesis by (intro exI [of _ "Suc n"]) simp
  qed
qed simp

lemma scan_eq_m1 [js_arr]: "0 \<le> k \<Longrightarrow> scan e xs k = -1 \<longleftrightarrow> e \<notin> set xs"
  using scan_in [of e xs k] scan_notin [of e xs k] by fastforce

section \<open>Splicing\<close>

definition splice_out :: "nat \<Rightarrow> 'a list \<Rightarrow> 'a list" where
  "splice_out i xs = take i xs @ drop (Suc i) xs"

lemma length_splice_out [simp]: "i < length xs \<Longrightarrow> length (splice_out i xs) = length xs - 1"
  by (simp add: splice_out_def)

lemma set_splice_out: "set (splice_out i xs) \<subseteq> set xs"
  by (auto simp: splice_out_def dest: in_set_takeD in_set_dropD)

lemma distinct_splice_out: "distinct xs \<Longrightarrow> distinct (splice_out i xs)"
  by (simp add: splice_out_def set_take_disj_set_drop_if_distinct)

section \<open>White space and letter case\<close>

text \<open>The characters \<open>\s\<close> of a regular expression matches, among the code units below 256.\<close>

definition is_space :: "char \<Rightarrow> bool" where
  "is_space c \<longleftrightarrow> of_char c \<in> {9, 10, 11, 12, 13, 32, 160 :: nat}"

definition is_lower :: "char \<Rightarrow> bool" where
  "is_lower c \<longleftrightarrow> (97 :: nat) \<le> of_char c \<and> of_char c \<le> (122 :: nat)"

definition is_upper :: "char \<Rightarrow> bool" where
  "is_upper c \<longleftrightarrow> (65 :: nat) \<le> of_char c \<and> of_char c \<le> (90 :: nat)"

definition is_digit :: "char \<Rightarrow> bool" where
  "is_digit c \<longleftrightarrow> (48 :: nat) \<le> of_char c \<and> of_char c \<le> (57 :: nat)"

definition to_upper :: "char \<Rightarrow> char" where
  "to_upper c = (if is_lower c then char_of (of_char c - 32 :: nat) else c)"

definition to_lower :: "char \<Rightarrow> char" where
  "to_lower c = (if is_upper c then char_of (of_char c + 32 :: nat) else c)"

definition lower :: "string \<Rightarrow> string" where
  "lower s = map to_lower s"

definition upper :: "string \<Rightarrow> string" where
  "upper s = map to_upper s"

lemma of_char_less: "(of_char c :: nat) < 256"
  by (metis char_of_char of_char_of mod_less_divisor zero_less_numeral)

lemma of_char_to_lower: "is_upper c \<Longrightarrow> (of_char (to_lower c) :: nat) = of_char c + 32"
  by (simp add: to_lower_def is_upper_def of_char_of)

lemma of_char_to_upper: "is_lower c \<Longrightarrow> (of_char (to_upper c) :: nat) = of_char c - 32"
  by (auto simp: to_upper_def is_lower_def intro!: mod_less)

lemma to_upper_lower [js_str]: "is_upper c \<Longrightarrow> to_upper (to_lower c) = c"
  by (simp add: to_upper_def is_lower_def of_char_to_lower is_upper_def del: of_char_eq_iff)

lemma is_lower_to_lower [js_str]: "is_upper c \<Longrightarrow> is_lower (to_lower c)"
  by (simp add: is_lower_def of_char_to_lower is_upper_def)

lemma is_upper_to_upper [js_str]: "is_lower c \<Longrightarrow> is_upper (to_upper c)"
  by (auto simp: of_char_to_upper is_upper_def) (auto simp: is_lower_def)

lemma not_upper_to_lower [js_str]: "\<not> is_upper c \<Longrightarrow> to_lower c = c"
  by (simp add: to_lower_def)

lemma not_lower_to_upper [js_str]: "\<not> is_lower c \<Longrightarrow> to_upper c = c"
  by (simp add: to_upper_def)

lemma not_is_upper_to_lower [js_str, simp]: "\<not> is_upper (to_lower c)"
  by (cases "is_upper c") (auto simp: is_upper_def of_char_to_lower not_upper_to_lower)

lemma lower_idem [js_str, simp]: "lower (lower s) = lower s"
  by (simp add: lower_def not_upper_to_lower)

section \<open>Words of a string\<close>

text \<open>
  \<open>match(/\S+/g)\<close>, for any class of separator characters: the maximal runs of other
  characters, in order (no match, the \<open>null\<close> result, is the empty list).
\<close>

fun words_acc :: "(char \<Rightarrow> bool) \<Rightarrow> string \<Rightarrow> string \<Rightarrow> string list" where
  "words_acc sp [] w = (if w = [] then [] else [w])"
| "words_acc sp (c # cs) w =
     (if sp c then (if w = [] then words_acc sp cs [] else w # words_acc sp cs [])
      else words_acc sp cs (w @ [c]))"

definition words_by :: "(char \<Rightarrow> bool) \<Rightarrow> string \<Rightarrow> string list" where
  "words_by sp s = words_acc sp s []"

definition words :: "string \<Rightarrow> string list" where
  "words s = words_by is_space s"

lemma words_acc_sep:
  "sp c \<Longrightarrow> words_acc sp (a @ c # b) w = words_acc sp a w @ words_acc sp b []"
  by (induction a arbitrary: w) auto

lemma words_by_sep [js_str]: "sp c \<Longrightarrow> words_by sp (a @ c # b) = words_by sp a @ words_by sp b"
  by (simp add: words_by_def words_acc_sep)

lemma words_by_Nil [js_str, simp]: "words_by sp [] = []"
  by (simp add: words_by_def)

lemma words_by_Cons_sep [js_str]: "sp c \<Longrightarrow> words_by sp (c # b) = words_by sp b"
  by (simp add: words_by_def)

lemma words_acc_word: "\<forall>c \<in> set z. \<not> sp c \<Longrightarrow> words_acc sp z w = (if w @ z = [] then [] else [w @ z])"
  by (induction z arbitrary: w) auto

lemma words_by_word [js_str]: "z \<noteq> [] \<Longrightarrow> \<forall>c \<in> set z. \<not> sp c \<Longrightarrow> words_by sp z = [z]"
  by (simp add: words_by_def words_acc_word)

lemma words_by_all_sep [js_str]: "\<forall>c \<in> set a. sp c \<Longrightarrow> words_by sp a = []"
  by (induction a) (auto simp: words_by_def)

lemma words_by_strip: "\<forall>c \<in> set a. sp c \<Longrightarrow> words_by sp (a @ b) = words_by sp b"
  by (induction a) (auto simp: words_by_def)

lemma words_by_strip_end: "\<forall>c \<in> set b. sp c \<Longrightarrow> words_by sp (a @ b) = words_by sp a"
  by (cases b) (auto simp: words_by_sep words_by_all_sep)

lemma words_acc_in:
  "z \<in> set (words_acc sp s w) \<Longrightarrow> \<forall>c \<in> set w. \<not> sp c \<Longrightarrow> z \<noteq> [] \<and> (\<forall>c \<in> set z. \<not> sp c)"
proof (induction s arbitrary: w)
  case (Cons c s)
  show ?case
  proof (cases "sp c")
    case True
    with Cons.prems(1) have "z = w \<and> w \<noteq> [] \<or> z \<in> set (words_acc sp s [])"
      by (simp split: if_splits)
    then show ?thesis
    proof
      assume "z = w \<and> w \<noteq> []"
      with Cons.prems(2) show ?thesis by blast
    next
      assume "z \<in> set (words_acc sp s [])"
      then show ?thesis by (rule Cons.IH) simp
    qed
  next
    case False
    with Cons.prems(1) have "z \<in> set (words_acc sp s (w @ [c]))" by simp
    then show ?thesis by (rule Cons.IH) (use Cons.prems(2) False in simp)
  qed
qed (simp split: if_splits)

lemma words_by_in [js_str]: "z \<in> set (words_by sp s) \<Longrightarrow> z \<noteq> [] \<and> (\<forall>c \<in> set z. \<not> sp c)"
  using words_acc_in [of z sp s "[]"] by (simp add: words_by_def)

lemma words_acc_occurs:
  "z \<in> set (words_acc sp s w) \<Longrightarrow>
   \<exists>a b. w @ s = a @ z @ b \<and> (a = [] \<or> sp (last a)) \<and> (b = [] \<or> sp (hd b))"
proof (induction s arbitrary: w)
  case Nil
  then show ?case by (auto split: if_splits intro: exI [of _ "[]"])
next
  case (Cons c s)
  show ?case
  proof (cases "sp c")
    case False
    with Cons.prems have "z \<in> set (words_acc sp s (w @ [c]))" by simp
    from Cons.IH [OF this] show ?thesis by simp
  next
    case True
    show ?thesis
    proof (cases "z = w \<and> w \<noteq> []")
      case z: True
      with True show ?thesis by (intro exI [of _ "[]"] exI [of _ "c # s"]) simp
    next
      case False
      with Cons.prems True have "z \<in> set (words_acc sp s [])" by (auto split: if_splits)
      from Cons.IH [OF this] obtain a b where
        ab: "s = a @ z @ b" "a = [] \<or> sp (last a)" "b = [] \<or> sp (hd b)" by auto
      then show ?thesis using True
        by (intro exI [of _ "w @ c # a"] exI [of _ b]) auto
    qed
  qed
qed

section \<open>Occurrences of a string in another\<close>

text \<open>\<open>indexOf\<close> on strings, and \<open>replace\<close> of the first occurrence of a string.\<close>

fun index_sub :: "string \<Rightarrow> string \<Rightarrow> nat option" where
  "index_sub pat [] = (if pat = [] then Some 0 else None)"
| "index_sub pat (c # cs) =
     (if take (length pat) (c # cs) = pat then Some 0 else map_option Suc (index_sub pat cs))"

definition occurs :: "string \<Rightarrow> string \<Rightarrow> bool" where
  "occurs pat s \<longleftrightarrow> index_sub pat s \<noteq> None"

definition replace_first :: "string \<Rightarrow> string \<Rightarrow> string \<Rightarrow> string" where
  "replace_first pat r s =
     (case index_sub pat s of None \<Rightarrow> s | Some i \<Rightarrow> take i s @ r @ drop (i + length pat) s)"

lemma index_sub_Some: "index_sub pat s = Some i \<Longrightarrow> s = take i s @ pat @ drop (i + length pat) s"
proof (induction s arbitrary: i)
  case (Cons c cs)
  show ?case
  proof (cases "take (length pat) (c # cs) = pat")
    case True
    with Cons.prems show ?thesis by simp (metis append_take_drop_id)
  next
    case False
    with Cons show ?thesis by auto
  qed
qed (auto split: if_splits)

lemma index_sub_occ: "index_sub pat (a @ pat @ b) \<noteq> None"
proof (induction a)
  case Nil
  have "take (length pat) (pat @ b) = pat" by simp
  then show ?case by (cases "pat @ b") (simp_all del: take_append)
qed simp

lemma occurs_iff [js_str]: "occurs pat s \<longleftrightarrow> (\<exists>a b. s = a @ pat @ b)"
  unfolding occurs_def by (metis index_sub_Some index_sub_occ option.exhaust)

lemma replace_first_occ:
  assumes "occurs pat s" obtains a b where "s = a @ pat @ b" "replace_first pat r s = a @ r @ b"
  using assms index_sub_Some unfolding occurs_def replace_first_def by fastforce

section \<open>Numbers as strings\<close>

text \<open>The decimal string a natural number is concatenated as.\<close>

definition digit_char :: "nat \<Rightarrow> char" where
  "digit_char d = char_of (48 + d)"

fun nat_str :: "nat \<Rightarrow> string" where
  "nat_str n = (if n < 10 then [digit_char n] else nat_str (n div 10) @ [digit_char (n mod 10)])"

declare nat_str.simps [simp del]

fun str_nat :: "string \<Rightarrow> nat" where
  "str_nat s = foldl (\<lambda>n c. 10 * n + (of_char c - 48)) 0 s"

lemma of_char_digit [simp]: "d < 10 \<Longrightarrow> (of_char (digit_char d) :: nat) = 48 + d"
  by (simp add: digit_char_def)

lemma str_nat_nat_str [js_str, simp]: "str_nat (nat_str n) = n"
proof (induction n rule: nat_str.induct)
  case (1 n)
  show ?case
  proof (cases "n < 10")
    case True
    then show ?thesis by (simp add: nat_str.simps [of n])
  next
    case False
    with 1 have "str_nat (nat_str (n div 10)) = n div 10" by simp
    with False show ?thesis by (simp add: nat_str.simps [of n])
  qed
qed

lemma nat_str_inject [js_str, simp]: "nat_str m = nat_str n \<longleftrightarrow> m = n"
  by (metis str_nat_nat_str)

lemma nat_str_digits: "c \<in> set (nat_str n) \<Longrightarrow> is_digit c"
proof (induction n rule: nat_str.induct)
  case (1 n)
  have d: "is_digit (digit_char k)" if "k < 10" for k
    using that by (simp add: is_digit_def)
  show ?case
  proof (cases "n < 10")
    case True
    with "1.prems" show ?thesis by (simp add: nat_str.simps [of n] d)
  next
    case False
    with 1 show ?thesis by (auto simp: nat_str.simps [of n] intro: d)
  qed
qed

lemma nat_str_nonempty [simp]: "nat_str n \<noteq> []"
  by (subst nat_str.simps) simp

section \<open>split and join\<close>

function split_str :: "string \<Rightarrow> string \<Rightarrow> string list" where
  "split_str sep s =
     (case index_sub sep s of
        None \<Rightarrow> [s]
      | Some i \<Rightarrow> if sep = [] then [s] else take i s # split_str sep (drop (i + length sep) s))"
  by pat_completeness auto
termination
proof (relation "measure (\<lambda>(sep, s). length s)")
  fix sep s :: string and i
  assume "index_sub sep s = Some i" "sep \<noteq> []"
  then show "((sep, drop (i + length sep) s), (sep, s)) \<in> measure (\<lambda>(sep, s). length s)"
    using index_sub_Some [of sep s i] by (cases s) (auto split: if_splits)
qed simp

declare split_str.simps [simp del]

fun join :: "string \<Rightarrow> string list \<Rightarrow> string" where
  "join sep [] = ''''"
| "join sep [x] = x"
| "join sep (x # y # xs) = x @ sep @ join sep (y # xs)"

lemma index_sub_fresh: "c \<notin> set x \<Longrightarrow> index_sub (c # p) x = None"
  by (induction x) auto

lemma index_sub_at: "c \<notin> set x \<Longrightarrow> index_sub (c # p) (x @ c # p @ y) = Some (length x)"
  by (induction x) auto

lemma split_str_fresh [js_str]: "c \<notin> set x \<Longrightarrow> split_str (c # p) x = [x]"
  by (simp add: split_str.simps [of "c # p"] index_sub_fresh)

lemma split_str_at [js_str]: "c \<notin> set x \<Longrightarrow> split_str (c # p) (x @ c # p @ y) = x # split_str (c # p) y"
  by (simp add: split_str.simps [of "c # p" "x @ c # p @ y"] index_sub_at)

lemma split_join [js_str]:
  "xs \<noteq> [] \<Longrightarrow> \<forall>x \<in> set xs. c \<notin> set x \<Longrightarrow> split_str (c # p) (join (c # p) xs) = xs"
  by (induction "c # p" xs rule: join.induct) (simp_all add: split_str_fresh split_str_at)

lemma split_str_nonempty [simp]: "split_str sep s \<noteq> []"
  by (subst split_str.simps) (simp split: option.split)

lemma index_sub_None_sep: "index_sub [c] s = None \<Longrightarrow> c \<notin> set s"
  by (induction s) (auto split: if_splits)

lemma join_split [js_str]: "join sep (split_str sep s) = s"
proof (induction sep s rule: split_str.induct)
  case (1 sep s)
  show ?case
  proof (cases "index_sub sep s")
    case None
    then show ?thesis by (simp add: split_str.simps [of sep s])
  next
    case (Some i)
    show ?thesis
    proof (cases "sep = []")
      case True
      with Some show ?thesis by (simp add: split_str.simps [of "[]" s])
    next
      case False
      obtain y ys where y: "split_str sep (drop (i + length sep) s) = y # ys"
        by (metis list.exhaust split_str_nonempty)
      have "join sep (y # ys) = drop (i + length sep) s"
        using "1" [OF Some False] by (simp add: y)
      then show ?thesis
        using Some False y index_sub_Some [OF Some] by (simp add: split_str.simps [of sep s])
    qed
  qed
qed

section \<open>Loops that keep a predicate\<close>

lemma foldl_keeps: "P s \<Longrightarrow> (\<And>s x. x \<in> set xs \<Longrightarrow> P s \<Longrightarrow> P (f s x)) \<Longrightarrow> P (foldl f s xs)"
  by (induction xs arbitrary: s) auto

lemma funpow_keeps: "P s \<Longrightarrow> (\<And>s. P s \<Longrightarrow> P (f s)) \<Longrightarrow> P ((f ^^ n) s)"
  by (induction n) auto

end
