(* ===== verification/JQ_Core.thy ===== *)
theory JQ_Core
  imports JS_Prelude
begin

text \<open>
  The utilities of \<^verbatim>\<open>jquery.js\<close> that every other part calls: array searches and
  merges, \<open>each\<close>, \<open>grep\<close> and \<open>map\<close>, \<open>trim\<close> and \<open>camelCase\<close>, and the
  stack of matched sets (\<open>eq\<close>, \<open>first\<close>, \<open>last\<close>, \<open>end\<close>).  Arrays are
  lists; a callback with effects is a function on an explicit state; a callback that returns
  \<open>false\<close> returns \<^const>\<open>True\<close> in its second component.
\<close>

section \<open>Searching and merging arrays\<close>

definition from_index :: "nat \<Rightarrow> int option \<Rightarrow> int" where
  "from_index len i =
     (case i of None \<Rightarrow> 0 | Some k \<Rightarrow> if k < 0 then max 0 (int len + k) else k)"

definition inArray :: "'a \<Rightarrow> 'a list option \<Rightarrow> int option \<Rightarrow> int" where
  "inArray elem arr i =
     (case arr of None \<Rightarrow> -1
      | Some xs \<Rightarrow> (let s = from_index (length xs) i in scan elem (drop (nat s) xs) s))"

lemma from_index_nonneg [simp]: "0 \<le> from_index n i"
  by (simp add: from_index_def split: option.splits)

lemma inArray_absent [js_arr]: "elem \<notin> set xs \<Longrightarrow> inArray elem (Some xs) i = -1"
  by (auto simp: inArray_def Let_def intro!: scan_notin dest: in_set_dropD)

lemma inArray_found [js_arr]:
  assumes "inArray elem (Some xs) i = r" "r \<noteq> -1"
  shows "from_index (length xs) i \<le> r" "nat r < length xs" "xs ! nat r = elem" "0 \<le> r"
    and "\<forall>j. from_index (length xs) i \<le> int j \<and> int j < r \<longrightarrow> xs ! j \<noteq> elem"
proof -
  let ?s = "from_index (length xs) i"
  let ?ys = "drop (nat ?s) xs"
  have "elem \<in> set ?ys"
    using assms scan_notin [of elem ?ys ?s] by (auto simp: inArray_def Let_def)
  then obtain n where n: "n < length ?ys" "scan elem ?ys ?s = ?s + int n" "?ys ! n = elem"
    "elem \<notin> set (take n ?ys)" using scan_in by metis
  then have r: "r = ?s + int n" using assms by (simp add: inArray_def Let_def)
  have s: "0 \<le> ?s" by simp
  show "?s \<le> r" "0 \<le> r" using r s by simp_all
  show "nat r < length xs" using r n s by (simp add: nat_add_distrib)
  show "xs ! nat r = elem" using r n s by (simp add: nat_add_distrib add.commute)
  show "\<forall>j. ?s \<le> int j \<and> int j < r \<longrightarrow> xs ! j \<noteq> elem"
  proof (intro allI impI)
    fix j assume j: "?s \<le> int j \<and> int j < r"
    let ?m = "j - nat ?s"
    have m: "?m < n" "nat ?s + ?m = j" using j r s by linarith+
    then have "take n ?ys ! ?m \<in> set (take n ?ys)"
      using n(1) by (intro nth_mem) simp
    moreover have "take n ?ys ! ?m = xs ! j" using m n(1) by simp
    ultimately show "xs ! j \<noteq> elem" using n(4) by auto
  qed
qed

lemma inArray_0_iff [js_arr]: "inArray elem (Some xs) None = -1 \<longleftrightarrow> elem \<notin> set xs"
  by (simp add: inArray_def from_index_def scan_eq_m1)

lemma inArray_ge: "-1 \<le> inArray elem arr i"
proof (cases arr)
  case (Some xs)
  then show ?thesis using inArray_found(4) [of elem xs i "inArray elem arr i"] by force
qed (simp add: inArray_def)

lemma inArray_gt_iff [js_arr, simp]: "-1 < inArray elem (Some xs) None \<longleftrightarrow> elem \<in> set xs"
  using inArray_ge [of elem "Some xs" None] inArray_0_iff [of elem xs] by force

text \<open>
  \<open>merge\<close>: the copying loop writes \<open>first[i++] = second[j++]\<close>; a write at the end
  of the array makes it longer.
\<close>

fun merge_loop :: "'a list \<Rightarrow> 'a list \<Rightarrow> nat \<Rightarrow> nat \<Rightarrow> nat \<Rightarrow> 'a list" where
  "merge_loop as bs len i 0 = as"
| "merge_loop as bs len i (Suc n) =
     merge_loop (if i < length as then as[i := bs ! (len - Suc n)] else as @ [bs ! (len - Suc n)])
       bs len (Suc i) n"

definition merge :: "'a list \<Rightarrow> 'a list \<Rightarrow> 'a list" where
  "merge as bs = merge_loop as bs (length bs) (length as) (length bs)"

lemma merge_loop_append:
  "n \<le> length bs \<Longrightarrow>
   merge_loop as bs (length bs) (length as) n = as @ drop (length bs - n) bs"
proof (induction n arbitrary: as)
  case (Suc n)
  let ?k = "length bs - Suc n"
  have "merge_loop as bs (length bs) (length as) (Suc n) =
      merge_loop (as @ [bs ! ?k]) bs (length bs) (length (as @ [bs ! ?k])) n"
    by simp
  also have "\<dots> = (as @ [bs ! ?k]) @ drop (length bs - n) bs"
    using Suc by (intro Suc.IH) simp
  also have "\<dots> = as @ drop ?k bs"
    using Suc.prems by (simp add: Suc_diff_Suc Cons_nth_drop_Suc [symmetric])
  finally show ?case .
qed simp

lemma merge_append [js_arr, simp]: "merge as bs = as @ bs"
  using merge_loop_append [of "length bs" bs as] by (simp add: merge_def)

section \<open>each, grep and map\<close>

text \<open>
  \<open>each\<close> reads the length (or the keys) once, then the element at each round from the
  object as it is at that moment, since the callback may have changed it.
\<close>

fun each_keys :: "('s \<Rightarrow> 'k \<Rightarrow> 'v) \<Rightarrow> ('s \<Rightarrow> 'k \<Rightarrow> 'v \<Rightarrow> 's \<times> bool) \<Rightarrow> 'k list \<Rightarrow> 's \<Rightarrow> 's" where
  "each_keys at callback [] s = s"
| "each_keys at callback (i # is) s =
     (let (s', isFalse) = callback s i (at s i)
      in if isFalse then s' else each_keys at callback is s')"

definition each_array :: "('s \<Rightarrow> nat \<Rightarrow> 'v) \<Rightarrow> ('s \<Rightarrow> nat \<Rightarrow> 'v \<Rightarrow> 's \<times> bool) \<Rightarrow> nat \<Rightarrow> 's \<Rightarrow> 's" where
  "each_array at callback len s = each_keys at callback [0..<len] s"

fun grep_loop :: "('a \<Rightarrow> nat \<Rightarrow> bool) \<Rightarrow> bool \<Rightarrow> 'a list \<Rightarrow> nat \<Rightarrow> 'a list \<Rightarrow> 'a list" where
  "grep_loop callback callbackExpect [] i matches = matches"
| "grep_loop callback callbackExpect (x # xs) i matches =
     (let callbackInverse = (\<not> callback x i)
      in grep_loop callback callbackExpect xs (Suc i)
           (if callbackInverse \<noteq> callbackExpect then matches @ [x] else matches))"

definition grep :: "'a list \<Rightarrow> ('a \<Rightarrow> nat \<Rightarrow> bool) \<Rightarrow> bool \<Rightarrow> 'a list" where
  "grep elems callback invert = grep_loop callback (\<not> invert) elems 0 []"

text \<open>The value a \<open>map\<close> callback returns: null or undefined, a single value, or an array.\<close>

datatype 'b mapret = NoVal | One 'b | Many "'b list"

fun flat :: "'b mapret list \<Rightarrow> 'b list" where
  "flat [] = []"
| "flat (NoVal # rs) = flat rs"
| "flat (One b # rs) = b # flat rs"
| "flat (Many bs # rs) = bs @ flat rs"

fun map_loop :: "('a \<Rightarrow> 'k \<Rightarrow> 'b mapret) \<Rightarrow> ('k \<times> 'a) list \<Rightarrow> 'b mapret list \<Rightarrow> 'b mapret list" where
  "map_loop callback [] ret = ret"
| "map_loop callback ((i, x) # xs) ret =
     (let value = callback x i
      in map_loop callback xs (if value \<noteq> NoVal then ret @ [value] else ret))"

definition jq_map :: "('k \<times> 'a) list \<Rightarrow> ('a \<Rightarrow> 'k \<Rightarrow> 'b mapret) \<Rightarrow> 'b list" where
  "jq_map elems callback = flat (map_loop callback elems [])"

lemma each_keys_no_break:
  "(\<And>s i v. \<not> snd (callback s i v)) \<Longrightarrow>
   each_keys at callback ks s = foldl (\<lambda>s i. fst (callback s i (at s i))) s ks"
  by (induction ks arbitrary: s) (auto simp: Let_def split: prod.splits, metis snd_conv)

lemma grep_loop_app: "grep_loop p e xs i ms = ms @ grep_loop p e xs i []"
proof (induction xs arbitrary: i ms)
  case (Cons x xs)
  show ?case
    using Cons [of "Suc i" "ms @ [x]"] Cons [of "Suc i" "[x]"] Cons [of "Suc i" ms]
    by (simp add: Let_def)
qed simp

lemma grep_loop_filter:
  "grep_loop p e xs i [] = map fst (filter (\<lambda>(x, j). p x j = e) (zip xs [i..<i + length xs]))"
proof (induction xs arbitrary: i)
  case (Cons x xs)
  have "[i..<i + length (x # xs)] = i # [Suc i..<Suc i + length xs]"
    by (simp add: upt_rec)
  with Cons [of "Suc i"] show ?case
    using grep_loop_app [of p e xs "Suc i" "[x]"] by (auto simp: Let_def)
qed simp

lemma flat_append: "flat (xs @ ys) = flat xs @ flat ys"
  by (induction xs rule: flat.induct) auto

lemma map_loop_flat: "flat (map_loop f xs ret) = flat ret @ flat (map (\<lambda>(i, x). f x i) xs)"
proof (induction xs arbitrary: ret)
  case (Cons a xs)
  then show ?case
    by (cases a; cases "f (snd a) (fst a)") (auto simp: flat_append Let_def)
qed simp

lemma jq_map_flat: "jq_map xs f = flat (map (\<lambda>(i, x). f x i) xs)"
  by (simp add: jq_map_def map_loop_flat)

section \<open>Strings\<close>

text \<open>
  \<open>trim\<close> replaces the matches of \<open>/^[\s\uFEFF\xA0]+|[\s\uFEFF\xA0]+$/g\<close> by nothing:
  a run of white space at the start, then one at the end.
\<close>

definition trim :: "string \<Rightarrow> string" where
  "trim text = rev (dropWhile is_space (rev (dropWhile is_space text)))"

definition jq_trim :: "string option \<Rightarrow> string" where
  "jq_trim text = (case text of None \<Rightarrow> '''' | Some t \<Rightarrow> trim t)"

definition is_da_z :: "char \<Rightarrow> bool" where
  "is_da_z c \<longleftrightarrow> is_digit c \<or> is_lower c \<or> is_upper c"

text \<open>\<open>replace(/-([\da-z])/gi, fcamelCase)\<close>: leftmost matches, each consumed whole.\<close>

fun dashes :: "string \<Rightarrow> string" where
  "dashes [] = []"
| "dashes [c] = [c]"
| "dashes (c # d # cs) =
     (if c = CHR ''-'' \<and> is_da_z d then to_upper d # dashes cs else c # dashes (d # cs))"

definition camelCase :: "string \<Rightarrow> string" where
  "camelCase s =
     dashes (if take 4 s = ''-ms-'' then ''ms-'' @ drop 4 s else s)"

lemma trim_decompose:
  "\<exists>l r. text = l @ trim text @ r \<and> (\<forall>c \<in> set l. is_space c) \<and> (\<forall>c \<in> set r. is_space c)"
proof -
  let ?t = "dropWhile is_space text"
  have 1: "text = takeWhile is_space text @ ?t" by simp
  have "rev ?t = takeWhile is_space (rev ?t) @ dropWhile is_space (rev ?t)" by simp
  then have 2: "?t = trim text @ rev (takeWhile is_space (rev ?t))"
    by (metis rev_append rev_rev_ident trim_def)
  show ?thesis
    using 1 2 by (intro exI [of _ "takeWhile is_space text"] exI [of _ "rev (takeWhile is_space (rev ?t))"])
      (auto dest: set_takeWhileD)
qed

lemma hd_dropWhile_space: "dropWhile is_space s \<noteq> [] \<Longrightarrow> \<not> is_space (hd (dropWhile is_space s))"
  by (rule hd_dropWhile)

lemma trim_last: "trim s \<noteq> [] \<Longrightarrow> \<not> is_space (last (trim s))"
  by (simp add: trim_def last_rev hd_dropWhile_space)

lemma trim_hd: assumes "trim s \<noteq> []" shows "\<not> is_space (hd (trim s))"
proof -
  let ?t = "dropWhile is_space s"
  have "rev ?t = takeWhile is_space (rev ?t) @ dropWhile is_space (rev ?t)" by simp
  then have "?t = trim s @ rev (takeWhile is_space (rev ?t))"
    by (metis rev_append rev_rev_ident trim_def)
  then have "hd ?t = hd (trim s)" "?t \<noteq> []" using assms
    by (metis hd_append2, metis append_is_Nil_conv)
  then show ?thesis using hd_dropWhile_space [of s] by simp
qed

lemma dropWhile_hd: "s = [] \<or> \<not> P (hd s) \<Longrightarrow> dropWhile P s = s"
  by (cases s) auto

lemma trim_id: "s = [] \<or> \<not> is_space (hd s) \<and> \<not> is_space (last s) \<Longrightarrow> trim s = s"
  by (auto simp: trim_def dropWhile_hd hd_rev)

lemma trim_idem: "trim (trim s) = trim s"
  using trim_hd [of s] trim_last [of s] by (intro trim_id) auto

section \<open>The stack of matched sets\<close>

text \<open>A jQuery object: its elements, and the object it was derived from (\<open>prevObject\<close>).\<close>

datatype 'e jq = JQ (elems: "'e list") (prevObject: "'e jq option")

definition pushStack :: "'e jq \<Rightarrow> 'e list \<Rightarrow> 'e jq" where
  "pushStack this es = JQ (merge [] es) (Some this)"

definition jq_get :: "'e jq \<Rightarrow> int \<Rightarrow> 'e option" where
  "jq_get this num =
     (let j = (if num < 0 then num + int (length (elems this)) else num)
      in if 0 \<le> j \<and> j < int (length (elems this)) then Some (elems this ! nat j) else None)"

definition jq_eq :: "'e jq \<Rightarrow> int \<Rightarrow> 'e jq" where
  "jq_eq this i =
     (let len = int (length (elems this)); j = i + (if i < 0 then len else 0)
      in pushStack this (if 0 \<le> j \<and> j < len then [elems this ! nat j] else []))"

definition jq_first :: "'e jq \<Rightarrow> 'e jq" where
  "jq_first this = jq_eq this 0"

definition jq_last :: "'e jq \<Rightarrow> 'e jq" where
  "jq_last this = jq_eq this (-1)"

definition jq_end :: "'e jq \<Rightarrow> 'e jq" where
  "jq_end this = (case prevObject this of Some p \<Rightarrow> p | None \<Rightarrow> JQ [] None)"

lemma jq_end_pushStack [simp]: "jq_end (pushStack this es) = this"
  by (simp add: jq_end_def pushStack_def)

lemma elems_pushStack [simp]: "elems (pushStack this es) = es"
  by (simp add: pushStack_def)

lemma elems_jq_eq: "elems (jq_eq this i) = (case jq_get this i of Some e \<Rightarrow> [e] | None \<Rightarrow> [])"
  by (simp add: jq_eq_def jq_get_def Let_def add.commute)

section \<open>The properties\<close>

text \<open>
  \<open>trim\<close> takes away white space only, at both ends only, and all of it: what is left neither
  begins nor ends with white space, and trimming again changes nothing; the index \<open>inArray\<close>
  gives is -1 exactly for what is not there, and otherwise the first place where it is.
\<close>

theorem trim_inArray:
  "(\<exists>l r. s = l @ trim s @ r \<and> (\<forall>c \<in> set l. is_space c) \<and> (\<forall>c \<in> set r. is_space c)) \<and>
   (trim s = [] \<or> \<not> is_space (hd (trim s)) \<and> \<not> is_space (last (trim s))) \<and> trim (trim s) = trim s \<and>
   (let r = inArray e (Some xs) None
    in if e \<in> set xs then 0 \<le> r \<and> nat r < length xs \<and> xs ! nat r = e \<and> (\<forall>j < nat r. xs ! j \<noteq> e) else r = -1)"
proof -
  let ?r = "inArray e (Some xs) None"
  have "0 \<le> ?r \<and> nat ?r < length xs \<and> xs ! nat ?r = e \<and> (\<forall>j < nat ?r. xs ! j \<noteq> e)" if "e \<in> set xs"
  proof -
    have "?r \<noteq> -1" using that inArray_0_iff [of e xs] by blast
    note f = inArray_found [OF refl this]
    have "xs ! j \<noteq> e" if "j < nat ?r" for j
      using f(4,5) that by (auto simp: from_index_def)
    with f show ?thesis by blast
  qed
  then show ?thesis
    using trim_decompose [of s] trim_hd [of s] trim_last [of s] trim_idem [of s]
    by (auto simp: Let_def inArray_absent)
qed

theorem trim_inArray_witness:
  "trim '' a b '' = ''a b'' \<and> trim (trim '' a b '') = trim '' a b ''"
proof -
  have "trim '' a b '' = ''a b''" by code_simp
  then show ?thesis using trim_inArray [of "'' a b ''" "1 :: nat" "[1]"] by simp
qed

end
