(* ===== verification/JQ_Callbacks.thy ===== *)
theory JQ_Callbacks
  imports JQ_Core
begin

text \<open>
  \<open>jQuery.Callbacks\<close>: the callback lists behind deferreds, the ready queue, ajax
  completion and element queues.  A world holds any number of lists, the log of the calls
  made (a ghost) and the rest of the page's state (\<open>w_ext\<close>).  A callback may call back
  into any list while it runs: what it does is the list of operations the parameter \<open>beh\<close>
  gives for the world it is called in, and whether it returned \<open>false\<close>; an operation may look at
  the rest of the state when its turn comes and go on as it finds it (\<open>Dyn\<close>), or call a function
  that is in no list (\<open>Apply\<close>).  Since such a
  program may run forever the interpreter takes fuel.
\<close>

section \<open>State\<close>

record ('f, 'd) cbs =
  opt_once :: bool
  opt_memory :: bool
  opt_unique :: bool
  opt_stopOnFalse :: bool
  firing :: bool
  memory :: "'d option"
  fired :: bool
  firingLength :: int
  firingIndex :: int
  firingStart :: int
  cb_list :: "'f list option"
  stack :: "'d list option"

record ('f, 'd, 'x) world =
  w_lists :: "nat \<Rightarrow> ('f, 'd) cbs"
  w_log :: "(nat \<times> 'f \<times> 'd) list"
  w_ext :: 'x

text \<open>
  Options are given as a string of flags or as an object.  Parsed strings are kept in a
  cache; the object of a string maps every white-space separated word to \<open>true\<close>.
\<close>

type_synonym opts = "bool obj"

datatype cboptions = OptString string | OptObject opts

definition createOptions :: "opts obj \<Rightarrow> string \<Rightarrow> opts obj \<times> opts" where
  "createOptions optionsCache options =
     (let ob = foldl (\<lambda>ob flag. oset ob flag True) [] (words options)
      in (oset optionsCache options ob, ob))"

definition opt :: "opts \<Rightarrow> string \<Rightarrow> bool" where
  "opt os k = (oget os k = Some True)"

definition new_cbs :: "opts \<Rightarrow> ('f, 'd) cbs" where
  "new_cbs os =
     \<lparr>opt_once = opt os ''once'', opt_memory = opt os ''memory'', opt_unique = opt os ''unique'',
      opt_stopOnFalse = opt os ''stopOnFalse'', firing = False, memory = None, fired = False,
      firingLength = 0, firingIndex = 0, firingStart = 0, cb_list = Some [],
      stack = (if opt os ''once'' then None else Some [])\<rparr>"

definition Callbacks :: "opts obj \<Rightarrow> cboptions \<Rightarrow> opts obj \<times> ('f, 'd) cbs" where
  "Callbacks optionsCache options =
     (case options of
        OptString s \<Rightarrow>
          (case oget optionsCache s of
             Some os \<Rightarrow> (optionsCache, new_cbs os)
           | None \<Rightarrow> (let (cache, os) = createOptions optionsCache s in (cache, new_cbs os)))
      | OptObject os \<Rightarrow> (optionsCache, new_cbs os))"

section \<open>Operations\<close>

text \<open>
  The arguments of \<open>add\<close> are functions, arrays to inspect recursively, or anything else
  (ignored).  \<open>add_args\<close> is the inner function \<open>add\<close>, on the list as it grows.
\<close>

datatype 'f arg = AFun 'f | AArr "'f arg list" | AOther

fun add_args :: "bool \<Rightarrow> 'f list \<Rightarrow> 'f arg list \<Rightarrow> 'f list" where
  "add_args uniq fs [] = fs"
| "add_args uniq fs (AFun f # as) =
     add_args uniq (if \<not> uniq \<or> \<not> inArray f (Some fs) None > -1 then fs @ [f] else fs) as"
| "add_args uniq fs (AArr xs # as) = add_args uniq (add_args uniq fs xs) as"
| "add_args uniq fs (AOther # as) = add_args uniq fs as"

text \<open>The \<open>while\<close> loop of \<open>remove\<close> for one argument, from the last index found.\<close>

lemma inArray_less: "inArray f (Some fs) (Some i) > -1 \<Longrightarrow> nat (inArray f (Some fs) (Some i)) < length fs"
  using inArray_found(2) [of f fs "Some i" "inArray f (Some fs) (Some i)"] by simp

function remove_one :: "'f \<Rightarrow> int \<Rightarrow> 'f list \<times> int \<times> int \<Rightarrow> bool \<Rightarrow> 'f list \<times> int \<times> int" where
  "remove_one arg index (fs, fLength, fIndex) fng =
     (let index' = inArray arg (Some fs) (Some index)
      in if index' > -1
         then remove_one arg index'
                (splice_out (nat index') fs,
                 (if fng \<and> index' \<le> fLength then fLength - 1 else fLength),
                 (if fng \<and> index' \<le> fIndex then fIndex - 1 else fIndex)) fng
         else (fs, fLength, fIndex))"
  by pat_completeness auto
termination
  using inArray_less
  by (relation "measure (\<lambda>(arg, index, (fs, _), fng). length fs)") (auto simp: Let_def, fastforce)

declare remove_one.simps [simp del]

definition cb_remove :: "'f list \<Rightarrow> ('f, 'd) cbs \<Rightarrow> ('f, 'd) cbs" where
  "cb_remove args c =
     (case cb_list c of
        None \<Rightarrow> c
      | Some fs \<Rightarrow>
          (let (fs', fl, fi) =
             foldl (\<lambda>st arg. remove_one arg 0 st (firing c)) (fs, firingLength c, firingIndex c) args
           in c\<lparr>cb_list := Some fs', firingLength := fl, firingIndex := fi\<rparr>))"

definition cb_has :: "'f option \<Rightarrow> ('f, 'd) cbs \<Rightarrow> bool" where
  "cb_has fn c =
     (case fn of Some f \<Rightarrow> inArray f (cb_list c) None > -1
      | None \<Rightarrow> (case cb_list c of None \<Rightarrow> False | Some fs \<Rightarrow> fs \<noteq> []))"

definition cb_empty :: "('f, 'd) cbs \<Rightarrow> ('f, 'd) cbs" where
  "cb_empty c = c\<lparr>cb_list := Some [], firingLength := 0\<rparr>"

definition cb_disable :: "('f, 'd) cbs \<Rightarrow> ('f, 'd) cbs" where
  "cb_disable c = c\<lparr>cb_list := None, stack := None, memory := None\<rparr>"

definition cb_disabled :: "('f, 'd) cbs \<Rightarrow> bool" where
  "cb_disabled c = (cb_list c = None)"

definition cb_lock :: "('f, 'd) cbs \<Rightarrow> ('f, 'd) cbs" where
  "cb_lock c =
     (let c1 = c\<lparr>stack := None\<rparr> in if memory c1 = None then cb_disable c1 else c1)"

definition cb_locked :: "('f, 'd) cbs \<Rightarrow> bool" where
  "cb_locked c = (stack c = None)"

section \<open>Running\<close>

datatype ('f, 'd) cop =
  Add "'f arg list" | Remove "'f list" | Empty | Disable | Lock | FireWith 'd

datatype ('f, 'd, 'x) op =
  On nat "('f, 'd) cop" | Ext "'x \<Rightarrow> 'x" | Raise | Dyn "'x \<Rightarrow> ('f, 'd, 'x) op list"
| Apply 'f 'd

datatype exn = TypeError | UserError

datatype 'w outcome = Done 'w | Thrown exn 'w | NoFuel

type_synonym ('f, 'd, 'x) beh =
  "('f, 'd, 'x) world \<Rightarrow> 'f \<Rightarrow> 'd \<Rightarrow> ('f, 'd, 'x) op list \<times> bool"

definition upd :: "nat \<Rightarrow> (('f, 'd) cbs \<Rightarrow> ('f, 'd) cbs) \<Rightarrow> ('f, 'd, 'x) world \<Rightarrow> ('f, 'd, 'x) world" where
  "upd l g w = w\<lparr>w_lists := (w_lists w)(l := g (w_lists w l))\<rparr>"

definition call :: "nat \<Rightarrow> 'f \<Rightarrow> 'd \<Rightarrow> ('f, 'd, 'x) world \<Rightarrow> ('f, 'd, 'x) world" where
  "call l f d w = w\<lparr>w_log := w_log w @ [(l, f, d)]\<rparr>"

definition begin_fire :: "'d \<Rightarrow> ('f, 'd) cbs \<Rightarrow> ('f, 'd) cbs" where
  "begin_fire d c =
     c\<lparr>memory := (if opt_memory c then Some d else None), fired := True,
       firingIndex := firingStart c, firingStart := 0,
       firingLength := (case cb_list c of Some fs \<Rightarrow> int (length fs) | None \<Rightarrow> 0), firing := True\<rparr>"

text \<open>
  What the interpreter has to do next: fire a list, continue its loop, perform one operation,
  or perform several.  Each function below is the body of one of them, with its recursive
  calls made through \<open>rec\<close>; \<open>run\<close> ties the knot and counts the fuel.  Reading
  \<open>list.length\<close> of an undefined list, \<open>list[i].apply\<close> out of range and \<open>push\<close> on an
  undefined stack throw.
\<close>

datatype ('f, 'd, 'x) task =
  TFire nat 'd | TLoop nat 'd | TOp "('f, 'd, 'x) op" | TOps "('f, 'd, 'x) op list"

type_synonym ('f, 'd, 'x) runner =
  "('f, 'd, 'x) task \<Rightarrow> ('f, 'd, 'x) world \<Rightarrow> ('f, 'd, 'x) world outcome"

definition after_loop :: "('f, 'd, 'x) runner \<Rightarrow> nat \<Rightarrow> ('f, 'd, 'x) world \<Rightarrow> ('f, 'd, 'x) world outcome" where
  "after_loop rec l w1 =
     (let w2 = upd l (\<lambda>c. c\<lparr>firing := False\<rparr>) w1; c = w_lists w2 l
      in if cb_list c = None then Done w2
         else case stack c of
           Some [] \<Rightarrow> Done w2
         | Some (d' # ds) \<Rightarrow> rec (TFire l d') (upd l (\<lambda>c. c\<lparr>stack := Some ds\<rparr>) w2)
         | None \<Rightarrow>
             (if memory c \<noteq> None then Done (upd l (\<lambda>c. c\<lparr>cb_list := Some []\<rparr>) w2)
              else Done (upd l cb_disable w2)))"

definition fire :: "('f, 'd, 'x) runner \<Rightarrow> nat \<Rightarrow> 'd \<Rightarrow> ('f, 'd, 'x) world \<Rightarrow> ('f, 'd, 'x) world outcome" where
  "fire rec l d w =
     (if cb_list (w_lists w l) = None then Thrown TypeError w
      else case rec (TLoop l d) (upd l (begin_fire d) w) of
        Done w1 \<Rightarrow> after_loop rec l w1
      | r \<Rightarrow> r)"

definition fire_loop ::
  "('f, 'd, 'x) runner \<Rightarrow> ('f, 'd, 'x) beh \<Rightarrow> nat \<Rightarrow> 'd \<Rightarrow> ('f, 'd, 'x) world \<Rightarrow> ('f, 'd, 'x) world outcome" where
  "fire_loop rec beh l d w =
     (let c = w_lists w l
      in case cb_list c of
        None \<Rightarrow> Done w
      | Some fs \<Rightarrow>
          (if \<not> firingIndex c < firingLength c then Done w
           else if \<not> (0 \<le> firingIndex c \<and> nat (firingIndex c) < length fs) then Thrown TypeError w
           else let f = fs ! nat (firingIndex c); w0 = call l f d w; (ops, isFalse) = beh w0 f d
             in case rec (TOps ops) w0 of
                Done w1 \<Rightarrow>
                  (if isFalse \<and> opt_stopOnFalse c then Done (upd l (\<lambda>c. c\<lparr>memory := None\<rparr>) w1)
                   else rec (TLoop l d) (upd l (\<lambda>c. c\<lparr>firingIndex := firingIndex c + 1\<rparr>) w1))
              | r \<Rightarrow> r))"

definition cb_add ::
  "('f, 'd, 'x) runner \<Rightarrow> nat \<Rightarrow> 'f arg list \<Rightarrow> ('f, 'd, 'x) world \<Rightarrow> ('f, 'd, 'x) world outcome" where
  "cb_add rec l args w =
     (let c = w_lists w l
      in case cb_list c of
        None \<Rightarrow> Done w
      | Some fs \<Rightarrow>
          (let fs' = add_args (opt_unique c) fs args;
               w1 = upd l (\<lambda>c. c\<lparr>cb_list := Some fs'\<rparr>) w
           in if firing c then Done (upd l (\<lambda>c. c\<lparr>firingLength := int (length fs')\<rparr>) w1)
              else case memory c of
                None \<Rightarrow> Done w1
              | Some m \<Rightarrow> rec (TFire l m) (upd l (\<lambda>c. c\<lparr>firingStart := int (length fs)\<rparr>) w1)))"

definition cb_fireWith ::
  "('f, 'd, 'x) runner \<Rightarrow> nat \<Rightarrow> 'd \<Rightarrow> ('f, 'd, 'x) world \<Rightarrow> ('f, 'd, 'x) world outcome" where
  "cb_fireWith rec l d w =
     (let c = w_lists w l
      in if cb_list c \<noteq> None \<and> (\<not> fired c \<or> stack c \<noteq> None)
         then if firing c
              then (case stack c of
                      Some ds \<Rightarrow> Done (upd l (\<lambda>c. c\<lparr>stack := Some (ds @ [d])\<rparr>) w)
                    | None \<Rightarrow> Thrown TypeError w)
              else rec (TFire l d) w
         else Done w)"

definition list_op ::
  "('f, 'd, 'x) runner \<Rightarrow> nat \<Rightarrow> ('f, 'd) cop \<Rightarrow> ('f, 'd, 'x) world \<Rightarrow> ('f, 'd, 'x) world outcome" where
  "list_op rec l p w =
     (case p of
        Add args \<Rightarrow> cb_add rec l args w
      | Remove args \<Rightarrow> Done (upd l (cb_remove args) w)
      | Empty \<Rightarrow> Done (upd l cb_empty w)
      | Disable \<Rightarrow> Done (upd l cb_disable w)
      | Lock \<Rightarrow> Done (upd l cb_lock w)
      | FireWith d \<Rightarrow> cb_fireWith rec l d w)"

definition run_op ::
  "('f, 'd, 'x) runner \<Rightarrow> ('f, 'd, 'x) beh \<Rightarrow> ('f, 'd, 'x) op \<Rightarrow> ('f, 'd, 'x) world \<Rightarrow> ('f, 'd, 'x) world outcome" where
  "run_op rec beh p w =
     (case p of
        On l q \<Rightarrow> list_op rec l q w
      | Ext g \<Rightarrow> Done (w\<lparr>w_ext := g (w_ext w)\<rparr>)
      | Raise \<Rightarrow> Thrown UserError w
      | Dyn g \<Rightarrow> rec (TOps (g (w_ext w))) w
      | Apply f d \<Rightarrow> rec (TOps (fst (beh w f d))) w)"

definition run_ops ::
  "('f, 'd, 'x) runner \<Rightarrow> ('f, 'd, 'x) op list \<Rightarrow> ('f, 'd, 'x) world \<Rightarrow> ('f, 'd, 'x) world outcome" where
  "run_ops rec ps w =
     (case ps of
        [] \<Rightarrow> Done w
      | p # ps' \<Rightarrow> (case rec (TOp p) w of Done w1 \<Rightarrow> rec (TOps ps') w1 | r \<Rightarrow> r))"

primrec run :: "nat \<Rightarrow> ('f, 'd, 'x) beh \<Rightarrow> ('f, 'd, 'x) runner" where
  "run 0 beh t w = NoFuel"
| "run (Suc n) beh t w =
     (case t of
        TFire l d \<Rightarrow> fire (run n beh) l d w
      | TLoop l d \<Rightarrow> fire_loop (run n beh) beh l d w
      | TOp p \<Rightarrow> run_op (run n beh) beh p w
      | TOps ps \<Rightarrow> run_ops (run n beh) ps w)"

section \<open>Well-formed lists\<close>

text \<open>
  What every list keeps true, whatever its callbacks do: a firing list has fired; a
  \<open>once\<close> list has no stack of pending fires; a \<open>unique\<close> list has no duplicate; and
  while a list fires, its batch ends at the end of the list and its index is at least -1, so
  that the next callback is always found.
\<close>

definition cb_wf :: "('f, 'd) cbs \<Rightarrow> bool" where
  "cb_wf c \<longleftrightarrow>
     (firing c \<longrightarrow> fired c) \<and> (opt_once c \<longrightarrow> stack c = None) \<and>
     (opt_unique c \<longrightarrow> (\<forall>fs. cb_list c = Some fs \<longrightarrow> distinct fs)) \<and>
     0 \<le> firingStart c \<and>
     (firing c \<longrightarrow> -1 \<le> firingIndex c \<and>
        (\<forall>fs. cb_list c = Some fs \<longrightarrow> firingLength c = int (length fs)))"

definition wf_world :: "('f, 'd, 'x) world \<Rightarrow> bool" where
  "wf_world w \<longleftrightarrow> (\<forall>l. cb_wf (w_lists w l))"

definition same_opts :: "('f, 'd) cbs \<Rightarrow> ('f, 'd) cbs \<Rightarrow> bool" where
  "same_opts c c' \<longleftrightarrow> opt_once c' = opt_once c \<and> opt_memory c' = opt_memory c \<and>
     opt_unique c' = opt_unique c \<and> opt_stopOnFalse c' = opt_stopOnFalse c"

text \<open>What a completed run keeps: the options and the firing flag of every list.\<close>

definition keeps :: "('f, 'd, 'x) world \<Rightarrow> ('f, 'd, 'x) world \<Rightarrow> bool" where
  "keeps w w' \<longleftrightarrow>
     (\<forall>l. same_opts (w_lists w l) (w_lists w' l) \<and> firing (w_lists w' l) = firing (w_lists w l))"

definition task_ok :: "('f, 'd, 'x) task \<Rightarrow> ('f, 'd, 'x) world \<Rightarrow> bool" where
  "task_ok t w = (case t of
     TFire l d \<Rightarrow> \<not> firing (w_lists w l) \<and> cb_list (w_lists w l) \<noteq> None
   | TLoop l d \<Rightarrow> firing (w_lists w l) \<and> 0 \<le> firingIndex (w_lists w l)
   | _ \<Rightarrow> True)"

definition good :: "('f, 'd, 'x) world \<Rightarrow> ('f, 'd, 'x) world outcome \<Rightarrow> bool" where
  "good w r = (case r of
     Done w' \<Rightarrow> wf_world w' \<and> keeps w w'
   | Thrown e w' \<Rightarrow> e \<noteq> TypeError \<and> wf_world w'
   | NoFuel \<Rightarrow> True)"

definition sound :: "('f, 'd, 'x) runner \<Rightarrow> bool" where
  "sound rec \<longleftrightarrow> (\<forall>t w. wf_world w \<longrightarrow> task_ok t w \<longrightarrow> good w (rec t w))"

lemma lists_upd [simp]: "w_lists (upd l g w) k = (if k = l then g (w_lists w l) else w_lists w k)"
  by (simp add: upd_def)

lemma upd_other [simp]: "w_log (upd l g w) = w_log w" "w_ext (upd l g w) = w_ext w"
  by (simp_all add: upd_def)

lemma call_simps [simp]: "w_lists (call l f d w) = w_lists w" "w_ext (call l f d w) = w_ext w"
  "w_log (call l f d w) = w_log w @ [(l, f, d)]"
  by (simp_all add: call_def)

lemma wf_upd: "wf_world w \<Longrightarrow> cb_wf (g (w_lists w l)) \<Longrightarrow> wf_world (upd l g w)"
  by (simp add: wf_world_def)

lemma wf_at: "wf_world w \<Longrightarrow> cb_wf (w_lists w l)"
  by (simp add: wf_world_def)

lemma keeps_refl [simp]: "keeps w w"
  by (simp add: keeps_def same_opts_def)

lemma keeps_trans: "keeps w w1 \<Longrightarrow> keeps w1 w2 \<Longrightarrow> keeps w w2"
  by (simp add: keeps_def same_opts_def)

lemma keeps_upd:
  "same_opts (w_lists w l) (g (w_lists w l)) \<Longrightarrow> firing (g (w_lists w l)) = firing (w_lists w l) \<Longrightarrow>
   keeps w (upd l g w)"
  by (simp add: keeps_def same_opts_def)

lemma good_mono: "good w1 r \<Longrightarrow> keeps w w1 \<Longrightarrow> good w r"
  by (auto simp: good_def split: outcome.splits intro: keeps_trans)

lemma good_Done: "good w (Done w') \<longleftrightarrow> wf_world w' \<and> keeps w w'"
  by (simp add: good_def)

lemma distinct_add_args: "distinct fs \<Longrightarrow> distinct (add_args True fs as)"
  by (induction "True" fs as rule: add_args.induct) auto

lemma add_args_plain: "add_args False fs (map AFun gs) = fs @ gs"
  by (induction gs arbitrary: fs) auto

lemma removeAll_splice: "j < length fs \<Longrightarrow> fs ! j = x \<Longrightarrow> removeAll x (splice_out j fs) = removeAll x fs"
proof -
  assume j: "j < length fs" "fs ! j = x"
  then have "removeAll x fs = removeAll x (take j fs @ x # drop (Suc j) fs)"
    by (metis id_take_nth_drop)
  then show ?thesis by (simp add: splice_out_def)
qed

lemma drop_splice_le: "j < length fs \<Longrightarrow> j \<le> k \<Longrightarrow> drop k (splice_out j fs) = drop (Suc k) fs"
  by (simp add: splice_out_def)

lemma drop_splice_gt: "k \<le> j \<Longrightarrow> drop k (splice_out j fs) = splice_out (j - k) (drop k fs)"
  by (cases "j < length fs") (simp_all add: splice_out_def drop_take Suc_diff_le)

lemma take_notin_splice: "x \<notin> set (take j fs) \<Longrightarrow> x \<notin> set (take j (splice_out j fs))"
  by (cases "j < length fs") (simp_all add: splice_out_def)

text \<open>
  Removing a callback while the list fires: all its occurrences go, the batch still ends at
  the end of the list, and the callbacks still to be called are the same ones, in order,
  without it: none is skipped or called twice.
\<close>

lemma remove_one_spec:
  assumes "0 \<le> index" "arg \<notin> set (take (nat index) fs)"
    and "remove_one arg index (fs, fl, fi) fng = (fs', fl', fi')"
  shows "fs' = removeAll arg fs \<and> (fng \<longrightarrow> fl = int (length fs) \<longrightarrow> fl' = int (length fs')) \<and>
    (fng \<longrightarrow> -1 \<le> fi \<longrightarrow>
      -1 \<le> fi' \<and> drop (nat (fi' + 1)) fs' = removeAll arg (drop (nat (fi + 1)) fs)) \<and>
    (\<not> fng \<longrightarrow> fl' = fl \<and> fi' = fi)"
  using assms
proof (induction arg index "(fs, fl, fi)" fng arbitrary: fs fl fi rule: remove_one.induct)
  case (1 arg index fs fl fi fng)
  let ?j = "inArray arg (Some fs) (Some index)"
  show ?case
  proof (cases "?j > -1")
    case False
    then have "?j = -1" using inArray_ge [of arg "Some fs" "Some index"] by linarith
    then have "arg \<notin> set (drop (nat index) fs)"
      using "1.prems"(1) by (simp add: inArray_def from_index_def scan_eq_m1)
    with "1.prems"(2) have n: "arg \<notin> set fs"
      by (metis append_take_drop_id UnE set_append)
    then have "removeAll arg (drop k fs) = drop k fs" for k
      by (meson in_set_dropD removeAll_id)
    with n False "1.prems"(3) show ?thesis
      by (auto simp: remove_one.simps [of arg index] Let_def)
  next
    case True
    have f: "index \<le> ?j" "nat ?j < length fs" "fs ! nat ?j = arg" "0 \<le> ?j"
      "\<forall>k. index \<le> int k \<and> int k < ?j \<longrightarrow> fs ! k \<noteq> arg"
      using inArray_found [of arg fs "Some index" ?j] True "1.prems"(1)
      by (auto simp: from_index_def)
    have nt: "arg \<notin> set (take (nat ?j) fs)"
    proof
      assume "arg \<in> set (take (nat ?j) fs)"
      then obtain k where k: "k < nat ?j" "fs ! k = arg"
        by (auto simp: in_set_conv_nth)
      have "\<not> index \<le> int k"
        using f(5) k f(4) by (metis zless_nat_eq_int_zless)
      then have "k < nat index" by linarith
      then have "arg \<in> set (take (nat index) fs)"
        using k f(2) by (auto simp: in_set_conv_nth intro!: exI [of _ k])
      with "1.prems"(2) show False by simp
    qed
    let ?fs = "splice_out (nat ?j) fs"
    define FL where "FL = (if fng \<and> ?j \<le> fl then fl - 1 else fl)"
    define FI where "FI = (if fng \<and> ?j \<le> fi then fi - 1 else fi)"
    have ih: "fs' = removeAll arg ?fs \<and> (fng \<longrightarrow> FL = int (length ?fs) \<longrightarrow> fl' = int (length fs')) \<and>
      (fng \<longrightarrow> -1 \<le> FI \<longrightarrow>
        -1 \<le> fi' \<and> drop (nat (fi' + 1)) fs' = removeAll arg (drop (nat (FI + 1)) ?fs)) \<and>
      (\<not> fng \<longrightarrow> fl' = FL \<and> fi' = FI)"
    proof (rule "1.hyps" [OF refl True, folded FL_def FI_def])
      show "0 \<le> ?j" "arg \<notin> set (take (nat ?j) ?fs)" using f(4) take_notin_splice [OF nt] by simp_all
      show "remove_one arg ?j (?fs, FL, FI) fng = (fs', fl', fi')"
        using "1.prems"(3) True by (simp add: remove_one.simps [of arg index] Let_def FL_def FI_def)
    qed
    have rest: "removeAll arg (drop (nat (FI + 1)) ?fs) = removeAll arg (drop (nat (fi + 1)) fs)"
      if "fng" "-1 \<le> fi"
    proof (cases "?j \<le> fi")
      case True
      then show ?thesis using that f by (simp add: FI_def drop_splice_le nat_add_distrib)
    next
      case False
      then have le: "nat (fi + 1) \<le> nat ?j" using f(4) by linarith
      have "drop (nat (fi + 1)) fs ! (nat ?j - nat (fi + 1)) = arg"
        using f le by simp
      then show ?thesis
        using that False le f(2) by (simp add: FI_def drop_splice_gt removeAll_splice diff_less_mono)
    qed
    have fi: "-1 \<le> FI" if "-1 \<le> fi" using that f(4) by (simp add: FI_def)
    have fl: "FL = int (length ?fs)" if "fng" "fl = int (length fs)" using that f(2,4) by (simp add: FL_def)
    have rm: "removeAll arg ?fs = removeAll arg fs" by (rule removeAll_splice [OF f(2,3)])
    show ?thesis
      using ih rest fi fl FL_def FI_def by (auto simp: rm)
  qed
qed

lemma remove_fold_spec:
  assumes "foldl (\<lambda>st arg. remove_one arg 0 st fng) (fs, fl, fi) args = (fs', fl', fi')"
  shows "fs' = filter (\<lambda>f. f \<notin> set args) fs \<and>
    (fng \<longrightarrow> fl = int (length fs) \<longrightarrow> fl' = int (length fs')) \<and>
    (fng \<longrightarrow> -1 \<le> fi \<longrightarrow>
      -1 \<le> fi' \<and> drop (nat (fi' + 1)) fs' = filter (\<lambda>f. f \<notin> set args) (drop (nat (fi + 1)) fs)) \<and>
    (\<not> fng \<longrightarrow> fl' = fl \<and> fi' = fi)"
  using assms
proof (induction args arbitrary: fs fl fi)
  case (Cons a args)
  obtain fs1 fl1 fi1 where r: "remove_one a 0 (fs, fl, fi) fng = (fs1, fl1, fi1)"
    by (cases "remove_one a 0 (fs, fl, fi) fng") auto
  have s: "fs1 = removeAll a fs \<and> (fng \<longrightarrow> fl = int (length fs) \<longrightarrow> fl1 = int (length fs1)) \<and>
    (fng \<longrightarrow> -1 \<le> fi \<longrightarrow>
      -1 \<le> fi1 \<and> drop (nat (fi1 + 1)) fs1 = removeAll a (drop (nat (fi + 1)) fs)) \<and>
    (\<not> fng \<longrightarrow> fl1 = fl \<and> fi1 = fi)"
    by (rule remove_one_spec [OF _ _ r]) simp_all
  have "filter (\<lambda>f. f \<notin> set args) (removeAll a xs) = filter (\<lambda>f. f \<notin> set (a # args)) xs" for xs
    by (induction xs) auto
  with Cons.IH [of fs1 fl1 fi1] Cons.prems r s show ?case by auto
qed simp

lemma cb_remove_wf:
  assumes "cb_wf c" shows "cb_wf (cb_remove args c)"
proof (cases "cb_list c")
  case (Some fs)
  obtain fs' fl' fi' where r:
    "foldl (\<lambda>st arg. remove_one arg 0 st (firing c)) (fs, firingLength c, firingIndex c) args = (fs', fl', fi')"
    by (metis prod_cases3)
  from remove_fold_spec [OF r] assms Some show ?thesis
    by (auto simp: cb_remove_def r cb_wf_def)
qed (use assms in \<open>simp add: cb_remove_def\<close>)

lemma cb_remove_frame [simp]:
  "same_opts c (cb_remove args c)" "firing (cb_remove args c) = firing c"
  "fired (cb_remove args c) = fired c" "memory (cb_remove args c) = memory c"
  "stack (cb_remove args c) = stack c" "opt_once (cb_remove args c) = opt_once c"
  "cb_list (cb_remove args c) = map_option (filter (\<lambda>f. f \<notin> set args)) (cb_list c)"
  using remove_fold_spec [of "firing c" "the (cb_list c)" "firingLength c" "firingIndex c" args]
  by (auto simp: cb_remove_def same_opts_def split: option.splits prod.splits)

lemmas cb_simple_defs = cb_empty_def cb_disable_def cb_lock_def begin_fire_def

lemma simple_wf:
  "cb_wf c \<Longrightarrow> cb_wf (cb_empty c)" "cb_wf c \<Longrightarrow> cb_wf (cb_disable c)" "cb_wf c \<Longrightarrow> cb_wf (cb_lock c)"
  "cb_wf c \<Longrightarrow> cb_wf (begin_fire d c)"
  "cb_wf c \<Longrightarrow> cb_wf (c\<lparr>firing := False\<rparr>)"
  by (auto simp: cb_simple_defs cb_wf_def Let_def split: option.splits)

lemma simple_frame [simp]:
  "same_opts c (cb_empty c)" "same_opts c (cb_disable c)" "same_opts c (cb_lock c)"
  "firing (cb_empty c) = firing c" "firing (cb_disable c) = firing c" "firing (cb_lock c) = firing c"
  by (simp_all add: cb_simple_defs same_opts_def Let_def)

section \<open>Soundness of every step\<close>

lemma task_ok_ops [simp]: "task_ok (TOps ops) w" "task_ok (TOp p) w"
  by (simp_all add: task_ok_def)

lemma sound_at: "sound rec \<Longrightarrow> wf_world w \<Longrightarrow> task_ok t w \<Longrightarrow> good w (rec t w)"
  by (simp add: sound_def)

lemma wf_firingStart: "cb_wf c \<Longrightarrow> 0 \<le> firingStart c"
  by (simp add: cb_wf_def)

lemma after_loop_good:
  assumes "sound rec" "wf_world w1" "keeps (upd l (begin_fire d) w) w1" "\<not> firing (w_lists w l)"
  shows "good w (after_loop rec l w1)"
proof -
  let ?w2 = "upd l (\<lambda>c. c\<lparr>firing := False\<rparr>) w1"
  let ?c = "w_lists ?w2 l"
  have k: "keeps w ?w2"
    using assms(3,4) by (auto simp: keeps_def same_opts_def begin_fire_def split: if_splits)
  have wf2: "wf_world ?w2" using assms(2) by (simp add: wf_upd simple_wf wf_at)
  have nf: "\<not> firing ?c" by simp
  show ?thesis
  proof (cases "cb_list ?c = None")
    case True
    with k wf2 show ?thesis by (simp add: after_loop_def Let_def good_Done)
  next
    case some: False
    show ?thesis
    proof (cases "stack ?c")
      case None
      have "keeps w (upd l (\<lambda>c. c\<lparr>cb_list := Some []\<rparr>) ?w2)" "keeps w (upd l cb_disable ?w2)"
        by (rule keeps_trans [OF k keeps_upd]; simp add: same_opts_def cb_disable_def)+
      moreover have "wf_world (upd l (\<lambda>c. c\<lparr>cb_list := Some []\<rparr>) ?w2)" "wf_world (upd l cb_disable ?w2)"
        using wf_at [OF wf2, of l] nf by (auto intro!: wf_upd [OF wf2] simple_wf simp: cb_wf_def)
      ultimately show ?thesis
        using some None by (auto simp: after_loop_def Let_def good_Done)
    next
      case (Some ds)
      show ?thesis
      proof (cases ds)
        case Nil
        with k wf2 some Some show ?thesis by (simp add: after_loop_def Let_def good_Done)
      next
        case (Cons d' ds')
        let ?w3 = "upd l (\<lambda>c. c\<lparr>stack := Some ds'\<rparr>) ?w2"
        have "wf_world ?w3"
          using wf_at [OF wf2, of l] Some by (intro wf_upd [OF wf2]) (auto simp: cb_wf_def)
        moreover have "keeps w ?w3" by (rule keeps_trans [OF k keeps_upd]) (simp_all add: same_opts_def)
        moreover have "task_ok (TFire l d') ?w3" using some by (simp add: task_ok_def)
        ultimately have "good w (rec (TFire l d') ?w3)"
          using sound_at [OF assms(1)] good_mono by blast
        with some Some Cons show ?thesis by (auto simp: after_loop_def Let_def)
      qed
    qed
  qed
qed

lemma fire_good:
  assumes "sound rec" "wf_world w" "task_ok (TFire l d) w"
  shows "good w (fire rec l d w)"
proof -
  let ?w1 = "upd l (begin_fire d) w"
  have wf1: "wf_world ?w1" using assms(2) by (simp add: wf_upd simple_wf wf_at)
  have "task_ok (TLoop l d) ?w1"
    using wf_firingStart [OF wf_at [OF assms(2), of l]] by (simp add: task_ok_def begin_fire_def)
  then have g: "good ?w1 (rec (TLoop l d) ?w1)" using sound_at [OF assms(1) wf1] by blast
  show ?thesis
  proof (cases "rec (TLoop l d) ?w1")
    case (Done w1)
    with g have "wf_world w1" "keeps ?w1 w1" by (simp_all add: good_Done)
    then have "good w (after_loop rec l w1)"
      using after_loop_good [OF assms(1)] assms(3) by (auto simp: task_ok_def)
    with Done assms(3) show ?thesis by (auto simp: fire_def task_ok_def)
  qed (use g assms(3) in \<open>auto simp: fire_def task_ok_def good_def\<close>)
qed

lemma fire_loop_good:
  assumes "sound rec" "wf_world w" "task_ok (TLoop l d) w"
  shows "good w (fire_loop rec beh l d w)"
proof (cases "cb_list (w_lists w l)")
  case None
  with assms(2) show ?thesis by (simp add: fire_loop_def Let_def good_Done)
next
  case (Some fs)
  let ?c = "w_lists w l"
  note c = wf_at [OF assms(2), of l]
  have fir: "firing ?c" "0 \<le> firingIndex ?c" using assms(3) by (auto simp: task_ok_def)
  then have len: "firingLength ?c = int (length fs)" using c Some by (auto simp: cb_wf_def)
  show ?thesis
  proof (cases "firingIndex ?c < firingLength ?c")
    case False
    with Some assms(2) show ?thesis by (simp add: fire_loop_def Let_def good_Done)
  next
    case True
    have lt: "nat (firingIndex ?c) < length fs" using True len fir(2) by linarith
    let ?f = "fs ! nat (firingIndex ?c)"
    let ?w0 = "call l ?f d w"
    obtain ops isFalse where b: "beh ?w0 ?f d = (ops, isFalse)" by fastforce
    have "wf_world ?w0" using assms(2) by (simp add: wf_world_def)
    moreover have "keeps w ?w0" by (simp add: keeps_def same_opts_def)
    ultimately have g: "good w (rec (TOps ops) ?w0)"
      using sound_at [OF assms(1) _ task_ok_ops(1)] good_mono by blast
    show ?thesis
    proof (cases "rec (TOps ops) ?w0")
      case (Done w1)
      with g have w1: "wf_world w1" "keeps w w1" by (simp_all add: good_Done)
      have f1: "firing (w_lists w1 l)" using w1(2) fir(1) by (simp add: keeps_def)
      let ?wm = "upd l (\<lambda>c. c\<lparr>memory := None\<rparr>) w1"
      let ?wi = "upd l (\<lambda>c. c\<lparr>firingIndex := firingIndex c + 1\<rparr>) w1"
      have m: "wf_world ?wm" "wf_world ?wi"
        using wf_at [OF w1(1), of l] by (auto intro!: wf_upd [OF w1(1)] simp: cb_wf_def)
      have k: "keeps w ?wm" "keeps w ?wi"
        by (rule keeps_trans [OF w1(2) keeps_upd]; simp add: same_opts_def)+
      have "task_ok (TLoop l d) ?wi"
        using f1 wf_at [OF w1(1), of l] by (auto simp: task_ok_def cb_wf_def)
      then have "good w (rec (TLoop l d) ?wi)"
        using sound_at [OF assms(1) m(2)] good_mono k(2) by blast
      with m(1) k(1) Some True lt len fir b Done show ?thesis
        by (simp add: fire_loop_def Let_def good_Done)
    qed (use g Some True lt len fir b in \<open>simp_all add: fire_loop_def Let_def good_def\<close>)
  qed
qed

lemma cb_add_good:
  assumes "sound rec" "wf_world w"
  shows "good w (cb_add rec l args w)"
proof (cases "cb_list (w_lists w l)")
  case None
  with assms(2) show ?thesis by (simp add: cb_add_def Let_def good_Done)
next
  case (Some fs)
  let ?c = "w_lists w l"
  let ?fs = "add_args (opt_unique ?c) fs args"
  let ?w1 = "upd l (\<lambda>c. c\<lparr>cb_list := Some ?fs\<rparr>) w"
  note c = wf_at [OF assms(2), of l]
  have d: "opt_unique ?c \<Longrightarrow> distinct ?fs"
    using c Some by (auto simp: cb_wf_def intro: distinct_add_args)
  show ?thesis
  proof (cases "firing ?c")
    case True
    let ?w2 = "upd l (\<lambda>c. c\<lparr>firingLength := int (length ?fs)\<rparr>) ?w1"
    have "wf_world ?w2" using c d Some assms(2) by (auto simp: wf_world_def cb_wf_def)
    moreover have "keeps w ?w2" by (simp add: keeps_def same_opts_def)
    ultimately show ?thesis using Some True by (simp add: cb_add_def Let_def good_Done)
  next
    case nf: False
    let ?w2 = "upd l (\<lambda>c. c\<lparr>firingStart := int (length fs)\<rparr>) ?w1"
    have wf: "wf_world ?w1" "wf_world ?w2" using c d Some nf assms(2) by (auto simp: wf_world_def cb_wf_def)
    have k: "keeps w ?w1" "keeps w ?w2" by (simp_all add: keeps_def same_opts_def)
    have "good w (rec (TFire l m) ?w2)" for m
    proof -
      have "task_ok (TFire l m) ?w2" using nf by (simp add: task_ok_def)
      then show ?thesis using sound_at [OF assms(1) wf(2)] k(2) good_mono by blast
    qed
    then show ?thesis
      using Some nf wf(1) k(1) by (auto simp: cb_add_def Let_def good_Done split: option.splits)
  qed
qed

lemma cb_fireWith_good:
  assumes "sound rec" "wf_world w"
  shows "good w (cb_fireWith rec l d w)"
proof -
  let ?c = "w_lists w l"
  note c = wf_at [OF assms(2), of l]
  have "good w (Done (upd l (\<lambda>c. c\<lparr>stack := Some ds\<rparr>) w))" if "stack ?c \<noteq> None" for ds
    using that c assms(2) by (auto simp: good_Done wf_world_def cb_wf_def keeps_def same_opts_def)
  moreover have "good w (rec (TFire l d) w)" if "cb_list ?c \<noteq> None" "\<not> firing ?c"
    using that sound_at [OF assms] by (simp add: task_ok_def)
  moreover have "firing ?c \<Longrightarrow> fired ?c" using c by (simp add: cb_wf_def)
  ultimately show ?thesis
    using assms(2) by (auto simp: cb_fireWith_def Let_def good_Done split: option.splits)
qed

lemma run_op_good:
  assumes "sound rec" "wf_world w"
  shows "good w (run_op rec beh p w)"
proof -
  have u: "good w (Done (upd l g w))"
    if "cb_wf (g (w_lists w l))" "same_opts (w_lists w l) (g (w_lists w l))"
      "firing (g (w_lists w l)) = firing (w_lists w l)" for l g
    using that assms(2) by (simp add: good_Done wf_upd keeps_upd)
  have d: "good w (rec (TOps ps) w)" for ps by (rule sound_at [OF assms]) simp
  show ?thesis
    using assms(2) d cb_add_good [OF assms] cb_fireWith_good [OF assms] wf_at [OF assms(2)]
    by (auto simp: run_op_def list_op_def cb_remove_wf simple_wf intro!: u split: op.splits cop.splits)
       (auto simp: good_def wf_world_def keeps_def same_opts_def)
qed

lemma run_ops_good:
  assumes "sound rec" "wf_world w"
  shows "good w (run_ops rec ps w)"
proof (cases ps)
  case (Cons p ps')
  have g: "good w (rec (TOp p) w)" using sound_at [OF assms] by (simp add: task_ok_def)
  show ?thesis
  proof (cases "rec (TOp p) w")
    case (Done w1)
    with g have w1: "wf_world w1" "keeps w w1" by (simp_all add: good_Done)
    have "good w1 (rec (TOps ps') w1)" using sound_at [OF assms(1) w1(1)] by (simp add: task_ok_def)
    with Cons Done w1(2) show ?thesis by (auto simp: run_ops_def intro: good_mono)
  qed (use g Cons in \<open>simp_all add: run_ops_def good_def\<close>)
qed (use assms(2) in \<open>simp add: run_ops_def good_Done\<close>)

lemma run_sound: "sound (run n beh)"
proof (induction n)
  case 0
  show ?case by (simp add: sound_def good_def)
next
  case (Suc n)
  show ?case unfolding sound_def
  proof (intro allI impI)
    fix t and w :: "('a, 'b, 'c) world"
    assume "wf_world w" "task_ok t w"
    then show "good w (run (Suc n) beh t w)"
      using fire_good [OF Suc] fire_loop_good [OF Suc] run_op_good [OF Suc] run_ops_good [OF Suc]
      by (cases t) auto
  qed
qed

section \<open>A rule for invariants of runs\<close>

text \<open>
  What a client of the lists has to show of an invariant \<open>I\<close> of the whole world: that the
  bookkeeping updates keep it, that starting a fire for a reason the code allows keeps it,
  and that each call the loop makes keeps it.  \<open>may l d\<close> says that list \<open>l\<close> may be calling
  with \<open>d\<close>; it has to survive whatever runs inside a callback.
\<close>

definition quiet :: "('f, 'd) cbs \<Rightarrow> ('f, 'd) cbs \<Rightarrow> bool" where
  "quiet c c' \<longleftrightarrow> same_opts c c' \<and> fired c' = fired c \<and> (memory c' = memory c \<or> memory c' = None)"

definition cause :: "nat \<Rightarrow> 'd \<Rightarrow> ('f, 'd, 'x) world \<Rightarrow> bool" where
  "cause l d w \<longleftrightarrow>
     memory (w_lists w l) = Some d \<or> \<not> fired (w_lists w l) \<or> \<not> opt_once (w_lists w l)"

lemma quiet_intros [simp]:
  "quiet c (c\<lparr>firing := b\<rparr>)" "quiet c (c\<lparr>firingIndex := i\<rparr>)" "quiet c (c\<lparr>firingLength := i\<rparr>)"
  "quiet c (c\<lparr>firingStart := i\<rparr>)" "quiet c (c\<lparr>cb_list := fs\<rparr>)" "quiet c (c\<lparr>stack := st\<rparr>)"
  "quiet c (c\<lparr>memory := None\<rparr>)" "quiet c (cb_empty c)" "quiet c (cb_disable c)" "quiet c (cb_lock c)"
  "quiet c (cb_remove args c)"
  by (auto simp: quiet_def same_opts_def cb_simple_defs Let_def
      cb_remove_frame(1) [unfolded same_opts_def])

locale run_invariant =
  fixes beh :: "('f, 'd, 'x) beh"
    and I :: "('f, 'd, 'x) world \<Rightarrow> bool"
    and may :: "nat \<Rightarrow> 'd \<Rightarrow> ('f, 'd, 'x) world \<Rightarrow> bool"
  assumes I_quiet: "I w \<Longrightarrow> quiet (w_lists w l) (g (w_lists w l)) \<Longrightarrow> I (upd l g w)"
    and may_quiet: "may k d w \<Longrightarrow> quiet (w_lists w l) (g (w_lists w l)) \<Longrightarrow> may k d (upd l g w)"
    and I_ext: "I w \<Longrightarrow> I (w\<lparr>w_ext := x\<rparr>)"
    and I_begin: "I w \<Longrightarrow> \<not> firing (w_lists w l) \<Longrightarrow> cause l d w \<Longrightarrow>
      I (upd l (begin_fire d) w) \<and> may l d (upd l (begin_fire d) w)"
    and I_call: "I w \<Longrightarrow> may l d w \<Longrightarrow> I (call l f d w) \<and> may l d (call l f d w)"
    and may_stable: "wf_world w \<Longrightarrow> task_ok t w \<Longrightarrow> may l d w \<Longrightarrow> run n beh t w = Done w' \<Longrightarrow>
      (case t of TFire k e \<Rightarrow> cause k e w | TLoop k e \<Rightarrow> False | _ \<Rightarrow> True) \<Longrightarrow> may l d w'"
begin

definition may_task :: "('f, 'd, 'x) task \<Rightarrow> ('f, 'd, 'x) world \<Rightarrow> bool" where
  "may_task t w = (case t of TFire l d \<Rightarrow> cause l d w | TLoop l d \<Rightarrow> may l d w | _ \<Rightarrow> True)"

definition final :: "('f, 'd, 'x) world outcome \<Rightarrow> bool" where
  "final r = (case r of Done w' \<Rightarrow> I w' | Thrown e w' \<Rightarrow> I w' | NoFuel \<Rightarrow> True)"

definition Iruns :: "nat \<Rightarrow> bool" where
  "Iruns n \<longleftrightarrow> (\<forall>t w. wf_world w \<longrightarrow> task_ok t w \<longrightarrow> may_task t w \<longrightarrow> I w \<longrightarrow> final (run n beh t w))"

lemma IrunsD: "Iruns n \<Longrightarrow> wf_world w \<Longrightarrow> task_ok t w \<Longrightarrow> may_task t w \<Longrightarrow> I w \<Longrightarrow> final (run n beh t w)"
  by (simp add: Iruns_def)

lemma final_simps [simp]: "final (Done w) = I w" "final (Thrown e w) = I w" "final NoFuel"
  by (simp_all add: final_def)

lemma may_task_simps [simp]: "may_task (TOps ps) w" "may_task (TOp p) w"
  "may_task (TFire l d) w = cause l d w" "may_task (TLoop l d) w = may l d w"
  by (simp_all add: may_task_def)

lemma after_loop_I:
  assumes "Iruns n" "wf_world w1" "I w1"
  shows "final (after_loop (run n beh) l w1)"
proof -
  let ?w2 = "upd l (\<lambda>c. c\<lparr>firing := False\<rparr>) w1"
  have I2: "I ?w2" "wf_world ?w2" using assms by (simp_all add: I_quiet wf_upd simple_wf wf_at)
  have "final (run n beh (TFire l d') (upd l (\<lambda>c. c\<lparr>stack := Some ds\<rparr>) ?w2))"
    if "stack (w_lists w1 l) = Some (d' # ds)" "cb_list (w_lists w1 l) \<noteq> None" for d' ds
  proof (rule IrunsD [OF assms(1)])
    have "cb_wf (w_lists w1 l)" by (rule wf_at [OF assms(2)])
    with that show "may_task (TFire l d') (upd l (\<lambda>c. c\<lparr>stack := Some ds\<rparr>) ?w2)"
      by (auto simp: cause_def cb_wf_def)
    show "wf_world (upd l (\<lambda>c. c\<lparr>stack := Some ds\<rparr>) ?w2)"
      using wf_at [OF I2(2), of l] that by (intro wf_upd [OF I2(2)]) (auto simp: cb_wf_def)
  qed (use that I2 in \<open>simp_all add: task_ok_def I_quiet\<close>)
  then show ?thesis
    using I2 by (auto simp: after_loop_def Let_def I_quiet split: option.splits list.splits)
qed

lemma fire_I:
  assumes "Iruns n" "wf_world w" "task_ok (TFire l d) w" "cause l d w" "I w"
  shows "final (fire (run n beh) l d w)"
proof -
  let ?w1 = "upd l (begin_fire d) w"
  have wf1: "wf_world ?w1" using assms(2) by (simp add: wf_upd simple_wf wf_at)
  have I1: "I ?w1" "may l d ?w1" using I_begin assms(3,4,5) by (auto simp: task_ok_def)
  have t1: "task_ok (TLoop l d) ?w1"
    using wf_firingStart [OF wf_at [OF assms(2), of l]] by (simp add: task_ok_def begin_fire_def)
  have f: "final (run n beh (TLoop l d) ?w1)" using IrunsD [OF assms(1) wf1 t1] I1 by simp
  have g: "good ?w1 (run n beh (TLoop l d) ?w1)" by (rule sound_at [OF run_sound wf1 t1])
  show ?thesis
  proof (cases "run n beh (TLoop l d) ?w1")
    case (Done w1)
    with f g have "final (after_loop (run n beh) l w1)"
      by (intro after_loop_I [OF assms(1)]) (simp_all add: good_Done)
    with Done assms(5) show ?thesis by (simp add: fire_def)
  qed (use f assms(5) in \<open>simp_all add: fire_def\<close>)
qed

lemma fire_loop_I:
  assumes "Iruns n" "wf_world w" "task_ok (TLoop l d) w" "may l d w" "I w"
  shows "final (fire_loop (run n beh) beh l d w)"
proof (cases "cb_list (w_lists w l)")
  case (Some fs)
  let ?c = "w_lists w l"
  let ?f = "fs ! nat (firingIndex ?c)"
  let ?w0 = "call l ?f d w"
  obtain ops isFalse where b: "beh ?w0 ?f d = (ops, isFalse)" by fastforce
  have w0: "wf_world ?w0" "I ?w0" "may l d ?w0"
    using assms(2) I_call [OF assms(5,4)] by (simp_all add: wf_world_def)
  have f: "final (run n beh (TOps ops) ?w0)" using IrunsD [OF assms(1) w0(1)] w0(2) by simp
  have g: "good ?w0 (run n beh (TOps ops) ?w0)" by (rule sound_at [OF run_sound w0(1)]) simp
  have "final (run n beh (TLoop l d) (upd l (\<lambda>c. c\<lparr>firingIndex := firingIndex c + 1\<rparr>) w1))"
    if "run n beh (TOps ops) ?w0 = Done w1" for w1
  proof (rule IrunsD [OF assms(1)])
    have w1: "wf_world w1" "keeps ?w0 w1" "I w1" using that f g by (simp_all add: good_Done)
    show "wf_world (upd l (\<lambda>c. c\<lparr>firingIndex := firingIndex c + 1\<rparr>) w1)"
      using wf_at [OF w1(1), of l] by (intro wf_upd [OF w1(1)]) (auto simp: cb_wf_def)
    have "firing (w_lists w1 l)" using w1(2) assms(3) by (simp add: keeps_def task_ok_def)
    then show "task_ok (TLoop l d) (upd l (\<lambda>c. c\<lparr>firingIndex := firingIndex c + 1\<rparr>) w1)"
      using wf_at [OF w1(1), of l] by (auto simp: task_ok_def cb_wf_def)
    have "may l d w1" by (rule may_stable [OF w0(1) _ w0(3) that]) simp_all
    then show "may_task (TLoop l d) (upd l (\<lambda>c. c\<lparr>firingIndex := firingIndex c + 1\<rparr>) w1)"
      by (simp add: may_quiet)
    show "I (upd l (\<lambda>c. c\<lparr>firingIndex := firingIndex c + 1\<rparr>) w1)" using w1(3) by (simp add: I_quiet)
  qed
  then show ?thesis
    using Some b f assms(5) by (auto simp: fire_loop_def Let_def I_quiet split: outcome.splits)
qed (use assms(5) in \<open>simp add: fire_loop_def Let_def\<close>)

lemma cb_add_I:
  assumes "Iruns n" "wf_world w" "I w"
  shows "final (cb_add (run n beh) l args w)"
proof (cases "cb_list (w_lists w l)")
  case (Some fs)
  let ?c = "w_lists w l"
  let ?fs = "add_args (opt_unique ?c) fs args"
  let ?w1 = "upd l (\<lambda>c. c\<lparr>cb_list := Some ?fs\<rparr>) w"
  let ?w2 = "upd l (\<lambda>c. c\<lparr>firingStart := int (length fs)\<rparr>) ?w1"
  have "final (run n beh (TFire l m) ?w2)" if "memory ?c = Some m" "\<not> firing ?c" for m
  proof (rule IrunsD [OF assms(1)])
    show "wf_world ?w2"
      using wf_at [OF assms(2), of l] Some that(2) assms(2)
      by (auto simp: wf_world_def cb_wf_def intro: distinct_add_args)
  qed (use that Some assms(3) in \<open>simp_all add: task_ok_def I_quiet cause_def\<close>)
  then show ?thesis
    using Some assms(3) by (auto simp: cb_add_def Let_def I_quiet split: option.splits)
qed (use assms(3) in \<open>simp add: cb_add_def Let_def\<close>)

lemma cb_fireWith_I:
  assumes "Iruns n" "wf_world w" "I w"
  shows "final (cb_fireWith (run n beh) l d w)"
proof -
  let ?c = "w_lists w l"
  have "final (run n beh (TFire l d) w)"
    if "cb_list ?c \<noteq> None" "\<not> firing ?c" "\<not> fired ?c \<or> stack ?c \<noteq> None"
    using IrunsD [OF assms(1,2), of "TFire l d"] that assms(3) wf_at [OF assms(2), of l]
    by (auto simp: task_ok_def cause_def cb_wf_def)
  then show ?thesis
    using assms(3) by (auto simp: cb_fireWith_def Let_def I_quiet split: option.splits)
qed

lemma run_op_I:
  assumes "Iruns n" "wf_world w" "I w"
  shows "final (run_op (run n beh) beh p w)"
  using assms(3) IrunsD [OF assms(1,2) _ _ assms(3), of "TOps _"] cb_add_I [OF assms] cb_fireWith_I [OF assms]
  by (auto simp: run_op_def list_op_def I_quiet I_ext split: op.splits cop.splits)

lemma run_ops_I:
  assumes "Iruns n" "wf_world w" "I w"
  shows "final (run_ops (run n beh) ps w)"
proof (cases ps)
  case (Cons p ps')
  have f: "final (run n beh (TOp p) w)" using IrunsD [OF assms(1,2)] assms(3) by simp
  have g: "good w (run n beh (TOp p) w)" by (rule sound_at [OF run_sound assms(2)]) simp
  have "final (run n beh (TOps ps') w1)" if "run n beh (TOp p) w = Done w1" for w1
    using IrunsD [OF assms(1)] that f g by (simp add: good_Done)
  with f Cons show ?thesis by (auto simp: run_ops_def split: outcome.splits)
qed (use assms(3) in \<open>simp add: run_ops_def\<close>)

lemma Iruns: "Iruns n"
proof (induction n)
  case 0
  show ?case by (simp add: Iruns_def)
next
  case (Suc n)
  show ?case unfolding Iruns_def
  proof (intro allI impI)
    fix t w
    assume "wf_world w" "task_ok t w" "may_task t w" "I w"
    then show "final (run (Suc n) beh t w)"
      using fire_I [OF Suc] fire_loop_I [OF Suc] run_op_I [OF Suc] run_ops_I [OF Suc]
      by (cases t) auto
  qed
qed

lemma run_I: "wf_world w \<Longrightarrow> task_ok t w \<Longrightarrow> may_task t w \<Longrightarrow> I w \<Longrightarrow> run n beh t w = Done w' \<Longrightarrow> I w'"
  using IrunsD [OF Iruns, of w t n] by simp

lemma run_ops_keep: "wf_world w \<Longrightarrow> I w \<Longrightarrow> run n beh (TOps ps) w = Done w' \<Longrightarrow> I w'"
  by (rule run_I) simp_all

end

section \<open>A once list fires one value\<close>

definition once_data :: "nat \<Rightarrow> 'd \<Rightarrow> ('f, 'd, 'x) world \<Rightarrow> bool" where
  "once_data l d w \<longleftrightarrow>
     opt_once (w_lists w l) \<and> fired (w_lists w l) \<and>
     (\<forall>f e. (l, f, e) \<in> set (w_log w) \<longrightarrow> e = d) \<and>
     (memory (w_lists w l) = None \<or> memory (w_lists w l) = Some d)"

definition unfired :: "nat \<Rightarrow> ('f, 'd, 'x) world \<Rightarrow> bool" where
  "unfired l w \<longleftrightarrow>
     \<not> fired (w_lists w l) \<and> memory (w_lists w l) = None \<and> (\<forall>f e. (l, f, e) \<notin> set (w_log w))"

definition once_state :: "nat \<Rightarrow> ('f, 'd, 'x) world \<Rightarrow> bool" where
  "once_state l w \<longleftrightarrow> opt_once (w_lists w l) \<and> (unfired l w \<or> (\<exists>d. once_data l d w))"

lemma once_data_quiet:
  "once_data k d w \<Longrightarrow> quiet (w_lists w l) (g (w_lists w l)) \<Longrightarrow> once_data k d (upd l g w)"
  by (auto simp: once_data_def quiet_def same_opts_def)

lemma unfired_quiet:
  "unfired k w \<Longrightarrow> quiet (w_lists w l) (g (w_lists w l)) \<Longrightarrow> unfired k (upd l g w)"
  by (auto simp: unfired_def quiet_def)

lemma once_data_call: "once_data k e w \<Longrightarrow> l = k \<longrightarrow> d = e \<Longrightarrow> once_data k e (call l f d w)"
  by (auto simp: once_data_def)

lemma unfired_call: "unfired k w \<Longrightarrow> l \<noteq> k \<Longrightarrow> unfired k (call l f d w)"
  by (auto simp: unfired_def)

lemma once_opt_quiet:
  "quiet (w_lists w l) (g (w_lists w l)) \<Longrightarrow> opt_once (w_lists (upd l g w) k) = opt_once (w_lists w k)"
  by (simp add: quiet_def same_opts_def)

interpretation data_kept: run_invariant beh "once_data l0 d0" "\<lambda>l d w. l = l0 \<longrightarrow> d = d0"
  for beh l0 d0
proof
  fix w :: "('a, 'b, 'c) world" and l d f
  show "once_data l0 d0 w \<Longrightarrow> \<not> firing (w_lists w l) \<Longrightarrow> cause l d w \<Longrightarrow>
      once_data l0 d0 (upd l (begin_fire d) w) \<and> (l = l0 \<longrightarrow> d = d0)"
    by (auto simp: once_data_def cause_def begin_fire_def)
  show "once_data l0 d0 w \<Longrightarrow> l = l0 \<longrightarrow> d = d0 \<Longrightarrow>
      once_data l0 d0 (call l f d w) \<and> (l = l0 \<longrightarrow> d = d0)"
    by (auto simp: once_data_def)
qed (auto simp: once_data_quiet, simp add: once_data_def)

interpretation once_kept: run_invariant beh "once_state l0"
  "\<lambda>l d w. l = l0 \<longrightarrow> once_data l0 d w" for beh l0
proof
  fix w w' :: "('a, 'b, 'c) world" and l k d f g t n
  show "once_state l0 w \<Longrightarrow> \<not> firing (w_lists w l) \<Longrightarrow> cause l d w \<Longrightarrow>
      once_state l0 (upd l (begin_fire d) w) \<and> (l = l0 \<longrightarrow> once_data l0 d (upd l (begin_fire d) w))"
    by (auto simp: once_state_def once_data_def unfired_def cause_def begin_fire_def)
  show "once_state l0 w \<Longrightarrow> l = l0 \<longrightarrow> once_data l0 d w \<Longrightarrow>
      once_state l0 (call l f d w) \<and> (l = l0 \<longrightarrow> once_data l0 d (call l f d w))"
    by (cases "l = l0"; simp add: once_state_def) (blast intro: once_data_call unfired_call)+
  show "once_state l0 w \<Longrightarrow> quiet (w_lists w l) (g (w_lists w l)) \<Longrightarrow> once_state l0 (upd l g w)"
    unfolding once_state_def using once_opt_quiet [of w l g l0] once_data_quiet [of l0 _ w l g]
      unfired_quiet [of l0 w l g] by blast
  show "k = l0 \<longrightarrow> once_data l0 d w \<Longrightarrow> quiet (w_lists w l) (g (w_lists w l)) \<Longrightarrow>
      k = l0 \<longrightarrow> once_data l0 d (upd l g w)"
    by (auto simp: once_data_quiet)
  assume a: "wf_world w" "task_ok t w" "l = l0 \<longrightarrow> once_data l0 d w" "run n beh t w = Done w'"
    "case t of TFire k e \<Rightarrow> cause k e w | TLoop k e \<Rightarrow> False | _ \<Rightarrow> True"
  then have m: "data_kept.may_task l0 d t w"
    by (cases t) auto
  show "l = l0 \<longrightarrow> once_data l0 d w'"
    using data_kept.run_I [OF a(1,2) m _ a(4)] a(3) by simp
qed (auto simp: once_state_def once_data_def unfired_def)

lemma once_list_run:
  assumes "wf_world w" "once_state l w" "run n beh (TOps ps) w = Done w'"
  shows "\<exists>d. \<forall>f e. (l, f, e) \<in> set (w_log w') \<longrightarrow> e = d"
proof -
  have "once_state l w'" by (rule once_kept.run_ops_keep [OF assms(1,2,3)])
  then show ?thesis by (auto simp: once_state_def once_data_def unfired_def)
qed

section \<open>What is called, and when\<close>

text \<open>
  The functional behaviour with callbacks that do not call back.  \<open>calls\<close> is the effect of
  calling a batch in order.
\<close>

definition calls :: "nat \<Rightarrow> 'd \<Rightarrow> 'f list \<Rightarrow> ('f, 'd, 'x) world \<Rightarrow> ('f, 'd, 'x) world" where
  "calls l d fs w = w\<lparr>w_log := w_log w @ map (\<lambda>f. (l, f, d)) fs\<rparr>"

definition silent :: "('f \<Rightarrow> 'd \<Rightarrow> bool) \<Rightarrow> ('f, 'd, 'x) beh" where
  "silent ret w f d = ([], ret f d)"

lemma calls_simps [simp]: "w_lists (calls l d fs w) = w_lists w" "w_ext (calls l d fs w) = w_ext w"
  "w_log (calls l d fs w) = w_log w @ map (\<lambda>f. (l, f, d)) fs" "calls l d [] w = w"
  by (simp_all add: calls_def)

lemma calls_call: "calls l d fs (call l f d w) = calls l d (f # fs) w"
  by (simp add: calls_def call_def)

lemma upd_calls: "upd l g (calls k d fs w) = calls k d fs (upd l g w)"
  by (simp add: upd_def calls_def)

lemma upd_call: "upd l g (call k f d w) = call k f d (upd l g w)"
  by (simp add: upd_def call_def)

lemma upd_upd [simp]: "upd l g (upd l h w) = upd l (\<lambda>c. g (h c)) w"
  by (simp add: upd_def fun_upd_def fun_eq_iff)

lemma upd_cong: "g (w_lists w l) = h (w_lists w l) \<Longrightarrow> upd l g w = upd l h w"
  by (simp add: upd_def)

lemma upd_id: "g (w_lists w l) = w_lists w l \<Longrightarrow> upd l g w = w"
  by (simp add: upd_def fun_upd_idem)

lemma loop_silent:
  assumes "cb_list (w_lists w l) = Some fs" "firingLength (w_lists w l) = int (length fs)"
    and "firingIndex (w_lists w l) = int i" "i \<le> length fs" "\<not> opt_stopOnFalse (w_lists w l)"
    and "length fs - i + 1 < n"
  shows "run n (silent ret) (TLoop l d) w =
    Done (upd l (\<lambda>c. c\<lparr>firingIndex := int (length fs)\<rparr>) (calls l d (drop i fs) w))"
  using assms
proof (induction n arbitrary: i w)
  case (Suc n)
  show ?case
  proof (cases "i = length fs")
    case True
    with Suc.prems show ?thesis
      by (simp add: fire_loop_def Let_def upd_id)
  next
    case False
    let ?w0 = "call l (fs ! i) d w"
    let ?w1 = "upd l (\<lambda>c. c\<lparr>firingIndex := firingIndex c + 1\<rparr>) ?w0"
    have i: "i < length fs" using False Suc.prems(4) by simp
    obtain m where n: "n = Suc m" using Suc.prems(6) i by (cases n) auto
    have ops: "run n (silent ret) (TOps []) ?w0 = Done ?w0" by (simp add: n run_ops_def)
    have "run n (silent ret) (TLoop l d) ?w1 =
      Done (upd l (\<lambda>c. c\<lparr>firingIndex := int (length fs)\<rparr>) (calls l d (drop (Suc i) fs) ?w1))"
      by (rule Suc.IH) (use Suc.prems i in auto)
    also have "Done (upd l (\<lambda>c. c\<lparr>firingIndex := int (length fs)\<rparr>) (calls l d (drop (Suc i) fs) ?w1)) =
      Done (upd l (\<lambda>c. c\<lparr>firingIndex := int (length fs)\<rparr>) (calls l d (drop i fs) w))"
      using i by (simp add: upd_calls upd_call calls_call Cons_nth_drop_Suc)
    finally have rest: "run n (silent ret) (TLoop l d) ?w1 =
      Done (upd l (\<lambda>c. c\<lparr>firingIndex := int (length fs)\<rparr>) (calls l d (drop i fs) w))" .
    have "silent ret ?w0 (fs ! i) d = ([], ret (fs ! i) d)" by (simp add: silent_def)
    with rest show ?thesis
      using Suc.prems(1-5) i ops by (simp add: fire_loop_def Let_def)
  qed
qed simp

text \<open>A list made with \<open>"once memory"\<close>, between operations: not yet fired, or fired with a value.\<close>

definition idle :: "nat \<Rightarrow> 'f list \<Rightarrow> 'd option \<Rightarrow> ('f, 'd, 'x) world \<Rightarrow> bool" where
  "idle l fs m w \<longleftrightarrow>
     (let c = w_lists w l
      in opt_once c \<and> opt_memory c \<and> \<not> opt_unique c \<and> \<not> opt_stopOnFalse c \<and> \<not> firing c \<and>
         firingStart c = 0 \<and> stack c = None \<and> cb_list c = Some fs \<and> memory c = m \<and>
         fired c = (m \<noteq> None))"

lemma fire_once_memory:
  assumes "opt_once (w_lists w l)" "opt_memory (w_lists w l)" "\<not> opt_stopOnFalse (w_lists w l)"
    and "\<not> opt_unique (w_lists w l)" "stack (w_lists w l) = None" "cb_list (w_lists w l) = Some fs"
    and "firingStart (w_lists w l) = int i" "i \<le> length fs" "length fs - i + 2 < n"
  shows "\<exists>w'. run n (silent ret) (TFire l d) w = Done w' \<and> idle l [] (Some d) w' \<and>
    w_log w' = w_log w @ map (\<lambda>f. (l, f, d)) (drop i fs)"
proof -
  let ?w1 = "upd l (begin_fire d) w"
  obtain m where n: "n = Suc m" using assms(9) by (cases n) auto
  have loop: "run m (silent ret) (TLoop l d) ?w1 =
    Done (upd l (\<lambda>c. c\<lparr>firingIndex := int (length fs)\<rparr>) (calls l d (drop i fs) ?w1))"
    by (rule loop_silent) (use assms n in \<open>auto simp: begin_fire_def\<close>)
  show ?thesis
    using assms by (simp add: n fire_def loop after_loop_def Let_def begin_fire_def idle_def)
qed

definition to_op :: "nat \<Rightarrow> 'f list + 'd \<Rightarrow> ('f, 'd, 'x) op" where
  "to_op l x = (case x of Inl fs \<Rightarrow> On l (Add (map AFun fs)) | Inr d \<Rightarrow> On l (FireWith d))"

lemma to_op_simps [simp]: "to_op l (Inl fs) = On l (Add (map AFun fs))" "to_op l (Inr d) = On l (FireWith d)"
  by (simp_all add: to_op_def)

definition added :: "('f list + 'd) list \<Rightarrow> 'f list" where
  "added xs = concat (map (case_sum id (\<lambda>_. [])) xs)"

definition fires :: "('f list + 'd) list \<Rightarrow> 'd list" where
  "fires xs = concat (map (case_sum (\<lambda>_. []) (\<lambda>d. [d])) xs)"

lemma added_simps [simp]: "added [] = []" "added (Inl fs # xs) = fs @ added xs" "added (Inr d # xs) = added xs"
  by (simp_all add: added_def)

lemma fires_simps [simp]: "fires [] = []" "fires (Inl fs # xs) = fires xs" "fires (Inr d # xs) = d # fires xs"
  by (simp_all add: fires_def)

lemma run_add:
  assumes "idle l fs m w" "length gs + 5 < n"
  shows "\<exists>w'. run n (silent ret) (TOp (On l (Add (map AFun gs)))) w = Done w' \<and>
    idle l (if m = None then fs @ gs else []) m w' \<and>
    w_log w' = w_log w @ (case m of None \<Rightarrow> [] | Some d \<Rightarrow> map (\<lambda>f. (l, f, d)) gs)"
proof -
  obtain k where n: "n = Suc k" using assms(2) by (cases n) auto
  let ?w1 = "upd l (\<lambda>c. c\<lparr>cb_list := Some (fs @ gs)\<rparr>) w"
  let ?w2 = "upd l (\<lambda>c. c\<lparr>firingStart := int (length fs)\<rparr>) ?w1"
  show ?thesis
  proof (cases m)
    case None
    with assms(1) show ?thesis
      by (auto simp: n run_op_def list_op_def cb_add_def idle_def Let_def add_args_plain)
  next
    case (Some d)
    have "\<exists>w'. run k (silent ret) (TFire l d) ?w2 = Done w' \<and> idle l [] (Some d) w' \<and>
        w_log w' = w_log ?w2 @ map (\<lambda>f. (l, f, d)) (drop (length fs) (fs @ gs))"
      by (rule fire_once_memory) (use assms n in \<open>auto simp: idle_def Let_def\<close>)
    with Some assms(1) show ?thesis
      by (auto simp: n run_op_def list_op_def cb_add_def idle_def Let_def add_args_plain)
  qed
qed

lemma run_fireWith:
  assumes "idle l fs m w" "length fs + 5 < n"
  shows "\<exists>w'. run n (silent ret) (TOp (On l (FireWith d))) w = Done w' \<and>
    idle l (if m = None then [] else fs) (if m = None then Some d else m) w' \<and>
    w_log w' = w_log w @ (if m = None then map (\<lambda>f. (l, f, d)) fs else [])"
proof -
  obtain k where n: "n = Suc k" using assms(2) by (cases n) auto
  show ?thesis
  proof (cases m)
    case None
    have "\<exists>w'. run k (silent ret) (TFire l d) w = Done w' \<and> idle l [] (Some d) w' \<and>
        w_log w' = w_log w @ map (\<lambda>f. (l, f, d)) (drop 0 fs)"
      by (rule fire_once_memory) (use assms n in \<open>auto simp: idle_def Let_def\<close>)
    with None assms(1) show ?thesis
      by (auto simp: n run_op_def list_op_def cb_fireWith_def idle_def Let_def)
  next
    case (Some e)
    with assms(1) show ?thesis
      by (auto simp: n run_op_def list_op_def cb_fireWith_def idle_def Let_def)
  qed
qed

lemma once_memory_run:
  assumes "idle l fs m w" "m = None \<or> fs = []" "length xs + length fs + length (added xs) + 6 < n"
  shows "\<exists>w'. run n (silent ret) (TOps (map (to_op l) xs)) w = Done w' \<and>
    w_log w' = w_log w @
      (case m of Some d \<Rightarrow> map (\<lambda>f. (l, f, d)) (added xs)
       | None \<Rightarrow> (case fires xs of [] \<Rightarrow> [] | d # _ \<Rightarrow> map (\<lambda>f. (l, f, d)) (fs @ added xs)))"
  using assms
proof (induction xs arbitrary: n w fs m)
  case Nil
  then show ?case
    by (cases n) (auto simp: run_ops_def split: option.splits)
next
  case (Cons x xs)
  obtain k where n: "n = Suc k" using Cons.prems(3) by (cases n) auto
  show ?case
  proof (cases x)
    case (Inl gs)
    obtain w1 where w1: "run k (silent ret) (TOp (On l (Add (map AFun gs)))) w = Done w1"
      "idle l (if m = None then fs @ gs else []) m w1"
      "w_log w1 = w_log w @ (case m of None \<Rightarrow> [] | Some d \<Rightarrow> map (\<lambda>f. (l, f, d)) gs)"
      using run_add [OF Cons.prems(1), of gs k ret] Cons.prems(3) n Inl by auto
    have "\<exists>w2. run k (silent ret) (TOps (map (to_op l) xs)) w1 = Done w2 \<and>
      w_log w2 = w_log w1 @ (case m of Some d \<Rightarrow> map (\<lambda>f. (l, f, d)) (added xs)
       | None \<Rightarrow> (case fires xs of [] \<Rightarrow> [] | d # _ \<Rightarrow>
            map (\<lambda>f. (l, f, d)) ((if m = None then fs @ gs else []) @ added xs)))"
      by (rule Cons.IH [OF w1(2)]) (use Cons.prems(2,3) n Inl in \<open>auto split: if_splits\<close>)
    then obtain w2 where w2: "run k (silent ret) (TOps (map (to_op l) xs)) w1 = Done w2"
      "w_log w2 = w_log w1 @ (case m of Some d \<Rightarrow> map (\<lambda>f. (l, f, d)) (added xs)
       | None \<Rightarrow> (case fires xs of [] \<Rightarrow> [] | d # _ \<Rightarrow>
            map (\<lambda>f. (l, f, d)) ((if m = None then fs @ gs else []) @ added xs)))"
      by blast
    show ?thesis
      using w1 w2 Inl by (auto simp: n run_ops_def split: option.splits list.splits)
  next
    case (Inr d)
    obtain w1 where w1: "run k (silent ret) (TOp (On l (FireWith d))) w = Done w1"
      "idle l (if m = None then [] else fs) (if m = None then Some d else m) w1"
      "w_log w1 = w_log w @ (if m = None then map (\<lambda>f. (l, f, d)) fs else [])"
      using run_fireWith [OF Cons.prems(1), of k ret d] Cons.prems(3) n Inr by auto
    obtain w2 where w2: "run k (silent ret) (TOps (map (to_op l) xs)) w1 = Done w2"
      "w_log w2 = w_log w1 @ (case (if m = None then Some d else m) of
         Some d \<Rightarrow> map (\<lambda>f. (l, f, d)) (added xs) | None \<Rightarrow> [])"
      using Cons.IH [OF w1(2), of k] Cons.prems(2,3) n Inr by (auto split: if_splits option.splits)
    show ?thesis
      using w1 w2 Inr by (auto simp: n run_ops_def split: option.splits if_splits)
  qed
qed

section \<open>More fuel changes nothing\<close>

definition extends :: "('f, 'd, 'x) runner \<Rightarrow> ('f, 'd, 'x) runner \<Rightarrow> bool" where
  "extends rec rec' \<longleftrightarrow> (\<forall>t w. rec t w \<noteq> NoFuel \<longrightarrow> rec' t w = rec t w)"

definition run_body :: "('f, 'd, 'x) runner \<Rightarrow> ('f, 'd, 'x) beh \<Rightarrow> ('f, 'd, 'x) runner" where
  "run_body rec beh t w = (case t of
     TFire l d \<Rightarrow> fire rec l d w
   | TLoop l d \<Rightarrow> fire_loop rec beh l d w
   | TOp p \<Rightarrow> run_op rec beh p w
   | TOps ps \<Rightarrow> run_ops rec ps w)"

lemma run_Suc: "run (Suc n) beh t w = run_body (run n beh) beh t w"
  by (simp add: run_body_def)

lemma extendsD: "extends rec rec' \<Longrightarrow> rec t w \<noteq> NoFuel \<Longrightarrow> rec' t w = rec t w"
  by (simp add: extends_def)

lemma extends_case:
  assumes "extends rec rec'" "(case rec t w of Done w1 \<Rightarrow> g w1 | Thrown e w1 \<Rightarrow> Thrown e w1 | NoFuel \<Rightarrow> NoFuel) \<noteq> NoFuel"
    and "\<And>w1. g w1 \<noteq> NoFuel \<Longrightarrow> g' w1 = g w1"
  shows "(case rec' t w of Done w1 \<Rightarrow> g' w1 | Thrown e w1 \<Rightarrow> Thrown e w1 | NoFuel \<Rightarrow> NoFuel) =
    (case rec t w of Done w1 \<Rightarrow> g w1 | Thrown e w1 \<Rightarrow> Thrown e w1 | NoFuel \<Rightarrow> NoFuel)"
proof -
  have "rec' t w = rec t w" by (rule extendsD [OF assms(1)]) (use assms(2) in auto)
  then show ?thesis using assms(2,3) by (cases "rec t w") auto
qed

lemma extends_after_loop:
  assumes "extends rec rec'" "after_loop rec l w \<noteq> NoFuel"
  shows "after_loop rec' l w = after_loop rec l w"
  using assms(2) extendsD [OF assms(1)]
  unfolding after_loop_def Let_def by (simp split: if_splits option.splits list.splits)

lemma extends_fire:
  assumes "extends rec rec'" "fire rec l d w \<noteq> NoFuel"
  shows "fire rec' l d w = fire rec l d w"
proof (cases "cb_list (w_lists w l) = None")
  case False
  show ?thesis
    using assms(2) False unfolding fire_def
    by (simp only: if_False) (rule extends_case [OF assms(1)], assumption, rule extends_after_loop [OF assms(1)])
qed (simp add: fire_def)

lemma extends_fire_loop:
  assumes "extends rec rec'" "fire_loop rec beh l d w \<noteq> NoFuel"
  shows "fire_loop rec' beh l d w = fire_loop rec beh l d w"
proof (cases "cb_list (w_lists w l)")
  case (Some fs)
  let ?c = "w_lists w l"
  let ?f = "fs ! nat (firingIndex ?c)"
  obtain ops stop where b: "beh (call l ?f d w) ?f d = (ops, stop)" by fastforce
  let ?next = "\<lambda>r w1. if stop \<and> opt_stopOnFalse ?c then Done (upd l (\<lambda>c. c\<lparr>memory := None\<rparr>) w1)
    else r (TLoop l d) (upd l (\<lambda>c. c\<lparr>firingIndex := firingIndex c + 1\<rparr>) w1)"
  have eq: "fire_loop r beh l d w =
    (if firingIndex ?c < firingLength ?c
     then if 0 \<le> firingIndex ?c \<and> nat (firingIndex ?c) < length fs
       then case r (TOps ops) (call l ?f d w) of
            Done w1 \<Rightarrow> ?next r w1 | Thrown e w1 \<Rightarrow> Thrown e w1 | NoFuel \<Rightarrow> NoFuel
       else Thrown TypeError w
     else Done w)" for r
    by (simp add: fire_loop_def Let_def Some b)
  have t: "?next rec' w1 = ?next rec w1" if "?next rec w1 \<noteq> NoFuel" for w1
    using that extendsD [OF assms(1)] by (cases stop; cases "opt_stopOnFalse ?c") simp_all
  show ?thesis
  proof (cases "firingIndex ?c < firingLength ?c \<and> 0 \<le> firingIndex ?c \<and> nat (firingIndex ?c) < length fs")
    case True
    then have r: "fire_loop r beh l d w =
      (case r (TOps ops) (call l ?f d w) of Done w1 \<Rightarrow> ?next r w1 | Thrown e w1 \<Rightarrow> Thrown e w1 | NoFuel \<Rightarrow> NoFuel)" for r
      unfolding eq by simp
    show ?thesis using assms(2) unfolding r by (rule extends_case [OF assms(1)]) (rule t)
  qed (auto simp: eq)
qed (simp add: fire_loop_def)

lemma extends_run_op:
  assumes "extends rec rec'" "run_op rec beh p w \<noteq> NoFuel"
  shows "run_op rec' beh p w = run_op rec beh p w"
proof -
  have a: "cb_add rec' l args w = cb_add rec l args w" if "cb_add rec l args w \<noteq> NoFuel" for l args
    using that extendsD [OF assms(1)] unfolding cb_add_def Let_def by (simp split: if_splits option.splits)
  have f: "cb_fireWith rec' l d w = cb_fireWith rec l d w" if "cb_fireWith rec l d w \<noteq> NoFuel" for l d
    using that extendsD [OF assms(1)] unfolding cb_fireWith_def Let_def by (auto split: if_splits option.splits)
  show ?thesis
    using assms(2) a f extendsD [OF assms(1)] by (simp add: run_op_def list_op_def split: op.splits cop.splits)
qed

lemma extends_run_ops:
  assumes "extends rec rec'" "run_ops rec ps w \<noteq> NoFuel"
  shows "run_ops rec' ps w = run_ops rec ps w"
proof (cases ps)
  case (Cons p ps')
  with assms(2) have "(case rec (TOp p) w of Done w1 \<Rightarrow> rec (TOps ps') w1 | Thrown e w1 \<Rightarrow> Thrown e w1 | NoFuel \<Rightarrow> NoFuel) \<noteq> NoFuel"
    by (simp add: run_ops_def)
  from extends_case [OF assms(1) this extendsD [OF assms(1)]] Cons show ?thesis by (simp add: run_ops_def)
qed (simp add: run_ops_def)

lemma run_extends: "extends (run k beh) (run (Suc k) beh)"
proof (induction k)
  case 0
  show ?case by (simp add: extends_def)
next
  case (Suc k)
  have "run_body (run (Suc k) beh) beh t w = run_body (run k beh) beh t w" if "run_body (run k beh) beh t w \<noteq> NoFuel" for t and w :: "('a, 'b, 'c) world"
    using that extends_fire [OF Suc] extends_fire_loop [OF Suc] extends_run_op [OF Suc] extends_run_ops [OF Suc]
    by (cases t) (simp_all add: run_body_def del: run.simps)
  then show ?case unfolding extends_def run_Suc by blast
qed

lemma run_more: "run k beh t w = r \<Longrightarrow> r \<noteq> NoFuel \<Longrightarrow> k \<le> j \<Longrightarrow> run j beh t w = r"
proof (induction j)
  case (Suc j)
  then show ?case using extendsD [OF run_extends, of j beh t w] by (cases "k = Suc j") (auto simp del: run.simps)
qed simp

lemma run_numeral: "run (numeral k) beh t w = run_body (run (pred_numeral k) beh) beh t w"
  by (simp add: numeral_eq_Suc run_Suc del: run.simps)

lemma run_one_op:
  "run k beh (TOps [p]) w = (case run (k - 1) beh (TOp p) w of Done w1 \<Rightarrow> Done w1 | r \<Rightarrow> r)"
proof (cases k)
  case (Suc m)
  then show ?thesis by (cases m) (auto simp: run_ops_def split: outcome.split)
qed simp

lemma run_append:
  assumes "run k beh (TOps ps) w = Done w1" "run j beh (TOps qs) w1 = Done w2" "k + j \<le> n"
  shows "run n beh (TOps (ps @ qs)) w = Done w2"
  using assms
proof (induction ps arbitrary: k w n)
  case Nil
  then have "w1 = w" by (cases k) (simp_all add: run_ops_def)
  with Nil show ?case by (auto intro: run_more)
next
  case (Cons p ps)
  obtain k' where k: "k = Suc k'" using Cons.prems(1) by (cases k) simp_all
  obtain n' where n: "n = Suc n'" using Cons.prems(3) k by (cases n) simp_all
  from Cons.prems(1) obtain w0 where w0: "run k' beh (TOp p) w = Done w0" "run k' beh (TOps ps) w0 = Done w1"
    by (auto simp: k run_ops_def split: outcome.splits)
  have "run n' beh (TOp p) w = Done w0" by (rule run_more [OF w0(1)]) (use Cons.prems(3) k n in simp_all)
  moreover have "run n' beh (TOps (ps @ qs)) w0 = Done w2" by (rule Cons.IH [OF w0(2) Cons.prems(2)]) (use Cons.prems(3) k n in simp)
  ultimately show ?case by (simp add: n run_ops_def)
qed

section \<open>The properties\<close>

text \<open>Lists that have just been made, list \<open>l\<close> with the options \<open>os l\<close>.\<close>

definition fresh :: "(nat \<Rightarrow> cboptions) \<Rightarrow> 'x \<Rightarrow> ('f, 'd, 'x) world" where
  "fresh os x = \<lparr>w_lists = (\<lambda>l. snd (Callbacks [] (os l))), w_log = [], w_ext = x\<rparr>"

lemma fresh_list: "\<exists>p. w_lists (fresh os x) l = new_cbs p"
  by (cases "os l") (auto simp: fresh_def Callbacks_def createOptions_def Let_def)

lemma wf_new: "cb_wf (new_cbs p)"
  by (auto simp: cb_wf_def new_cbs_def)

lemma wf_fresh: "wf_world (fresh os x)"
  unfolding wf_world_def
proof
  show "cb_wf (w_lists (fresh os x) l)" for l
    by (cases "os l") (auto simp: fresh_def Callbacks_def createOptions_def Let_def wf_new)
qed

lemma once_memory_options: "new_cbs (snd (createOptions [] ''once memory'')) =
   \<lparr>opt_once = True, opt_memory = True, opt_unique = False, opt_stopOnFalse = False, firing = False,
    memory = None, fired = False, firingLength = 0, firingIndex = 0, firingStart = 0,
    cb_list = Some [], stack = None\<rparr>"
proof -
  have "words ''once memory'' = [''once'', ''memory'']" by code_simp
  then show ?thesis by (simp add: createOptions_def new_cbs_def opt_def Let_def)
qed

lemma fresh_once_memory: "w_lists (fresh (\<lambda>_. OptString ''once memory'') x) l =
   \<lparr>opt_once = True, opt_memory = True, opt_unique = False, opt_stopOnFalse = False, firing = False,
    memory = None, fired = False, firingLength = 0, firingIndex = 0, firingStart = 0,
    cb_list = Some [], stack = None\<rparr>"
proof -
  have "w_lists (fresh (\<lambda>_. OptString ''once memory'') x) l = new_cbs (snd (createOptions [] ''once memory''))"
    by (simp add: fresh_def Callbacks_def split: prod.split)
  then show ?thesis unfolding once_memory_options by assumption
qed

text \<open>
  C1: a list made with the flags \<open>once memory\<close> calls, over any sequence of \<open>add\<close> and
  \<open>fireWith\<close> with callbacks that do not call back, every callback added exactly once, in the
  order of addition and with the value of the first fire, and calls nothing when there is no
  fire; it needs no more fuel than the number of operations and callbacks.
\<close>

theorem once_memory_exact:
  fixes xs :: "('f list + 'd) list" and x :: 'x
  assumes "length xs + length (added xs) + 6 < n"
  shows "\<exists>w. run n (silent ret) (TOps (map (to_op l) xs)) (fresh (\<lambda>_. OptString ''once memory'') x) = Done w \<and>
    w_log w = (case fires xs of [] \<Rightarrow> [] | d # _ \<Rightarrow> map (\<lambda>f. (l, f, d)) (added xs))"
proof -
  let ?w = "fresh (\<lambda>_. OptString ''once memory'') x :: ('f, 'd, 'x) world"
  have "idle l [] None ?w" "w_log ?w = []"
    by (simp_all add: idle_def fresh_once_memory) (simp add: fresh_def)
  then show ?thesis
    using once_memory_run [of l "[]" None ?w xs n ret] assms by (auto split: list.splits)
qed

theorem once_memory_exact_witness:
  "\<exists>w. run 20 (silent (\<lambda>_ _. False)) (TOps (map (to_op 0) [Inl [1, 2], Inr True, Inl [3 :: nat], Inr False]))
      (fresh (\<lambda>_. OptString ''once memory'') ()) = Done w \<and>
    w_log w = [(0, 1, True), (0, 2, True), (0, 3, True)]"
  using once_memory_exact [of "[Inl [1, 2], Inr True, Inl [3 :: nat], Inr False]" 20 "\<lambda>_ _. False" 0 "()"]
  by simp

text \<open>
  C2: whatever callbacks do to the lists while they are called (add, remove, empty, disable,
  lock, fire again, throw), with any options, the library itself never throws: no list index is
  out of range and no undefined list is read.
\<close>

theorem callbacks_never_type_error:
  "run n beh (TOps ps) (fresh os x) \<noteq> Thrown TypeError w"
proof
  assume r: "run n beh (TOps ps) (fresh os x) = Thrown TypeError w"
  have "good (fresh os x) (run n beh (TOps ps) (fresh os x))"
    by (rule sound_at [OF run_sound wf_fresh]) simp
  with r show False by (simp add: good_def)
qed

text \<open>
  A list made with the flag \<open>once\<close> passes one value only to its callbacks, whatever the
  callbacks do, and a list made with the flag \<open>unique\<close> never holds a callback twice.
\<close>

theorem once_single_value:
  fixes w :: "('f, 'd, 'x) world"
  assumes "run n beh (TOps ps) (fresh os x) = Done w"
  shows "(opt_once (w_lists (fresh os x :: ('f, 'd, 'x) world) l) \<longrightarrow> (\<exists>d. \<forall>f e. (l, f, e) \<in> set (w_log w) \<longrightarrow> e = d)) \<and>
    (opt_unique (w_lists (fresh os x :: ('f, 'd, 'x) world) l) \<longrightarrow> (\<forall>fs. cb_list (w_lists w l) = Some fs \<longrightarrow> distinct fs))"
proof -
  have g: "good (fresh os x) (run n beh (TOps ps) (fresh os x))"
    by (rule sound_at [OF run_sound wf_fresh]) simp
  then have wf: "cb_wf (w_lists w l)" and k: "opt_unique (w_lists w l) = opt_unique (w_lists (fresh os x :: ('f, 'd, 'x) world) l)"
    using assms by (simp_all add: good_Done wf_world_def keeps_def same_opts_def)
  obtain p where p: "w_lists (fresh os x :: ('f, 'd, 'x) world) l = new_cbs p" by (rule exE [OF fresh_list])
  have "once_state l (fresh os x :: ('f, 'd, 'x) world)" if "opt_once (w_lists (fresh os x :: ('f, 'd, 'x) world) l)"
    using that p by (simp add: once_state_def unfired_def fresh_def) (simp add: new_cbs_def)
  then show ?thesis using once_list_run [OF wf_fresh _ assms] wf k by (auto simp: cb_wf_def)
qed

theorem once_single_value_witness:
  "\<exists>w. run 20 (silent (\<lambda>_ _. False)) (TOps (map (to_op 0) [Inl [1 :: nat], Inr True, Inr False]))
      (fresh (\<lambda>_. OptString ''once memory'') ()) = Done w \<and>
    (\<exists>d. \<forall>f e. (0, f, e) \<in> set (w_log w) \<longrightarrow> e = d)"
proof -
  let ?w = "fresh (\<lambda>_. OptString ''once memory'') () :: (nat, bool, unit) world"
  have c: "opt_once (w_lists ?w 0)" "idle 0 [] None ?w"
    by (simp_all add: fresh_once_memory idle_def)
  obtain w where w: "run 20 (silent (\<lambda>_ _. False)) (TOps (map (to_op 0) [Inl [1], Inr True, Inr False])) ?w = Done w"
    using once_memory_run [OF c(2), of "[Inl [1 :: nat], Inr True, Inr False]" 20 "\<lambda>_ _. False"] by auto
  from once_single_value [OF this, of 0] c w show ?thesis by blast
qed

text \<open>
  Callbacks removed while their list fires, whichever and however many: the callbacks still
  to be called afterwards are those that were still to be called before, less the removed ones,
  in the same order, and the batch still ends at the end of the list.
\<close>

theorem remove_while_firing:
  assumes "cb_wf c" "firing c" "cb_list c = Some fs"
  shows "cb_list (cb_remove args c) = Some (filter (\<lambda>f. f \<notin> set args) fs) \<and>
    drop (nat (firingIndex (cb_remove args c) + 1)) (the (cb_list (cb_remove args c))) =
      filter (\<lambda>f. f \<notin> set args) (drop (nat (firingIndex c + 1)) fs) \<and>
    firingLength (cb_remove args c) = int (length (the (cb_list (cb_remove args c))))"
proof -
  obtain fs' fl' fi' where r:
    "foldl (\<lambda>st arg. remove_one arg 0 st (firing c)) (fs, firingLength c, firingIndex c) args = (fs', fl', fi')"
    by (metis prod_cases3)
  then have "cb_remove args c = c\<lparr>cb_list := Some fs', firingLength := fl', firingIndex := fi'\<rparr>"
    unfolding cb_remove_def assms(3) by simp
  with remove_fold_spec [OF r] assms show ?thesis by (auto simp: cb_wf_def)
qed

theorem remove_while_firing_witness:
  "let c = (new_cbs [] :: (nat, bool) cbs)\<lparr>cb_list := Some [1, 2, 1, 3 :: nat], firing := True, fired := True, firingLength := 4,
        firingIndex := 1\<rparr>
   in cb_list (cb_remove [1, 2] c) = Some [3] \<and> firingLength (cb_remove [1, 2] c) = 1"
  using remove_while_firing [of "(new_cbs [] :: (nat, bool) cbs)\<lparr>cb_list := Some [1, 2, 1, 3 :: nat], firing := True, fired := True,
      firingLength := 4, firingIndex := 1\<rparr>" "[1, 2, 1, 3]" "[1, 2]"]
  by (simp add: cb_wf_def new_cbs_def opt_def Let_def)

text \<open>
  A list that has been disabled, whose comment says that it does nothing any more, is alive
  again after \<open>empty\<close>: a callback added then is called by the next fire.
\<close>

theorem empty_revives_disabled:
  "\<exists>w. run 20 (silent (\<lambda>_ _. False)) (TOps [On 0 Disable, On 0 Empty, On 0 (Add [AFun (7 :: nat)]), On 0 (FireWith True)])
      (fresh (\<lambda>_. OptObject []) ()) = Done w \<and> w_log w = [(0, 7, True)] \<and>
   cb_disabled (cb_disable c) \<and> \<not> cb_disabled (cb_empty (cb_disable c))"
  by (simp add: eval_nat_numeral run_ops_def run_op_def list_op_def cb_add_def cb_fireWith_def fire_def
      fire_loop_def after_loop_def silent_def fresh_def Callbacks_def new_cbs_def opt_def Let_def upd_def
      cb_disable_def cb_empty_def begin_fire_def call_def cb_disabled_def inArray_def)

end
