(* ===== verification/JQ_Classes.thy ===== *)
theory JQ_Classes
  imports JQ_Core
begin

text \<open>
  \<open>addClass\<close>, \<open>removeClass\<close>, \<open>toggleClass\<close> and \<open>hasClass\<close> of \<^verbatim>\<open>jquery.js\<close>, on the
  \<open>className\<close> strings of the elements: the string algorithms are modelled as written and
  proved to be the operations on the list of class names the string stands for.  The
  interface \<open>class_list\<close> is what the widgets built on them use.
\<close>

section \<open>Elements and the class string\<close>

record elt =
  nodeType :: nat
  className :: string
  saved :: "string option"  \<comment> \<open>the element datum \<open>__className__\<close>\<close>

type_synonym elts = "nat \<Rightarrow> elt"

definition is_css :: "char \<Rightarrow> bool" where
  "is_css c \<longleftrightarrow> of_char c \<in> {9, 10, 12, 13, 32 :: nat}"

text \<open>\<open>replace(/[\t\r\n\f]/g, " ")\<close>\<close>

definition rclass_fix :: "string \<Rightarrow> string" where
  "rclass_fix s = map (\<lambda>c. if is_css c then CHR '' '' else c) s"

definition pad :: "string \<Rightarrow> string" where
  "pad s = '' '' @ s @ '' ''"

fun add_loop :: "string list \<Rightarrow> string \<Rightarrow> string" where
  "add_loop [] cur = cur"
| "add_loop (clazz # classes) cur =
     add_loop classes (if \<not> occurs (pad clazz) cur then cur @ clazz @ '' '' else cur)"

lemma length_replace_first:
  "occurs pat s \<Longrightarrow> length (replace_first pat r s) + length pat = length s + length r"
  by (elim replace_first_occ [where r = r]) simp

function remove_all :: "string \<Rightarrow> string \<Rightarrow> string" where
  "remove_all clazz cur =
     (if occurs (pad clazz) cur then remove_all clazz (replace_first (pad clazz) '' '' cur) else cur)"
  by pat_completeness auto
termination
proof (relation "measure (\<lambda>(clazz, cur). length cur)")
  fix clazz cur :: string
  assume "occurs (pad clazz) cur"
  then show "((clazz, replace_first (pad clazz) '' '' cur), (clazz, cur)) \<in> measure (\<lambda>(clazz, cur). length cur)"
    using length_replace_first [of "pad clazz" cur "'' ''"] by (simp add: pad_def)
qed simp

declare remove_all.simps [simp del]

fun remove_loop :: "string list \<Rightarrow> string \<Rightarrow> string" where
  "remove_loop [] cur = cur"
| "remove_loop (clazz # classes) cur = remove_loop classes (remove_all clazz cur)"

definition addClass_elem :: "string \<Rightarrow> elt \<Rightarrow> elt" where
  "addClass_elem value e =
     (if nodeType e = 1
      then let cur = (if className e \<noteq> '''' then rclass_fix (pad (className e)) else '' '')
           in e\<lparr>className := trim (add_loop (words value) cur)\<rparr>
      else e)"

definition removeClass_elem :: "string option \<Rightarrow> elt \<Rightarrow> elt" where
  "removeClass_elem value e =
     (if nodeType e = 1 \<and> className e \<noteq> ''''
      then let cur = remove_loop (words (case value of None \<Rightarrow> '''' | Some v \<Rightarrow> v)) (rclass_fix (pad (className e)))
           in e\<lparr>className := (if value \<noteq> None then trim cur else '''')\<rparr>
      else e)"

definition hasClass_elem :: "string \<Rightarrow> elt \<Rightarrow> bool" where
  "hasClass_elem selector e \<longleftrightarrow>
     nodeType e = 1 \<and> occurs (pad selector) (rclass_fix (pad (className e)))"

section \<open>The operations on a matched set\<close>

text \<open>
  The argument: a string, a function of the index and the current class string, no
  argument, or a boolean.
\<close>

datatype cval = CStr string | CFun "nat \<Rightarrow> string \<Rightarrow> string" | CNone | CBool bool

fun each_elem :: "(nat \<Rightarrow> nat \<Rightarrow> elts \<Rightarrow> elts) \<Rightarrow> nat \<Rightarrow> nat list \<Rightarrow> elts \<Rightarrow> elts" where
  "each_elem f j [] st = st"
| "each_elem f j (n # ns) st = each_elem f (Suc j) ns (f j n st)"

definition addClass_str :: "string \<Rightarrow> nat list \<Rightarrow> elts \<Rightarrow> elts" where
  "addClass_str v ns st =
     (if v \<noteq> '''' then each_elem (\<lambda>_ n st. st(n := addClass_elem v (st n))) 0 ns st else st)"

definition addClass :: "cval \<Rightarrow> nat list \<Rightarrow> elts \<Rightarrow> elts" where
  "addClass value ns st =
     (case value of
        CFun g \<Rightarrow> each_elem (\<lambda>j n st. addClass_str (g j (className (st n))) [n] st) 0 ns st
      | CStr v \<Rightarrow> addClass_str v ns st
      | _ \<Rightarrow> st)"

definition removeClass_str :: "string option \<Rightarrow> nat list \<Rightarrow> elts \<Rightarrow> elts" where
  "removeClass_str v ns st =
     (if v \<noteq> Some '''' then each_elem (\<lambda>_ n st. st(n := removeClass_elem v (st n))) 0 ns st else st)"

definition removeClass :: "cval \<Rightarrow> nat list \<Rightarrow> elts \<Rightarrow> elts" where
  "removeClass value ns st =
     (case value of
        CFun g \<Rightarrow> each_elem (\<lambda>j n st. removeClass_str (Some (g j (className (st n)))) [n] st) 0 ns st
      | CStr v \<Rightarrow> removeClass_str (Some v) ns st
      | CNone \<Rightarrow> removeClass_str None ns st
      | CBool _ \<Rightarrow> st)"

definition hasClass :: "string \<Rightarrow> nat list \<Rightarrow> elts \<Rightarrow> bool" where
  "hasClass selector ns st = list_ex (\<lambda>n. hasClass_elem selector (st n)) ns"

fun toggle_names :: "string list \<Rightarrow> nat \<Rightarrow> elts \<Rightarrow> elts" where
  "toggle_names [] n st = st"
| "toggle_names (z # zs) n st =
     toggle_names zs n
       (if hasClass z [n] st then removeClass_str (Some z) [n] st else addClass_str z [n] st)"

definition toggle_whole :: "cval \<Rightarrow> elt \<Rightarrow> elt" where
  "toggle_whole value e =
     (let e1 = (if className e \<noteq> '''' then e\<lparr>saved := Some (className e)\<rparr> else e)
      in e1\<lparr>className :=
           (if className e1 \<noteq> '''' \<or> value = CBool False then ''''
            else (case saved e1 of None \<Rightarrow> '''' | Some s \<Rightarrow> s))\<rparr>)"

definition toggleClass_novalue :: "cval \<Rightarrow> nat list \<Rightarrow> elts \<Rightarrow> elts" where
  "toggleClass_novalue value ns st =
     (case value of
        CStr v \<Rightarrow> each_elem (\<lambda>_ n st. toggle_names (words v) n st) 0 ns st
      | _ \<Rightarrow> each_elem (\<lambda>_ n st. st(n := toggle_whole value (st n))) 0 ns st)"

definition toggleClass :: "cval \<Rightarrow> bool option \<Rightarrow> nat list \<Rightarrow> elts \<Rightarrow> elts" where
  "toggleClass value stateVal ns st =
     (case (value, stateVal) of
        (CStr v, Some b) \<Rightarrow> if b then addClass value ns st else removeClass value ns st
      | (CFun g, Some b) \<Rightarrow>
          each_elem (\<lambda>j n st. let v = CStr (g j (className (st n)))
                             in if b then addClass v [n] st else removeClass v [n] st) 0 ns st
      | (CFun g, None) \<Rightarrow>
          each_elem (\<lambda>j n st. toggleClass_novalue (CStr (g j (className (st n)))) [n] st) 0 ns st
      | _ \<Rightarrow> toggleClass_novalue value ns st)"

section \<open>The class names a string stands for\<close>

definition toks :: "string \<Rightarrow> string list" where
  "toks s = words_by is_css s"

text \<open>A class name, and a class string without the separators only \<open>\s\<close> knows.\<close>

definition ok_class :: "string \<Rightarrow> bool" where
  "ok_class z \<longleftrightarrow> z \<noteq> '''' \<and> (\<forall>c \<in> set z. \<not> is_space c)"

definition plain :: "string \<Rightarrow> bool" where
  "plain s \<longleftrightarrow> (\<forall>c \<in> set s. is_space c \<longrightarrow> is_css c)"

abbreviation is_sp :: "char \<Rightarrow> bool" where
  "is_sp \<equiv> (\<lambda>c. c = CHR '' '')"

definition padded :: "string \<Rightarrow> bool" where
  "padded cur \<longleftrightarrow> cur \<noteq> [] \<and> hd cur = CHR '' '' \<and> last cur = CHR '' '' \<and>
     (\<forall>c \<in> set cur. is_space c \<longrightarrow> c = CHR '' '')"

lemma space_classes [simp]: "is_css (CHR '' '')" "is_space (CHR '' '')"
  by (simp_all add: is_css_def is_space_def)

lemma is_css_space: "is_css c \<Longrightarrow> is_space c"
  by (auto simp: is_css_def is_space_def)

lemma rclass_fix_Nil [simp]: "rclass_fix [] = []"
  by (simp add: rclass_fix_def)

lemma words_acc_rclass: "words_acc is_sp (rclass_fix s) w = words_acc is_css s w"
  by (induction s arbitrary: w) (auto simp: rclass_fix_def)

lemma toks_rclass: "toks s = words_by is_sp (rclass_fix s)"
  by (simp add: toks_def words_by_def words_acc_rclass)

lemma words_by_pad: "words_by is_sp (pad s) = words_by is_sp s"
  by (simp add: pad_def words_by_Cons_sep words_by_sep [of is_sp "CHR '' ''" s "[]", simplified])

lemma rclass_pad: "rclass_fix (pad s) = pad (rclass_fix s)"
  by (simp add: rclass_fix_def pad_def)

lemma padded_rclass: "plain s \<Longrightarrow> padded (rclass_fix (pad s))"
  by (auto simp: rclass_fix_def pad_def padded_def plain_def)

lemma occurs_pad:
  assumes "padded cur" "ok_class z"
  shows "occurs (pad z) cur \<longleftrightarrow> z \<in> set (words_by is_sp cur)"
proof
  assume "occurs (pad z) cur"
  then obtain a b where "cur = a @ '' '' @ z @ '' '' @ b" by (auto simp: occurs_iff pad_def)
  then have "words_by is_sp cur = words_by is_sp a @ words_by is_sp z @ words_by is_sp b"
    using words_by_sep [of is_sp "CHR '' ''"] by simp
  moreover have "words_by is_sp z = [z]"
    using assms(2) by (intro words_by_word) (auto simp: ok_class_def)
  ultimately show "z \<in> set (words_by is_sp cur)" by simp
next
  assume "z \<in> set (words_by is_sp cur)"
  then obtain a b where ab: "cur = a @ z @ b" "a = [] \<or> is_sp (last a)" "b = [] \<or> is_sp (hd b)"
    using words_acc_occurs [of z is_sp cur "[]"] by (auto simp: words_by_def)
  have ne: "z \<noteq> []" using assms(2) by (simp add: ok_class_def)
  then have "\<not> is_space (hd z)" "\<not> is_space (last z)" using assms(2) by (simp_all add: ok_class_def)
  with ne have z: "hd z \<noteq> CHR '' ''" "last z \<noteq> CHR '' ''" "z \<noteq> []" by (metis space_classes(2))+
  have "a \<noteq> []" using assms(1) ab(1) z by (auto simp: padded_def)
  moreover have "b \<noteq> []" using assms(1) ab(1) z by (auto simp: padded_def)
  ultimately obtain a' b' where "a = a' @ '' ''" "b = '' '' @ b'"
    using ab(2,3) by (metis append_Cons append_Nil append_butlast_last_id list.collapse)
  with ab(1) show "occurs (pad z) cur" by (auto simp: occurs_iff pad_def)
qed

lemma hasClass_elem_toks:
  "nodeType e = 1 \<Longrightarrow> plain (className e) \<Longrightarrow> ok_class z \<Longrightarrow>
   hasClass_elem z e \<longleftrightarrow> z \<in> set (toks (className e))"
  by (simp add: hasClass_elem_def occurs_pad padded_rclass toks_rclass)
     (simp add: rclass_pad words_by_pad)

definition add_tok :: "string list \<Rightarrow> string \<Rightarrow> string list" where
  "add_tok ts z = (if z \<in> set ts then ts else ts @ [z])"

lemma padded_snoc: "padded cur \<Longrightarrow> ok_class z \<Longrightarrow> padded (cur @ z @ '' '')"
  by (auto simp: padded_def ok_class_def)

lemma words_snoc:
  assumes "padded cur" "ok_class z"
  shows "words_by is_sp (cur @ z @ '' '') = words_by is_sp cur @ [z]"
proof -
  obtain c where c: "cur = c @ '' ''" using assms(1) by (metis padded_def append_butlast_last_id)
  have "words_by is_sp z = [z]"
    using assms(2) by (intro words_by_word) (auto simp: ok_class_def)
  then show ?thesis
    using words_by_sep [of is_sp "CHR '' ''" c "z @ '' ''"] words_by_sep [of is_sp "CHR '' ''" z "[]"]
      words_by_sep [of is_sp "CHR '' ''" c "[]"] by (simp add: c)
qed

lemma add_loop_toks:
  "padded cur \<Longrightarrow> \<forall>z \<in> set zs. ok_class z \<Longrightarrow>
   padded (add_loop zs cur) \<and> words_by is_sp (add_loop zs cur) = foldl add_tok (words_by is_sp cur) zs"
  by (induction zs arbitrary: cur) (auto simp: occurs_pad padded_snoc words_snoc add_tok_def)

lemma replace_first_pad:
  assumes "padded cur" "ok_class z" "occurs (pad z) cur"
  shows "padded (replace_first (pad z) '' '' cur) \<and>
    (\<exists>us vs. words_by is_sp cur = us @ z # vs \<and>
       words_by is_sp (replace_first (pad z) '' '' cur) = us @ vs)"
proof -
  obtain a b where ab: "cur = a @ pad z @ b" "replace_first (pad z) '' '' cur = a @ '' '' @ b"
    using assms(3) by (rule replace_first_occ)
  have z: "words_by is_sp z = [z]"
    using assms(2) by (intro words_by_word) (auto simp: ok_class_def)
  have "padded (a @ '' '' @ b)"
  proof -
    have "hd (a @ '' '' @ b) = hd cur" "last (a @ '' '' @ b) = last cur"
      by (cases a; simp add: ab(1) pad_def)+
    then show ?thesis using assms(1) by (auto simp: padded_def ab(1))
  qed
  moreover have "words_by is_sp cur = words_by is_sp a @ z # words_by is_sp b"
    "words_by is_sp (a @ '' '' @ b) = words_by is_sp a @ words_by is_sp b"
    using words_by_sep [of is_sp "CHR '' ''"] z by (simp_all add: ab(1) pad_def)
  ultimately show ?thesis by (auto simp: ab(2))
qed

lemma remove_all_toks:
  "padded cur \<Longrightarrow> ok_class z \<Longrightarrow>
   padded (remove_all z cur) \<and> words_by is_sp (remove_all z cur) = removeAll z (words_by is_sp cur)"
proof (induction z cur rule: remove_all.induct)
  case (1 z cur)
  show ?case
  proof (cases "occurs (pad z) cur")
    case True
    from replace_first_pad [OF "1.prems" True] obtain us vs where
      r: "padded (replace_first (pad z) '' '' cur)" "words_by is_sp cur = us @ z # vs"
      "words_by is_sp (replace_first (pad z) '' '' cur) = us @ vs" by blast
    from "1.IH" [OF True r(1) "1.prems"(2)] show ?thesis
      by (simp add: remove_all.simps [of z cur] True r(2,3))
  next
    case False
    with "1.prems" have "z \<notin> set (words_by is_sp cur)" by (simp add: occurs_pad)
    with False "1.prems" show ?thesis by (simp add: remove_all.simps [of z cur])
  qed
qed

lemma remove_loop_toks:
  "padded cur \<Longrightarrow> \<forall>z \<in> set zs. ok_class z \<Longrightarrow>
   padded (remove_loop zs cur) \<and>
   words_by is_sp (remove_loop zs cur) = filter (\<lambda>z. z \<notin> set zs) (words_by is_sp cur)"
proof (induction zs arbitrary: cur)
  case (Cons z zs)
  have "filter (\<lambda>y. y \<notin> set zs) (removeAll z xs) = filter (\<lambda>y. y \<noteq> z \<and> y \<notin> set zs) xs" for xs
    by (induction xs) auto
  with Cons show ?case using remove_all_toks [of cur z] by simp
qed simp

lemma trim_padded:
  assumes "padded cur"
  shows "toks (trim cur) = words_by is_sp cur \<and> plain (trim cur)"
proof -
  obtain l t r where lr: "cur = l @ t @ r" "\<forall>c \<in> set l. is_space c" "\<forall>c \<in> set r. is_space c"
    and t: "trim cur = t"
    using trim_decompose by blast
  have "\<forall>c \<in> set cur. is_space c \<longrightarrow> c = CHR '' ''" using assms by (simp add: padded_def)
  then have sp: "\<forall>c \<in> set l. is_sp c" "\<forall>c \<in> set r. is_sp c" "\<forall>c \<in> set t. is_space c \<longrightarrow> c = CHR '' ''"
    unfolding lr(1) set_append using lr(2,3) by blast+
  have "words_by is_sp cur = words_by is_sp t"
    unfolding lr(1) using sp by (simp add: words_by_strip words_by_strip_end)
  moreover have "rclass_fix t = t"
    unfolding rclass_fix_def
  proof (rule map_idI)
    fix c assume "c \<in> set t"
    then show "(if is_css c then CHR '' '' else c) = c" using sp(3) is_css_space by metis
  qed
  moreover have "plain t" unfolding plain_def using sp(3) by (metis space_classes(1))
  ultimately show ?thesis by (simp add: toks_rclass t)
qed

lemma words_ok: "\<forall>z \<in> set (words v). ok_class z"
  by (auto simp: words_def ok_class_def dest: words_by_in)

lemma addClass_elem_toks:
  assumes "nodeType e = 1" "plain (className e)"
  shows "toks (className (addClass_elem v e)) = foldl add_tok (toks (className e)) (words v) \<and>
    plain (className (addClass_elem v e))"
proof -
  let ?cur = "if className e \<noteq> '''' then rclass_fix (pad (className e)) else '' ''"
  have "padded ?cur" using padded_rclass [OF assms(2)] by (auto simp: padded_def)
  moreover have "words_by is_sp ?cur = toks (className e)"
    by (auto simp: toks_rclass rclass_pad words_by_pad words_by_Cons_sep toks_def)
  ultimately have "padded (add_loop (words v) ?cur)"
    "words_by is_sp (add_loop (words v) ?cur) = foldl add_tok (toks (className e)) (words v)"
    using add_loop_toks [OF _ words_ok, of ?cur v] by simp_all
  with trim_padded show ?thesis using assms(1) by (simp add: addClass_elem_def Let_def)
qed

lemma removeClass_elem_toks:
  assumes "nodeType e = 1" "plain (className e)"
  shows "toks (className (removeClass_elem (Some v) e)) =
      filter (\<lambda>z. z \<notin> set (words v)) (toks (className e)) \<and>
    plain (className (removeClass_elem (Some v) e))"
proof (cases "className e = ''''")
  case False
  let ?cur = "rclass_fix (pad (className e))"
  have "padded (remove_loop (words v) ?cur)"
    "words_by is_sp (remove_loop (words v) ?cur) = filter (\<lambda>z. z \<notin> set (words v)) (words_by is_sp ?cur)"
    using remove_loop_toks [OF padded_rclass [OF assms(2)] words_ok, of v] by simp_all
  moreover have "words_by is_sp ?cur = toks (className e)"
    by (simp add: toks_rclass rclass_pad words_by_pad)
  ultimately show ?thesis
    using trim_padded False assms(1) by (simp add: removeClass_elem_def Let_def)
qed (simp add: removeClass_elem_def toks_def plain_def)

lemma words_ok_class: "ok_class z \<Longrightarrow> words z = [z]"
  by (simp add: words_def ok_class_def words_by_word)

lemma nodeType_class_ops [simp]:
  "nodeType (addClass_elem v e) = nodeType e" "nodeType (removeClass_elem w e) = nodeType e"
  by (simp_all add: addClass_elem_def removeClass_elem_def Let_def)

section \<open>The interface of a list of class names\<close>

text \<open>What the users of the class operations rely on.\<close>

locale class_list =
  fixes names :: "'e \<Rightarrow> string list"
    and has :: "string \<Rightarrow> 'e \<Rightarrow> bool"
    and add :: "string \<Rightarrow> 'e \<Rightarrow> 'e"
    and rem :: "string \<Rightarrow> 'e \<Rightarrow> 'e"
    and good :: "'e \<Rightarrow> bool"
  assumes has_names: "good e \<Longrightarrow> ok_class z \<Longrightarrow> has z e \<longleftrightarrow> z \<in> set (names e)"
    and add_names: "good e \<Longrightarrow> ok_class z \<Longrightarrow> names (add z e) = add_tok (names e) z"
    and rem_names: "good e \<Longrightarrow> ok_class z \<Longrightarrow> names (rem z e) = removeAll z (names e)"
    and good_add: "good e \<Longrightarrow> ok_class z \<Longrightarrow> good (add z e)"
    and good_rem: "good e \<Longrightarrow> ok_class z \<Longrightarrow> good (rem z e)"
begin

lemma has_add: "good e \<Longrightarrow> ok_class z \<Longrightarrow> ok_class y \<Longrightarrow> has y (add z e) \<longleftrightarrow> y = z \<or> has y e"
  by (auto simp: has_names good_add add_names add_tok_def)

lemma has_rem: "good e \<Longrightarrow> ok_class z \<Longrightarrow> ok_class y \<Longrightarrow> has y (rem z e) \<longleftrightarrow> y \<noteq> z \<and> has y e"
  by (auto simp: has_names good_rem rem_names)

lemma add_idem: "good e \<Longrightarrow> ok_class z \<Longrightarrow> names (add z (add z e)) = names (add z e)"
  by (simp add: add_names good_add add_tok_def)

lemma rem_add: "good e \<Longrightarrow> ok_class z \<Longrightarrow> \<not> has z e \<Longrightarrow> names (rem z (add z e)) = names e"
  by (simp add: add_names rem_names good_add has_names add_tok_def)

lemma toggle_toggle:
  assumes "good e" "ok_class z"
  shows "set (names (let e1 = (if has z e then rem z e else add z e)
    in if has z e1 then rem z e1 else add z e1)) = set (names e)"
  using assms by (auto simp: Let_def has_names add_names rem_names good_add good_rem add_tok_def)

end

interpretation class_string: class_list
  "\<lambda>e. toks (className e)" hasClass_elem addClass_elem "\<lambda>z. removeClass_elem (Some z)"
  "\<lambda>e. nodeType e = 1 \<and> plain (className e)"
proof
  fix e :: elt and z
  assume g: "nodeType e = 1 \<and> plain (className e)" "ok_class z"
  show "hasClass_elem z e \<longleftrightarrow> z \<in> set (toks (className e))"
    using g by (simp add: hasClass_elem_toks)
  show "toks (className (addClass_elem z e)) = add_tok (toks (className e)) z"
    "nodeType (addClass_elem z e) = 1 \<and> plain (className (addClass_elem z e))"
    using g addClass_elem_toks [of e z] by (simp_all add: words_ok_class)
  have "filter (\<lambda>y. y \<notin> set [z]) xs = removeAll z xs" for xs :: "string list"
    by (induction xs) auto
  then show "toks (className (removeClass_elem (Some z) e)) = removeAll z (toks (className e))"
    "nodeType (removeClass_elem (Some z) e) = 1 \<and> plain (className (removeClass_elem (Some z) e))"
    using g removeClass_elem_toks [of e z] by (simp_all add: words_ok_class)
qed

section \<open>The properties\<close>

lemma each_elem_upd:
  "distinct ns \<Longrightarrow> each_elem (\<lambda>_ n st. st(n := g (st n))) j ns st = (\<lambda>m. if m \<in> set ns then g (st m) else st m)"
  by (induction ns arbitrary: j st) (auto simp: fun_eq_iff)

lemma add_each: "distinct ns \<Longrightarrow> n \<in> set ns \<Longrightarrow> addClass (CStr v) ns st n = (if v = '''' then st n else addClass_elem v (st n))"
  by (simp add: addClass_def addClass_str_def each_elem_upd)

lemma remove_each:
  "distinct ns \<Longrightarrow> n \<in> set ns \<Longrightarrow>
   removeClass (CStr v) ns st n = (if v = '''' then st n else removeClass_elem (Some v) (st n))"
  by (simp add: removeClass_def removeClass_str_def each_elem_upd)

lemma in_foldl_add_tok [simp]: "x \<in> set (foldl add_tok ts zs) \<longleftrightarrow> x \<in> set ts \<or> x \<in> set zs"
  by (induction zs arbitrary: ts) (auto simp: add_tok_def)

text \<open>
  After \<open>addClass\<close> of a string an element of the set has a class exactly if it had it or the
  string names it, after \<open>removeClass\<close> exactly if it had it and the string does not name it,
  whatever the spacing of the two class strings; other elements do not change.
\<close>

theorem add_remove_class:
  assumes "distinct ns" "nodeType (st n) = 1" "plain (className (st n))" "ok_class z"
  shows "(n \<in> set ns \<longrightarrow>
      (hasClass z [n] (addClass (CStr v) ns st) \<longleftrightarrow> hasClass z [n] st \<or> z \<in> set (words v)) \<and>
      (hasClass z [n] (removeClass (CStr v) ns st) \<longleftrightarrow> hasClass z [n] st \<and> z \<notin> set (words v))) \<and>
    (n \<notin> set ns \<longrightarrow> addClass (CStr v) ns st n = st n \<and> removeClass (CStr v) ns st n = st n)"
proof -
  have h: "hasClass_elem z (st n) \<longleftrightarrow> z \<in> set (toks (className (st n)))"
    by (rule hasClass_elem_toks [OF assms(2-4)])
  have a: "hasClass_elem z (addClass_elem v (st n)) \<longleftrightarrow> z \<in> set (toks (className (st n))) \<or> z \<in> set (words v)"
    using addClass_elem_toks [OF assms(2,3), of v] assms(2,4) by (simp add: hasClass_elem_toks in_foldl_add_tok)
  have r: "hasClass_elem z (removeClass_elem (Some v) (st n)) \<longleftrightarrow>
      z \<in> set (toks (className (st n))) \<and> z \<notin> set (words v)"
    using removeClass_elem_toks [OF assms(2,3), of v] assms(2,4) by (auto simp: hasClass_elem_toks)
  have w: "words '''' = []" by (simp add: words_def)
  have o: "n \<notin> set ns \<Longrightarrow> addClass (CStr v) ns st n = st n \<and> removeClass (CStr v) ns st n = st n"
    using assms(1) by (simp add: addClass_def addClass_str_def removeClass_def removeClass_str_def each_elem_upd)
  show ?thesis
    using a r h w o by (auto simp: hasClass_def add_each [OF assms(1)] remove_each [OF assms(1)])
qed

theorem add_remove_class_witness:
  "hasClass ''b'' [1] (addClass (CStr ''b c'') [1] (\<lambda>_. \<lparr>nodeType = 1, className = ''a'', saved = None\<rparr>))"
proof -
  have "words ''b c'' = [''b'', ''c'']" "plain ''a''" "ok_class ''b''" by code_simp+
  then show ?thesis
    using add_remove_class [of "[1]" "\<lambda>_. \<lparr>nodeType = 1, className = ''a'', saved = None\<rparr>" 1 "''b''" "''b c''"]
    by simp
qed

end
