(* ===== verification/Doc_Asciidoc.thy ===== *)
theory Doc_Asciidoc
  imports JS_Prelude
begin

text \<open>
  \<^verbatim>\<open>docs/htmldoc/javascripts/asciidoc.js\<close>: the script that builds the table of contents
  and the footnotes of a page, and that runs again every half second until the page has
  loaded.  The page is the tree of its content (the identities of the elements are numbers,
  their attributes are kept aside since the script writes ids), the children of the table of
  contents, the spans of the content in document order, and the footnotes block.
\<close>

section \<open>The table of contents\<close>

datatype node = Text string | Elem nat string "node list" | OtherNode

record tocchild =
  tc_nodeName :: string
  tc_class :: "string option"
  tc_href :: string
  tc_text :: string

record entry =
  e_element :: nat
  e_text :: string
  e_toclevel :: int

record doc =
  content :: "node list option"
  attrs :: "nat \<Rightarrow> string obj"
  toc_el :: "tocchild list option"

fun getText :: "node list \<Rightarrow> string" where
  "getText [] = ''''"
| "getText (Text data # is) = data @ getText is"
| "getText (Elem u tag kids # is) = (if kids \<noteq> [] then getText kids else '''') @ getText is"
| "getText (OtherNode # is) = getText is"

text \<open>
  The regular expression \<open>[hH]([1-N])\<close>, where \<open>N\<close> is written out in decimal inside the
  brackets: a range up to its first digit, then its other digits one by one.  The match is
  the leftmost one and need not cover the tag name.
\<close>

definition in_class :: "nat \<Rightarrow> char \<Rightarrow> bool" where
  "in_class N c \<longleftrightarrow>
     (let ds = nat_str N
      in (49 :: nat) \<le> of_char c \<and> (of_char c :: nat) \<le> of_char (hd ds) \<or> c \<in> set (tl ds))"

fun match_level :: "nat \<Rightarrow> string \<Rightarrow> int option" where
  "match_level N (a # b # cs) =
     (if (a = CHR ''h'' \<or> a = CHR ''H'') \<and> in_class N b
      then Some (int (of_char b) - 48) else match_level N (b # cs))"
| "match_level N _ = None"

definition float_class :: "string obj \<Rightarrow> string option" where
  "float_class at =
     (case oget at ''class'' of
        Some c \<Rightarrow> if c \<noteq> '''' then Some c else oget at ''className''
      | None \<Rightarrow> oget at ''className'')"

fun iterate :: "nat \<Rightarrow> (nat \<Rightarrow> string obj) \<Rightarrow> node list \<Rightarrow> entry list" where
  "iterate N at [] = []"
| "iterate N at (Elem u tag kids # is) =
     (case match_level N tag of
        Some mo \<Rightarrow>
          (if float_class (at u) \<noteq> Some ''float''
           then [\<lparr>e_element = u, e_text = getText kids, e_toclevel = mo - 1\<rparr>] else [])
      | None \<Rightarrow> []) @ iterate N at kids @ iterate N at is"
| "iterate N at (_ # is) = iterate N at is"

definition tocEntries :: "node list \<Rightarrow> (nat \<Rightarrow> string obj) \<Rightarrow> nat \<Rightarrow> entry list" where
  "tocEntries el at toclevels = iterate (toclevels + 1) at el"

definition id_of :: "string obj \<Rightarrow> string" where
  "id_of at = (case oget at ''id'' of Some s \<Rightarrow> s | None \<Rightarrow> '''')"

definition int_str :: "int \<Rightarrow> string" where
  "int_str k = (if k < 0 then ''-'' @ nat_str (nat (- k)) else nat_str (nat k))"

definition toc_entry_child :: "tocchild \<Rightarrow> bool" where
  "toc_entry_child c \<longleftrightarrow>
     lower (tc_nodeName c) = ''div'' \<and>
     (case tc_class c of None \<Rightarrow> False | Some s \<Rightarrow> s \<noteq> '''' \<and> take 8 s = ''toclevel'')"

fun rebuild :: "nat \<Rightarrow> entry list \<Rightarrow> (nat \<Rightarrow> string obj) \<Rightarrow> (nat \<Rightarrow> string obj) \<times> tocchild list" where
  "rebuild i [] at = (at, [])"
| "rebuild i (en # es) at =
     (let u = e_element en;
          at1 = (if id_of (at u) = '''' then at(u := oset (at u) ''id'' (''_toc_'' @ nat_str i)) else at);
          (at2, rest) = rebuild (Suc i) es at1
      in (at2, \<lparr>tc_nodeName = ''DIV'', tc_class = Some (''toclevel'' @ int_str (e_toclevel en)),
                tc_href = ''#'' @ id_of (at1 u), tc_text = e_text en\<rparr> # rest))"

text \<open>The second component says whether the script threw (a page without a content element).\<close>

definition toc :: "nat \<Rightarrow> doc \<Rightarrow> doc \<times> bool" where
  "toc toclevels d =
     (case toc_el d of
        None \<Rightarrow> (d, False)
      | Some kids \<Rightarrow>
          (let kept = filter (\<lambda>c. \<not> toc_entry_child c) kids
           in case content d of
             None \<Rightarrow> (d\<lparr>toc_el := Some kept\<rparr>, True)
           | Some el \<Rightarrow>
               (let entries = tocEntries el (attrs d) toclevels;
                    (at, new) = rebuild 0 entries (attrs d)
                in (d\<lparr>attrs := at, toc_el := (if entries = [] then None else Some (kept @ new))\<rparr>, False))))"

lemma id_of_oset [simp]: "id_of (oset at ''id'' v) = v"
  by (simp add: id_of_def)

lemma float_class_oset [simp]: "float_class (oset at ''id'' v) = float_class at"
  by (simp add: float_class_def split: option.split)

lemma iterate_cong: "(\<And>u. float_class (at u) = float_class (at' u)) \<Longrightarrow> iterate N at is = iterate N at' is"
  by (induction N at "is" rule: iterate.induct) (auto split: option.splits)

lemma rebuild_frame:
  "rebuild i es at = (at', new) \<Longrightarrow>
   float_class (at' u) = float_class (at u) \<and> (id_of (at u) \<noteq> '''' \<longrightarrow> at' u = at u)"
proof (induction es arbitrary: i at new)
  case (Cons en es)
  let ?at1 = "if id_of (at (e_element en)) = ''''
    then at(e_element en := oset (at (e_element en)) ''id'' (''_toc_'' @ nat_str i)) else at"
  obtain rest where r: "rebuild (Suc i) es ?at1 = (at', rest)"
    using Cons.prems by (auto simp: Let_def split: prod.splits)
  show ?case using Cons.IH [OF r] by (auto split: if_splits)
qed simp

definition entry_child :: "(nat \<Rightarrow> string obj) \<Rightarrow> entry \<Rightarrow> tocchild" where
  "entry_child at en =
     \<lparr>tc_nodeName = ''DIV'', tc_class = Some (''toclevel'' @ int_str (e_toclevel en)),
      tc_href = ''#'' @ id_of (at (e_element en)), tc_text = e_text en\<rparr>"

lemma rebuild_links:
  "rebuild i es at = (at', new) \<Longrightarrow>
   new = map (entry_child at') es \<and> (\<forall>en \<in> set es. id_of (at' (e_element en)) \<noteq> '''')"
proof (induction es arbitrary: i at new)
  case (Cons en es)
  let ?u = "e_element en"
  let ?at1 = "if id_of (at ?u) = '''' then at(?u := oset (at ?u) ''id'' (''_toc_'' @ nat_str i)) else at"
  obtain rest where r: "rebuild (Suc i) es ?at1 = (at', rest)"
    and new: "new = \<lparr>tc_nodeName = ''DIV'', tc_class = Some (''toclevel'' @ int_str (e_toclevel en)),
                tc_href = ''#'' @ id_of (?at1 ?u), tc_text = e_text en\<rparr> # rest"
    using Cons.prems by (auto simp: Let_def split: prod.splits)
  have "id_of (?at1 ?u) \<noteq> ''''" by simp
  then have "at' ?u = ?at1 ?u" using rebuild_frame [OF r] by blast
  with Cons.IH [OF r] new show ?case by (simp add: entry_child_def)
qed simp

lemma rebuild_again:
  "\<forall>en \<in> set es. id_of (at (e_element en)) \<noteq> '''' \<Longrightarrow> rebuild i es at = (at, map (entry_child at) es)"
  by (induction es arbitrary: i) (simp_all add: entry_child_def)

lemma lower_DIV [simp]: "lower ''DIV'' = ''div''"
  by code_simp

lemma entry_child_removed [simp]: "toc_entry_child (entry_child at en)"
  by (simp add: toc_entry_child_def entry_child_def)

text \<open>
  Running the generator again on its own result changes nothing: the entries of the first run
  are deleted, and the ids given then make the same links.
\<close>

lemma toc_again:
  assumes "toc n d = (d', False)"
  shows "toc n d' = (d', False)"
proof (cases "toc_el d")
  case None
  with assms show ?thesis by (simp add: toc_def)
next
  case (Some kids)
  let ?kept = "filter (\<lambda>c. \<not> toc_entry_child c) kids"
  from assms Some obtain el where el: "content d = Some el"
    by (auto simp: toc_def Let_def split: option.splits)
  let ?es = "tocEntries el (attrs d) n"
  obtain at new where r: "rebuild 0 ?es (attrs d) = (at, new)" by fastforce
  have d': "d' = d\<lparr>attrs := at, toc_el := (if ?es = [] then None else Some (?kept @ new))\<rparr>"
    using assms Some el r by (simp add: toc_def Let_def)
  show ?thesis
  proof (cases "?es = []")
    case True
    with d' show ?thesis by (simp add: toc_def)
  next
    case False
    have es: "tocEntries el at n = ?es"
      unfolding tocEntries_def using rebuild_frame [OF r] by (intro iterate_cong) simp
    have new: "new = map (entry_child at) ?es" "rebuild 0 ?es at = (at, map (entry_child at) ?es)"
      using rebuild_links [OF r] rebuild_again by auto
    have "filter (\<lambda>c. \<not> toc_entry_child c) new = []" by (simp add: new(1) filter_empty_conv)
    with False d' el es new show ?thesis by (simp add: toc_def Let_def)
  qed
qed

section \<open>The headers of a page\<close>

text \<open>
  The nodes of a tree by their paths (the positions among the children from the root down), and
  document order as the lexicographic order of paths: what the table of contents is compared with.
\<close>

fun node_at :: "node list \<Rightarrow> nat list \<Rightarrow> node option" where
  "node_at ns [] = None"
| "node_at ns [i] = (if i < length ns then Some (ns ! i) else None)"
| "node_at ns (i # p) =
     (if i < length ns then (case ns ! i of Elem u tag kids \<Rightarrow> node_at kids p | _ \<Rightarrow> None) else None)"

definition in_order :: "nat list list \<Rightarrow> bool" where
  "in_order ps \<longleftrightarrow> sorted_wrt (\<lambda>p q. (p, q) \<in> lexord less_than) ps"

text \<open>A text is that of some nodes when it joins the data of all the text nodes among and below them, in order.\<close>

definition text_of :: "node list \<Rightarrow> string \<Rightarrow> bool" where
  "text_of ns t \<longleftrightarrow> (\<exists>ps. in_order ps \<and> (\<forall>p. p \<in> set ps \<longleftrightarrow> (\<exists>s. node_at ns p = Some (Text s)))
     \<and> t = concat (map (\<lambda>p. case node_at ns p of Some (Text s) \<Rightarrow> s | _ \<Rightarrow> []) ps))"

text \<open>The level of a tag name: the digit after the first \<open>h\<close> that one from 1 to the bound follows.\<close>

definition level_at :: "nat \<Rightarrow> string \<Rightarrow> nat \<Rightarrow> nat \<Rightarrow> bool" where
  "level_at N tag i k \<longleftrightarrow> Suc i < length tag \<and> (tag ! i = CHR ''h'' \<or> tag ! i = CHR ''H'')
     \<and> 1 \<le> k \<and> k \<le> N \<and> tag ! Suc i = digit_char k"

definition level_of :: "nat \<Rightarrow> string \<Rightarrow> nat \<Rightarrow> bool" where
  "level_of N tag k \<longleftrightarrow> (\<exists>i. level_at N tag i k \<and> (\<forall>j < i. \<forall>k'. \<not> level_at N tag j k'))"

definition floating :: "string obj \<Rightarrow> bool" where
  "floating at \<longleftrightarrow> oget at ''class'' = Some ''float''
     \<or> (oget at ''class'' = None \<or> oget at ''class'' = Some '''') \<and> oget at ''className'' = Some ''float''"

text \<open>The header at a path: its element, its level and its content.\<close>

definition header_at :: "(nat \<Rightarrow> string obj) \<Rightarrow> nat \<Rightarrow> node list \<Rightarrow> nat list \<Rightarrow> nat \<Rightarrow> nat \<Rightarrow> node list \<Rightarrow> bool" where
  "header_at at N ns p u k kids \<longleftrightarrow> (\<exists>tag. node_at ns p = Some (Elem u tag kids) \<and> level_of N tag k) \<and> \<not> floating (at u)"

text \<open>The walk through a tree, with the paths.\<close>

fun walk :: "nat \<Rightarrow> node list \<Rightarrow> (nat list \<times> node) list" where
  "walk i [] = []"
| "walk i (Elem u tag kids # ns) =
     ([i], Elem u tag kids) # map (\<lambda>(p, x). (i # p, x)) (walk 0 kids) @ walk (Suc i) ns"
| "walk i (x # ns) = ([i], x) # walk (Suc i) ns"

lemma node_at_Nil [simp]: "node_at [] p = None"
  by (cases p rule: remdups_adj.cases) auto

lemma node_at_Suc: "node_at (n # ns) (Suc i # p) = node_at ns (i # p)"
  by (cases p) auto

lemma node_at_0: "node_at (n # ns) (0 # p) = (if p = [] then Some n else case n of Elem u tag kids \<Rightarrow> node_at kids p | _ \<Rightarrow> None)"
  by (cases p) auto

lemma path_split:
  "(\<exists>j q. p = (i + j) # q \<and> node_at (n # ns) (j # q) = Some x) \<longleftrightarrow>
   (\<exists>q. p = i # q \<and> node_at (n # ns) (0 # q) = Some x) \<or> (\<exists>j q. p = (Suc i + j) # q \<and> node_at ns (j # q) = Some x)"
  (is "?l \<longleftrightarrow> ?r1 \<or> ?r2")
proof
  assume ?l
  then obtain j q where "p = (i + j) # q" "node_at (n # ns) (j # q) = Some x" by blast
  then show "?r1 \<or> ?r2" by (cases j) (auto simp: node_at_Suc)
next
  assume "?r1 \<or> ?r2"
  then show ?l
  proof
    assume ?r1
    then show ?l by (intro exI [of _ 0]) simp
  next
    assume ?r2
    then obtain j q where "p = (Suc i + j) # q" "node_at ns (j # q) = Some x" by blast
    then show ?l by (intro exI [of _ "Suc j"] exI [of _ q]) (simp add: node_at_Suc)
  qed
qed

lemma walk_paths: "(p, x) \<in> set (walk i ns) \<longleftrightarrow> (\<exists>j q. p = (i + j) # q \<and> node_at ns (j # q) = Some x)"
proof (induction i ns arbitrary: p x rule: walk.induct)
  case (2 i u tag kids ns)
  have kid: "(\<exists>q. p = i # q \<and> q \<noteq> [] \<and> node_at kids q = Some x) \<longleftrightarrow> (\<exists>q. p = i # q \<and> (q, x) \<in> set (walk 0 kids))"
    unfolding "2.IH"(1) by (metis add_0 list.exhaust list.distinct(1))
  show ?case unfolding path_split using kid "2.IH"(2) by (auto simp: node_at_0)
qed (unfold path_split, auto simp: node_at_0)

lemma walk_node: "(p, x) \<in> set (walk 0 ns) \<longleftrightarrow> node_at ns p = Some x"
  unfolding walk_paths by (cases p) auto

lemma walk_head: "(p, x) \<in> set (walk i ns) \<Longrightarrow> \<exists>j q. p = (i + j) # q"
  using walk_paths by fastforce

lemma walk_order: "in_order (map fst (walk i ns))"
proof (induction i ns rule: walk.induct)
  case (2 i u tag kids ns)
  have m: "map fst (walk i (Elem u tag kids # ns)) = [i] # map ((#) i) (map fst (walk 0 kids)) @ map fst (walk (Suc i) ns)"
    by (auto simp: case_prod_beta)
  show ?case
    using 2 unfolding m in_order_def
    by (auto simp: sorted_wrt_append sorted_wrt_map dest!: walk_head)
qed (auto simp: in_order_def dest!: walk_head)

text \<open>The functions of the code, on the walk.\<close>

definition data_of :: "node \<Rightarrow> string" where
  "data_of x = (case x of Text s \<Rightarrow> s | _ \<Rightarrow> '''')"

lemma getText_walk: "getText ns = concat (map (data_of \<circ> snd) (walk i ns))"
proof (induction ns arbitrary: i rule: getText.induct)
  case (3 u tag kids "is")
  have m: "map (data_of \<circ> snd) (map (\<lambda>(p, x). (i # p, x)) w) = map (data_of \<circ> snd) w" for w by auto
  have "(if kids \<noteq> [] then getText kids else []) = concat (map (data_of \<circ> snd) (walk 0 kids))"
    using 3(1) [of 0] by (cases "kids = []") (auto simp: comp_def)
  then show ?case unfolding walk.simps list.map map_append m concat.simps concat_append getText.simps 3(2) [of "Suc i"]
    by (simp add: data_of_def comp_def)
qed (auto simp: data_of_def)

lemma concat_filter: "(\<And>x. x \<in> set xs \<Longrightarrow> \<not> P x \<Longrightarrow> f x = []) \<Longrightarrow> concat (map f (filter P xs)) = concat (map f xs)"
  by (induction xs) auto

lemma in_order_filter: "in_order (map fst w) \<Longrightarrow> in_order (map fst (filter P w))"
  unfolding in_order_def sorted_wrt_map by (rule sorted_wrt_filter)

lemma text_of_getText: "text_of ns (getText ns)"
proof -
  let ?P = "\<lambda>(p :: nat list, x). \<exists>s. x = Text s"
  let ?w = "filter ?P (walk 0 ns)"
  have "in_order (map fst ?w)" using walk_order by (rule in_order_filter)
  moreover have "p \<in> set (map fst ?w) \<longleftrightarrow> (\<exists>s. node_at ns p = Some (Text s))" for p
    by (force simp: walk_node [symmetric])
  moreover have "getText ns = concat (map (\<lambda>p. case node_at ns p of Some (Text s) \<Rightarrow> s | _ \<Rightarrow> []) (map fst ?w))"
  proof -
    have "getText ns = concat (map (data_of \<circ> snd) ?w)"
      unfolding getText_walk [of ns 0]
      by (rule concat_filter [symmetric]) (auto simp: data_of_def split: node.splits)
    also have "\<dots> = concat (map (\<lambda>p. case node_at ns p of Some (Text s) \<Rightarrow> s | _ \<Rightarrow> []) (map fst ?w))"
      by (intro arg_cong [of _ _ concat]) (auto simp: walk_node data_of_def)
    finally show ?thesis .
  qed
  ultimately show ?thesis unfolding text_of_def by blast
qed

lemma digit_code: "k < 10 \<Longrightarrow> of_char (digit_char k) = 48 + k"
  by (simp add: digit_char_def of_char_of)

lemma in_class_digit: "N < 10 \<Longrightarrow> in_class N c \<longleftrightarrow> (\<exists>k. 1 \<le> k \<and> k \<le> N \<and> c = digit_char k)"
proof -
  assume N: "N < 10"
  then have "in_class N c \<longleftrightarrow> 49 \<le> (of_char c :: nat) \<and> (of_char c :: nat) \<le> 48 + N"
    by (auto simp: in_class_def nat_str.simps [of N] Let_def digit_code)
  also have "\<dots> \<longleftrightarrow> (\<exists>k. 1 \<le> k \<and> k \<le> N \<and> c = digit_char k)"
  proof
    assume a: "49 \<le> (of_char c :: nat) \<and> (of_char c :: nat) \<le> 48 + N"
    then have "c = digit_char (of_char c - 48)" by (simp add: digit_char_def)
    with a show "\<exists>k. 1 \<le> k \<and> k \<le> N \<and> c = digit_char k" by (intro exI [of _ "of_char c - 48"]) auto
  qed (use N in \<open>auto simp: digit_code\<close>)
  finally show ?thesis .
qed

lemma level_at_Suc: "level_at N (a # t) (Suc i) k \<longleftrightarrow> level_at N t i k"
  by (auto simp: level_at_def)

lemma level_of_here:
  assumes "level_at N tag 0 k" "N < 10"
  shows "level_of N tag m \<longleftrightarrow> m = k"
proof
  assume "level_of N tag m"
  then obtain i where i: "level_at N tag i m" "\<forall>j < i. \<forall>k'. \<not> level_at N tag j k'" by (auto simp: level_of_def)
  then have "i = 0" using assms(1) by (cases i) auto
  then have "of_char (digit_char m) = (of_char (digit_char k) :: nat)" "m < 10" "k < 10"
    using i(1) assms by (auto simp: level_at_def)
  then show "m = k" by (simp add: digit_code del: of_char_eq_iff)
qed (use assms in \<open>auto simp: level_of_def\<close>)

lemma level_of_there:
  assumes "\<forall>k. \<not> level_at N (a # t) 0 k"
  shows "level_of N (a # t) m \<longleftrightarrow> level_of N t m"
proof
  assume "level_of N (a # t) m"
  then obtain i where i: "level_at N (a # t) i m" "\<forall>j < i. \<forall>k'. \<not> level_at N (a # t) j k'" by (auto simp: level_of_def)
  then obtain l where l: "i = Suc l" using assms by (cases i) auto
  then have "\<forall>j < l. \<forall>k'. \<not> level_at N t j k'" using i(2) level_at_Suc by (metis Suc_mono)
  then show "level_of N t m" using i(1) by (auto simp: level_of_def l level_at_Suc)
next
  assume "level_of N t m"
  then obtain i where i: "level_at N t i m" "\<forall>j < i. \<forall>k'. \<not> level_at N t j k'" by (auto simp: level_of_def)
  have "\<not> level_at N (a # t) j k'" if "j < Suc i" for j k'
    using that i(2) assms by (cases j) (simp_all add: level_at_Suc)
  then show "level_of N (a # t) m" unfolding level_of_def using i(1) level_at_Suc by metis
qed

lemma match_level_of: "N < 10 \<Longrightarrow> match_level N tag = Some m \<longleftrightarrow> (\<exists>k. m = int k \<and> level_of N tag k)"
proof (induction N tag arbitrary: m rule: match_level.induct)
  case (1 N a b cs)
  show ?case
  proof (cases "(a = CHR ''h'' \<or> a = CHR ''H'') \<and> in_class N b")
    case True
    then obtain k where k: "1 \<le> k" "k \<le> N" "b = digit_char k" using in_class_digit "1.prems" by auto
    then have "level_at N (a # b # cs) 0 k" using True by (simp add: level_at_def)
    from level_of_here [OF this "1.prems"] k True "1.prems" show ?thesis by (auto simp: digit_code)
  next
    case False
    then have "\<forall>k. \<not> level_at N (a # b # cs) 0 k" using in_class_digit [OF "1.prems"] by (auto simp: level_at_def)
    from level_of_there [OF this] "1.IH" [OF False "1.prems"] False show ?thesis by auto
  qed
qed (auto simp: level_of_def level_at_def)

lemma not_float: "float_class at \<noteq> Some ''float'' \<longleftrightarrow> \<not> floating at"
  by (auto simp: float_class_def floating_def split: option.splits)

lemma level_of_unique: "N < 10 \<Longrightarrow> level_of N tag k \<Longrightarrow> level_of N tag m \<Longrightarrow> m = k"
  using match_level_of by (metis int_eq_iff_numeral of_nat_eq_iff option.inject)

text \<open>The entries are the headers of the walk.\<close>

definition entry_of :: "nat \<Rightarrow> (nat \<Rightarrow> string obj) \<Rightarrow> node \<Rightarrow> entry list" where
  "entry_of N at x =
     (case x of Elem u tag kids \<Rightarrow>
        (case match_level N tag of
           Some mo \<Rightarrow> if \<not> floating (at u) then [\<lparr>e_element = u, e_text = getText kids, e_toclevel = mo - 1\<rparr>] else []
         | None \<Rightarrow> [])
      | _ \<Rightarrow> [])"

lemma iterate_walk: "iterate N at ns = concat (map (entry_of N at \<circ> snd) (walk i ns))"
proof (induction N at ns arbitrary: i rule: iterate.induct)
  case (2 N at u tag kids "is")
  have m: "map (entry_of N at \<circ> snd) (map (\<lambda>(p, x). (i # p, x)) w) = map (entry_of N at \<circ> snd) w" for w by auto
  have kids: "iterate N at kids = concat (map (entry_of N at \<circ> snd) (walk 0 kids))"
    and rest: "iterate N at is = concat (map (entry_of N at \<circ> snd) (walk (Suc i) is))"
    by (rule 2)+
  show ?case
    unfolding iterate.simps walk.simps kids rest list.map map_append m concat.simps concat_append
    by (auto simp: entry_of_def not_float split: option.split)
qed (auto simp: entry_of_def)

text \<open>The entries against the paths of the headers.\<close>

lemma entries_headers:
  assumes "N < 10"
  shows "\<exists>ps. in_order ps \<and> (\<forall>p. p \<in> set ps \<longleftrightarrow> (\<exists>u k kids. header_at at N ns p u k kids)) \<and>
    list_all2 (\<lambda>p en. \<exists>k kids. header_at at N ns p (e_element en) k kids \<and> e_toclevel en = int k - 1 \<and> text_of kids (e_text en))
      ps (iterate N at ns)"
proof -
  let ?P = "\<lambda>(p :: nat list, x). entry_of N at x \<noteq> []"
  let ?w = "filter ?P (walk 0 ns)"
  have one: "entry_of N at x = [] \<or> (\<exists>en. entry_of N at x = [en])" for x
    by (auto simp: entry_of_def split: node.split option.split)
  have h: "header_at at N ns p u k kids \<longleftrightarrow> (\<exists>tag. (p, Elem u tag kids) \<in> set (walk 0 ns) \<and> match_level N tag = Some (int k)) \<and> \<not> floating (at u)"
    for p u k kids
    using match_level_of [OF assms] by (auto simp: header_at_def walk_node)
  have e: "entry_of N at x = [en] \<longleftrightarrow> (\<exists>u tag kids k. x = Elem u tag kids \<and> match_level N tag = Some (int k) \<and> \<not> floating (at u)
      \<and> en = \<lparr>e_element = u, e_text = getText kids, e_toclevel = int k - 1\<rparr>)" for x en
  proof (cases x)
    case (Elem u tag kids)
    show ?thesis
    proof (cases "match_level N tag")
      case (Some mo)
      then obtain k where "mo = int k" using match_level_of [OF assms] by auto
      then show ?thesis using Some Elem by (auto simp: entry_of_def)
    qed (use Elem in \<open>simp add: entry_of_def\<close>)
  qed (simp_all add: entry_of_def)
  have "in_order (map fst ?w)" using walk_order by (rule in_order_filter)
  moreover have "p \<in> set (map fst ?w) \<longleftrightarrow> (\<exists>u k kids. header_at at N ns p u k kids)" for p
  proof -
    have "p \<in> set (map fst ?w) \<longleftrightarrow> (\<exists>x en. (p, x) \<in> set (walk 0 ns) \<and> entry_of N at x = [en])"
      using one by force
    also have "\<dots> \<longleftrightarrow> (\<exists>u k kids. header_at at N ns p u k kids)" unfolding e h by blast
    finally show ?thesis .
  qed
  moreover have "list_all2 (\<lambda>p en. \<exists>k kids. header_at at N ns p (e_element en) k kids \<and> e_toclevel en = int k - 1 \<and> text_of kids (e_text en))
      (map fst ?w) (iterate N at ns)"
  proof -
    have "list_all2 (\<lambda>p en. \<exists>k kids. header_at at N ns p (e_element en) k kids \<and> e_toclevel en = int k - 1 \<and> text_of kids (e_text en))
        (map fst (filter ?P w)) (concat (map (entry_of N at \<circ> snd) w))" if "set w \<subseteq> set (walk 0 ns)" for w
      using that
    proof (induction w)
      case step: (Cons px w)
      obtain p x where px: "px = (p, x)" by fastforce
      show ?case
      proof (cases "entry_of N at x")
        case Nil
        then show ?thesis using step px by (simp add: comp_def)
      next
        case (Cons en ens)
        then have en: "entry_of N at x = [en]" using one [of x] by auto
        then obtain u tag kids k where "x = Elem u tag kids" "match_level N tag = Some (int k)" "\<not> floating (at u)"
          "en = \<lparr>e_element = u, e_text = getText kids, e_toclevel = int k - 1\<rparr>" unfolding e by blast
        moreover from this have "header_at at N ns p u k kids" unfolding h using step.prems px by auto
        ultimately have "\<exists>k kids. header_at at N ns p (e_element en) k kids \<and> e_toclevel en = int k - 1 \<and> text_of kids (e_text en)"
          using text_of_getText by auto
        moreover have "list_all2 (\<lambda>p en. \<exists>k kids. header_at at N ns p (e_element en) k kids \<and> e_toclevel en = int k - 1 \<and> text_of kids (e_text en))
            (map fst (filter ?P w)) (concat (map (entry_of N at \<circ> snd) w))" using step.IH step.prems by (simp add: comp_def)
        moreover have "filter ?P (px # w) = (p, x) # filter ?P w" "concat (map (entry_of N at \<circ> snd) (px # w)) = en # concat (map (entry_of N at \<circ> snd) w)"
          using px en by simp_all
        ultimately show ?thesis by (simp only: list.map fst_conv list_all2_Cons)
      qed
    qed simp
    from this [OF subset_refl] show ?thesis unfolding iterate_walk [of N at ns 0] .
  qed
  ultimately show ?thesis by blast
qed

section \<open>Footnotes\<close>

text \<open>
  A span of the content: its class, its text, its \<open>data-note\<close> and \<open>id\<close> attributes, the
  \<open>href\<close> of the first link inside it, and how many spans are nested in it (they follow it in
  the live collection, and are gone when its \<open>innerHTML\<close> is assigned).
\<close>

record span =
  sp_class :: string
  sp_html :: string
  sp_note :: "string option"
  sp_id :: "string option"
  sp_link :: "string option option"  \<comment> \<open>no link, or a link with or without an \<open>href\<close>\<close>
  sp_nested :: nat

datatype holderchild = FootnoteDiv nat string | HolderNode string "string option"

record fnotes =
  holder :: "holderchild list option"
  spans :: "span list option"

definition footnote_child :: "holderchild \<Rightarrow> bool" where
  "footnote_child c =
     (case c of FootnoteDiv _ _ \<Rightarrow> True
      | HolderNode name cls \<Rightarrow> lower name = ''div'' \<and> cls = Some ''footnote'')"

text \<open>\<open>match(/\s*\[([\s\S]*)]\s*/)[1]\<close>: between the first opening and the last closing bracket.\<close>

definition bracket_text :: "string \<Rightarrow> string option" where
  "bracket_text s =
     (case dropWhile (\<lambda>c. c \<noteq> CHR ''['') s of
        [] \<Rightarrow> None
      | _ # t \<Rightarrow> (case dropWhile (\<lambda>c. c \<noteq> CHR '']'') (rev t) of [] \<Rightarrow> None | _ # u \<Rightarrow> Some (rev u)))"

text \<open>\<open>match(/#.*/)[0]\<close>: from the first hash sign to the end of the line.\<close>

definition hash_part :: "string \<Rightarrow> string option" where
  "hash_part s =
     (case dropWhile (\<lambda>c. c \<noteq> CHR ''#'') s of
        [] \<Rightarrow> None
      | h # t \<Rightarrow> Some (h # takeWhile (\<lambda>c. of_char c \<noteq> (10 :: nat) \<and> of_char c \<noteq> (13 :: nat)) t))"

definition quoted :: "string \<Rightarrow> string" where
  "quoted s = CHR 0x27 # s @ [CHR 0x27]"

definition note_html :: "string \<Rightarrow> string" where
  "note_html n =
     ''[<a id='' @ quoted (''_footnoteref_'' @ n) @ '' href='' @ quoted (''#_footnote_'' @ n) @
     '' title='' @ quoted ''View footnote'' @ '' class='' @ quoted ''footnote'' @ ''>'' @ n @ ''</a>]''"

definition ref_html :: "string \<Rightarrow> string" where
  "ref_html n =
     ''[<a href='' @ quoted (''#_footnote_'' @ n) @
     '' title='' @ quoted ''View footnote'' @ '' class='' @ quoted ''footnote'' @ ''>'' @ n @ ''</a>]''"

text \<open>Assigning the markup of a link to a span: its spans are gone, its link is the new one.\<close>

definition set_link :: "string \<Rightarrow> string \<Rightarrow> span \<Rightarrow> span" where
  "set_link html n s = s\<lparr>sp_html := html, sp_link := Some (Some (''#_footnote_'' @ n)), sp_nested := 0\<rparr>"

text \<open>
  The note of a footnote span: its \<open>data-note\<close> if it has one, otherwise the text between the
  brackets, and then the span is turned into a link.  \<open>None\<close> is the exception of a footnote
  without brackets.
\<close>

definition read_note :: "nat \<Rightarrow> span \<Rightarrow> span list \<Rightarrow> (string \<times> span \<times> span list) option" where
  "read_note n s ss =
     (if sp_note s \<noteq> None \<and> sp_note s \<noteq> Some '''' then Some (the (sp_note s), s, ss)
      else case bracket_text (sp_html s) of
        None \<Rightarrow> None
      | Some t \<Rightarrow> Some (t, (set_link (note_html (nat_str n)) (nat_str n) s)\<lparr>sp_note := Some t\<rparr>,
                      drop (sp_nested s) ss))"

lemma read_note_Some:
  "read_note n s ss = Some (t, s1, ss1) \<Longrightarrow>
   sp_class s1 = sp_class s \<and> sp_note s1 = Some t \<and> sp_id s1 = sp_id s \<and>
   set ss1 \<subseteq> set ss \<and> length ss1 \<le> length ss"
  by (auto simp: read_note_def set_link_def split: if_splits option.splits dest: in_set_dropD)

lemma read_note_marked: "sp_note s = Some t \<Longrightarrow> t \<noteq> '''' \<Longrightarrow> read_note n s ss = Some (t, s, ss)"
  by (simp add: read_note_def)

text \<open>
  The first loop: over the live collection of spans, with the counter, the table \<open>refs\<close> and
  the block built so far.
\<close>

function note_loop :: "span list \<Rightarrow> nat \<Rightarrow> nat obj \<Rightarrow> holderchild list \<Rightarrow>
    (span list \<times> nat \<times> nat obj \<times> holderchild list) option" where
  "note_loop [] n refs ds = Some ([], n, refs, ds)"
| "note_loop (s # ss) n refs ds =
     (if sp_class s = ''footnote''
      then case read_note (Suc n) s ss of
             None \<Rightarrow> None
           | Some (t, s1, ss1) \<Rightarrow>
               (case note_loop ss1 (Suc n)
                       (if sp_id s \<noteq> None then oset refs (''#'' @ the (sp_id s)) (Suc n) else refs)
                       (ds @ [FootnoteDiv (Suc n) t]) of
                  None \<Rightarrow> None
                | Some (out, r) \<Rightarrow> Some (s1 # out, r))
      else case note_loop ss n refs ds of None \<Rightarrow> None | Some (out, r) \<Rightarrow> Some (s # out, r))"
  by pat_completeness auto
termination
  by (relation "measure (\<lambda>(ss, _). length ss)") (auto dest: read_note_Some)

text \<open>The second loop: the references, whose numbers are looked up under their \<open>href\<close>.\<close>

function ref_loop :: "span list \<Rightarrow> nat obj \<Rightarrow> span list option" where
  "ref_loop [] refs = Some []"
| "ref_loop (s # ss) refs =
     (if sp_class s = ''footnoteref''
      then case sp_link s of
             Some (Some href) \<Rightarrow>
               (case hash_part href of
                  None \<Rightarrow> None
                | Some h \<Rightarrow>
                    (let n = (case oget refs h of Some k \<Rightarrow> nat_str k | None \<Rightarrow> ''undefined'')
                     in map_option ((#) (set_link (ref_html n) n s)) (ref_loop (drop (sp_nested s) ss) refs)))
           | _ \<Rightarrow> None
      else map_option ((#) s) (ref_loop ss refs))"
  by pat_completeness auto
termination
  by (relation "measure (\<lambda>(ss, _). length ss)") auto

text \<open>
  The generator.  \<open>None\<close> stands for an exception (no content element, a footnote without
  brackets, a reference without a link or with one without hash); the page is then left in
  an intermediate state that the model does not follow.
\<close>

definition footnotes :: "fnotes \<Rightarrow> fnotes option" where
  "footnotes d =
     (case holder d of
        None \<Rightarrow> Some d
      | Some kids \<Rightarrow>
          (case spans d of
             None \<Rightarrow> None
           | Some ss \<Rightarrow>
               (case note_loop ss 0 [] (filter (\<lambda>c. \<not> footnote_child c) kids) of
                  None \<Rightarrow> None
                | Some (ss1, n, refs, ds) \<Rightarrow>
                    (if n = 0 then Some (d\<lparr>holder := None, spans := Some ss1\<rparr>)
                     else case ref_loop ss1 refs of
                       None \<Rightarrow> None
                     | Some ss2 \<Rightarrow> Some (d\<lparr>holder := Some ds, spans := Some ss2\<rparr>)))))"

text \<open>The two ways the loop goes on, as an elimination rule.\<close>

lemma note_loop_ConsE:
  assumes "note_loop (s # ss) n refs ds = Some (out, m, refs', ds')"
  obtains (other) out1 where "sp_class s \<noteq> ''footnote''" "out = s # out1"
      "note_loop ss n refs ds = Some (out1, m, refs', ds')"
    | (foot) t s1 ss1 out1 where "sp_class s = ''footnote''" "read_note (Suc n) s ss = Some (t, s1, ss1)"
      "out = s1 # out1"
      "note_loop ss1 (Suc n) (if sp_id s \<noteq> None then oset refs (''#'' @ the (sp_id s)) (Suc n) else refs)
         (ds @ [FootnoteDiv (Suc n) t]) = Some (out1, m, refs', ds')"
  using assms by (auto split: if_splits option.splits)

lemma note_loop_classes:
  "note_loop ss n refs ds = Some (out, m, refs', ds') \<Longrightarrow> sp_class ` set out \<subseteq> sp_class ` set ss"
proof (induction ss n refs ds arbitrary: out m refs' ds' rule: note_loop.induct)
  case (2 s ss n refs ds)
  from "2.prems" show ?case
  proof (cases rule: note_loop_ConsE)
    case (other out1)
    with "2.IH"(2) [OF other(1,3)] show ?thesis by auto
  next
    case (foot t s1 ss1 out1)
    with "2.IH"(1) [OF foot(1,2) refl refl foot(4)] read_note_Some [OF foot(2)] show ?thesis
      by auto
  qed
qed simp

text \<open>
  A page whose footnotes the generator has numbered: every footnote span carries its note.
  A second run gives the same numbers, references table and block.
\<close>

definition marked :: "span \<Rightarrow> bool" where
  "marked s \<longleftrightarrow> (sp_class s = ''footnote'' \<longrightarrow> sp_note s \<noteq> None \<and> sp_note s \<noteq> Some '''')"

lemma note_loop_again:
  "note_loop ss n refs ds = Some (out, m, refs', ds') \<Longrightarrow> \<forall>s \<in> set out. marked s \<Longrightarrow>
   \<exists>new. ds' = ds @ new \<and> (\<forall>c \<in> set new. footnote_child c) \<and>
     (\<forall>ds2. note_loop out n refs ds2 = Some (out, m, refs', ds2 @ new))"
proof (induction ss n refs ds arbitrary: out m refs' ds' rule: note_loop.induct)
  case (2 s ss n refs ds)
  from "2.prems"(1) show ?case
  proof (cases rule: note_loop_ConsE)
    case (other out1)
    with "2.prems"(2) obtain new where "ds' = ds @ new" "\<forall>c \<in> set new. footnote_child c"
        "\<forall>ds2. note_loop out1 n refs ds2 = Some (out1, m, refs', ds2 @ new)"
      using "2.IH"(2) [OF other(1,3)] by auto
    with other show ?thesis by auto
  next
    case (foot t s1 ss1 out1)
    let ?refs = "if sp_id s \<noteq> None then oset refs (''#'' @ the (sp_id s)) (Suc n) else refs"
    have m: "marked s1" "\<forall>s \<in> set out1. marked s" using "2.prems"(2) foot(3) by auto
    from "2.IH"(1) [OF foot(1,2) refl refl foot(4) m(2)] obtain new where
      ih: "ds' = (ds @ [FootnoteDiv (Suc n) t]) @ new" "\<forall>c \<in> set new. footnote_child c"
        "\<forall>ds2. note_loop out1 (Suc n) ?refs ds2 = Some (out1, m, refs', ds2 @ new)" by blast
    have s1: "sp_class s1 = ''footnote''" "sp_id s1 = sp_id s"
        "read_note (Suc n) s1 out1 = Some (t, s1, out1)"
      using read_note_Some [OF foot(2)] foot(1) m(1) by (auto simp: marked_def intro: read_note_marked)
    have "note_loop out n refs ds2 = Some (out, m, refs', ds2 @ FootnoteDiv (Suc n) t # new)" for ds2
      using ih(3) foot(3) s1 by (cases "sp_id s") simp_all
    with ih show ?thesis
      by (intro exI [of _ "FootnoteDiv (Suc n) t # new"]) (simp add: footnote_child_def)
  qed
qed simp

lemma ref_loop_none: "\<forall>s \<in> set ss. sp_class s \<noteq> ''footnoteref'' \<Longrightarrow> ref_loop ss refs = Some ss"
  by (induction ss refs rule: ref_loop.induct) auto

lemma footnotes_again:
  assumes "footnotes d = Some d'" "spans d = Some ss" "\<forall>s \<in> set ss. sp_class s \<noteq> ''footnoteref''"
    and "spans d' = Some ss'" "\<forall>s \<in> set ss'. marked s"
  shows "footnotes d' = Some d'"
proof (cases "holder d")
  case None
  with assms(1) show ?thesis by (auto simp: footnotes_def)
next
  case (Some kids)
  obtain ss1 n refs ds where r: "note_loop ss 0 [] (filter (\<lambda>c. \<not> footnote_child c) kids) = Some (ss1, n, refs, ds)"
    using assms(1,2) Some by (auto simp: footnotes_def split: option.splits)
  have nr: "\<forall>s \<in> set ss1. sp_class s \<noteq> ''footnoteref''"
    using note_loop_classes [OF r] assms(3) by auto
  show ?thesis
  proof (cases "n = 0")
    case True
    with assms(1,2) Some r have "holder d' = None" by (auto simp: footnotes_def)
    then show ?thesis by (simp add: footnotes_def)
  next
    case False
    have d': "d' = d\<lparr>holder := Some ds, spans := Some ss1\<rparr>"
      using assms(1,2) Some r False ref_loop_none [OF nr] by (simp add: footnotes_def)
    then have "\<forall>s \<in> set ss1. marked s" using assms(4,5) by simp
    from note_loop_again [OF r this] obtain new where
      new: "ds = filter (\<lambda>c. \<not> footnote_child c) kids @ new" "\<forall>c \<in> set new. footnote_child c"
        "\<forall>ds2. note_loop ss1 0 [] ds2 = Some (ss1, n, refs, ds2 @ new)" by blast
    have "filter (\<lambda>c. \<not> footnote_child c) ds = filter (\<lambda>c. \<not> footnote_child c) kids"
      using new(2) by (simp add: new(1))
    with d' new False ref_loop_none [OF nr] show ?thesis by (simp add: footnotes_def)
  qed
qed

section \<open>What the footnotes of a page are\<close>

text \<open>
  The spans that stay: those in a footnote whose note is still to be read go when the footnote becomes
  a link.  The note of a footnote, its number, and the footnote a reference is to: the last one whose
  id it names.
\<close>

definition is_note :: "span \<Rightarrow> bool" where
  "is_note s \<longleftrightarrow> sp_class s = ''footnote''"

definition unread :: "span \<Rightarrow> bool" where
  "unread s \<longleftrightarrow> is_note s \<and> (sp_note s = None \<or> sp_note s = Some '''')"

function outer :: "span list \<Rightarrow> span list" where
  "outer [] = []"
| "outer (s # ss) = s # outer (if unread s then drop (sp_nested s) ss else ss)"
  by pat_completeness auto
termination by (relation "measure length") auto

definition in_brackets :: "string \<Rightarrow> string \<Rightarrow> bool" where
  "in_brackets html t \<longleftrightarrow> (\<exists>a b. html = a @ CHR ''['' # t @ CHR '']'' # b \<and> CHR ''['' \<notin> set a \<and> CHR '']'' \<notin> set b)"

definition has_note :: "span \<Rightarrow> string \<Rightarrow> bool" where
  "has_note s t \<longleftrightarrow> (if unread s then in_brackets (sp_html s) t else sp_note s = Some t)"

definition number_of :: "span list \<Rightarrow> nat \<Rightarrow> nat" where
  "number_of ss i = length (filter is_note (take (Suc i) ss))"

definition names :: "span \<Rightarrow> string \<Rightarrow> bool" where
  "names s h \<longleftrightarrow> is_note s \<and> (\<exists>x. sp_id s = Some x \<and> h = ''#'' @ x)"

definition refers :: "span list \<Rightarrow> string \<Rightarrow> nat \<Rightarrow> bool" where
  "refers ss h k \<longleftrightarrow> (\<exists>i < length ss. names (ss ! i) h \<and> k = number_of ss i \<and> (\<forall>j < length ss. i < j \<longrightarrow> \<not> names (ss ! j) h))"

text \<open>What becomes of a span: a footnote has its note and, when it was read just now, a link with its
  number; a reference has the number of its footnote; any other span stays as it is.\<close>

definition numbered :: "nat \<Rightarrow> span list \<Rightarrow> nat \<Rightarrow> span \<Rightarrow> bool" where
  "numbered n ss i t \<longleftrightarrow>
     (if is_note (ss ! i)
      then sp_class t = sp_class (ss ! i) \<and> sp_id t = sp_id (ss ! i) \<and> (\<exists>x. sp_note t = Some x \<and> has_note (ss ! i) x)
           \<and> (if unread (ss ! i) then sp_html t = note_html (nat_str (n + number_of ss i)) else t = ss ! i)
      else t = ss ! i)"

definition turned :: "span list \<Rightarrow> nat \<Rightarrow> span \<Rightarrow> bool" where
  "turned ss i t \<longleftrightarrow>
     (if sp_class (ss ! i) = ''footnoteref''
      then sp_class t = ''footnoteref'' \<and> (\<exists>href h. sp_link (ss ! i) = Some (Some href) \<and> hash_part href = Some h
           \<and> (if \<exists>k. refers ss h k then \<exists>k. refers ss h k \<and> sp_html t = ref_html (nat_str k) else sp_html t = ref_html ''undefined''))
      else numbered 0 ss i t)"

lemma bracket_text_in: "bracket_text s = Some t \<Longrightarrow> in_brackets s t"
proof -
  assume b: "bracket_text s = Some t"
  obtain c r where c: "dropWhile (\<lambda>c. c \<noteq> CHR ''['') s = c # r" using b by (auto simp: bracket_text_def split: list.splits)
  obtain d u where d: "dropWhile (\<lambda>c. c \<noteq> CHR '']'') (rev r) = d # u" using b c by (auto simp: bracket_text_def split: list.splits)
  have t: "t = rev u" using b c d by (simp add: bracket_text_def)
  let ?a = "takeWhile (\<lambda>c. c \<noteq> CHR ''['') s" and ?b = "takeWhile (\<lambda>c. c \<noteq> CHR '']'') (rev r)"
  have cd: "c = CHR ''[''" "d = CHR '']''"
    using hd_dropWhile [of "\<lambda>c. c \<noteq> CHR ''[''" s] hd_dropWhile [of "\<lambda>c. c \<noteq> CHR '']''" "rev r"] c d by auto
  have "s = ?a @ c # r" using takeWhile_dropWhile_id [of "\<lambda>c. c \<noteq> CHR ''[''" s] c by simp
  moreover have "rev r = ?b @ d # u" using takeWhile_dropWhile_id [of "\<lambda>c. c \<noteq> CHR '']''" "rev r"] d by simp
  then have "r = rev u @ d # rev ?b" by (metis append_Cons append_Nil append_assoc rev.simps(2) rev_append rev_rev_ident)
  moreover have "CHR ''['' \<notin> set ?a" using set_takeWhileD [of "CHR ''[''" "\<lambda>c. c \<noteq> CHR ''[''" s] by blast
  moreover have "CHR '']'' \<notin> set (rev ?b)" using set_takeWhileD [of "CHR '']''" "\<lambda>c. c \<noteq> CHR '']''" "rev r"] by auto
  ultimately show ?thesis unfolding in_brackets_def cd t by metis
qed

lemma number_Cons: "number_of (s # ss) 0 = of_bool (is_note s)" "number_of (s # ss) (Suc i) = of_bool (is_note s) + number_of ss i"
  by (auto simp: number_of_def)

lemma numbered_Suc: "numbered n (s # ss) (Suc i) t \<longleftrightarrow> numbered (n + of_bool (is_note s)) ss i t"
  by (simp add: numbered_def number_Cons add.assoc)

lemma refers_ex: "(\<exists>k. refers ss h k) \<longleftrightarrow> (\<exists>i < length ss. names (ss ! i) h)"
proof
  assume "\<exists>i < length ss. names (ss ! i) h"
  then have ne: "{i. i < length ss \<and> names (ss ! i) h} \<noteq> {}" "finite {i. i < length ss \<and> names (ss ! i) h}" by auto
  let ?m = "Max {i. i < length ss \<and> names (ss ! i) h}"
  have "?m \<in> {i. i < length ss \<and> names (ss ! i) h}" using ne by (intro Max_in)
  moreover have "\<forall>j < length ss. ?m < j \<longrightarrow> \<not> names (ss ! j) h" using Max_ge [OF ne(2)] by (auto simp: not_le [symmetric])
  ultimately show "\<exists>k. refers ss h k" unfolding refers_def by blast
qed (auto simp: refers_def)

lemma refers_Cons:
  "refers (s # ss) h k \<longleftrightarrow> (\<exists>k'. refers ss h k' \<and> k = of_bool (is_note s) + k') \<or> names s h \<and> k = 1 \<and> \<not> (\<exists>k'. refers ss h k')"
proof -
  have split: "(\<exists>i < length (s # ss). P i) \<longleftrightarrow> P 0 \<or> (\<exists>i < length ss. P (Suc i))" for P
    by (auto simp: less_Suc_eq_0_disj)
  have all: "(\<forall>j < length (s # ss). P j) \<longleftrightarrow> P 0 \<and> (\<forall>j < length ss. P (Suc j))" for P
    by (auto simp: less_Suc_eq_0_disj)
  have "names s h \<Longrightarrow> is_note s" by (simp add: names_def)
  then show ?thesis
    unfolding refers_ex unfolding refers_def split all by (auto simp: number_Cons)
qed

lemma read_note_has:
  assumes "is_note s" "read_note n s ss = Some (t, s1, ss1)"
  shows "has_note s t \<and> ss1 = (if unread s then drop (sp_nested s) ss else ss)
    \<and> (if unread s then sp_html s1 = note_html (nat_str n) else s1 = s)"
  using assms bracket_text_in
  by (auto simp: read_note_def has_note_def unread_def set_link_def split: if_splits option.splits)

lemma note_loop_spec:
  "note_loop ss n refs ds = Some (out, m, refs', ds') \<Longrightarrow>
   length out = length (outer ss) \<and> (\<forall>i < length out. numbered n (outer ss) i (out ! i)) \<and>
   m = n + length (filter is_note (outer ss)) \<and>
   (\<exists>ts. list_all2 has_note (filter is_note (outer ss)) ts \<and> ds' = ds @ map2 FootnoteDiv [Suc n..<Suc m] ts) \<and>
   (\<forall>h k. refers (outer ss) h k \<longrightarrow> oget refs' h = Some (n + k)) \<and>
   (\<forall>h. \<not> (\<exists>k. refers (outer ss) h k) \<longrightarrow> oget refs' h = oget refs h)"
proof (induction ss n refs ds arbitrary: out m refs' ds' rule: note_loop.induct)
  case (1 n refs ds)
  then show ?case by (auto simp: refers_def)
next
  case (2 s ss n refs ds)
  from "2.prems" show ?case
  proof (cases rule: note_loop_ConsE)
    case (other out1)
    have nn: "\<not> is_note s" "\<not> unread s" "\<not> names s h" for h using other(1) by (auto simp: is_note_def unread_def names_def)
    note ih = "2.IH"(2) [OF other(1,3)]
    have o: "outer (s # ss) = s # outer ss" using nn by simp
    have "numbered n (s # outer ss) i (out ! i)" if "i < length out" for i
      using that ih nn(1) other(2) by (cases i) (auto simp: numbered_Suc numbered_def number_Cons)
    then show ?thesis using ih nn other(2) unfolding o by (auto simp: refers_Cons)
  next
    case (foot t s1 ss1 out1)
    have nn: "is_note s" using foot(1) by (simp add: is_note_def)
    note rd = read_note_has [OF nn foot(2)] and r1 = read_note_Some [OF foot(2)]
    let ?refs = "if sp_id s \<noteq> None then oset refs (''#'' @ the (sp_id s)) (Suc n) else refs"
    note ih = "2.IH"(1) [OF foot(1,2) refl refl foot(4)]
    have o: "outer (s # ss) = s # outer ss1" using rd by simp
    obtain ts where ts: "list_all2 has_note (filter is_note (outer ss1)) ts"
      "ds' = (ds @ [FootnoteDiv (Suc n) t]) @ map2 FootnoteDiv [Suc (Suc n)..<Suc m] ts" using ih by blast
    have m: "m = Suc n + length (filter is_note (outer ss1))" using ih by blast
    have up: "[Suc n..<Suc m] = Suc n # [Suc (Suc n)..<Suc m]" using m by (simp add: upt_rec)
    have num: "numbered n (s # outer ss1) i (out ! i)" if "i < length out" for i
    proof (cases i)
      case 0
      then show ?thesis using rd r1 nn foot(3) by (auto simp: numbered_def number_Cons)
    next
      case (Suc j)
      then show ?thesis using that ih nn foot(3) by (auto simp: numbered_Suc)
    qed
    have rf: "oget ?refs h = (if names s h then Some (Suc n) else oget refs h)" for h
      using nn by (auto simp: names_def)
    show ?thesis unfolding o
    proof (intro conjI exI [of _ "t # ts"])
      show "length out = length (s # outer ss1)" using ih foot(3) by simp
      show "\<forall>i < length out. numbered n (s # outer ss1) i (out ! i)" using num by blast
      show "m = n + length (filter is_note (s # outer ss1))" using m nn by simp
      show "list_all2 has_note (filter is_note (s # outer ss1)) (t # ts)" using ts(1) rd nn by simp
      show "ds' = ds @ map2 FootnoteDiv [Suc n..<Suc m] (t # ts)" using ts(2) unfolding up by simp
      show "\<forall>h k. refers (s # outer ss1) h k \<longrightarrow> oget refs' h = Some (n + k)"
        using ih nn unfolding refers_Cons rf by auto
      show "\<forall>h. \<not> (\<exists>k. refers (s # outer ss1) h k) \<longrightarrow> oget refs' h = oget refs h"
        using ih unfolding refers_Cons rf by (metis (full_types))
    qed
  qed
qed

lemma ref_loop_spec:
  "ref_loop xs refs = Some ys \<Longrightarrow> \<forall>x \<in> set xs. sp_class x = ''footnoteref'' \<longrightarrow> sp_nested x = 0 \<Longrightarrow>
   length ys = length xs \<and> (\<forall>i < length xs. if sp_class (xs ! i) = ''footnoteref''
     then \<exists>href h. sp_link (xs ! i) = Some (Some href) \<and> hash_part href = Some h \<and> sp_class (ys ! i) = ''footnoteref'' \<and>
       sp_html (ys ! i) = ref_html (case oget refs h of Some k \<Rightarrow> nat_str k | None \<Rightarrow> ''undefined'')
     else ys ! i = xs ! i)"
proof (induction xs arbitrary: ys)
  case (Cons x xs)
  show ?case
  proof (cases "sp_class x = ''footnoteref''")
    case True
    with Cons.prems(2) have "sp_nested x = 0" by simp
    with Cons.prems(1) True obtain href h zs where z: "sp_link x = Some (Some href)" "hash_part href = Some h" "ref_loop xs refs = Some zs"
      "ys = set_link (ref_html (case oget refs h of Some k \<Rightarrow> nat_str k | None \<Rightarrow> ''undefined''))
              (case oget refs h of Some k \<Rightarrow> nat_str k | None \<Rightarrow> ''undefined'') x # zs"
      by (auto simp: Let_def split: option.splits)
    with Cons.IH [OF z(3)] Cons.prems(2) True show ?thesis
      by (auto simp: less_Suc_eq_0_disj set_link_def)
  next
    case False
    with Cons.prems(1) obtain zs where z: "ref_loop xs refs = Some zs" "ys = x # zs" by auto
    with Cons.IH [OF z(1)] Cons.prems(2) False show ?thesis by (auto simp: less_Suc_eq_0_disj)
  qed
qed simp

section \<open>Installing\<close>

text \<open>
  \<open>install\<close>: the generators run at every tick of the interval timer, and once more, with the
  timer cleared, when the document is loaded.
\<close>

record installed =
  i_doc :: doc
  i_notes :: "fnotes option"  \<comment> \<open>\<open>None\<close> after an exception\<close>
  timer :: bool

datatype page_event = Tick | DOMContentLoaded

definition reinstall :: "nat option \<Rightarrow> installed \<Rightarrow> installed" where
  "reinstall toclevels s =
     (case i_notes s of
        None \<Rightarrow> s
      | Some fn \<Rightarrow>
          (case footnotes fn of
             None \<Rightarrow> s\<lparr>i_notes := None\<rparr>
           | Some fn' \<Rightarrow>
               (case toclevels of
                  None \<Rightarrow> s\<lparr>i_notes := Some fn'\<rparr>
                | Some n \<Rightarrow> if n \<noteq> 0 then s\<lparr>i_notes := Some fn', i_doc := fst (toc n (i_doc s))\<rparr>
                           else s\<lparr>i_notes := Some fn'\<rparr>)))"

fun page_step :: "nat option \<Rightarrow> installed \<Rightarrow> page_event \<Rightarrow> installed" where
  "page_step toclevels s Tick = (if timer s then reinstall toclevels s else s)"
| "page_step toclevels s DOMContentLoaded = reinstall toclevels (s\<lparr>timer := False\<rparr>)"

lemma install_stops: "timer s = False \<Longrightarrow> foldl (page_step n) s (replicate k Tick) = s"
  by (induction k) auto

section \<open>The properties\<close>

text \<open>
  C8: Building the table of contents replaces the entries of an earlier run by one link for each header
  of the page, in document order: the elements below the content, at any depth, whose tag name has an
  \<open>h\<close> followed by a digit from 1 to one more than the number of levels and whose class is not
  \<open>float\<close>.  Each link has one less than that digit as its level, the text of all the text nodes in the
  header as its text, and leads to the header, which has an id then.  An element that had an id keeps
  it, and a second run changes nothing.  There are at most eight levels and at least one header.
\<close>

theorem toc_lists_headers:
  assumes "toc n d = (d', False)" "toc_el d = Some kids" "content d = Some el"
    "\<exists>p u k c. header_at (attrs d) (n + 1) el p u k c" "n < 9"
  shows "toc n d' = (d', False) \<and>
    (\<exists>ps links. toc_el d' = Some (filter (\<lambda>c. \<not> toc_entry_child c) kids @ links) \<and>
       in_order ps \<and> (\<forall>p. p \<in> set ps \<longleftrightarrow> (\<exists>u k c. header_at (attrs d) (n + 1) el p u k c)) \<and>
       list_all2 (\<lambda>p l. \<exists>u k c. header_at (attrs d) (n + 1) el p u k c \<and> id_of (attrs d' u) \<noteq> '''' \<and>
         tc_href l = ''#'' @ id_of (attrs d' u) \<and> tc_class l = Some (''toclevel'' @ nat_str (k - 1)) \<and> text_of c (tc_text l)) ps links) \<and>
    (\<forall>u. id_of (attrs d u) \<noteq> '''' \<longrightarrow> id_of (attrs d' u) = id_of (attrs d u))"
proof -
  let ?es = "tocEntries el (attrs d) n"
  have es: "?es = iterate (n + 1) (attrs d) el" by (simp add: tocEntries_def)
  obtain ps where ps: "in_order ps" "\<forall>p. p \<in> set ps \<longleftrightarrow> (\<exists>u k c. header_at (attrs d) (n + 1) el p u k c)"
    "list_all2 (\<lambda>p en. \<exists>k c. header_at (attrs d) (n + 1) el p (e_element en) k c \<and> e_toclevel en = int k - 1 \<and> text_of c (e_text en)) ps ?es"
    using entries_headers [of "n + 1" "attrs d" el] assms(5) unfolding es by auto
  obtain p where "p \<in> set ps" using ps(2) assms(4) by blast
  then have ne: "?es \<noteq> []" using ps(3) by auto
  obtain at new where r: "rebuild 0 ?es (attrs d) = (at, new)" by fastforce
  have d': "d' = d\<lparr>attrs := at, toc_el := Some (filter (\<lambda>c. \<not> toc_entry_child c) kids @ map (entry_child at) ?es)\<rparr>"
    and ids: "\<forall>en \<in> set ?es. id_of (at (e_element en)) \<noteq> ''''"
    using assms(1-3) r ne rebuild_links [OF r] by (auto simp: toc_def Let_def)
  have "list_all2 (\<lambda>p l. \<exists>u k c. header_at (attrs d) (n + 1) el p u k c \<and> id_of (attrs d' u) \<noteq> '''' \<and>
      tc_href l = ''#'' @ id_of (attrs d' u) \<and> tc_class l = Some (''toclevel'' @ nat_str (k - 1)) \<and> text_of c (tc_text l))
      ps (map (entry_child at) ?es)"
    unfolding list_all2_map2
  proof (rule list.rel_mono_strong [OF ps(3)])
    fix p en assume "p \<in> set ps" "en \<in> set ?es" and "\<exists>k c. header_at (attrs d) (n + 1) el p (e_element en) k c \<and> e_toclevel en = int k - 1 \<and> text_of c (e_text en)"
    then obtain k c where k: "header_at (attrs d) (n + 1) el p (e_element en) k c" "e_toclevel en = int k - 1" "text_of c (e_text en)" by blast
    then have "1 \<le> k" by (auto simp: header_at_def level_of_def level_at_def)
    with k \<open>en \<in> set ?es\<close> ids show "\<exists>u k c. header_at (attrs d) (n + 1) el p u k c \<and> id_of (attrs d' u) \<noteq> '''' \<and>
      tc_href (entry_child at en) = ''#'' @ id_of (attrs d' u) \<and> tc_class (entry_child at en) = Some (''toclevel'' @ nat_str (k - 1))
      \<and> text_of c (tc_text (entry_child at en))"
      by (intro exI [of _ "e_element en"] exI [of _ k] exI [of _ c]) (auto simp: d' entry_child_def int_str_def nat_diff_distrib)
  qed
  moreover have "toc_el d' = Some (filter (\<lambda>c. \<not> toc_entry_child c) kids @ map (entry_child at) ?es)" by (simp add: d')
  moreover have "\<forall>u. id_of (attrs d u) \<noteq> '''' \<longrightarrow> id_of (attrs d' u) = id_of (attrs d u)"
    using rebuild_frame [OF r] by (simp add: d')
  ultimately show ?thesis using toc_again [OF assms(1)] ps(1,2) by blast
qed

definition small_page :: doc where
  "small_page = \<lparr>content = Some [Elem 1 ''H2'' [Text ''One''], Elem 2 ''P'' [Elem 3 ''h3'' [Text ''Two'']]],
     attrs = (\<lambda>u. if u = 1 then [(''id'', ''one'')] else []), toc_el = Some []\<rparr>"

theorem toc_lists_headers_witness:
  "\<exists>d' links. toc 2 small_page = (d', False) \<and> toc 2 d' = (d', False) \<and> toc_el d' = Some links \<and> links \<noteq> []"
proof -
  have k: "toc_el small_page = Some []"
    "content small_page = Some [Elem 1 ''H2'' [Text ''One''], Elem 2 ''P'' [Elem 3 ''h3'' [Text ''Two'']]]"
    by (simp_all add: small_page_def)
  have t: "toc 2 small_page = (fst (toc 2 small_page), False)"
    by (simp add: toc_def small_page_def Let_def split: prod.split)
  have "digit_char 2 = CHR ''2''" by code_simp
  then have "level_of 3 ''H2'' 2"
    unfolding level_of_def level_at_def by (intro exI [of _ 0]) simp
  then have h: "header_at (attrs small_page) (2 + 1) [Elem 1 ''H2'' [Text ''One''], Elem 2 ''P'' [Elem 3 ''h3'' [Text ''Two'']]] [0] 1 2 [Text ''One'']"
    by (simp add: header_at_def small_page_def floating_def oget_def)
  have "(2 :: nat) < 9" by simp
  from toc_lists_headers [OF t k _ this] h obtain ps links where
    "toc 2 (fst (toc 2 small_page)) = (fst (toc 2 small_page), False)" "toc_el (fst (toc 2 small_page)) = Some ([] @ links)"
    "\<forall>p. p \<in> set ps \<longleftrightarrow> (\<exists>u k c. header_at (attrs small_page) (2 + 1) [Elem 1 ''H2'' [Text ''One''], Elem 2 ''P'' [Elem 3 ''h3'' [Text ''Two'']]] p u k c)"
    "length ps = length links" by (fastforce dest: list_all2_lengthD)
  moreover from this(3) h have "ps \<noteq> []" by (metis empty_iff list.set(1))
  ultimately show ?thesis using t by (intro exI [of _ "fst (toc 2 small_page)"] exI [of _ links]) auto
qed

lemma note_loop_kept:
  "note_loop ss n refs ds = Some (out, m, refs', ds') \<Longrightarrow> x \<in> set out \<Longrightarrow> sp_class x \<noteq> ''footnote'' \<Longrightarrow> x \<in> set ss"
proof (induction ss n refs ds arbitrary: out m refs' ds' rule: note_loop.induct)
  case (2 s ss n refs ds)
  from "2.prems"(1) show ?case
  proof (cases rule: note_loop_ConsE)
    case (other out1)
    with "2.IH"(2) [OF other(1,3)] "2.prems" show ?thesis by auto
  next
    case (foot t s1 ss1 out1)
    with "2.IH"(1) [OF foot(1,2) refl refl foot(4)] "2.prems" read_note_Some [OF foot(2)] show ?thesis
      by auto
  qed
qed simp

text \<open>
  C9: On a page with footnotes whose references contain no spans, the footnotes block ends with one note
  for each footnote, numbered 1, 2, ... in document order, and every note of an earlier run is gone.
  The text of a note is the \<open>data-note\<close> of its footnote or, when that is missing or empty, what is
  between the first opening and the last closing bracket of the footnote, which becomes a link with
  the number and keeps the text as its \<open>data-note\<close>.  A reference gets the number of the last footnote
  whose id it names, and \<open>undefined\<close> when there is none; all other spans stay as they are.  Spans in
  a footnote that becomes a link are gone and count no more.  On a page without references whose
  footnotes are not empty a second run changes nothing.
\<close>

theorem footnotes_numbered:
  assumes "footnotes d = Some d'" "holder d = Some kids" "spans d = Some ss0" "spans d' = Some ss"
    "holder d' = Some ds" "\<forall>s \<in> set ss0. sp_class s = ''footnoteref'' \<longrightarrow> sp_nested s = 0"
  shows "(\<exists>ts. list_all2 has_note (filter is_note (outer ss0)) ts \<and>
      ds = filter (\<lambda>c. \<not> footnote_child c) kids @ map2 FootnoteDiv [1..<Suc (length ts)] ts) \<and>
    length ss = length (outer ss0) \<and> (\<forall>i < length ss. turned (outer ss0) i (ss ! i)) \<and>
    ((\<forall>s \<in> set ss0. sp_class s \<noteq> ''footnoteref'') \<and> (\<forall>s \<in> set ss. marked s) \<longrightarrow> footnotes d' = Some d')"
proof -
  obtain ss1 n refs ds1 where
    r: "note_loop ss0 0 [] (filter (\<lambda>c. \<not> footnote_child c) kids) = Some (ss1, n, refs, ds1)"
    using assms(1-3) by (auto simp: footnotes_def split: option.splits)
  have n: "n \<noteq> 0"
  proof
    assume "n = 0"
    with assms(1-3,5) r show False by (auto simp: footnotes_def)
  qed
  obtain ss2 where "ref_loop ss1 refs = Some ss2" "d' = d\<lparr>holder := Some ds1, spans := Some ss2\<rparr>"
  proof (cases "ref_loop ss1 refs")
    case None
    with assms(1-3) r n that show ?thesis by (simp add: footnotes_def)
  next
    case (Some ss2)
    with assms(1-3) r n that show ?thesis by (simp add: footnotes_def)
  qed
  then have r2: "ref_loop ss1 refs = Some ss" "ds = ds1" using assms(4,5) by simp_all
  note a = note_loop_spec [OF r]
  have "\<forall>x \<in> set ss1. sp_class x = ''footnoteref'' \<longrightarrow> sp_nested x = 0" using note_loop_kept [OF r] assms(6) by auto
  note b = ref_loop_spec [OF r2(1) this]
  have t: "turned (outer ss0) i (ss ! i)" if i: "i < length ss" for i
  proof -
    have num: "numbered 0 (outer ss0) i (ss1 ! i)" and cls: "sp_class (ss1 ! i) = sp_class (outer ss0 ! i)"
      using i a b by (auto simp: numbered_def split: if_splits)
    show ?thesis
    proof (cases "sp_class (outer ss0 ! i) = ''footnoteref''")
      case True
      then have "ss1 ! i = outer ss0 ! i" using num by (simp add: numbered_def is_note_def)
      then obtain href h where h: "sp_link (outer ss0 ! i) = Some (Some href)" "hash_part href = Some h" "sp_class (ss ! i) = ''footnoteref''"
        "sp_html (ss ! i) = ref_html (case oget refs h of Some k \<Rightarrow> nat_str k | None \<Rightarrow> ''undefined'')"
        using b [THEN conjunct2, rule_format, of i] b i True by auto
      have "\<exists>k. refers (outer ss0) h k \<Longrightarrow> \<exists>k. refers (outer ss0) h k \<and> oget refs h = Some k"
        "\<not> (\<exists>k. refers (outer ss0) h k) \<Longrightarrow> oget refs h = None" using a by auto
      then show ?thesis using True h unfolding turned_def by (cases "\<exists>k. refers (outer ss0) h k") auto
    next
      case False
      then show ?thesis using num b i cls by (simp add: turned_def)
    qed
  qed
  have len: "length ss = length (outer ss0)" using a b by simp
  obtain ts where ts: "list_all2 has_note (filter is_note (outer ss0)) ts"
    "ds1 = filter (\<lambda>c. \<not> footnote_child c) kids @ map2 FootnoteDiv [Suc 0..<Suc n] ts" using a by blast
  have "n = length ts" using a list_all2_lengthD [OF ts(1)] by simp
  then have "\<exists>ts. list_all2 has_note (filter is_note (outer ss0)) ts \<and>
      ds = filter (\<lambda>c. \<not> footnote_child c) kids @ map2 FootnoteDiv [1..<Suc (length ts)] ts" using ts r2(2) by auto
  then show ?thesis using footnotes_again [OF assms(1,3) _ assms(4)] t len by blast
qed

definition two_notes :: fnotes where
  "two_notes = \<lparr>holder = Some [FootnoteDiv 9 ''old''],
     spans = Some [\<lparr>sp_class = ''footnote'', sp_html = ''[first]'', sp_note = None, sp_id = Some ''n1'',
                     sp_link = None, sp_nested = 0\<rparr>,
                   \<lparr>sp_class = ''footnoteref'', sp_html = ''see'', sp_note = None, sp_id = None,
                     sp_link = Some (Some ''#n1''), sp_nested = 0\<rparr>]\<rparr>"

lemma two_notes_run: "footnotes two_notes = Some
   \<lparr>holder = Some [FootnoteDiv 1 ''first''],
    spans = Some [\<lparr>sp_class = ''footnote'', sp_html = note_html ''1'', sp_note = Some ''first'', sp_id = Some ''n1'',
                     sp_link = Some (Some ''#_footnote_1''), sp_nested = 0\<rparr>,
                  \<lparr>sp_class = ''footnoteref'', sp_html = ref_html ''1'', sp_note = None, sp_id = None,
                     sp_link = Some (Some ''#_footnote_1''), sp_nested = 0\<rparr>]\<rparr>"
  by code_simp

theorem footnotes_numbered_witness:
  "\<exists>d' ts. footnotes two_notes = Some d' \<and> length ts = 1 \<and> holder d' = Some (map2 FootnoteDiv [1..<2] ts)"
proof -
  let ?d = "\<lparr>holder = Some [FootnoteDiv 1 ''first''],
    spans = Some [\<lparr>sp_class = ''footnote'', sp_html = note_html ''1'', sp_note = Some ''first'', sp_id = Some ''n1'',
                     sp_link = Some (Some ''#_footnote_1''), sp_nested = 0\<rparr>,
                  \<lparr>sp_class = ''footnoteref'', sp_html = ref_html ''1'', sp_note = None, sp_id = None,
                     sp_link = Some (Some ''#_footnote_1''), sp_nested = 0\<rparr>]\<rparr>"
  have h: "holder two_notes = Some [FootnoteDiv 9 ''old'']" by (simp add: two_notes_def)
  obtain ss0 where ss0: "spans two_notes = Some ss0" "length (filter is_note (outer ss0)) = 1"
    "\<forall>s \<in> set ss0. sp_class s = ''footnoteref'' \<longrightarrow> sp_nested s = 0"
    by (simp add: two_notes_def is_note_def unread_def)
  obtain ts where ts: "list_all2 has_note (filter is_note (outer ss0)) ts"
      "[FootnoteDiv 1 ''first''] = filter (\<lambda>c. \<not> footnote_child c) [FootnoteDiv 9 ''old''] @ map2 FootnoteDiv [1..<Suc (length ts)] ts"
    using footnotes_numbered [OF two_notes_run h ss0(1) _ _ ss0(3), of "the (spans ?d)" "[FootnoteDiv 1 ''first'']"] by auto
  then have "length ts = 1" using ss0(2) list_all2_lengthD [OF ts(1)] by simp
  with ts(2) have "[FootnoteDiv 1 ''first''] = map2 FootnoteDiv [1..<2] ts" by (simp add: footnote_child_def numeral_2_eq_2)
  then show ?thesis using two_notes_run \<open>length ts = 1\<close> by auto
qed

text \<open>
  A page with a reference to a footnote is spoilt by the second run, which the script makes
  every half second until the page has loaded: the first run replaces the target the reference
  names by the number of the note, the second looks this target up among the ids of the
  footnotes, does not find it and writes \<open>undefined\<close> for the number.
\<close>

theorem second_run_undefined:
  "\<exists>d1 d2 s. footnotes two_notes = Some d1 \<and> footnotes d1 = Some d2 \<and>
     spans d2 = Some (s # [\<lparr>sp_class = ''footnoteref'', sp_html = ref_html ''undefined'', sp_note = None,
       sp_id = None, sp_link = Some (Some ''#_footnote_undefined''), sp_nested = 0\<rparr>])"
proof -
  have "footnotes (the (footnotes two_notes)) = Some
   \<lparr>holder = Some [FootnoteDiv 1 ''first''],
    spans = Some [\<lparr>sp_class = ''footnote'', sp_html = note_html ''1'', sp_note = Some ''first'', sp_id = Some ''n1'',
                     sp_link = Some (Some ''#_footnote_1''), sp_nested = 0\<rparr>,
                  \<lparr>sp_class = ''footnoteref'', sp_html = ref_html ''undefined'', sp_note = None, sp_id = None,
                     sp_link = Some (Some ''#_footnote_undefined''), sp_nested = 0\<rparr>]\<rparr>"
    by code_simp
  then show ?thesis using two_notes_run by auto
qed

end
