(* ===== verification/JS_Uri.thy ===== *)
theory JS_Uri
  imports JS_Prelude
begin

text \<open>
  \<open>encodeURIComponent\<close> and \<open>decodeURIComponent\<close> of the language, which the cookie script and the
  serialization of forms use: decoding gives back what was encoded, and an encoded string has no
  separator in it.
\<close>

section \<open>URI components\<close>

text \<open>
  \<open>encodeURIComponent\<close> and \<open>decodeURIComponent\<close> on strings of code units below 256: one or
  two bytes of UTF-8, each written \<open>%XX\<close>.  \<open>None\<close> is the \<open>URIError\<close> of a malformed sequence
  (a sequence that decodes to a character outside the range of the model is also \<open>None\<close>).
\<close>

definition unreserved :: "char \<Rightarrow> bool" where
  "unreserved c \<longleftrightarrow> is_digit c \<or> is_lower c \<or> is_upper c \<or>
     of_char c \<in> {45, 95, 46, 33, 126, 42, 39, 40, 41 :: nat}"

definition hex_char :: "nat \<Rightarrow> char" where
  "hex_char d = (if d < 10 then char_of (48 + d) else char_of (55 + d))"

definition hex_val :: "char \<Rightarrow> nat option" where
  "hex_val c =
     (let n = of_char c
      in if 48 \<le> n \<and> n \<le> 57 then Some (n - 48)
         else if 65 \<le> n \<and> n \<le> 70 then Some (n - 55)
         else if 97 \<le> n \<and> n \<le> 102 then Some (n - 87) else None)"

definition enc_byte :: "nat \<Rightarrow> string" where
  "enc_byte b = [CHR ''%'', hex_char (b div 16), hex_char (b mod 16)]"

definition enc_char :: "char \<Rightarrow> string" where
  "enc_char c =
     (let n = of_char c
      in if unreserved c then [c]
         else if n < 128 then enc_byte n
         else enc_byte (192 + n div 64) @ enc_byte (128 + n mod 64))"

definition encodeURIComponent :: "string \<Rightarrow> string" where
  "encodeURIComponent s = concat (map enc_char s)"

fun take_byte :: "string \<Rightarrow> (nat \<times> string) option" where
  "take_byte (a # b # r) =
     (case (hex_val a, hex_val b) of (Some x, Some y) \<Rightarrow> Some (16 * x + y, r) | _ \<Rightarrow> None)"
| "take_byte _ = None"

lemma take_byte_length: "take_byte s = Some (b, r) \<Longrightarrow> length r < length s"
  by (induction s rule: take_byte.induct) (auto split: option.splits)

definition take_char :: "string \<Rightarrow> (char \<times> string) option" where
  "take_char s =
     (case take_byte s of
        None \<Rightarrow> None
      | Some (b, r) \<Rightarrow>
          (if b < 128 then Some (char_of b, r)
           else if b = 194 \<or> b = 195
           then (case r of
                   [] \<Rightarrow> None
                 | p # r' \<Rightarrow>
                     (if p \<noteq> CHR ''%'' then None
                      else case take_byte r' of
                        None \<Rightarrow> None
                      | Some (b2, r2) \<Rightarrow>
                          (if 128 \<le> b2 \<and> b2 < 192
                           then Some (char_of ((b - 192) * 64 + (b2 - 128)), r2) else None)))
           else None))"

lemma take_char_length: "take_char s = Some (c, r) \<Longrightarrow> length r < length s"
  by (auto simp: take_char_def split: option.splits if_splits list.splits dest!: take_byte_length)

function decodeURIComponent :: "string \<Rightarrow> string option" where
  "decodeURIComponent [] = Some []"
| "decodeURIComponent (c # cs) =
     (if c \<noteq> CHR ''%'' then map_option ((#) c) (decodeURIComponent cs)
      else case take_char cs of
        None \<Rightarrow> None
      | Some (d, r) \<Rightarrow> map_option ((#) d) (decodeURIComponent r))"
  by pat_completeness auto
termination
  by (relation "measure length") (auto dest: take_char_length)

lemma hex_val_hex_char [simp]: "d < 16 \<Longrightarrow> hex_val (hex_char d) = Some d"
  by (auto simp: hex_val_def hex_char_def Let_def)

lemma take_byte_enc [simp]: "b < 256 \<Longrightarrow> take_byte (hex_char (b div 16) # hex_char (b mod 16) # r) = Some (b, r)"
  by (simp add: less_mult_imp_div_less)

lemma utf8_arith:
  fixes n :: nat
  assumes "n < 256"
  shows "192 + n div 64 < 256" "128 + n mod 64 < 192"
    and "128 \<le> n \<Longrightarrow> 192 + n div 64 = 194 \<or> 192 + n div 64 = 195"
proof -
  have d: "n div 64 < 4" using assms by (simp add: less_mult_imp_div_less)
  then show "192 + n div 64 < 256" by linarith
  show "128 + n mod 64 < 192" using mod_less_divisor [of 64 n] by linarith
  assume "128 \<le> n"
  then have "2 \<le> n div 64" using div_le_mono [of 128 n 64] by simp
  with d show "192 + n div 64 = 194 \<or> 192 + n div 64 = 195" by linarith
qed

lemma decode_enc_char: "decodeURIComponent (enc_char c @ r) = map_option ((#) c) (decodeURIComponent r)"
proof -
  let ?n = "of_char c :: nat"
  have n: "?n < 256" by (rule of_char_less)
  show ?thesis
  proof (cases "unreserved c")
    case True
    then have "c \<noteq> CHR ''%''" by (auto simp: unreserved_def is_digit_def is_lower_def is_upper_def)
    with True show ?thesis by (simp add: enc_char_def Let_def)
  next
    case False
    show ?thesis
    proof (cases "?n < 128")
      case True
      with False n show ?thesis
        by (simp add: enc_char_def Let_def enc_byte_def take_char_def del: take_byte.simps)
    next
      case hi: False
      define b where "b = 192 + ?n div 64"
      define b2 where "b2 = 128 + ?n mod 64"
      have b: "b = 194 \<or> b = 195" "128 \<le> b2" "b2 < 192" "(b - 192) * 64 + (b2 - 128) = ?n"
        using hi utf8_arith [OF n] unfolding b_def b2_def by simp_all
      have t: "take_byte (hex_char (b div 16) # hex_char (b mod 16) # R) = Some (b, R)"
        "take_byte (hex_char (b2 div 16) # hex_char (b2 mod 16) # R) = Some (b2, R)" for R
        by (rule take_byte_enc, use b in linarith)+
      have "\<not> b < 128" using b(1) by auto
      then have "take_char (enc_byte b2 @ r) = take_char (enc_byte b2 @ r) \<and>
          take_char (tl (enc_byte b) @ enc_byte b2 @ r) = Some (c, r)"
        using b t by (simp add: take_char_def enc_byte_def del: take_byte.simps)
      moreover have "enc_char c = CHR ''%'' # tl (enc_byte b) @ enc_byte b2"
        using False hi by (simp add: enc_char_def Let_def enc_byte_def b_def b2_def)
      ultimately show ?thesis by simp
    qed
  qed
qed

lemma decode_encode: "decodeURIComponent (encodeURIComponent s) = Some s"
  by (induction s) (simp_all add: encodeURIComponent_def decode_enc_char)

text \<open>The characters an encoded component can contain.\<close>

definition enc_safe :: "char \<Rightarrow> bool" where
  "enc_safe c \<longleftrightarrow> unreserved c \<or> c = CHR ''%''"

lemma hex_char_safe: "d < 16 \<Longrightarrow> enc_safe (hex_char d)"
  by (auto simp: enc_safe_def unreserved_def is_digit_def is_upper_def hex_char_def)

lemma enc_byte_safe: "b < 256 \<Longrightarrow> c \<in> set (enc_byte b) \<Longrightarrow> enc_safe c"
  by (auto simp: enc_byte_def less_mult_imp_div_less intro: hex_char_safe) (simp add: enc_safe_def)

lemma encode_safe: "c \<in> set (encodeURIComponent s) \<Longrightarrow> enc_safe c"
proof -
  assume "c \<in> set (encodeURIComponent s)"
  then obtain d where d: "c \<in> set (enc_char d)" by (auto simp: encodeURIComponent_def)
  have n: "(of_char d :: nat) < 256" by (rule of_char_less)
  have "192 + (of_char d :: nat) div 64 < 256" "128 + (of_char d :: nat) mod 64 < 256"
    using utf8_arith(1,2) [OF n] by linarith+
  then have s: "x \<in> set (enc_byte (192 + of_char d div 64)) \<Longrightarrow> enc_safe x"
    "x \<in> set (enc_byte (128 + of_char d mod 64)) \<Longrightarrow> enc_safe x" for x
    using enc_byte_safe by blast+
  show ?thesis
  proof (cases "unreserved d")
    case True
    with d show ?thesis by (simp add: enc_char_def Let_def enc_safe_def)
  next
    case False
    with d have "c \<in> set (enc_byte (of_char d)) \<or> c \<in> set (enc_byte (192 + of_char d div 64)) \<or>
      c \<in> set (enc_byte (128 + of_char d mod 64))"
      by (auto simp: enc_char_def Let_def split: if_splits)
    then show ?thesis using s enc_byte_safe [OF n] by blast
  qed
qed

lemma encode_fresh: "\<not> enc_safe c \<Longrightarrow> c \<notin> set (encodeURIComponent s)"
  using encode_safe by blast

lemma unsafe_chars [simp]: "\<not> enc_safe (CHR ''='')" "\<not> enc_safe (CHR '';'')" "\<not> enc_safe (CHR '' '')"
  "\<not> enc_safe (CHR ''+'')" "\<not> enc_safe (CHR 0x22)"
  by (simp_all add: enc_safe_def unreserved_def is_digit_def is_lower_def is_upper_def)

end
