(* ===== verification/Doc_Cookie.thy ===== *)
theory Doc_Cookie
  imports JS_Uri
begin

text \<open>
  \<^verbatim>\<open>docs/htmldoc/javascripts/jquery.cookie.js\<close>: reading, writing and removing cookies,
  with the URI encoding of names and values.  The browser's cookie jar is an association
  list from scopes and names to values; JSON and the conversion of values to strings are parameters.
\<close>

section \<open>The browser's jar\<close>

text \<open>
  What an assignment to \<open>document.cookie\<close> does: the string is cut at the semicolons, the first piece
  gives name and value (cut at its first equals sign, white space trimmed), and the other pieces are
  attributes.  They decide for which scope (path and domain) the cookie is, or that the browser
  refuses it (a foreign domain, \<open>secure\<close> on an insecure page); a cookie of the same name and scope is
  replaced, and an \<open>expires\<close> attribute in the past removes it.  The page sees the cookies of some of
  the scopes; reading joins their pairs with a semicolon and a space.  What a browser makes of the
  attributes, how it compares dates and which scopes a page sees are parameters.
\<close>

record 's browser =
  past :: "string \<Rightarrow> bool"
  scope :: "string list \<Rightarrow> 's option"
  sees :: "'s \<Rightarrow> bool"

type_synonym 's jar = "(('s \<times> string) \<times> string) list"

definition strip :: "string \<Rightarrow> string" where
  "strip s = rev (dropWhile is_space (rev (dropWhile is_space s)))"

definition cut_pair :: "string \<Rightarrow> string \<times> string" where
  "cut_pair s =
     (case index_sub ''='' s of
        None \<Rightarrow> ('''', strip s)
      | Some i \<Rightarrow> (strip (take i s), strip (drop (i + 1) s)))"

definition expired :: "(string \<Rightarrow> bool) \<Rightarrow> string list \<Rightarrow> bool" where
  "expired old at = list_ex (\<lambda>a. case cut_pair a of (k, v) \<Rightarrow> lower k = ''expires'' \<and> old v) at"

definition assign_cookie :: "'s browser \<Rightarrow> 's jar \<Rightarrow> string \<Rightarrow> 's jar" where
  "assign_cookie b j s =
     (case split_str '';'' s of
        [] \<Rightarrow> j
      | p # at \<Rightarrow>
          (case (scope b at, cut_pair p) of
             (None, _) \<Rightarrow> j
           | (Some sc, k, v) \<Rightarrow> if expired (past b) at then odel j (sc, k) else oset j (sc, k) v))"

definition pair_str :: "string \<times> string \<Rightarrow> string" where
  "pair_str kv = fst kv @ ''='' @ snd kv"

definition visible :: "'s browser \<Rightarrow> 's jar \<Rightarrow> string obj" where
  "visible b j = map (\<lambda>((sc, k), v). (k, v)) (filter (\<lambda>((sc, k), v). sees b sc) j)"

definition read_jar :: "'s browser \<Rightarrow> 's jar \<Rightarrow> string" where
  "read_jar b j = join ''; '' (map pair_str (visible b j))"

section \<open>The plugin\<close>

text \<open>
  The configuration, and what the plugin uses of the language: the conversion of a value to
  a string, the value a string is, JSON (where \<open>None\<close> is a parse error), the current time in
  milliseconds and the written form of a time.
\<close>

record 'v env =
  raw :: bool
  json :: bool
  to_string :: "'v \<Rightarrow> string"
  of_string :: "string \<Rightarrow> 'v"
  stringify :: "'v \<Rightarrow> string"
  parse :: "string \<Rightarrow> 'v option"
  now :: int
  utc :: "int \<Rightarrow> string"

datatype expires = NoExpires | Days int | Date string

record options =
  o_expires :: expires
  o_path :: "string option"
  o_domain :: "string option"
  o_secure :: bool

datatype 'a res = Ok 'a | URIError

definition encode :: "'v env \<Rightarrow> string \<Rightarrow> string" where
  "encode c s = (if raw c then s else encodeURIComponent s)"

definition decode :: "'v env \<Rightarrow> string \<Rightarrow> string res" where
  "decode c s =
     (if raw c then Ok s
      else case decodeURIComponent s of Some t \<Rightarrow> Ok t | None \<Rightarrow> URIError)"

definition stringifyCookieValue :: "'v env \<Rightarrow> 'v \<Rightarrow> string" where
  "stringifyCookieValue c value =
     encode c (if json c then stringify c value else to_string c value)"

text \<open>\<open>replace(/\\"/g, '"')\<close> and \<open>replace(/\\\\/g, '\\')\<close>: a backslash before the character goes.\<close>

fun unescape :: "char \<Rightarrow> string \<Rightarrow> string" where
  "unescape x (a # b # cs) =
     (if a = CHR 0x5C \<and> b = x then x # unescape x cs else a # unescape x (b # cs))"
| "unescape x cs = cs"

text \<open>\<open>slice(1, -1)\<close>.\<close>

definition slice_ends :: "string \<Rightarrow> string" where
  "slice_ends s = butlast (tl s)"

definition pluses :: "string \<Rightarrow> string" where
  "pluses s = map (\<lambda>c. if c = CHR ''+'' then CHR '' '' else c) s"

definition parseCookieValue :: "'v env \<Rightarrow> string \<Rightarrow> 'v option" where
  "parseCookieValue c s =
     (let s1 = (if take 1 s = [CHR 0x22]
                then unescape (CHR 0x5C) (unescape (CHR 0x22) (slice_ends s)) else s)
      in case decodeURIComponent (pluses s1) of
           None \<Rightarrow> None
         | Some t \<Rightarrow> if json c then parse c t else Some (of_string c t))"

definition read_value :: "'v env \<Rightarrow> ('v option \<Rightarrow> 'v option) option \<Rightarrow> string \<Rightarrow> 'v option" where
  "read_value c converter s =
     (let value = (if raw c then Some (of_string c s) else parseCookieValue c s)
      in case converter of Some f \<Rightarrow> f value | None \<Rightarrow> value)"

definition cookie_string :: "'v env \<Rightarrow> string \<Rightarrow> 'v \<Rightarrow> options \<Rightarrow> string" where
  "cookie_string c key value os =
     encode c key @ ''='' @ stringifyCookieValue c value @
     (case o_expires os of
        NoExpires \<Rightarrow> ''''
      | Days n \<Rightarrow> ''; expires='' @ utc c (now c + n * 86400000)
      | Date d \<Rightarrow> ''; expires='' @ d) @
     (case o_path os of Some p \<Rightarrow> if p \<noteq> '''' then ''; path='' @ p else '''' | None \<Rightarrow> '''') @
     (case o_domain os of Some p \<Rightarrow> if p \<noteq> '''' then ''; domain='' @ p else '''' | None \<Rightarrow> '''') @
     (if o_secure os then ''; secure'' else '''')"

definition set_cookie :: "'v env \<Rightarrow> 's browser \<Rightarrow> 's jar \<Rightarrow> string \<Rightarrow> 'v \<Rightarrow> options \<Rightarrow> 's jar" where
  "set_cookie c b j key value os = assign_cookie b j (cookie_string c key value os)"

text \<open>The pieces of \<open>document.cookie\<close>.\<close>

definition cookies :: "'s browser \<Rightarrow> 's jar \<Rightarrow> string list" where
  "cookies b j = (if read_jar b j \<noteq> '''' then split_str ''; '' (read_jar b j) else [])"

text \<open>Reading one key: the first cookie of that name; a name that does not decode throws.\<close>

fun find_cookie ::
  "'v env \<Rightarrow> ('v option \<Rightarrow> 'v option) option \<Rightarrow> string \<Rightarrow> string list \<Rightarrow> 'v option res" where
  "find_cookie c converter key [] = Ok None"
| "find_cookie c converter key (p # ps) =
     (let parts = split_str ''='' p
      in case decode c (hd parts) of
           URIError \<Rightarrow> URIError
         | Ok name \<Rightarrow>
             (if key \<noteq> '''' \<and> key = name then Ok (read_value c converter (join ''='' (tl parts)))
              else find_cookie c converter key ps))"

text \<open>Reading all: the cookies that parse, under their decoded names.\<close>

fun all_cookies :: "'v env \<Rightarrow> 'v obj \<Rightarrow> string list \<Rightarrow> 'v obj res" where
  "all_cookies c result [] = Ok result"
| "all_cookies c result (p # ps) =
     (let parts = split_str ''='' p
      in case decode c (hd parts) of
           URIError \<Rightarrow> URIError
         | Ok name \<Rightarrow>
             (case read_value c None (join ''='' (tl parts)) of
                None \<Rightarrow> all_cookies c result ps
              | Some v \<Rightarrow> all_cookies c (oset result name v) ps))"

text \<open>What reading returns: the value under a key, or all the cookies when the key is empty.\<close>

datatype 'v got = One "'v option" | All "'v obj"

definition cookie_get :: "'v env \<Rightarrow> ('v option \<Rightarrow> 'v option) option \<Rightarrow> 's browser \<Rightarrow> 's jar \<Rightarrow> string \<Rightarrow> 'v got res" where
  "cookie_get c converter b j key =
     (if key \<noteq> ''''
      then (case find_cookie c converter key (cookies b j) of Ok v \<Rightarrow> Ok (One v) | URIError \<Rightarrow> URIError)
      else (case all_cookies c [] (cookies b j) of Ok r \<Rightarrow> Ok (All r) | URIError \<Rightarrow> URIError))"

text \<open>
  \<open>removeCookie\<close>: the value of \<open>!$.cookie(key)\<close> after the removal (whether the value that is still
  there is truthy is the parameter \<open>truthy\<close>; an object always is).
\<close>

definition removeCookie ::
  "'v env \<Rightarrow> 's browser \<Rightarrow> ('v \<Rightarrow> bool) \<Rightarrow> 's jar \<Rightarrow> string \<Rightarrow> options \<Rightarrow> ('s jar \<times> bool) res" where
  "removeCookie c b truthy j key os =
     (case cookie_get c None b j key of
        URIError \<Rightarrow> URIError
      | Ok (One None) \<Rightarrow> Ok (j, False)
      | Ok _ \<Rightarrow>
          (let j1 = set_cookie c b j key (of_string c '''') (os\<lparr>o_expires := Days (-1)\<rparr>)
           in case cookie_get c None b j1 key of
                URIError \<Rightarrow> URIError
              | Ok (One None) \<Rightarrow> Ok (j1, True)
              | Ok (One (Some v)) \<Rightarrow> Ok (j1, \<not> truthy v)
              | Ok (All r) \<Rightarrow> Ok (j1, False)))"

section \<open>What is written is what is read\<close>

text \<open>A jar of cookies with encoded names; no browser keeps a semicolon in a value.\<close>

definition jar_ok :: "'s jar \<Rightarrow> bool" where
  "jar_ok j \<longleftrightarrow> distinct (okeys j) \<and>
     (\<forall>((sc, k), v) \<in> set j. (\<exists>name. k = encodeURIComponent name) \<and> CHR '';'' \<notin> set v)"

text \<open>A scope the page sees, and no other scope it sees has a cookie of that name.\<close>

definition own_scope :: "'s browser \<Rightarrow> 's jar \<Rightarrow> 's \<Rightarrow> string \<Rightarrow> bool" where
  "own_scope b j sc key \<longleftrightarrow> sees b sc \<and>
     (\<forall>sc'. sees b sc' \<and> sc' \<noteq> sc \<longrightarrow> oget j (sc', encodeURIComponent key) = None)"

lemma unsafe_space: "is_space c \<Longrightarrow> \<not> enc_safe c"
  by (auto simp: is_space_def enc_safe_def unreserved_def is_digit_def is_lower_def is_upper_def)

lemma dropWhile_none: "\<forall>c \<in> set s. \<not> P c \<Longrightarrow> dropWhile P s = s"
  by (induction s) auto

lemma strip_id: "\<forall>c \<in> set s. \<not> is_space c \<Longrightarrow> strip s = s"
  by (simp add: strip_def dropWhile_none)

lemma strip_encoded [simp]: "strip (encodeURIComponent s) = encodeURIComponent s"
  using encode_safe unsafe_space by (intro strip_id) blast

lemma cut_pair_eq: "CHR ''='' \<notin> set k \<Longrightarrow> cut_pair (k @ CHR ''='' # v) = (strip k, strip v)"
  using index_sub_at [of "CHR ''=''" k "[]" v] by (simp add: cut_pair_def)

text \<open>The encoded forms are told apart: encoding is injective.\<close>

lemma encode_inject [simp]: "encodeURIComponent s = encodeURIComponent t \<longleftrightarrow> s = t"
  by (metis decode_encode option.inject)

lemma parse_encoded:
  "parseCookieValue c (encodeURIComponent s) = (if json c then parse c s else Some (of_string c s))"
proof -
  have "take 1 (encodeURIComponent s) \<noteq> [CHR 0x22]"
  proof
    assume "take 1 (encodeURIComponent s) = [CHR 0x22]"
    then have "CHR 0x22 \<in> set (encodeURIComponent s)"
      by (metis in_set_takeD list.set_intros(1))
    then show False using encode_fresh by simp
  qed
  moreover have "pluses (encodeURIComponent s) = encodeURIComponent s"
    unfolding pluses_def
  proof (rule map_idI)
    fix c assume "c \<in> set (encodeURIComponent s)"
    then have "c \<noteq> CHR ''+''" using encode_safe by force
    then show "(if c = CHR ''+'' then CHR '' '' else c) = c" by simp
  qed
  ultimately show ?thesis by (simp add: parseCookieValue_def Let_def decode_encode)
qed

text \<open>The string the plugin assigns is cut by the browser into the encoded pair and the attributes.\<close>

lemma encoded_no_semi [simp]: "CHR '';'' \<notin> set (encodeURIComponent s)" "CHR ''='' \<notin> set (encodeURIComponent s)"
  by (simp_all add: encode_fresh)

definition attributes :: "'v env \<Rightarrow> options \<Rightarrow> string" where
  "attributes c os =
     (case o_expires os of
        NoExpires \<Rightarrow> ''''
      | Days n \<Rightarrow> ''; expires='' @ utc c (now c + n * 86400000)
      | Date d \<Rightarrow> ''; expires='' @ d) @
     (case o_path os of Some p \<Rightarrow> if p \<noteq> '''' then ''; path='' @ p else '''' | None \<Rightarrow> '''') @
     (case o_domain os of Some p \<Rightarrow> if p \<noteq> '''' then ''; domain='' @ p else '''' | None \<Rightarrow> '''') @
     (if o_secure os then ''; secure'' else '''')"

lemma attributes_cases: "attributes c os = '''' \<or> (\<exists>r. attributes c os = CHR '';'' # r)"
  by (simp add: attributes_def split: expires.split option.split)

definition payload :: "'v env \<Rightarrow> 'v \<Rightarrow> string" where
  "payload c v = (if json c then stringify c v else to_string c v)"

lemma assign_written:
  assumes "\<not> raw c"
  shows "\<exists>at. split_str '';'' (cookie_string c key value os) =
      (encodeURIComponent key @ ''='' @ encodeURIComponent (payload c value)) # at \<and>
    (\<forall>j. set_cookie c b j key value os =
       (case scope b at of None \<Rightarrow> j
        | Some sc \<Rightarrow> if expired (past b) at then odel j (sc, encodeURIComponent key)
            else oset j (sc, encodeURIComponent key) (encodeURIComponent (payload c value))))"
proof -
  let ?p = "encodeURIComponent key @ ''='' @ encodeURIComponent (payload c value)"
  have s: "cookie_string c key value os = ?p @ attributes c os"
    using assms by (simp add: cookie_string_def attributes_def encode_def stringifyCookieValue_def payload_def)
  have p: "CHR '';'' \<notin> set ?p" by simp
  obtain at where at: "split_str '';'' (cookie_string c key value os) = ?p # at"
    using attributes_cases [of c os] split_str_fresh [OF p, of "[]"] split_str_at [OF p, of "[]"]
    unfolding s by fastforce
  moreover have "cut_pair ?p = (encodeURIComponent key, encodeURIComponent (payload c value))"
    using cut_pair_eq [of "encodeURIComponent key"] by simp
  ultimately show ?thesis by (auto simp: set_cookie_def assign_cookie_def split: option.split)
qed

text \<open>Splitting \<open>document.cookie\<close> gives back the pairs the page sees.\<close>

definition pairs_ok :: "string obj \<Rightarrow> bool" where
  "pairs_ok ps \<longleftrightarrow> (\<forall>(k, v) \<in> set ps. (\<exists>name. k = encodeURIComponent name) \<and> CHR '';'' \<notin> set v)"

lemma visible_ok: "jar_ok j \<Longrightarrow> pairs_ok (visible b j)"
  by (fastforce simp: jar_ok_def pairs_ok_def visible_def)

lemma cookies_pairs: "pairs_ok (visible b j) \<Longrightarrow> cookies b j = map pair_str (visible b j)"
proof (cases "visible b j = []")
  case False
  assume ok: "pairs_ok (visible b j)"
  have "CHR '';'' \<notin> set (pair_str kv)" if "kv \<in> set (visible b j)" for kv
    using ok that by (auto simp: pairs_ok_def pair_str_def)
  then have "split_str ''; '' (read_jar b j) = map pair_str (visible b j)"
    unfolding read_jar_def using False by (intro split_join) auto
  moreover have "read_jar b j \<noteq> ''''"
    using False by (cases "visible b j"; cases "tl (visible b j)") (auto simp: read_jar_def pair_str_def)
  ultimately show ?thesis by (simp add: cookies_def)
qed (simp add: cookies_def read_jar_def)

lemma split_pair:
  assumes "CHR ''='' \<notin> set k"
  shows "hd (split_str ''='' (pair_str (k, v))) = k" "join ''='' (tl (split_str ''='' (pair_str (k, v)))) = v"
  using split_str_at [OF assms, of "[]" v] join_split [of "''=''" v] by (simp_all add: pair_str_def)

lemma find_in_pairs:
  assumes "\<not> raw c" "pairs_ok ps" "key \<noteq> ''''"
  shows "find_cookie c cv key (map pair_str ps) =
    Ok (case oget ps (encodeURIComponent key) of Some v \<Rightarrow> read_value c cv v | None \<Rightarrow> None)"
  using assms(2)
proof (induction ps)
  case (Cons kv ps)
  obtain k w where kv: "kv = (k, w)" by fastforce
  obtain name where name: "k = encodeURIComponent name"
    using Cons.prems kv by (auto simp: pairs_ok_def)
  have ok: "pairs_ok ps" using Cons.prems by (auto simp: pairs_ok_def)
  show ?case
    using Cons.IH [OF ok] name kv assms(1,3)
    by (simp add: split_pair Let_def decode_def decode_encode oget_Cons)
qed simp

text \<open>The jar as a store, under the scopes and the keys the plugin encodes.\<close>

definition jar_look :: "'s jar \<Rightarrow> 's \<times> string \<Rightarrow> string option" where
  "jar_look j key = oget j (fst key, encodeURIComponent (snd key))"

definition jar_put :: "'s jar \<Rightarrow> 's \<times> string \<Rightarrow> string \<Rightarrow> 's jar" where
  "jar_put j key v = oset j (fst key, encodeURIComponent (snd key)) v"

definition jar_del :: "'s jar \<Rightarrow> 's \<times> string \<Rightarrow> 's jar" where
  "jar_del j key = odel j (fst key, encodeURIComponent (snd key))"

interpretation cookie_store: kv_store jar_look jar_put jar_del
  by unfold_locales (auto simp: jar_look_def jar_put_def jar_del_def prod_eq_iff)

text \<open>What the page sees of it, when one scope alone has the name.\<close>

lemma visible_Cons: "visible b (((sc, k), v) # j) = (if sees b sc then (k, v) # visible b j else visible b j)"
  by (simp add: visible_def)

lemma visible_oset:
  assumes "sees b sc"
  shows "\<forall>sc'. sees b sc' \<and> sc' \<noteq> sc \<longrightarrow> (sc', k) \<notin> set (okeys j) \<Longrightarrow>
    oget (visible b (oset j (sc, k) v)) k' = (if k' = k then Some v else oget (visible b j) k')"
proof (induction j)
  case Nil
  then show ?case using assms by (simp add: visible_def oset_def oget_Cons)
next
  case (Cons e j)
  obtain s1 k1 v1 where e: "e = ((s1, k1), v1)" by (metis surj_pair)
  from Cons show ?case using assms by (auto simp: e visible_Cons oset_def oget_Cons okeys_def)
qed

lemma visible_odel:
  "\<forall>sc'. sees b sc' \<and> sc' \<noteq> sc \<longrightarrow> (sc', k) \<notin> set (okeys j) \<Longrightarrow>
   oget (visible b (odel j (sc, k))) k' = (if k' = k \<and> sees b sc then None else oget (visible b j) k')"
proof (induction j)
  case Nil
  then show ?case by (simp add: visible_def odel_def)
next
  case (Cons e j)
  obtain s1 k1 v1 where e: "e = ((s1, k1), v1)" by (metis surj_pair)
  from Cons show ?case by (auto simp: e visible_Cons odel_def oget_Cons okeys_def)
qed

lemma visible_put:
  "own_scope b j sc key \<Longrightarrow> oget (visible b (jar_put j (sc, key) v)) (encodeURIComponent key') =
     (if key' = key then Some v else oget (visible b j) (encodeURIComponent key'))"
  using visible_oset [of b sc "encodeURIComponent key" j v "encodeURIComponent key'"]
  by (simp add: own_scope_def jar_put_def oget_None_iff)

lemma visible_del:
  "own_scope b j sc key \<Longrightarrow> oget (visible b (jar_del j (sc, key))) (encodeURIComponent key') =
     (if key' = key then None else oget (visible b j) (encodeURIComponent key'))"
  using visible_odel [of b sc "encodeURIComponent key" j "encodeURIComponent key'"]
  by (simp add: own_scope_def jar_del_def oget_None_iff)

lemma set_cookie_store:
  assumes "\<not> raw c" "scope b (tl (split_str '';'' (cookie_string c key value os))) = Some sc"
  shows "set_cookie c b j key value os =
    (if expired (past b) (tl (split_str '';'' (cookie_string c key value os))) then jar_del j (sc, key)
     else jar_put j (sc, key) (encodeURIComponent (payload c value)))"
  using assign_written [OF assms(1), of key "value" os b] assms(2) by (auto simp: jar_put_def jar_del_def)

lemma jar_ok_put: "jar_ok j \<Longrightarrow> jar_ok (jar_put j (sc, key) (encodeURIComponent t))"
  unfolding jar_ok_def jar_put_def using set_oset [of j "(sc, encodeURIComponent key)" "encodeURIComponent t"]
  by (fastforce simp: encode_fresh)

lemma jar_ok_del: "jar_ok j \<Longrightarrow> jar_ok (jar_del j key)"
  unfolding jar_ok_def jar_del_def using set_odel by fastforce

lemma cookie_get_visible:
  "\<not> raw c \<Longrightarrow> jar_ok j \<Longrightarrow> key \<noteq> '''' \<Longrightarrow>
   cookie_get c cv b j key =
     Ok (One (case oget (visible b j) (encodeURIComponent key) of Some v \<Rightarrow> read_value c cv v | None \<Rightarrow> None))"
  by (simp add: cookie_get_def cookies_pairs visible_ok find_in_pairs)

lemma read_payload:
  "\<not> raw c \<Longrightarrow> read_value c cv (encodeURIComponent t) =
    (let r = (if json c then parse c t else Some (of_string c t))
     in case cv of Some f \<Rightarrow> f r | None \<Rightarrow> r)"
  by (simp add: read_value_def parse_encoded Let_def)

lemma yesterday_expired:
  assumes "\<not> raw c" "old (strip (utc c (now c - 86400000)))" "CHR '';'' \<notin> set (utc c (now c - 86400000))"
  shows "expired old (tl (split_str '';'' (cookie_string c key value (os\<lparr>o_expires := Days (-1)\<rparr>))))"
proof -
  let ?p = "encodeURIComponent key @ ''='' @ encodeURIComponent (payload c value)"
  let ?d = "utc c (now c - 86400000)"
  define rest where "rest = (case o_path os of Some p \<Rightarrow> if p \<noteq> '''' then ''; path='' @ p else '''' | None \<Rightarrow> '''') @
     (case o_domain os of Some p \<Rightarrow> if p \<noteq> '''' then ''; domain='' @ p else '''' | None \<Rightarrow> '''') @
     (if o_secure os then ''; secure'' else '''')"
  have s: "cookie_string c key value (os\<lparr>o_expires := Days (-1)\<rparr>) = ?p @ CHR '';'' # ('' expires='' @ ?d) @ rest"
    using assms(1)
    by (simp add: cookie_string_def encode_def stringifyCookieValue_def payload_def rest_def)
  have r: "rest = '''' \<or> (\<exists>q. rest = CHR '';'' # q)"
    by (simp add: rest_def split: option.split)
  have d: "CHR '';'' \<notin> set ('' expires='' @ ?d)" using assms(3) by simp
  then obtain at where at: "split_str '';'' (('' expires='' @ ?d) @ rest) = ('' expires='' @ ?d) # at"
    using r split_str_fresh [OF d, of "[]"] split_str_at [OF d, of "[]"] by fastforce
  have p: "CHR '';'' \<notin> set ?p" by simp
  have "split_str '';'' (cookie_string c key value (os\<lparr>o_expires := Days (-1)\<rparr>)) = ?p # ('' expires='' @ ?d) # at"
    using split_str_at [OF p, of "[]" "('' expires='' @ ?d) @ rest"] at unfolding s by simp
  moreover have "cut_pair ('' expires='' @ ?d) = (''expires'', strip ?d)"
    using cut_pair_eq [of "'' expires''" ?d] by (simp add: strip_def is_space_def)
  moreover have "lower ''expires'' = ''expires''" by code_simp
  ultimately show ?thesis using assms(2) by (simp add: expired_def)
qed

section \<open>The properties\<close>

text \<open>
  C7: A value written under a key that is not empty is the value read under that key (in raw text or as
  JSON), and every other key that is not empty reads as before, provided that the browser takes the
  cookie for a scope the page sees (path, domain and \<open>secure\<close> allow it), that its date is not past, and
  that the page sees no cookie of that name in another scope.  Names and values are encoded, not raw.
\<close>

theorem cookie_written_read:
  assumes "\<not> raw c" "jar_ok j" "key \<noteq> ''''" "key' \<noteq> ''''"
    "scope b (tl (split_str '';'' (cookie_string c key value os))) = Some sc" "own_scope b j sc key"
    "\<not> expired (past b) (tl (split_str '';'' (cookie_string c key value os)))"
  shows "cookie_get c cv b (set_cookie c b j key value os) key' =
    (if key' = key
     then Ok (One (let r = (if json c then parse c (stringify c value) else Some (of_string c (to_string c value)))
                   in case cv of Some f \<Rightarrow> f r | None \<Rightarrow> r))
     else cookie_get c cv b j key')"
  using assms
  by (simp add: set_cookie_store cookie_get_visible jar_ok_put visible_put read_payload payload_def)

definition text_env :: "string env" where
  "text_env = \<lparr>raw = False, json = False, to_string = id, of_string = id, stringify = id,
     parse = Some, now = 1000, utc = (\<lambda>n. if n < 1000 then ''old'' else ''new'')\<rparr>"

text \<open>A browser on a secure page of \<open>/docs\<close>, for a path only: it sees the cookies for \<open>/\<close> and for \<open>/docs\<close>.\<close>

definition docs_browser :: "string browser" where
  "docs_browser = \<lparr>past = (\<lambda>d. d = ''old''),
     scope = (\<lambda>at. Some (case find (\<lambda>a. fst (cut_pair a) = ''path'') at of Some a \<Rightarrow> snd (cut_pair a) | None \<Rightarrow> ''/docs'')),
     sees = (\<lambda>p. p = ''/'' \<or> p = ''/docs'')\<rparr>"

definition one_jar :: "string jar" where
  "one_jar = [((''/docs'', ''b''), ''1''), ((''/other'', encodeURIComponent ''a b''), ''0'')]"

lemma one_jar_ok: "jar_ok one_jar"
proof -
  have "encodeURIComponent ''b'' = ''b''" by code_simp
  then show ?thesis by (auto simp: one_jar_def jar_ok_def okeys_def intro: exI [of _ "''b''"])
qed

theorem cookie_written_read_witness:
  "cookie_get text_env None docs_browser (set_cookie text_env docs_browser one_jar ''a b'' ''x;y=%''
     \<lparr>o_expires = Days 7, o_path = Some ''/'', o_domain = None, o_secure = True\<rparr>) ''a b''
   = Ok (One (Some ''x;y=%''))"
proof -
  let ?at = "tl (split_str '';'' (cookie_string text_env ''a b'' ''x;y=%''
     \<lparr>o_expires = Days 7, o_path = Some ''/'', o_domain = None, o_secure = True\<rparr>))"
  have sc: "scope docs_browser ?at = Some ''/''" by code_simp
  have e: "\<not> expired (past docs_browser) ?at" by code_simp
  have own: "own_scope docs_browser one_jar ''/'' ''a b''"
    by (auto simp: own_scope_def docs_browser_def one_jar_def oget_Cons) code_simp
  have "\<not> raw text_env" by (simp add: text_env_def)
  from cookie_written_read [OF this one_jar_ok _ _ sc own e, of "''a b''" None] show ?thesis
    by (simp add: text_env_def)
qed

text \<open>
  \<open>removeCookie\<close> of a key that is present, when the browser drops cookies that expired a day
  ago: it answers true, the key is gone, and every other key reads as before.
\<close>

lemma removeCookie_removes:
  assumes "\<not> raw c" "jar_ok j" "key \<noteq> ''''" "cookie_get c None b j key = Ok (One (Some v))"
    "past b (strip (utc c (now c - 86400000)))" "CHR '';'' \<notin> set (utc c (now c - 86400000))"
    "scope b (tl (split_str '';'' (cookie_string c key (of_string c '''') (os\<lparr>o_expires := Days (-1)\<rparr>)))) = Some sc"
    "own_scope b j sc key"
  shows "\<exists>j1. removeCookie c b truthy j key os = Ok (j1, True) \<and> jar_ok j1 \<and>
    cookie_get c cv b j1 key = Ok (One None) \<and> (\<forall>k. k \<noteq> key \<and> k \<noteq> '''' \<longrightarrow> cookie_get c cv b j1 k = cookie_get c cv b j k)"
  using assms jar_ok_del [OF assms(2), of "(sc, key)"]
  by (simp add: removeCookie_def set_cookie_store yesterday_expired cookie_get_visible visible_del Let_def)

lemma all_cookies_bad:
  assumes "\<not> raw c" "p \<in> set ps" "decodeURIComponent (hd (split_str ''='' p)) = None"
  shows "all_cookies c r ps = URIError"
  using assms(2)
proof (induction ps arbitrary: r)
  case (Cons q ps)
  show ?case
  proof (cases "q = p")
    case True
    then show ?thesis using assms by (simp add: Let_def decode_def)
  next
    case False
    with Cons have "all_cookies c r ps = URIError" for r by simp
    then show ?thesis by (simp add: Let_def split: res.split option.split)
  qed
qed simp

text \<open>
  One cookie whose name does not decode, wherever it stands, makes reading all the cookies
  throw, although a cookie whose value does not decode is skipped.
\<close>

lemma malformed_name_throws:
  assumes "\<not> raw c" "(k, v) \<in> set (visible b j)" "decodeURIComponent k = None" "CHR ''='' \<notin> set k"
    "\<forall>(x, y) \<in> set (visible b j). CHR '';'' \<notin> set x \<and> CHR '';'' \<notin> set y"
  shows "cookie_get c cv b j '''' = URIError"
proof -
  let ?ps = "visible b j"
  have "CHR '';'' \<notin> set (pair_str kv)" if "kv \<in> set ?ps" for kv
    using assms(5) that by (auto simp: pair_str_def)
  moreover have "?ps \<noteq> []" using assms(2) by auto
  ultimately have "split_str ''; '' (read_jar b j) = map pair_str ?ps"
    unfolding read_jar_def by (intro split_join) auto
  moreover have "read_jar b j \<noteq> ''''"
    using \<open>?ps \<noteq> []\<close> by (cases ?ps; cases "tl ?ps") (auto simp: read_jar_def pair_str_def)
  ultimately have "cookies b j = map pair_str ?ps" by (simp add: cookies_def)
  moreover have "pair_str (k, v) \<in> set (map pair_str ?ps)" using assms(2) by auto
  ultimately show ?thesis
    using all_cookies_bad [OF assms(1), of "pair_str (k, v)"] assms(3) split_pair(1) [OF assms(4)]
    by (simp add: cookie_get_def)
qed

end
