(* ===== verification/BS_Dom.thy ===== *)
theory BS_Dom
  imports JQ_Classes
begin

text \<open>
  What the Bootstrap plugins (\<^verbatim>\<open>docs/bootstrap.js\<close>) share: the part of the page a plugin
  works on, the events it triggers, and the contract of a widget that is switched on and off.
  An element is a number; its class attribute is the list of its class names, which the class
  operations of jQuery maintain (interpretation \<open>class_string\<close> of theory \<open>JQ_Classes\<close>).
  Each plugin extends the record with its own fields.
\<close>

named_theorems bs_ops \<open>definitions of the page operations\<close>

type_synonym event = "string \<times> nat"

record dom =
  cls :: "nat \<Rightarrow> string list"
  attr :: "nat \<Rightarrow> string obj"
  style :: "nat \<Rightarrow> string obj"
  log :: "event list"

text \<open>
  The browser: whether it has CSS transitions, and which of the events triggered so far (the
  last one is the event at hand) a listener of the page prevents.
\<close>

record browser =
  transition :: bool
  veto :: "event list \<Rightarrow> bool"

definition has_class :: "nat \<Rightarrow> string \<Rightarrow> 'a dom_scheme \<Rightarrow> bool" where
  "has_class n z d \<longleftrightarrow> z \<in> set (cls d n)"

definition add_class :: "nat \<Rightarrow> string \<Rightarrow> 'a dom_scheme \<Rightarrow> 'a dom_scheme" where
  "add_class n z d = d\<lparr>cls := (cls d)(n := add_tok (cls d n) z)\<rparr>"

definition rem_class :: "nat \<Rightarrow> string \<Rightarrow> 'a dom_scheme \<Rightarrow> 'a dom_scheme" where
  "rem_class n z d = d\<lparr>cls := (cls d)(n := removeAll z (cls d n))\<rparr>"

definition toggle_class :: "nat \<Rightarrow> string \<Rightarrow> 'a dom_scheme \<Rightarrow> 'a dom_scheme" where
  "toggle_class n z d = (if has_class n z d then rem_class n z d else add_class n z d)"

definition set_attr :: "nat \<Rightarrow> string \<Rightarrow> string \<Rightarrow> 'a dom_scheme \<Rightarrow> 'a dom_scheme" where
  "set_attr n k v d = d\<lparr>attr := (attr d)(n := oset (attr d n) k v)\<rparr>"

definition rem_attr :: "nat \<Rightarrow> string \<Rightarrow> 'a dom_scheme \<Rightarrow> 'a dom_scheme" where
  "rem_attr n k d = d\<lparr>attr := (attr d)(n := odel (attr d n) k)\<rparr>"

text \<open>Setting an inline style property; the empty string removes it.\<close>

definition set_style :: "nat \<Rightarrow> string \<Rightarrow> string \<Rightarrow> 'a dom_scheme \<Rightarrow> 'a dom_scheme" where
  "set_style n k v d =
     d\<lparr>style := (style d)(n := (if v = '''' then odel (style d n) k else oset (style d n) k v))\<rparr>"

text \<open>Triggering an event: the page after it, and whether it was prevented.\<close>

definition trigger :: "'b browser_scheme \<Rightarrow> string \<Rightarrow> nat \<Rightarrow> 'a dom_scheme \<Rightarrow> 'a dom_scheme \<times> bool" where
  "trigger b ev n d = (d\<lparr>log := log d @ [(ev, n)]\<rparr>, veto b (log d @ [(ev, n)]))"

text \<open>Triggering an event whose outcome the code does not look at.\<close>

definition emit :: "string \<Rightarrow> nat \<Rightarrow> 'a dom_scheme \<Rightarrow> 'a dom_scheme" where
  "emit ev n d = d\<lparr>log := log d @ [(ev, n)]\<rparr>"

definition px :: "int \<Rightarrow> string" where
  "px k = (if k < 0 then ''-'' @ nat_str (nat (- k)) else nat_str (nat k)) @ ''px''"

lemmas [bs_ops] = has_class_def add_class_def rem_class_def toggle_class_def set_attr_def
  rem_attr_def set_style_def trigger_def emit_def

lemma in_add_tok [simp]: "x \<in> set (add_tok ts z) \<longleftrightarrow> x = z \<or> x \<in> set ts"
  by (auto simp: add_tok_def)

lemma distinct_add_tok [simp]: "distinct ts \<Longrightarrow> distinct (add_tok ts z)"
  by (simp add: add_tok_def)

text \<open>The classes of one element of the page obey the laws the class operations of jQuery have.\<close>

interpretation dom_class: class_list
  "\<lambda>d :: 'a dom_scheme. cls d n" "has_class n" "add_class n" "rem_class n" "\<lambda>_. True" for n
  by unfold_locales (simp_all add: bs_ops)

text \<open>Attributes and inline styles of one element are stores.\<close>

interpretation dom_attr: kv_store
  "\<lambda>d :: 'a dom_scheme. oget (attr d n)" "\<lambda>d k v. set_attr n k v d" "\<lambda>d k. rem_attr n k d" for n
  by unfold_locales (simp_all add: bs_ops)

interpretation dom_style: kv_store
  "\<lambda>d :: 'a dom_scheme. oget (style d n)"
  "\<lambda>d k v. d\<lparr>style := (style d)(n := oset (style d n) k v)\<rparr>" "\<lambda>d k. set_style n k '''' d" for n
  by unfold_locales (simp_all add: bs_ops)

section \<open>Widgets that are switched on and off\<close>

text \<open>
  The contract the show and hide operations of the plugins share: an operation that comes too
  late or that a listener prevents changes nothing but the log of events (\<open>core\<close> is the page
  without the log), and an operation that is allowed switches.
\<close>

locale switch =
  fixes is_on :: "'s \<Rightarrow> bool"
    and core :: "'s \<Rightarrow> 'c"
    and may_on :: "'s \<Rightarrow> bool"
    and may_off :: "'s \<Rightarrow> bool"
    and turn_on :: "'s \<Rightarrow> 's"
    and turn_off :: "'s \<Rightarrow> 's"
  assumes on_core: "core s = core t \<Longrightarrow> is_on s = is_on t"
    and on_refused: "is_on s \<or> \<not> may_on s \<Longrightarrow> core (turn_on s) = core s"
    and on_allowed: "\<not> is_on s \<Longrightarrow> may_on s \<Longrightarrow> is_on (turn_on s)"
    and off_refused: "\<not> is_on s \<or> \<not> may_off s \<Longrightarrow> core (turn_off s) = core s"
    and off_allowed: "is_on s \<Longrightarrow> may_off s \<Longrightarrow> \<not> is_on (turn_off s)"
begin

lemma on_after: "is_on (turn_on s) \<longleftrightarrow> is_on s \<or> may_on s"
  using on_core [OF on_refused, of s] on_allowed [of s] by blast

lemma off_after: "is_on (turn_off s) \<longleftrightarrow> is_on s \<and> \<not> may_off s"
  using on_core [OF off_refused, of s] off_allowed [of s] by blast

lemma on_twice: "core (turn_on (turn_on s)) = core (turn_on s) \<or> \<not> is_on (turn_on s) \<and> \<not> may_on s"
  using on_refused on_after by blast

text \<open>The toggle of the widget.\<close>

definition flip :: "'s \<Rightarrow> 's" where
  "flip s = (if is_on s then turn_off s else turn_on s)"

lemma flip_on: "is_on (flip s) \<longleftrightarrow> (if is_on s then \<not> may_off s else may_on s)"
  by (simp add: flip_def on_after off_after)

lemma flip_flip: "may_on s \<Longrightarrow> may_off s \<Longrightarrow> may_on (flip s) \<Longrightarrow> may_off (flip s) \<Longrightarrow> is_on (flip (flip s)) = is_on s"
  by (simp add: flip_on)

text \<open>Any sequence of orders that nobody prevents leaves the widget as the last one says.\<close>

definition order :: "'s \<Rightarrow> bool \<Rightarrow> 's" where
  "order s b = (if b then turn_on s else turn_off s)"

lemma orders_last:
  assumes "\<And>s. may_on s" "\<And>s. may_off s"
  shows "is_on (foldl order s bs) = (if bs = [] then is_on s else last bs)"
  by (induction bs rule: rev_induct) (simp_all add: order_def on_after off_after assms)

end

section \<open>Selectors in attributes\<close>

text \<open>
  \<open>replace(/.*(?=#[^\s]*$)/, '')\<close> and, with \<open>m = 1\<close>, the form with a plus sign: what stands on
  the last line before the last hash sign goes, when only characters that are not white space
  (at least \<open>m\<close>) follow the sign.
\<close>

definition is_newline :: "char \<Rightarrow> bool" where
  "is_newline c \<longleftrightarrow> of_char c = (10 :: nat) \<or> of_char c = (13 :: nat)"

definition last_hash :: "nat \<Rightarrow> string \<Rightarrow> nat option" where
  "last_hash m s = List.find (\<lambda>i. s ! i = CHR ''#'') (rev [0..<length s - m])"

definition ie7_strip :: "nat \<Rightarrow> string \<Rightarrow> string" where
  "ie7_strip m s =
     (case last_hash m s of
        None \<Rightarrow> s
      | Some i \<Rightarrow>
          (if list_ex is_space (drop (Suc i) s) then s
           else rev (dropWhile (\<lambda>c. \<not> is_newline c) (rev (take i s))) @ drop i s))"

text \<open>The target of an element: its \<open>data-target\<close>, or the stripped \<open>href\<close>.\<close>

definition target_selector :: "nat \<Rightarrow> string obj \<Rightarrow> string option" where
  "target_selector m at =
     (case oget at ''data-target'' of
        Some t \<Rightarrow> if t \<noteq> '''' then Some t else map_option (ie7_strip m) (oget at ''href'')
      | None \<Rightarrow> map_option (ie7_strip m) (oget at ''href''))"

lemma last_hash_Some: "last_hash m s = Some i \<Longrightarrow> i + m < length s \<and> s ! i = CHR ''#''"
  by (auto simp: last_hash_def find_Some_iff rev_nth)

lemma ie7_strip_hash:
  "last_hash m s = Some i \<Longrightarrow> \<forall>c \<in> set (drop (Suc i) s). \<not> is_space c \<Longrightarrow> \<forall>c \<in> set s. \<not> is_newline c \<Longrightarrow>
   ie7_strip m s = drop i s"
  by (auto simp: ie7_strip_def list_ex_iff dest: in_set_takeD)

end
