(* ===== verification/BS_Modal.thy ===== *)
theory BS_Modal
  imports BS_Dom
begin

text \<open>
  The modal dialog of \<^verbatim>\<open>docs/bootstrap.js\<close> (lines 920 to 1247): one dialog, its backdrops,
  the listeners it installs and the callbacks that wait for the end of a transition.  The
  \<open>emulateTransitionEnd\<close> timer and the browser both end a transition by the same event, so a
  waiting callback runs at a step \<open>transition_end\<close> of its element.
\<close>

abbreviation (input) EL :: nat where "EL \<equiv> 0"
abbreviation (input) DIALOG :: nat where "DIALOG \<equiv> 1"
abbreviation (input) BODY :: nat where "BODY \<equiv> 2"

datatype backdrop_option = BTrue | BFalse | BStatic

record mbrowser = browser +
  o_backdrop :: backdrop_option
  o_keyboard :: bool
  innerWidth :: int      \<comment> \<open>0 where the browser does not say\<close>
  docLeft :: int
  docRight :: int
  clientWidth :: int
  measured :: int        \<comment> \<open>\<open>offsetWidth - clientWidth\<close> of the measuring element\<close>
  overflowing :: bool    \<comment> \<open>\<open>scrollHeight > clientHeight\<close>\<close>
  computed_pad :: "string \<Rightarrow> int"  \<comment> \<open>the computed right padding, from the inline one\<close>

datatype click_handler = DismissH | BackdropH

datatype callback = ShowCb | HiddenCb

datatype cont = Run callback | Remove "callback option" | Shown | HideModal

record modal = dom +
  isShown :: bool
  backdrop_el :: "nat option"
  originalBodyPad :: "string option"
  scrollbarWidth :: int
  bodyIsOverflowing :: bool
  ignoreBackdropClick :: bool
  in_page :: bool
  displayed :: bool
  scrollTop :: int
  in_body :: "nat list"         \<comment> \<open>the backdrops in the body\<close>
  next_id :: nat
  clicks :: "click_handler list"
  keydowns :: nat
  resizes :: nat
  focusins :: nat
  mousedowns :: nat
  mouseups :: nat
  pending :: "(nat \<times> cont) list"

definition fades :: "mbrowser \<Rightarrow> modal \<Rightarrow> bool" where
  "fades b s \<longleftrightarrow> transition b \<and> has_class EL ''fade'' s"

section \<open>Scroll bars\<close>

definition checkScrollbar :: "mbrowser \<Rightarrow> modal \<Rightarrow> modal" where
  "checkScrollbar b s =
     (let fullWindowWidth = (if innerWidth b \<noteq> 0 then innerWidth b else docRight b - \<bar>docLeft b\<bar>)
      in s\<lparr>bodyIsOverflowing := (clientWidth b < fullWindowWidth), scrollbarWidth := measured b\<rparr>)"

definition setScrollbar :: "mbrowser \<Rightarrow> modal \<Rightarrow> modal" where
  "setScrollbar b s =
     (let inl = (case oget (style s BODY) ''padding-right'' of Some v \<Rightarrow> v | None \<Rightarrow> '''');
          s1 = s\<lparr>originalBodyPad := Some inl\<rparr>
      in if bodyIsOverflowing s1
         then set_style BODY ''padding-right'' (px (computed_pad b inl + scrollbarWidth s1)) s1 else s1)"

definition resetScrollbar :: "modal \<Rightarrow> modal" where
  "resetScrollbar s =
     (case originalBodyPad s of Some v \<Rightarrow> set_style BODY ''padding-right'' v s | None \<Rightarrow> s)"

definition adjustDialog :: "mbrowser \<Rightarrow> modal \<Rightarrow> modal" where
  "adjustDialog b s =
     set_style EL ''padding-right''
       (if bodyIsOverflowing s \<and> \<not> overflowing b then px (scrollbarWidth s) else '''')
       (set_style EL ''padding-left''
         (if \<not> bodyIsOverflowing s \<and> overflowing b then px (scrollbarWidth s) else '''') s)"

definition resetAdjustments :: "modal \<Rightarrow> modal" where
  "resetAdjustments s = set_style EL ''padding-right'' '''' (set_style EL ''padding-left'' '''' s)"

section \<open>Listeners\<close>

definition enforceFocus :: "modal \<Rightarrow> modal" where
  "enforceFocus s = s\<lparr>focusins := 1\<rparr>"

definition escape :: "mbrowser \<Rightarrow> modal \<Rightarrow> modal" where
  "escape b s =
     (if isShown s \<and> o_keyboard b then s\<lparr>keydowns := keydowns s + 1\<rparr>
      else if \<not> isShown s then s\<lparr>keydowns := 0\<rparr> else s)"

definition resize :: "modal \<Rightarrow> modal" where
  "resize s = (if isShown s then s\<lparr>resizes := resizes s + 1\<rparr> else s\<lparr>resizes := 0\<rparr>)"

section \<open>The backdrop\<close>

text \<open>\<open>remove\<close> takes the element out of the body and drops the callbacks waiting on it.\<close>

definition removeBackdrop :: "modal \<Rightarrow> modal" where
  "removeBackdrop s =
     (case backdrop_el s of
        Some n \<Rightarrow> s\<lparr>in_body := removeAll n (in_body s), backdrop_el := None,
                    pending := filter (\<lambda>(m, k). m \<noteq> n) (pending s)\<rparr>
      | None \<Rightarrow> s)"

text \<open>The callback of \<open>show\<close> (lines 986 to 1016) and the one of \<open>hideModal\<close> (1080 to 1085).\<close>

definition shown_event :: "modal \<Rightarrow> modal" where
  "shown_event s = emit ''shown.bs.modal'' EL (emit ''focus'' EL s)"

definition show_callback :: "mbrowser \<Rightarrow> modal \<Rightarrow> modal" where
  "show_callback b s =
     (let tr = fades b s;
          s1 = s\<lparr>in_page := True, displayed := True, scrollTop := 0\<rparr>;
          s2 = enforceFocus (add_class EL ''in'' (adjustDialog b s1))
      in if tr then s2\<lparr>pending := pending s2 @ [(DIALOG, Shown)]\<rparr> else shown_event s2)"

definition hidden_callback :: "modal \<Rightarrow> modal" where
  "hidden_callback s =
     emit ''hidden.bs.modal'' EL (resetScrollbar (resetAdjustments (rem_class BODY ''modal-open'' s)))"

definition run_callback :: "mbrowser \<Rightarrow> callback \<Rightarrow> modal \<Rightarrow> modal" where
  "run_callback b k s = (case k of ShowCb \<Rightarrow> show_callback b s | HiddenCb \<Rightarrow> hidden_callback s)"

definition backdrop :: "mbrowser \<Rightarrow> callback option \<Rightarrow> modal \<Rightarrow> modal" where
  "backdrop b cb s =
     (if isShown s \<and> o_backdrop b \<noteq> BFalse
      then let n = next_id s;
               s1 = s\<lparr>next_id := n + 1, in_body := in_body s @ [n], backdrop_el := Some n,
                      cls := (cls s)(n := ''modal-backdrop'' # (if has_class EL ''fade'' s then [''fade''] else [])),
                      clicks := clicks s @ [BackdropH]\<rparr>;
               s2 = add_class n ''in'' s1
           in case cb of
                None \<Rightarrow> s2
              | Some k \<Rightarrow> if fades b s then s2\<lparr>pending := pending s2 @ [(n, Run k)]\<rparr>
                          else run_callback b k s2
      else case backdrop_el s of
             Some n \<Rightarrow>
               (if \<not> isShown s
                then let s1 = rem_class n ''in'' s
                     in if fades b s1 then s1\<lparr>pending := pending s1 @ [(n, Remove cb)]\<rparr>
                        else (case cb of
                                Some k \<Rightarrow> run_callback b k (removeBackdrop s1)
                              | None \<Rightarrow> removeBackdrop s1)
                else (case cb of Some k \<Rightarrow> run_callback b k s | None \<Rightarrow> s))
           | None \<Rightarrow> (case cb of Some k \<Rightarrow> run_callback b k s | None \<Rightarrow> s))"

section \<open>Showing and hiding\<close>

definition hideModal :: "mbrowser \<Rightarrow> modal \<Rightarrow> modal" where
  "hideModal b s = backdrop b (Some HiddenCb) (s\<lparr>displayed := False\<rparr>)"

text \<open>Lines 969 to 984 and 1028 to 1040: what both do before they turn to the backdrop.\<close>

definition open_modal :: "mbrowser \<Rightarrow> modal \<Rightarrow> modal" where
  "open_modal b s =
     (let s1 = add_class BODY ''modal-open'' (setScrollbar b (checkScrollbar b (s\<lparr>isShown := True\<rparr>)));
          s2 = resize (escape b s1)
      in s2\<lparr>clicks := clicks s2 @ [DismissH], mousedowns := mousedowns s2 + 1\<rparr>)"

definition close_modal :: "mbrowser \<Rightarrow> modal \<Rightarrow> modal" where
  "close_modal b s =
     (let s1 = resize (escape b (s\<lparr>isShown := False\<rparr>))
      in (rem_class EL ''in'' (s1\<lparr>focusins := 0\<rparr>))\<lparr>clicks := [], mouseups := 0, mousedowns := 0\<rparr>)"

definition show_modal :: "mbrowser \<Rightarrow> modal \<Rightarrow> modal" where
  "show_modal b s =
     (case trigger b ''show.bs.modal'' EL s of (s1, prevented) \<Rightarrow>
        if isShown s1 \<or> prevented then s1 else backdrop b (Some ShowCb) (open_modal b s1))"

definition hide_modal :: "mbrowser \<Rightarrow> modal \<Rightarrow> modal" where
  "hide_modal b s =
     (case trigger b ''hide.bs.modal'' EL s of (s1, prevented) \<Rightarrow>
        if \<not> isShown s1 \<or> prevented then s1
        else let s2 = close_modal b s1
             in if fades b s2 then s2\<lparr>pending := pending s2 @ [(EL, HideModal)]\<rparr> else hideModal b s2)"

definition toggle_modal :: "mbrowser \<Rightarrow> modal \<Rightarrow> modal" where
  "toggle_modal b s = (if isShown s then hide_modal b s else show_modal b s)"

section \<open>What the listeners do\<close>

datatype target = OnModal | OnDismiss | Elsewhere

text \<open>
  A click inside the dialog: the handlers installed when it arrives, the delegated ones first.
  The default action is prevented for a click that dismisses, which the model leaves out.
\<close>

definition click_handler :: "mbrowser \<Rightarrow> target \<Rightarrow> modal \<Rightarrow> click_handler \<Rightarrow> modal" where
  "click_handler b t s h =
     (case h of
        DismissH \<Rightarrow> if t = OnDismiss then hide_modal b s else s
      | BackdropH \<Rightarrow>
          (if ignoreBackdropClick s then s\<lparr>ignoreBackdropClick := False\<rparr>
           else if t \<noteq> OnModal then s
           else if o_backdrop b = BStatic then emit ''focus'' EL s
           else hide_modal b s))"

definition click :: "mbrowser \<Rightarrow> target \<Rightarrow> modal \<Rightarrow> modal" where
  "click b t s =
     (let hs = clicks s
      in foldl (click_handler b t) s (filter (\<lambda>h. h = DismissH) hs @ filter (\<lambda>h. h = BackdropH) hs))"

definition mousedown :: "modal \<Rightarrow> modal" where
  "mousedown s = s\<lparr>mouseups := mouseups s + mousedowns s\<rparr>"

definition mouseup :: "target \<Rightarrow> modal \<Rightarrow> modal" where
  "mouseup t s =
     (if mouseups s = 0 then s
      else s\<lparr>mouseups := 0, ignoreBackdropClick := (t = OnModal \<or> ignoreBackdropClick s)\<rparr>)"

definition keydown :: "mbrowser \<Rightarrow> nat \<Rightarrow> modal \<Rightarrow> modal" where
  "keydown b which s = ((\<lambda>s. if which = 27 then hide_modal b s else s) ^^ keydowns s) s"

definition focusin :: "bool \<Rightarrow> modal \<Rightarrow> modal" where
  "focusin inside s = ((\<lambda>s. if inside then s else emit ''focus'' EL s) ^^ focusins s) s"

definition handleUpdate :: "mbrowser \<Rightarrow> modal \<Rightarrow> modal" where
  "handleUpdate b s = adjustDialog b s"

definition window_resize :: "mbrowser \<Rightarrow> modal \<Rightarrow> modal" where
  "window_resize b s = (handleUpdate b ^^ resizes s) s"

text \<open>The end of a transition of an element: the callbacks that wait for it, each once.\<close>

definition run_cont :: "mbrowser \<Rightarrow> modal \<Rightarrow> cont \<Rightarrow> modal" where
  "run_cont b s k =
     (case k of
        Run cb \<Rightarrow> run_callback b cb s
      | Remove cb \<Rightarrow>
          (let s1 = removeBackdrop s in case cb of Some k \<Rightarrow> run_callback b k s1 | None \<Rightarrow> s1)
      | Shown \<Rightarrow> shown_event s
      | HideModal \<Rightarrow> hideModal b s)"

definition transition_end :: "mbrowser \<Rightarrow> nat \<Rightarrow> modal \<Rightarrow> modal" where
  "transition_end b n s =
     foldl (run_cont b) (s\<lparr>pending := filter (\<lambda>(m, k). m \<noteq> n) (pending s)\<rparr>)
       (map snd (filter (\<lambda>(m, k). m = n) (pending s)))"

section \<open>The plugin\<close>

text \<open>A new dialog on an element with the given classes, and the methods a string names.\<close>

definition new_modal :: "string list \<Rightarrow> string obj \<Rightarrow> bool \<Rightarrow> modal" where
  "new_modal classes body_style attached =
     \<lparr>cls = (\<lambda>n. if n = EL then classes else []), attr = (\<lambda>_. []),
      style = (\<lambda>n. if n = BODY then body_style else []), log = [],
      isShown = False, backdrop_el = None, originalBodyPad = None, scrollbarWidth = 0,
      bodyIsOverflowing = False, ignoreBackdropClick = False, in_page = attached, displayed = False,
      scrollTop = 0, in_body = [], next_id = 3, clicks = [], keydowns = 0, resizes = 0, focusins = 0,
      mousedowns = 0, mouseups = 0, pending = []\<rparr>"

datatype modal_arg = Method string | Opts bool  \<comment> \<open>the option \<open>show\<close>\<close>

definition modal_method :: "mbrowser \<Rightarrow> string \<Rightarrow> (modal \<Rightarrow> modal) option" where
  "modal_method b = map_of
     [(''toggle'', toggle_modal b), (''show'', show_modal b), (''hide'', hide_modal b),
      (''handleUpdate'', handleUpdate b), (''hideModal'', hideModal b),
      (''removeBackdrop'', removeBackdrop), (''backdrop'', backdrop b None),
      (''enforceFocus'', enforceFocus), (''escape'', escape b), (''resize'', resize),
      (''adjustDialog'', adjustDialog b), (''resetAdjustments'', resetAdjustments),
      (''checkScrollbar'', checkScrollbar b), (''setScrollbar'', setScrollbar b),
      (''resetScrollbar'', resetScrollbar), (''measureScrollbar'', id)]"

text \<open>\<open>None\<close> is the exception of a name that is no method.\<close>

definition modal_plugin :: "mbrowser \<Rightarrow> modal \<Rightarrow> modal option \<Rightarrow> modal_arg \<Rightarrow> modal option" where
  "modal_plugin b fresh data arg =
     (let s = (case data of Some s \<Rightarrow> s | None \<Rightarrow> fresh)
      in case arg of
           Method m \<Rightarrow> (case modal_method b m of Some f \<Rightarrow> Some (f s) | None \<Rightarrow> None)
         | Opts sh \<Rightarrow> Some (if sh then show_modal b s else s))"

text \<open>
  The call of the plugin that a click of the data API makes: toggle a dialog that exists, make one
  otherwise.  The options come from the data attributes; whether \<open>show\<close> is among them is the
  argument.  The listener that gives the focus back to the clicked element when the dialog is hidden
  again is left out, and so is the content that the option \<open>remote\<close> loads.
\<close>

definition modal_data_click :: "mbrowser \<Rightarrow> modal \<Rightarrow> modal option \<Rightarrow> bool \<Rightarrow> modal option" where
  "modal_data_click b fresh data sh =
     modal_plugin b fresh data (if data \<noteq> None then Method ''toggle'' else Opts sh)"

lemmas modal_defs = show_modal_def hide_modal_def open_modal_def close_modal_def hideModal_def
  backdrop_def run_callback_def
  show_callback_def hidden_callback_def shown_event_def removeBackdrop_def enforceFocus_def
  escape_def resize_def checkScrollbar_def setScrollbar_def resetScrollbar_def adjustDialog_def
  resetAdjustments_def fades_def

section \<open>The contract\<close>

definition modal_core :: "modal \<Rightarrow> modal" where
  "modal_core s = s\<lparr>log := []\<rparr>"

lemma isShown_frame [simp]:
  "isShown (adjustDialog b s) = isShown s" "isShown (resetAdjustments s) = isShown s"
  "isShown (resetScrollbar s) = isShown s" "isShown (setScrollbar b s) = isShown s"
  "isShown (checkScrollbar b s) = isShown s" "isShown (enforceFocus s) = isShown s"
  "isShown (escape b s) = isShown s" "isShown (resize s) = isShown s"
  "isShown (removeBackdrop s) = isShown s" "isShown (add_class n z s) = isShown s"
  "isShown (rem_class n z s) = isShown s" "isShown (emit ev n s) = isShown s"
  "isShown (open_modal b s)" "\<not> isShown (close_modal b s)"
  by (simp_all add: modal_defs bs_ops Let_def split: option.split)

lemma isShown_callback [simp]: "isShown (run_callback b k s) = isShown s"
  by (cases k) (simp_all add: run_callback_def show_callback_def hidden_callback_def shown_event_def Let_def)

lemma isShown_backdrop [simp]: "isShown (backdrop b cb s) = isShown s"
  by (simp add: backdrop_def Let_def split: option.split)

lemma isShown_hideModal [simp]: "isShown (hideModal b s) = isShown s"
  by (simp add: hideModal_def)

interpretation modal_switch: switch isShown modal_core
  "\<lambda>s. \<not> veto b (log s @ [(''show.bs.modal'', EL)])" "\<lambda>s. \<not> veto b (log s @ [(''hide.bs.modal'', EL)])"
  "show_modal b" "hide_modal b" for b
proof
  fix s t :: modal
  show "modal_core s = modal_core t \<Longrightarrow> isShown s = isShown t"
    by (drule arg_cong [where f = isShown]) (simp add: modal_core_def)
  show "isShown s \<or> \<not> \<not> veto b (log s @ [(''show.bs.modal'', EL)]) \<Longrightarrow> modal_core (show_modal b s) = modal_core s"
    by (auto simp: modal_core_def show_modal_def trigger_def)
  show "\<not> isShown s \<Longrightarrow> \<not> veto b (log s @ [(''show.bs.modal'', EL)]) \<Longrightarrow> isShown (show_modal b s)"
    by (simp add: show_modal_def trigger_def Let_def)
  show "\<not> isShown s \<or> \<not> \<not> veto b (log s @ [(''hide.bs.modal'', EL)]) \<Longrightarrow> modal_core (hide_modal b s) = modal_core s"
    by (auto simp: modal_core_def hide_modal_def trigger_def)
  show "isShown s \<Longrightarrow> \<not> veto b (log s @ [(''hide.bs.modal'', EL)]) \<Longrightarrow> \<not> isShown (hide_modal b s)"
    by (simp add: hide_modal_def trigger_def Let_def)
qed

section \<open>The listeners of a dialog, whatever the order of events\<close>

inductive modal_step :: "mbrowser \<Rightarrow> modal \<Rightarrow> modal \<Rightarrow> bool" for b where
  step_show: "modal_step b s (show_modal b s)"
| step_hide: "modal_step b s (hide_modal b s)"
| step_toggle: "modal_step b s (toggle_modal b s)"
| step_click: "modal_step b s (click b t s)"
| step_mousedown: "modal_step b s (mousedown s)"
| step_mouseup: "modal_step b s (mouseup t s)"
| step_keydown: "modal_step b s (keydown b k s)"
| step_focusin: "modal_step b s (focusin inside s)"
| step_resize: "modal_step b s (window_resize b s)"
| step_transition: "modal_step b s (transition_end b n s)"

inductive_cases modal_stepE: "modal_step b s t"

inductive modal_reach :: "mbrowser \<Rightarrow> modal \<Rightarrow> modal \<Rightarrow> bool" for b s0 where
  reach_start: "modal_reach b s0 s0"
| reach_step: "modal_reach b s0 s \<Longrightarrow> modal_step b s t \<Longrightarrow> modal_reach b s0 t"

definition listeners_ok :: "mbrowser \<Rightarrow> modal \<Rightarrow> bool" where
  "listeners_ok b s \<longleftrightarrow>
     keydowns s = (if isShown s \<and> o_keyboard b then 1 else 0) \<and>
     resizes s = (if isShown s then 1 else 0) \<and>
     mousedowns s = (if isShown s then 1 else 0)"

lemma listeners_frame:
  "listeners_ok b (adjustDialog b s) = listeners_ok b s" "listeners_ok b (resetAdjustments s) = listeners_ok b s"
  "listeners_ok b (resetScrollbar s) = listeners_ok b s" "listeners_ok b (setScrollbar b s) = listeners_ok b s"
  "listeners_ok b (checkScrollbar b s) = listeners_ok b s" "listeners_ok b (enforceFocus s) = listeners_ok b s"
  "listeners_ok b (removeBackdrop s) = listeners_ok b s" "listeners_ok b (add_class n z s) = listeners_ok b s"
  "listeners_ok b (rem_class n z s) = listeners_ok b s" "listeners_ok b (emit ev n s) = listeners_ok b s"
  "listeners_ok b (s\<lparr>pending := p\<rparr>) = listeners_ok b s" "listeners_ok b (s\<lparr>log := l\<rparr>) = listeners_ok b s"
  "listeners_ok b (s\<lparr>displayed := v\<rparr>) = listeners_ok b s"
  "listeners_ok b (s\<lparr>in_page := v, displayed := w, scrollTop := p0\<rparr>) = listeners_ok b s"
  "listeners_ok b (s\<lparr>ignoreBackdropClick := v\<rparr>) = listeners_ok b s"
  "listeners_ok b (s\<lparr>next_id := i, in_body := ib, backdrop_el := be, cls := c, clicks := cl\<rparr>) = listeners_ok b s"
  by (simp_all add: listeners_ok_def adjustDialog_def resetAdjustments_def resetScrollbar_def setScrollbar_def
      checkScrollbar_def enforceFocus_def removeBackdrop_def bs_ops Let_def split: option.split)

lemma listeners_callback [simp]: "listeners_ok b (run_callback b k s) = listeners_ok b s"
  by (cases k) (simp_all add: run_callback_def show_callback_def hidden_callback_def shown_event_def Let_def
      listeners_frame)

lemma listeners_backdrop [simp]: "listeners_ok b (backdrop b cb s) = listeners_ok b s"
  by (simp add: backdrop_def Let_def listeners_frame split: option.split)

lemma listeners_hideModal [simp]: "listeners_ok b (hideModal b s) = listeners_ok b s"
  by (simp add: hideModal_def listeners_frame)

lemma handler_frame:
  "keydowns (setScrollbar b s) = keydowns s" "keydowns (checkScrollbar b s) = keydowns s"
  "keydowns (add_class n z s) = keydowns s" "keydowns (resize s) = keydowns s"
  "resizes (setScrollbar b s) = resizes s" "resizes (checkScrollbar b s) = resizes s"
  "resizes (add_class n z s) = resizes s" "resizes (escape b s) = resizes s"
  "mousedowns (setScrollbar b s) = mousedowns s" "mousedowns (checkScrollbar b s) = mousedowns s"
  "mousedowns (add_class n z s) = mousedowns s" "mousedowns (resize s) = mousedowns s"
  "mousedowns (escape b s) = mousedowns s"
  by (simp_all add: setScrollbar_def checkScrollbar_def resize_def escape_def bs_ops Let_def)

lemma resizes_resize: "resizes (resize s) = (if isShown s then resizes s + 1 else 0)"
  by (simp add: resize_def)

lemma keydowns_escape:
  "keydowns (escape b s) = (if isShown s \<and> o_keyboard b then keydowns s + 1 else if isShown s then keydowns s else 0)"
  by (simp add: escape_def)

lemma listeners_open: "listeners_ok b s \<Longrightarrow> \<not> isShown s \<Longrightarrow> listeners_ok b (open_modal b s)"
  by (simp add: open_modal_def listeners_ok_def Let_def handler_frame resizes_resize keydowns_escape)

lemma listeners_close: "listeners_ok b (close_modal b s)"
  by (simp add: close_modal_def listeners_ok_def Let_def handler_frame resizes_resize keydowns_escape rem_class_def)

lemma listeners_show: "listeners_ok b s \<Longrightarrow> listeners_ok b (show_modal b s)"
  by (simp add: show_modal_def trigger_def listeners_frame listeners_open)

lemma listeners_hide: "listeners_ok b s \<Longrightarrow> listeners_ok b (hide_modal b s)"
  by (simp add: hide_modal_def trigger_def Let_def listeners_frame listeners_close)

lemma listeners_click: "listeners_ok b s \<Longrightarrow> listeners_ok b (click_handler b t s h)"
  by (cases h) (simp_all add: click_handler_def listeners_hide listeners_frame)

lemma listeners_cont: "listeners_ok b s \<Longrightarrow> listeners_ok b (run_cont b s k)"
  by (cases k) (simp_all add: run_cont_def shown_event_def listeners_frame Let_def split: option.split)

lemma listeners_step: "modal_step b s t \<Longrightarrow> listeners_ok b s \<Longrightarrow> listeners_ok b t"
proof (induction rule: modal_step.induct)
  case (step_click s t)
  then show ?case unfolding click_def Let_def by (rule foldl_keeps) (rule listeners_click)
next
  case (step_mousedown s)
  then show ?case by (simp add: mousedown_def listeners_ok_def)
next
  case (step_mouseup s t)
  then show ?case by (simp add: mouseup_def listeners_ok_def)
next
  case (step_keydown s k)
  then show ?case unfolding keydown_def by (rule funpow_keeps) (simp add: listeners_hide)
next
  case (step_focusin s inside)
  then show ?case unfolding focusin_def by (rule funpow_keeps) (simp add: listeners_frame)
next
  case (step_resize s)
  then show ?case unfolding window_resize_def
    by (rule funpow_keeps) (simp add: handleUpdate_def listeners_frame)
next
  case (step_transition s n)
  then have "listeners_ok b (s\<lparr>pending := filter (\<lambda>(m, k). m \<noteq> n) (pending s)\<rparr>)"
    by (simp add: listeners_frame)
  then show ?case unfolding transition_end_def by (rule foldl_keeps) (rule listeners_cont)
qed (simp_all add: listeners_show listeners_hide toggle_modal_def)

section \<open>A dialog whose transitions are waited for\<close>

text \<open>
  Letting the transitions under way end: at most two follow one another, the one of the
  backdrop and the one of the dialog.  In a \<open>calm\<close> page nothing is under way, and the page
  shows what the dialog's state says; \<open>p\<close> is the inline right padding the body had at first.
\<close>

definition settle1 :: "mbrowser \<Rightarrow> modal \<Rightarrow> modal" where
  "settle1 b s = (case pending s of [] \<Rightarrow> s | (n, k) # ps \<Rightarrow> transition_end b n s)"

definition settle :: "mbrowser \<Rightarrow> modal \<Rightarrow> modal" where
  "settle b s = settle1 b (settle1 b s)"

definition calm :: "mbrowser \<Rightarrow> string option \<Rightarrow> modal \<Rightarrow> bool" where
  "calm b p s \<longleftrightarrow>
     pending s = [] \<and> 3 \<le> next_id s \<and>
     in_body s = (case backdrop_el s of None \<Rightarrow> [] | Some n \<Rightarrow> [n]) \<and>
     (backdrop_el s = None \<longleftrightarrow> \<not> isShown s \<or> o_backdrop b = BFalse) \<and>
     (\<forall>n. backdrop_el s = Some n \<longrightarrow> 3 \<le> n) \<and>
     (has_class BODY ''modal-open'' s \<longleftrightarrow> isShown s) \<and> (has_class EL ''in'' s \<longleftrightarrow> isShown s) \<and>
     displayed s = isShown s \<and> focusins s = (if isShown s then 1 else 0) \<and>
     clicks s = (if isShown s then DismissH # (if o_backdrop b = BFalse then [] else [BackdropH]) else []) \<and>
     (if isShown s then originalBodyPad s = Some (case p of None \<Rightarrow> '''' | Some v \<Rightarrow> v)
      else oget (style s BODY) ''padding-right'' = p \<and>
        oget (style s EL) ''padding-left'' = None \<and> oget (style s EL) ''padding-right'' = None)"

lemma open_fields:
  "pending (open_modal b s) = pending s" "next_id (open_modal b s) = next_id s" "in_body (open_modal b s) = in_body s"
  "backdrop_el (open_modal b s) = backdrop_el s" "isShown (open_modal b s)"
  "cls (open_modal b s) = (cls s)(BODY := add_tok (cls s BODY) ''modal-open'')"
  "displayed (open_modal b s) = displayed s" "focusins (open_modal b s) = focusins s"
  "clicks (open_modal b s) = clicks s @ [DismissH]"
  "originalBodyPad (open_modal b s) = Some (case oget (style s BODY) ''padding-right'' of Some v \<Rightarrow> v | None \<Rightarrow> '''')"
  by (simp_all add: open_modal_def Let_def setScrollbar_def checkScrollbar_def resize_def escape_def bs_ops)

lemma show_fields:
  "pending (show_callback b s) = pending s @ (if fades b s then [(DIALOG, Shown)] else [])" 
  "next_id (show_callback b s) = next_id s" "in_body (show_callback b s) = in_body s"
  "backdrop_el (show_callback b s) = backdrop_el s" "isShown (show_callback b s) = isShown s"
  "cls (show_callback b s) = (cls s)(EL := add_tok (cls s EL) ''in'')"
  "displayed (show_callback b s)" "focusins (show_callback b s) = 1"
  "clicks (show_callback b s) = clicks s"
  "originalBodyPad (show_callback b s) = originalBodyPad s"
  by (simp_all add: show_callback_def Let_def adjustDialog_def enforceFocus_def shown_event_def bs_ops)

lemma shown_event_fields:
  "pending (shown_event s) = pending s" "next_id (shown_event s) = next_id s" "in_body (shown_event s) = in_body s"
  "backdrop_el (shown_event s) = backdrop_el s" "isShown (shown_event s) = isShown s"
  "cls (shown_event s) = cls s"  "displayed (shown_event s) = displayed s" "focusins (shown_event s) = focusins s"
  "clicks (shown_event s) = clicks s" "originalBodyPad (shown_event s) = originalBodyPad s"
  by (simp_all add: shown_event_def bs_ops)

lemma close_fields:
  "pending (close_modal b s) = pending s" "next_id (close_modal b s) = next_id s" "in_body (close_modal b s) = in_body s"
  "backdrop_el (close_modal b s) = backdrop_el s" "\<not> isShown (close_modal b s)"
  "cls (close_modal b s) = (cls s)(EL := removeAll ''in'' (cls s EL))"
  "displayed (close_modal b s) = displayed s" "focusins (close_modal b s) = 0"
  "clicks (close_modal b s) = []" "originalBodyPad (close_modal b s) = originalBodyPad s"
  "style (close_modal b s) = style s"
  by (simp_all add: close_modal_def Let_def resize_def escape_def bs_ops)

lemma hidden_fields:
  "pending (hidden_callback s) = pending s" 
  "next_id (hidden_callback s) = next_id s" "in_body (hidden_callback s) = in_body s"
  "backdrop_el (hidden_callback s) = backdrop_el s" "isShown (hidden_callback s) = isShown s"
  "cls (hidden_callback s) = (cls s)(BODY := removeAll ''modal-open'' (cls s BODY))"
  "displayed (hidden_callback s) = displayed s" "focusins (hidden_callback s) = focusins s"
  "clicks (hidden_callback s) = clicks s"
  "originalBodyPad (hidden_callback s) = originalBodyPad s"
  "oget (style (hidden_callback s) EL) ''padding-left'' = None" 
  "oget (style (hidden_callback s) EL) ''padding-right'' = None" 
  "originalBodyPad s = Some v \<Longrightarrow> oget (style (hidden_callback s) BODY) ''padding-right'' = (if v = '''' then None else Some v)"
  by (simp_all add: hidden_callback_def Let_def resetScrollbar_def resetAdjustments_def bs_ops split: option.split)

lemma settle_none: "pending s = [] \<Longrightarrow> settle b s = s"
  by (simp add: settle_def settle1_def)

lemma settle1_one: "pending s = [(n, k)] \<Longrightarrow> settle1 b s = run_cont b (s\<lparr>pending := []\<rparr>) k"
  by (simp add: settle1_def transition_end_def)

lemma settle_one:
  "pending s = [(n, k)] \<Longrightarrow> pending (run_cont b (s\<lparr>pending := []\<rparr>) k) = [] \<Longrightarrow>
   settle b s = run_cont b (s\<lparr>pending := []\<rparr>) k"
  by (simp add: settle_def settle1_one) (simp add: settle1_def)

lemma settle_two:
  "pending s = [(n, k)] \<Longrightarrow> pending (run_cont b (s\<lparr>pending := []\<rparr>) k) = [(m, l)] \<Longrightarrow>
   settle b s = run_cont b ((run_cont b (s\<lparr>pending := []\<rparr>) k)\<lparr>pending := []\<rparr>) l"
  by (simp add: settle_def settle1_one) 

lemma settle_then:
  "run_cont b (s\<lparr>pending := []\<rparr>) k = t \<Longrightarrow> pending t = [(m, l)] \<Longrightarrow> pending s = [(n, k)] \<Longrightarrow>
   settle b s = run_cont b (t\<lparr>pending := []\<rparr>) l"
  using settle_two [of s n k b m l] by simp

definition raised :: "mbrowser \<Rightarrow> modal \<Rightarrow> modal" where
  "raised b s = (let n = next_id s in
     s\<lparr>next_id := n + 1, in_body := in_body s @ [n], backdrop_el := Some n, clicks := clicks s @ [BackdropH],
       cls := (cls s)(n := ''modal-backdrop'' # (if has_class EL ''fade'' s then [''fade''] else []) @ [''in''])\<rparr>)"

lemma backdrop_show:
  "isShown s \<Longrightarrow> o_backdrop b \<noteq> BFalse \<Longrightarrow> next_id s \<noteq> EL \<Longrightarrow> backdrop b (Some k) s = 
   (if fades b s then (raised b s)\<lparr>pending := pending s @ [(next_id s, Run k)]\<rparr> else run_callback b k (raised b s))"
  by (simp add: backdrop_def Let_def raised_def bs_ops add_tok_def fades_def)

lemma raised_fields:
  "pending (raised b s) = pending s" "next_id (raised b s) = next_id s + 1" "in_body (raised b s) = in_body s @ [next_id s]"
  "backdrop_el (raised b s) = Some (next_id s)" "isShown (raised b s) = isShown s"
  "next_id s \<noteq> n \<Longrightarrow> cls (raised b s) n = cls s n"
  "displayed (raised b s) = displayed s" "focusins (raised b s) = focusins s"
  "clicks (raised b s) = clicks s @ [BackdropH]" "originalBodyPad (raised b s) = originalBodyPad s"
  by (simp_all add: raised_def Let_def)

lemma calm_open:
  assumes "calm b p s" "p \<noteq> Some ''''" "\<not> isShown s" 
  shows "calm b p (settle b (backdrop b (Some ShowCb) (open_modal b s)))"
proof -
  let ?s = "open_modal b s"
  have n: "next_id ?s \<noteq> 0" "next_id ?s \<noteq> 1" "next_id ?s \<noteq> 2" "pending ?s = []" using assms by (simp_all add: calm_def open_fields)
  show ?thesis
  proof (cases "o_backdrop b = BFalse")
    case True
    then have e: "backdrop b (Some ShowCb) ?s = show_callback b ?s"
      using assms by (simp add: backdrop_def run_callback_def open_fields calm_def)
    show ?thesis
    proof (cases "fades b ?s")
      case f: True
      have "settle b (show_callback b ?s) = shown_event ((show_callback b ?s)\<lparr>pending := []\<rparr>)"
        by (rule settle_one [where k = Shown, unfolded run_cont_def, simplified]) (simp_all add: show_fields f n shown_event_fields)
      then show ?thesis using assms True unfolding e by (simp add: calm_def open_fields show_fields shown_event_fields bs_ops)
    next
      case f: False
      then show ?thesis using assms True unfolding e 
        by (simp add: settle_none show_fields n) (simp add: calm_def open_fields show_fields bs_ops)
    qed
  next
    case False
    then have e: "backdrop b (Some ShowCb) ?s = (if fades b ?s
        then (raised b ?s)\<lparr>pending := [(next_id ?s, Run ShowCb)]\<rparr> else show_callback b (raised b ?s))"
      using n by (simp add: backdrop_show run_callback_def open_fields)
    have fr: "fades b (raised b ?s) = fades b ?s" using n by (simp add: fades_def has_class_def raised_fields)
    have c: "n < 3 \<Longrightarrow> cls (raised b ?s) n = cls ?s n" for n
      using assms(1) by (intro raised_fields) (auto simp: calm_def open_fields)
    show ?thesis
    proof (cases "fades b ?s")
      case f: True
      let ?r = "(raised b ?s)\<lparr>pending := []\<rparr>"
      have fr': "fades b ?r" using fr f by (simp add: fades_def has_class_def)
      have "settle b ((raised b ?s)\<lparr>pending := [(next_id ?s, Run ShowCb)]\<rparr>) = shown_event ((show_callback b ?r)\<lparr>pending := []\<rparr>)"
        using settle_two [of "(raised b ?s)\<lparr>pending := [(next_id ?s, Run ShowCb)]\<rparr>" "next_id ?s" "Run ShowCb" b DIALOG Shown]
        by (simp add: run_cont_def run_callback_def show_fields fr')
      then show ?thesis using assms False unfolding e
        by (simp add: f calm_def open_fields show_fields raised_fields shown_event_fields bs_ops c)
    next
      case f: False
      then show ?thesis using assms False unfolding e
        by (simp add: settle_none show_fields n raised_fields fr)
           (simp add: calm_def open_fields show_fields raised_fields bs_ops c fr)
    qed
  qed
qed


definition closing :: "mbrowser \<Rightarrow> modal \<Rightarrow> modal" where
  "closing b s = (if fades b s then s\<lparr>pending := pending s @ [(EL, HideModal)]\<rparr> else hideModal b s)"

lemma removed_fields:
  "pending (removeBackdrop s) = (case backdrop_el s of None \<Rightarrow> pending s | Some n \<Rightarrow> filter (\<lambda>(m, k). m \<noteq> n) (pending s))"
  "next_id (removeBackdrop s) = next_id s" 
  "in_body (removeBackdrop s) = (case backdrop_el s of None \<Rightarrow> in_body s | Some n \<Rightarrow> removeAll n (in_body s))" 
  "backdrop_el (removeBackdrop s) = None" "isShown (removeBackdrop s) = isShown s"
  "cls (removeBackdrop s) = cls s" "displayed (removeBackdrop s) = displayed s" "focusins (removeBackdrop s) = focusins s"
  "clicks (removeBackdrop s) = clicks s" "originalBodyPad (removeBackdrop s) = originalBodyPad s" "style (removeBackdrop s) = style s"
  by (simp_all add: removeBackdrop_def split: option.split)

lemma hideModal_shut:
  "\<not> isShown s \<Longrightarrow> hideModal b s = (case backdrop_el s of None \<Rightarrow> hidden_callback (s\<lparr>displayed := False\<rparr>)
    | Some n \<Rightarrow> (let s1 = rem_class n ''in'' (s\<lparr>displayed := False\<rparr>) in
     if fades b s1 then s1\<lparr>pending := pending s1 @ [(n, Remove (Some HiddenCb))]\<rparr> else hidden_callback (removeBackdrop s1)))"
  by (simp add: hideModal_def backdrop_def run_callback_def Let_def bs_ops split: option.split)

lemma calm_close:
  assumes "calm b p s" "p \<noteq> Some []" "isShown s" 
  shows "calm b p (settle b (closing b (close_modal b s)))"
proof -
  let ?s = "close_modal b s"
  have n: "pending ?s = []" "\<not> isShown ?s" using assms by (simp_all add: calm_def close_fields)
  have f: "fades b (t\<lparr>pending := q\<rparr>) = fades b t" "fades b (t\<lparr>displayed := q'\<rparr>) = fades b t" "fades b (rem_class n ''in'' t) = fades b t" for t q q' n
    by (simp_all add: fades_def bs_ops)
  show ?thesis
  proof (cases "backdrop_el ?s")
    case None
    then have e: "hideModal b ?s = hidden_callback (?s\<lparr>displayed := False\<rparr>)" "hideModal b (?s\<lparr>pending := []\<rparr>) = hidden_callback (?s\<lparr>pending := [], displayed := False\<rparr>)"
      using n by (simp_all add: hideModal_shut)
    show ?thesis
    proof (cases "fades b ?s")
      case True
      have "settle b (closing b ?s) = hidden_callback (?s\<lparr>pending := [], displayed := False\<rparr>)"
        using settle_one [of "?s\<lparr>pending := [(EL, HideModal)]\<rparr>" EL HideModal b] True n
        by (simp add: closing_def run_cont_def e hidden_fields)
      then show ?thesis using assms None by (auto simp: calm_def close_fields hidden_fields bs_ops split: option.split)
    next
      case False
      then show ?thesis using assms None n e
        by (simp add: closing_def settle_none hidden_fields)
           (auto simp: calm_def close_fields hidden_fields bs_ops split: option.split)
    qed
  next
    case (Some m)
    show ?thesis
    proof (cases "fades b ?s")
      case True
      define r where "r = rem_class m ''in'' (?s\<lparr>pending := [], displayed := False\<rparr>)"
      have fr: "fades b r" using True by (simp add: r_def fades_def bs_ops)
      have pr: "pending r = []" "r\<lparr>pending := []\<rparr> = r" by (simp_all add: r_def bs_ops)
      have "run_cont b (?s\<lparr>pending := []\<rparr>) HideModal = r\<lparr>pending := [(m, Remove (Some HiddenCb))]\<rparr>"
        using n(2) Some fr pr(1) by (simp add: run_cont_def hideModal_shut Let_def r_def [symmetric])
      then have "settle b (?s\<lparr>pending := [(EL, HideModal)]\<rparr>) = run_cont b r (Remove (Some HiddenCb))"
        using settle_then [of b "?s\<lparr>pending := [(EL, HideModal)]\<rparr>" HideModal] pr(2) by simp
      then have "settle b (closing b ?s) = hidden_callback (removeBackdrop r)"
        using True n(1) by (simp add: closing_def run_cont_def run_callback_def)
      then show ?thesis using assms Some unfolding r_def
        by (auto simp: calm_def close_fields hidden_fields removed_fields bs_ops split: option.split)
    next
      case False
      then have "closing b ?s = hidden_callback (removeBackdrop (rem_class m ''in'' (?s\<lparr>displayed := False\<rparr>)))"
        using n Some by (simp add: closing_def hideModal_shut f Let_def)
      then show ?thesis using assms n Some
        by (simp add: settle_none hidden_fields removed_fields rem_class_def)
           (auto simp: calm_def close_fields hidden_fields removed_fields bs_ops split: option.split)
    qed
  qed
qed


lemma calm_log: "calm b p (s\<lparr>log := l\<rparr>) = calm b p s"
  by (simp add: calm_def bs_ops)

lemma calm_pending: "calm b p s \<Longrightarrow> settle b s = s"
  by (simp add: calm_def settle_none)

lemma calm_show: "calm b p s \<Longrightarrow> p \<noteq> Some [] \<Longrightarrow> calm b p (settle b (show_modal b s))"
  using calm_open [of b p "s\<lparr>log := log s @ [(''show.bs.modal'', EL)]\<rparr>"]
    calm_pending [of b p "s\<lparr>log := log s @ [(''show.bs.modal'', EL)]\<rparr>"]
  by (simp add: show_modal_def trigger_def calm_log)

lemma calm_hide: "calm b p s \<Longrightarrow> p \<noteq> Some [] \<Longrightarrow> calm b p (settle b (hide_modal b s))"
  using calm_close [of b p "s\<lparr>log := log s @ [(''hide.bs.modal'', EL)]\<rparr>"]
    calm_pending [of b p "s\<lparr>log := log s @ [(''hide.bs.modal'', EL)]\<rparr>"]
  by (simp add: hide_modal_def trigger_def calm_log closing_def Let_def)

section \<open>The properties\<close>

lemma calm_orders:
  assumes "''in'' \<notin> set classes" "oget body_style ''padding-right'' \<noteq> Some ''''"
  shows "calm b (oget body_style ''padding-right'')
    (foldl (\<lambda>s on. settle b (if on then show_modal b s else hide_modal b s)) (new_modal classes body_style attached) os)"
proof (rule foldl_keeps)
  show "calm b (oget body_style ''padding-right'') (new_modal classes body_style attached)"
    using assms(1) by (simp add: calm_def new_modal_def bs_ops)
qed (use assms(2) in \<open>simp add: calm_show calm_hide\<close>)

text \<open>
  C3: after any sequence of shows and hides, allowed or prevented, whose transitions have ended,
  there is one backdrop exactly when the dialog is shown and has the option, the body is marked
  and the focus is held exactly when the dialog is shown, nothing is left waiting, and the
  padding of the body is the original one whenever the dialog is hidden.
\<close>

theorem modal_page_restored:
  assumes "''in'' \<notin> set classes" "oget body_style ''padding-right'' \<noteq> Some ''''"
  shows "let s = foldl (\<lambda>s on. settle b (if on then show_modal b s else hide_modal b s))
                   (new_modal classes body_style attached) os
    in pending s = [] \<and> length (in_body s) = (if isShown s \<and> o_backdrop b \<noteq> BFalse then 1 else 0) \<and>
       (has_class BODY ''modal-open'' s \<longleftrightarrow> isShown s) \<and> (has_class EL ''in'' s \<longleftrightarrow> isShown s) \<and>
       displayed s = isShown s \<and> focusins s = (if isShown s then 1 else 0) \<and>
       (\<not> isShown s \<longrightarrow> clicks s = [] \<and>
          oget (style s BODY) ''padding-right'' = oget body_style ''padding-right'')"
  using calm_orders [OF assms, of b attached os]
  by (auto simp: calm_def Let_def split: option.splits)

definition fading :: mbrowser where
  "fading = \<lparr>transition = True, veto = (\<lambda>_. False), o_backdrop = BTrue, o_keyboard = True,
     innerWidth = 1000, docLeft = 0, docRight = 1000, clientWidth = 985, measured = 15,
     overflowing = False, computed_pad = (\<lambda>s. if s = ''5px'' then 5 else 0)\<rparr>"

theorem modal_page_restored_witness:
  "let s = foldl (\<lambda>s on. settle fading (if on then show_modal fading s else hide_modal fading s))
             (new_modal [''modal'', ''fade''] [(''padding-right'', ''5px'')] True) [True, False, True, True, False]
   in \<not> isShown s \<and> oget (style s BODY) ''padding-right'' = Some ''5px'' \<and> in_body s = []"
proof -
  have "\<not> isShown (foldl (\<lambda>s on. settle fading (if on then show_modal fading s else hide_modal fading s))
             (new_modal [''modal'', ''fade''] [(''padding-right'', ''5px'')] True) [True, False, True, True, False])"
    by code_simp
  then show ?thesis
    using modal_page_restored [of "[''modal'', ''fade'']" "[(''padding-right'', ''5px'')]" fading True
        "[True, False, True, True, False]"]
    unfolding Let_def by (simp add: oget_Cons)
qed

text \<open>
  In whatever order the calls, the user's events and the ends of transitions come, the
  dialog listens to the escape key, to the size of the window and to the mouse exactly when it
  is shown, once each.
\<close>

theorem modal_listeners:
  assumes "modal_reach b (new_modal classes body_style attached) s"
  shows "keydowns s = (if isShown s \<and> o_keyboard b then 1 else 0) \<and>
    resizes s = (if isShown s then 1 else 0) \<and> mousedowns s = (if isShown s then 1 else 0)"
  using assms
proof induction
  case reach_start
  show ?case by (simp add: new_modal_def)
next
  case (reach_step s t)
  then show ?case using listeners_step [of b s t] by (simp add: listeners_ok_def)
qed

theorem modal_listeners_witness:
  "let s = click fading OnModal (show_modal fading (new_modal [''modal''] [] False)) in resizes s = 0 \<and> \<not> isShown s"
proof -
  let ?s = "click fading OnModal (show_modal fading (new_modal [''modal''] [] False))"
  have "modal_reach fading (new_modal [''modal''] [] False) ?s"
    by (meson reach_start reach_step step_show step_click)
  from modal_listeners [OF this] have "resizes ?s = (if isShown ?s then 1 else 0)" by blast
  moreover have "\<not> isShown ?s" by code_simp
  ultimately show ?thesis by (simp add: Let_def)
qed

text \<open>
  A toggle shows a hidden dialog and hides a shown one unless a listener of the page
  prevents it, and then it changes nothing but the events triggered.
\<close>

theorem modal_toggles:
  "if veto b (log s @ [(if isShown s then ''hide.bs.modal'' else ''show.bs.modal'', EL)])
   then modal_core (toggle_modal b s) = modal_core s
   else isShown (toggle_modal b s) = (\<not> isShown s)"
proof (cases "isShown s")
  case True
  then show ?thesis
    using modal_switch.off_after [of b s] modal_switch.off_refused [of s b] by (simp add: toggle_modal_def)
next
  case False
  then show ?thesis
    using modal_switch.on_after [of b s] modal_switch.on_refused [of s b] by (simp add: toggle_modal_def)
qed

text \<open>
  A dialog with the fade effect that is hidden while its backdrop still fades in ends up
  hidden and quiet, but with the class of a visible dialog and with its focus listener on the
  document: the callback of \<open>show\<close> does not look whether the dialog is still to be shown.
\<close>

theorem modal_quick_hide:
  "let s = foldl (\<lambda>s n. transition_end fading n s)
             (hide_modal fading (show_modal fading (new_modal [''modal'', ''fade''] [] True))) [3, EL, DIALOG, 3]
   in \<not> isShown s \<and> pending s = [] \<and> in_body s = [] \<and> focusins s = 1 \<and> has_class EL ''in'' s \<and>
      log s = [(''show.bs.modal'', EL), (''hide.bs.modal'', EL), (''focus'', EL), (''shown.bs.modal'', EL),
               (''hidden.bs.modal'', EL)]"
  by code_simp

end
