(* ===== verification/BS_Carousel.thy ===== *)
theory BS_Carousel
  imports BS_Dom
begin

text \<open>
  The carousel of \<^verbatim>\<open>docs/bootstrap.js\<close> (lines 304 to 533).  The items are the children of
  class \<open>item\<close> of one parent, numbered from 0, and so are the indicators; the element of item
  \<open>i\<close> is \<open>item i\<close>, the one of indicator \<open>i\<close> is \<open>ind i\<close>, the carousel is element 0.  The interval
  timers that run, the callbacks that wait for a transition and the \<open>slid\<close> events that wait for
  their zero timeout are part of the state.
\<close>

definition item :: "nat \<Rightarrow> nat" where
  "item i = 2 * i + 1"

definition ind :: "nat \<Rightarrow> nat" where
  "ind i = 2 * i + 2"

lemma item_ind [simp]: "item i = item j \<longleftrightarrow> i = j" "ind i = ind j \<longleftrightarrow> i = j"
  "item i \<noteq> ind j" "ind i \<noteq> item j" "item i \<noteq> 0" "ind i \<noteq> 0" "0 < item i" "0 < ind i"
  by (auto simp: item_def ind_def) presburger+

datatype slide_end = SlideEnd (kind_of: string) (dir_of: string) (next_of: "nat list") (active_of: "nat list")

record carousel = dom +
  n_items :: nat
  n_inds :: nat
  has_inds :: bool
  paused :: bool
  sliding :: bool
  interval :: "nat option"
  live :: "nat list"             \<comment> \<open>the interval timers that run\<close>
  next_handle :: nat
  waiting :: "int list"          \<comment> \<open>the positions waiting for \<open>slid\<close>\<close>
  slid_timers :: nat
  pending :: "(nat \<times> slide_end) list"
  thrown :: bool

record cbrowser = browser +
  opt_interval :: bool
  opt_wrap :: bool
  opt_keyboard :: bool
  opt_hover :: bool

definition active_items :: "carousel \<Rightarrow> nat list" where
  "active_items s = filter (\<lambda>i. has_class (item i) ''active'' s) [0..<n_items s]"

text \<open>Adding class names to, or removing them from, each element of a collection.\<close>

definition add_all :: "string list \<Rightarrow> nat list \<Rightarrow> 'a dom_scheme \<Rightarrow> 'a dom_scheme" where
  "add_all zs ns s = s\<lparr>cls := (\<lambda>n. if n \<in> set ns then foldl add_tok (cls s n) zs else cls s n)\<rparr>"

definition rem_all :: "string list \<Rightarrow> nat list \<Rightarrow> 'a dom_scheme \<Rightarrow> 'a dom_scheme" where
  "rem_all zs ns s = s\<lparr>cls := (\<lambda>n. if n \<in> set ns then filter (\<lambda>z. z \<notin> set zs) (cls s n) else cls s n)\<rparr>"

text \<open>
  The index of the first of some items, and the number of items this finds: the collection of
  the siblings of no item is empty.
\<close>

definition getItemIndex :: "carousel \<Rightarrow> nat list \<Rightarrow> int \<times> nat" where
  "getItemIndex s is = (case is of [] \<Rightarrow> (-1, 0) | i # _ \<Rightarrow> (int i, n_items s))"

text \<open>The remainder of JavaScript has the sign of the dividend; \<open>None\<close> is \<open>NaN\<close>.\<close>

definition js_rem :: "int \<Rightarrow> int \<Rightarrow> int option" where
  "js_rem a n = (if n = 0 then None else Some (if a < 0 then - ((- a) mod \<bar>n\<bar>) else a mod \<bar>n\<bar>))"

definition eq_item :: "nat \<Rightarrow> int option \<Rightarrow> nat list" where
  "eq_item len i =
     (case i of None \<Rightarrow> []
      | Some k \<Rightarrow> let j = k + (if k < 0 then int len else 0)
                  in if 0 \<le> j \<and> j < int len then [nat j] else [])"

definition getItemForDirection :: "cbrowser \<Rightarrow> carousel \<Rightarrow> string \<Rightarrow> nat list \<Rightarrow> nat list" where
  "getItemForDirection b s direction active =
     (case getItemIndex s active of (activeIndex, len) \<Rightarrow>
        let willWrap = (direction = ''prev'' \<and> activeIndex = 0) \<or>
                       (direction = ''next'' \<and> activeIndex = int len - 1)
        in if willWrap \<and> \<not> opt_wrap b then active
           else let delta = (if direction = ''prev'' then -1 else 1)
                in eq_item len (js_rem (activeIndex + delta) (int len)))"

section \<open>Timers\<close>

definition clear_timer :: "nat option \<Rightarrow> carousel \<Rightarrow> carousel" where
  "clear_timer h s = (case h of Some k \<Rightarrow> s\<lparr>live := removeAll k (live s)\<rparr> | None \<Rightarrow> s)"

text \<open>The argument says whether an event (a truthy argument) is passed.\<close>

definition cycle :: "cbrowser \<Rightarrow> bool \<Rightarrow> carousel \<Rightarrow> carousel" where
  "cycle b e s =
     (let s1 = (if e then s else s\<lparr>paused := False\<rparr>);
          s2 = clear_timer (interval s1) s1
      in if opt_interval b \<and> \<not> paused s2
         then s2\<lparr>interval := Some (next_handle s2), live := live s2 @ [next_handle s2],
                 next_handle := next_handle s2 + 1\<rparr>
         else s2)"

definition transitional :: "carousel \<Rightarrow> bool" where
  "transitional s = list_ex (\<lambda>i. has_class (item i) ''next'' s \<or> has_class (item i) ''prev'' s) [0..<n_items s]"

text \<open>The event the code triggers on the carousel itself does not reach the handlers of its items.\<close>

definition pause :: "cbrowser \<Rightarrow> bool \<Rightarrow> carousel \<Rightarrow> carousel" where
  "pause b e s =
     (let s1 = (if e then s else s\<lparr>paused := True\<rparr>);
          s2 = (if transitional s1 \<and> transition b then cycle b True (emit ''transitionend'' 0 s1) else s1)
      in (clear_timer (interval s2) s2)\<lparr>interval := None\<rparr>)"

section \<open>Sliding\<close>

definition move_indicator :: "nat list \<Rightarrow> carousel \<Rightarrow> carousel" where
  "move_indicator nexts s =
     (if has_inds s
      then let s1 = rem_all [''active''] (map ind [0..<n_inds s]) s;
               i = fst (getItemIndex s1 nexts)
           in if 0 \<le> i \<and> i < int (n_inds s) then add_class (ind (nat i)) ''active'' s1 else s1
      else s)"

definition slides :: "cbrowser \<Rightarrow> carousel \<Rightarrow> bool" where
  "slides b s \<longleftrightarrow> transition b \<and> has_class 0 ''slide'' s"

text \<open>
  Lines 439 to 459: with a transition, the classes that start it (a \<open>next\<close> collection that is
  empty makes this throw); without, the change and the \<open>slid\<close> event at once, which no position
  waits for (lemma \<open>no_wait\<close> below).
\<close>

definition carry :: "cbrowser \<Rightarrow> string \<Rightarrow> string \<Rightarrow> nat list \<Rightarrow> nat list \<Rightarrow> carousel \<Rightarrow> carousel" where
  "carry b type direction nexts active s =
     (if slides b s
      then let s1 = add_all [type] (map item nexts) s
           in if nexts = [] then s1\<lparr>thrown := True\<rparr>
              else let s2 = add_all [direction] (map item nexts) (add_all [direction] (map item active) s1)
                   in s2\<lparr>pending := pending s2 @
                           map (\<lambda>i. (item i, SlideEnd type direction nexts active)) active\<rparr>
      else let s1 = add_all [''active''] (map item nexts) (rem_all [''active''] (map item active) s)
           in emit ''slid.bs.carousel'' 0 (s1\<lparr>sliding := False\<rparr>))"

definition slide_to :: "cbrowser \<Rightarrow> string \<Rightarrow> nat list \<Rightarrow> carousel \<Rightarrow> carousel" where
  "slide_to b type nexts s =
     (let active = active_items s;
          isCycling = (interval s \<noteq> None);
          direction = (if type = ''next'' then ''left'' else ''right'')
      in if list_ex (\<lambda>i. has_class (item i) ''active'' s) nexts then s\<lparr>sliding := False\<rparr>
         else case trigger b ''slide.bs.carousel'' 0 s of (s1, prevented) \<Rightarrow>
           if prevented then s1
           else let s2 = s1\<lparr>sliding := True\<rparr>;
                    s3 = move_indicator nexts (if isCycling then pause b False s2 else s2);
                    s4 = carry b type direction nexts active s3
                in if isCycling \<and> \<not> (slides b s3 \<and> nexts = []) then cycle b False s4 else s4)"

definition slide :: "cbrowser \<Rightarrow> string \<Rightarrow> nat list option \<Rightarrow> carousel \<Rightarrow> carousel" where
  "slide b type nxt s =
     slide_to b type (case nxt of Some is \<Rightarrow> is | None \<Rightarrow> getItemForDirection b s type (active_items s)) s"

definition next_slide :: "cbrowser \<Rightarrow> carousel \<Rightarrow> carousel" where
  "next_slide b s = (if sliding s then s else slide b ''next'' None s)"

definition prev_slide :: "cbrowser \<Rightarrow> carousel \<Rightarrow> carousel" where
  "prev_slide b s = (if sliding s then s else slide b ''prev'' None s)"

definition to :: "cbrowser \<Rightarrow> int \<Rightarrow> carousel \<Rightarrow> carousel" where
  "to b pos s =
     (case getItemIndex s (active_items s) of (activeIndex, len) \<Rightarrow>
        if pos > int len - 1 \<or> pos < 0 then s
        else if sliding s then s\<lparr>waiting := waiting s @ [pos]\<rparr>
        else if activeIndex = pos then cycle b False (pause b False s)
        else slide b (if pos > activeIndex then ''next'' else ''prev'') (Some (eq_item len (Some pos))) s)"

section \<open>What happens to a carousel\<close>

text \<open>The end of the transition of an item: lines 446 to 451.\<close>

definition slide_done :: "carousel \<Rightarrow> slide_end \<Rightarrow> carousel" where
  "slide_done s k =
     (let s1 = rem_all [kind_of k, dir_of k] (map item (next_of k)) s;
          s2 = add_all [''active''] (map item (next_of k)) s1;
          s3 = rem_all [''active'', dir_of k] (map item (active_of k)) s2
      in s3\<lparr>sliding := False, slid_timers := slid_timers s3 + 1\<rparr>)"

definition transition_end :: "nat \<Rightarrow> carousel \<Rightarrow> carousel" where
  "transition_end n s =
     foldl slide_done (s\<lparr>pending := filter (\<lambda>(m, k). m \<noteq> n) (pending s)\<rparr>)
       (map snd (filter (\<lambda>(m, k). m = n) (pending s)))"

text \<open>The zero timeout: \<open>slid\<close>, and the positions that waited for it, each once.\<close>

definition slid_timeout :: "cbrowser \<Rightarrow> carousel \<Rightarrow> carousel" where
  "slid_timeout b s =
     (if slid_timers s = 0 then s
      else let s1 = emit ''slid.bs.carousel'' 0 (s\<lparr>slid_timers := slid_timers s - 1, waiting := []\<rparr>)
           in foldl (\<lambda>s pos. to b pos s) s1 (waiting s))"

definition tick :: "cbrowser \<Rightarrow> nat \<Rightarrow> carousel \<Rightarrow> carousel" where
  "tick b h s = (if h \<in> set (live s) then next_slide b s else s)"

definition keydown :: "cbrowser \<Rightarrow> string \<Rightarrow> nat \<Rightarrow> carousel \<Rightarrow> carousel" where
  "keydown b tag which s =
     (if \<not> opt_keyboard b \<or> occurs ''input'' (lower tag) \<or> occurs ''textarea'' (lower tag) then s
      else if which = 37 then prev_slide b s
      else if which = 39 then next_slide b s
      else s)"

definition mouseenter :: "cbrowser \<Rightarrow> carousel \<Rightarrow> carousel" where
  "mouseenter b s = (if opt_hover b then pause b True s else s)"

definition mouseleave :: "cbrowser \<Rightarrow> carousel \<Rightarrow> carousel" where
  "mouseleave b s = (if opt_hover b then cycle b True s else s)"

text \<open>
  The plugin: a number, a method name, or options (whose \<open>slide\<close> may name a method, and whose
  \<open>interval\<close> may be set).
\<close>

datatype carousel_arg = ToPos int | Call string | Options "string option" bool

definition carousel_method :: "cbrowser \<Rightarrow> string \<Rightarrow> (carousel \<Rightarrow> carousel) option" where
  "carousel_method b = map_of
     [(''next'', next_slide b), (''prev'', prev_slide b), (''pause'', pause b False), (''cycle'', cycle b False)]"

text \<open>The other methods, which take arguments, are not called through their names here.\<close>

definition carousel_plugin :: "cbrowser \<Rightarrow> carousel_arg \<Rightarrow> carousel \<Rightarrow> carousel option" where
  "carousel_plugin b arg s =
     (case arg of
        ToPos k \<Rightarrow> Some (to b k s)
      | Call m \<Rightarrow> map_option (\<lambda>f. f s) (carousel_method b m)
      | Options (Some m) _ \<Rightarrow> map_option (\<lambda>f. f s) (carousel_method b m)
      | Options None iv \<Rightarrow> Some (if iv then cycle b False (pause b False s) else s))"

text \<open>
  The click handler of the data API on a link with the given \<open>data-slide\<close> and
  \<open>data-slide-to\<close> (that is a number), for a target that is a carousel.
\<close>

definition carousel_click :: "cbrowser \<Rightarrow> string option \<Rightarrow> int option \<Rightarrow> bool \<Rightarrow> carousel \<Rightarrow> carousel option" where
  "carousel_click b slide_data index iv s =
     (case carousel_plugin b (Options slide_data (iv \<and> index = None)) s of
        None \<Rightarrow> None
      | Some s1 \<Rightarrow> Some (case index of Some k \<Rightarrow> to b k s1 | None \<Rightarrow> s1))"

definition new_carousel :: "string list \<Rightarrow> nat \<Rightarrow> nat option \<Rightarrow> nat \<Rightarrow> carousel" where
  "new_carousel classes n inds a =
     \<lparr>cls = (\<lambda>e. if e = 0 then classes else if e = item a \<or> e = ind a then [''active''] else []),
      attr = (\<lambda>_. []), style = (\<lambda>_. []), log = [], n_items = n,
      n_inds = (case inds of Some k \<Rightarrow> k | None \<Rightarrow> 0), has_inds = (inds \<noteq> None),
      paused = False, sliding = False, interval = None, live = [], next_handle = 0, waiting = [],
      slid_timers = 0, pending = [], thrown = False\<rparr>"


lemma has_class_all [simp]:
  "has_class n z (add_all zs ns s) \<longleftrightarrow> has_class n z s \<or> n \<in> set ns \<and> z \<in> set zs"
  "has_class n z (rem_all zs ns s) \<longleftrightarrow> has_class n z s \<and> \<not> (n \<in> set ns \<and> z \<in> set zs)"
  "has_class n z (add_class m y s) \<longleftrightarrow> has_class n z s \<or> n = m \<and> z = y"
  by (auto simp: has_class_def add_all_def rem_all_def add_class_def)

section \<open>One timer at most\<close>

definition one_timer :: "carousel \<Rightarrow> bool" where
  "one_timer s \<longleftrightarrow> live s = [] \<or> (\<exists>h. interval s = Some h \<and> live s = [h])"

lemma one_timer_cong: "live s = live t \<Longrightarrow> interval s = interval t \<Longrightarrow> one_timer s = one_timer t"
  by (simp add: one_timer_def)

lemma one_timer_cycle: "one_timer s \<Longrightarrow> one_timer (cycle b e s)"
  by (auto simp: one_timer_def cycle_def clear_timer_def Let_def split: option.splits)

lemma one_timer_pause: "one_timer s \<Longrightarrow> one_timer (pause b e s)"
proof -
  assume s: "one_timer s"
  let ?s1 = "if e then s else s\<lparr>paused := True\<rparr>"
  let ?s2 = "if transitional ?s1 \<and> transition b then cycle b True (emit ''transitionend'' 0 ?s1) else ?s1"
  have "one_timer (emit ''transitionend'' 0 ?s1)" "one_timer ?s1"
    using s by (auto simp: one_timer_def emit_def)
  then have "one_timer ?s2" by (auto intro: one_timer_cycle)
  then have "live (clear_timer (interval ?s2) ?s2) = []"
    by (auto simp: one_timer_def clear_timer_def split: option.split)
  then show ?thesis unfolding pause_def Let_def by (simp add: one_timer_def)
qed

lemma timer_frame [simp]:
  "live (add_all zs ns s) = live s" "live (rem_all zs ns s) = live s" "live (emit ev n s) = live s"
  "interval (add_all zs ns s) = interval s" "interval (rem_all zs ns s) = interval s"
  "interval (emit ev n s) = interval s" "live (add_class n z s) = live s" "interval (add_class n z s) = interval s"
  "live (move_indicator ks s) = live s" "interval (move_indicator ks s) = interval s"
  by (simp_all add: add_all_def rem_all_def bs_ops move_indicator_def Let_def)

lemma one_timer_upd [simp]:
  "one_timer (s\<lparr>log := l\<rparr>) = one_timer s" "one_timer (s\<lparr>sliding := v\<rparr>) = one_timer s"
  "one_timer (s\<lparr>waiting := w\<rparr>) = one_timer s" "one_timer (s\<lparr>pending := p\<rparr>) = one_timer s"
  "one_timer (s\<lparr>slid_timers := t, waiting := w\<rparr>) = one_timer s"
  by (simp_all add: one_timer_def)

lemma carry_timer [simp]: "live (carry b t d ks is s) = live s" "interval (carry b t d ks is s) = interval s"
  by (simp_all add: carry_def Let_def)

lemma one_timer_slide: "one_timer s \<Longrightarrow> one_timer (slide b type nxt s)"
proof -
  assume s: "one_timer s"
  have m: "one_timer (move_indicator ks t) = one_timer t" "one_timer (carry b ty d ks is t) = one_timer t" for ks t ty d "is"
    by (rule one_timer_cong; simp)+
  show ?thesis
    using s by (simp add: slide_def slide_to_def Let_def trigger_def m one_timer_cycle one_timer_pause)
qed

lemma one_timer_to: "one_timer s \<Longrightarrow> one_timer (to b k s)"
  by (simp add: to_def one_timer_slide one_timer_pause one_timer_cycle split: prod.split)

lemma slide_done_timer: "live (slide_done s k) = live s" "interval (slide_done s k) = interval s"
  by (simp_all add: slide_done_def Let_def)

section \<open>One active item\<close>

abbreviation moving :: "string set" where
  "moving \<equiv> {''next'', ''prev'', ''left'', ''right''}"

definition direction_of :: "string \<Rightarrow> string" where
  "direction_of type = (if type = ''next'' then ''left'' else ''right'')"

definition marks :: "carousel \<Rightarrow> nat \<Rightarrow> nat \<Rightarrow> bool" where
  "marks s a k \<longleftrightarrow>
     a < n_items s \<and> k < n_items s \<and> (\<forall>i < n_items s. has_class (item i) ''active'' s \<longleftrightarrow> i = a) \<and>
     (has_inds s \<longrightarrow> (\<forall>i < n_inds s. has_class (ind i) ''active'' s \<longleftrightarrow> i = k))"

definition rest :: "carousel \<Rightarrow> nat \<Rightarrow> bool" where
  "rest s a \<longleftrightarrow> marks s a a \<and> pending s = [] \<and> \<not> sliding s \<and>
     (\<forall>i < n_items s. \<forall>z \<in> moving. \<not> has_class (item i) z s)"

definition moves :: "carousel \<Rightarrow> nat \<Rightarrow> nat \<Rightarrow> string \<Rightarrow> bool" where
  "moves s a k type \<longleftrightarrow> marks s a k \<and> a \<noteq> k \<and> (type = ''next'' \<or> type = ''prev'') \<and> sliding s \<and>
     pending s = [(item a, SlideEnd type (direction_of type) [k] [a])] \<and>
     (\<forall>i < n_items s. \<forall>z \<in> moving. has_class (item i) z s \<longleftrightarrow>
        i = k \<and> (z = type \<or> z = direction_of type) \<or> i = a \<and> z = direction_of type)"

definition view :: "carousel \<Rightarrow> (nat \<Rightarrow> string list) \<times> nat \<times> nat \<times> bool \<times> (nat \<times> slide_end) list \<times> bool" where
  "view s = (cls s, n_items s, n_inds s, has_inds s, pending s, sliding s)"

lemma rest_view: "view s = view t \<Longrightarrow> rest s a = rest t a"
  by (simp add: view_def rest_def marks_def has_class_def)

lemma moves_view: "view s = view t \<Longrightarrow> moves s a k ty = moves t a k ty"
  by (simp add: view_def moves_def marks_def has_class_def)

lemma view_timers [simp]: "view (cycle b e s) = view s" "view (pause b e s) = view s"
  "view (s\<lparr>log := l\<rparr>) = view s" "view (s\<lparr>waiting := w\<rparr>) = view s" "view (emit ev n s) = view s"
  by (simp_all add: view_def cycle_def pause_def clear_timer_def emit_def Let_def split: option.split)

lemma waiting_timers [simp]: "waiting (cycle b e s) = waiting s" "waiting (pause b e s) = waiting s"
  by (simp_all add: cycle_def pause_def clear_timer_def emit_def Let_def split: option.split)

lemma view_fields: "view s = view t \<Longrightarrow> cls s = cls t \<and> n_items s = n_items t \<and> n_inds s = n_inds t \<and>
  has_inds s = has_inds t \<and> pending s = pending t \<and> sliding s = sliding t"
  by (simp add: view_def)

lemma fields_timers [simp]:
  "has_class n z (cycle b e s) = has_class n z s" "has_class n z (pause b e s) = has_class n z s"
  "n_items (cycle b e s) = n_items s" "n_items (pause b e s) = n_items s"
  "n_inds (cycle b e s) = n_inds s" "n_inds (pause b e s) = n_inds s"
  "has_inds (cycle b e s) = has_inds s" "has_inds (pause b e s) = has_inds s"
  "pending (cycle b e s) = pending s" "pending (pause b e s) = pending s"
  "sliding (cycle b e s) = sliding s" "sliding (pause b e s) = sliding s"
  using view_fields [OF view_timers(1), of b e s] view_fields [OF view_timers(2), of b e s]
  by (simp_all add: has_class_def)

lemma fields_classes [simp]:
  "n_items (add_all zs ns s) = n_items s" "n_items (rem_all zs ns s) = n_items s" "n_items (add_class n z s) = n_items s"
  "n_inds (add_all zs ns s) = n_inds s" "n_inds (rem_all zs ns s) = n_inds s" "n_inds (add_class n z s) = n_inds s"
  "has_inds (add_all zs ns s) = has_inds s" "has_inds (rem_all zs ns s) = has_inds s"
  "has_inds (add_class n z s) = has_inds s"
  "pending (add_all zs ns s) = pending s" "pending (rem_all zs ns s) = pending s" "pending (add_class n z s) = pending s"
  "sliding (add_all zs ns s) = sliding s" "sliding (rem_all zs ns s) = sliding s" "sliding (add_class n z s) = sliding s"
  "waiting (add_all zs ns s) = waiting s" "waiting (rem_all zs ns s) = waiting s" "waiting (add_class n z s) = waiting s"
  by (simp_all add: add_all_def rem_all_def add_class_def)

lemma active_rest: "marks s a k \<Longrightarrow> active_items s = [a]"
proof -
  assume m: "marks s a k"
  then have "filter (\<lambda>i. has_class (item i) ''active'' s) [0..<n_items s] = filter (\<lambda>i. i = a) [0..<n_items s]"
    by (intro filter_cong) (auto simp: marks_def)
  moreover have "a < n \<Longrightarrow> filter (\<lambda>i. i = a) [0..<n] = [a]" for n
    by (induction n) (auto simp: less_Suc_eq filter_empty_conv)
  ultimately show ?thesis using m by (simp add: active_items_def marks_def)
qed

text \<open>The neighbour in a direction: around the end, or stopping there.\<close>

definition step_from :: "cbrowser \<Rightarrow> string \<Rightarrow> nat \<Rightarrow> nat \<Rightarrow> nat" where
  "step_from b type n a =
     (if type = ''prev'' then (if a = 0 then (if opt_wrap b then n - 1 else a) else a - 1)
      else if a = n - 1 then (if opt_wrap b then 0 else a) else a + 1)"

lemma direction_item:
  assumes "marks s a k" "type = ''next'' \<or> type = ''prev''"
  shows "getItemForDirection b s type [a] = [step_from b type (n_items s) a] \<and> step_from b type (n_items s) a < n_items s"
proof -
  have a: "a < n_items s" using assms(1) by (simp add: marks_def)
  show ?thesis
  proof (cases "type = ''prev''")
    case True
    then show ?thesis using a
      by (cases "n_items s = 1")
         (auto simp: getItemForDirection_def getItemIndex_def step_from_def eq_item_def js_rem_def Let_def of_nat_diff)
  next
    case False
    with assms(2) have t: "type = ''next''" by simp
    show ?thesis
    proof (cases "a = n_items s - 1")
      case True
      then have "int a + 1 = int (n_items s)" using a by simp
      then show ?thesis using a True t
        by (simp add: getItemForDirection_def getItemIndex_def step_from_def eq_item_def js_rem_def Let_def)
    next
      case False
      then have "int a + 1 < int (n_items s)" "int a \<noteq> int (n_items s) - 1" using a by linarith+
      then show ?thesis using a False t
        by (simp add: getItemForDirection_def getItemIndex_def step_from_def eq_item_def js_rem_def Let_def nat_add_distrib)
    qed
  qed
qed

lemma slides_frame [simp]:
  "slides b (cycle b' e s) = slides b s" "slides b (pause b' e s) = slides b s"
  "slides b (move_indicator ks s) = slides b s"
  by (auto simp: slides_def move_indicator_def Let_def)

lemma zero_item [simp]: "0 \<notin> item ` A" "0 \<notin> ind ` A"
  by (auto simp: image_iff item_def ind_def)

lemma slides_classes [simp]:
  "slides b (s\<lparr>thrown := t\<rparr>) = slides b s" 
  "0 \<notin> set ns \<Longrightarrow> slides b (add_all zs ns s) = slides b s" "0 \<notin> set ns \<Longrightarrow> slides b (rem_all zs ns s) = slides b s"
  "n \<noteq> 0 \<Longrightarrow> slides b (add_class n z s) = slides b s"
  "slides b (s\<lparr>sliding := v\<rparr>) = slides b s" "slides b (s\<lparr>log := l\<rparr>) = slides b s" "slides b (emit ev n s) = slides b s"
  "slides b (s\<lparr>pending := p\<rparr>) = slides b s" "slides b (s\<lparr>waiting := w\<rparr>) = slides b s"
  by (auto simp: slides_def) (auto simp: has_class_def emit_def)

lemma has_class_upd [simp]:
  "has_class n z (s\<lparr>sliding := v\<rparr>) = has_class n z s" "has_class n z (s\<lparr>log := l\<rparr>) = has_class n z s"
  "has_class n z (emit ev m s) = has_class n z s"
  "has_class n z (s\<lparr>pending := p\<rparr>) = has_class n z s" "has_class n z (s\<lparr>waiting := w\<rparr>) = has_class n z s"
  by (simp_all add: has_class_def emit_def)

lemma fields_emit [simp]:
  "n_items (emit ev n s) = n_items s" "n_inds (emit ev n s) = n_inds s" "has_inds (emit ev n s) = has_inds s"
  "pending (emit ev n s) = pending s" "sliding (emit ev n s) = sliding s" "waiting (emit ev n s) = waiting s"
  by (simp_all add: emit_def)

lemma fields_indicator [simp]:
  "n_items (move_indicator ks s) = n_items s" "n_inds (move_indicator ks s) = n_inds s"
  "has_inds (move_indicator ks s) = has_inds s" "pending (move_indicator ks s) = pending s"
  "sliding (move_indicator ks s) = sliding s" "waiting (move_indicator ks s) = waiting s"
  "has_class (item i) z (move_indicator ks s) = has_class (item i) z s"
  by (auto simp: move_indicator_def Let_def)

lemma marks_indicator:
  "marks s a j \<Longrightarrow> k < n_items s \<Longrightarrow> marks (move_indicator [k] s) a k"
  by (auto simp: marks_def) (auto simp: move_indicator_def getItemIndex_def Let_def split: if_splits)

lemma carry_moves:
  assumes "marks s a k" "\<forall>i < n_items s. \<forall>z \<in> moving. \<not> has_class (item i) z s" "pending s = []"
    "sliding s" "k \<noteq> a" "type = ''next'' \<or> type = ''prev''" "slides b s"
  shows "moves (carry b type (direction_of type) [k] [a] s) a k type"
proof -
  have "type \<noteq> ''active''" "direction_of type \<noteq> ''active''" "type \<noteq> direction_of type"
    using assms(6) by (auto simp: direction_of_def)
  then show ?thesis using assms
    by (auto simp: carry_def Let_def moves_def marks_def) 
qed

lemma carry_rest:
  assumes "marks s a k" "\<forall>i < n_items s. \<forall>z \<in> moving. \<not> has_class (item i) z s" "pending s = []"
     "\<not> slides b s"
  shows "rest (carry b type d [k] [a] s) k"
  using assms by (auto simp: carry_def Let_def rest_def marks_def)

lemma carry_frame [simp]:
  "waiting (carry b type d ks is s) = waiting s" "slides b' (carry b type d ks is s) = slides b' s"
  by (auto simp: carry_def Let_def)

lemma slide_to_rest:
  assumes "rest s a" "k < n_items s" "type = ''next'' \<or> type = ''prev''"
  shows "view (slide_to b type [k] s) = view s \<and> (k = a \<or> veto b (log s @ [(''slide.bs.carousel'', 0)])) \<or>
     k \<noteq> a \<and> \<not> veto b (log s @ [(''slide.bs.carousel'', 0)]) \<and> 
     (if slides b s then moves (slide_to b type [k] s) a k type else rest (slide_to b type [k] s) k)"
proof (cases "k = a \<or> veto b (log s @ [(''slide.bs.carousel'', 0)])")
  case True
  have "has_class (item k) ''active'' s \<longleftrightarrow> k = a" "sliding s = False" using assms by (auto simp: rest_def marks_def)
  with True show ?thesis 
    by (auto simp: slide_to_def Let_def trigger_def view_def)
next
  case False
  have h: "\<not> has_class (item k) ''active'' s" using assms False by (auto simp: rest_def marks_def)
  have ac: "active_items s = [a]" using assms(1) active_rest rest_def by blast
  define s2 where "s2 = s\<lparr>log := log s @ [(''slide.bs.carousel'', 0)], sliding := True\<rparr>"
  define s3 where "s3 = move_indicator [k] (if interval s \<noteq> None then pause b False s2 else s2)"
  define s4 where "s4 = carry b type (direction_of type) [k] [a] s3"
  have e: "slide_to b type [k] s = (if interval s \<noteq> None then cycle b False s4 else s4)"
    using False h by (simp add: slide_to_def Let_def trigger_def ac s4_def s3_def s2_def direction_of_def)
  have v: "view (slide_to b type [k] s) = view s4" unfolding e by simp
  have "marks s2 a a" using assms(1) by (simp add: rest_def marks_def s2_def)
  then have "marks (if interval s \<noteq> None then pause b False s2 else s2) a a" by (simp add: marks_def)
  then have m: "marks s3 a k" unfolding s3_def by (rule marks_indicator) (simp add: s2_def assms(2))
  have n: "\<forall>i < n_items s3. \<forall>z \<in> moving. \<not> has_class (item i) z s3" "pending s3 = []" "sliding s3" "slides b s3 = slides b s"
    using assms(1) by (simp_all add: s3_def rest_def s2_def)
  have "if slides b s then moves s4 a k type else rest s4 k"
    using carry_moves [OF m n(1-3)] carry_rest [OF m n(1,2)] False assms(3) n(4) by (simp add: s4_def)
  then show ?thesis using False rest_view [OF v] moves_view [OF v] by simp
qed

lemma slide_to_wait: "waiting (slide_to b type ks s) = waiting s" "slides b' (slide_to b type ks s) = slides b' s"
  by (simp_all add: slide_to_def Let_def trigger_def)

lemma one_timer_slid [simp]: "one_timer (s\<lparr>slid_timers := t\<rparr>) = one_timer s"
  by (simp add: one_timer_def)

lemma has_class_done_upd: "has_class n z (s\<lparr>sliding := v, slid_timers := t\<rparr>) = has_class n z s"
  by (simp add: has_class_def)

lemma has_class_slide_done:
  "has_class n z (slide_done s (SlideEnd ty d [k] [a])) \<longleftrightarrow>
     (has_class n z s \<and> \<not> (n = item k \<and> (z = ty \<or> z = d)) \<or> n = item k \<and> z = ''active'') \<and>
     \<not> (n = item a \<and> (z = ''active'' \<or> z = d))"
  by (auto simp: slide_done_def Let_def has_class_done_upd)

lemma fields_slide_done [simp]:
  "n_items (slide_done s e) = n_items s" "n_inds (slide_done s e) = n_inds s"
  "has_inds (slide_done s e) = has_inds s" "pending (slide_done s e) = pending s" "\<not> sliding (slide_done s e)"
  by (simp_all add: slide_done_def Let_def)

lemma slide_done_rest:
  assumes "moves s a k type"
  shows "rest (transition_end (item a) s) k"
proof -
  have m: "marks s a k" "a \<noteq> k" "type = ''next'' \<or> type = ''prev''"
    using assms by (simp_all add: moves_def)
  have all: "\<forall>i < n_items s. \<forall>z \<in> moving. has_class (item i) z s \<longleftrightarrow>
      i = k \<and> (z = type \<or> z = direction_of type) \<or> i = a \<and> z = direction_of type"
    using assms unfolding moves_def by (elim conjE)
  have cl: "has_class (item i) z s \<longleftrightarrow> i = k \<and> (z = type \<or> z = direction_of type) \<or> i = a \<and> z = direction_of type"
    if "i < n_items s" "z \<in> moving" for i z
    using all that by blast
  have d: "''active'' \<noteq> type" "''active'' \<noteq> direction_of type" "''active'' \<notin> moving"
    using m(3) by (auto simp: direction_of_def)
  let ?s = "s\<lparr>pending := []\<rparr>"
  define t where "t = slide_done ?s (SlideEnd type (direction_of type) [k] [a])"
  have h: "has_class n z t \<longleftrightarrow>
     (has_class n z s \<and> \<not> (n = item k \<and> (z = type \<or> z = direction_of type)) \<or> n = item k \<and> z = ''active'') \<and>
     \<not> (n = item a \<and> (z = ''active'' \<or> z = direction_of type))" for n z
    by (simp add: t_def has_class_slide_done)
  have "\<not> has_class (item i) z t" if "i < n_items s" "z \<in> moving" for i z
    using cl [OF that] h [of "item i" z] that(2) d(3) by auto
  moreover have "has_class (item i) ''active'' t \<longleftrightarrow> i = k" if "i < n_items s" for i
    using h [of "item i" "''active''"] that m(1,2) d by (auto simp: marks_def)
  moreover have "has_inds s \<Longrightarrow> i < n_inds s \<Longrightarrow> has_class (ind i) ''active'' t \<longleftrightarrow> i = k" for i
    using h [of "ind i" "''active''"] m(1) by (simp add: marks_def)
  ultimately have "rest t k" using m(1) by (simp add: rest_def marks_def t_def)
  then show ?thesis using assms by (simp add: t_def transition_end_def moves_def)
qed

lemma transition_other: "moves s a k type \<Longrightarrow> n \<noteq> item a \<Longrightarrow> transition_end n s = s"
  by (simp add: transition_end_def moves_def)

lemma transition_rest: "rest s a \<Longrightarrow> transition_end n s = s"
  by (simp add: transition_end_def rest_def)

lemma slides_upd: "slides b (s\<lparr>sliding := v, slid_timers := t\<rparr>) = slides b s"
  by (simp add: slides_def has_class_def)

lemma slides_view: "view s = view t \<Longrightarrow> slides b s = slides b t"
  by (simp add: slides_def has_class_def view_def)

lemma transition_frame [simp]:
  "waiting (transition_end n s) = waiting s" "slides b (transition_end n s) = slides b s"
proof -
  have *: "waiting (slide_done s k) = waiting s" "slides b (slide_done s k) = slides b s" for s k
    by (simp_all add: slide_done_def Let_def slides_upd)
  have "waiting (foldl slide_done s ks) = waiting s \<and> slides b (foldl slide_done s ks) = slides b s" for s ks
    by (induction ks arbitrary: s) (simp_all add: *)
  then show "waiting (transition_end n s) = waiting s" "slides b (transition_end n s) = slides b s"
    by (simp_all add: transition_end_def)
qed

definition carousel_ok :: "cbrowser \<Rightarrow> carousel \<Rightarrow> bool" where
  "carousel_ok b s \<longleftrightarrow> one_timer s \<and> (slides b s \<or> waiting s = []) \<and>
     ((\<exists>a. rest s a) \<or> slides b s \<and> (\<exists>a k type. moves s a k type))"

lemma ok_view:
  "carousel_ok b s \<Longrightarrow> view t = view s \<Longrightarrow> waiting t = waiting s \<Longrightarrow> one_timer t \<Longrightarrow> carousel_ok b t"
  using rest_view [of t s] moves_view [of t s] slides_view [of t s b] unfolding carousel_ok_def by metis

lemma ok_slide:
  assumes ok: "carousel_ok b s" and r: "rest s a" and t: "type = ''next'' \<or> type = ''prev''" and k: "k < n_items s"
  shows "carousel_ok b (slide b type (Some [k]) s)"
proof -
  let ?t = "slide b type (Some [k]) s"
  have f: "waiting ?t = waiting s" "slides b ?t = slides b s" "one_timer ?t"
    using one_timer_slide ok by (simp_all add: slide_def slide_to_wait) (metis carousel_ok_def one_timer_slide option.case(2) slide_def)
  from slide_to_rest [OF r k t, of b]
  consider "view ?t = view s" | "slides b s" "moves ?t a k type" | "rest ?t k"
    by (auto simp: slide_def split: if_splits)
  then show ?thesis
  proof cases
    case 1
    then show ?thesis using ok_view [OF ok 1 f(1,3)] by blast
  next
    case 2
    then show ?thesis using f by (auto simp: carousel_ok_def)
  next
    case 3
    then show ?thesis using f ok by (auto simp: carousel_ok_def)
  qed
qed

lemma slide_None:
  assumes "rest s a" "type = ''next'' \<or> type = ''prev''"
  shows "slide b type None s = slide b type (Some [step_from b type (n_items s) a]) s \<and>
    step_from b type (n_items s) a < n_items s"
  using direction_item [of s a a type b] active_rest [of s a a] assms by (simp add: slide_def rest_def)

lemma ok_slide_None:
  "carousel_ok b s \<Longrightarrow> rest s a \<Longrightarrow> type = ''next'' \<or> type = ''prev'' \<Longrightarrow> carousel_ok b (slide b type None s)"
  using slide_None ok_slide by metis

lemma ok_sliding: "carousel_ok b s \<Longrightarrow> \<not> sliding s \<Longrightarrow> \<exists>a. rest s a"
  by (auto simp: carousel_ok_def moves_def)

lemma ok_next: "carousel_ok b s \<Longrightarrow> carousel_ok b (next_slide b s)"
  unfolding next_slide_def using ok_sliding ok_slide_None by metis

lemma ok_prev: "carousel_ok b s \<Longrightarrow> carousel_ok b (prev_slide b s)"
  unfolding prev_slide_def using ok_sliding ok_slide_None by metis

lemma ok_marks: "carousel_ok b s \<Longrightarrow> \<exists>a k. marks s a k"
  by (auto simp: carousel_ok_def rest_def moves_def)

lemma ok_to:
  assumes "carousel_ok b s"
  shows "carousel_ok b (to b pos s)"
proof -
  obtain a k where "marks s a k" using ok_marks [OF assms] by blast
  then have g: "getItemIndex s (active_items s) = (int a, n_items s)"
    by (simp add: active_rest getItemIndex_def)
  consider (out) "pos > int (n_items s) - 1 \<or> pos < 0" | (wait) "0 \<le> pos" "pos < int (n_items s)" "sliding s"
    | (same) "pos = int a" "a < n_items s" "\<not> sliding s" 
    | (go) "0 \<le> pos" "pos < int (n_items s)" "\<not> sliding s" "pos \<noteq> int a"
    by linarith
  then show ?thesis
  proof cases
    case wait
    then have "slides b s" using assms by (auto simp: carousel_ok_def rest_def)
    then show ?thesis using assms wait rest_view [OF view_timers(4)] moves_view [OF view_timers(4)]
      by (simp add: to_def g carousel_ok_def)
  next
    case same
    have "carousel_ok b (cycle b False (pause b False s))"
      by (rule ok_view [OF assms]) (use assms in \<open>simp_all add: one_timer_cycle one_timer_pause carousel_ok_def\<close>)
    then show ?thesis using same by (simp add: to_def g)
  next
    case go
    obtain a' where r: "rest s a'" using ok_sliding [OF assms go(3)] by blast
    have "eq_item (n_items s) (Some pos) = [nat pos]" "nat pos < n_items s" using go by (simp_all add: eq_item_def)
    then show ?thesis using go by (simp add: to_def g) (blast intro: ok_slide [OF assms r])
  qed (use assms in \<open>auto simp: to_def g\<close>)
qed

lemma one_timer_transition: "one_timer s \<Longrightarrow> one_timer (transition_end n s)"
  unfolding transition_end_def
  by (rule foldl_keeps) (simp, metis one_timer_cong slide_done_timer)

lemma ok_transition: "carousel_ok b s \<Longrightarrow> carousel_ok b (transition_end n s)"
  unfolding carousel_ok_def
  using transition_rest transition_other slide_done_rest one_timer_transition transition_frame
  by (metis (no_types, lifting))

lemma ok_timeout: "carousel_ok b s \<Longrightarrow> carousel_ok b (slid_timeout b s)"
proof -
  assume s: "carousel_ok b s"
  let ?t = "emit ''slid.bs.carousel'' 0 (s\<lparr>slid_timers := slid_timers s - 1, waiting := []\<rparr>)"
  have v: "view ?t = view s" by (simp add: view_def emit_def)
  have "one_timer ?t" using s by (simp add: emit_def carousel_ok_def)
  then have "carousel_ok b ?t" using s rest_view [OF v] moves_view [OF v] slides_view [OF v] by (simp add: carousel_ok_def)
  then have "carousel_ok b (foldl (\<lambda>s pos. to b pos s) ?t (waiting s))"
    by (rule foldl_keeps) (rule ok_to)
  with s show ?thesis by (simp add: slid_timeout_def Let_def)
qed

inductive carousel_step :: "cbrowser \<Rightarrow> carousel \<Rightarrow> carousel \<Rightarrow> bool" for b where
  c_next: "carousel_step b s (next_slide b s)"
| c_prev: "carousel_step b s (prev_slide b s)"
| c_to: "carousel_step b s (to b pos s)"
| c_pause: "carousel_step b s (pause b e s)"
| c_cycle: "carousel_step b s (cycle b e s)"
| c_keydown: "carousel_step b s (keydown b tag which s)"
| c_enter: "carousel_step b s (mouseenter b s)"
| c_leave: "carousel_step b s (mouseleave b s)"
| c_tick: "carousel_step b s (tick b h s)"
| c_transition: "carousel_step b s (transition_end n s)"
| c_timeout: "carousel_step b s (slid_timeout b s)"

inductive carousel_reach :: "cbrowser \<Rightarrow> carousel \<Rightarrow> carousel \<Rightarrow> bool" for b s0 where
  c_start: "carousel_reach b s0 s0"
| c_more: "carousel_reach b s0 s \<Longrightarrow> carousel_step b s t \<Longrightarrow> carousel_reach b s0 t"

inductive_cases carousel_stepE: "carousel_step b s t"

lemma ok_pause: "carousel_ok b s \<Longrightarrow> carousel_ok b (pause b e s)"
  by (rule ok_view) (simp_all add: one_timer_pause carousel_ok_def)

lemma ok_cycle: "carousel_ok b s \<Longrightarrow> carousel_ok b (cycle b e s)"
  by (rule ok_view) (simp_all add: one_timer_cycle carousel_ok_def)

lemmas ok_ops = ok_next ok_prev ok_to ok_pause ok_cycle ok_transition ok_timeout

lemma ok_step: "carousel_step b s t \<Longrightarrow> carousel_ok b s \<Longrightarrow> carousel_ok b t"
  by (induction rule: carousel_step.induct)
     (simp_all add: ok_ops keydown_def mouseenter_def mouseleave_def tick_def)

lemma ok_new:
  assumes "a < n" "case inds of Some m \<Rightarrow> True | None \<Rightarrow> True"
  shows "carousel_ok b (new_carousel classes n inds a)"
proof -
  have "rest (new_carousel classes n inds a) a"
    using assms by (auto simp: rest_def marks_def new_carousel_def has_class_def)
  then show ?thesis by (auto simp: carousel_ok_def one_timer_def new_carousel_def)
qed

lemma ok_reach: "carousel_reach b (new_carousel classes n inds a) s \<Longrightarrow> a < n \<Longrightarrow> carousel_ok b s"
  by (induction rule: carousel_reach.induct) (simp_all add: ok_new ok_step split: option.split)

section \<open>The properties\<close>

text \<open>Letting the transitions under way end.\<close>

definition settle :: "carousel \<Rightarrow> carousel" where
  "settle s = foldl (\<lambda>s e. transition_end (fst e) s) s (pending s)"

lemma settle_rest: "rest s a \<Longrightarrow> settle s = s"
  by (simp add: settle_def rest_def)

lemma settle_moves: "moves s a k type \<Longrightarrow> rest (settle s) k"
proof -
  assume m: "moves s a k type"
  then have "settle s = transition_end (item a) s" by (simp add: settle_def moves_def)
  with slide_done_rest [OF m] show ?thesis by simp
qed

lemma slide_settled:
  assumes "rest s a" "k < n_items s" "type = ''next'' \<or> type = ''prev''"
    "\<not> veto b (log s @ [(''slide.bs.carousel'', 0)])"
  shows "rest (settle (slide b type (Some [k]) s)) k"
proof -
  let ?t = "slide_to b type [k] s"
  from slide_to_rest [OF assms(1-3), of b] assms(4)
  consider "view ?t = view s" "k = a" | "moves ?t a k type" | "rest ?t k" by (auto split: if_splits)
  then have "rest (settle ?t) k"
  proof cases
    case 1
    then have "rest ?t k" using rest_view [of ?t s] assms(1) by simp
    then show ?thesis by (simp add: settle_rest)
  next
    case 2
    then show ?thesis by (rule settle_moves)
  next
    case 3
    then show ?thesis by (simp add: settle_rest)
  qed
  then show ?thesis by (simp add: slide_def)
qed

text \<open>
  C4: whatever happens to a carousel, and in whatever order, exactly one of its items is active,
  at most one of its indicators is, at most one interval timer runs, and between two slides the
  active indicator is the one of the active item and no item bears a class of a slide.
\<close>

theorem carousel_one_active:
  assumes "carousel_reach b (new_carousel classes n inds a) s" "a < n"
  shows "length (active_items s) = 1 \<and> length (live s) \<le> 1 \<and>
    (has_inds s \<longrightarrow> (\<exists>k. \<forall>i < n_inds s. has_class (ind i) ''active'' s \<longleftrightarrow> i = k)) \<and>
    (\<not> sliding s \<longrightarrow>
       (has_inds s \<longrightarrow> (\<forall>i < n_inds s. has_class (ind i) ''active'' s \<longleftrightarrow> active_items s = [i])) \<and>
       (\<forall>i < n_items s. \<forall>z \<in> {''next'', ''prev'', ''left'', ''right''}. \<not> has_class (item i) z s))"
proof -
  have ok: "carousel_ok b s" by (rule ok_reach [OF assms])
  then obtain c k where m: "marks s c k" using ok_marks by blast
  have "length (live s) \<le> 1" using ok by (auto simp: carousel_ok_def one_timer_def)
  moreover have "\<exists>k. \<forall>i < n_inds s. has_class (ind i) ''active'' s \<longleftrightarrow> i = k" if "has_inds s"
    using m that by (auto simp: marks_def)
  moreover have "(has_inds s \<longrightarrow> (\<forall>i < n_inds s. has_class (ind i) ''active'' s \<longleftrightarrow> active_items s = [i])) \<and>
       (\<forall>i < n_items s. \<forall>z \<in> moving. \<not> has_class (item i) z s)" if nsl: "\<not> sliding s"
  proof -
    obtain r where r: "rest s r" using ok_sliding [OF ok nsl] by blast
    then have "active_items s = [r]" using active_rest rest_def by blast
    with r show ?thesis by (auto simp: rest_def marks_def)
  qed
  ultimately show ?thesis using active_rest [OF m] by simp
qed

definition plain_browser :: cbrowser where
  "plain_browser = \<lparr>transition = True, veto = (\<lambda>_. False), opt_interval = True, opt_wrap = True,
     opt_keyboard = True, opt_hover = True\<rparr>"

theorem carousel_one_active_witness:
  "length (active_items (to plain_browser 0 (next_slide plain_browser
     (cycle plain_browser False (new_carousel [''slide''] 3 (Some 3) 1))))) = 1"
proof -
  have "carousel_reach plain_browser (new_carousel [''slide''] 3 (Some 3) 1)
    (to plain_browser 0 (next_slide plain_browser (cycle plain_browser False (new_carousel [''slide''] 3 (Some 3) 1))))"
    by (meson c_start c_more c_cycle c_next c_to)
  from carousel_one_active [OF this] show ?thesis by simp
qed

text \<open>
  From a carousel at rest, \<open>next\<close> that no listener prevents ends with the following item
  active; after the last one comes the first one, or nothing when the carousel does not wrap.
  \<open>prev\<close> goes the other way round.
\<close>

theorem carousel_next_prev:
  assumes "rest s a" "\<not> veto b (log s @ [(''slide.bs.carousel'', 0)])"
  shows "active_items (settle (next_slide b s)) =
      [if a = n_items s - 1 then (if opt_wrap b then 0 else a) else a + 1] \<and>
    active_items (settle (prev_slide b s)) =
      [if a = 0 then (if opt_wrap b then n_items s - 1 else a) else a - 1]"
proof -
  have ns: "\<not> sliding s" using assms(1) by (simp add: rest_def)
  have "rest (settle (next_slide b s)) (step_from b ''next'' (n_items s) a)"
    "rest (settle (prev_slide b s)) (step_from b ''prev'' (n_items s) a)"
    using slide_None [OF assms(1), of "''next''" b] slide_None [OF assms(1), of "''prev''" b]
      slide_settled [OF assms(1) _ _ assms(2)] ns
    by (simp_all add: next_slide_def prev_slide_def)
  then have "active_items (settle (next_slide b s)) = [step_from b ''next'' (n_items s) a]"
    "active_items (settle (prev_slide b s)) = [step_from b ''prev'' (n_items s) a]"
    using active_rest rest_def by blast+
  then show ?thesis by (simp add: step_from_def)
qed

lemma rest_new: "a < n \<Longrightarrow> rest (new_carousel classes n inds a) a"
  by (auto simp: rest_def marks_def new_carousel_def has_class_def)

theorem carousel_next_prev_witness:
  "active_items (settle (next_slide plain_browser (new_carousel [''slide''] 3 None 2))) = [0]"
  using carousel_next_prev [of "new_carousel [''slide''] 3 None 2" 2 plain_browser] rest_new [of 2 3]
  by (simp add: plain_browser_def) (simp add: new_carousel_def)

text \<open>
  \<open>to\<close> a position inside the carousel, when it is at rest and no listener prevents the slide,
  ends with that item active; a position outside changes nothing, and while a slide is under way
  the position is kept for its end.
\<close>

theorem carousel_to:
  assumes "rest s a" "\<not> veto b (log s @ [(''slide.bs.carousel'', 0)])"
  shows "(0 \<le> pos \<and> pos < int (n_items s) \<longrightarrow> active_items (settle (to b pos s)) = [nat pos]) \<and>
    (pos < 0 \<or> int (n_items s) \<le> pos \<longrightarrow> to b pos s = s)"
proof -
  have m: "marks s a a" "\<not> sliding s" using assms(1) by (simp_all add: rest_def)
  then have g: "getItemIndex s (active_items s) = (int a, n_items s)"
    by (simp add: active_rest getItemIndex_def)
  have "active_items (settle (to b pos s)) = [nat pos]" if pos: "0 \<le> pos" "pos < int (n_items s)"
  proof (cases "pos = int a")
    case True
    have v: "view (cycle b False (pause b False s)) = view s" by simp
    have "rest (cycle b False (pause b False s)) a" using rest_view [OF v] assms(1) by simp
    then have "settle (to b pos s) = to b pos s" "rest (to b pos s) a"
      using True pos m(2) by (simp_all add: to_def g settle_rest)
    then show ?thesis using True active_rest [of "to b pos s" a a] by (simp add: rest_def)
  next
    case False
    have e: "eq_item (n_items s) (Some pos) = [nat pos]" "nat pos < n_items s"
      using pos by (simp_all add: eq_item_def)
    have "rest (settle (to b pos s)) (nat pos)"
      using slide_settled [OF assms(1) e(2) _ assms(2)] pos False m(2) by (simp add: to_def g e(1))
    then show ?thesis using active_rest rest_def by blast
  qed
  then show ?thesis by (auto simp: to_def g)
qed

theorem carousel_to_witness:
  "active_items (settle (to plain_browser 2 (new_carousel [''slide''] 3 (Some 3) 0))) = [2]"
  using carousel_to [of "new_carousel [''slide''] 3 (Some 3) 0" 0 plain_browser 2] rest_new [of 0 3]
  by (simp add: plain_browser_def) (simp add: new_carousel_def)

end
