(* ===== verification/BS_Collapse.thy ===== *)
theory BS_Collapse
  imports BS_Dom
begin

text \<open>
  The collapse plugin of \<^verbatim>\<open>docs/bootstrap.js\<close> (lines 542 to 743): panels that open and
  close, alone or as an accordion whose panels close each other.  The instances of the plugin
  are numbered: a callback that waits for the end of a transition belongs to the instance that
  started it, even when the data of the element no longer holds this instance.
\<close>

datatype collapse_end = ShowDone nat | HideDone nat

record collapse = dom +
  data :: "nat \<Rightarrow> nat option"       \<comment> \<open>the instance kept as \<open>bs.collapse\<close>\<close>
  transitioning :: "nat \<Rightarrow> bool"    \<comment> \<open>of an instance\<close>
  next_inst :: nat
  pending :: "(nat \<times> collapse_end) list"

text \<open>
  What does not change: the panels of the accordion an element belongs to (the children of the
  \<open>panel\<close> children of its parent), the triggers of an element, the targets and triggers inside
  the accordion, and the sizes the browser computes.
\<close>

record cbrowser = browser +
  group :: "nat \<Rightarrow> nat list option"
  triggers :: "nat \<Rightarrow> nat list"
  group_triggers :: "nat \<Rightarrow> (nat \<times> nat) list"
  size_of :: "nat \<Rightarrow> string \<Rightarrow> int"
  scroll_size :: "nat \<Rightarrow> string \<Rightarrow> int"

definition bool_str :: "bool \<Rightarrow> string" where
  "bool_str v = (if v then ''true'' else ''false'')"

definition mark_triggers :: "bool \<Rightarrow> nat list \<Rightarrow> 'a dom_scheme \<Rightarrow> 'a dom_scheme" where
  "mark_triggers open ts s =
     foldl (\<lambda>s t. set_attr t ''aria-expanded'' (bool_str open)
              (if open then rem_class t ''collapsed'' s else add_class t ''collapsed'' s)) s ts"

definition addAriaAndCollapsedClass :: "nat \<Rightarrow> nat list \<Rightarrow> 'a dom_scheme \<Rightarrow> 'a dom_scheme" where
  "addAriaAndCollapsedClass e ts s =
     (let isOpen = has_class e ''in'' s
      in mark_triggers isOpen ts (set_attr e ''aria-expanded'' (bool_str isOpen) s))"

definition getParent :: "cbrowser \<Rightarrow> nat \<Rightarrow> 'a dom_scheme \<Rightarrow> 'a dom_scheme" where
  "getParent b e s = foldl (\<lambda>s (target, t). addAriaAndCollapsedClass target [t] s) s (group_triggers b e)"

definition dimension :: "nat \<Rightarrow> 'a dom_scheme \<Rightarrow> string" where
  "dimension e s = (if has_class e ''width'' s then ''width'' else ''height'')"

section \<open>Hiding\<close>

definition hide_done :: "nat \<Rightarrow> nat \<Rightarrow> collapse \<Rightarrow> collapse" where
  "hide_done i e s =
     emit ''hidden.bs.collapse'' e (add_class e ''collapse'' (rem_class e ''collapsing''
       (s\<lparr>transitioning := (transitioning s)(i := False)\<rparr>)))"

text \<open>Lines 635 to 648: the classes and attributes of a panel that starts to close.\<close>

definition start_hide :: "cbrowser \<Rightarrow> nat \<Rightarrow> nat \<Rightarrow> collapse \<Rightarrow> collapse" where
  "start_hide b i e s =
     (let d = dimension e s;
          s1 = set_style e d (px (size_of b e d)) s;
          s2 = rem_class e ''in'' (rem_class e ''collapse'' (add_class e ''collapsing'' s1));
          s3 = mark_triggers False (triggers b e) (set_attr e ''aria-expanded'' ''false'' s2)
      in s3\<lparr>transitioning := (transitioning s3)(i := True)\<rparr>)"

definition hide_panel :: "cbrowser \<Rightarrow> nat \<Rightarrow> nat \<Rightarrow> collapse \<Rightarrow> collapse" where
  "hide_panel b i e s =
     (if transitioning s i \<or> \<not> has_class e ''in'' s then s
      else case trigger b ''hide.bs.collapse'' e s of (s1, prevented) \<Rightarrow>
        if prevented then s1
        else let s2 = start_hide b i e s1
             in if \<not> transition b then hide_done i e s2
                else let s3 = set_style e (dimension e s2) ''0px'' s2
                     in s3\<lparr>pending := pending s3 @ [(e, HideDone i)]\<rparr>)"

section \<open>Instances\<close>

text \<open>A new instance, before it toggles (line 561).\<close>

definition new_inst :: "cbrowser \<Rightarrow> nat \<Rightarrow> collapse \<Rightarrow> collapse" where
  "new_inst b e s =
     (let s1 = s\<lparr>transitioning := (transitioning s)(next_inst s := False), next_inst := next_inst s + 1\<rparr>
      in if group b e \<noteq> None then getParent b e s1 else addAriaAndCollapsedClass e (triggers b e) s1)"

text \<open>The call \<open>Plugin.call(..., 'hide')\<close> on one element: its instance, or a new one that does not toggle.\<close>

definition plugin_hide :: "cbrowser \<Rightarrow> collapse \<Rightarrow> nat \<Rightarrow> collapse" where
  "plugin_hide b s e =
     (case data s e of
        Some i \<Rightarrow> hide_panel b i e s
      | None \<Rightarrow> (let i = next_inst s; s1 = new_inst b e s
                in hide_panel b i e (s1\<lparr>data := (data s1)(e := Some i)\<rparr>)))"

section \<open>Showing\<close>

definition show_done :: "nat \<Rightarrow> nat \<Rightarrow> collapse \<Rightarrow> collapse" where
  "show_done i e s =
     (let s1 = add_class e ''in'' (add_class e ''collapse'' (rem_class e ''collapsing'' s));
          s2 = set_style e (dimension e s) '''' s1
      in emit ''shown.bs.collapse'' e (s2\<lparr>transitioning := (transitioning s2)(i := False)\<rparr>))"

definition actives :: "cbrowser \<Rightarrow> nat \<Rightarrow> collapse \<Rightarrow> nat list" where
  "actives b e s =
     (case group b e of
        None \<Rightarrow> []
      | Some es \<Rightarrow> filter (\<lambda>x. has_class x ''in'' s \<or> has_class x ''collapsing'' s) es)"

text \<open>Lines 592 to 608: the others close, and the panel starts to open.\<close>

definition close_others :: "cbrowser \<Rightarrow> nat list \<Rightarrow> nat option \<Rightarrow> collapse \<Rightarrow> collapse" where
  "close_others b as activesData s =
     (let s1 = foldl (plugin_hide b) s as
      in if activesData = None then s1\<lparr>data := (\<lambda>x. if x \<in> set as then None else data s1 x)\<rparr> else s1)"

definition start_show :: "cbrowser \<Rightarrow> nat \<Rightarrow> nat \<Rightarrow> collapse \<Rightarrow> collapse" where
  "start_show b i e s =
     (let d = dimension e s;
          s1 = set_style e d ''0px'' (add_class e ''collapsing'' (rem_class e ''collapse'' s));
          s2 = mark_triggers True (triggers b e) (set_attr e ''aria-expanded'' ''true'' s1)
      in s2\<lparr>transitioning := (transitioning s2)(i := True)\<rparr>)"

definition show_panel :: "cbrowser \<Rightarrow> nat \<Rightarrow> nat \<Rightarrow> collapse \<Rightarrow> collapse" where
  "show_panel b i e s =
     (if transitioning s i \<or> has_class e ''in'' s then s
      else let as = actives b e s;
               activesData = (case as of a # _ \<Rightarrow> data s a | [] \<Rightarrow> None)
           in if (case activesData of Some j \<Rightarrow> transitioning s j | None \<Rightarrow> False) then s
              else case trigger b ''show.bs.collapse'' e s of (s1, prevented) \<Rightarrow>
                if prevented then s1
                else let s2 = (if as \<noteq> [] then close_others b as activesData s1 else s1);
                         s3 = start_show b i e s2
                     in if \<not> transition b then show_done i e s3
                        else let s4 = set_style e (dimension e s2) (px (scroll_size b e (dimension e s2))) s3
                             in s4\<lparr>pending := pending s4 @ [(e, ShowDone i)]\<rparr>)"

definition toggle_panel :: "cbrowser \<Rightarrow> nat \<Rightarrow> nat \<Rightarrow> collapse \<Rightarrow> collapse" where
  "toggle_panel b i e s = (if has_class e ''in'' s then hide_panel b i e s else show_panel b i e s)"

section \<open>The plugin and its events\<close>

text \<open>The constructor with the option \<open>toggle\<close>; the data is set after it has run.\<close>

definition construct :: "cbrowser \<Rightarrow> nat \<Rightarrow> bool \<Rightarrow> collapse \<Rightarrow> collapse" where
  "construct b e tog s =
     (let i = next_inst s; s1 = new_inst b e s; s2 = (if tog then toggle_panel b i e s1 else s1)
      in s2\<lparr>data := (data s2)(e := Some i)\<rparr>)"

datatype collapse_call = CShow | CHide | CToggle | COptions bool  \<comment> \<open>the option \<open>toggle\<close>\<close>

definition call_panel :: "cbrowser \<Rightarrow> nat \<Rightarrow> nat \<Rightarrow> collapse_call \<Rightarrow> collapse \<Rightarrow> collapse" where
  "call_panel b i e c s =
     (case c of CShow \<Rightarrow> show_panel b i e s | CHide \<Rightarrow> hide_panel b i e s
      | CToggle \<Rightarrow> toggle_panel b i e s | COptions _ \<Rightarrow> s)"

text \<open>
  The default of \<open>toggle\<close> is true; the regular expression \<open>/show|hide/\<close> is tested on the method
  name (and an options object does not match it).
\<close>

definition collapse_plugin :: "cbrowser \<Rightarrow> nat \<Rightarrow> collapse_call \<Rightarrow> collapse \<Rightarrow> collapse" where
  "collapse_plugin b e c s =
     (case data s e of
        Some i \<Rightarrow> call_panel b i e c s
      | None \<Rightarrow>
          (let tog = (case c of COptions t \<Rightarrow> t | CToggle \<Rightarrow> True | _ \<Rightarrow> False)
           in call_panel b (next_inst s) e c (construct b e tog s)))"

text \<open>The click on a trigger, whose data attributes have the option \<open>toggle\<close> as given.\<close>

definition collapse_click :: "cbrowser \<Rightarrow> nat \<Rightarrow> bool \<Rightarrow> collapse \<Rightarrow> collapse" where
  "collapse_click b e tog s =
     collapse_plugin b e (if data s e \<noteq> None then CToggle else COptions tog) s"

definition run_end :: "nat \<Rightarrow> collapse \<Rightarrow> collapse_end \<Rightarrow> collapse" where
  "run_end e s k = (case k of ShowDone i \<Rightarrow> show_done i e s | HideDone i \<Rightarrow> hide_done i e s)"

definition transition_end :: "nat \<Rightarrow> collapse \<Rightarrow> collapse" where
  "transition_end e s =
     foldl (run_end e) (s\<lparr>pending := filter (\<lambda>(m, k). m \<noteq> e) (pending s)\<rparr>)
       (map snd (filter (\<lambda>(m, k). m = e) (pending s)))"

section \<open>Frames\<close>

lemma mark_triggers_frame [simp]:
  "z \<noteq> ''collapsed'' \<Longrightarrow> has_class n z (mark_triggers v ts s) = has_class n z s"
proof (induction ts arbitrary: s)
  case (Cons t ts)
  then show ?case by (simp add: mark_triggers_def) (auto simp: bs_ops)
qed (simp add: mark_triggers_def)

lemma mark_triggers_fields [simp]:
  "data (mark_triggers v ts s) = data s" "transitioning (mark_triggers v ts s) = transitioning s"
  "pending (mark_triggers v ts s) = pending s" "log (mark_triggers v ts s) = log s"
  by (induction ts arbitrary: s; simp add: mark_triggers_def; simp add: bs_ops)+

lemma page_fields [simp]:
  "data (add_class n z s) = data s" "transitioning (add_class n z s) = transitioning s" "pending (add_class n z s) = pending s"
  "data (rem_class n z s) = data s" "transitioning (rem_class n z s) = transitioning s" "pending (rem_class n z s) = pending s"
  "data (set_attr n k v s) = data s" "transitioning (set_attr n k v s) = transitioning s" "pending (set_attr n k v s) = pending s"
  "data (set_style n k v s) = data s" "transitioning (set_style n k v s) = transitioning s" "pending (set_style n k v s) = pending s"
  "data (emit ev n s) = data s" "transitioning (emit ev n s) = transitioning s" "pending (emit ev n s) = pending s"
  by (simp_all add: bs_ops)

lemma page_classes [simp]:
  "has_class m y (add_class n z s) \<longleftrightarrow> has_class m y s \<or> m = n \<and> y = z"
  "has_class m y (rem_class n z s) \<longleftrightarrow> has_class m y s \<and> \<not> (m = n \<and> y = z)"
  "has_class m y (set_attr n k v s) = has_class m y s" "has_class m y (set_style n k v s) = has_class m y s"
  "has_class m y (emit ev n s) = has_class m y s"
  by (auto simp: bs_ops)

lemma inst_classes [simp]:
  "has_class m y (s\<lparr>transitioning := t\<rparr>) = has_class m y s" "has_class m y (s\<lparr>pending := p\<rparr>) = has_class m y s"
  "has_class m y (s\<lparr>log := l\<rparr>) = has_class m y s" "has_class m y (s\<lparr>data := d\<rparr>) = has_class m y s"
  by (simp_all add: has_class_def)

section \<open>The state of a panel\<close>

datatype panel = Closed | Opening | Open | Closing

definition waits :: "nat \<Rightarrow> nat \<Rightarrow> panel \<Rightarrow> (nat \<times> collapse_end) list" where
  "waits i e p = (case p of Opening \<Rightarrow> [(e, ShowDone i)] | Closing \<Rightarrow> [(e, HideDone i)] | _ \<Rightarrow> [])"

text \<open>The panels \<open>es\<close>, each with its instance \<open>inst e\<close>, are in the states \<open>st\<close>.\<close>

definition shape :: "nat list \<Rightarrow> (nat \<Rightarrow> nat) \<Rightarrow> collapse \<Rightarrow> (nat \<Rightarrow> panel) \<Rightarrow> bool" where
  "shape es inst s st \<longleftrightarrow> (\<forall>e \<in> set es.
     data s e = Some (inst e) \<and> (has_class e ''in'' s \<longleftrightarrow> st e = Open) \<and>
     (has_class e ''collapsing'' s \<longleftrightarrow> st e = Opening \<or> st e = Closing) \<and>
     (transitioning s (inst e) \<longleftrightarrow> st e = Opening \<or> st e = Closing) \<and>
     filter (\<lambda>(m, k). m = e) (pending s) = waits (inst e) e (st e))"

definition after_hide :: "cbrowser \<Rightarrow> panel \<Rightarrow> panel" where
  "after_hide b p = (if p = Open then if transition b then Closing else Closed else p)"

lemma shape_hide:
  assumes s: "shape es inst s st" and e: "e \<in> set es" and inj: "inj_on inst (set es)"
    and nv: "\<And>h x. \<not> veto b (h @ [(''hide.bs.collapse'', x)])"
  shows "shape es inst (hide_panel b (inst e) e s) (st(e := after_hide b (st e)))"
proof (cases "st e = Open")
  case False
  have "transitioning s (inst e) \<or> \<not> has_class e ''in'' s"
    using s e False by (auto simp: shape_def)
  with False s show ?thesis by (simp add: hide_panel_def after_hide_def)
next
  case True
  have h: "\<not> transitioning s (inst e)" "has_class e ''in'' s" using s e True by (auto simp: shape_def)
  have i: "inst x = inst e \<longleftrightarrow> x = e" if "x \<in> set es" for x using inj that e by (auto dest: inj_onD)
  show ?thesis
    using s h True nv unfolding shape_def
    by (auto simp: hide_panel_def trigger_def start_hide_def hide_done_def Let_def after_hide_def waits_def i)
qed

lemma shape_hides:
  assumes "shape es inst s st" "set as \<subseteq> set es" "inj_on inst (set es)"
    and nv: "\<And>h x. \<not> veto b (h @ [(''hide.bs.collapse'', x)])"
  shows "shape es inst (foldl (plugin_hide b) s as) (\<lambda>x. if x \<in> set as then after_hide b (st x) else st x)"
  using assms(1,2)
proof (induction as arbitrary: s st)
  case (Cons a as)
  have p: "plugin_hide b s a = hide_panel b (inst a) a s"
    using Cons.prems by (simp add: plugin_hide_def shape_def)
  have h: "shape es inst (hide_panel b (inst a) a s) (st(a := after_hide b (st a)))"
    using Cons.prems by (intro shape_hide assms(3) nv) auto
  have "shape es inst (foldl (plugin_hide b) s (a # as))
      (\<lambda>x. if x \<in> set as then after_hide b ((st(a := after_hide b (st a))) x) else (st(a := after_hide b (st a))) x)"
    using Cons.IH [OF h] Cons.prems(2) p by simp
  moreover have "(\<lambda>x. if x \<in> set as then after_hide b ((st(a := after_hide b (st a))) x) else (st(a := after_hide b (st a))) x)
    = (\<lambda>x. if x \<in> set (a # as) then after_hide b (st x) else st x)"
    by (auto simp: fun_eq_iff after_hide_def)
  ultimately show ?case by simp
qed simp

text \<open>At most one panel of the accordion is open or opening.\<close>

definition exclusive :: "nat list \<Rightarrow> (nat \<Rightarrow> panel) \<Rightarrow> bool" where
  "exclusive es st \<longleftrightarrow> (\<forall>x \<in> set es. \<forall>y \<in> set es.
     (st x = Open \<or> st x = Opening) \<and> (st y = Open \<or> st y = Opening) \<longrightarrow> x = y)"

lemma shape_opens:
  assumes s: "shape es inst s st" and e: "e \<in> set es" "st e = Closed" and inj: "inj_on inst (set es)"
  shows "shape es inst (if \<not> transition b then show_done (inst e) e (start_show b (inst e) e s)
      else (set_style e d v (start_show b (inst e) e s))
        \<lparr>pending := pending (set_style e d v (start_show b (inst e) e s)) @ [(e, ShowDone (inst e))]\<rparr>)
    (st(e := (if transition b then Opening else Open)))"
proof -
  have i: "inst x = inst e \<longleftrightarrow> x = e" if "x \<in> set es" for x using inj that e by (auto dest: inj_onD)
  show ?thesis
    using s e(2) unfolding shape_def
    by (auto simp: start_show_def show_done_def Let_def waits_def i)
qed


lemma shape_log: "shape es inst (s\<lparr>log := l\<rparr>) st = shape es inst s st"
  by (simp add: shape_def)

lemma actives_shape:
  assumes "shape es inst s st" "group b e = Some es"
  shows "actives b e s = filter (\<lambda>x. st x \<noteq> Closed) es"
  unfolding actives_def assms(2) option.case
proof (rule filter_cong [OF refl])
  fix x assume "x \<in> set es"
  then show "(has_class x ''in'' s \<or> has_class x ''collapsing'' s) = (st x \<noteq> Closed)"
    using assms(1) by (cases "st x") (auto simp: shape_def)
qed

lemma shape_show:
  assumes s: "shape es inst s st" and ex: "exclusive es st" and e: "e \<in> set es" and inj: "inj_on inst (set es)"
    and g: "group b e = Some es"
    and nv: "\<And>h x. \<not> veto b (h @ [(''hide.bs.collapse'', x)])"
  shows "\<exists>st'. shape es inst (show_panel b (inst e) e s) st' \<and> exclusive es st'"
proof (cases "show_panel b (inst e) e s = s \<or> show_panel b (inst e) e s = s\<lparr>log := log s @ [(''show.bs.collapse'', e)]\<rparr>")
  case True
  then show ?thesis using s ex shape_log by metis
next
  case False
  define as where "as = actives b e s"
  define ad where "ad = (case as of a # _ \<Rightarrow> data s a | [] \<Rightarrow> None)"
  define s1 where "s1 = s\<lparr>log := log s @ [(''show.bs.collapse'', e)]\<rparr>"
  define s2 where "s2 = (if as \<noteq> [] then close_others b as ad s1 else s1)"
  have as: "as = filter (\<lambda>x. st x \<noteq> Closed) es" using actives_shape [OF s g] by (simp add: as_def)
  have go: "\<not> transitioning s (inst e)" "\<not> has_class e ''in'' s" "\<not> veto b (log s @ [(''show.bs.collapse'', e)])"
    "\<not> (case ad of Some j \<Rightarrow> transitioning s j | None \<Rightarrow> False)"
    using False by (auto simp: show_panel_def trigger_def Let_def as_def [symmetric] ad_def [symmetric] split: if_splits)
  have ce: "st e = Closed" using go(1,2) s e by (cases "st e") (auto simp: shape_def)
  define st2 where "st2 = (\<lambda>x. if x \<in> set as then after_hide b (st x) else st x)"
  have s2: "shape es inst s2 st2" and no: "\<And>x. x \<in> set es \<Longrightarrow> st2 x = Closed \<or> st2 x = Closing"
  proof -
    show "shape es inst s2 st2"
    proof (cases as)
      case Nil
      then show ?thesis using s by (simp add: s2_def st2_def s1_def shape_log)
    next
      case (Cons a r)
      then have a: "a \<in> set es" using as by (metis filter_is_subset list.set_intros(1) subsetD)
      then have "ad = Some (inst a)" using s Cons by (simp add: ad_def shape_def)
      moreover have "shape es inst (foldl (plugin_hide b) s1 as) st2"
        unfolding st2_def using s as by (intro shape_hides inj nv) (auto simp: s1_def shape_log)
      ultimately show ?thesis using Cons by (simp add: s2_def close_others_def Let_def)
    qed
    fix x assume x: "x \<in> set es"
    show "st2 x = Closed \<or> st2 x = Closing"
    proof (cases "st x = Opening")
      case True
      then have xas: "x \<in> set as" using x as by simp
      then obtain a r where ar: "as = a # r" by (cases as) auto
      then have "a \<in> set (filter (\<lambda>x. st x \<noteq> Closed) es)" using as by (metis list.set_intros(1))
      then have a: "a \<in> set es" "st a \<noteq> Closed" by simp_all
      then have "\<not> transitioning s (inst a)" using go(4) ar s by (simp add: ad_def shape_def)
      then have "st a = Open" using a s by (cases "st a") (auto simp: shape_def)
      then have "x = a" using ex x a(1) True by (auto simp: exclusive_def)
      then show ?thesis using True \<open>st a = Open\<close> by simp
    next
      case False
      then show ?thesis using x as by (cases "st x") (auto simp: st2_def after_hide_def)
    qed
  qed
  have e2: "st2 e = Closed" using ce as by (simp add: st2_def)
  let ?st = "st2(e := (if transition b then Opening else Open))"
  have "show_panel b (inst e) e s = (if \<not> transition b then show_done (inst e) e (start_show b (inst e) e s2)
      else (set_style e (dimension e s2) (px (scroll_size b e (dimension e s2))) (start_show b (inst e) e s2))
        \<lparr>pending := pending (set_style e (dimension e s2) (px (scroll_size b e (dimension e s2))) (start_show b (inst e) e s2)) @ [(e, ShowDone (inst e))]\<rparr>)"
    using go by (cases "as = []")
      (simp_all add: show_panel_def trigger_def Let_def as_def [symmetric] ad_def [symmetric] s1_def [symmetric] s2_def)
  then have "shape es inst (show_panel b (inst e) e s) ?st"
    using shape_opens [OF s2 e e2 inj, of b] by simp
  moreover have "exclusive es ?st" using no by (force simp: exclusive_def)
  ultimately show ?thesis by blast
qed

lemma shape_end:
  assumes s: "shape es inst s st" and ex: "exclusive es st" and inj: "inj_on inst (set es)"
  and out: "x \<notin> set es \<Longrightarrow> \<forall>k. (x, k) \<notin> set (pending s)"
  shows "\<exists>st'. shape es inst (transition_end x s) st' \<and> exclusive es st'"
proof (cases "x \<in> set es")
  case False
  then have "filter (\<lambda>(m, k). m = x) (pending s) = []" "filter (\<lambda>(m, k). m \<noteq> x) (pending s) = pending s"
    using out by (auto simp: filter_empty_conv filter_id_conv)
  then have "transition_end x s = s" by (simp add: transition_end_def)
  then show ?thesis using s ex by auto
next
  case True
  have w: "filter (\<lambda>(m, k). m = x) (pending s) = waits (inst x) x (st x)" using s True by (simp add: shape_def)
  let ?s = "s\<lparr>pending := filter (\<lambda>(m, k). m \<noteq> x) (pending s)\<rparr>"
  have i: "inst y = inst x \<longleftrightarrow> y = x" if "y \<in> set es" for y using inj that True by (auto dest: inj_onD)
  have f: "filter (\<lambda>(m, k). m = y) (filter (\<lambda>(m, k). m \<noteq> x) (pending s)) = (if y = x then [] else filter (\<lambda>(m, k). m = y) (pending s))" for y
    by (auto intro: filter_cong simp: filter_empty_conv)
  let ?st = "st(x := (case st x of Opening \<Rightarrow> Open | Closing \<Rightarrow> Closed | p \<Rightarrow> p))"
  have "shape es inst (transition_end x s) ?st"
    using s unfolding transition_end_def w
    by (cases "st x") (auto simp: shape_def waits_def run_end_def show_done_def hide_done_def Let_def f [unfolded filter_filter] i)
  moreover have "exclusive es ?st" using ex by (cases "st x") (auto simp: exclusive_def)
  ultimately show ?thesis by blast
qed

section \<open>The properties\<close>

text \<open>What users and transitions do to the panels of an accordion.\<close>

inductive accordion_step :: "cbrowser \<Rightarrow> nat list \<Rightarrow> collapse \<Rightarrow> collapse \<Rightarrow> bool" for b es where
  acc_call: "e \<in> set es \<Longrightarrow> accordion_step b es s (collapse_plugin b e c s)"
| acc_click: "e \<in> set es \<Longrightarrow> accordion_step b es s (collapse_click b e t s)"
| acc_end: "e \<in> set es \<Longrightarrow> accordion_step b es s (transition_end e s)"

inductive_cases accordion_stepE: "accordion_step b es s t"

inductive accordion_reach :: "cbrowser \<Rightarrow> nat list \<Rightarrow> collapse \<Rightarrow> collapse \<Rightarrow> bool" for b es s0 where
  acc_start: "accordion_reach b es s0 s0"
| acc_more: "accordion_reach b es s0 s \<Longrightarrow> accordion_step b es s t \<Longrightarrow> accordion_reach b es s0 t"

lemma after_hide_exclusive: "exclusive es st \<Longrightarrow> exclusive es (st(e := after_hide b (st e)))"
  by (auto simp: exclusive_def after_hide_def split: if_splits)

lemma accordion_call:
  assumes "shape es inst s st" "exclusive es st" "e \<in> set es" "inj_on inst (set es)" "group b e = Some es"
    and nv: "\<And>h x. \<not> veto b (h @ [(''hide.bs.collapse'', x)])"
  shows "\<exists>st'. shape es inst (collapse_plugin b e c s) st' \<and> exclusive es st'"
proof -
  have d: "data s e = Some (inst e)" using assms(1,3) by (simp add: shape_def)
  have h: "\<exists>st'. shape es inst (hide_panel b (inst e) e s) st' \<and> exclusive es st'"
    using shape_hide [OF assms(1,3,4) nv] after_hide_exclusive [OF assms(2)] by blast
  have sh: "\<exists>st'. shape es inst (show_panel b (inst e) e s) st' \<and> exclusive es st'"
    by (rule shape_show [OF assms(1-5) nv])
  show ?thesis using h sh assms(1,2) d
    by (cases c) (auto simp: collapse_plugin_def call_panel_def toggle_panel_def)
qed

lemma accordion_reach_shape:
  assumes "accordion_reach b es s0 s" "shape es inst s0 st0" "exclusive es st0" "inj_on inst (set es)"
    "\<forall>e \<in> set es. group b e = Some es" and nv: "\<And>h x. \<not> veto b (h @ [(''hide.bs.collapse'', x)])"
  shows "\<exists>st. shape es inst s st \<and> exclusive es st"
  using assms(1)
proof induction
  case acc_start
  then show ?case using assms(2,3) by blast
next
  case (acc_more s t)
  then obtain st where st: "shape es inst s st" "exclusive es st" by blast
  from acc_more(2) show ?case
  proof (cases rule: accordion_step.cases)
    case (acc_call e c)
    then show ?thesis using accordion_call [OF st _ assms(4) _ nv] assms(5) by blast
  next
    case (acc_click e tog)
    then show ?thesis using accordion_call [OF st _ assms(4) _ nv] assms(5) unfolding collapse_click_def by blast
  next
    case (acc_end e)
    then show ?thesis using shape_end [OF st assms(4)] by blast
  qed
qed

text \<open>
  C5: in an accordion whose panels all have their instance, with at most one of them open at
  first, and whose page prevents no panel from closing, at most one panel is open whatever
  calls, clicks and ends of transitions follow.
\<close>

theorem accordion_exclusive:
  assumes "accordion_reach b es s0 s" "distinct es" "\<forall>e \<in> set es. group b e = Some es"
    "\<forall>e \<in> set es. data s0 e = Some (inst e) \<and> \<not> transitioning s0 (inst e) \<and>
       \<not> has_class e ''collapsing'' s0 \<and> (\<forall>k. (e, k) \<notin> set (pending s0))"
    "inj_on inst (set es)" "length (filter (\<lambda>e. has_class e ''in'' s0) es) \<le> 1"
    "\<And>h x. \<not> veto b (h @ [(''hide.bs.collapse'', x)])"
  shows "length (filter (\<lambda>e. has_class e ''in'' s) es) \<le> 1"
proof -
  have one: "length (filter P es) \<le> 1 \<longleftrightarrow> (\<forall>x \<in> set es. \<forall>y \<in> set es. P x \<and> P y \<longrightarrow> x = y)" for P
    using assms(2) by (induction es) (auto simp: filter_empty_conv le_Suc_eq)
  let ?st = "\<lambda>e. if has_class e ''in'' s0 then Open else Closed"
  have "shape es inst s0 ?st"
    using assms(4) by (auto simp: shape_def waits_def filter_empty_conv)
  moreover have "exclusive es ?st" using assms(6) unfolding one by (simp add: exclusive_def)
  ultimately obtain st where "shape es inst s st" "exclusive es st"
    using accordion_reach_shape [OF assms(1) _ _ assms(5,3,7)] by blast
  then show ?thesis unfolding one by (auto simp: shape_def exclusive_def)
qed

definition page_of :: "nat list \<Rightarrow> (nat \<Rightarrow> nat option) \<Rightarrow> collapse" where
  "page_of open dat =
     \<lparr>cls = (\<lambda>n. if n \<in> set open then [''collapse'', ''in''] else [''collapse'']), attr = (\<lambda>_. []),
      style = (\<lambda>_. []), log = [], data = dat, transitioning = (\<lambda>_. False), next_inst = 10, pending = []\<rparr>"

definition three :: cbrowser where
  "three = \<lparr>transition = True, veto = (\<lambda>_. False), group = (\<lambda>_. Some [1, 2, 3]), triggers = (\<lambda>e. [e + 10]),
     group_triggers = (\<lambda>_. [(1, 11), (2, 12), (3, 13)]), size_of = (\<lambda>_ _. 80), scroll_size = (\<lambda>_ _. 80)\<rparr>"

theorem accordion_exclusive_witness:
  "length (filter (\<lambda>e. has_class e ''in'' (transition_end 3 (collapse_click three 3 True (page_of [1] Some)))) [1, 2, 3]) \<le> 1"
proof (rule accordion_exclusive [where b = three and ?s0.0 = "page_of [1] Some" and inst = id])
  show "accordion_reach three [1, 2, 3] (page_of [1] Some)
      (transition_end 3 (collapse_click three 3 True (page_of [1] Some)))"
    by (rule acc_more [OF acc_more [OF acc_start acc_click] acc_end]) simp_all
qed (simp_all add: three_def page_of_def has_class_def)

lemma next_frame [simp]:
  "next_inst (add_class n z s) = next_inst s" "next_inst (rem_class n z s) = next_inst s"
  "next_inst (set_attr n k v s) = next_inst s" "next_inst (set_style n k v s) = next_inst s"
  "next_inst (emit ev n s) = next_inst s" "next_inst (mark_triggers open ts s) = next_inst s"
  "log (add_class n z s) = log s" "log (rem_class n z s) = log s"
  "log (set_attr n k v s) = log s" "log (set_style n k v s) = log s" "log (emit ev n s) = log s @ [(ev, n)]"
  by (simp_all add: bs_ops) (induction ts arbitrary: s; simp add: mark_triggers_def; simp add: bs_ops)

lemma aria_frame [simp]:
  "data (addAriaAndCollapsedClass e ts s) = data s" "pending (addAriaAndCollapsedClass e ts s) = pending s"
  "transitioning (addAriaAndCollapsedClass e ts s) = transitioning s"
  "next_inst (addAriaAndCollapsedClass e ts s) = next_inst s" "log (addAriaAndCollapsedClass e ts s) = log s"
  "z \<noteq> ''collapsed'' \<Longrightarrow> has_class n z (addAriaAndCollapsedClass e ts s) = has_class n z s"
  by (simp_all add: addAriaAndCollapsedClass_def Let_def)

lemma getParent_frame [simp]:
  "data (getParent b e (s :: collapse)) = data s" "pending (getParent b e s) = pending s"
  "transitioning (getParent b e s) = transitioning s"
  "next_inst (getParent b e s) = next_inst s" "log (getParent b e s) = log s"
  "z \<noteq> ''collapsed'' \<Longrightarrow> has_class n z (getParent b e s) = has_class n z s"
proof -
  define P where "P = (\<lambda>t :: collapse. data t = data s \<and> pending t = pending s \<and> transitioning t = transitioning s \<and>
    next_inst t = next_inst s \<and> log t = log s \<and> (\<forall>n z. z \<noteq> ''collapsed'' \<longrightarrow> has_class n z t = has_class n z s))"
  have "P (getParent b e s)"
    unfolding getParent_def
  proof (rule foldl_keeps)
    show "P s" by (simp add: P_def)
    show "P ((\<lambda>s (target, t). addAriaAndCollapsedClass target [t] s) u x)" if "P u" for u x
      using that by (cases x) (simp add: P_def)
  qed
  then show "data (getParent b e s) = data s" "pending (getParent b e s) = pending s"
    "transitioning (getParent b e s) = transitioning s"
    "next_inst (getParent b e s) = next_inst s" "log (getParent b e s) = log s"
    "z \<noteq> ''collapsed'' \<Longrightarrow> has_class n z (getParent b e s) = has_class n z s"
    by (simp_all add: P_def)
qed

lemma new_inst_frame [simp]:
  "data (new_inst b e s) = data s" "pending (new_inst b e s) = pending s"
  "transitioning (new_inst b e s) = (transitioning s)(next_inst s := False)"
  "next_inst (new_inst b e s) = next_inst s + 1" "log (new_inst b e s) = log s"
  "z \<noteq> ''collapsed'' \<Longrightarrow> has_class n z (new_inst b e s) = has_class n z s"
  by (auto simp add: new_inst_def Let_def has_class_def[of _ _ "_ \<lparr>transitioning := _, next_inst := _\<rparr>"]) (simp_all add: has_class_def)

lemmas panel_ops = collapse_click_def collapse_plugin_def construct_def call_panel_def toggle_panel_def
  show_panel_def actives_def close_others_def plugin_hide_def hide_panel_def start_hide_def start_show_def
  trigger_def Let_def

lemma page_facts [simp]:
  "has_class n z (page_of open dat) \<longleftrightarrow> z = ''collapse'' \<or> n \<in> set open \<and> z = ''in''"
  "data (page_of open dat) = dat" "pending (page_of open dat) = []" "transitioning (page_of open dat) = (\<lambda>_. False)"
  "next_inst (page_of open dat) = 10" "log (page_of open dat) = []"
  by (auto simp: page_of_def has_class_def)


text \<open>
  With a panel that is open without an instance, as the markup of a page has it at first, two
  clicks within one transition open two panels of the accordion: \<open>show\<close> makes instances for the
  panels to hide and drops them again, so it does not see that they are still moving.
\<close>

theorem accordion_two_open:
  "let s = foldl (\<lambda>s e. transition_end e s)
        (collapse_click three 3 True (collapse_click three 2 True (page_of [1] (\<lambda>_. None)))) [1, 2, 3]
   in filter (\<lambda>e. has_class e ''in'' s) [1, 2, 3] = [2, 3] \<and> pending s = []"
proof -
  define s1 where "s1 = collapse_click three 2 True (page_of [1] (\<lambda>_. None))"
  have s1: "pending s1 = [(1, HideDone 11), (2, ShowDone 10)]" "data s1 1 = None" "data s1 2 = Some 10" "data s1 3 = None"
    "transitioning s1 10" "transitioning s1 11" "next_inst s1 = 12" 
    "has_class e ''in'' s1 \<longleftrightarrow> False" "has_class e ''collapsing'' s1 \<longleftrightarrow> e = 1 \<or> e = 2" for e
    by (auto simp: s1_def panel_ops three_def) 
  define s2 where "s2 = collapse_click three 3 True s1"
  have s2: "pending s2 = [(1, HideDone 11), (2, ShowDone 10), (3, ShowDone 12)]" 
    "has_class e ''in'' s2 \<longleftrightarrow> False" for e
    using s1 by (auto simp: s2_def panel_ops three_def) 
  show ?thesis
    using s2 unfolding s1_def [symmetric] s2_def [symmetric]
    by (simp add: transition_end_def run_end_def show_done_def hide_done_def Let_def)
qed

text \<open>
  On a browser without transitions, the method \<open>toggle\<close> on an element without an instance
  opens it and closes it again: the constructor toggles, and then the method does.
\<close>

theorem first_toggle_twice:
  "let b = three\<lparr>transition := False\<rparr>; s = collapse_plugin b 2 CToggle (page_of [] (\<lambda>_. None))
   in \<not> has_class 2 ''in'' s \<and>
      log s = [(''show.bs.collapse'', 2), (''shown.bs.collapse'', 2), (''hide.bs.collapse'', 2), (''hidden.bs.collapse'', 2)]"
  by (simp add: panel_ops three_def show_done_def hide_done_def)

end
