(* ===== verification/BS_Dropdown.thy ===== *)
theory BS_Dropdown
  imports BS_Dom
begin

text \<open>
  The dropdown plugin of \<^verbatim>\<open>docs/bootstrap.js\<close> (lines 754 to 909): the toggles of a page in
  document order, the menus (the parents) they open, and the events of the document that close
  them.
\<close>

record dropdown = dom +
  backdrops :: nat

record dbrowser = browser +
  toggles :: "nat list"
  select :: "string \<Rightarrow> nat list"
  parent :: "nat \<Rightarrow> nat"
  touch :: bool                     \<comment> \<open>\<open>'ontouchstart' in document.documentElement\<close>\<close>
  in_navbar :: "nat \<Rightarrow> bool"
  disabled :: "nat \<Rightarrow> bool"          \<comment> \<open>\<open>:disabled\<close>\<close>
  contains :: "nat \<Rightarrow> nat \<Rightarrow> bool"
  menu_items :: "nat \<Rightarrow> nat list"    \<comment> \<open>the visible enabled links of a menu\<close>
  inner_toggles :: "nat \<Rightarrow> nat list"

text \<open>An event: its key or button, whether it is a click, and its target with its tag name.\<close>

record uevent =
  which :: nat
  is_click :: bool
  tag :: string
  target :: nat

definition text_tag :: "string \<Rightarrow> bool" where
  "text_tag t \<longleftrightarrow> occurs ''input'' (lower t) \<or> occurs ''textarea'' (lower t)"

fun hash_letter :: "string \<Rightarrow> bool" where
  "hash_letter (a # c # cs) \<longleftrightarrow> a = CHR ''#'' \<and> (is_upper c \<or> is_lower c) \<or> hash_letter (c # cs)"
| "hash_letter _ \<longleftrightarrow> False"

text \<open>The element the selector names; of several matches, whose classes the code would read together, the first.\<close>

definition getParent :: "dbrowser \<Rightarrow> dropdown \<Rightarrow> nat \<Rightarrow> nat" where
  "getParent b s this =
     (let sel = (case oget (attr s this) ''data-target'' of
            Some t \<Rightarrow> if t \<noteq> '''' then Some t
                      else (case oget (attr s this) ''href'' of
                              Some h \<Rightarrow> if hash_letter h then Some (ie7_strip 0 h) else None | None \<Rightarrow> None)
          | None \<Rightarrow> (case oget (attr s this) ''href'' of
                              Some h \<Rightarrow> if hash_letter h then Some (ie7_strip 0 h) else None | None \<Rightarrow> None))
      in case sel of
           Some t \<Rightarrow> (if t \<noteq> '''' then (case select b t of p # _ \<Rightarrow> p | [] \<Rightarrow> parent b this) else parent b this)
         | None \<Rightarrow> parent b this)"

text \<open>
  One round of \<open>clearMenus\<close>.  The variable \<open>e\<close> of the handler is assigned inside the loop: from
  the first \<open>hide\<close> event on it is this event, no longer the click (\<open>None\<close> here, as is no event).
\<close>

definition clear_one :: "dbrowser \<Rightarrow> dropdown \<times> uevent option \<Rightarrow> nat \<Rightarrow> dropdown \<times> uevent option" where
  "clear_one b se this =
     (case se of (s, e) \<Rightarrow>
        let p = getParent b s this
        in if \<not> has_class p ''open'' s then (s, e)
           else if (case e of Some ev \<Rightarrow> is_click ev \<and> text_tag (tag ev) \<and> contains b p (target ev) | None \<Rightarrow> False)
           then (s, e)
           else case trigger b ''hide.bs.dropdown'' p s of (s1, prevented) \<Rightarrow>
             if prevented then (s1, None)
             else (emit ''hidden.bs.dropdown'' p (rem_class p ''open''
                     (set_attr this ''aria-expanded'' ''false'' s1)), None))"

definition clearMenus :: "dbrowser \<Rightarrow> uevent option \<Rightarrow> dropdown \<Rightarrow> dropdown" where
  "clearMenus b e s =
     (if (case e of Some ev \<Rightarrow> which ev = 3 | None \<Rightarrow> False) then s
      else fst (foldl (clear_one b) (s\<lparr>backdrops := 0\<rparr>, e) (toggles b)))"

definition is_disabled :: "dbrowser \<Rightarrow> dropdown \<Rightarrow> nat \<Rightarrow> bool" where
  "is_disabled b s this \<longleftrightarrow> has_class this ''disabled'' s \<or> disabled b this"

text \<open>The second component is what the handler returns: \<open>True\<close> where it returns \<open>false\<close>.\<close>

definition toggle :: "dbrowser \<Rightarrow> nat \<Rightarrow> dropdown \<Rightarrow> dropdown \<times> bool" where
  "toggle b this s =
     (if is_disabled b s this then (s, False)
      else let p = getParent b s this;
               isActive = has_class p ''open'' s;
               s1 = clearMenus b None s
           in if isActive then (s1, True)
              else let s2 = (if touch b \<and> \<not> in_navbar b p then s1\<lparr>backdrops := backdrops s1 + 1\<rparr> else s1)
                   in case trigger b ''show.bs.dropdown'' p s2 of (s3, prevented) \<Rightarrow>
                     if prevented then (s3, False)
                     else (emit ''shown.bs.dropdown'' p (toggle_class p ''open''
                            (set_attr this ''aria-expanded'' ''true'' (emit ''focus'' this s3))), True))"

text \<open>
  A click that reaches the document: on a toggle (the handler stops it unless it does not
  return \<open>false\<close>), inside a form of a dropdown (stopped), or elsewhere.
\<close>

definition document_click :: "dbrowser \<Rightarrow> nat option \<Rightarrow> bool \<Rightarrow> uevent \<Rightarrow> dropdown \<Rightarrow> dropdown" where
  "document_click b on_toggle in_form ev s =
     (case on_toggle of
        Some t \<Rightarrow> (case toggle b t s of (s1, stopped) \<Rightarrow>
                     if stopped \<or> in_form then s1 else clearMenus b (Some ev) s1)
      | None \<Rightarrow> if in_form then s else clearMenus b (Some ev) s)"

text \<open>The index a key moves to, from the index of the event's target among the items.\<close>

definition next_index :: "nat \<Rightarrow> nat \<Rightarrow> int \<Rightarrow> int" where
  "next_index k len index =
     (let i1 = (if k = 38 \<and> index > 0 then index - 1 else index);
          i2 = (if k = 40 \<and> i1 < int len - 1 then i1 + 1 else i1)
      in if i2 = -1 then 0 else i2)"

definition menu_key :: "nat \<Rightarrow> bool" where
  "menu_key k \<longleftrightarrow> (let s = nat_str k in occurs ''38'' s \<or> occurs ''40'' s \<or> occurs ''27'' s \<or> occurs ''32'' s)"

definition keydown :: "dbrowser \<Rightarrow> nat \<Rightarrow> uevent \<Rightarrow> dropdown \<Rightarrow> dropdown" where
  "keydown b this ev s =
     (let k = which ev
      in if \<not> menu_key k \<or> text_tag (tag ev) then s
         else if is_disabled b s this then s
         else let p = getParent b s this; isActive = has_class p ''open'' s
              in if \<not> isActive \<and> k \<noteq> 27 \<or> isActive \<and> k = 27
                 then let s1 = (if k = 27 then foldl (\<lambda>s t. emit ''focus'' t s) s (inner_toggles b p) else s)
                      in document_click b (Some this) False \<lparr>which = 0, is_click = True, tag = '''', target = this\<rparr> s1
                 else let items = menu_items b p
                      in if items = [] then s
                         else emit ''focus'' (items ! nat (next_index k (length items) (scan (target ev) items 0))) s)"

section \<open>Closing menus\<close>

lemma getParent_cong:
  assumes "oget (attr s t) ''data-target'' = oget (attr s' t) ''data-target''"
    "oget (attr s t) ''href'' = oget (attr s' t) ''href''"
  shows "getParent b s t = getParent b s' t"
  unfolding getParent_def assms by (rule refl)

lemma getParent_ops [simp]:
  "k \<noteq> ''data-target'' \<Longrightarrow> k \<noteq> ''href'' \<Longrightarrow> getParent b (set_attr n k v s) t = getParent b s t"
  "getParent b (rem_class n z s) t = getParent b s t" "getParent b (add_class n z s) t = getParent b s t"
  "getParent b (emit ev n s) t = getParent b s t" "getParent b (s\<lparr>log := l\<rparr>) t = getParent b s t"
  "getParent b (s\<lparr>backdrops := k0\<rparr>) t = getParent b s t"
  by (rule getParent_cong; simp add: bs_ops)+

lemma open_ops [simp]:
  "has_class m y (add_class n z s) \<longleftrightarrow> has_class m y s \<or> m = n \<and> y = z"
  "has_class m y (rem_class n z s) \<longleftrightarrow> has_class m y s \<and> \<not> (m = n \<and> y = z)"
  "has_class m y (set_attr n k v s) = has_class m y s" "has_class m y (emit ev n s) = has_class m y s"
  "has_class m y (s\<lparr>log := l\<rparr>) = has_class m y s"
  "has_class m y (toggle_class n z s) \<longleftrightarrow> (if m = n \<and> y = z then \<not> has_class m y s else has_class m y s)"
  by (auto simp: bs_ops)

lemma open_backdrops [simp]: "has_class m y (s\<lparr>backdrops := k\<rparr>) = has_class m y s"
  by (simp add: has_class_def)

text \<open>A round that no listener and no text field stops closes the menu, and opens none.\<close>

lemma clear_one_closes:
  assumes "\<And>h x. \<not> veto b (h @ [(''hide.bs.dropdown'', x)])"
    "case e of Some ev \<Rightarrow> \<not> (is_click ev \<and> text_tag (tag ev)) | None \<Rightarrow> True"
  shows "(\<forall>x. has_class x ''open'' (fst (clear_one b (s, e) t)) \<longleftrightarrow> has_class x ''open'' s \<and> x \<noteq> getParent b s t) \<and>
    getParent b (fst (clear_one b (s, e) t)) = getParent b s \<and>
    (snd (clear_one b (s, e) t) = None \<or> snd (clear_one b (s, e) t) = e)"
  using assms(2) by (auto simp: clear_one_def Let_def trigger_def assms(1) fun_eq_iff split: option.split)

lemma clear_all_closes:
  assumes "\<And>h x. \<not> veto b (h @ [(''hide.bs.dropdown'', x)])"
    "case e of Some ev \<Rightarrow> \<not> (is_click ev \<and> text_tag (tag ev)) | None \<Rightarrow> True"
  shows "(\<forall>x. has_class x ''open'' (fst (foldl (clear_one b) (s, e) ts)) \<longleftrightarrow>
      has_class x ''open'' s \<and> x \<notin> getParent b s ` set ts) \<and>
    getParent b (fst (foldl (clear_one b) (s, e) ts)) = getParent b s"
  using assms(2)
proof (induction ts arbitrary: s e)
  case (Cons t ts)
  obtain s1 e1 where c: "clear_one b (s, e) t = (s1, e1)" by fastforce
  have o: "\<forall>x. has_class x ''open'' s1 \<longleftrightarrow> has_class x ''open'' s \<and> x \<noteq> getParent b s t"
    "getParent b s1 = getParent b s" "e1 = None \<or> e1 = e"
    using clear_one_closes [OF assms(1) Cons.prems, of s t] c by auto
  have "case e1 of Some ev \<Rightarrow> \<not> (is_click ev \<and> text_tag (tag ev)) | None \<Rightarrow> True"
    using o(3) Cons.prems by auto
  from Cons.IH [OF this, of s1] o c show ?case by auto
qed simp

lemma clearMenus_closes:
  assumes "\<And>h x. \<not> veto b (h @ [(''hide.bs.dropdown'', x)])"
    "case e of Some ev \<Rightarrow> which ev \<noteq> 3 \<and> \<not> (is_click ev \<and> text_tag (tag ev)) | None \<Rightarrow> True"
  shows "(\<forall>x. has_class x ''open'' (clearMenus b e s) \<longleftrightarrow>
      has_class x ''open'' s \<and> x \<notin> getParent b s ` set (toggles b)) \<and>
    getParent b (clearMenus b e s) = getParent b s"
proof -
  have e: "case e of Some ev \<Rightarrow> \<not> (is_click ev \<and> text_tag (tag ev)) | None \<Rightarrow> True"
    using assms(2) by (auto split: option.splits)
  have "getParent b (s\<lparr>backdrops := 0\<rparr>) = getParent b s" by (simp add: fun_eq_iff)
  then show ?thesis
    using clear_all_closes [OF assms(1) e, of "s\<lparr>backdrops := 0\<rparr>" "toggles b"] assms(2)
    by (auto simp: clearMenus_def split: option.splits)
qed

lemma next_index_bounds:
  "- 1 \<le> i \<Longrightarrow> i < int len \<Longrightarrow> len \<noteq> 0 \<Longrightarrow> 0 \<le> next_index k len i \<and> next_index k len i < int len"
  by (auto simp: next_index_def Let_def)

section \<open>The properties\<close>

text \<open>
  C6: a toggle that is not disabled, when the page prevents neither event, leaves open exactly
  its own menu if that was closed, and no menu of the page if it was open.
\<close>

theorem toggle_opens_one:
  assumes "this \<in> set (toggles b)" "\<not> is_disabled b s this"
    "\<And>h x. \<not> veto b (h @ [(''hide.bs.dropdown'', x)])" "\<And>h x. \<not> veto b (h @ [(''show.bs.dropdown'', x)])"
    "t \<in> set (toggles b)"
  shows "has_class (getParent b s t) ''open'' (fst (toggle b this s)) \<longleftrightarrow>
    getParent b s t = getParent b s this \<and> \<not> has_class (getParent b s this) ''open'' s"
proof -
  let ?s1 = "clearMenus b None s"
  have c: "\<forall>x. has_class x ''open'' ?s1 \<longleftrightarrow> has_class x ''open'' s \<and> x \<notin> getParent b s ` set (toggles b)"
    using clearMenus_closes [OF assms(3), of None s] by simp
  then have "\<not> has_class (getParent b s t) ''open'' ?s1" "\<not> has_class (getParent b s this) ''open'' ?s1"
    using assms(1,5) by blast+
  then show ?thesis using assms(2,4) by (auto simp: toggle_def Let_def trigger_def)
qed

definition menus :: "(event list \<Rightarrow> bool) \<Rightarrow> dbrowser" where
  "menus v = \<lparr>transition = False, veto = v, toggles = [1, 2], select = (\<lambda>_. []), parent = (\<lambda>n. n + 10),
     touch = False, in_navbar = (\<lambda>_. False), disabled = (\<lambda>_. False), contains = (\<lambda>p x. x = 20 \<and> p = 12),
     menu_items = (\<lambda>_. [30, 31, 32]), inner_toggles = (\<lambda>p. [p - 10])\<rparr>"

definition bar :: "nat list \<Rightarrow> dropdown" where
  "bar open = \<lparr>cls = (\<lambda>n. if n \<in> set open then [''open''] else []), attr = (\<lambda>_. []), style = (\<lambda>_. []),
     log = [], backdrops = 0\<rparr>"

theorem toggle_opens_one_witness:
  "has_class 12 ''open'' (fst (toggle (menus (\<lambda>_. False)) 2 (bar [11]))) \<and>
   \<not> has_class 11 ''open'' (fst (toggle (menus (\<lambda>_. False)) 2 (bar [11])))"
  using toggle_opens_one [of 2 "menus (\<lambda>_. False)" "bar [11]" 2]
    toggle_opens_one [of 2 "menus (\<lambda>_. False)" "bar [11]" 1]
  by (simp add: menus_def bar_def is_disabled_def has_class_def getParent_def Let_def)

text \<open>
  A click that is not a right click and is not on a text field, on a page that prevents no
  menu from closing, closes every menu; and a key in an open menu moves to an existing item.
\<close>

theorem click_closes_all:
  assumes "\<And>h x. \<not> veto b (h @ [(''hide.bs.dropdown'', x)])" "which ev \<noteq> 3" "\<not> text_tag (tag ev)"
    "t \<in> set (toggles b)" "- 1 \<le> i" "i < int len" "len \<noteq> 0"
  shows "\<not> has_class (getParent b s t) ''open'' (document_click b None False ev s) \<and>
    0 \<le> next_index k len i \<and> next_index k len i < int len"
  using clearMenus_closes [OF assms(1), of "Some ev" s] assms(2-4) next_index_bounds [OF assms(5-7)]
  by (simp add: document_click_def)

theorem click_closes_all_witness:
  "\<not> has_class 11 ''open'' (document_click (menus (\<lambda>_. False)) None False
      \<lparr>which = 1, is_click = True, tag = ''DIV'', target = 5\<rparr> (bar [11])) \<and> next_index 40 3 2 < 3"
proof -
  have "\<not> text_tag ''DIV''" by code_simp
  then show ?thesis
    using click_closes_all [of "menus (\<lambda>_. False)" "\<lparr>which = 1, is_click = True, tag = ''DIV'', target = 5\<rparr>" 1 2 3 "bar [11]" 40]
    by (simp add: menus_def getParent_def bar_def Let_def)
qed

text \<open>
  A click on a text field of an open menu leaves the menu open, unless an earlier menu stays
  open because the page prevents it from closing: then the loop takes the event of that menu
  for the click, and the menu closes under the user's hands.
\<close>

theorem text_click_second_menu:
  "let v = (\<lambda>h. last h = (''hide.bs.dropdown'', 11));
       ev = \<lparr>which = 1, is_click = True, tag = ''INPUT'', target = 20\<rparr>
   in has_class 12 ''open'' (document_click (menus v) None False ev (bar [12])) \<and>
      \<not> has_class 12 ''open'' (document_click (menus v) None False ev (bar [11, 12]))"
proof -
  have "text_tag ''INPUT''" by code_simp
  moreover have "has_class n ''open'' (bar os) \<longleftrightarrow> n \<in> set os" "log (bar os) = []" for n os
    by (simp_all add: bar_def has_class_def)
  moreover have "getParent (menus v) (bar os) n = n + 10" for v os n
    by (simp add: getParent_def bar_def menus_def)
  moreover have "toggles (menus v) = [1, 2]" "veto (menus v) = v" "contains (menus v) p x \<longleftrightarrow> x = 20 \<and> p = 12" for v p x
    by (simp_all add: menus_def)
  ultimately show ?thesis
    by (simp add: document_click_def clearMenus_def clear_one_def trigger_def Let_def)
qed

end
