(* ===== verification/BS_Affix.thy ===== *)
theory BS_Affix
  imports BS_Dom
begin

text \<open>
  The affix plugin of \<^verbatim>\<open>docs/bootstrap.js\<close> (lines 2205 to 2340): the state of one pinned
  element, and the check of its position each scroll event makes.  What the browser measures
  at an event (scroll position, heights, computed positions) is a record of its own, since it
  changes from one event to the next; where the element is depends on its classes and its
  inline style, as the check reads it again after it has changed them.
\<close>

datatype place = Top | Bottom | Free      \<comment> \<open>\<open>'top'\<close>, \<open>'bottom'\<close> and \<open>false\<close>\<close>

text \<open>An offset: absent, a number, or a function of the element.\<close>

datatype off = Undef | Num int | Fn "nat \<Rightarrow> int option"

text \<open>The option itself: a number, an object with the two offsets, or a function.\<close>

datatype offset_option = ONum int | OObj off off | OFn "nat \<Rightarrow> int option"

record abrowser = browser +
  visible :: bool
  scroll :: int                 \<comment> \<open>\<open>$target.scrollTop()\<close>\<close>
  target_height :: int
  doc_height :: int
  body_height :: int
  el_height :: int
  el_top :: "string list \<Rightarrow> string obj \<Rightarrow> int"          \<comment> \<open>\<open>$element.offset().top\<close>\<close>
  el_position :: "string list \<Rightarrow> string obj \<Rightarrow> string"    \<comment> \<open>the computed \<open>position\<close>\<close>
  css_top :: "string list \<Rightarrow> string obj \<Rightarrow> int option"    \<comment> \<open>the computed \<open>top\<close>, none for \<open>auto\<close>\<close>
  css_left_auto :: "string list \<Rightarrow> string obj \<Rightarrow> bool"
  pos_top :: "string list \<Rightarrow> string obj \<Rightarrow> int"         \<comment> \<open>\<open>position().top\<close>\<close>

record affix = dom +
  affixed :: "place option"     \<comment> \<open>none for \<open>null\<close>\<close>
  unpin :: "int option"
  pinnedOffset :: "int option"
  offset_of :: offset_option

abbreviation (input) EL :: nat where "EL \<equiv> 0"

datatype err = TypeError

section \<open>The operations\<close>

text \<open>
  A value counts as given unless it is \<open>null\<close> or \<open>undefined\<close> (both are \<open>None\<close> here); as a number
  \<open>null\<close> is 0.
\<close>

definition null_num :: "int option \<Rightarrow> int" where
  "null_num v = (case v of Some k \<Rightarrow> k | None \<Rightarrow> 0)"

definition getState :: "abrowser \<Rightarrow> affix \<Rightarrow> int \<Rightarrow> int \<Rightarrow> int option \<Rightarrow> int option \<Rightarrow> place" where
  "getState b s scrollHeight height offsetTop offsetBottom =
     (let scrollTop = scroll b;
          y = el_top b (cls s EL) (style s EL)
      in if offsetTop \<noteq> None \<and> affixed s = Some Top
         then (if scrollTop < the offsetTop then Top else Free)
         else if affixed s = Some Bottom
         then (if offsetTop \<noteq> None
               then (if scrollTop + null_num (unpin s) \<le> y then Free else Bottom)
               else (case offsetBottom of
                       Some ob \<Rightarrow> if scrollTop + target_height b \<le> scrollHeight - ob then Free else Bottom
                     | None \<Rightarrow> Bottom))
         else let initializing = (affixed s = None);
                  colliderTop = (if initializing then scrollTop else y);
                  colliderHeight = (if initializing then target_height b else height)
              in if offsetTop \<noteq> None \<and> scrollTop \<le> the offsetTop then Top
                 else (case offsetBottom of
                         Some ob \<Rightarrow> if colliderTop + colliderHeight \<ge> scrollHeight - ob then Bottom else Free
                       | None \<Rightarrow> Free))"

definition reset_classes :: "affix \<Rightarrow> affix" where
  "reset_classes s = rem_class EL ''affix-bottom'' (rem_class EL ''affix-top'' (rem_class EL ''affix'' s))"

text \<open>A cached offset of 0 is not truthy, so it is measured again.\<close>

definition getPinnedOffset :: "abrowser \<Rightarrow> affix \<Rightarrow> affix \<times> int" where
  "getPinnedOffset b s =
     (if pinnedOffset s \<noteq> None \<and> pinnedOffset s \<noteq> Some 0 then (s, the (pinnedOffset s))
      else let s1 = add_class EL ''affix'' (reset_classes s);
               p = el_top b (cls s1 EL) (style s1 EL) - scroll b
           in (s1\<lparr>pinnedOffset := Some p\<rparr>, p))"

definition place_name :: "place \<Rightarrow> string" where
  "place_name p = (case p of Top \<Rightarrow> ''-top'' | Bottom \<Rightarrow> ''-bottom'' | Free \<Rightarrow> '''')"

definition affixType :: "place \<Rightarrow> string" where
  "affixType p = ''affix'' @ place_name p"

text \<open>\<open>setOffset\<close> of jQuery for an offset with a \<open>top\<close> and no \<open>left\<close>.\<close>

definition setOffset_top :: "abrowser \<Rightarrow> int \<Rightarrow> affix \<Rightarrow> affix" where
  "setOffset_top b y s =
     (let position = el_position b (cls s EL) (style s EL);
          s1 = (if position = ''static'' then set_style EL ''position'' ''relative'' s else s);
          c = cls s1 EL; st = style s1 EL;
          curTop = (if (position = ''absolute'' \<or> position = ''fixed'') \<and> (css_top b c st = None \<or> css_left_auto b c st)
                    then pos_top b c st else null_num (css_top b c st))
      in set_style EL ''top'' (px (y - el_top b c st + curTop)) s1)"

text \<open>
  The offsets a check uses.  A function given as the whole option is called as a property of
  itself, which it does not have: the call raises.
\<close>

definition eval_off :: "off \<Rightarrow> int option" where
  "eval_off v = (case v of Undef \<Rightarrow> None | Num k \<Rightarrow> Some k | Fn f \<Rightarrow> f EL)"

definition offsets_now :: "affix \<Rightarrow> err + (int option \<times> int option)" where
  "offsets_now s =
     (case offset_of s of
        ONum k \<Rightarrow> Inr (Some k, Some k)
      | OObj t bt \<Rightarrow> Inr (eval_off t, eval_off bt)
      | OFn f \<Rightarrow> Inl TypeError)"

text \<open>The element changes place, unless a listener prevents it; the second component says so.\<close>

definition move_to :: "abrowser \<Rightarrow> place \<Rightarrow> affix \<Rightarrow> affix \<times> bool" where
  "move_to b p s =
     (let s1 = (if unpin s \<noteq> None then set_style EL ''top'' '''' s else s)
      in case trigger b (affixType p @ ''.bs.affix'') EL s1 of (s2, prevented) \<Rightarrow>
           if prevented then (s2, True)
           else let s3 = s2\<lparr>affixed := Some p\<rparr>;
                    s4 = (if p = Bottom then (case getPinnedOffset b s3 of (s', o') \<Rightarrow> s'\<lparr>unpin := Some o'\<rparr>)
                          else s3\<lparr>unpin := None\<rparr>)
                in (emit (''affixed'' @ place_name p @ ''.bs.affix'') EL
                      (add_class EL (affixType p) (reset_classes s4)), False))"

definition scroll_height :: "abrowser \<Rightarrow> int" where
  "scroll_height b = max (doc_height b) (body_height b)"

definition checkPosition :: "abrowser \<Rightarrow> affix \<Rightarrow> err + affix" where
  "checkPosition b s =
     (if \<not> visible b then Inr s
      else case offsets_now s of
        Inl e \<Rightarrow> Inl e
      | Inr (offsetTop, offsetBottom) \<Rightarrow>
          let p = getState b s (scroll_height b) (el_height b) offsetTop offsetBottom;
              (s1, prevented) = (if affixed s \<noteq> Some p then move_to b p s else (s, False))
          in if prevented then Inr s1
             else if p = Bottom
             then (case offsetBottom of
                     Some ob \<Rightarrow> Inr (setOffset_top b (scroll_height b - el_height b - ob) s1)
                   | None \<Rightarrow> Inr s1)
             else Inr s1)"

text \<open>The constructor checks once; each scroll event, and each click a moment later, checks again.\<close>

definition construct :: "offset_option \<Rightarrow> abrowser \<Rightarrow> affix \<Rightarrow> err + affix" where
  "construct opt b s =
     checkPosition b (s\<lparr>affixed := None, unpin := None, pinnedOffset := None, offset_of := opt\<rparr>)"

fun checks :: "abrowser list \<Rightarrow> affix \<Rightarrow> err + affix" where
  "checks [] s = Inr s"
| "checks (b # bs) s = (case checkPosition b s of Inl e \<Rightarrow> Inl e | Inr s1 \<Rightarrow> checks bs s1)"

text \<open>
  The data API at load: the offset object of the element's data (an empty one when there is
  none), with \<open>data-offset-bottom\<close> and \<open>data-offset-top\<close> put into it.  A number cannot hold
  them: in strict mode the assignment raises.
\<close>

definition data_offset :: "offset_option option \<Rightarrow> int option \<Rightarrow> int option \<Rightarrow> err + offset_option" where
  "data_offset off bottom top' =
     (let over = (\<lambda>v old. case v of Some k \<Rightarrow> Num k | None \<Rightarrow> old)
      in case (case off of None \<Rightarrow> OObj Undef Undef | Some (ONum k) \<Rightarrow> (if k = 0 then OObj Undef Undef else ONum k)
                 | Some v \<Rightarrow> v) of
           OObj t bt \<Rightarrow> Inr (OObj (over top' t) (over bottom bt))
         | ONum k \<Rightarrow> if bottom \<noteq> None \<or> top' \<noteq> None then Inl TypeError else Inr (ONum k)
         | OFn f \<Rightarrow> Inr (OFn f))"

section \<open>The state and the classes\<close>

lemma affixType_eq [simp]: "affixType p = affixType q \<longleftrightarrow> p = q"
  by (cases p; cases q) (simp_all add: affixType_def place_name_def)

lemma reset_classes_none: "\<not> has_class EL (affixType p) (reset_classes s)"
  by (cases p) (simp_all add: reset_classes_def bs_ops affixType_def place_name_def)

lemma has_class_ops [simp]:
  "has_class m y (add_class n z s) \<longleftrightarrow> has_class m y s \<or> m = n \<and> y = z"
  "has_class m y (emit ev n s) = has_class m y s" "has_class m y (set_style n k v s) = has_class m y s"
  by (auto simp: bs_ops)

lemma fields [simp]:
  "affixed (add_class n z s) = affixed s" "affixed (reset_classes s) = affixed s" "affixed (emit ev n s) = affixed s"
  "affixed (set_style n k v s) = affixed s"
  "unpin (add_class n z s) = unpin s" "unpin (reset_classes s) = unpin s" "unpin (emit ev n s) = unpin s"
  "unpin (set_style n k v s) = unpin s"
  "offset_of (add_class n z s) = offset_of s" "offset_of (reset_classes s) = offset_of s" "offset_of (emit ev n s) = offset_of s"
  "offset_of (set_style n k v s) = offset_of s"
  by (simp_all add: bs_ops reset_classes_def getPinnedOffset_def Let_def)

lemma pinned_fields [simp]:
  "affixed (fst (getPinnedOffset b s)) = affixed s" "offset_of (fst (getPinnedOffset b s)) = offset_of s"
  by (simp_all add: getPinnedOffset_def Let_def)

lemma pinnedD:
  "getPinnedOffset b s = (s1, k) \<Longrightarrow> affixed s1 = affixed s \<and> offset_of s1 = offset_of s"
  using pinned_fields [of b s] by simp

lemma setOffset_fields [simp]:
  "affixed (setOffset_top b y s) = affixed s" "offset_of (setOffset_top b y s) = offset_of s"
  "unpin (setOffset_top b y s) = unpin s" "has_class n z (setOffset_top b y s) = has_class n z s"
  "cls (setOffset_top b y s) = cls s"
  by (simp_all add: setOffset_top_def Let_def bs_ops)

text \<open>
  The invariant: before the first move the classes are the ones of the page (\<open>c\<close>); afterwards the
  element has exactly the class of its place, and a pinned offset just when it is at the bottom.
\<close>

definition affix_inv :: "string list \<Rightarrow> affix \<Rightarrow> bool" where
  "affix_inv c s \<longleftrightarrow>
     (case affixed s of
        None \<Rightarrow> cls s EL = c \<and> unpin s = None
      | Some p \<Rightarrow> list_all (\<lambda>q. has_class EL (affixType q) s \<longleftrightarrow> q = p) [Top, Bottom, Free] \<and>
                  (unpin s \<noteq> None \<longleftrightarrow> p = Bottom))"

lemma affix_inv_Some:
  "affixed s = Some p \<Longrightarrow> affix_inv c s \<longleftrightarrow> (\<forall>q. has_class EL (affixType q) s \<longleftrightarrow> q = p) \<and> (unpin s \<noteq> None \<longleftrightarrow> p = Bottom)"
  by (auto simp: affix_inv_def) (metis place.exhaust)+

lemma move_to_allowed:
  assumes "move_to b p s = (s1, False)"
  shows "affixed s1 = Some p" "offset_of s1 = offset_of s" "has_class EL (affixType q) s1 \<longleftrightarrow> q = p"
    "unpin s1 \<noteq> None \<longleftrightarrow> p = Bottom"
  using assms reset_classes_none
  by (auto simp: move_to_def Let_def trigger_def split: if_splits prod.splits dest!: pinnedD)

lemma move_to_refused:
  assumes "move_to b p s = (s1, True)"
  shows "affixed s1 = affixed s" "offset_of s1 = offset_of s" "cls s1 = cls s" "unpin s1 = unpin s"
  using assms by (auto simp: move_to_def Let_def trigger_def set_style_def split: if_splits prod.splits)

lemma checkPosition_inv:
  assumes "affix_inv c s" "checkPosition b s = Inr s1"
  shows "affix_inv c s1"
proof -
  have same: "affix_inv c s'" if "affixed s' = affixed s" "cls s' = cls s" "unpin s' = unpin s" for s'
    using assms(1) that by (auto simp: affix_inv_def has_class_def split: option.splits)
  have moved: "affix_inv c s'" if "move_to b p s = (s2, False)" "affixed s' = affixed s2" "cls s' = cls s2" "unpin s' = unpin s2" for s' s2 p
    using move_to_allowed [OF that(1)] that(2-) by (subst affix_inv_Some [of _ p]) (auto simp: has_class_def)
  have refused: "affix_inv c s'" if "move_to b p s = (s', True)" for s' p
    using move_to_refused [OF that] same by simp
  show ?thesis
    using assms(2) by (auto simp: checkPosition_def Let_def split: if_splits sum.splits prod.splits option.splits
      intro: same moved refused)
qed

lemma checks_inv: "affix_inv c s \<Longrightarrow> checks bs s = Inr s1 \<Longrightarrow> affix_inv c s1"
  by (induction bs arbitrary: s) (auto split: sum.splits dest: checkPosition_inv)

text \<open>
  With a top offset only, a page that prevents nothing: the place after a check, from the scroll
  position and whether the element was at the top.
\<close>

definition next_place :: "int \<Rightarrow> place option \<Rightarrow> int \<Rightarrow> place" where
  "next_place k p y = (if y < k \<or> y = k \<and> p \<noteq> Some Top then Top else Free)"

lemma affixed_update [simp]: "cls (s\<lparr>affixed := p\<rparr>) = cls s" "style (s\<lparr>affixed := p\<rparr>) = style s"
  by simp_all

lemma checkPosition_top:
  assumes "visible b" "\<And>h. \<not> veto b h" "offset_of s = OObj (Num k) Undef" "affixed s \<noteq> Some Bottom"
  shows "\<exists>s1. checkPosition b s = Inr s1 \<and> affixed s1 = Some (next_place k (affixed s) (scroll b)) \<and>
    offset_of s1 = OObj (Num k) Undef"
proof -
  have st: "getState b s h l (Some k) None = next_place k (affixed s) (scroll b)" for h l
    using assms(4) by (auto simp: getState_def next_place_def Let_def)
  have free: "next_place k q y \<noteq> Bottom" for q y by (simp add: next_place_def)
  obtain s1 pr where m: "move_to b (next_place k (affixed s) (scroll b)) s = (s1, pr)" by fastforce
  then have "\<not> pr" using assms(2) by (auto simp: move_to_def Let_def trigger_def split: if_splits prod.splits)
  with m have "affixed s1 = Some (next_place k (affixed s) (scroll b)) \<and> offset_of s1 = OObj (Num k) Undef"
    using move_to_allowed(1,2) [of b _ s s1] assms(3) by auto
  then show ?thesis using m \<open>\<not> pr\<close> free assms(1,3)
    by (auto simp: checkPosition_def offsets_now_def eval_off_def st Let_def)
qed

lemma checks_top:
  assumes "\<forall>b \<in> set bs. visible b \<and> (\<forall>h. \<not> veto b h)" "offset_of s = OObj (Num k) Undef" "affixed s \<noteq> Some Bottom"
  shows "\<exists>s1. checks bs s = Inr s1 \<and>
    affixed s1 = foldl (\<lambda>p b. Some (next_place k p (scroll b))) (affixed s) bs"
  using assms
proof (induction bs arbitrary: s)
  case (Cons b bs)
  obtain s1 where s1: "checkPosition b s = Inr s1" "affixed s1 = Some (next_place k (affixed s) (scroll b))"
    "offset_of s1 = OObj (Num k) Undef"
    using checkPosition_top [of b s k] Cons.prems by auto
  then have "affixed s1 \<noteq> Some Bottom" by (simp add: next_place_def)
  with Cons.IH [of s1] Cons.prems(1) s1 show ?case by auto
qed simp

lemma construct_top:
  assumes "\<forall>b \<in> set (b0 # bs). visible b \<and> (\<forall>h. \<not> veto b h)"
  shows "\<exists>s0 s1. construct (OObj (Num k) Undef) b0 s = Inr s0 \<and> checks bs s0 = Inr s1 \<and>
    affixed s1 = foldl (\<lambda>p b. Some (next_place k p (scroll b))) None (b0 # bs)"
  using checks_top [of "b0 # bs" "s\<lparr>affixed := None, unpin := None, pinnedOffset := None, offset_of := OObj (Num k) Undef\<rparr>" k] assms
  by (auto simp: construct_def split: sum.splits)

section \<open>The properties\<close>

text \<open>
  C10: whatever the page looks like at each check and whatever its listeners prevent, the element
  has exactly one of the three affix classes, the one of its recorded place, and it keeps a
  pinned offset just while it is at the bottom (until the first move, its classes are its own).
\<close>

theorem affix_classes:
  assumes "construct opt b s = Inr s0" "checks bs s0 = Inr s1"
  shows "affix_inv (cls s EL) s1"
proof (rule checks_inv [OF checkPosition_inv assms(2)])
  show "affix_inv (cls s EL) (s\<lparr>affixed := None, unpin := None, pinnedOffset := None, offset_of := opt\<rparr>)"
    by (simp add: affix_inv_def)
qed (use assms(1) in \<open>simp add: construct_def\<close>)

definition window_at :: "int \<Rightarrow> abrowser" where
  "window_at y = \<lparr>transition = False, veto = (\<lambda>_. False), visible = True, scroll = y, target_height = 600,
     doc_height = 2000, body_height = 2000, el_height = 100, el_top = (\<lambda>c st. if ''affix'' \<in> set c then y + 10 else 50),
     el_position = (\<lambda>c st. if ''affix'' \<in> set c then ''fixed'' else ''static''), css_top = (\<lambda>c st. None),
     css_left_auto = (\<lambda>c st. True), pos_top = (\<lambda>c st. 10)\<rparr>"

lemma window_at_simps: "visible (window_at y)" "\<not> veto (window_at y) h" "scroll (window_at y) = y"
  by (simp_all add: window_at_def)

definition sidebar :: affix where
  "sidebar = \<lparr>cls = (\<lambda>n. [''nav'']), attr = (\<lambda>_. []), style = (\<lambda>_. []), log = [], affixed = None, unpin = None,
     pinnedOffset = None, offset_of = ONum 0\<rparr>"

theorem affix_classes_witness:
  "\<exists>s0 s1. construct (OObj (Num 40) Undef) (window_at 0) sidebar = Inr s0 \<and>
     checks [window_at 80, window_at 20] s0 = Inr s1 \<and> affix_inv [''nav''] s1 \<and> affixed s1 = Some Top"
proof -
  obtain s0 s1 where "construct (OObj (Num 40) Undef) (window_at 0) sidebar = Inr s0"
    "checks [window_at 80, window_at 20] s0 = Inr s1" "affixed s1 = Some Top"
    using construct_top [of "window_at 0" "[window_at 80, window_at 20]" 40 sidebar]
    by (auto simp: window_at_simps next_place_def simp del: checks.simps)
  then show ?thesis using affix_classes [of "OObj (Num 40) Undef" "window_at 0" sidebar s0 "[window_at 80, window_at 20]" s1]
    by (auto simp: sidebar_def simp del: checks.simps)
qed

text \<open>
  With a top offset alone, when nothing is prevented and no check happens exactly at the
  offset, all the history does not matter: the checks succeed, and the place is the one the last
  scroll position says.
\<close>

theorem affix_follows_scroll:
  assumes "\<forall>b \<in> set (bs @ [b1]). visible b \<and> (\<forall>h. \<not> veto b h)" "bs = b0 # cs" "scroll b1 \<noteq> k"
  shows "\<exists>s0 s1. construct (OObj (Num k) Undef) b0 s = Inr s0 \<and> checks (cs @ [b1]) s0 = Inr s1 \<and>
    affixed s1 = Some (if scroll b1 < k then Top else Free)"
proof -
  have "foldl (\<lambda>p b. Some (next_place k p (scroll b))) None (b0 # cs @ [b1]) = Some (if scroll b1 < k then Top else Free)"
    using assms(3) by (simp add: next_place_def)
  with construct_top [of b0 "cs @ [b1]" k s] assms(1,2) show ?thesis by auto
qed

theorem affix_follows_scroll_witness:
  "\<exists>s0 s1. construct (OObj (Num 40) Undef) (window_at 0) sidebar = Inr s0 \<and>
     checks [window_at 40, window_at 41] s0 = Inr s1 \<and> affixed s1 = Some Free"
  using affix_follows_scroll [of "[window_at 0, window_at 40]" "window_at 41" "window_at 0" "[window_at 40]" 40 sidebar]
  by (simp add: window_at_simps del: checks.simps)

text \<open>
  Exactly at the top offset (at the top of the page with an offset of 0, say) the place does
  not settle: the check that enters the top compares with less-or-equal and the one that leaves
  it with less, so each further check at the same scroll position moves the element again.
\<close>

theorem affix_oscillates:
  assumes "visible b" "\<And>h. \<not> veto b h" "scroll b = k"
  shows "\<exists>s0 s1. construct (OObj (Num k) Undef) b s = Inr s0 \<and> checks (replicate n b) s0 = Inr s1 \<and>
    affixed s1 = Some (if even n then Top else Free)"
proof -
  have "foldl (\<lambda>p b. Some (next_place k p (scroll b))) None (replicate (Suc n) b) = Some (if even n then Top else Free)"
  proof (induction n)
    case (Suc n)
    have "replicate (Suc (Suc n)) b = replicate (Suc n) b @ [b]" by (simp add: replicate_append_same)
    with Suc show ?case by (simp only: foldl_append) (simp add: next_place_def assms(3))
  qed (simp add: next_place_def assms(3))
  moreover have "\<forall>b' \<in> set (b # replicate n b). visible b' \<and> (\<forall>h. \<not> veto b' h)" using assms(1,2) by simp
  ultimately show ?thesis using construct_top [of b "replicate n b" k s] by (simp only: replicate_Suc)
qed

theorem affix_oscillates_witness:
  "\<exists>s0 s1. construct (OObj (Num 0) Undef) (window_at 0) sidebar = Inr s0 \<and>
     checks [window_at 0, window_at 0, window_at 0] s0 = Inr s1 \<and> affixed s1 = Some Free"
  using affix_oscillates [of "window_at 0" 0 sidebar 3] by (simp add: window_at_simps numeral_3_eq_3 del: checks.simps)

text \<open>
  The two offset forms that raise: a function as the whole option (every check of a visible
  element calls it as its own property \<open>top\<close>), and a number in \<open>data-offset\<close> beside a
  \<open>data-offset-top\<close> (the data API assigns a property of the number).
\<close>

theorem affix_offset_raises:
  "(visible b \<longrightarrow> construct (OFn f) b s = Inl TypeError) \<and>
   (m \<noteq> 0 \<longrightarrow> data_offset (Some (ONum m)) None (Some k) = Inl TypeError) \<and>
   data_offset None None (Some k) = Inr (OObj (Num k) Undef)"
  by (simp add: construct_def checkPosition_def offsets_now_def data_offset_def)

theorem affix_offset_raises_witness:
  "construct (OFn (\<lambda>_. Some 5)) (window_at 0) sidebar = Inl TypeError \<and>
   data_offset (Some (ONum 10)) None (Some 5) = Inl TypeError"
  using affix_offset_raises [of "window_at 0" "\<lambda>_. Some 5" sidebar 10 5] by (simp add: window_at_simps)

end
