(* ===== verification/BS_Alert.thy ===== *)
theory BS_Alert
  imports BS_Dom
begin

text \<open>
  The alert and button plugins of \<^verbatim>\<open>docs/bootstrap.js\<close> (lines 31 to 60, 88 to 165 and 180 to
  291): the name of the browser's transition event, closing alerts at once or at the end of
  their transition, and the states and toggles of buttons.
\<close>

section \<open>Transition support\<close>

definition transEndEventNames :: "string obj" where
  "transEndEventNames =
     [(''WebkitTransition'', ''webkitTransitionEnd''), (''MozTransition'', ''transitionend''),
      (''OTransition'', ''oTransitionEnd otransitionend''), (''transition'', ''transitionend'')]"

text \<open>The first style property the browser knows decides the event; none is \<open>false\<close>.\<close>

definition transitionEnd :: "(string \<Rightarrow> bool) \<Rightarrow> string option" where
  "transitionEnd known = map_option snd (List.find (\<lambda>p. known (fst p)) transEndEventNames)"

section \<open>Alerts\<close>

text \<open>\<open>attached\<close>: the elements in the page; \<open>pending\<close>: who waits for which element's transition to remove which elements.\<close>

record alert_page = dom +
  attached :: "nat list"
  pending :: "(nat \<times> nat list) list"

record alert_env = browser +
  select :: "string \<Rightarrow> nat list"
  alert_of :: "nat \<Rightarrow> nat list"     \<comment> \<open>\<open>closest('.alert')\<close>\<close>

text \<open>One event triggered on each element of a set: prevented if a listener of one of them prevents it.\<close>

fun trigger_all :: "'b browser_scheme \<Rightarrow> string \<Rightarrow> nat list \<Rightarrow> 'a dom_scheme \<Rightarrow> 'a dom_scheme \<times> bool" where
  "trigger_all b ev [] d = (d, False)"
| "trigger_all b ev (n # ns) d =
     (case trigger b ev n d of (d1, p) \<Rightarrow> case trigger_all b ev ns d1 of (d2, q) \<Rightarrow> (d2, p \<or> q))"

definition removeElement :: "nat list \<Rightarrow> alert_page \<Rightarrow> alert_page" where
  "removeElement ns s =
     (let s1 = s\<lparr>attached := filter (\<lambda>n. n \<notin> set ns) (attached s)\<rparr>;
          s2 = foldl (\<lambda>s n. emit ''closed.bs.alert'' n s) s1 ns
      in s2\<lparr>pending := filter (\<lambda>(m, k). m \<notin> set ns) (pending s2)\<rparr>)"

definition selector_of :: "string obj \<Rightarrow> string option" where
  "selector_of at =
     (case oget at ''data-target'' of
        Some t \<Rightarrow> if t \<noteq> '''' then Some t else map_option (ie7_strip 0) (oget at ''href'')
      | None \<Rightarrow> map_option (ie7_strip 0) (oget at ''href''))"

definition alert_parent :: "alert_env \<Rightarrow> nat \<Rightarrow> alert_page \<Rightarrow> nat list" where
  "alert_parent b this s =
     (let found = (case selector_of (attr s this) of Some t \<Rightarrow> (if t = '''' then [] else select b t) | None \<Rightarrow> [])
      in if found = [] then alert_of b this else found)"

definition close :: "alert_env \<Rightarrow> nat \<Rightarrow> alert_page \<Rightarrow> alert_page" where
  "close b this s =
     (let ns = alert_parent b this s
      in case trigger_all b ''close.bs.alert'' ns s of (s1, prevented) \<Rightarrow>
           if prevented then s1
           else let s2 = foldl (\<lambda>s n. rem_class n ''in'' s) s1 ns
                in if transition b \<and> list_ex (\<lambda>n. has_class n ''fade'' s2) ns
                   then s2\<lparr>pending := pending s2 @ map (\<lambda>n. (n, ns)) ns\<rparr>
                   else removeElement ns s2)"

text \<open>
  The end of an element's transition (the browser's event or the timer of \<open>emulateTransitionEnd\<close>)
  runs all that waits on it.
\<close>

definition transition_end :: "nat \<Rightarrow> alert_page \<Rightarrow> alert_page" where
  "transition_end n s =
     foldl (\<lambda>s (m, ns). removeElement ns s) (s\<lparr>pending := filter (\<lambda>(m, k). m \<noteq> n) (pending s)\<rparr>)
       (filter (\<lambda>(m, k). m = n) (pending s))"

datatype alert_step = Close nat | TransitionEnd nat

fun alert_op :: "alert_env \<Rightarrow> alert_page \<Rightarrow> alert_step \<Rightarrow> alert_page" where
  "alert_op b s (Close n) = close b n s"
| "alert_op b s (TransitionEnd n) = transition_end n s"

section \<open>Buttons\<close>

record button_page = dom +
  content :: "nat \<Rightarrow> string"           \<comment> \<open>the value of an input, the HTML of another element\<close>
  data :: "nat \<Rightarrow> string obj"
  isLoading :: "nat \<Rightarrow> bool"
  checked :: "nat \<Rightarrow> bool"
  timeouts :: "(nat \<times> string) list"

record button_env =
  options :: "string obj"
  group :: "nat \<Rightarrow> nat option"         \<comment> \<open>\<open>closest('[data-toggle="buttons"]')\<close>\<close>
  members :: "nat \<Rightarrow> nat list"         \<comment> \<open>the elements inside a group\<close>
  inputs :: "nat \<Rightarrow> nat list"
  input_type :: "nat \<Rightarrow> string"

text \<open>\<open>setState\<close>, and the function it leaves to the event loop.\<close>

definition setState :: "nat \<Rightarrow> string \<Rightarrow> button_page \<Rightarrow> button_page" where
  "setState el state s =
     (let s1 = (if oget (data s el) ''resetText'' = None
                then s\<lparr>data := (data s)(el := oset (data s el) ''resetText'' (content s el))\<rparr> else s)
      in s1\<lparr>timeouts := timeouts s1 @ [(el, state @ ''Text'')]\<rparr>)"

definition put_text :: "button_env \<Rightarrow> nat \<Rightarrow> string \<Rightarrow> button_page \<Rightarrow> button_page" where
  "put_text b el key s =
     (case (case oget (data s el) key of None \<Rightarrow> oget (options b) key | v \<Rightarrow> v) of
        Some t \<Rightarrow> s\<lparr>content := (content s)(el := t)\<rparr>
      | None \<Rightarrow> s)"

definition apply_state :: "button_env \<Rightarrow> nat \<Rightarrow> string \<Rightarrow> button_page \<Rightarrow> button_page" where
  "apply_state b el key s =
     (let s1 = put_text b el key s
      in if key = ''loadingText''
         then set_attr el ''disabled'' ''disabled'' (add_class el ''disabled'' (s1\<lparr>isLoading := (isLoading s1)(el := True)\<rparr>))
         else if isLoading s1 el
         then rem_attr el ''disabled'' (rem_class el ''disabled'' (s1\<lparr>isLoading := (isLoading s1)(el := False)\<rparr>))
         else s1)"

definition run_timeouts :: "button_env \<Rightarrow> button_page \<Rightarrow> button_page" where
  "run_timeouts b s =
     foldl (\<lambda>s (el, key). apply_state b el key s) (s\<lparr>timeouts := []\<rparr>) (timeouts s)"

text \<open>The inputs of a button: the first one's type and state count, all are set.\<close>

definition toggle_radio :: "button_env \<Rightarrow> nat \<Rightarrow> nat \<Rightarrow> button_page \<Rightarrow> button_page" where
  "toggle_radio b el g s = add_class el ''active'' (foldl (\<lambda>s n. rem_class n ''active'' s) s (members b g))"

definition set_checked :: "nat list \<Rightarrow> bool \<Rightarrow> button_page \<Rightarrow> button_page" where
  "set_checked is v s = s\<lparr>checked := (\<lambda>n. if n \<in> set is then v else checked s n)\<rparr>"

definition button_toggle :: "button_env \<Rightarrow> nat \<Rightarrow> button_page \<Rightarrow> button_page" where
  "button_toggle b el s =
     (case group b el of
        Some g \<Rightarrow>
          let is = inputs b el;
              ty = (case is of i # _ \<Rightarrow> input_type b i | [] \<Rightarrow> '''');
              on = (case is of i # _ \<Rightarrow> checked s i | [] \<Rightarrow> False);
              (changed, s1) =
                (if ty = ''radio'' then (\<not> on, toggle_radio b el g s)
                 else if ty = ''checkbox'' then (on = has_class el ''active'' s, toggle_class el ''active'' s)
                 else (True, s));
              s2 = set_checked is (has_class el ''active'' s1) s1
          in if changed then foldl (\<lambda>s i. emit ''change'' i s) s2 is else s2
      | None \<Rightarrow>
          toggle_class el ''active''
            (set_attr el ''aria-pressed'' (if has_class el ''active'' s then ''false'' else ''true'') s))"

definition button_plugin :: "button_env \<Rightarrow> string option \<Rightarrow> nat \<Rightarrow> button_page \<Rightarrow> button_page" where
  "button_plugin b opt el s =
     (case opt of
        Some v \<Rightarrow> if v = ''toggle'' then button_toggle b el s else if v \<noteq> '''' then setState el v s else s
      | None \<Rightarrow> s)"

text \<open>
  The data API: a click on a button or inside one (the second component: the default action of
  the click is prevented), and the class \<open>focus\<close> while the button has the focus.
\<close>

definition button_click :: "button_env \<Rightarrow> (nat \<Rightarrow> nat option) \<Rightarrow> nat \<Rightarrow> button_page \<Rightarrow> button_page \<times> bool" where
  "button_click b closest_btn target s =
     (let btn = (if has_class target ''btn'' s then Some target else closest_btn target)
      in (case btn of Some el \<Rightarrow> button_plugin b (Some ''toggle'') el s | None \<Rightarrow> s,
          \<not> (input_type b target = ''radio'' \<or> input_type b target = ''checkbox'')))"

definition button_focus :: "(nat \<Rightarrow> nat option) \<Rightarrow> string \<Rightarrow> nat \<Rightarrow> button_page \<Rightarrow> button_page" where
  "button_focus closest_btn ty target s =
     (case closest_btn target of
        Some el \<Rightarrow> if ty = ''focus'' \<or> ty = ''focusin'' then add_class el ''focus'' s else rem_class el ''focus'' s
      | None \<Rightarrow> s)"

section \<open>Alerts: what the steps keep\<close>

text \<open>A close event of the element that nobody prevented has happened.\<close>

definition close_allowed :: "alert_env \<Rightarrow> event list \<Rightarrow> nat \<Rightarrow> bool" where
  "close_allowed b l n \<longleftrightarrow> (\<exists>h k. l = h @ (''close.bs.alert'', n) # k \<and> \<not> veto b (h @ [(''close.bs.alert'', n)]))"

lemma close_allowed_append [intro]: "close_allowed b l n \<Longrightarrow> close_allowed b (l @ k) n"
  unfolding close_allowed_def by (metis append.assoc append_Cons)

definition alert_inv :: "alert_env \<Rightarrow> nat list \<Rightarrow> alert_page \<Rightarrow> bool" where
  "alert_inv b ns0 s \<longleftrightarrow>
     (\<forall>n \<in> set ns0. n \<notin> set (attached s) \<longrightarrow> close_allowed b (log s) n) \<and>
     (\<forall>(m, ns) \<in> set (pending s). \<forall>n \<in> set ns. close_allowed b (log s) n)"

lemma removeElement_fields:
  "set (attached (removeElement ns s)) = set (attached s) - set ns"
  "set (pending (removeElement ns s)) \<subseteq> set (pending s)"
  "\<exists>k. log (removeElement ns s) = log s @ k"
proof -
  have e: "attached (foldl (\<lambda>s n. emit ''closed.bs.alert'' n s) t ns) = attached t \<and>
      pending (foldl (\<lambda>s n. emit ''closed.bs.alert'' n s) t ns) = pending t \<and>
      log (foldl (\<lambda>s n. emit ''closed.bs.alert'' n s) t ns) = log t @ map (\<lambda>n. (''closed.bs.alert'', n)) ns" for t :: alert_page
    by (induction ns arbitrary: t) (simp_all add: emit_def)
  show "set (attached (removeElement ns s)) = set (attached s) - set ns"
    "set (pending (removeElement ns s)) \<subseteq> set (pending s)" "\<exists>k. log (removeElement ns s) = log s @ k"
    using e [of "s\<lparr>attached := filter (\<lambda>n. n \<notin> set ns) (attached s)\<rparr>"]
    by (auto simp: removeElement_def Let_def)
qed

lemma removeElement_inv:
  assumes "alert_inv b ns0 s" "\<forall>n \<in> set ns. close_allowed b (log s) n"
  shows "alert_inv b ns0 (removeElement ns s)"
proof -
  obtain k where "log (removeElement ns s) = log s @ k" using removeElement_fields(3) by blast
  then have mono: "close_allowed b (log s) n \<Longrightarrow> close_allowed b (log (removeElement ns s)) n" for n by auto
  have sub: "x \<in> set (pending (removeElement ns s)) \<Longrightarrow> x \<in> set (pending s)" for x
    using removeElement_fields(2) by blast
  show ?thesis using assms
    by (auto simp: alert_inv_def removeElement_fields(1) intro!: mono dest!: sub)
qed

lemma trigger_all_fields:
  fixes s :: alert_page
  assumes "trigger_all b ev ns s = (s1, p)"
  shows "cls s1 = cls s" "attr s1 = attr s" "attached s1 = attached s" "pending s1 = pending s"
    "\<exists>k. log s1 = log s @ k"
    "\<not> p \<Longrightarrow> n \<in> set ns \<Longrightarrow> \<exists>h k. log s1 = h @ (ev, n) # k \<and> \<not> veto b (h @ [(ev, n)])"
proof -
  have "trigger_all b ev ns s = (s1, p) \<Longrightarrow> cls s1 = cls s \<and> attr s1 = attr s \<and> attached s1 = attached s \<and> pending s1 = pending s \<and>
      (\<exists>k. log s1 = log s @ k) \<and>
      (\<not> p \<longrightarrow> (\<forall>n \<in> set ns. \<exists>h k. log s1 = h @ (ev, n) # k \<and> \<not> veto b (h @ [(ev, n)])))"
  proof (induction ns arbitrary: s s1 p)
    case (Cons n ns)
    obtain d1 p1 where t: "trigger b ev n s = (d1, p1)" by fastforce
    obtain d2 q where r: "trigger_all b ev ns d1 = (d2, q)" by fastforce
    have d1: "d1 = s\<lparr>log := log s @ [(ev, n)]\<rparr>" "p1 = veto b (log s @ [(ev, n)])" using t by (auto simp: trigger_def)
    have e: "s1 = d2" "p = (p1 \<or> q)" using Cons.prems t r by auto
    from Cons.IH [OF r] d1 e show ?case by auto
  qed auto
  with assms show "cls s1 = cls s" "attr s1 = attr s" "attached s1 = attached s" "pending s1 = pending s"
    "\<exists>k. log s1 = log s @ k"
    "\<not> p \<Longrightarrow> n \<in> set ns \<Longrightarrow> \<exists>h k. log s1 = h @ (ev, n) # k \<and> \<not> veto b (h @ [(ev, n)])" by blast+
qed

lemma foldl_rem_class_fields [simp]:
  fixes s :: alert_page
  shows "attached (foldl (\<lambda>s n. rem_class n z s) s ns) = attached s"
    "pending (foldl (\<lambda>s n. rem_class n z s) s ns) = pending s"
    "log (foldl (\<lambda>s n. rem_class n z s) s ns) = log s"
  by (induction ns arbitrary: s) (simp_all add: rem_class_def)

lemma alert_inv_log:
  "alert_inv b ns0 s \<Longrightarrow> attached t = attached s \<Longrightarrow> pending t = pending s \<Longrightarrow> log t = log s @ k \<Longrightarrow> alert_inv b ns0 t"
  by (fastforce simp: alert_inv_def)

lemma close_inv:
  assumes "alert_inv b ns0 s"
  shows "alert_inv b ns0 (close b this s)"
proof -
  let ?ns = "alert_parent b this s"
  obtain s1 p where t: "trigger_all b ''close.bs.alert'' ?ns s = (s1, p)" by fastforce
  note f = trigger_all_fields [OF t]
  let ?s2 = "foldl (\<lambda>s n. rem_class n ''in'' s) s1 ?ns"
  obtain k where k: "log s1 = log s @ k" using f(5) by blast
  have i1: "alert_inv b ns0 s1" by (rule alert_inv_log [OF assms f(3,4) k])
  have i2: "alert_inv b ns0 ?s2" using alert_inv_log [OF assms, of ?s2 k] f(3,4) k by simp
  show ?thesis
  proof (cases p)
    case True
    then show ?thesis using t i1 by (simp add: close_def Let_def)
  next
    case False
    have a: "\<forall>n \<in> set ?ns. close_allowed b (log ?s2) n"
      using f(6) [OF False] by (auto simp: close_allowed_def)
    show ?thesis
      using t False i2 a removeElement_inv [OF i2 a] by (auto simp: close_def Let_def alert_inv_def)
  qed
qed

lemma transition_end_inv:
  assumes "alert_inv b ns0 s"
  shows "alert_inv b ns0 (transition_end n s)"
proof -
  have step: "alert_inv b ns0 t \<Longrightarrow> \<forall>(m, ns) \<in> set xs. \<forall>n \<in> set ns. close_allowed b (log t) n \<Longrightarrow>
      alert_inv b ns0 (foldl (\<lambda>s (m, ns). removeElement ns s) t xs)" for t xs
  proof (induction xs arbitrary: t)
    case (Cons x xs)
    obtain m ns where x: "x = (m, ns)" by fastforce
    have a: "alert_inv b ns0 (removeElement ns t)"
      by (rule removeElement_inv [OF Cons.prems(1)]) (use Cons.prems(2) x in auto)
    obtain k where "log (removeElement ns t) = log t @ k" using removeElement_fields(3) by blast
    with Cons.prems(2) have "\<forall>(m, ks) \<in> set xs. \<forall>n \<in> set ks. close_allowed b (log (removeElement ns t)) n"
      by (auto simp del: append_assoc intro!: close_allowed_append)
    from Cons.IH [OF a this] show ?case by (simp add: x)
  qed simp
  show ?thesis unfolding transition_end_def
    by (rule step) (use assms in \<open>auto simp: alert_inv_def\<close>)
qed

lemma alert_ops_inv: "alert_inv b ns0 s \<Longrightarrow> alert_inv b ns0 (foldl (alert_op b) s xs)"
proof (rule foldl_keeps)
  show "alert_inv b ns0 (alert_op b t x)" if "alert_inv b ns0 t" for t x
    using that by (cases x) (simp_all add: close_inv transition_end_inv)
qed

section \<open>Alerts: the properties\<close>

text \<open>
  Whatever clicks and transition ends happen, in any order, an alert that was in the page and
  no longer is had a close event that no listener prevented.
\<close>

theorem alert_closes_only_allowed:
  assumes "pending s = []" "n \<in> set (attached s)" "n \<notin> set (attached (foldl (alert_op b) s xs))"
  shows "\<exists>h k. log (foldl (alert_op b) s xs) = h @ (''close.bs.alert'', n) # k \<and>
    \<not> veto b (h @ [(''close.bs.alert'', n)])"
proof -
  have "alert_inv b (attached s) s" using assms(1) by (simp add: alert_inv_def)
  from alert_ops_inv [OF this, of xs] assms(2,3) show ?thesis by (auto simp: alert_inv_def close_allowed_def)
qed

definition alert_page1 :: alert_page where
  "alert_page1 = \<lparr>cls = (\<lambda>n. [''alert'', ''fade'', ''in'']), attr = (\<lambda>_. []), style = (\<lambda>_. []), log = [],
     attached = [7, 8], pending = []\<rparr>"

definition alert_env1 :: alert_env where
  "alert_env1 = \<lparr>transition = True, veto = (\<lambda>h. last h = (''close.bs.alert'', 8)), select = (\<lambda>_. []),
     alert_of = (\<lambda>n. if n = 1 then [7] else [8])\<rparr>"

theorem alert_closes_only_allowed_witness:
  "7 \<notin> set (attached (foldl (alert_op alert_env1) alert_page1 [Close 1, Close 2, TransitionEnd 7, TransitionEnd 8])) \<and>
   8 \<in> set (attached (foldl (alert_op alert_env1) alert_page1 [Close 1, Close 2, TransitionEnd 7, TransitionEnd 8])) \<and>
   (\<exists>h k. log (foldl (alert_op alert_env1) alert_page1 [Close 1, Close 2, TransitionEnd 7, TransitionEnd 8]) =
     h @ (''close.bs.alert'', 7) # k)"
proof -
  have a: "attached (foldl (alert_op alert_env1) alert_page1 [Close 1, Close 2, TransitionEnd 7, TransitionEnd 8]) = [8]"
    by code_simp
  then show ?thesis
    using alert_closes_only_allowed [of alert_page1 7 alert_env1 "[Close 1, Close 2, TransitionEnd 7, TransitionEnd 8]"]
    by (auto simp: alert_page1_def simp del: foldl.simps)
qed

text \<open>
  C14: A close that nobody prevents takes the alerts it is for out of the page.  When the browser has no
  transitions or none of them has the class \<open>fade\<close> this happens at once: exactly these alerts are gone,
  and each has been told with \<open>closed.bs.alert\<close>.  Otherwise they lose the class \<open>in\<close>, all stay in
  the page and none has been told, and they go at the first end of a transition of one of them, be it
  the browser's event or the timer's.
\<close>

theorem alert_close_gone:
  assumes "\<And>h m. \<not> veto b (h @ [(''close.bs.alert'', m)])" "n \<in> set (alert_parent b this s)"
  shows "if transition b \<and> (\<exists>k \<in> set (alert_parent b this s). has_class k ''fade'' s)
    then attached (close b this s) = attached s \<and> \<not> has_class n ''in'' (close b this s) \<and>
      count_list (log (close b this s)) (''closed.bs.alert'', n) = count_list (log s) (''closed.bs.alert'', n) \<and>
      (\<forall>m \<in> set (alert_parent b this s). n \<notin> set (attached (transition_end m (close b this s))))
    else set (attached (close b this s)) = set (attached s) - set (alert_parent b this s) \<and>
      count_list (log (close b this s)) (''closed.bs.alert'', n) > count_list (log s) (''closed.bs.alert'', n)"
proof -
  let ?ns = "alert_parent b this s" and ?e = "(''closed.bs.alert'', n)"
  obtain s1 p where t: "trigger_all b ''close.bs.alert'' ?ns s = (s1, p)" by fastforce
  note f = trigger_all_fields [OF t]
  have "\<not> snd (trigger_all b ''close.bs.alert'' ns t)" for ns and t :: alert_page
    by (induction ns arbitrary: t) (simp_all add: trigger_def case_prod_beta assms(1))
  then have p: "\<not> p" using t by (metis snd_conv)
  have "count_list (log (fst (trigger_all b ''close.bs.alert'' ns u))) ?e = count_list (log u) ?e" for ns and u :: alert_page
    by (induction ns arbitrary: u) (simp_all add: trigger_def case_prod_beta)
  then have l1: "count_list (log s1) ?e = count_list (log s) ?e" using t by (metis fst_conv)
  let ?s2 = "foldl (\<lambda>s n. rem_class n ''in'' s) s1 ?ns"
  have r: "has_class k z (foldl (\<lambda>s n. rem_class n ''in'' s) u ks) \<longleftrightarrow> has_class k z u \<and> \<not> (z = ''in'' \<and> k \<in> set ks)"
    for k z ks and u :: alert_page
    by (induction ks arbitrary: u) (auto simp: bs_ops)
  have fade: "list_ex (\<lambda>n. has_class n ''fade'' ?s2) ?ns \<longleftrightarrow> (\<exists>k \<in> set ?ns. has_class k ''fade'' s)"
    by (simp only: list_ex_iff r) (simp add: has_class_def f(1))
  show ?thesis
  proof (cases "transition b \<and> (\<exists>k \<in> set ?ns. has_class k ''fade'' s)")
    case True
    then have c: "close b this s = ?s2\<lparr>pending := pending ?s2 @ map (\<lambda>n. (n, ?ns)) ?ns\<rparr>"
      using t p fade by (simp add: close_def Let_def)
    have gone: "n \<notin> set (attached (foldl (\<lambda>s (m, ns). removeElement ns s) u xs))"
      if "n \<notin> set (attached u) \<or> (\<exists>m. (m, ?ns) \<in> set xs)" for u xs
      using that
    proof (induction xs arbitrary: u)
      case (Cons x xs)
      then show ?case using assms(2) by (cases x) (auto simp: removeElement_fields(1))
    qed simp
    have "n \<notin> set (attached (transition_end m (close b this s)))" if "m \<in> set ?ns" for m
      using that unfolding c transition_end_def by (intro gone) auto
    moreover have "\<not> has_class n ''in'' (close b this s)" using r [of n "''in''" s1 ?ns] assms(2) by (simp add: c has_class_def)
    ultimately show ?thesis using True f(3) l1 by (simp add: c)
  next
    case False
    then have c: "close b this s = removeElement ?ns ?s2" using t p fade by (auto simp: close_def Let_def)
    have e: "log (foldl (\<lambda>s n. emit ''closed.bs.alert'' n s) u ks) = log u @ map (\<lambda>n. (''closed.bs.alert'', n)) ks"
      for ks and u :: alert_page
      by (induction ks arbitrary: u) (simp_all add: emit_def)
    have "count_list (map (\<lambda>n. (''closed.bs.alert'', n)) ?ns) ?e > 0" using assms(2) by (intro gr0I) (auto simp: count_list_0_iff)
    then have "count_list (log (close b this s)) ?e > count_list (log s) ?e"
      unfolding c removeElement_def Let_def using l1 by (simp add: e)
    then show ?thesis using False f(3) unfolding c if_not_P [OF False] by (simp add: removeElement_fields(1))
  qed
qed

theorem alert_close_gone_witness:
  "7 \<notin> set (attached (transition_end 7 (close (alert_env1\<lparr>veto := \<lambda>_. False\<rparr>) 1 alert_page1)))
   \<and> 7 \<notin> set (attached (close (alert_env1\<lparr>veto := \<lambda>_. False, transition := False\<rparr>) 1 alert_page1))"
proof -
  have p: "alert_parent (alert_env1\<lparr>veto := \<lambda>_. False\<rparr>) 1 alert_page1 = [7]"
    "alert_parent (alert_env1\<lparr>veto := \<lambda>_. False, transition := False\<rparr>) 1 alert_page1 = [7]"
    by (simp_all add: alert_parent_def selector_of_def alert_env1_def alert_page1_def Let_def)
  show ?thesis
    using alert_close_gone [of "alert_env1\<lparr>veto := \<lambda>_. False\<rparr>" 7 1 alert_page1]
      alert_close_gone [of "alert_env1\<lparr>veto := \<lambda>_. False, transition := False\<rparr>" 7 1 alert_page1]
    unfolding p by (simp add: alert_env1_def alert_page1_def has_class_def)
qed

section \<open>Buttons: the properties\<close>

text \<open>
  Loading and back: a button put into the loading state and then reset, each with its turn of
  the event loop, has the text it had, is not disabled and not loading; in between it shows the
  loading text and is disabled.
\<close>

theorem button_loading_reset:
  assumes "oget (data s el) ''resetText'' = None" "oget (data s el) ''loadingText'' = None"
    "oget (options b) ''loadingText'' = Some t" "timeouts s = []"
  shows "let s1 = run_timeouts b (setState el ''loading'' s); s2 = run_timeouts b (setState el ''reset'' s1)
    in content s1 el = t \<and> has_class el ''disabled'' s1 \<and> isLoading s1 el \<and>
       content s2 el = content s el \<and> \<not> has_class el ''disabled'' s2 \<and> oget (attr s2 el) ''disabled'' = None \<and>
       \<not> isLoading s2 el"
  using assms by (simp add: Let_def setState_def run_timeouts_def apply_state_def put_text_def bs_ops)

theorem button_loading_reset_witness:
  "let s = \<lparr>cls = (\<lambda>_. [''btn'']), attr = (\<lambda>_. []), style = (\<lambda>_. []), log = [], content = (\<lambda>_. ''Save''), data = (\<lambda>_. []),
        isLoading = (\<lambda>_. False), checked = (\<lambda>_. False), timeouts = []\<rparr>;
      b = \<lparr>options = [(''loadingText'', ''loading...'')], group = (\<lambda>_. None), members = (\<lambda>_. []), inputs = (\<lambda>_. []),
        input_type = (\<lambda>_. '''')\<rparr>;
      s1 = run_timeouts b (setState 3 ''loading'' s)
   in content s1 3 = ''loading...'' \<and> content (run_timeouts b (setState 3 ''reset'' s1)) 3 = ''Save''"
  using button_loading_reset [of "\<lparr>cls = (\<lambda>_. [''btn'']), attr = (\<lambda>_. []), style = (\<lambda>_. []), log = [], content = (\<lambda>_. ''Save''), data = (\<lambda>_. []),
        isLoading = (\<lambda>_. False), checked = (\<lambda>_. False), timeouts = []\<rparr>" 3
      "\<lparr>options = [(''loadingText'', ''loading...'')], group = (\<lambda>_. None), members = (\<lambda>_. []), inputs = (\<lambda>_. []),
        input_type = (\<lambda>_. '''')\<rparr>" "''loading...''"]
  by (simp add: Let_def oget_Cons)

text \<open>
  Toggling a radio button of a group leaves it the only active element of the group and its
  inputs checked, whatever the group looked like, and reports a change just when it was not
  checked before.
\<close>

theorem button_radio:
  assumes "group b el = Some g" "inputs b el = [i]" "input_type b i = ''radio''" "el \<in> set (members b g)"
  shows "let s1 = button_toggle b el s
    in (\<forall>n \<in> set (members b g). has_class n ''active'' s1 \<longleftrightarrow> n = el) \<and> checked s1 i \<and>
       log s1 = log s @ (if checked s i then [] else [(''change'', i)])"
proof -
  have r: "has_class n ''active'' (foldl (\<lambda>s n. rem_class n ''active'' s) t ns) \<longleftrightarrow> has_class n ''active'' t \<and> n \<notin> set ns"
    "checked (foldl (\<lambda>s n. rem_class n ''active'' s) t ns) = checked t"
    "log (foldl (\<lambda>s n. rem_class n ''active'' s) t ns) = log t" for n ns and t :: button_page
    by (induction ns arbitrary: t) (auto simp: bs_ops)
  have a: "has_class n ''active'' (toggle_radio b el g s) \<longleftrightarrow> n = el" if "n \<in> set (members b g)" for n
    using that r(1) [of n s "members b g"] by (auto simp: toggle_radio_def add_class_def has_class_def)
  have "log (toggle_radio b el g s) = log s"
    by (simp add: toggle_radio_def add_class_def r)
  with a assms show ?thesis
    by (simp add: button_toggle_def set_checked_def emit_def has_class_def Let_def)
qed

theorem button_radio_witness:
  "let b = \<lparr>options = [], group = (\<lambda>_. Some 9), members = (\<lambda>_. [3, 4, 5]), inputs = (\<lambda>n. [n + 10]), input_type = (\<lambda>_. ''radio'')\<rparr>;
      s = \<lparr>cls = (\<lambda>n. if n = 4 then [''btn'', ''active''] else [''btn'']), attr = (\<lambda>_. []), style = (\<lambda>_. []), log = [],
        content = (\<lambda>_. ''''), data = (\<lambda>_. []), isLoading = (\<lambda>_. False), checked = (\<lambda>n. n = 14), timeouts = []\<rparr>
   in has_class 3 ''active'' (button_toggle b 3 s) \<and> \<not> has_class 4 ''active'' (button_toggle b 3 s)"
  using button_radio [of "\<lparr>options = [], group = (\<lambda>_. Some 9), members = (\<lambda>_. [3, 4, 5]), inputs = (\<lambda>n. [n + 10]), input_type = (\<lambda>_. ''radio'')\<rparr>"
      3 9 13 "\<lparr>cls = (\<lambda>n. if n = 4 then [''btn'', ''active''] else [''btn'']), attr = (\<lambda>_. []), style = (\<lambda>_. []), log = [],
        content = (\<lambda>_. ''''), data = (\<lambda>_. []), isLoading = (\<lambda>_. False), checked = (\<lambda>n. n = 14), timeouts = []\<rparr>"]
  by (simp add: Let_def)

end
