(* ===== verification/BS_Tab.thy ===== *)
theory BS_Tab
  imports BS_Dom
begin

text \<open>
  The tab plugin of \<^verbatim>\<open>docs/bootstrap.js\<close> (lines 2060 to 2195): showing a tab activates its
  list item and its pane, each in its own container.  The first component a step returns is the
  page, the second says that it raised an exception (what it did before stays done).
\<close>

record tab_env = browser +
  select :: "string \<Rightarrow> nat list"
  children :: "nat \<Rightarrow> nat list"
  parent :: "nat \<Rightarrow> nat option"
  parent_li :: "nat \<Rightarrow> nat option"
  closest_ul :: "nat \<Rightarrow> nat option"          \<comment> \<open>\<open>closest('ul:not(.dropdown-menu)')\<close>\<close>
  closest_li :: "nat \<Rightarrow> nat option"
  closest_dropdown :: "nat \<Rightarrow> nat option"    \<comment> \<open>\<open>closest('li.dropdown')\<close>\<close>
  descendants :: "nat \<Rightarrow> nat list"           \<comment> \<open>in document order\<close>
  links_in :: "nat \<Rightarrow> nat list"
  tab_toggles :: "nat \<Rightarrow> nat list"           \<comment> \<open>\<open>find('[data-toggle="tab"]')\<close>\<close>

text \<open>
  What waits for the end of a transition: the call of \<open>next\<close> with the variables it captures (the
  elements to activate, the ones that were active, and the previous link and the link of the
  callback).
\<close>

datatype next_call = Next (element: "nat list") (active: "nat list") (previous: "nat list") (this: nat)

record tab_page = dom +
  pending :: "(nat \<times> next_call) list"

definition active_children :: "tab_env \<Rightarrow> nat list \<Rightarrow> tab_page \<Rightarrow> nat list" where
  "active_children b cs s = filter (\<lambda>n. has_class n ''active'' s) (concat (map (children b) cs))"

definition rem_classes :: "nat list \<Rightarrow> string \<Rightarrow> tab_page \<Rightarrow> tab_page" where
  "rem_classes ns z s = foldl (\<lambda>s n. rem_class n z s) s ns"

definition add_classes :: "nat list \<Rightarrow> string \<Rightarrow> tab_page \<Rightarrow> tab_page" where
  "add_classes ns z s = foldl (\<lambda>s n. add_class n z s) s ns"

definition set_expanded :: "tab_env \<Rightarrow> nat list \<Rightarrow> string \<Rightarrow> tab_page \<Rightarrow> tab_page" where
  "set_expanded b ns v s = foldl (\<lambda>s n. set_attr n ''aria-expanded'' v s) s (concat (map (tab_toggles b) ns))"

text \<open>\<open>find('> .dropdown-menu > .active')\<close>.\<close>

definition menu_active :: "tab_env \<Rightarrow> nat list \<Rightarrow> tab_page \<Rightarrow> nat list" where
  "menu_active b ns s =
     active_children b (filter (\<lambda>n. has_class n ''dropdown-menu'' s) (concat (map (children b) ns))) s"

definition in_menu :: "tab_env \<Rightarrow> nat list \<Rightarrow> tab_page \<Rightarrow> bool" where
  "in_menu b ns s \<longleftrightarrow>
     list_ex (\<lambda>n. case parent b n of Some p \<Rightarrow> has_class p ''dropdown-menu'' s | None \<Rightarrow> False) ns"

definition dropdowns :: "tab_env \<Rightarrow> nat list \<Rightarrow> nat list" where
  "dropdowns b ns = concat (map (\<lambda>n. case closest_dropdown b n of Some p \<Rightarrow> [p] | None \<Rightarrow> []) ns)"

text \<open>The first half of \<open>next\<close>: what was active goes; and the second half: the new elements come.\<close>

definition deactivate :: "tab_env \<Rightarrow> nat list \<Rightarrow> tab_page \<Rightarrow> tab_page" where
  "deactivate b act s =
     (let s1 = rem_classes act ''active'' s
      in set_expanded b act ''false'' (rem_classes (menu_active b act s1) ''active'' s1))"

definition show_elements :: "tab_env \<Rightarrow> nat list \<Rightarrow> tab_page \<Rightarrow> tab_page" where
  "show_elements b els s = set_expanded b els ''true'' (add_classes els ''active'' s)"

definition open_menu :: "tab_env \<Rightarrow> nat list \<Rightarrow> tab_page \<Rightarrow> tab_page" where
  "open_menu b els s =
     (if in_menu b els s then set_expanded b els ''true'' (add_classes (dropdowns b els) ''active'' s) else s)"

definition tab_callback :: "(nat list \<times> nat) option \<Rightarrow> tab_page \<Rightarrow> tab_page" where
  "tab_callback cb s =
     (case cb of
        None \<Rightarrow> s
      | Some (prev, link) \<Rightarrow> emit ''shown.bs.tab'' link (foldl (\<lambda>s n. emit ''hidden.bs.tab'' n s) s prev))"

text \<open>\<open>next\<close>: with a transition, the reflow reads a property of the first element, which may not exist.\<close>

definition next_step :: "tab_env \<Rightarrow> nat list \<Rightarrow> nat list \<Rightarrow> bool \<Rightarrow> (nat list \<times> nat) option \<Rightarrow> tab_page \<Rightarrow> tab_page \<times> bool" where
  "next_step b els act tr cb s =
     (let s1 = show_elements b els (deactivate b act s)
      in if tr \<and> els = [] then (s1, True)
         else let s2 = (if tr then add_classes els ''in'' s1 else rem_classes els ''fade'' s1)
              in (tab_callback cb (open_menu b els s2), False))"

definition activate :: "tab_env \<Rightarrow> nat list \<Rightarrow> nat list \<Rightarrow> (nat list \<times> nat) option \<Rightarrow> tab_page \<Rightarrow> tab_page \<times> bool" where
  "activate b els containers cb s =
     (let act = active_children b containers s;
          tr = (cb \<noteq> None \<and> transition b \<and>
                (act \<noteq> [] \<and> list_ex (\<lambda>n. has_class n ''fade'' s) act \<or>
                 list_ex (\<lambda>n. has_class n ''fade'' s) (concat (map (children b) containers))));
          (s1, raised) =
            (case cb of
               Some (prev, link) \<Rightarrow>
                 if act \<noteq> [] \<and> tr
                 then (s\<lparr>pending := pending s @ map (\<lambda>n. (n, Next els act prev link)) act\<rparr>, False)
                 else next_step b els act tr cb s
             | None \<Rightarrow> next_step b els act tr cb s)
      in if raised then (s1, True) else (rem_classes act ''in'' s1, False))"

text \<open>The link's target: an empty \<open>data-target\<close> counts as none.\<close>

definition tab_selector :: "string obj \<Rightarrow> string option" where
  "tab_selector at =
     (case oget at ''data-target'' of
        Some t \<Rightarrow> if t \<noteq> '''' then Some t else map_option (ie7_strip 0) (oget at ''href'')
      | None \<Rightarrow> map_option (ie7_strip 0) (oget at ''href''))"

definition previous_links :: "tab_env \<Rightarrow> nat option \<Rightarrow> tab_page \<Rightarrow> nat list" where
  "previous_links b ul s =
     (case ul of
        None \<Rightarrow> []
      | Some u \<Rightarrow> (case rev (filter (\<lambda>n. has_class n ''active'' s) (descendants b u)) of
                    [] \<Rightarrow> [] | n # _ \<Rightarrow> links_in b n))"

fun trigger_each :: "'b browser_scheme \<Rightarrow> string \<Rightarrow> nat list \<Rightarrow> 'a dom_scheme \<Rightarrow> 'a dom_scheme \<times> bool" where
  "trigger_each b ev [] d = (d, False)"
| "trigger_each b ev (n # ns) d =
     (case trigger b ev n d of (d1, p) \<Rightarrow> case trigger_each b ev ns d1 of (d2, q) \<Rightarrow> (d2, p \<or> q))"

definition opt_list :: "nat option \<Rightarrow> nat list" where
  "opt_list v = (case v of None \<Rightarrow> [] | Some n \<Rightarrow> [n])"

definition show_tab :: "tab_env \<Rightarrow> nat \<Rightarrow> tab_page \<Rightarrow> tab_page \<times> bool" where
  "show_tab b link s =
     (let ul = closest_ul b link
      in if (case parent_li b link of Some li \<Rightarrow> has_class li ''active'' s | None \<Rightarrow> False) then (s, False)
         else let prev = previous_links b ul s
              in case trigger_each b ''hide.bs.tab'' prev s of (s1, hidePrevented) \<Rightarrow>
                 case trigger b ''show.bs.tab'' link s1 of (s2, showPrevented) \<Rightarrow>
                   if showPrevented \<or> hidePrevented then (s2, False)
                   else let target = (case tab_selector (attr s link) of Some t \<Rightarrow> select b t | None \<Rightarrow> [])
                        in case activate b (opt_list (closest_li b link)) (opt_list ul) None s2 of (s3, raised) \<Rightarrow>
                             if raised then (s3, True)
                             else activate b target (remdups (concat (map (\<lambda>n. opt_list (parent b n)) target)))
                                    (Some (prev, link)) s3)"

text \<open>The transition of an element ends: all that waits on it runs, each with \<open>transition\<close> set.\<close>

definition tab_transition_end :: "tab_env \<Rightarrow> nat \<Rightarrow> tab_page \<Rightarrow> tab_page" where
  "tab_transition_end b n s =
     foldl (\<lambda>s (m, k). fst (next_step b (element k) (active k) True (Some (previous k, this k)) s))
       (s\<lparr>pending := filter (\<lambda>(m, k). m \<noteq> n) (pending s)\<rparr>) (filter (\<lambda>(m, k). m = n) (pending s))"

section \<open>What the steps do to the classes\<close>

lemma has_class_rem [simp]: "has_class m y (rem_classes ns z s) \<longleftrightarrow> has_class m y s \<and> \<not> (m \<in> set ns \<and> y = z)"
  unfolding rem_classes_def by (induction ns arbitrary: s) (auto simp: rem_class_def has_class_def)

lemma has_class_add [simp]: "has_class m y (add_classes ns z s) \<longleftrightarrow> has_class m y s \<or> m \<in> set ns \<and> y = z"
  unfolding add_classes_def by (induction ns arbitrary: s) (auto simp: add_class_def has_class_def)

lemma set_expanded_cls [simp]: "cls (set_expanded b ns v s) = cls s"
proof -
  have "cls (foldl (\<lambda>s n. set_attr n ''aria-expanded'' v s) s xs) = cls s" for xs
    by (induction xs arbitrary: s) (auto simp: set_attr_def)
  then show ?thesis by (simp add: set_expanded_def)
qed

lemma has_class_expanded [simp]: "has_class m y (set_expanded b ns v s) = has_class m y s"
  by (simp add: has_class_def)

lemma has_class_callback [simp]: "has_class m y (tab_callback cb s) = has_class m y s"
proof -
  have "cls (foldl (\<lambda>s n. emit ev n s) s xs) = cls s" for ev xs and s :: tab_page
    by (induction xs arbitrary: s) (auto simp: emit_def)
  then show ?thesis by (auto simp: tab_callback_def has_class_def emit_def split: option.split)
qed

text \<open>An element has one parent, whose child it is.\<close>

definition tab_wf :: "tab_env \<Rightarrow> bool" where
  "tab_wf b \<longleftrightarrow> (\<forall>p n. n \<in> set (children b p) \<longrightarrow> parent b n = Some p)"

lemma menu_active_parent:
  "tab_wf b \<Longrightarrow> n \<in> set (menu_active b ns s) \<Longrightarrow> \<exists>m. parent b n = Some m \<and> has_class m ''dropdown-menu'' s"
  by (auto simp: menu_active_def active_children_def tab_wf_def)

lemma active_childrenD: "n \<in> set (active_children b cs s) \<longleftrightarrow> has_class n ''active'' s \<and> (\<exists>c \<in> set cs. n \<in> set (children b c))"
  by (auto simp: active_children_def)

lemma next_step_active:
  assumes "tab_wf b" "els \<noteq> [] \<or> \<not> tr" "\<not> in_menu b els s"
    "next_step b els act tr cb s = (s1, raised)"
  shows "\<not> raised" "has_class m ''dropdown-menu'' s1 = has_class m ''dropdown-menu'' s"
    "parent b n = Some c \<Longrightarrow> \<not> has_class c ''dropdown-menu'' s \<Longrightarrow>
     has_class n ''active'' s1 \<longleftrightarrow> n \<in> set els \<or> has_class n ''active'' s \<and> n \<notin> set act"
proof -
  let ?d = "deactivate b act s" let ?e = "show_elements b els ?d"
  let ?f = "if tr then add_classes els ''in'' ?e else rem_classes els ''fade'' ?e"
  have dm: "has_class m ''dropdown-menu'' ?f = has_class m ''dropdown-menu'' s" for m
    by (simp add: show_elements_def deactivate_def Let_def)
  then have "open_menu b els ?f = ?f" using assms(3) by (simp add: open_menu_def in_menu_def cong: option.case_cong)
  then have r: "s1 = tab_callback cb ?f" "\<not> raised"
    using assms(2,4) by (auto simp: next_step_def Let_def)
  then show "\<not> raised" "has_class m ''dropdown-menu'' s1 = has_class m ''dropdown-menu'' s" using dm by simp_all
  show "has_class n ''active'' s1 \<longleftrightarrow> n \<in> set els \<or> has_class n ''active'' s \<and> n \<notin> set act"
    if "parent b n = Some c" "\<not> has_class c ''dropdown-menu'' s"
  proof -
    have "n \<notin> set (menu_active b act (rem_classes act ''active'' s))"
      using menu_active_parent [OF assms(1), of n act "rem_classes act ''active'' s"] that by auto
    then show ?thesis by (auto simp: r(1) show_elements_def deactivate_def Let_def)
  qed
qed

text \<open>Activating without a transition.\<close>

lemma tab_activate_active:
  assumes "tab_wf b" "cb = None \<or> \<not> transition b" "\<not> in_menu b els s" "activate b els [c] cb s = (s1, raised)"
  shows "\<not> raised" "has_class m ''dropdown-menu'' s1 = has_class m ''dropdown-menu'' s"
    "parent b n = Some p \<Longrightarrow> \<not> has_class p ''dropdown-menu'' s \<Longrightarrow>
     has_class n ''active'' s1 \<longleftrightarrow> n \<in> set els \<or> has_class n ''active'' s \<and> n \<notin> set (children b c)"
proof -
  let ?act = "active_children b [c] s"
  obtain s2 r2 where n: "next_step b els ?act False cb s = (s2, r2)" by fastforce
  note a = next_step_active [OF assms(1) _ assms(3) n]
  have e: "s1 = rem_classes ?act ''in'' s2" "\<not> raised"
    using assms(2,4) n a(1) by (auto simp: activate_def Let_def split: option.splits prod.splits)
  then show "\<not> raised" "has_class m ''dropdown-menu'' s1 = has_class m ''dropdown-menu'' s" using a(2) by simp_all
  show "has_class n ''active'' s1 \<longleftrightarrow> n \<in> set els \<or> has_class n ''active'' s \<and> n \<notin> set (children b c)"
    if "parent b n = Some p" "\<not> has_class p ''dropdown-menu'' s"
    using a(3) [OF _ that] e(1) by (auto simp: active_childrenD)
qed

lemma trigger_each_allowed:
  fixes s :: tab_page
  assumes "\<And>h n. \<not> veto b (h @ [(ev, n)])"
  shows "\<not> snd (trigger_each b ev ns s) \<and> has_class m y (fst (trigger_each b ev ns s)) = has_class m y s"
  by (induction ns arbitrary: s) (simp_all add: trigger_def case_prod_beta assms has_class_def)

lemma log_classes [simp]:
  "log (rem_classes ns z s) = log s" "log (add_classes ns z s) = log s" "log (set_expanded b ms v s) = log s"
proof -
  have f: "log (foldl f s xs) = log s" if "\<And>t x. log (f t x) = log t" for f :: "tab_page \<Rightarrow> nat \<Rightarrow> tab_page" and xs s
    using that by (induction xs arbitrary: s) auto
  show "log (rem_classes ns z s) = log s" "log (add_classes ns z s) = log s" "log (set_expanded b ms v s) = log s"
    unfolding rem_classes_def add_classes_def set_expanded_def by (rule f, simp add: bs_ops)+
qed

definition callback_events :: "(nat list \<times> nat) option \<Rightarrow> event list" where
  "callback_events cb = (case cb of None \<Rightarrow> [] | Some (prev, link) \<Rightarrow> map (Pair ''hidden.bs.tab'') prev @ [(''shown.bs.tab'', link)])"

lemma log_callback: "log (tab_callback cb s) = log s @ callback_events cb"
proof -
  have "log (foldl (\<lambda>s n. emit ev n s) s xs) = log s @ map (Pair ev) xs" for ev xs and s :: tab_page
    by (induction xs arbitrary: s) (auto simp: emit_def)
  then show ?thesis by (auto simp: tab_callback_def callback_events_def emit_def split: option.split)
qed

lemma log_next: "next_step b els act False cb s = (s1, r) \<Longrightarrow> log s1 = log s @ callback_events cb"
  by (auto simp: next_step_def Let_def log_callback open_menu_def show_elements_def deactivate_def)

lemma log_activate:
  assumes "cb = None \<or> \<not> transition b" "activate b els [c] cb s = (s1, raised)"
  shows "log s1 = log s @ callback_events cb"
proof -
  obtain s2 r2 where n: "next_step b els (active_children b [c] s) False cb s = (s2, r2)" by fastforce
  then have "log s1 = log s2"
    using assms by (auto simp: activate_def Let_def split: option.splits prod.splits if_splits)
  with log_next [OF n] show ?thesis by simp
qed

lemma log_trigger_each: "log (fst (trigger_each b ev ns (s :: tab_page))) = log s @ map (Pair ev) ns"
  by (induction ns arbitrary: s) (simp_all add: trigger_def case_prod_beta)

section \<open>The properties\<close>

text \<open>
  C16: Showing a tab that is not active, on a page without transitions whose listeners prevent
  nothing, leaves its list item the only active item of the list and its pane the only active
  pane of the container, whatever was active before.  The events are exactly \<open>hide.bs.tab\<close> on the
  previous links (those in the last active element of the list), \<open>show.bs.tab\<close> on the link, and when
  it is done \<open>hidden.bs.tab\<close> on the previous links and \<open>shown.bs.tab\<close> on the link.  The link is in an
  item directly in the list, its selector matches one pane, and neither the list nor the container of
  the pane, which is not the list, is a menu.
\<close>

theorem tab_one_active:
  assumes "tab_wf b" "\<not> transition b" "\<And>h n. \<not> veto b (h @ [(''hide.bs.tab'', n)])" "\<And>h n. \<not> veto b (h @ [(''show.bs.tab'', n)])"
    "closest_ul b link = Some ul" "closest_li b link = Some li" "parent_li b link = Some li" "li \<in> set (children b ul)"
    "tab_selector (attr s link) = Some sel" "select b sel = [pane]" "pane \<in> set (children b c)" "c \<noteq> ul"
    "\<not> has_class ul ''dropdown-menu'' s" "\<not> has_class c ''dropdown-menu'' s" "\<not> has_class li ''active'' s"
  shows "\<not> snd (show_tab b link s) \<and>
    (\<forall>n \<in> set (children b ul). has_class n ''active'' (fst (show_tab b link s)) \<longleftrightarrow> n = li) \<and>
    (\<forall>n \<in> set (children b c). has_class n ''active'' (fst (show_tab b link s)) \<longleftrightarrow> n = pane) \<and>
    (let before = filter (\<lambda>n. has_class n ''active'' s) (descendants b ul);
         prev = (if before = [] then [] else links_in b (last before))
     in log (fst (show_tab b link s)) = log s @ map (Pair ''hide.bs.tab'') prev @ [(''show.bs.tab'', link)]
          @ map (Pair ''hidden.bs.tab'') prev @ [(''shown.bs.tab'', link)])"
proof -
  have par: "parent b n = Some p" if "n \<in> set (children b p)" for n p using assms(1) that by (auto simp: tab_wf_def)
  let ?prev = "previous_links b (Some ul) s"
  obtain s1 p1 where t1: "trigger_each b ''hide.bs.tab'' ?prev s = (s1, p1)" by fastforce
  obtain s2 p2 where t2: "trigger b ''show.bs.tab'' link s1 = (s2, p2)" by fastforce
  have p: "\<not> p1" "\<not> p2" and c1: "has_class m y s2 = has_class m y s" for m y
    using trigger_each_allowed [where ev = "''hide.bs.tab''", OF assms(3), of ?prev s] t1 t2 assms(4) by (auto simp: trigger_def has_class_def)
  obtain s3 r3 where a3: "activate b [li] [ul] None s2 = (s3, r3)" by fastforce
  have m3: "\<not> in_menu b [li] s2" using assms(8,13) par c1 by (simp add: in_menu_def)
  note A = tab_activate_active [OF assms(1) _ m3 a3]
  obtain s4 r4 where a4: "activate b [pane] [c] (Some (?prev, link)) s3 = (s4, r4)" by fastforce
  have m4: "\<not> in_menu b [pane] s3" using assms(2,11,14) par c1 A(2) by (simp add: in_menu_def)
  note B = tab_activate_active [OF assms(1) _ m4 a4]
  have e: "show_tab b link s = (s4, r4)"
    using p t1 t2 a3 a4 A(1) par [OF assms(11)] assms(2,5-7,9,10,15) by (simp add: show_tab_def opt_list_def Let_def)
  have ul: "has_class n ''active'' s4 \<longleftrightarrow> n = li" if "n \<in> set (children b ul)" for n
  proof -
    have "n \<notin> set (children b c)" "n \<noteq> pane" using par [OF that] par [of _ c] assms(11,12) by auto
    then show ?thesis
      using A(3) [OF _ par [OF that]] B(3) [OF _ par [OF that]] that assms(2,8,13) c1 A(2) by simp
  qed
  have pane: "has_class n ''active'' s4 \<longleftrightarrow> n = pane" if "n \<in> set (children b c)" for n
    using B(3) [OF _ par [OF that]] that assms(2,14) c1 A(2) by auto
  let ?before = "filter (\<lambda>n. has_class n ''active'' s) (descendants b ul)"
  have prev: "?prev = (if ?before = [] then [] else links_in b (last ?before))"
    by (cases ?before rule: rev_cases) (simp_all add: previous_links_def)
  have "log s2 = log s @ map (Pair ''hide.bs.tab'') ?prev @ [(''show.bs.tab'', link)]"
    using log_trigger_each [of b "''hide.bs.tab''" ?prev s] t1 t2 by (auto simp: trigger_def)
  moreover have "log s4 = log s2 @ map (Pair ''hidden.bs.tab'') ?prev @ [(''shown.bs.tab'', link)]"
    using log_activate [OF _ a3] log_activate [OF _ a4] assms(2) by (simp add: callback_events_def)
  ultimately have log: "log s4 = log s @ map (Pair ''hide.bs.tab'') ?prev @ [(''show.bs.tab'', link)]
      @ map (Pair ''hidden.bs.tab'') ?prev @ [(''shown.bs.tab'', link)]" by simp
  show ?thesis unfolding Let_def prev [symmetric] using e B(1) assms(2) ul pane log by simp
qed

text \<open>Two lists: three tabs (links 11 to 13 in the items 1 to 3 of list 10) with the panes 21 to 23 of container 20.\<close>

definition tabs :: "bool \<Rightarrow> tab_env" where
  "tabs tr = \<lparr>transition = tr, veto = (\<lambda>_. False), select = (\<lambda>t. if t = ''#p2'' then [22] else if t = ''#p3'' then [23] else []),
     children = (\<lambda>n. if n = 10 then [1, 2, 3] else if n = 20 then [21, 22, 23] else []),
     parent = (\<lambda>n. if n \<in> {1, 2, 3} then Some 10 else if n \<in> {21, 22, 23} then Some 20 else None),
     parent_li = (\<lambda>n. Some (n - 10)), closest_ul = (\<lambda>n. Some 10), closest_li = (\<lambda>n. Some (n - 10)),
     closest_dropdown = (\<lambda>_. None), descendants = (\<lambda>n. if n = 10 then [1, 11, 2, 12, 3, 13] else []),
     links_in = (\<lambda>n. [n + 10]), tab_toggles = (\<lambda>n. if n \<in> {1, 2, 3} then [n + 10] else [])\<rparr>"

definition tab_page1 :: tab_page where
  "tab_page1 = \<lparr>cls = (\<lambda>n. if n = 1 then [''active''] else if n = 21 then [''fade'', ''in'', ''active'']
      else if n = 22 \<or> n = 23 then [''fade''] else []),
     attr = (\<lambda>n. if n = 12 then [(''href'', ''#p2'')] else if n = 13 then [(''href'', ''#p3'')] else []),
     style = (\<lambda>_. []), log = [], pending = []\<rparr>"

theorem tab_one_active_witness:
  "\<not> has_class 21 ''active'' (fst (show_tab (tabs False) 12 tab_page1)) \<and>
   has_class 22 ''active'' (fst (show_tab (tabs False) 12 tab_page1)) \<and>
   \<not> has_class 1 ''active'' (fst (show_tab (tabs False) 12 tab_page1)) \<and>
   log (fst (show_tab (tabs False) 12 tab_page1)) =
     [(''hide.bs.tab'', 11), (''show.bs.tab'', 12), (''hidden.bs.tab'', 11), (''shown.bs.tab'', 12)]"
proof -
  have s: "tab_selector (attr tab_page1 12) = Some ''#p2''" by code_simp
  have "tab_wf (tabs False)" by (simp add: tab_wf_def tabs_def)
  from tab_one_active [OF this, of 12 10 2 tab_page1, OF _ _ _ _ _ _ _ s, of 22 20]
  show ?thesis by (simp add: tabs_def tab_page1_def has_class_def)
qed

section \<open>Tabs that wait\<close>

text \<open>What the steps leave alone.\<close>

definition same_but :: "tab_page \<Rightarrow> tab_page \<Rightarrow> bool" where
  "same_but s t \<longleftrightarrow> pending t = pending s \<and> (\<forall>n. oget (attr t n) ''href'' = oget (attr s n) ''href'' \<and>
     oget (attr t n) ''data-target'' = oget (attr s n) ''data-target'')"

lemma same_but_trans: "same_but s t \<Longrightarrow> same_but t u \<Longrightarrow> same_but s u"
  by (simp add: same_but_def)

lemma same_but_ops [simp]:
  "same_but s (rem_classes ns z s)" "same_but s (add_classes ns z s)" "same_but s (set_expanded b ns v s)"
  "same_but s (tab_callback cb s)"
proof -
  have f: "same_but s (foldl f s xs)" if "\<And>t x. same_but t (f t x)" for f :: "tab_page \<Rightarrow> nat \<Rightarrow> tab_page" and xs s
    using that by (induction xs arbitrary: s) (auto simp: same_but_def)
  show "same_but s (rem_classes ns z s)" "same_but s (add_classes ns z s)" "same_but s (set_expanded b ns v s)"
    unfolding rem_classes_def add_classes_def set_expanded_def by (rule f, simp add: same_but_def bs_ops)+
  have "same_but s (foldl (\<lambda>s n. emit ev n s) s xs)" for ev xs
    by (rule f) (simp add: same_but_def emit_def)
  then show "same_but s (tab_callback cb s)"
    by (auto simp: tab_callback_def same_but_def emit_def split: option.split)
qed

lemma next_step_same: "same_but s (fst (next_step b els act tr cb s))"
proof -
  note t = same_but_trans
  have d: "same_but s (deactivate b act s)" for s by (auto simp: deactivate_def Let_def intro: t [OF _ t] same_but_ops)
  have e: "same_but s (show_elements b els s)" for s by (auto simp: show_elements_def intro: t same_but_ops)
  have o: "same_but s (open_menu b els s)" for s
    by (auto simp: open_menu_def intro: t same_but_ops) (simp add: same_but_def)
  let ?e = "show_elements b els (deactivate b act s)"
  have a: "same_but s ?e" using d e t by blast
  have "same_but s (tab_callback cb (open_menu b els f))" if "same_but ?e f" for f
    by (rule t [OF t [OF a that] t [OF o same_but_ops(4)]])
  with a show ?thesis by (auto simp: next_step_def Let_def)
qed

lemma next_step_fade:
  assumes "y \<noteq> ''active''" "y \<noteq> ''in''" "y = ''fade'' \<longrightarrow> m \<notin> set els \<or> tr"
  shows "has_class m y (fst (next_step b els act tr cb s)) = has_class m y s"
  using assms by (auto simp: next_step_def Let_def open_menu_def show_elements_def deactivate_def)

lemma has_class_pending [simp]: "has_class m y (s\<lparr>pending := q\<rparr>) = has_class m y s"
  by (simp add: has_class_def)

lemma activate_waits:
  assumes "active_children b [c] s = p # ps" "has_class p ''fade'' s" "transition b"
  shows "activate b els [c] (Some (prev, link)) s =
    (rem_classes (p # ps) ''in'' (s\<lparr>pending := pending s @ map (\<lambda>n. (n, Next els (p # ps) prev link)) (p # ps)\<rparr>), False)"
  using assms by (simp add: activate_def Let_def)

lemma trigger_each_same: "same_but s (fst (trigger_each b ev ns s))"
  by (induction ns arbitrary: s) (auto simp: trigger_def case_prod_beta same_but_def)

lemma active_children_cong:
  "(\<And>n. n \<in> set (children b c) \<Longrightarrow> has_class n ''active'' t = has_class n ''active'' s) \<Longrightarrow>
   active_children b [c] t = active_children b [c] s"
  by (auto simp: active_children_def intro!: filter_cong)

text \<open>
  Showing a tab while the active pane fades: the item is activated, the pane waits.
\<close>

lemma show_tab_waits:
  assumes "tab_wf b" "transition b" "\<And>h n. \<not> veto b (h @ [(''hide.bs.tab'', n)])" "\<And>h n. \<not> veto b (h @ [(''show.bs.tab'', n)])"
    "closest_ul b link = Some ul" "closest_li b link = Some li" "parent_li b link = Some li" "li \<in> set (children b ul)"
    "tab_selector (attr s link) = Some sel" "select b sel = [pane]" "pane \<in> set (children b c)" "c \<noteq> ul"
    "\<not> has_class ul ''dropdown-menu'' s" "\<not> has_class c ''dropdown-menu'' s" "\<not> has_class li ''active'' s"
    "active_children b [c] s = [p]" "has_class p ''fade'' s"
  shows "\<exists>prev. pending (fst (show_tab b link s)) = pending s @ [(p, Next [pane] [p] prev link)]"
    "n \<in> set (children b c) \<Longrightarrow> has_class n ''active'' (fst (show_tab b link s)) = has_class n ''active'' s"
    "n \<in> set (children b c) \<Longrightarrow> has_class n ''fade'' (fst (show_tab b link s)) = has_class n ''fade'' s"
    "n \<in> set (children b ul) \<Longrightarrow> has_class n ''active'' (fst (show_tab b link s)) \<longleftrightarrow> n = li"
    "has_class m ''dropdown-menu'' (fst (show_tab b link s)) = has_class m ''dropdown-menu'' s"
    "oget (attr (fst (show_tab b link s)) m) ''href'' = oget (attr s m) ''href'' \<and>
     oget (attr (fst (show_tab b link s)) m) ''data-target'' = oget (attr s m) ''data-target''"
proof -
  have par: "parent b n = Some p" if "n \<in> set (children b p)" for n p using assms(1) that by (auto simp: tab_wf_def)
  let ?prev = "previous_links b (Some ul) s"
  obtain s1 p1 where t1: "trigger_each b ''hide.bs.tab'' ?prev s = (s1, p1)" by fastforce
  obtain s2 p2 where t2: "trigger b ''show.bs.tab'' link s1 = (s2, p2)" by fastforce
  have p: "\<not> p1" "\<not> p2" and c1: "has_class m y s2 = has_class m y s" for m y
    using trigger_each_allowed [where ev = "''hide.bs.tab''", OF assms(3), of ?prev s] t1 t2 assms(4) by (auto simp: trigger_def has_class_def)
  have sb2: "same_but s s2" using trigger_each_same [of s b "''hide.bs.tab''" ?prev] t1 t2 by (auto simp: trigger_def same_but_def)
  let ?act = "active_children b [ul] s2"
  obtain s3' where n3: "next_step b [li] ?act False None s2 = (s3', False)"
    by (simp add: next_step_def Let_def)
  define s3 where "s3 = rem_classes ?act ''in'' s3'"
  have a3: "activate b [li] [ul] None s2 = (s3, False)"
    using n3 by (simp add: activate_def Let_def s3_def)
  have m3: "\<not> in_menu b [li] s2" using assms(8,13) par c1 by (simp add: in_menu_def)
  note A = tab_activate_active [OF assms(1) _ m3 a3]
  have sb3: "same_but s s3" unfolding s3_def
    using same_but_trans [OF sb2 same_but_trans [OF next_step_same same_but_ops(1)]] n3 by (metis fst_conv)
  have li: "li \<notin> set (children b c)" using par assms(8,12) by (metis option.inject)
  have act3: "has_class n ''active'' s3 = has_class n ''active'' s" if "n \<in> set (children b c)" for n
    using A(3) [OF _ par [OF that]] that c1 assms(12,14) par li by (metis option.inject empty_set list.simps(15) singletonD)
  have fade3: "has_class n ''fade'' s3 = has_class n ''fade'' s" if "n \<noteq> li" for n
    using next_step_fade [of "''fade''" n "[li]" False b ?act None s2] n3 that c1 by (simp add: s3_def)
  have pc: "p \<in> set (children b c)" using assms(16) active_childrenD [of p b "[c]" s] by simp
  then have "p \<noteq> li" using li by blast
  then have a4: "activate b [pane] [c] (Some (?prev, link)) s3 =
      (rem_classes [p] ''in'' (s3\<lparr>pending := pending s3 @ [(p, Next [pane] [p] ?prev link)]\<rparr>), False)"
    using activate_waits [of b c s3 p "[]" "[pane]" ?prev link] active_children_cong [of b c s3 s] act3 assms(2,16,17) fade3 by simp
  let ?s4 = "rem_classes [p] ''in'' (s3\<lparr>pending := pending s3 @ [(p, Next [pane] [p] ?prev link)]\<rparr>)"
  have e: "fst (show_tab b link s) = ?s4"
    using p t1 t2 a3 a4 par [OF assms(11)] assms(5-7,9,10,15) by (simp add: show_tab_def opt_list_def Let_def)
  have h: "has_class n y ?s4 = has_class n y s3" if "y \<noteq> ''in''" for n y
    using that by simp
  have sb: "same_but (s3\<lparr>pending := pending s3 @ [(p, Next [pane] [p] ?prev link)]\<rparr>) ?s4" by (rule same_but_ops)
  show "\<exists>prev. pending (fst (show_tab b link s)) = pending s @ [(p, Next [pane] [p] prev link)]"
    using sb sb3 by (auto simp: e same_but_def)
  show "n \<in> set (children b c) \<Longrightarrow> has_class n ''active'' (fst (show_tab b link s)) = has_class n ''active'' s"
    using act3 by (simp add: e h)
  show "n \<in> set (children b c) \<Longrightarrow> has_class n ''fade'' (fst (show_tab b link s)) = has_class n ''fade'' s"
    using fade3 [of n] li by (cases "n = li") (simp_all add: e h)
  show "n \<in> set (children b ul) \<Longrightarrow> has_class n ''active'' (fst (show_tab b link s)) \<longleftrightarrow> n = li"
    using A(3) [OF _ par, of n ul] c1 assms(13) by (simp add: e h)
  show "has_class m ''dropdown-menu'' (fst (show_tab b link s)) = has_class m ''dropdown-menu'' s"
    using A(2) c1 by (simp add: e h)
  show "oget (attr (fst (show_tab b link s)) m) ''href'' = oget (attr s m) ''href'' \<and>
     oget (attr (fst (show_tab b link s)) m) ''data-target'' = oget (attr s m) ''data-target''"
    using sb sb3 by (simp add: e same_but_def)
qed

lemma transition_end_twice:
  assumes "tab_wf b" "pending s = [(p, Next [x] [p] v1 l1), (p, Next [y] [p] v2 l2)]"
    "x \<in> set (children b c)" "y \<in> set (children b c)" "\<not> has_class c ''dropdown-menu'' s" "n \<in> set (children b c)"
  shows "has_class n ''active'' (tab_transition_end b p s) \<longleftrightarrow>
    n = x \<and> x \<noteq> p \<or> n = y \<or> has_class n ''active'' s \<and> n \<noteq> p"
proof -
  have par: "parent b n = Some c" if "n \<in> set (children b c)" for n using assms(1) that by (auto simp: tab_wf_def)
  let ?t = "s\<lparr>pending := []\<rparr>"
  obtain s1 r1 where n1: "next_step b [x] [p] True (Some (v1, l1)) ?t = (s1, r1)" by fastforce
  have m1: "\<not> in_menu b [x] ?t" using assms(3,5) par by (simp add: in_menu_def)
  note A = next_step_active [OF assms(1) _ m1 n1]
  obtain s2 r2 where n2: "next_step b [y] [p] True (Some (v2, l2)) s1 = (s2, r2)" by fastforce
  have m2: "\<not> in_menu b [y] s1" using assms(4,5) par A(2) by (simp add: in_menu_def)
  note B = next_step_active [OF assms(1) _ m2 n2]
  have "tab_transition_end b p s = s2" using n1 n2 assms(2) by (simp add: tab_transition_end_def)
  then show ?thesis using A(3) [OF _ par] B(3) [OF _ par] A(2) assms(5,6) by auto
qed

text \<open>
  With a transition, showing a third tab before the second one has come in leaves the panes of
  both active when the first pane's transition ends: both callbacks wait for the first pane, each
  takes only that pane away and adds its own; in the list only the third item is active.
\<close>

theorem tab_two_panes:
  assumes "tab_wf b" "transition b" "\<And>h ev n. \<not> veto b (h @ [(ev, n)])" "pending s = []"
    "closest_ul b l2 = Some ul" "closest_li b l2 = Some i2" "parent_li b l2 = Some i2" "i2 \<in> set (children b ul)"
    "closest_ul b l3 = Some ul" "closest_li b l3 = Some i3" "parent_li b l3 = Some i3" "i3 \<in> set (children b ul)"
    "tab_selector (attr s l2) = Some t2" "select b t2 = [p2]" "p2 \<in> set (children b c)"
    "tab_selector (attr s l3) = Some t3" "select b t3 = [p3]" "p3 \<in> set (children b c)"
    "c \<noteq> ul" "i2 \<noteq> i3" "p1 \<noteq> p2"
    "\<not> has_class ul ''dropdown-menu'' s" "\<not> has_class c ''dropdown-menu'' s"
    "\<not> has_class i2 ''active'' s" "active_children b [c] s = [p1]" "has_class p1 ''fade'' s"
  shows "let s1 = fst (show_tab b l2 s); s2 = fst (show_tab b l3 s1); s3 = tab_transition_end b p1 s2
    in has_class p2 ''active'' s3 \<and> has_class p3 ''active'' s3 \<and>
       (\<forall>n \<in> set (children b ul). has_class n ''active'' s2 \<longleftrightarrow> n = i3)"
proof -
  let ?s1 = "fst (show_tab b l2 s)"
  note A = show_tab_waits [OF assms(1-3) assms(3,5-8,13-15,19,22-26)]
  have pc: "p1 \<in> set (children b c)" using assms(25) active_childrenD [of p1 b "[c]" s] by simp
  have sel: "tab_selector (attr ?s1 l3) = Some t3"     using assms(16) unfolding tab_selector_def A(6) [THEN conjunct1] A(6) [THEN conjunct2] .
  have u: "\<not> has_class ul ''dropdown-menu'' ?s1" "\<not> has_class c ''dropdown-menu'' ?s1" using A(5) assms(22,23) by simp_all
  have i3: "\<not> has_class i3 ''active'' ?s1" using A(4) assms(12,20) by auto
  have ac: "active_children b [c] ?s1 = [p1]" using active_children_cong [OF A(2)] assms(25) by simp
  have f: "has_class p1 ''fade'' ?s1" using A(3) [OF pc] assms(26) by simp
  note B = show_tab_waits [OF assms(1-3) assms(3,9-12) sel assms(17-19) u i3 ac f]
  obtain v1 v2 where "pending (fst (show_tab b l3 ?s1)) = [(p1, Next [p2] [p1] v1 l2), (p1, Next [p3] [p1] v2 l3)]"
    using A(1) B(1) assms(4) by auto
  from transition_end_twice [OF assms(1) this assms(15,18)] B(4,5) u(2) assms(15,18,21)
  show ?thesis by (simp add: Let_def)
qed

theorem tab_two_panes_witness:
  "let s1 = fst (show_tab (tabs True) 12 tab_page1); s2 = fst (show_tab (tabs True) 13 s1);
       s3 = tab_transition_end (tabs True) 21 s2
   in has_class 22 ''active'' s3 \<and> has_class 23 ''active'' s3"
proof -
  have s: "tab_selector (attr tab_page1 12) = Some ''#p2''" "tab_selector (attr tab_page1 13) = Some ''#p3''" by code_simp+
  have "tab_wf (tabs True)" by (simp add: tab_wf_def tabs_def)
  from tab_two_panes [OF this, of tab_page1 12 10 2 13 3 "''#p2''" 22 20 "''#p3''" 23 21] s
  show ?thesis by (simp add: tabs_def tab_page1_def has_class_def active_children_def Let_def)
qed

end
