(* ===== verification/BS_ScrollSpy.thy ===== *)
theory BS_ScrollSpy
  imports BS_Dom
begin

text \<open>
  The scrollspy plugin of \<^verbatim>\<open>docs/bootstrap.js\<close> (lines 1888 to 2017): the table of offsets and
  targets of one spy, and the link it marks active as the page scrolls.  What the browser
  measures at an event is a record of its own.
\<close>

record spy_env =
  scroll_top :: int               \<comment> \<open>of the scroll element\<close>
  view_height :: int              \<comment> \<open>its height\<close>
  el_scroll_height :: int         \<comment> \<open>0 where the element has none (the window)\<close>
  body_height :: int
  root_height :: int
  is_window :: bool
  lookup :: "string \<Rightarrow> (bool \<times> int \<times> int) option"
    \<comment> \<open>the first element of a selector: visible, \<open>offset().top\<close>, \<open>position().top\<close>\<close>

text \<open>The navigation: its links in document order, and the elements above a set of elements.\<close>

record nav =
  links :: "nat list"
  parent_lis :: "nat list \<Rightarrow> nat list"     \<comment> \<open>\<open>parents('li')\<close>\<close>
  below_target :: "nat list \<Rightarrow> nat list"   \<comment> \<open>\<open>parentsUntil(options.target)\<close>\<close>
  parent_menu :: "nat \<Rightarrow> bool"             \<comment> \<open>the parent is a \<open>.dropdown-menu\<close>\<close>
  dropdowns_of :: "nat list \<Rightarrow> nat list"   \<comment> \<open>\<open>closest('li.dropdown')\<close>\<close>
  spy_offset :: int                       \<comment> \<open>the option \<open>offset\<close>\<close>

record spy = dom +
  offsets :: "int list"
  targets :: "string list"
  activeTarget :: "string option"
  scrollHeight :: int

definition getScrollHeight :: "spy_env \<Rightarrow> int" where
  "getScrollHeight e =
     (if el_scroll_height e \<noteq> 0 then el_scroll_height e else max (body_height e) (root_height e))"

text \<open>The target a link names: its \<open>data-target\<close>, or its \<open>href\<close>; it must look like \<open>#x\<close>.\<close>

definition link_target :: "spy \<Rightarrow> nat \<Rightarrow> string option" where
  "link_target s n =
     (case oget (attr s n) ''data-target'' of
        Some t \<Rightarrow> if t \<noteq> '''' then Some t else oget (attr s n) ''href''
      | None \<Rightarrow> oget (attr s n) ''href'')"

definition hash_target :: "string \<Rightarrow> bool" where
  "hash_target t \<longleftrightarrow> 2 \<le> length t \<and> t ! 0 = CHR ''#'' \<and> \<not> is_newline (t ! 1)"

definition entry :: "spy_env \<Rightarrow> spy \<Rightarrow> nat \<Rightarrow> (int \<times> string) list" where
  "entry e s n =
     (case link_target s n of
        None \<Rightarrow> []
      | Some href \<Rightarrow>
          if hash_target href
          then (case lookup e href of
                  Some (vis, off, pos) \<Rightarrow>
                    if vis then [(if is_window e then off else pos + scroll_top e, href)] else []
                | None \<Rightarrow> [])
          else [])"

definition refresh :: "spy_env \<Rightarrow> nav \<Rightarrow> spy \<Rightarrow> spy" where
  "refresh e v s =
     (let table = sort_key fst (concat (map (entry e s) (links v)))
      in s\<lparr>offsets := map fst table, targets := map snd table, scrollHeight := getScrollHeight e\<rparr>)"

definition clear :: "nav \<Rightarrow> spy \<Rightarrow> spy" where
  "clear v s =
     foldl (\<lambda>s n. rem_class n ''active'' s) s
       (filter (\<lambda>n. has_class n ''active'' s) (below_target v (links v)))"

text \<open>The links whose \<open>data-target\<close> or \<open>href\<close> is the target.\<close>

definition links_to :: "nav \<Rightarrow> spy \<Rightarrow> string option \<Rightarrow> nat list" where
  "links_to v s target =
     (let t = (case target of Some t \<Rightarrow> t | None \<Rightarrow> ''undefined'')
      in filter (\<lambda>n. oget (attr s n) ''data-target'' = Some t \<or> oget (attr s n) ''href'' = Some t) (links v))"

definition mark :: "nat list \<Rightarrow> spy \<Rightarrow> spy" where
  "mark ns s = foldl (\<lambda>s n. add_class n ''active'' s) s ns"

definition activate :: "nav \<Rightarrow> string option \<Rightarrow> spy \<Rightarrow> spy" where
  "activate v target s =
     (let s1 = clear v (s\<lparr>activeTarget := target\<rparr>);
          act = parent_lis v (links_to v s1 target);
          s2 = mark act s1
      in if list_ex (parent_menu v) act
         then (let act2 = dropdowns_of v act
               in foldl (\<lambda>s n. emit ''activate.bs.scrollspy'' n s) (mark act2 s2) act2)
         else foldl (\<lambda>s n. emit ''activate.bs.scrollspy'' n s) s2 act)"

text \<open>The loop of \<open>process\<close> over the table it took before it refreshed, from the last entry on.\<close>

fun process_loop :: "nav \<Rightarrow> int \<Rightarrow> int list \<Rightarrow> string list \<Rightarrow> string option \<Rightarrow> nat \<Rightarrow> spy \<Rightarrow> spy" where
  "process_loop v st offs tgts act 0 s = s"
| "process_loop v st offs tgts act (Suc i) s =
     process_loop v st offs tgts act i
       (if act \<noteq> Some (tgts ! i) \<and> st \<ge> offs ! i \<and> (Suc i \<ge> length offs \<or> st < offs ! Suc i)
        then activate v (Some (tgts ! i)) s else s)"

definition last_target :: "string list \<Rightarrow> string option" where
  "last_target tgts = (if tgts = [] then None else Some (last tgts))"

definition process :: "spy_env \<Rightarrow> nav \<Rightarrow> spy \<Rightarrow> spy" where
  "process e v s =
     (let st = scroll_top e + spy_offset v;
          sh = getScrollHeight e;
          maxScroll = spy_offset v + sh - view_height e;
          offs = offsets s; tgts = targets s; act = activeTarget s;
          s1 = (if scrollHeight s \<noteq> sh then refresh e v s else s)
      in if st \<ge> maxScroll
         then (if act \<noteq> last_target tgts then activate v (last_target tgts) s1 else s1)
         else if act \<noteq> None \<and> act \<noteq> Some '''' \<and> offs \<noteq> [] \<and> st < hd offs
         then clear v (s1\<lparr>activeTarget := None\<rparr>)
         else process_loop v st offs tgts act (length offs) s1)"

definition construct :: "spy_env \<Rightarrow> nav \<Rightarrow> spy \<Rightarrow> spy" where
  "construct e v s =
     process e v (refresh e v (s\<lparr>offsets := [], targets := [], activeTarget := None, scrollHeight := 0\<rparr>))"

section \<open>The table and the active target\<close>

lemma fold_ops [simp]:
  fixes s :: spy
  shows "activeTarget (foldl (\<lambda>s n. emit ev n s) s ns) = activeTarget s" "offsets (foldl (\<lambda>s n. emit ev n s) s ns) = offsets s"
    "targets (foldl (\<lambda>s n. emit ev n s) s ns) = targets s" "scrollHeight (foldl (\<lambda>s n. emit ev n s) s ns) = scrollHeight s"
    "attr (foldl (\<lambda>s n. emit ev n s) s ns) = attr s" "cls (foldl (\<lambda>s n. emit ev n s) s ns) = cls s"
    "activeTarget (foldl (\<lambda>s n. rem_class n z s) s ns) = activeTarget s" "offsets (foldl (\<lambda>s n. rem_class n z s) s ns) = offsets s"
    "targets (foldl (\<lambda>s n. rem_class n z s) s ns) = targets s" "scrollHeight (foldl (\<lambda>s n. rem_class n z s) s ns) = scrollHeight s"
    "attr (foldl (\<lambda>s n. rem_class n z s) s ns) = attr s"
    "has_class m z (foldl (\<lambda>s n. rem_class n z s) s ns) \<longleftrightarrow> has_class m z s \<and> m \<notin> set ns"
  by (induction ns arbitrary: s) (auto simp: emit_def rem_class_def has_class_def)

lemma mark_fields [simp]:
  "activeTarget (mark ns s) = activeTarget s" "offsets (mark ns s) = offsets s" "targets (mark ns s) = targets s"
  "scrollHeight (mark ns s) = scrollHeight s" "attr (mark ns s) = attr s"
  "has_class m ''active'' (mark ns s) \<longleftrightarrow> has_class m ''active'' s \<or> m \<in> set ns"
  unfolding mark_def by (induction ns arbitrary: s) (auto simp: add_class_def has_class_def)

lemma clear_fields [simp]:
  "activeTarget (clear v s) = activeTarget s" "offsets (clear v s) = offsets s" "targets (clear v s) = targets s"
  "scrollHeight (clear v s) = scrollHeight s" "attr (clear v s) = attr s"
  "has_class m ''active'' (clear v s) \<longleftrightarrow> has_class m ''active'' s \<and> m \<notin> set (below_target v (links v))"
  by (auto simp: clear_def)

lemma activate_fields [simp]:
  "activeTarget (activate v t s) = t" "offsets (activate v t s) = offsets s" "targets (activate v t s) = targets s"
  "scrollHeight (activate v t s) = scrollHeight s" "attr (activate v t s) = attr s"
  by (simp_all add: activate_def Let_def)

lemma refresh_fields [simp]: "activeTarget (refresh e v s) = activeTarget s" "attr (refresh e v s) = attr s"
  "has_class m z (refresh e v s) = has_class m z s"
  by (simp_all add: refresh_def Let_def has_class_def)

definition spy_inv :: "spy \<Rightarrow> bool" where
  "spy_inv s \<longleftrightarrow> sorted (offsets s) \<and> length (targets s) = length (offsets s) \<and> '''' \<notin> set (targets s) \<and>
     activeTarget s \<noteq> Some ''''"

lemma hash_target_Nil [simp]: "\<not> hash_target []"
  by (simp add: hash_target_def)

lemma entry_target:
  assumes "p \<in> set (entry e s n)" shows "snd p \<noteq> []"
proof (cases "link_target s n")
  case None
  with assms show ?thesis by (simp add: entry_def)
next
  case (Some href)
  with assms have "hash_target href" "snd p = href"
    by (cases "hash_target href"; cases "lookup e href"; simp add: entry_def case_prod_beta split: if_split_asm)+
  then show ?thesis by auto
qed

lemma refresh_inv: "activeTarget s \<noteq> Some '''' \<Longrightarrow> spy_inv (refresh e v s)"
proof -
  assume "activeTarget s \<noteq> Some ''''"
  moreover have "[] \<notin> snd ` (\<Union>n \<in> set (links v). set (entry e s n))"
    using entry_target [of _ e s] by force
  ultimately show ?thesis by (simp add: spy_inv_def refresh_def Let_def)
qed

lemma activate_inv: "spy_inv s \<Longrightarrow> t \<noteq> Some '''' \<Longrightarrow> spy_inv (activate v t s)"
  by (simp add: spy_inv_def)

lemma process_loop_inv:
  "spy_inv s \<Longrightarrow> n \<le> length tgts \<Longrightarrow> '''' \<notin> set tgts \<Longrightarrow> spy_inv (process_loop v st offs tgts act n s)"
proof (induction n arbitrary: s)
  case (Suc n)
  then have "tgts ! n \<noteq> ''''" by (metis Suc_le_lessD nth_mem)
  with Suc show ?case by (simp add: activate_inv)
qed simp

lemma process_inv:
  assumes "spy_inv s"
  shows "spy_inv (process e v s)"
proof -
  have "spy_inv (if scrollHeight s \<noteq> getScrollHeight e then refresh e v s else s)"
    using assms refresh_inv [of s] by (simp add: spy_inv_def)
  moreover have "last_target (targets s) \<noteq> Some ''''"
    using assms unfolding last_target_def spy_inv_def by (metis last_in_set option.inject option.distinct(1))
  moreover have "spy_inv (clear v (t\<lparr>activeTarget := None\<rparr>))" if "spy_inv t" for t
    using that by (simp add: spy_inv_def)
  moreover have "'''' \<notin> set (targets s)" "length (offsets s) \<le> length (targets s)" using assms by (simp_all add: spy_inv_def)
  ultimately show ?thesis by (simp add: process_def Let_def activate_inv process_loop_inv)
qed

definition spy_run :: "nav \<Rightarrow> spy_env \<Rightarrow> spy_env list \<Rightarrow> spy \<Rightarrow> spy" where
  "spy_run v e0 es s = foldl (\<lambda>s e. process e v s) (construct e0 v s) es"

lemma spy_run_inv: "spy_inv (spy_run v e0 es s)"
  unfolding spy_run_def construct_def by (rule foldl_keeps) (simp_all add: process_inv refresh_inv)

text \<open>The specification: the last entry of the table at or above the scroll position.\<close>

definition target_at :: "int list \<Rightarrow> string list \<Rightarrow> int \<Rightarrow> string option" where
  "target_at offs tgts st =
     (let k = length (takeWhile (\<lambda>off. off \<le> st) offs) in if k = 0 then None else Some (tgts ! (k - 1)))"

lemma entry_iff:
  assumes "sorted offs" "i < length offs"
  shows "offs ! i \<le> st \<and> (length offs \<le> Suc i \<or> st < offs ! Suc i) \<longleftrightarrow> Suc i = length (takeWhile (\<lambda>off. off \<le> st) offs)"
proof -
  let ?k = "length (takeWhile (\<lambda>off. off \<le> st) offs)"
  have "offs ! j \<le> st \<longleftrightarrow> j < ?k" if "j < length offs" for j
  proof
    assume "j < ?k"
    then show "offs ! j \<le> st" by (metis (mono_tags) nth_mem set_takeWhileD takeWhile_nth)
  next
    assume j: "offs ! j \<le> st"
    show "j < ?k"
    proof (rule ccontr)
      assume "\<not> j < ?k"
      then have "?k < length offs" "offs ! ?k \<le> offs ! j" using that assms(1) by (auto simp: sorted_iff_nth_mono)
      with nth_length_takeWhile [of "\<lambda>off. off \<le> st" offs] j show False by simp
    qed
  qed
  moreover have "?k \<le> length offs" by (rule length_takeWhile_le)
  ultimately show ?thesis using assms(2) by (cases "Suc i < length offs") (force, fastforce)
qed

lemma process_loop_target:
  assumes "sorted offs" "n \<le> length offs"
  shows "activeTarget (process_loop v st offs tgts act n s) =
    (let k = length (takeWhile (\<lambda>off. off \<le> st) offs)
     in if 0 < k \<and> k \<le> n \<and> act \<noteq> Some (tgts ! (k - 1)) then Some (tgts ! (k - 1)) else activeTarget s)"
  using assms(2)
proof (induction n arbitrary: s)
  case (Suc n)
  define k where "k = length (takeWhile (\<lambda>off. off \<le> st) offs)"
  have c: "st \<ge> offs ! n \<and> (Suc n \<ge> length offs \<or> st < offs ! Suc n) \<longleftrightarrow> k = Suc n"
    using entry_iff [OF assms(1), of n st] Suc.prems by (auto simp: k_def)
  have IH: "activeTarget (process_loop v st offs tgts act n s) =
      (if 0 < k \<and> k \<le> n \<and> act \<noteq> Some (tgts ! (k - 1)) then Some (tgts ! (k - 1)) else activeTarget s)" for s
    using Suc.IH [of s] Suc.prems by (simp add: Let_def k_def)
  show ?case unfolding Let_def k_def [symmetric]
    unfolding process_loop.simps IH c by (cases "k = Suc n") (auto simp: le_Suc_eq)
qed (auto simp: Let_def)

lemma process_target:
  assumes "spy_inv s" "offsets s \<noteq> []"
  shows "activeTarget (process e v s) =
    (if scroll_top e + spy_offset v \<ge> spy_offset v + getScrollHeight e - view_height e then Some (last (targets s))
     else target_at (offsets s) (targets s) (scroll_top e + spy_offset v))"
proof -
  let ?st = "scroll_top e + spy_offset v" let ?k = "length (takeWhile (\<lambda>off. off \<le> ?st) (offsets s))"
  let ?s1 = "if scrollHeight s \<noteq> getScrollHeight e then refresh e v s else s"
  have t: "targets s \<noteq> []" using assms by (auto simp: spy_inv_def)
  have k0: "?k = 0 \<longleftrightarrow> ?st < hd (offsets s)" using assms(2) by (cases "offsets s") auto
  have k: "?k \<le> length (offsets s)" by (rule length_takeWhile_le)
  have a: "activeTarget ?s1 = activeTarget s" by simp
  have l: "activeTarget (process_loop v ?st (offsets s) (targets s) (activeTarget s) (length (offsets s)) ?s1) =
      (if 0 < ?k \<and> activeTarget s \<noteq> Some (targets s ! (?k - 1)) then Some (targets s ! (?k - 1)) else activeTarget s)"
    using process_loop_target [of "offsets s" "length (offsets s)" v ?st "targets s" "activeTarget s" ?s1] assms(1) k a
    by (simp add: spy_inv_def Let_def)
  have e: "activeTarget s \<noteq> Some []" using assms(1) by (simp add: spy_inv_def)
  consider "?st \<ge> spy_offset v + getScrollHeight e - view_height e"
    | "\<not> ?st \<ge> spy_offset v + getScrollHeight e - view_height e" "activeTarget s \<noteq> None" "?st < hd (offsets s)"
    | "\<not> ?st \<ge> spy_offset v + getScrollHeight e - view_height e" "\<not> (activeTarget s \<noteq> None \<and> ?st < hd (offsets s))" by blast
  then show ?thesis
  proof cases
    case 1
    then show ?thesis using t a by (simp add: process_def Let_def last_target_def)
  next
    case 2
    then show ?thesis using k0 e assms(2) by (simp add: process_def Let_def target_at_def)
  next
    case 3
    then have "process e v s = process_loop v ?st (offsets s) (targets s) (activeTarget s) (length (offsets s)) ?s1"
      unfolding process_def Let_def by auto
    moreover have "target_at (offsets s) (targets s) ?st = (if 0 < ?k \<and> activeTarget s \<noteq> Some (targets s ! (?k - 1)) then Some (targets s ! (?k - 1)) else activeTarget s)"
      using 3(2) k0 by (auto simp: target_at_def Let_def)
    ultimately show ?thesis using l 3(1) by simp
  qed
qed

section \<open>The marks\<close>

text \<open>The elements a target marks: the items above its links, or the drop-downs around them too.\<close>

definition marked :: "nav \<Rightarrow> spy \<Rightarrow> string \<Rightarrow> nat set" where
  "marked v s t =
     (let act = parent_lis v (links_to v s (Some t))
      in set act \<union> (if list_ex (parent_menu v) act then set (dropdowns_of v act) else {}))"

lemma links_to_cong: "attr t = attr s \<Longrightarrow> links_to v t x = links_to v s x"
  by (simp add: links_to_def)

lemma marked_cong: "attr t = attr s \<Longrightarrow> marked v t x = marked v s x"
  by (simp add: marked_def links_to_def)

definition spy_marks :: "nav \<Rightarrow> spy \<Rightarrow> bool" where
  "spy_marks v s \<longleftrightarrow>
     (\<forall>n \<in> set (below_target v (links v)).
        has_class n ''active'' s \<longleftrightarrow> (case activeTarget s of None \<Rightarrow> False | Some t \<Rightarrow> n \<in> marked v s t))"

lemma has_class_emits [simp]: "has_class m z (foldl (\<lambda>s n. emit ev n s) (s :: spy) ns) = has_class m z s"
  by (simp add: has_class_def)

lemma has_class_target [simp]: "has_class m z (s\<lparr>activeTarget := t\<rparr>) = has_class m z s"
  by (simp add: has_class_def)

lemma activate_active:
  "has_class n ''active'' (activate v t s) \<longleftrightarrow>
     has_class n ''active'' s \<and> n \<notin> set (below_target v (links v)) \<or>
     n \<in> set (parent_lis v (links_to v s t)) \<or>
     list_ex (parent_menu v) (parent_lis v (links_to v s t)) \<and> n \<in> set (dropdowns_of v (parent_lis v (links_to v s t)))"
proof -
  have l: "links_to v (clear v (s\<lparr>activeTarget := t\<rparr>)) t = links_to v s t" by (rule links_to_cong) simp
  show ?thesis by (auto simp: activate_def Let_def l)
qed

lemma activate_marks:
  assumes "t = None \<longrightarrow> parent_lis v (links_to v s None) = []"
  shows "spy_marks v (activate v t s)"
proof -
  have m: "marked v (activate v (Some x) s) y = marked v s y" for x y by (rule marked_cong) simp
  show ?thesis
  proof (cases t)
    case None
    with assms show ?thesis by (simp add: spy_marks_def activate_active)
  next
    case (Some x)
    then show ?thesis by (auto simp: spy_marks_def activate_active m [unfolded marked_def Let_def] marked_def Let_def)
  qed
qed

lemma spy_marks_cong:
  "spy_marks v s \<Longrightarrow> attr t = attr s \<Longrightarrow> activeTarget t = activeTarget s \<Longrightarrow> (\<And>n. has_class n ''active'' t = has_class n ''active'' s) \<Longrightarrow>
   spy_marks v t"
  using marked_cong [of t s v] by (simp add: spy_marks_def split: option.splits)

lemma process_loop_marks: "spy_marks v s \<Longrightarrow> spy_marks v (process_loop v st offs tgts act n s)"
  by (induction n arbitrary: s) (simp_all add: activate_marks)

lemma process_loop_attr [simp]: "attr (process_loop v st offs tgts act n s) = attr s"
  by (induction n arbitrary: s) simp_all

lemma process_attr [simp]: "attr (process e v s) = attr s"
  by (simp add: process_def Let_def)

lemma process_marks:
  assumes "spy_marks v s" "parent_lis v (links_to v s None) = []"
  shows "spy_marks v (process e v s)"
proof -
  let ?s1 = "if scrollHeight s \<noteq> getScrollHeight e then refresh e v s else s"
  have s1: "spy_marks v ?s1" by (rule spy_marks_cong [OF assms(1)]) simp_all
  have "links_to v ?s1 None = links_to v s None" by (rule links_to_cong) simp
  then have a: "spy_marks v (activate v t ?s1)" for t using activate_marks [of t v ?s1] assms(2) by simp
  have "spy_marks v (clear v (?s1\<lparr>activeTarget := None\<rparr>))"
    by (simp add: spy_marks_def)
  with s1 a show ?thesis unfolding process_def Let_def by (auto intro: process_loop_marks simp del: if_split)
qed

lemma spy_run_marks:
  assumes "\<forall>n \<in> set (below_target v (links v)). \<not> has_class n ''active'' s" "parent_lis v (links_to v s None) = []"
  shows "spy_marks v (spy_run v e0 es s) \<and> attr (spy_run v e0 es s) = attr s"
  unfolding spy_run_def
proof (rule foldl_keeps)
  have l: "attr t = attr s \<Longrightarrow> parent_lis v (links_to v t None) = []" for t
    using links_to_cong [of t s v None] assms(2) by simp
  let ?s = "refresh e0 v (s\<lparr>offsets := [], targets := [], activeTarget := None, scrollHeight := 0\<rparr>)"
  have "spy_marks v ?s"
    using assms(1) by (simp add: spy_marks_def) (simp add: has_class_def)
  then show "spy_marks v (construct e0 v s) \<and> attr (construct e0 v s) = attr s"
    unfolding construct_def using process_marks [of v ?s e0] l [of ?s] by simp
  show "spy_marks v (process e v t) \<and> attr (process e v t) = attr s" if "spy_marks v t \<and> attr t = attr s" for t e
    using process_marks [of v t e] l [of t] that by simp
qed

section \<open>The properties\<close>

text \<open>
  C15: after any scroll events, one more event makes the target active that the table as it stood
  before the event gives: the last one at or above the scroll position (none above the first
  entry), or the last of all at the end of the page; the loop over the table agrees with this
  specification.
\<close>

theorem spy_follows_table:
  assumes "s = spy_run v e0 es s0" "offsets s \<noteq> []"
  shows "activeTarget (process e v s) =
    (if scroll_top e + spy_offset v \<ge> spy_offset v + getScrollHeight e - view_height e then Some (last (targets s))
     else target_at (offsets s) (targets s) (scroll_top e + spy_offset v)) \<and> sorted (offsets s)"
  using process_target [OF _ assms(2)] spy_run_inv [of v e0 es s0] assms(1) by (simp add: spy_inv_def)

text \<open>
  As long as the region had no active element at first, the active elements of the navigation
  are at all times exactly the list items above the links to the active target (and the
  drop-down items around them), and none while there is no active target.
\<close>

theorem spy_marks_target:
  assumes "\<forall>n \<in> set (below_target v (links v)). \<not> has_class n ''active'' s0" "parent_lis v (links_to v s0 None) = []"
    "n \<in> set (below_target v (links v))"
  shows "has_class n ''active'' (spy_run v e0 es s0) \<longleftrightarrow>
    (case activeTarget (spy_run v e0 es s0) of None \<Rightarrow> False | Some t \<Rightarrow> n \<in> marked v s0 t)"
  using spy_run_marks [OF assms(1,2), of e0 es] assms(3) marked_cong [of "spy_run v e0 es s0" s0 v]
  by (auto simp: spy_marks_def split: option.split)

text \<open>A page with two sections; the height \<open>h\<close> of the first one may change.\<close>

definition two_sections :: "int \<Rightarrow> int \<Rightarrow> spy_env" where
  "two_sections h y = \<lparr>scroll_top = y, view_height = 500, el_scroll_height = 0, body_height = h + 2000, root_height = 0,
     is_window = True, lookup = (\<lambda>t. if t = ''#a'' then Some (True, 0, 0) else if t = ''#b'' then Some (True, h, h) else None)\<rparr>"

definition nav2 :: nav where
  "nav2 = \<lparr>links = [1, 2], parent_lis = map (\<lambda>n. n + 10), below_target = map (\<lambda>n. n + 10), parent_menu = (\<lambda>_. False),
     dropdowns_of = (\<lambda>_. []), spy_offset = 10\<rparr>"

definition spy2 :: spy where
  "spy2 = \<lparr>cls = (\<lambda>_. []), attr = (\<lambda>n. if n = 1 then [(''href'', ''#a'')] else if n = 2 then [(''href'', ''#b'')] else []),
     style = (\<lambda>_. []), log = [], offsets = [], targets = [], activeTarget = None, scrollHeight = 0\<rparr>"

lemma entries2: "entry (two_sections h y) t n = (if n = 1 then [(0, ''#a'')] else if n = 2 then [(h, ''#b'')] else [])"
  if "attr t = attr spy2"
  using that by (simp add: entry_def link_target_def spy2_def two_sections_def oget_Cons hash_target_def is_newline_def)

lemma refresh2:
  assumes "attr t = attr spy2" "0 < h"
  shows "offsets (refresh (two_sections h y) nav2 t) = [0, h]" "targets (refresh (two_sections h y) nav2 t) = [''#a'', ''#b'']"
    "scrollHeight (refresh (two_sections h y) nav2 t) = h + 2000"
  using assms entries2 by (simp_all add: refresh_def nav2_def getScrollHeight_def two_sections_def Let_def)

lemma height2 [simp]: "0 < h \<Longrightarrow> getScrollHeight (two_sections h y) = h + 2000" "scroll_top (two_sections h y) = y"
  "view_height (two_sections h y) = 500" "spy_offset nav2 = 10"
  by (simp_all add: getScrollHeight_def two_sections_def nav2_def)

lemma process_table [simp]:
  "offsets (process e v s) = (if scrollHeight s \<noteq> getScrollHeight e then offsets (refresh e v s) else offsets s)"
  "targets (process e v s) = (if scrollHeight s \<noteq> getScrollHeight e then targets (refresh e v s) else targets s)"
  "scrollHeight (process e v s) = getScrollHeight e"
proof -
  have l: "offsets (process_loop v st offs tgts act n t) = offsets t \<and> targets (process_loop v st offs tgts act n t) = targets t \<and>
      scrollHeight (process_loop v st offs tgts act n t) = scrollHeight t" for st offs tgts act n t
    by (induction n arbitrary: t) simp_all
  show "offsets (process e v s) = (if scrollHeight s \<noteq> getScrollHeight e then offsets (refresh e v s) else offsets s)"
    "targets (process e v s) = (if scrollHeight s \<noteq> getScrollHeight e then targets (refresh e v s) else targets s)"
    "scrollHeight (process e v s) = getScrollHeight e"
    by (simp_all add: process_def Let_def l refresh_def [of e v s])
qed

lemma run2:
  assumes "0 < h"
  shows "offsets (spy_run nav2 (two_sections h y) [] spy2) = [0, h]" "targets (spy_run nav2 (two_sections h y) [] spy2) = [''#a'', ''#b'']"
    "scrollHeight (spy_run nav2 (two_sections h y) [] spy2) = h + 2000" "attr (spy_run nav2 (two_sections h y) [] spy2) = attr spy2"
  using assms refresh2 [of "spy2\<lparr>offsets := [], targets := [], activeTarget := None, scrollHeight := 0\<rparr>" h y]
  by (simp_all add: spy_run_def construct_def)

theorem spy_follows_table_witness:
  "activeTarget (process (two_sections 300 400) nav2 (spy_run nav2 (two_sections 300 0) [] spy2)) = Some ''#b''"
  using spy_follows_table [OF refl, of nav2 "two_sections 300 0" "[]" spy2 "two_sections 300 400"]
  by (simp add: run2 target_at_def)

theorem spy_marks_target_witness:
  "has_class 12 ''active'' (spy_run nav2 (two_sections 300 0) [two_sections 300 400] spy2) \<longleftrightarrow>
   activeTarget (spy_run nav2 (two_sections 300 0) [two_sections 300 400] spy2) = Some ''#b''"
proof -
  have "activeTarget (spy_run nav2 (two_sections 300 0) [two_sections 300 400] spy2) = Some ''#b''"
    using process_target [OF spy_run_inv [of nav2 "two_sections 300 0" "[]" spy2], of "two_sections 300 400" nav2]
    by (simp add: run2 target_at_def) (simp add: spy_run_def)
  then show ?thesis
    using spy_marks_target [of nav2 spy2 12 "two_sections 300 0" "[two_sections 300 400]"]
    by (simp add: nav2_def spy2_def has_class_def links_to_def marked_def oget_Cons)
qed

text \<open>
  An event after the page has changed its height refreshes the table and still decides by the
  old one: with the same scroll position, a second event changes the target.
\<close>

theorem spy_stale_table:
  "let s = spy_run nav2 (two_sections 300 0) [] spy2; e = two_sections 900 400; s1 = process e nav2 s
   in offsets s1 = [0, 900] \<and> activeTarget s1 = Some ''#b'' \<and> activeTarget (process e nav2 s1) = Some ''#a''"
proof -
  let ?s = "spy_run nav2 (two_sections 300 0) [] spy2" let ?e = "two_sections 900 400" let ?s1 = "process ?e nav2 ?s"
  have o: "offsets ?s1 = [0, 900]" "targets ?s1 = [''#a'', ''#b'']"
    by (simp_all add: run2 refresh2)
  have "activeTarget ?s1 = Some ''#b''"
    using process_target [OF spy_run_inv [of nav2 "two_sections 300 0" "[]" spy2], of ?e nav2] by (simp add: run2 target_at_def)
  moreover have "activeTarget (process ?e nav2 ?s1) = Some ''#a''"
    using process_target [OF process_inv [OF spy_run_inv [of nav2 "two_sections 300 0" "[]" spy2]], of ?e nav2 ?e nav2] o
    by (simp add: target_at_def)
  ultimately show ?thesis using o by (simp add: Let_def)
qed

end
