(* ===== verification/BS_Placement.thy ===== *)
theory BS_Placement
  imports Complex_Main BS_Dom
begin

text \<open>
  Where the tooltip and popover plugins of \<^verbatim>\<open>docs/bootstrap.js\<close> (lines 1421 to 1654) put their
  tip: the automatic choice of a side, the offset of that side, the correction at the edges of
  the viewport and the position of the arrow.  Lengths are rational numbers of pixels.
\<close>

record rect =
  top :: rat
  left :: rat
  width :: rat
  height :: rat
  right :: rat
  bottom :: rat
  scroll :: rat

text \<open>
  What the browser says of an element: its bounding rectangle (width and height are missing in
  IE 8), its offset in the document and its scroll position, and what it says of the window.
\<close>

record element =
  is_body :: bool
  bounds :: rect
  has_width :: bool
  off_top :: rat
  off_left :: rat
  own_scroll :: rat

record window =
  win_width :: rat
  win_height :: rat
  root_scroll :: rat
  body_scroll :: rat

definition getPosition :: "window \<Rightarrow> element \<Rightarrow> rect" where
  "getPosition w el =
     (let r = bounds el;
          elRect = (if has_width el then r else r\<lparr>width := right r - left r, height := bottom r - top r\<rparr>)
      in if is_body el
         then elRect\<lparr>scroll := (if root_scroll w \<noteq> 0 then root_scroll w else body_scroll w),
                     width := win_width w, height := win_height w, top := 0, left := 0\<rparr>
         else elRect\<lparr>scroll := own_scroll el, top := off_top el, left := off_left el\<rparr>)"

datatype side = STop | SBottom | SLeft | SRight

definition side_name :: "side \<Rightarrow> string" where
  "side_name p = (case p of STop \<Rightarrow> ''top'' | SBottom \<Rightarrow> ''bottom'' | SLeft \<Rightarrow> ''left'' | SRight \<Rightarrow> ''right'')"

definition opposite :: "side \<Rightarrow> side" where
  "opposite p = (case p of STop \<Rightarrow> SBottom | SBottom \<Rightarrow> STop | SLeft \<Rightarrow> SRight | SRight \<Rightarrow> SLeft)"

text \<open>The side an \<open>auto\<close> placement ends up at.\<close>

definition auto_place :: "rect \<Rightarrow> rect \<Rightarrow> rat \<Rightarrow> rat \<Rightarrow> side \<Rightarrow> side" where
  "auto_place pos viewport actualWidth actualHeight p =
     (if p = SBottom \<and> bottom pos + actualHeight > bottom viewport then STop
      else if p = STop \<and> top pos - actualHeight < top viewport then SBottom
      else if p = SRight \<and> right pos + actualWidth > width viewport then SLeft
      else if p = SLeft \<and> left pos - actualWidth < left viewport then SRight
      else p)"

text \<open>Offsets are pairs of top and left.\<close>

definition getCalculatedOffset :: "side \<Rightarrow> rect \<Rightarrow> rat \<Rightarrow> rat \<Rightarrow> rat \<times> rat" where
  "getCalculatedOffset p pos actualWidth actualHeight =
     (case p of
        SBottom \<Rightarrow> (top pos + height pos, left pos + width pos / 2 - actualWidth / 2)
      | STop \<Rightarrow> (top pos - actualHeight, left pos + width pos / 2 - actualWidth / 2)
      | SLeft \<Rightarrow> (top pos + height pos / 2 - actualHeight / 2, left pos - actualWidth)
      | SRight \<Rightarrow> (top pos + height pos / 2 - actualHeight / 2, left pos + width pos))"

text \<open>The correction; no viewport, none.\<close>

definition getViewportAdjustedDelta ::
    "(rect \<times> rat) option \<Rightarrow> side \<Rightarrow> rat \<times> rat \<Rightarrow> rat \<Rightarrow> rat \<Rightarrow> rat \<times> rat" where
  "getViewportAdjustedDelta viewport p off actualWidth actualHeight =
     (case viewport of
        None \<Rightarrow> (0, 0)
      | Some (v, padding) \<Rightarrow>
          if p = SRight \<or> p = SLeft
          then let topEdge = fst off - padding - scroll v;
                   bottomEdge = fst off + padding - scroll v + actualHeight
               in (if topEdge < top v then top v - topEdge
                   else if bottomEdge > top v + height v then top v + height v - bottomEdge
                   else 0, 0)
          else let leftEdge = snd off - padding;
                   rightEdge = snd off + padding + actualWidth
               in (0, if leftEdge < left v then left v - leftEdge
                      else if rightEdge > right v then left v + width v - rightEdge
                      else 0))"

text \<open>
  \<open>applyPlacement\<close>: from the offset, the margins (a missing one counts as 0) and the size of the
  tip before and after it was put there, the final offset and the share of the arrow; the arrow's
  position is a percentage of the tip's size.
\<close>

definition arrow_percent :: "rat \<Rightarrow> rat \<Rightarrow> rat" where
  "arrow_percent delta dimension = 50 * (1 - delta / dimension)"

definition margin :: "rat option \<Rightarrow> rat" where
  "margin m = (case m of None \<Rightarrow> 0 | Some k \<Rightarrow> k)"

definition applyPlacement ::
    "(rect \<times> rat) option \<Rightarrow> rat \<times> rat \<Rightarrow> side \<Rightarrow> rat option \<times> rat option \<Rightarrow> rat \<times> rat \<Rightarrow> rat \<times> rat \<Rightarrow>
     (rat \<times> rat) \<times> rat" where
  "applyPlacement viewport off p margins before after =
     (let (w, h) = before; (actualWidth, actualHeight) = after;
          t0 = fst off + margin (fst margins); l0 = snd off + margin (snd margins);
          t1 = (if p = STop \<and> actualHeight \<noteq> h then t0 + h - actualHeight else t0);
          delta = getViewportAdjustedDelta viewport p (t1, l0) actualWidth actualHeight;
          (t2, l2) = (if snd delta \<noteq> 0 then (t1, l0 + snd delta) else (t1 + fst delta, l0));
          isVertical = (p = STop \<or> p = SBottom);
          arrowDelta = (if isVertical then snd delta * 2 - w + actualWidth else fst delta * 2 - h + actualHeight)
      in ((t2, l2), arrow_percent arrowDelta (if isVertical then actualWidth else actualHeight)))"

section \<open>The properties\<close>

text \<open>
  What an element shows of the document, in the document's own coordinates (top, left, width and
  height): for the page's body the part the window is scrolled to, with the scroll position in the
  one of the two places the browser keeps it in; for another element the rectangle it covers.
\<close>

definition shown_area :: "window \<Rightarrow> element \<Rightarrow> rat \<times> rat \<times> rat \<times> rat" where
  "shown_area w el =
     (if is_body el then (root_scroll w + body_scroll w, 0, win_width w, win_height w)
      else (off_top el, off_left el, right (bounds el) - left (bounds el), bottom (bounds el) - top (bounds el)))"

text \<open>A rectangle in coordinates of the window whose sides agree.\<close>

definition sides_agree :: "rect \<Rightarrow> bool" where
  "sides_agree r \<longleftrightarrow> width r = right r - left r \<and> height r = bottom r - top r"

text \<open>
  C18: a tip is kept inside its viewport. Take as viewport the body, or an element that is not
  scrolled itself, with the document coordinates of the part of the page it shows (for the body:
  the rows from the scroll position on, as many as the window is high). Wherever a side's offset
  and the margins would put the tip, and whatever size it had before it was put there, if the size
  it has afterwards fits into the viewport with the padding on both sides, then a left or right
  tip ends with its padding between the viewport's top and bottom, and a top or bottom tip between
  its left and right edge. Conditions: the browser keeps the scroll position in one of its two
  places, an element's reported width and height agree with its reported sides, and the right
  edge it reports is the left edge of the viewport plus its width (the page is not scrolled
  sideways, the body no wider than the window).
\<close>

theorem tip_inside_viewport:
  assumes "applyPlacement (Some (getPosition w el, padding)) off p margins before (aw, ah) = ((t, l), a)"
    "shown_area w el = (vt, vl, vw, vh)" "ah + 2 * padding \<le> vh" "aw + 2 * padding \<le> vw"
    "root_scroll w = 0 \<or> body_scroll w = 0" "is_body el \<or> own_scroll el = 0"
    "sides_agree (bounds el)" "right (bounds el) = vl + vw"
  shows "if p = SLeft \<or> p = SRight
    then vt + padding \<le> t \<and> t + ah + padding \<le> vt + vh
    else vl + padding \<le> l \<and> l + aw + padding \<le> vl + vw"
proof -
  define v where "v = getPosition w el"
  have v: "vt = top v + scroll v" "vl = left v" "vw = width v" "vh = height v" "right v = vl + vw"
    using assms(2,5-8)
    by (auto simp: v_def getPosition_def shown_area_def sides_agree_def Let_def split: if_splits)
  obtain w0 h0 where b: "before = (w0, h0)" by fastforce
  have e: "applyPlacement (Some (v, padding)) off p margins (w0, h0) (aw, ah) = ((t, l), a)"
    using assms(1) by (simp add: v_def b)
  show ?thesis
    using e assms(3,4) v by (cases p) (auto simp: applyPlacement_def getViewportAdjustedDelta_def Let_def split: if_splits)
qed

definition body_rect :: rect where
  "body_rect = \<lparr>top = 0, left = 0, width = 1000, height = 600, right = 1000, bottom = 600, scroll = 0\<rparr>"

definition page_body :: element where
  "page_body = \<lparr>is_body = True, bounds = body_rect\<lparr>top := -300, bottom := 300\<rparr>, has_width = True,
     off_top = 0, off_left = 0, own_scroll = 0\<rparr>"

definition scrolled_window :: window where
  "scrolled_window = \<lparr>win_width = 1000, win_height = 500, root_scroll = 0, body_scroll = 300\<rparr>"

text \<open>Both directions are corrected, with a tip that changes its size when it is put there.\<close>

theorem tip_inside_viewport_witness:
  "applyPlacement (Some (getPosition scrolled_window page_body, 5)) (400, 950) SBottom (None, None) (90, 20) (80, 30) =
     ((400, 915), 50 * (1 - (-80) / 80)) \<and> 915 + 80 + 5 \<le> (0 + 1000 :: rat) \<and>
   (let ((t, l), a) = applyPlacement (Some (getPosition scrolled_window page_body, 5)) (290, 400) SRight (None, None) (90, 20) (80, 30)
    in 300 + 5 \<le> t \<and> t + 30 + 5 \<le> 300 + 500)"
proof -
  have 1: "applyPlacement (Some (getPosition scrolled_window page_body, 5)) (400, 950) SBottom (None, None) (90, 20) (80, 30) =
      ((400, 915), 50 * (1 - (-80) / 80))"
    and 2: "applyPlacement (Some (getPosition scrolled_window page_body, 5)) (290, 400) SRight (None, None) (90, 20) (80, 30) =
      ((305, 400), 50 * (1 - 40 / 30))"
    by (simp_all add: applyPlacement_def getViewportAdjustedDelta_def getPosition_def scrolled_window_def page_body_def
        body_rect_def margin_def arrow_percent_def)
  have a: "shown_area scrolled_window page_body = (300, 0, 1000, 500)"
    by (simp add: shown_area_def scrolled_window_def page_body_def)
  show ?thesis using tip_inside_viewport [OF 1 a] tip_inside_viewport [OF 2 a] 1 2
    by (simp add: scrolled_window_def page_body_def body_rect_def sides_agree_def)
qed

text \<open>
  When the reported right edge is not the left edge plus the width (a body wider than the
  window, whose width and origin \<open>getPosition\<close> replaces and whose right edge it keeps), a tip can
  stay outside the window, though it would fit.
\<close>

theorem tip_outside_viewport:
  "let body = getPosition \<lparr>win_width = 1000, win_height = 600, root_scroll = 0, body_scroll = 0\<rparr>
         \<lparr>is_body = True, bounds = \<lparr>top = 0, left = 0, width = 1500, height = 600, right = 1500, bottom = 600, scroll = 0\<rparr>,
          has_width = True, off_top = 0, off_left = 0, own_scroll = 0\<rparr>;
       ((t, l), a) = applyPlacement (Some (body, 0)) (100, 1100) STop (None, None) (80, 30) (80, 30)
   in left body + width body < l \<and> 80 \<le> width body"
  by (simp add: getPosition_def applyPlacement_def getViewportAdjustedDelta_def margin_def arrow_percent_def Let_def)

end
