(* ===== verification/BS_Tooltip.thy ===== *)
theory BS_Tooltip
  imports BS_Placement
begin

text \<open>
  The tooltip plugin of \<^verbatim>\<open>docs/bootstrap.js\<close> (lines 1259 to 1750) and the popover plugin that
  extends it (1779 to 1855): one element with its tip, the ways the user makes it come and go,
  the timers of a delay and the callbacks that wait for a transition.  Where the tip is put is
  theory \<open>BS_Placement\<close>.
\<close>

datatype hover = In | Out

datatype callback = ShowC | HideC bool     \<comment> \<open>\<open>complete\<close> of show and of hide; with the callback of \<open>destroy\<close>\<close>

record tip_env = browser +
  is_popover :: bool
  o_title :: string            \<comment> \<open>the option, or what its function returns\<close>
  o_content :: string
  o_animation :: bool
  o_delay_show :: nat
  o_delay_hide :: nat
  o_placement :: string        \<comment> \<open>the option, or what its function returns\<close>
  in_dom :: bool
  uid :: string
  el_pos :: rect
  viewport_pos :: rect
  tip_width :: rat
  tip_height :: rat

record tooltip = dom +
  enabled :: bool
  timer :: "bool option"       \<comment> \<open>the timer set: to show, or to hide\<close>
  hoverState :: "hover option"
  in_click :: bool
  in_hover :: bool
  in_focus :: bool
  made :: bool                 \<comment> \<open>the tip has been created\<close>
  attached :: bool             \<comment> \<open>the tip is in the page\<close>
  texts :: "string \<times> string"
  pending :: "callback list"
  destroyed :: bool

abbreviation (input) EL :: nat where "EL \<equiv> 0"
abbreviation (input) TIP :: nat where "TIP \<equiv> 1"

section \<open>Options\<close>

datatype delay = Delay nat | DelayObj nat nat

text \<open>A delay that is a positive number counts for both.\<close>

definition normal_delay :: "delay \<Rightarrow> delay" where
  "normal_delay d = (case d of Delay n \<Rightarrow> if n \<noteq> 0 then DelayObj n n else Delay n | _ \<Rightarrow> d)"

text \<open>The defaults, the element's data and the options, the later ones winning.\<close>

definition extend_all :: "'v obj list \<Rightarrow> 'v obj" where
  "extend_all os = foldl (foldl (\<lambda>acc (k, v). oset acc k v)) [] os"

definition getOptions :: "string obj \<Rightarrow> string obj \<Rightarrow> string obj \<Rightarrow> string obj" where
  "getOptions defaults data opts = extend_all [defaults, data, opts]"

definition getDelegateOptions :: "string obj \<Rightarrow> string obj option \<Rightarrow> string obj" where
  "getDelegateOptions defaults own =
     (case own of
        None \<Rightarrow> []
      | Some os \<Rightarrow> foldl (\<lambda>acc (k, v). if oget defaults k \<noteq> Some v then oset acc k v else acc) [] os)"

text \<open>The events the constructor listens to, in the order it adds the listeners.\<close>

datatype handler = ToggleH | EnterH | LeaveH

definition bindings :: "string \<Rightarrow> string \<Rightarrow> (string \<times> handler) list" where
  "bindings ty triggers =
     concat (map (\<lambda>t. if t = ''click'' then [(''click.'' @ ty, ToggleH)]
                      else if t \<noteq> ''manual''
                      then [((if t = ''hover'' then ''mouseenter'' else ''focusin'') @ ''.'' @ ty, EnterH),
                            ((if t = ''hover'' then ''mouseleave'' else ''focusout'') @ ''.'' @ ty, LeaveH)]
                      else [])
       (rev (split_str '' '' triggers)))"

definition fixTitle :: "tooltip \<Rightarrow> tooltip" where
  "fixTitle s =
     (let title = (case oget (attr s EL) ''title'' of Some t \<Rightarrow> t | None \<Rightarrow> '''')
      in if title \<noteq> '''' \<or> oget (attr s EL) ''data-original-title'' = None
         then set_attr EL ''title'' '''' (set_attr EL ''data-original-title'' title s) else s)"

definition getTitle :: "tip_env \<Rightarrow> tooltip \<Rightarrow> string" where
  "getTitle b s =
     (case oget (attr s EL) ''data-original-title'' of Some t \<Rightarrow> if t \<noteq> '''' then t else o_title b | None \<Rightarrow> o_title b)"

definition getContent :: "tip_env \<Rightarrow> tooltip \<Rightarrow> string" where
  "getContent b s =
     (case oget (attr s EL) ''data-content'' of Some t \<Rightarrow> if t \<noteq> '''' then t else o_content b | None \<Rightarrow> o_content b)"

definition hasContent :: "tip_env \<Rightarrow> tooltip \<Rightarrow> bool" where
  "hasContent b s \<longleftrightarrow> getTitle b s \<noteq> '''' \<or> is_popover b \<and> getContent b s \<noteq> ''''"

text \<open>
  \<open>getUID\<close>: random numbers are appended until no element has the id; \<open>rs\<close> are the numbers
  drawn, and \<open>None\<close> means that they did not suffice.
\<close>

fun getUID :: "(string \<Rightarrow> bool) \<Rightarrow> string \<Rightarrow> nat list \<Rightarrow> string option" where
  "getUID exists pre [] = None"
| "getUID exists pre (r # rs) =
     (let p = pre @ nat_str (r mod 1000000) in if exists p then getUID exists p rs else Some p)"

section \<open>Showing\<close>

text \<open>\<open>/\s?auto?\s?/i\<close>: where it matches first, and what is left without it.\<close>

definition auto_at :: "string \<Rightarrow> nat option" where
  "auto_at p = List.find (\<lambda>i. lower (take 3 (drop i p)) = ''aut'') [0..<length p]"

definition parse_placement :: "string \<Rightarrow> bool \<times> string" where
  "parse_placement p =
     (case auto_at p of
        None \<Rightarrow> (False, p)
      | Some i \<Rightarrow>
          let before = take i p;
              before1 = (if before \<noteq> [] \<and> is_space (last before) then butlast before else before);
              rest = drop (i + 3) p;
              rest1 = (case rest of c # cs \<Rightarrow> if to_lower c = CHR ''o'' then cs else rest | [] \<Rightarrow> rest);
              rest2 = (case rest1 of c # cs \<Rightarrow> if is_space c then cs else rest1 | [] \<Rightarrow> rest1);
              p' = before1 @ rest2
          in (True, if p' = '''' then ''top'' else p'))"

definition side_of :: "string \<Rightarrow> side option" where
  "side_of p = List.find (\<lambda>q. side_name q = p) [STop, SBottom, SLeft, SRight]"

definition final_placement :: "tip_env \<Rightarrow> bool \<Rightarrow> string \<Rightarrow> string" where
  "final_placement b auto p =
     (if auto then (case side_of p of
                      Some q \<Rightarrow> side_name (auto_place (el_pos b) (viewport_pos b) (tip_width b) (tip_height b) q)
                    | None \<Rightarrow> p)
      else p)"

definition setContent :: "tip_env \<Rightarrow> tooltip \<Rightarrow> tooltip" where
  "setContent b s =
     foldl (\<lambda>s z. rem_class TIP z s)
       (s\<lparr>texts := (getTitle b s, if is_popover b then getContent b s else snd (texts s))\<rparr>)
       [''fade'', ''in'', ''top'', ''bottom'', ''left'', ''right'']"

definition insert_tip :: "tip_env \<Rightarrow> tooltip \<Rightarrow> tooltip" where
  "insert_tip b s =
     (let (auto, p) = parse_placement (o_placement b);
          s1 = emit ''inserted.bs'' EL ((add_class TIP p s)\<lparr>attached := True\<rparr>)
      in if auto then add_class TIP (final_placement b auto p) (rem_class TIP p s1) else s1)"

definition place_tip :: "tip_env \<Rightarrow> tooltip \<Rightarrow> tooltip" where
  "place_tip b s =
     (let s1 = setContent b (s\<lparr>made := True\<rparr>);
          s2 = set_attr EL ''aria-describedby'' (uid b) (set_attr TIP ''id'' (uid b) s1);
          s3 = (if o_animation b then add_class TIP ''fade'' s2 else s2)
      in add_class TIP ''in'' (insert_tip b s3))"

section \<open>Hiding and leaving\<close>

definition in_any :: "tooltip \<Rightarrow> bool" where
  "in_any s \<longleftrightarrow> in_click s \<or> in_hover s \<or> in_focus s"

text \<open>What \<open>destroy\<close> leaves for the end: the tip is forgotten (another one would be a new element).\<close>

definition end_destroy :: "tooltip \<Rightarrow> tooltip" where
  "end_destroy s =
     s\<lparr>destroyed := True, attached := False, made := False, texts := ('''', ''''),
       cls := (cls s)(TIP := []), attr := (attr s)(TIP := [])\<rparr>"

definition hide_complete :: "bool \<Rightarrow> tooltip \<Rightarrow> tooltip" where
  "hide_complete destroying s =
     (let s1 = (if hoverState s \<noteq> Some In then s\<lparr>attached := False\<rparr> else s);
          s2 = emit ''hidden.bs'' EL (rem_attr EL ''aria-describedby'' s1)
      in if destroying then end_destroy s2 else s2)"

definition hide :: "tip_env \<Rightarrow> bool \<Rightarrow> tooltip \<Rightarrow> tooltip" where
  "hide b destroying s =
     (case trigger b ''hide.bs'' EL s of (s1, prevented) \<Rightarrow>
        if prevented then s1
        else let s2 = rem_class TIP ''in'' s1;
                 s3 = (if transition b \<and> has_class TIP ''fade'' s2 then s2\<lparr>pending := pending s2 @ [HideC destroying]\<rparr>
                       else hide_complete destroying s2)
             in s3\<lparr>hoverState := None\<rparr>)"

definition leave_self :: "tip_env \<Rightarrow> tooltip \<Rightarrow> tooltip" where
  "leave_self b s =
     (if in_any s then s
      else let s1 = s\<lparr>timer := None, hoverState := Some Out\<rparr>
           in if o_delay_hide b = 0 then hide b False s1 else s1\<lparr>timer := Some False\<rparr>)"

definition show_complete :: "tip_env \<Rightarrow> tooltip \<Rightarrow> tooltip" where
  "show_complete b s =
     (let prev = hoverState s; s1 = (emit ''shown.bs'' EL s)\<lparr>hoverState := None\<rparr>
      in if prev = Some Out then leave_self b s1 else s1)"

definition show_tip :: "tip_env \<Rightarrow> tooltip \<Rightarrow> tooltip" where
  "show_tip b s =
     (if \<not> hasContent b s \<or> \<not> enabled s then s
      else case trigger b ''show.bs'' EL s of (s1, prevented) \<Rightarrow>
        if prevented \<or> \<not> in_dom b then s1
        else let s2 = place_tip b s1
             in if transition b \<and> has_class TIP ''fade'' s2 then s2\<lparr>pending := pending s2 @ [ShowC]\<rparr>
                else show_complete b s2)"

definition enter_self :: "tip_env \<Rightarrow> tooltip \<Rightarrow> tooltip" where
  "enter_self b s =
     (let s0 = s\<lparr>made := True\<rparr>
      in if has_class TIP ''in'' s0 \<or> hoverState s0 = Some In then s0\<lparr>hoverState := Some In\<rparr>
         else let s1 = s0\<lparr>timer := None, hoverState := Some In\<rparr>
              in if o_delay_show b = 0 then show_tip b s1 else s1\<lparr>timer := Some True\<rparr>)"

section \<open>Events, timers and calls\<close>

text \<open>A new instance.\<close>

definition init :: "tooltip \<Rightarrow> tooltip" where
  "init s =
     fixTitle (s\<lparr>enabled := True, timer := None, hoverState := None, in_click := False, in_hover := False, in_focus := False,
        made := False, attached := False, pending := [], destroyed := False\<rparr>)"

datatype tip_step = MouseEnter | MouseLeave | FocusIn | FocusOut | Click | Timer | TransitionEnd
  | ApiShow | ApiHide | ApiToggle | Enable | Disable | ToggleEnabled | Destroy

definition run_callback :: "tip_env \<Rightarrow> callback \<Rightarrow> tooltip \<Rightarrow> tooltip" where
  "run_callback b c s = (case c of ShowC \<Rightarrow> show_complete b s | HideC k \<Rightarrow> hide_complete k s)"

definition toggle_click :: "tip_env \<Rightarrow> tooltip \<Rightarrow> tooltip" where
  "toggle_click b s =
     (let s1 = s\<lparr>in_click := \<not> in_click s\<rparr> in if in_any s1 then enter_self b s1 else leave_self b s1)"

definition toggle_api :: "tip_env \<Rightarrow> tooltip \<Rightarrow> tooltip" where
  "toggle_api b s = (let s0 = s\<lparr>made := True\<rparr> in if has_class TIP ''in'' s0 then leave_self b s0 else enter_self b s0)"

definition timer_fires :: "tip_env \<Rightarrow> tooltip \<Rightarrow> tooltip" where
  "timer_fires b s =
     (case timer s of
        None \<Rightarrow> s
      | Some True \<Rightarrow> (if hoverState s = Some In then show_tip b (s\<lparr>timer := None\<rparr>) else s\<lparr>timer := None\<rparr>)
      | Some False \<Rightarrow> (if hoverState s = Some Out then hide b False (s\<lparr>timer := None\<rparr>) else s\<lparr>timer := None\<rparr>))"

definition transition_ends :: "tip_env \<Rightarrow> tooltip \<Rightarrow> tooltip" where
  "transition_ends b s = foldl (\<lambda>s c. run_callback b c s) (s\<lparr>pending := []\<rparr>) (pending s)"

text \<open>
  The listeners of \<open>enter\<close> and \<open>leave\<close> (\<open>focus\<close>: for a focus event).  With a selector the element of
  the event may have no instance yet (\<open>has_data\<close> is false): it gets a new one.
\<close>

definition enter_event :: "tip_env \<Rightarrow> bool \<Rightarrow> bool \<Rightarrow> tooltip \<Rightarrow> tooltip" where
  "enter_event b has_data focus s =
     (let self = (if has_data then s else init s)
      in enter_self b (if focus then self\<lparr>in_focus := True\<rparr> else self\<lparr>in_hover := True\<rparr>))"

definition leave_event :: "tip_env \<Rightarrow> bool \<Rightarrow> bool \<Rightarrow> tooltip \<Rightarrow> tooltip" where
  "leave_event b has_data focus s =
     (let self = (if has_data then s else init s)
      in leave_self b (if focus then self\<lparr>in_focus := False\<rparr> else self\<lparr>in_hover := False\<rparr>))"

fun tip_op :: "tip_env \<Rightarrow> tooltip \<Rightarrow> tip_step \<Rightarrow> tooltip" where
  "tip_op b s MouseEnter = (if destroyed s then s else enter_event b True False s)"
| "tip_op b s MouseLeave = (if destroyed s then s else leave_event b True False s)"
| "tip_op b s FocusIn = (if destroyed s then s else enter_event b True True s)"
| "tip_op b s FocusOut = (if destroyed s then s else leave_event b True True s)"
| "tip_op b s Click = (if destroyed s then s else toggle_click b s)"
| "tip_op b s Timer = timer_fires b s"
| "tip_op b s TransitionEnd = transition_ends b s"
| "tip_op b s ApiShow = show_tip b s"
| "tip_op b s ApiHide = hide b False s"
| "tip_op b s ApiToggle = toggle_api b s"
| "tip_op b s Enable = s\<lparr>enabled := True\<rparr>"
| "tip_op b s Disable = s\<lparr>enabled := False\<rparr>"
| "tip_op b s ToggleEnabled = s\<lparr>enabled := \<not> enabled s\<rparr>"
| "tip_op b s Destroy = hide b True (s\<lparr>timer := None\<rparr>)"


text \<open>The plugin call on an element: \<open>destroy\<close> and \<open>hide\<close> do not make an instance first.\<close>

definition tip_plugin :: "tip_env \<Rightarrow> (string \<Rightarrow> tip_step option) \<Rightarrow> bool \<Rightarrow> string option \<Rightarrow> tooltip \<Rightarrow> tooltip \<times> bool" where
  "tip_plugin b method has_data opt s =
     (if \<not> has_data \<and> (case opt of Some v \<Rightarrow> occurs ''destroy'' v \<or> occurs ''hide'' v | None \<Rightarrow> False) then (s, False)
      else let s1 = (if has_data then s else init s)
           in (case opt of Some v \<Rightarrow> (case method v of Some st \<Rightarrow> tip_op b s1 st | None \<Rightarrow> s1) | None \<Rightarrow> s1, True))"

section \<open>What the steps do\<close>

definition shown :: "tooltip \<Rightarrow> bool" where
  "shown s \<longleftrightarrow> attached s \<and> has_class TIP ''in'' s"

lemma tip_class_ops [simp]:
  "has_class m y (add_class n z s) \<longleftrightarrow> has_class m y s \<or> m = n \<and> y = z"
  "has_class m y (rem_class n z s) \<longleftrightarrow> has_class m y s \<and> \<not> (m = n \<and> y = z)"
  "has_class m y (set_attr n k v s) = has_class m y s" "has_class m y (emit ev n s) = has_class m y s"
  "has_class m y (rem_attr n k s) = has_class m y s"
  by (auto simp: bs_ops)

lemma has_class_state [simp]:
  "has_class m y (s\<lparr>hoverState := h\<rparr>) = has_class m y s" "has_class m y (s\<lparr>timer := u\<rparr>) = has_class m y s"
  "has_class m y (s\<lparr>made := c\<rparr>) = has_class m y s" "has_class m y (s\<lparr>attached := c\<rparr>) = has_class m y s"
  "has_class m y (s\<lparr>in_click := c\<rparr>) = has_class m y s" "has_class m y (s\<lparr>in_hover := c\<rparr>) = has_class m y s"
  "has_class m y (s\<lparr>in_focus := c\<rparr>) = has_class m y s" "has_class m y (s\<lparr>log := l\<rparr>) = has_class m y s"
  "has_class m y (s\<lparr>pending := q\<rparr>) = has_class m y s"
  by (simp_all add: has_class_def)

lemma in_any_state [simp]:
  "in_any (s\<lparr>hoverState := h\<rparr>) = in_any s" "in_any (s\<lparr>timer := u\<rparr>) = in_any s" "in_any (s\<lparr>made := c\<rparr>) = in_any s"
  "in_any (s\<lparr>attached := c\<rparr>) = in_any s" "in_any (emit ev n s) = in_any s" "in_any (s\<lparr>log := l\<rparr>) = in_any s"
  "in_any (rem_class n z s) = in_any s" "in_any (rem_attr n k s) = in_any s"
  by (simp_all add: in_any_def bs_ops)

lemma state_ops [simp]:
  "enabled (emit ev n s) = enabled s" "destroyed (emit ev n s) = destroyed s" "hoverState (emit ev n s) = hoverState s"
  "enabled (rem_class n z s) = enabled s" "destroyed (rem_class n z s) = destroyed s" "hoverState (rem_class n z s) = hoverState s"
  "enabled (rem_attr n z s) = enabled s" "destroyed (rem_attr n z s) = destroyed s" "hoverState (rem_attr n z s) = hoverState s"
  by (simp_all add: bs_ops)

text \<open>The fields of the state machine are untouched by the work on the page.\<close>

definition control :: "tooltip \<Rightarrow> _" where
  "control s = (enabled s, timer s, hoverState s, in_click s, in_hover s, in_focus s, pending s, destroyed s)"

lemma control_ops [simp]:
  "control (add_class n z s) = control s" "control (rem_class n z s) = control s" "control (set_attr n k v s) = control s"
  "control (emit ev n s) = control s" "control (rem_attr n k s) = control s" "control (s\<lparr>log := l\<rparr>) = control s"
  "control (s\<lparr>attached := a\<rparr>) = control s" "control (s\<lparr>made := a\<rparr>) = control s" "control (s\<lparr>texts := t\<rparr>) = control s"
  by (simp_all add: control_def bs_ops)

lemma attached_ops [simp]:
  "attached (add_class n z s) = attached s" "attached (rem_class n z s) = attached s" "attached (set_attr n k v s) = attached s"
  "attached (emit ev n s) = attached s" "attached (rem_attr n k s) = attached s"
  by (simp_all add: bs_ops)

lemma controlD:
  "control s = control t \<Longrightarrow> enabled s = enabled t \<and> timer s = timer t \<and> hoverState s = hoverState t \<and> in_any s = in_any t \<and>
     pending s = pending t \<and> destroyed s = destroyed t"
  by (simp add: control_def in_any_def)

lemma setContent_simps [simp]: "control (setContent b s) = control s" "attached (setContent b s) = attached s"
  by (simp_all add: setContent_def)

lemma insert_tip_simps [simp]: "control (insert_tip b s) = control s" "attached (insert_tip b s)"
  by (simp_all add: insert_tip_def Let_def case_prod_beta)

lemma place_tip_simps [simp]: "control (place_tip b s) = control s" "attached (place_tip b s)"
  "has_class TIP ''in'' (place_tip b s)"
  by (simp_all add: place_tip_def Let_def)

lemmas [simp] = place_tip_simps(3) [simplified]

section \<open>The properties\<close>

text \<open>A page where nothing interferes: no transition, no delay, nothing prevented, content to show.\<close>

definition plain_env :: "tip_env \<Rightarrow> bool" where
  "plain_env b \<longleftrightarrow> \<not> transition b \<and> o_delay_show b = 0 \<and> o_delay_hide b = 0 \<and> in_dom b \<and> o_title b \<noteq> ''''"

definition user_step :: "tip_step \<Rightarrow> bool" where
  "user_step x \<longleftrightarrow> x \<in> {MouseEnter, MouseLeave, FocusIn, FocusOut, Click}"

definition tip_inv :: "tooltip \<Rightarrow> bool" where
  "tip_inv s \<longleftrightarrow> enabled s \<and> \<not> destroyed s \<and> (attached s \<longleftrightarrow> in_any s) \<and> (has_class TIP ''in'' s \<longleftrightarrow> in_any s) \<and>
     (hoverState s = None \<or> hoverState s = Some In \<and> in_any s)"

lemma content: "plain_env b \<Longrightarrow> hasContent b s"
  by (auto simp: plain_env_def hasContent_def getTitle_def split: option.split)

lemma show_tip_plain:
  assumes "plain_env b" "\<And>h. \<not> veto b h" "enabled s" "hoverState s = Some In"
  shows "let s1 = show_tip b s in enabled s1 = enabled s \<and> destroyed s1 = destroyed s \<and> in_any s1 = in_any s \<and>
    hoverState s1 = None \<and> attached s1 \<and> has_class TIP ''in'' s1"
proof -
  let ?s2 = "place_tip b (s\<lparr>log := log s @ [(''show.bs'', EL)]\<rparr>)"
  have c: "control ?s2 = control s" by simp
  have e: "show_tip b s = (emit ''shown.bs'' EL ?s2)\<lparr>hoverState := None\<rparr>"
    using assms content [OF assms(1), of s] controlD [OF c]
    by (simp add: show_tip_def trigger_def plain_env_def show_complete_def Let_def)
  have "enabled ?s2 = enabled s \<and> destroyed ?s2 = destroyed s \<and> in_any ?s2 = in_any s" using controlD [OF c] by blast
  then show ?thesis unfolding e Let_def by simp
qed

lemma hide_plain:
  assumes "plain_env b" "\<And>h. \<not> veto b h" "hoverState s \<noteq> Some In"
  shows "let s1 = hide b False s in enabled s1 = enabled s \<and> destroyed s1 = destroyed s \<and> in_any s1 = in_any s \<and>
    hoverState s1 = None \<and> \<not> attached s1 \<and> \<not> has_class TIP ''in'' s1"
  using assms by (simp add: hide_def trigger_def plain_env_def hide_complete_def Let_def)

text \<open>Only what the user does is different.\<close>

definition same_tip :: "tooltip \<Rightarrow> tooltip \<Rightarrow> bool" where
  "same_tip s t \<longleftrightarrow> enabled t = enabled s \<and> destroyed t = destroyed s \<and> attached t = attached s \<and>
     hoverState t = hoverState s \<and> cls t = cls s"

lemma same_tipD: "same_tip s t \<Longrightarrow> enabled t = enabled s \<and> destroyed t = destroyed s \<and> attached t = attached s \<and>
     hoverState t = hoverState s \<and> has_class m y t = has_class m y s"
  by (simp add: same_tip_def has_class_def)

lemma enter_inv:
  assumes "plain_env b" "\<And>h. \<not> veto b h" "tip_inv s" "in_any t"
    "same_tip s t"
  shows "tip_inv (enter_self b t)"
proof -
  note f = same_tipD [OF assms(5)]
  show ?thesis
  proof (cases "in_any s")
    case True
    then show ?thesis using assms(3,4) f by (simp add: enter_self_def tip_inv_def Let_def)
  next
    case False
    let ?u = "t\<lparr>made := True, timer := None, hoverState := Some In\<rparr>"
    have "enter_self b t = show_tip b ?u"
      using False assms(1,3) f by (simp add: enter_self_def tip_inv_def Let_def plain_env_def)
    with show_tip_plain [OF assms(1,2), of ?u] f assms(4) show ?thesis using assms(3) by (simp add: tip_inv_def Let_def)
  qed
qed

lemma leave_inv:
  assumes "plain_env b" "\<And>h. \<not> veto b h" "tip_inv s"
    "same_tip s t" "in_any t \<longrightarrow> in_any s"
  shows "tip_inv (leave_self b t)"
proof -
  note f = same_tipD [OF assms(4)]
  show ?thesis
  proof (cases "in_any t")
    case True
    then show ?thesis using assms(3,5) f by (simp add: leave_self_def tip_inv_def)
  next
    case False
    let ?u = "t\<lparr>timer := None, hoverState := Some Out\<rparr>"
    have "leave_self b t = hide b False ?u"
      using False assms(1) by (simp add: leave_self_def Let_def plain_env_def)
    with hide_plain [OF assms(1,2), of ?u] f False show ?thesis using assms(3) by (simp add: tip_inv_def Let_def)
  qed
qed

lemma user_step_inv:
  assumes "plain_env b" "\<And>h. \<not> veto b h" "tip_inv s" "user_step x"
  shows "tip_inv (tip_op b s x)"
proof -
  have d: "\<not> destroyed s" using assms(3) by (simp add: tip_inv_def)
  note E = enter_inv [OF assms(1-3)] note L = leave_inv [OF assms(1-3)]
  from assms(4) consider "x = MouseEnter" | "x = MouseLeave" | "x = FocusIn" | "x = FocusOut" | "x = Click"
    by (auto simp: user_step_def)
  then show ?thesis
  proof cases
    case 5
    let ?t = "s\<lparr>in_click := \<not> in_click s\<rparr>"
    show ?thesis using E [of ?t] L [of ?t] d 5 by (cases "in_any ?t") (simp_all add: toggle_click_def Let_def same_tip_def)
  qed (use E [of "s\<lparr>in_hover := True\<rparr>"] E [of "s\<lparr>in_focus := True\<rparr>"] L [of "s\<lparr>in_hover := False\<rparr>"]
      L [of "s\<lparr>in_focus := False\<rparr>"] d in \<open>auto simp: in_any_def same_tip_def enter_event_def leave_event_def\<close>)
qed

text \<open>
  What the user has done, read off the events alone: the pointer is over the element when it came
  last and did not leave, the element has the focus when it got it last, and clicks count modulo
  two.
\<close>

definition ended_with :: "tip_step \<Rightarrow> tip_step \<Rightarrow> tip_step list \<Rightarrow> bool" where
  "ended_with on off xs = (case rev (filter (\<lambda>x. x = on \<or> x = off) xs) of [] \<Rightarrow> False | x # _ \<Rightarrow> x = on)"

definition user_wants :: "tip_step list \<Rightarrow> bool" where
  "user_wants xs \<longleftrightarrow> ended_with MouseEnter MouseLeave xs \<or> ended_with FocusIn FocusOut xs \<or> odd (count_list xs Click)"

text \<open>Only the listeners write what the user does.\<close>

definition user_part :: "tooltip \<Rightarrow> bool \<times> bool \<times> bool" where
  "user_part s = (in_hover s, in_focus s, in_click s)"

lemma user_part_cong: "control s = control t \<Longrightarrow> user_part s = user_part t"
  by (simp add: user_part_def control_def)

lemma user_part_ops [simp]:
  "user_part (s\<lparr>timer := t\<rparr>) = user_part s" "user_part (s\<lparr>hoverState := h\<rparr>) = user_part s"
  "user_part (s\<lparr>pending := p\<rparr>) = user_part s" "user_part (s\<lparr>attached := a\<rparr>) = user_part s"
  "user_part (s\<lparr>made := a\<rparr>) = user_part s" "user_part (emit ev n s) = user_part s"
  "user_part (rem_class n z s) = user_part s" "user_part (rem_attr n k s) = user_part s"
  "user_part (s\<lparr>log := l\<rparr>) = user_part s" "user_part (place_tip b s) = user_part s"
  by (simp_all add: user_part_def bs_ops) (use controlD user_part_cong [of "place_tip b s" s] in \<open>simp add: user_part_def\<close>)

lemma user_part_hide [simp]: "user_part (hide b False s) = user_part s"
  by (simp add: hide_def trigger_def hide_complete_def Let_def)

lemma user_part_leave [simp]: "user_part (leave_self b s) = user_part s"
  by (simp add: leave_self_def Let_def)

lemma user_part_enter [simp]: "user_part (enter_self b s) = user_part s"
  by (simp add: enter_self_def show_tip_def show_complete_def trigger_def Let_def)

lemma user_part_tracked:
  assumes "list_all user_step xs" "\<And>ys zs. xs = ys @ zs \<Longrightarrow> \<not> destroyed (foldl (tip_op b) (init s) ys)"
  shows "user_part (foldl (tip_op b) (init s) xs) =
    (ended_with MouseEnter MouseLeave xs, ended_with FocusIn FocusOut xs, odd (count_list xs Click))"
  using assms
proof (induction xs rule: rev_induct)
  case Nil
  show ?case by (simp add: init_def fixTitle_def Let_def set_attr_def user_part_def ended_with_def)
next
  case (snoc x xs)
  let ?s = "foldl (tip_op b) (init s) xs"
  have IH: "user_part ?s = (ended_with MouseEnter MouseLeave xs, ended_with FocusIn FocusOut xs, odd (count_list xs Click))"
    using snoc by simp
  have d: "\<not> destroyed ?s" using snoc.prems(2) [of xs "[x]"] by simp
  have u: "user_step x" using snoc.prems(1) by simp
  have S: "user_part (?s\<lparr>in_hover := h\<rparr>) = (h, snd (user_part ?s))"
    "user_part (?s\<lparr>in_focus := h\<rparr>) = (fst (user_part ?s), h, snd (snd (user_part ?s)))"
    "user_part (?s\<lparr>in_click := \<not> in_click ?s\<rparr>) = (fst (user_part ?s), fst (snd (user_part ?s)), \<not> snd (snd (user_part ?s)))" for h
    by (simp_all add: user_part_def)
  show ?case using u d IH S
    by (auto simp: user_step_def enter_event_def leave_event_def toggle_click_def ended_with_def Let_def)
qed

text \<open>
  C17: the tip follows the user. With all three triggers, whatever sequence of pointer, focus and
  click events happens after the tooltip is made, the tip is in the page exactly when the last
  pointer event was a coming and not a leaving, or the last focus event a getting and not a
  losing, or the clicks on the element are odd in number; and exactly then it has the class that
  makes it visible. What the user did is read off the events alone, not off the plugin's flags.
  The page is one where nothing interferes: no transition and no delay, no listener prevents an
  event, the element is in the document and has a title, no call of the plugin's methods comes
  between, and an old tip does not carry the class.
\<close>

theorem tooltip_follows_user:
  assumes "plain_env b" "\<And>h. \<not> veto b h" "list_all user_step xs" "\<not> has_class TIP ''in'' s"
  shows "let s1 = foldl (tip_op b) (init s) xs
    in (attached s1 \<longleftrightarrow> user_wants xs) \<and> (has_class TIP ''in'' s1 \<longleftrightarrow> user_wants xs)"
proof -
  have i: "tip_inv (init s)"
    using assms(4) by (simp add: init_def fixTitle_def tip_inv_def Let_def set_attr_def in_any_def has_class_def)
  have inv: "tip_inv (foldl (tip_op b) (init s) ys)" if "list_all user_step ys" for ys
    by (rule foldl_keeps [where P = tip_inv, OF i]) (use assms(1,2) that user_step_inv in \<open>auto simp: list_all_iff\<close>)
  have "user_part (foldl (tip_op b) (init s) xs) =
      (ended_with MouseEnter MouseLeave xs, ended_with FocusIn FocusOut xs, odd (count_list xs Click))"
    by (rule user_part_tracked [OF assms(3)]) (use assms(3) inv in \<open>auto simp: tip_inv_def\<close>)
  then have "in_any (foldl (tip_op b) (init s) xs) \<longleftrightarrow> user_wants xs"
    by (auto simp: user_part_def in_any_def user_wants_def)
  with inv [OF assms(3)] show ?thesis by (simp add: tip_inv_def Let_def)
qed

definition plain1 :: tip_env where
  "plain1 = \<lparr>transition = False, veto = (\<lambda>_. False), is_popover = False, o_title = ''Help'', o_content = '''', o_animation = True,
     o_delay_show = 0, o_delay_hide = 0, o_placement = ''auto top'', in_dom = True, uid = ''tooltip1'',
     el_pos = body_rect, viewport_pos = body_rect, tip_width = 80, tip_height = 30\<rparr>"

definition link1 :: tooltip where
  "link1 = \<lparr>cls = (\<lambda>_. []), attr = (\<lambda>_. []), style = (\<lambda>_. []), log = [], enabled = False, timer = None, hoverState = None,
     in_click = False, in_hover = False, in_focus = False, made = False, attached = False, texts = ('''', ''''),
     pending = [], destroyed = False\<rparr>"

theorem tooltip_follows_user_witness:
  "attached (foldl (tip_op plain1) (init link1) [MouseEnter, FocusIn, MouseLeave]) \<and>
   \<not> attached (foldl (tip_op plain1) (init link1) [MouseEnter, Click, MouseLeave, Click])"
proof -
  have "user_wants [MouseEnter, FocusIn, MouseLeave]" "\<not> user_wants [MouseEnter, Click, MouseLeave, Click]"
    by (simp_all add: user_wants_def ended_with_def)
  with tooltip_follows_user [of plain1 "[MouseEnter, FocusIn, MouseLeave]" link1]
    tooltip_follows_user [of plain1 "[MouseEnter, Click, MouseLeave, Click]" link1]
  show ?thesis by (simp add: plain1_def plain_env_def user_step_def link1_def has_class_def Let_def)
qed

text \<open>
  \<open>destroy\<close> asks the listeners of \<open>hide\<close>: when one prevents it, the call of \<open>destroy\<close> leaves the
  tooltip alive, its listeners and its tip in place; otherwise, without a transition, it is gone.
\<close>

theorem destroy_prevented:
  assumes "\<not> transition b"
  shows "let s1 = tip_op b s Destroy
    in (destroyed s1 \<longleftrightarrow> destroyed s \<or> \<not> veto b (log s @ [(''hide.bs'', EL)])) \<and>
       (veto b (log s @ [(''hide.bs'', EL)]) \<longrightarrow> attached s1 = attached s)"
  using assms by (simp add: hide_def trigger_def hide_complete_def end_destroy_def Let_def bs_ops)

theorem destroy_prevented_witness:
  "\<not> destroyed (tip_op (plain1\<lparr>veto := \<lambda>_. True\<rparr>) (init link1) Destroy) \<and> destroyed (tip_op plain1 (init link1) Destroy)"
  using destroy_prevented [of "plain1\<lparr>veto := \<lambda>_. True\<rparr>" "init link1"] destroy_prevented [of plain1 "init link1"]
  by (simp add: plain1_def init_def fixTitle_def Let_def set_attr_def)

lemma place_tip_fade:
  assumes "o_animation b" "o_placement b = ''top''"
  shows "has_class (Suc 0) ''fade'' (place_tip b s)"
proof -
  have "parse_placement ''top'' = (False, ''top'')" by code_simp
  then show ?thesis using assms by (simp add: place_tip_def insert_tip_def Let_def)
qed

lemma attr_emit: "attr (emit ev n (s :: tooltip)) = attr s"
  by (simp add: emit_def)

lemma attr_hide_complete: "oget (attr (hide_complete k s) EL) ''aria-describedby'' = None"
  by (simp add: hide_complete_def end_destroy_def Let_def bs_ops)

text \<open>
  With a transition, a pointer that leaves a shown tooltip and comes back before the tip has
  faded out leaves it shown without its \<open>aria-describedby\<close>: the callback of the interrupted hide
  sees the new state, keeps the tip, and still takes the attribute of the new showing away.
\<close>

theorem reenter_loses_description:
  assumes "transition b" "\<And>h. \<not> veto b h" "o_delay_show b = 0" "o_delay_hide b = 0" "in_dom b" "o_title b \<noteq> ''''"
    "o_animation b" "o_placement b = ''top''"
    "\<not> destroyed s" "enabled s" "attached s" "has_class TIP ''in'' s" "has_class TIP ''fade'' s" "pending s = []"
    "hoverState s = None" "\<not> in_click s" "\<not> in_focus s"
  shows "let s1 = foldl (tip_op b) s [MouseLeave, MouseEnter, TransitionEnd]
    in attached s1 \<and> has_class TIP ''in'' s1 \<and> oget (attr s1 EL) ''aria-describedby'' = None"
proof -
  define s1 where "s1 = tip_op b s MouseLeave"
  have s1: "s1 = (rem_class TIP ''in'' (s\<lparr>in_hover := False, timer := None, hoverState := Some Out, log := log s @ [(''hide.bs'', EL)]\<rparr>))
      \<lparr>pending := [HideC False], hoverState := None\<rparr>"
    using assms by (simp add: s1_def leave_event_def leave_self_def in_any_def hide_def trigger_def Let_def rem_class_def has_class_def)
  have f1: "\<not> destroyed s1" "enabled s1" "attached s1" "\<not> has_class TIP ''in'' s1" "pending s1 = [HideC False]" "hoverState s1 = None"
    using assms by (simp_all add: s1)
  let ?u = "s1\<lparr>in_hover := True, made := True, timer := None, hoverState := Some In\<rparr>"
  let ?p = "place_tip b (?u\<lparr>log := log ?u @ [(''show.bs'', EL)]\<rparr>)"
  have c: "control ?p = control ?u" by simp
  note cd = controlD [OF c]
  have "hasContent b t" for t using assms(6) by (auto simp: hasContent_def getTitle_def split: option.split)
  then have s2: "tip_op b s1 MouseEnter = ?p\<lparr>pending := [HideC False, ShowC]\<rparr>"
    using f1 assms(1-3,5) cd place_tip_fade [OF assms(7,8)]
    by (simp add: enter_event_def enter_self_def show_tip_def trigger_def Let_def)
  let ?q = "?p\<lparr>pending := []\<rparr>"
  have h: "hoverState ?p = Some In" using cd by simp
  have hc: "hide_complete False ?q = emit ''hidden.bs'' EL (rem_attr EL ''aria-describedby'' ?q)"
    using h by (simp add: hide_complete_def)
  have h2: "hoverState (hide_complete False ?q) = Some In" unfolding hc using h by simp
  have s3: "tip_op b (?p\<lparr>pending := [HideC False, ShowC]\<rparr>) TransitionEnd =
      (emit ''shown.bs'' EL (hide_complete False ?q))\<lparr>hoverState := None\<rparr>"
    using h2 by (simp add: transition_ends_def run_callback_def show_complete_def Let_def)
  have e: "foldl (tip_op b) s [MouseLeave, MouseEnter, TransitionEnd] =
      (emit ''shown.bs'' EL (hide_complete False ?q))\<lparr>hoverState := None\<rparr>"
    by (simp only: foldl.simps s1_def [symmetric] s2 s3)
  have "attached ?p" "has_class TIP ''in'' ?p" by simp_all
  then have "attached (hide_complete False ?q)" "has_class TIP ''in'' (hide_complete False ?q)" unfolding hc by simp_all
  then show ?thesis using attr_hide_complete [of False ?q] unfolding e Let_def
    by (simp add: attr_emit)
qed

theorem reenter_loses_description_witness:
  "let b = plain1\<lparr>transition := True, o_placement := ''top''\<rparr>;
       s = link1\<lparr>enabled := True, attached := True, in_hover := True,
             cls := (\<lambda>n. if n = TIP then [''fade'', ''top'', ''in''] else []),
             attr := (\<lambda>n. if n = EL then [(''aria-describedby'', ''tooltip1'')] else [])\<rparr>
   in has_class TIP ''in'' (foldl (tip_op b) s [MouseLeave, MouseEnter, TransitionEnd]) \<and>
      oget (attr (foldl (tip_op b) s [MouseLeave, MouseEnter, TransitionEnd]) EL) ''aria-describedby'' = None"
  using reenter_loses_description [of "plain1\<lparr>transition := True, o_placement := ''top''\<rparr>"
      "link1\<lparr>enabled := True, attached := True, in_hover := True,
             cls := (\<lambda>n. if n = TIP then [''fade'', ''top'', ''in''] else []),
             attr := (\<lambda>n. if n = EL then [(''aria-describedby'', ''tooltip1'')] else [])\<rparr>"]
  by (simp add: plain1_def link1_def has_class_def Let_def del: foldl.simps)

end
