(* ===== verification/JQ_Data.thy ===== *)
theory JQ_Data
  imports JQ_Core
begin

text \<open>
  Data attached to elements (\<^verbatim>\<open>jquery.js\<close>, lines 3617 to 3950): the global cache with its
  identifiers, reading, writing and removing, what is read from \<open>data-*\<close> attributes, and the
  clean-up of one element, which also takes the element's listeners off (not part of this store).
  The data of plain objects (which lives on the object itself) is not modelled, nor is a private
  name \<open>data\<close>, which the code reserves for the public object.
\<close>

datatype jv = JNull | JBool bool | JNum int | JStr string | JRef nat

text \<open>
  The elements: names, types, attributes.  \<open>to_num\<close> is the number a string is read as when
  printing it gives the string back; \<open>parse_json\<close> is none where the parser raises.
\<close>

record data_env =
  nodeName :: "nat \<Rightarrow> string"
  nodeType :: "nat \<Rightarrow> nat"
  attributes :: "nat \<Rightarrow> string obj"
  to_num :: "string \<Rightarrow> int option"
  parse_json :: "string \<Rightarrow> jv option"

text \<open>An entry of the cache: private data, and the object for the public data once it exists.\<close>

record centry =
  priv :: "jv obj"
  pub :: "jv obj option"

record dstore =
  cache :: "nat \<Rightarrow> centry option"
  expando :: "nat \<Rightarrow> nat option"      \<comment> \<open>the identifier kept on the element\<close>
  deletedIds :: "nat list"
  guid :: nat

section \<open>Reading and writing\<close>

definition noData :: "(string \<times> string option) list" where
  "noData = [(''applet '', None), (''embed '', None), (''object '', Some ''clsid:D27CDB6E-AE6D-11cf-96B8-444553540000'')]"

definition acceptData :: "data_env \<Rightarrow> nat \<Rightarrow> bool" where
  "acceptData b e \<longleftrightarrow>
     (nodeType b e = 1 \<or> nodeType b e = 9) \<and>
     (case oget noData (lower (nodeName b e @ '' '')) of
        None \<Rightarrow> True
      | Some None \<Rightarrow> False
      | Some (Some clsid) \<Rightarrow> oget (attributes b e) ''classid'' = Some clsid)"

datatype dname = NoName | NStr string | NObj "jv obj"

datatype dres = RVal "jv option" | RObj "jv obj"

definition extend_obj :: "'v obj \<Rightarrow> 'v obj \<Rightarrow> 'v obj" where
  "extend_obj ob new = foldl (\<lambda>acc (k, v). oset acc k v) ob new"

text \<open>The property as it is written, and in camel case when that one is null or missing.\<close>

definition get_key :: "jv obj \<Rightarrow> string \<Rightarrow> jv option" where
  "get_key c k =
     (case oget c k of
        Some v \<Rightarrow> if v = JNull then oget c (camelCase k) else Some v
      | None \<Rightarrow> oget c (camelCase k))"

definition fresh_id :: "nat \<Rightarrow> dstore \<Rightarrow> nat \<times> dstore" where
  "fresh_id e s =
     (if deletedIds s \<noteq> []
      then (last (deletedIds s), s\<lparr>deletedIds := butlast (deletedIds s), expando := (expando s)(e := Some (last (deletedIds s)))\<rparr>)
      else (guid s, s\<lparr>guid := guid s + 1, expando := (expando s)(e := Some (guid s))\<rparr>))"

definition ensure_id :: "nat \<Rightarrow> dstore \<Rightarrow> nat \<times> dstore" where
  "ensure_id e s = (case expando s e of Some i \<Rightarrow> (i, s) | None \<Rightarrow> fresh_id e s)"

definition entry_at :: "dstore \<Rightarrow> nat \<Rightarrow> centry" where
  "entry_at s i = (case cache s i of Some c \<Rightarrow> c | None \<Rightarrow> \<lparr>priv = [], pub = None\<rparr>)"

text \<open>What the name and the value do to an entry: an object is copied in, then a value is set.\<close>

definition update_entry :: "dname \<Rightarrow> jv option \<Rightarrow> bool \<Rightarrow> centry \<Rightarrow> centry" where
  "update_entry nm v pvt c =
     (let c1 = (case nm of
                  NObj ob \<Rightarrow> if pvt then c\<lparr>priv := extend_obj (priv c) ob\<rparr>
                             else c\<lparr>pub := Some (extend_obj (case pub c of Some p \<Rightarrow> p | None \<Rightarrow> []) ob)\<rparr>
                | _ \<Rightarrow> c);
          c2 = (if \<not> pvt \<and> pub c1 = None then c1\<lparr>pub := Some []\<rparr> else c1)
      in case (v, nm) of
           (Some x, NStr k) \<Rightarrow>
             if pvt then c2\<lparr>priv := oset (priv c2) (camelCase k) x\<rparr>
             else c2\<lparr>pub := Some (oset (the (pub c2)) (camelCase k) x)\<rparr>
         | _ \<Rightarrow> c2)"

definition read_entry :: "dname \<Rightarrow> bool \<Rightarrow> centry \<Rightarrow> dres" where
  "read_entry nm pvt c =
     (let this = (if pvt then priv c else the (pub c))
      in case nm of NStr k \<Rightarrow> RVal (get_key this k) | _ \<Rightarrow> RObj this)"

definition internalData :: "data_env \<Rightarrow> nat \<Rightarrow> dname \<Rightarrow> jv option \<Rightarrow> bool \<Rightarrow> dstore \<Rightarrow> dres \<times> dstore" where
  "internalData b e nm v pvt s =
     (if \<not> acceptData b e then (RVal None, s)
      else let missing = (case expando s e of
                            None \<Rightarrow> True
                          | Some i \<Rightarrow> (case cache s i of None \<Rightarrow> True | Some c \<Rightarrow> \<not> pvt \<and> pub c = None))
           in if missing \<and> v = None \<and> (case nm of NStr _ \<Rightarrow> True | _ \<Rightarrow> False) then (RVal None, s)
              else case ensure_id e s of (i, s1) \<Rightarrow>
                     let c = update_entry nm v pvt (entry_at s1 i)
                     in (read_entry nm pvt c, s1\<lparr>cache := (cache s1)(i := Some c)\<rparr>))"

section \<open>Removing\<close>

text \<open>\<open>isEmptyDataObject\<close>: nothing but an empty public object and a \<open>toJSON\<close>.\<close>

definition isEmptyDataObject :: "centry \<Rightarrow> bool" where
  "isEmptyDataObject c \<longleftrightarrow>
     (case pub c of Some (_ # _) \<Rightarrow> False | _ \<Rightarrow> True) \<and> list_all (\<lambda>nm. nm = ''toJSON'') (okeys (priv c))"

definition cleanData :: "nat \<Rightarrow> dstore \<Rightarrow> dstore" where
  "cleanData e s =
     (case expando s e of
        None \<Rightarrow> s
      | Some i \<Rightarrow>
          (case cache s i of
             None \<Rightarrow> s
           | Some c \<Rightarrow> s\<lparr>cache := (cache s)(i := None), expando := (expando s)(e := None), deletedIds := deletedIds s @ [i]\<rparr>))"

datatype rname = RNone | RStr string | RArr "string list"

definition removal_keys :: "jv obj \<Rightarrow> rname \<Rightarrow> string list" where
  "removal_keys this nm =
     (case nm of
        RNone \<Rightarrow> []
      | RStr k \<Rightarrow>
          if k \<in> set (okeys this) then [k]
          else let k' = camelCase k
               in if k' \<in> set (okeys this) then [k'] else split_str '' '' k'
      | RArr ks \<Rightarrow> ks @ map camelCase ks)"

definition delete_keys :: "string list \<Rightarrow> jv obj \<Rightarrow> jv obj" where
  "delete_keys ks this = foldl odel this (rev ks)"

text \<open>
  The removal on an entry: the entry with the keys gone, and whether something is left that keeps
  the cache object alive.
\<close>

definition remove_keys :: "rname \<Rightarrow> bool \<Rightarrow> centry \<Rightarrow> centry \<times> bool" where
  "remove_keys nm pvt c =
     (if nm = RNone \<or> nm = RStr '''' then (c, False)
      else if pvt then (let c1 = c\<lparr>priv := delete_keys (removal_keys (priv c) nm) (priv c)\<rparr> in (c1, \<not> isEmptyDataObject c1))
      else case pub c of
             None \<Rightarrow> (c, False)
           | Some p \<Rightarrow> (let p1 = delete_keys (removal_keys p nm) p in (c\<lparr>pub := Some p1\<rparr>, p1 \<noteq> [])))"

definition internalRemoveData :: "data_env \<Rightarrow> nat \<Rightarrow> rname \<Rightarrow> bool \<Rightarrow> dstore \<Rightarrow> dstore" where
  "internalRemoveData b e nm pvt s =
     (if \<not> acceptData b e then s
      else case expando s e of
             None \<Rightarrow> s
           | Some i \<Rightarrow>
               (case cache s i of
                  None \<Rightarrow> s
                | Some c \<Rightarrow>
                    (case remove_keys nm pvt c of (c1, left) \<Rightarrow>
                       let s1 = s\<lparr>cache := (cache s)(i := Some c1)\<rparr>
                       in if left then s1
                          else if pvt then cleanData e s1
                          else let c2 = c1\<lparr>pub := None\<rparr>; s2 = s1\<lparr>cache := (cache s1)(i := Some c2)\<rparr>
                               in if \<not> isEmptyDataObject c2 then s2 else cleanData e s2)))"

definition hasData :: "nat \<Rightarrow> dstore \<Rightarrow> bool" where
  "hasData e s \<longleftrightarrow>
     (case expando s e of None \<Rightarrow> False | Some i \<Rightarrow> (case cache s i of None \<Rightarrow> False | Some c \<Rightarrow> \<not> isEmptyDataObject c))"

section \<open>Attributes\<close>

text \<open>The name of the attribute of a key: every capital letter with a dash before it, in lower case.\<close>

definition attr_name :: "string \<Rightarrow> string" where
  "attr_name key = ''data-'' @ lower (concat (map (\<lambda>c. if is_upper c then [CHR ''-'', c] else [c]) key))"

text \<open>\<open>/^(?:\{[\w\W]*\}|\[[\w\W]*\])$/\<close>.\<close>

definition rbrace :: "string \<Rightarrow> bool" where
  "rbrace s \<longleftrightarrow> 2 \<le> length s \<and>
     (hd s = CHR ''{'' \<and> last s = CHR ''}'' \<or> hd s = CHR ''['' \<and> last s = CHR '']'')"

definition convert_attr :: "data_env \<Rightarrow> string \<Rightarrow> jv" where
  "convert_attr b t =
     (if t = ''true'' then JBool True
      else if t = ''false'' then JBool False
      else if t = ''null'' then JNull
      else case to_num b t of
             Some k \<Rightarrow> JNum k
           | None \<Rightarrow> if rbrace t then (case parse_json b t of Some v \<Rightarrow> v | None \<Rightarrow> JStr t) else JStr t)"

definition dataAttr :: "data_env \<Rightarrow> nat \<Rightarrow> string \<Rightarrow> jv option \<Rightarrow> dstore \<Rightarrow> jv option \<times> dstore" where
  "dataAttr b e key v s =
     (if v = None \<and> nodeType b e = 1
      then (case oget (attributes b e) (attr_name key) of
              Some t \<Rightarrow> (let x = convert_attr b t in (Some x, snd (internalData b e (NStr key) (Some x) False s)))
            | None \<Rightarrow> (None, s))
      else (v, s))"

text \<open>
  \<open>data()\<close> of an element: all of it, with the attributes read once (none where it raises: an element
  that accepts no data has no object to look its attributes up in); and the value of a key.
\<close>

definition attr_key :: "string \<Rightarrow> string" where
  "attr_key nm = camelCase (drop 5 nm)"

definition read_attrs :: "data_env \<Rightarrow> nat \<Rightarrow> dstore \<Rightarrow> dstore" where
  "read_attrs b e s =
     foldl (\<lambda>s (nm, t).
              if take 5 nm = ''data-''
              then (let k = attr_key nm;
                        old = (case cache s (fst (ensure_id e s)) of
                                 Some c \<Rightarrow> (case pub c of Some p \<Rightarrow> oget p k | None \<Rightarrow> None) | None \<Rightarrow> None)
                    in snd (dataAttr b e k old s))
              else s)
       s (rev (attributes b e))"

definition fn_data_all :: "data_env \<Rightarrow> nat \<Rightarrow> dstore \<Rightarrow> (dres \<times> dstore) option" where
  "fn_data_all b e s =
     (case internalData b e NoName None False s of (r, s1) \<Rightarrow>
        if nodeType b e = 1
        then (case internalData b e (NStr ''parsedAttrs'') None True s1 of
                (RVal (Some v), s2) \<Rightarrow> Some (r, s2)
              | (_, s2) \<Rightarrow>
                  if \<not> acceptData b e \<and> list_ex (\<lambda>(nm, t). take 5 nm = ''data-'') (attributes b e) then None
                  else let s3 = snd (internalData b e (NStr ''parsedAttrs'') (Some (JBool True)) True (read_attrs b e s2))
                       in Some (fst (internalData b e NoName None False s3), s3))
        else Some (r, s1))"

definition fn_data_get :: "data_env \<Rightarrow> nat \<Rightarrow> string \<Rightarrow> dstore \<Rightarrow> jv option \<times> dstore" where
  "fn_data_get b e key s =
     (case internalData b e (NStr key) None False s of (r, s1) \<Rightarrow>
        dataAttr b e key (case r of RVal v \<Rightarrow> v | RObj _ \<Rightarrow> None) s1)"

definition fn_data_set :: "data_env \<Rightarrow> nat \<Rightarrow> string \<Rightarrow> jv \<Rightarrow> dstore \<Rightarrow> dstore" where
  "fn_data_set b e key v s = snd (internalData b e (NStr key) (Some v) False s)"

definition fn_removeData :: "data_env \<Rightarrow> nat \<Rightarrow> string \<Rightarrow> dstore \<Rightarrow> dstore" where
  "fn_removeData b e key s = internalRemoveData b e (RStr key) False s"

section \<open>Identifiers\<close>

definition ids_ok :: "dstore \<Rightarrow> bool" where
  "ids_ok s \<longleftrightarrow>
     (\<forall>e e' i. expando s e = Some i \<and> expando s e' = Some i \<longrightarrow> e = e') \<and>
     (\<forall>e i. expando s e = Some i \<longrightarrow> i < guid s \<and> i \<notin> set (deletedIds s)) \<and>
     distinct (deletedIds s) \<and> (\<forall>i \<in> set (deletedIds s). i < guid s) \<and>
     (\<forall>i. cache s i \<noteq> None \<longrightarrow> (\<exists>e. expando s e = Some i))"

text \<open>What the store holds for an element.\<close>

definition view :: "dstore \<Rightarrow> nat \<Rightarrow> centry option" where
  "view s e = (case expando s e of None \<Rightarrow> None | Some i \<Rightarrow> cache s i)"

lemma fresh_id_ok:
  assumes "ids_ok s" "expando s e = None" "fresh_id e s = (i, s1)"
  shows "expando s1 e = Some i" "cache s1 = cache s" "cache s i = None" "\<forall>e'. e' \<noteq> e \<longrightarrow> expando s1 e' = expando s e'" "ids_ok s1"
proof -
  have i: "cache s j = None" if "\<not> (\<exists>e. expando s e = Some j)" for j using assms(1) that by (auto simp: ids_ok_def)
  have f: "\<not> (\<exists>e. expando s e = Some i)" using assms
    by (auto simp: fresh_id_def ids_ok_def split: if_splits) (metis last_in_set)
  then show "cache s i = None" by (rule i)
  show 1: "expando s1 e = Some i" "cache s1 = cache s" "\<forall>e'. e' \<noteq> e \<longrightarrow> expando s1 e' = expando s e'"
    using assms(3) by (auto simp: fresh_id_def split: if_splits)
  have g: "i < guid s1 \<and> i \<notin> set (deletedIds s1) \<and> guid s \<le> guid s1 \<and> distinct (deletedIds s1) \<and> set (deletedIds s1) \<subseteq> set (deletedIds s)"
    using assms(1,3) by (auto simp: fresh_id_def ids_ok_def split: if_splits dest: in_set_butlastD intro: distinct_butlast)
      (metis append_butlast_last_id distinct_append disjoint_insert(1) list.simps(15) last_in_set)+
  have "\<exists>e'. expando s1 e' = Some j" if cj: "cache s j \<noteq> None" for j
  proof -
    obtain e' where "expando s e' = Some j" using assms(1) cj unfolding ids_ok_def by blast
    with assms(2) 1(3) show ?thesis by (metis option.distinct(1))
  qed
  then show "ids_ok s1" using assms(1,2) 1 f g unfolding ids_ok_def
    by (smt (verit) less_le_trans option.inject subsetD)
qed

lemma ensure_id_ok:
  assumes "ids_ok s" "ensure_id e s = (i, s1)"
  shows "expando s1 e = Some i" "cache s1 = cache s" "view s e = cache s i" "\<forall>e'. e' \<noteq> e \<longrightarrow> expando s1 e' = expando s e'" "ids_ok s1"
  using fresh_id_ok [OF assms(1), of e i s1] assms by (auto simp: ensure_id_def view_def split: option.splits)

lemma ids_ok_cache: "ids_ok s \<Longrightarrow> expando s e = Some i \<Longrightarrow> ids_ok (s\<lparr>cache := (cache s)(i := c)\<rparr>)"
  by (auto simp: ids_ok_def split: if_splits)

lemma cleanData_ok:
  assumes "ids_ok s"
  shows "ids_ok (cleanData e s)" "view (cleanData e s) e = None" "e' \<noteq> e \<Longrightarrow> view (cleanData e s) e' = view s e'"
proof -
  show "ids_ok (cleanData e s)"
  proof (cases "expando s e")
    case (Some i)
    show ?thesis
    proof (cases "cache s i")
      case c: (Some c)
      have "\<forall>j. cache s j \<noteq> None \<longrightarrow> j \<noteq> i \<longrightarrow> (\<exists>e'. e' \<noteq> e \<and> expando s e' = Some j)"
        using assms Some unfolding ids_ok_def by (metis option.inject)
      with assms Some c show ?thesis by (auto simp: cleanData_def ids_ok_def)
    qed (use Some assms in \<open>simp add: cleanData_def\<close>)
  qed (use assms in \<open>simp add: cleanData_def\<close>)
  show "view (cleanData e s) e = None" by (auto simp: cleanData_def view_def split: option.splits)
  show "e' \<noteq> e \<Longrightarrow> view (cleanData e s) e' = view s e'"
    using assms by (auto simp: cleanData_def view_def ids_ok_def split: option.splits)
qed

lemma view_cache:
  "ids_ok s \<Longrightarrow> expando s e = Some i \<Longrightarrow>
   view (s\<lparr>cache := (cache s)(i := c)\<rparr>) e' = (if e' = e then c else view s e')"
  by (auto simp: view_def ids_ok_def split: option.splits)

lemma internalData_view:
  assumes "ids_ok s"
  shows "ids_ok (snd (internalData b e nm v pvt s))"
    "e' \<noteq> e \<Longrightarrow> view (snd (internalData b e nm v pvt s)) e' = view s e'"
proof -
  obtain i s1 where n: "ensure_id e s = (i, s1)" by fastforce
  note E = ensure_id_ok [OF assms n]
  let ?c = "Some (update_entry nm v pvt (entry_at s1 i))"
  have "view (s1\<lparr>cache := (cache s1)(i := ?c)\<rparr>) e' = view s e'" if "e' \<noteq> e"
  proof -
    have "view s1 e' = view s e'" using that E(2,4) by (simp add: view_def split: option.split)
    then show ?thesis using view_cache [OF E(5,1), of ?c e'] that by simp
  qed
  then show "ids_ok (snd (internalData b e nm v pvt s))"
    "e' \<noteq> e \<Longrightarrow> view (snd (internalData b e nm v pvt s)) e' = view s e'"
    using n ids_ok_cache [OF E(5,1), of ?c] assms by (auto simp: internalData_def Let_def)
qed

text \<open>What reading returns, as a function of what the store holds for the element.\<close>

definition read_view :: "data_env \<Rightarrow> nat \<Rightarrow> dname \<Rightarrow> bool \<Rightarrow> centry option \<Rightarrow> dres" where
  "read_view b e nm pvt c =
     (if \<not> acceptData b e then RVal None
      else if (case c of None \<Rightarrow> True | Some x \<Rightarrow> \<not> pvt \<and> pub x = None) \<and> (case nm of NStr _ \<Rightarrow> True | _ \<Rightarrow> False) then RVal None
      else read_entry nm pvt (update_entry nm None pvt (case c of Some x \<Rightarrow> x | None \<Rightarrow> \<lparr>priv = [], pub = None\<rparr>)))"

lemma read_internalData:
  assumes "ids_ok s"
  shows "fst (internalData b e nm None pvt s) = read_view b e nm pvt (view s e)"
proof -
  obtain i s1 where n: "ensure_id e s = (i, s1)" by fastforce
  have "entry_at s1 i = (case view s e of Some x \<Rightarrow> x | None \<Rightarrow> \<lparr>priv = [], pub = None\<rparr>)"
    using ensure_id_ok [OF assms n] by (simp add: entry_at_def)
  moreover have "(case expando s e of None \<Rightarrow> True | Some i \<Rightarrow> (case cache s i of None \<Rightarrow> True | Some c \<Rightarrow> \<not> pvt \<and> pub c = None)) \<longleftrightarrow>
      (case view s e of None \<Rightarrow> True | Some x \<Rightarrow> \<not> pvt \<and> pub x = None)"
    by (simp add: view_def split: option.split)
  ultimately show ?thesis using n by (simp add: internalData_def read_view_def Let_def)
qed

lemma internalRemoveData_view:
  assumes "ids_ok s"
  shows "ids_ok (internalRemoveData b e nm pvt s)"
    "e' \<noteq> e \<Longrightarrow> view (internalRemoveData b e nm pvt s) e' = view s e'"
proof -
  have "ids_ok (internalRemoveData b e nm pvt s) \<and> (e' \<noteq> e \<longrightarrow> view (internalRemoveData b e nm pvt s) e' = view s e')"
  proof (cases "expando s e")
    case (Some i)
    show ?thesis
    proof (cases "cache s i")
      case c: (Some c)
      obtain c1 left where r: "remove_keys nm pvt c = (c1, left)" by fastforce
      let ?s1 = "s\<lparr>cache := (cache s)(i := Some c1)\<rparr>"
      have s1: "ids_ok ?s1" "e' \<noteq> e \<Longrightarrow> view ?s1 e' = view s e'" "expando ?s1 e = Some i"
        using ids_ok_cache [OF assms Some] view_cache [OF assms Some] Some by auto
      let ?s2 = "?s1\<lparr>cache := (cache ?s1)(i := Some (c1\<lparr>pub := None\<rparr>))\<rparr>"
      have s2: "ids_ok ?s2" by (rule ids_ok_cache [OF s1(1,3)])
      have "view ?s2 e' = (if e' = e then Some (c1\<lparr>pub := None\<rparr>) else view ?s1 e')" by (rule view_cache [OF s1(1,3)])
      with s1(2) have s2': "e' \<noteq> e \<Longrightarrow> view ?s2 e' = view s e'" by simp
      show ?thesis
        using Some c r s1(1,2) s2 s2' cleanData_ok(1) [OF s1(1), of e] cleanData_ok(1) [OF s2, of e]
          cleanData_ok(3) [OF s1(1), of e' e] cleanData_ok(3) [OF s2, of e' e] assms
        by (simp add: internalRemoveData_def Let_def)
    qed (use Some assms in \<open>simp add: internalRemoveData_def\<close>)
  qed (use assms in \<open>simp add: internalRemoveData_def\<close>)
  then show "ids_ok (internalRemoveData b e nm pvt s)"
    "e' \<noteq> e \<Longrightarrow> view (internalRemoveData b e nm pvt s) e' = view s e'" by blast+
qed

text \<open>The stores that calls of the data functions lead to.\<close>

inductive reachable :: "data_env \<Rightarrow> dstore \<Rightarrow> bool" for b where
  start: "reachable b \<lparr>cache = (\<lambda>_. None), expando = (\<lambda>_. None), deletedIds = [], guid = 1\<rparr>"
| data: "reachable b s \<Longrightarrow> reachable b (snd (internalData b e nm v pvt s))"
| remove: "reachable b s \<Longrightarrow> reachable b (internalRemoveData b e nm pvt s)"
| clean: "reachable b s \<Longrightarrow> reachable b (cleanData e s)"

lemma reachable_ids: "reachable b s \<Longrightarrow> ids_ok s"
proof (induction rule: reachable.induct)
  case start
  show ?case by (simp add: ids_ok_def)
qed (rule internalData_view(1) internalRemoveData_view(1) cleanData_ok(1), assumption)+

section \<open>The public data as a store\<close>

definition fine_key :: "string \<Rightarrow> bool" where
  "fine_key k \<longleftrightarrow> camelCase (camelCase k) = camelCase k \<and> CHR '' '' \<notin> set (camelCase k) \<and> k \<noteq> ''''"

definition data_inv :: "data_env \<Rightarrow> nat \<Rightarrow> dstore \<Rightarrow> bool" where
  "data_inv b e s \<longleftrightarrow> acceptData b e \<and> ids_ok s \<and>
     (\<forall>c p k. view s e = Some c \<and> pub c = Some p \<and> k \<in> set (okeys p) \<longrightarrow> camelCase k = k)"

definition look_data :: "data_env \<Rightarrow> nat \<Rightarrow> dstore \<Rightarrow> string \<Rightarrow> jv option" where
  "look_data b e s k = (case fst (internalData b e (NStr k) None False s) of RVal v \<Rightarrow> v | RObj _ \<Rightarrow> None)"

definition public :: "dstore \<Rightarrow> nat \<Rightarrow> jv obj" where
  "public s e = (case view s e of None \<Rightarrow> [] | Some c \<Rightarrow> (case pub c of None \<Rightarrow> [] | Some p \<Rightarrow> p))"

lemma get_key_Nil [simp]: "get_key [] k = None"
  by (simp add: get_key_def)

lemma look_data_public:
  "ids_ok s \<Longrightarrow> acceptData b e \<Longrightarrow> look_data b e s k = get_key (public s e) k"
  by (auto simp: look_data_def read_internalData read_view_def read_entry_def update_entry_def public_def Let_def split: option.splits)

lemma look_data_camel:
  assumes "data_inv b e s"
  shows "look_data b e s k = oget (public s e) (camelCase k)"
proof -
  have "oget (public s e) k = Some v \<Longrightarrow> camelCase k = k" for v
    using assms oget_Some_keys [of _ k v] by (auto simp: data_inv_def public_def split: option.splits)
  then show ?thesis using assms look_data_public [of s b e k] by (auto simp: data_inv_def get_key_def split: option.splits)
qed

lemma public_set:
  assumes "ids_ok s" "acceptData b e"
  shows "public (fn_data_set b e k v s) e = oset (public s e) (camelCase k) v"
proof -
  obtain i s1 where n: "ensure_id e s = (i, s1)" by fastforce
  note E = ensure_id_ok [OF assms(1) n]
  let ?c = "Some (update_entry (NStr k) (Some v) False (entry_at s1 i))"
  let ?s2 = "s1\<lparr>cache := (cache s1)(i := ?c)\<rparr>"
  have v: "view ?s2 e = ?c" using view_cache [OF E(5,1), of ?c e] by simp
  have d: "fn_data_set b e k v s = ?s2" using n assms(2) by (simp add: fn_data_set_def internalData_def Let_def)
  have en: "entry_at s1 i = (case view s e of Some c \<Rightarrow> c | None \<Rightarrow> \<lparr>priv = [], pub = None\<rparr>)"
    using E(2,3) by (simp add: entry_at_def)
  show ?thesis unfolding d public_def [of ?s2] v unfolding en
    by (auto simp: public_def update_entry_def Let_def split: option.splits)
qed

lemma odel_absent: "k \<notin> set (okeys p) \<Longrightarrow> odel p k = p"
  by (simp add: odel_def AList.delete_eq okeys_def) (rule filter_True, force)

lemma split_str_no_space: "c \<notin> set x \<Longrightarrow> split_str [c] x = [x]"
  using split_str_fresh [of c x "[]"] by simp

lemma delete_fine:
  assumes "fine_key k" "\<forall>x \<in> set (okeys p). camelCase x = x"
  shows "delete_keys (removal_keys p (RStr k)) p = odel p (camelCase k)"
  using assms by (auto simp: removal_keys_def delete_keys_def Let_def fine_key_def split_str_no_space odel_absent)

lemma public_remove:
  assumes "data_inv b e s" "fine_key k"
  shows "public (fn_removeData b e k s) e = odel (public s e) (camelCase k)"
proof (cases "expando s e")
  case None
  then show ?thesis using assms(1) by (simp add: data_inv_def fn_removeData_def internalRemoveData_def public_def view_def odel_def)
next
  case (Some i)
  show ?thesis
  proof (cases "cache s i")
    case None
    then show ?thesis using assms(1) Some by (simp add: data_inv_def fn_removeData_def internalRemoveData_def public_def view_def odel_def)
  next
    case c: (Some c)
    have ok: "ids_ok s" "acceptData b e" using assms(1) by (simp_all add: data_inv_def)
    let ?p1 = "odel (public s e) (camelCase k)"
    obtain c1 left where r: "remove_keys (RStr k) False c = (c1, left)" by fastforce
    have vw: "view s e = Some c" using Some c by (simp add: view_def)
    have cm: "\<forall>p. pub c = Some p \<longrightarrow> (\<forall>x \<in> set (okeys p). camelCase x = x)"
      using assms(1) vw by (auto simp: data_inv_def)
    have c1: "(case pub c1 of None \<Rightarrow> [] | Some p \<Rightarrow> p) = ?p1" "left \<longleftrightarrow> ?p1 \<noteq> []"
      using r cm assms(2) delete_fine [OF assms(2)] vw
      by (auto simp: remove_keys_def public_def fine_key_def odel_def Let_def split: option.splits)
    let ?s1 = "s\<lparr>cache := (cache s)(i := Some c1)\<rparr>"
    have s1: "ids_ok ?s1" "view ?s1 e = Some c1" "expando ?s1 e = Some i"
      using ids_ok_cache [OF ok(1) Some] view_cache [OF ok(1) Some] Some by auto
    let ?s2 = "?s1\<lparr>cache := (cache ?s1)(i := Some (c1\<lparr>pub := None\<rparr>))\<rparr>"
    have s2: "ids_ok ?s2" by (rule ids_ok_cache [OF s1(1,3)])
    have "view ?s2 e = (if e = e then Some (c1\<lparr>pub := None\<rparr>) else view ?s1 e)" by (rule view_cache [OF s1(1,3)])
    then have q2: "public ?s2 e = []" unfolding public_def by simp
    have q1: "public ?s1 e = ?p1" unfolding public_def s1(2) using c1(1) by (simp add: public_def)
    have q3: "public (cleanData e ?s2) e = []" unfolding public_def cleanData_ok(2) [OF s2] by simp
    have "fn_removeData b e k s = (if left then ?s1 else if \<not> isEmptyDataObject (c1\<lparr>pub := None\<rparr>) then ?s2 else cleanData e ?s2)"
      using ok(2) Some c r by (simp add: fn_removeData_def internalRemoveData_def Let_def)
    with q1 q2 q3 c1(2) show ?thesis by presburger
  qed
qed

interpretation public_data: kv_alias "data_inv b e" fine_key camelCase "look_data b e"
  "\<lambda>s k v. fn_data_set b e k v s" "\<lambda>s k. fn_removeData b e k s" for b e
proof
  have cam: "data_inv b e s \<longleftrightarrow> acceptData b e \<and> ids_ok s \<and> (\<forall>k \<in> set (okeys (public s e)). camelCase k = k)" for s
    by (cases "view s e"; cases "pub (the (view s e))") (auto simp: data_inv_def public_def okeys_def)
  fix s k v k'
  assume s: "data_inv b e s" "fine_key k"
  have ok: "ids_ok s" "acceptData b e" using s by (simp_all add: data_inv_def)
  have i1: "ids_ok (fn_data_set b e k v s)" "ids_ok (fn_removeData b e k s)"
    using internalData_view(1) [OF ok(1)] internalRemoveData_view(1) [OF ok(1)] by (simp_all add: fn_data_set_def fn_removeData_def)
  show p: "data_inv b e (fn_data_set b e k v s)"
    using s ok i1 unfolding cam public_set [OF ok] by (auto simp: fine_key_def)
  show d: "data_inv b e (fn_removeData b e k s)"
    using s ok i1 unfolding cam public_remove [OF s] by auto
  assume "fine_key k'"
  show "look_data b e (fn_data_set b e k v s) k' = (if camelCase k' = camelCase k then Some v else look_data b e s k')"
    unfolding look_data_camel [OF p] look_data_camel [OF s(1)] public_set [OF ok] by simp
  show "look_data b e (fn_removeData b e k s) k' = (if camelCase k' = camelCase k then None else look_data b e s k')"
    unfolding look_data_camel [OF d] look_data_camel [OF s(1)] public_remove [OF s] by simp
qed

section \<open>Attribute names\<close>

text \<open>Names as a page writes them: no capital letters, and a lower case letter after every dash.\<close>

fun plain_name :: "string \<Rightarrow> bool" where
  "plain_name [] = True"
| "plain_name [c] = (\<not> is_upper c \<and> c \<noteq> CHR ''-'')"
| "plain_name (c # d # cs) = (\<not> is_upper c \<and> (c = CHR ''-'' \<longrightarrow> is_lower d) \<and> plain_name (d # cs))"

lemma lower_append: "lower (xs @ ys) = lower xs @ lower ys"
  by (simp add: lower_def)

lemma plain_name_ConsD: "plain_name (c # cs) \<Longrightarrow> plain_name cs \<and> \<not> is_upper c"
  by (cases cs) auto

lemma dashes_back:
  "plain_name nm \<Longrightarrow> lower (concat (map (\<lambda>c. if is_upper c then [CHR ''-'', c] else [c]) (dashes nm))) = nm"
proof (induction nm rule: dashes.induct)
  case (3 c d cs)
  have low: "to_lower x = x" if "\<not> is_upper x" for x using that by (simp add: to_lower_def)
  have p: "\<not> is_upper c" "plain_name (d # cs)" using "3.prems" by (simp_all split: if_splits)
  show ?case
  proof (cases "c = CHR ''-'' \<and> is_da_z d")
    case True
    with "3.prems" have d: "is_lower d" by simp
    have u: "is_upper (to_upper d)" by (rule is_upper_to_upper [OF d])
    have "(of_char d :: nat) - 32 + 32 = of_char d" using d by (simp add: is_lower_def)
    then have "to_lower (to_upper d) = d" using u of_char_to_upper [OF d] by (simp add: to_lower_def)
    with u have ud: "is_upper (to_upper d)" "to_lower (to_upper d) = d" by simp_all
    have "to_lower (CHR ''-'') = CHR ''-''" by code_simp
    with True ud "3.IH"(1) plain_name_ConsD [OF p(2)] show ?thesis by (simp add: lower_def)
  next
    case False
    with "3.IH"(2) p low show ?thesis by (auto simp: lower_def)
  qed
qed (auto simp: lower_def to_lower_def)

section \<open>The properties\<close>

text \<open>
  C19: data of different elements never mix: in every reachable store, writing or removing data of
  one element, identifiers reused or not, leaves what any name reads from another element as it
  was.
\<close>

theorem data_isolated:
  assumes "reachable b s" "e' \<noteq> e"
  shows "fst (internalData b e' nm None pvt (snd (internalData b e nm' v pvt' s))) = fst (internalData b e' nm None pvt s) \<and>
    fst (internalData b e' nm None pvt (internalRemoveData b e rm pvt' s)) = fst (internalData b e' nm None pvt s) \<and>
    fst (internalData b e' nm None pvt (cleanData e s)) = fst (internalData b e' nm None pvt s)"
proof -
  have ok: "ids_ok s" by (rule reachable_ids [OF assms(1)])
  show ?thesis
    using read_internalData [OF ok] read_internalData [OF internalData_view(1) [OF ok]]
      read_internalData [OF internalRemoveData_view(1) [OF ok]] read_internalData [OF cleanData_ok(1) [OF ok]]
      internalData_view(2) [OF ok assms(2)] internalRemoveData_view(2) [OF ok assms(2)] cleanData_ok(3) [OF ok assms(2)]
    by simp
qed

definition denv1 :: data_env where
  "denv1 = \<lparr>nodeName = (\<lambda>_. ''DIV''), nodeType = (\<lambda>_. 1), attributes = (\<lambda>_. []), to_num = (\<lambda>_. None), parse_json = (\<lambda>_. None)\<rparr>"

definition store0 :: dstore where
  "store0 = \<lparr>cache = (\<lambda>_. None), expando = (\<lambda>_. None), deletedIds = [], guid = 1\<rparr>"

lemma denv1_accepts: "acceptData denv1 e"
proof -
  have "oget noData (lower ''DIV '') = None" by code_simp
  then show ?thesis by (simp add: acceptData_def denv1_def)
qed

theorem data_isolated_witness:
  "fst (internalData denv1 2 (NStr ''x'') None False
     (snd (internalData denv1 1 (NStr ''x'') (Some (JNum 5)) False store0))) = RVal None"
  using data_isolated [of denv1 store0 2 1 "NStr ''x''" False "NStr ''x''" "Some (JNum 5)" False RNone]
    reachable.start [of denv1]
  by (simp add: store0_def) (simp add: internalData_def)

text \<open>
  Public data is a store: after any writes of an element, a key reads the value of the last
  write to a key with the same camel case form, and after a removal of such a key nothing.
\<close>

theorem data_last_write:
  assumes "acceptData b e" "\<forall>(k, v) \<in> set kvs. fine_key k" "fine_key k'"
  shows "look_data b e (foldl (\<lambda>s (k, v). fn_data_set b e k v s) store0 kvs) k' =
      (case List.find (\<lambda>(k, v). camelCase k = camelCase k') (rev kvs) of Some (k, v) \<Rightarrow> Some v | None \<Rightarrow> None) \<and>
    look_data b e (fn_removeData b e k' (foldl (\<lambda>s (k, v). fn_data_set b e k v s) store0 kvs)) k' = None"
proof -
  have i: "data_inv b e store0"
    using assms(1) reachable_ids [OF reachable.start [of b]] by (simp add: data_inv_def store0_def view_def)
  have "look_data b e store0 k' = None" using assms(1) by (simp add: look_data_def internalData_def store0_def)
  then show ?thesis
    using public_data.look_puts [OF i assms(2,3)] public_data.alias_del [OF public_data.keeps_puts [OF i assms(2)] assms(3,3)]
    by (simp split: option.split)
qed

theorem data_last_write_witness:
  "look_data denv1 1 (foldl (\<lambda>s (k, v). fn_data_set denv1 1 k v s) store0 [(''a-b'', JNum 1), (''c'', JNull), (''aB'', JNum 2)]) ''a-b'' = Some (JNum 2)"
proof -
  have "fine_key ''a-b''" "fine_key ''c''" "fine_key ''aB''" "camelCase ''a-b'' = ''aB''" "camelCase ''aB'' = ''aB''" by code_simp+
  then show ?thesis
    using data_last_write [OF denv1_accepts, of "[(''a-b'', JNum 1), (''c'', JNull), (''aB'', JNum 2)]" "''a-b''" 1] by simp
qed

text \<open>
  A value set under a key with a dash is not read back when an object with that very key was
  stored before: the object's key stays as written, the value goes to the camel case key, and
  reading looks for the written key first.
\<close>

theorem data_set_not_read:
  assumes "ids_ok s" "acceptData b e" "camelCase k \<noteq> k" "w \<noteq> JNull"
  shows "let s1 = snd (internalData b e (NObj [(k, w)]) None False s)
    in look_data b e (fn_data_set b e k v s1) k = Some w \<and> oget (public (fn_data_set b e k v s1) e) (camelCase k) = Some v"
proof -
  let ?s1 = "snd (internalData b e (NObj [(k, w)]) None False s)"
  have ok1: "ids_ok ?s1" by (rule internalData_view(1) [OF assms(1)])
  obtain i s0 where n: "ensure_id e s = (i, s0)" by fastforce
  note E = ensure_id_ok [OF assms(1) n]
  let ?c = "Some (update_entry (NObj [(k, w)]) None False (entry_at s0 i))"
  let ?s2 = "s0\<lparr>cache := (cache s0)(i := ?c)\<rparr>"
  have v: "view ?s2 e = ?c" using view_cache [OF E(5,1), of ?c e] by simp
  have d: "?s1 = ?s2" using n assms(2) by (simp add: internalData_def Let_def)
  have p1: "oget (public ?s1 e) k = Some w"
    unfolding d public_def [of ?s2] v by (simp add: update_entry_def extend_obj_def Let_def)
  have p2: "public (fn_data_set b e k v ?s1) e = oset (public ?s1 e) (camelCase k) v"
    by (rule public_set [OF ok1 assms(2)])
  have ok2: "ids_ok (fn_data_set b e k v ?s1)" unfolding fn_data_set_def by (rule internalData_view(1) [OF ok1])
  have "look_data b e (fn_data_set b e k v ?s1) k = Some w"
    unfolding look_data_public [OF ok2 assms(2)] p2 using p1 assms(3,4) by (simp add: get_key_def)
  then show ?thesis by (simp add: Let_def p2)
qed

theorem data_set_not_read_witness:
  "look_data denv1 1 (fn_data_set denv1 1 ''a-b'' (JNum 2)
     (snd (internalData denv1 1 (NObj [(''a-b'', JNum 1)]) None False store0))) ''a-b'' = Some (JNum 1)"
proof -
  have "camelCase ''a-b'' \<noteq> ''a-b''" by code_simp
  from data_set_not_read [OF reachable_ids [OF reachable.start] denv1_accepts this, of "JNum 1" 1 "JNum 2"]
  show ?thesis by (simp add: store0_def Let_def)
qed

text \<open>
  Names round trip: the key of a \<open>data-\<close> attribute is looked up in just that attribute, for
  the names pages use (no capital letters, a lower case letter after every dash, no vendor prefix).
\<close>

theorem data_attr_roundtrip:
  assumes "plain_name nm" "take 4 nm \<noteq> ''-ms-''"
  shows "attr_name (attr_key (''data-'' @ nm)) = ''data-'' @ nm"
  using dashes_back [OF assms(1)] assms(2) by (simp add: attr_name_def attr_key_def camelCase_def)

theorem data_attr_roundtrip_witness: "attr_name (attr_key ''data-slide-to'') = ''data-slide-to''"
proof -
  have "plain_name ''slide-to''" by code_simp
  from data_attr_roundtrip [OF this] show ?thesis by simp
qed

end
