(* ===== verification/JQ_Tree.thy ===== *)
theory JQ_Tree
  imports JS_Prelude "HOL-Library.List_Lexorder"
begin

text \<open>
  The document as Sizzle sees it (\<^verbatim>\<open>jquery.js\<close>, lines 946 to 1545): nodes with their parents
  and siblings, containment, the two comparison functions that put nodes into document order,
  the sort that removes duplicates, and the text of a node.  A node is the tree it lives in (the
  document, or a tree outside it) and the path of child positions that leads to it.
\<close>

datatype node = Node (tree: nat) (path: "nat list")

instantiation node :: linorder
begin

definition less_eq_node :: "node \<Rightarrow> node \<Rightarrow> bool" where
  "less_eq_node a b \<longleftrightarrow> tree a < tree b \<or> tree a = tree b \<and> path a \<le> path b"

definition less_node :: "node \<Rightarrow> node \<Rightarrow> bool" where
  "less_node a b \<longleftrightarrow> tree a < tree b \<or> tree a = tree b \<and> path a < path b"

instance
  by standard (auto simp: less_eq_node_def less_node_def intro: node.expand)

end

text \<open>
  What the browser says of the document: node types and numbers of children, the features that
  \<open>setDocument\<close> tests, the tree of the preferred document, and IE's source index.
\<close>

record dom_env =
  nodeType :: "node \<Rightarrow> nat"
  childCount :: "node \<Rightarrow> nat"
  nodeValue :: "node \<Rightarrow> string"
  textContent :: "node \<Rightarrow> string option"
  documentElement :: "node \<Rightarrow> node"
  hasCompare :: bool
  detectDuplicates :: bool
  sortStable :: bool
  sortDetached :: bool
  sourceIndex :: "node \<Rightarrow> int option"
  preferred :: nat
  follows :: "nat \<Rightarrow> nat \<Rightarrow> bool"   \<comment> \<open>the order a browser gives to disconnected trees\<close>

section \<open>Links between nodes\<close>

definition parentNode :: "node \<Rightarrow> node option" where
  "parentNode n = (if path n = [] then None else Some (Node (tree n) (butlast (path n))))"

definition child :: "node \<Rightarrow> nat \<Rightarrow> node" where
  "child n k = Node (tree n) (path n @ [k])"

definition firstChild :: "dom_env \<Rightarrow> node \<Rightarrow> node option" where
  "firstChild d n = (if childCount d n = 0 then None else Some (child n 0))"

definition nextSibling :: "dom_env \<Rightarrow> node \<Rightarrow> node option" where
  "nextSibling d n =
     (case parentNode n of
        None \<Rightarrow> None
      | Some p \<Rightarrow> if last (path n) + 1 < childCount d p then Some (child p (last (path n) + 1)) else None)"

definition previousSibling :: "node \<Rightarrow> node option" where
  "previousSibling n =
     (case parentNode n of
        None \<Rightarrow> None
      | Some p \<Rightarrow> if last (path n) = 0 then None else Some (child p (last (path n) - 1)))"

text \<open>The nodes of the document.\<close>

definition in_doc :: "dom_env \<Rightarrow> node \<Rightarrow> bool" where
  "in_doc d n \<longleftrightarrow> (\<forall>i < length (path n). path n ! i < childCount d (Node (tree n) (take i (path n))))"

text \<open>How many siblings are left after a node (a bound for the loops along them).\<close>

definition siblings_left :: "dom_env \<Rightarrow> node \<Rightarrow> nat" where
  "siblings_left d n = (case parentNode n of None \<Rightarrow> 0 | Some p \<Rightarrow> childCount d p - last (path n))"

lemma path_child [simp]: "path (child n k) = path n @ [k]" "tree (child n k) = tree n"
  by (simp_all add: child_def)

lemma parentNode_child [simp]: "parentNode (child n k) = Some n"
  by (simp add: parentNode_def child_def)

lemma child_inject [simp]: "child p k = child q l \<longleftrightarrow> p = q \<and> k = l"
  by (cases p; cases q) (auto simp: child_def)

lemma parentNode_Some: "parentNode n = Some p \<longleftrightarrow> (\<exists>k. n = child p k)"
proof (cases n)
  case (Node r xs)
  then show ?thesis by (cases p; cases xs rule: rev_cases) (auto simp: parentNode_def child_def)
qed

lemma nextSibling_Some:
  "nextSibling d n = Some m \<longleftrightarrow> (\<exists>p k. n = child p k \<and> m = child p (Suc k) \<and> Suc k < childCount d p)"
proof (cases "parentNode n")
  case None
  then show ?thesis by (auto simp: nextSibling_def)
next
  case (Some p)
  then show ?thesis by (auto simp: nextSibling_def parentNode_Some split: if_splits)
qed

lemma siblings_left_next: "nextSibling d n = Some m \<Longrightarrow> siblings_left d m < siblings_left d n"
  by (auto simp: nextSibling_Some siblings_left_def)

text \<open>Descendants and proper ancestors are extensions of paths.\<close>

definition inside :: "node \<Rightarrow> node \<Rightarrow> bool" where
  "inside a b \<longleftrightarrow> tree a = tree b \<and> strict_prefix (path a) (path b)"

lemma inside_parent: "inside a b \<longleftrightarrow> (\<exists>p. parentNode b = Some p \<and> (a = p \<or> inside a p))"
proof (cases "path b" rule: rev_cases)
  case Nil
  then show ?thesis by (simp add: inside_def parentNode_def)
next
  case (snoc ys y)
  then show ?thesis
    by (cases a; cases b) (auto simp: inside_def parentNode_def strict_prefix_def)
qed

section \<open>Containment\<close>

text \<open>The DOM's own \<open>contains\<close> is inclusive.\<close>

definition native_contains :: "node \<Rightarrow> node \<Rightarrow> bool" where
  "native_contains a b \<longleftrightarrow> a = b \<or> inside a b"

definition contains_native :: "dom_env \<Rightarrow> node \<Rightarrow> node \<Rightarrow> bool" where
  "contains_native d a b =
     (let adown = (if nodeType d a = 9 then documentElement d a else a)
      in case parentNode b of
           None \<Rightarrow> False
         | Some bup \<Rightarrow> a = bup \<or> nodeType d bup = 1 \<and> native_contains adown bup)"

function contains_walk :: "node \<Rightarrow> node \<Rightarrow> bool" where
  "contains_walk a b =
     (case parentNode b of None \<Rightarrow> False | Some p \<Rightarrow> if p = a then True else contains_walk a p)"
  by pat_completeness auto
termination
  by (relation "measure (\<lambda>(a, b). length (path b))") (auto simp: parentNode_Some)

declare contains_walk.simps [simp del]

definition contains :: "dom_env \<Rightarrow> node \<Rightarrow> node \<Rightarrow> bool" where
  "contains d a b = (if hasCompare d then contains_native d a b else contains_walk a b)"

lemma contains_walk_inside: "contains_walk a b \<longleftrightarrow> inside a b"
proof (induction a b rule: contains_walk.induct)
  case (1 a b)
  then show ?case
    by (subst contains_walk.simps, subst inside_parent) (auto split: option.split)
qed

text \<open>
  A well-formed page: only elements, documents and fragments have children, documents and
  fragments are roots, and the elements of a document are inside its document element.
\<close>

definition wf_env :: "dom_env \<Rightarrow> bool" where
  "wf_env d \<longleftrightarrow>
     (\<forall>a. in_doc d a \<and> nodeType d a \<in> {9, 11} \<longrightarrow> path a = []) \<and>
     (\<forall>a b. inside a b \<and> in_doc d b \<longrightarrow> nodeType d a \<in> {1, 9, 11}) \<and>
     (\<forall>a b. nodeType d a = 9 \<and> inside a b \<and> in_doc d b \<and> nodeType d b = 1 \<longrightarrow>
        native_contains (documentElement d a) b) \<and>
     (\<forall>a. nodeType d a = 9 \<longrightarrow> inside a (documentElement d a))"

lemma in_doc_parent: "in_doc d b \<Longrightarrow> parentNode b = Some p \<Longrightarrow> in_doc d p"
  by (auto simp: in_doc_def parentNode_Some nth_append dest: spec split: if_splits)

lemma contains_native_walk:
  assumes "wf_env d" "in_doc d b"
  shows "contains_native d a b \<longleftrightarrow> contains_walk a b"
proof (cases "parentNode b")
  case None
  then show ?thesis by (simp add: contains_native_def contains_walk.simps [of a b])
next
  case (Some p)
  have p: "in_doc d p" "inside p b" using in_doc_parent assms(2) Some inside_parent by blast+
  have trans: "inside x z" if "inside x y" "inside y z" for x y z
    using that by (auto simp: inside_def)
  have "nodeType d p = 1" if "inside a p"
    using that assms p by (auto simp: wf_env_def inside_def)
  moreover have "native_contains (documentElement d a) p" if "inside a p" "nodeType d a = 9" "nodeType d p = 1"
    using that assms(1) p(1) by (auto simp: wf_env_def)
  moreover have "inside a p" if "native_contains (documentElement d a) p" "nodeType d a = 9"
    using that assms(1) trans by (auto simp: wf_env_def native_contains_def)
  ultimately have "a \<noteq> p \<Longrightarrow> contains_native d a b \<longleftrightarrow> inside a p"
    using Some by (auto simp: contains_native_def native_contains_def Let_def)
  then show ?thesis
    using Some inside_parent [of a b] by (auto simp: contains_walk_inside contains_native_def)
qed

section \<open>Document order\<close>

text \<open>
  The loop of \<open>siblingCheck\<close> along the siblings after the first node, and the check itself:
  either of the two may be missing.
\<close>

function after_siblings :: "dom_env \<Rightarrow> node \<Rightarrow> node \<Rightarrow> bool" where
  "after_siblings d cur b =
     (case nextSibling d cur of None \<Rightarrow> False | Some c \<Rightarrow> if c = b then True else after_siblings d c b)"
  by pat_completeness auto
termination
  by (relation "measure (\<lambda>(d, cur, b). siblings_left d cur)") (auto dest: siblings_left_next)

declare after_siblings.simps [simp del]

text \<open>\<open>~k || MAX_NEGATIVE\<close>, where a missing source index counts as 0 and so gives -1.\<close>

definition inv_index :: "int option \<Rightarrow> int" where
  "inv_index k = (case k of None \<Rightarrow> -1 | Some i \<Rightarrow> if - i - 1 = 0 then - (2 ^ 31) else - i - 1)"

definition siblingCheck :: "dom_env \<Rightarrow> node option \<Rightarrow> node option \<Rightarrow> int" where
  "siblingCheck d a b =
     (case (a, b) of
        (Some x, Some y) \<Rightarrow>
          let diff = (if nodeType d x = 1 \<and> nodeType d y = 1
                      then inv_index (sourceIndex d y) - inv_index (sourceIndex d x) else 0)
          in if diff \<noteq> 0 then diff else if after_siblings d x y then -1 else 1
      | (Some x, None) \<Rightarrow> 1
      | (None, _) \<Rightarrow> -1)"

text \<open>The list of a node and its ancestors, the root first, as \<open>unshift\<close> builds it.\<close>

function ups :: "node \<Rightarrow> node list \<Rightarrow> node list" where
  "ups n acc = (case parentNode n of None \<Rightarrow> acc | Some p \<Rightarrow> ups p (p # acc))"
  by pat_completeness auto
termination
  by (relation "measure (\<lambda>(n, acc). length (path n))") (auto simp: parentNode_Some)

declare ups.simps [simp del]

text \<open>
  Walking down both lists: the first position where they differ, and what stands there; two
  lists that are the same everywhere are never compared.
\<close>

fun discrepancy :: "nat \<Rightarrow> node list \<Rightarrow> node list \<Rightarrow> nat \<times> node option \<times> node option" where
  "discrepancy i (x # xs) (y # ys) = (if x = y then discrepancy (i + 1) xs ys else (i, Some x, Some y))"
| "discrepancy i (x # xs) [] = (i, Some x, None)"
| "discrepancy i [] (y # ys) = (i, None, Some y)"
| "discrepancy i [] [] = (i, None, None)"

definition doc_node :: "dom_env \<Rightarrow> node" where
  "doc_node d = Node (preferred d) []"

text \<open>The difference of two positions in the list before the sort, 0 when it was not kept.\<close>

definition original_order :: "node list option \<Rightarrow> node \<Rightarrow> node \<Rightarrow> int" where
  "original_order sortInput a b =
     (case sortInput of Some xs \<Rightarrow> scan a xs 0 - scan b xs 0 | None \<Rightarrow> 0)"

text \<open>The comparison by hand.  The flag says that the two nodes are the same.\<close>

definition sort_walk :: "dom_env \<Rightarrow> node list option \<Rightarrow> node \<Rightarrow> node \<Rightarrow> int \<times> bool" where
  "sort_walk d sortInput a b =
     (if a = b then (0, True)
      else (case (parentNode a, parentNode b) of
          (Some aup, Some bup) \<Rightarrow>
            if aup = bup then siblingCheck d (Some a) (Some b)
            else (case discrepancy 0 (ups a [a]) (ups b [b]) of
                (i, x, y) \<Rightarrow>
                  if i \<noteq> 0 then siblingCheck d x y
                  else if x = Some (doc_node d) then -1
                  else if y = Some (doc_node d) then 1 else 0)
        | (aup, bup) \<Rightarrow>
            if a = doc_node d then -1
            else if b = doc_node d then 1
            else if aup \<noteq> None then -1
            else if bup \<noteq> None then 1
            else original_order sortInput a b, False))"

text \<open>\<open>compareDocumentPosition\<close> of the DOM standard: its bits, as a number.\<close>

definition compareDocumentPosition :: "dom_env \<Rightarrow> node \<Rightarrow> node \<Rightarrow> nat" where
  "compareDocumentPosition d a b =
     (if a = b then 0
      else if tree a \<noteq> tree b then 1 + 32 + (if follows d (tree a) (tree b) then 4 else 2)
      else if inside a b then 16 + 4
      else if inside b a then 8 + 2
      else if a < b then 4 else 2)"

definition sort_native :: "dom_env \<Rightarrow> (nat \<Rightarrow> nat) \<Rightarrow> node list option \<Rightarrow> node \<Rightarrow> node \<Rightarrow> int \<times> bool" where
  "sort_native d owner sortInput a b =
     (if a = b then (0, True)
      else let compare = (if owner (tree a) = owner (tree b) then compareDocumentPosition d a b else 1)
           in (if odd compare \<or> \<not> sortDetached d \<and> compareDocumentPosition d b a = compare
               then if a = doc_node d \<or> owner (tree a) = owner (preferred d) \<and> contains d (doc_node d) a then -1
                    else if b = doc_node d \<or> owner (tree b) = owner (preferred d) \<and> contains d (doc_node d) b then 1
                    else original_order sortInput a b
               else if odd (compare div 4) then -1 else 1, False))"

section \<open>Both comparisons are document order\<close>

definition order_sign :: "node \<Rightarrow> node \<Rightarrow> int" where
  "order_sign a b = (if a < b then -1 else if b < a then 1 else 0)"

text \<open>IE's source index, where it exists, is in document order.\<close>

definition source_ok :: "dom_env \<Rightarrow> bool" where
  "source_ok d \<longleftrightarrow>
     (\<forall>x. sourceIndex d x = None) \<or>
     (\<forall>x y. nodeType d x = 1 \<and> nodeType d y = 1 \<and> tree x = tree y \<longrightarrow>
        (\<exists>k l. sourceIndex d x = Some k \<and> sourceIndex d y = Some l \<and> 0 \<le> k \<and> 0 \<le> l \<and>
           (k < l \<longleftrightarrow> x < y) \<and> (l < k \<longleftrightarrow> y < x)))"

lemma less_paths [simp]:
  "Node r xs < Node r ys \<longleftrightarrow> xs < ys" "Node r xs \<le> Node r ys \<longleftrightarrow> xs \<le> ys"
  by (simp_all add: less_node_def less_eq_node_def)

lemma less_append [simp]: "xs @ ys < xs @ zs \<longleftrightarrow> ys < (zs :: nat list)"
  by (induction xs) auto

lemma less_append_self [simp]: "xs < xs @ zs \<longleftrightarrow> zs \<noteq> ([] :: nat list)"
  using less_append [of xs "[]" zs] by (cases zs) auto

lemma Nil_less_iff [simp]: "[] < ys \<longleftrightarrow> ys \<noteq> ([] :: nat list)"
  by (cases ys) auto

lemma child_less [simp]: "child p i < child p j \<longleftrightarrow> i < j"
  by (simp add: child_def)

lemma inside_less: "inside a b \<Longrightarrow> a < b"
  by (cases a; cases b) (auto simp: inside_def strict_prefix_def prefix_def)

lemma after_siblings_child:
  "j < childCount d p \<Longrightarrow> after_siblings d (child p i) (child p j) \<longleftrightarrow> i < j"
proof (induction "childCount d p - i" arbitrary: i rule: less_induct)
  case less
  show ?case
  proof (cases "Suc i < childCount d p")
    case True
    then have "nextSibling d (child p i) = Some (child p (Suc i))" by (simp add: nextSibling_Some)
    with less True show ?thesis by (subst after_siblings.simps) auto
  next
    case False
    then have "nextSibling d (child p i) = None" by (auto simp: nextSibling_def)
    with less False show ?thesis by (subst after_siblings.simps) auto
  qed
qed

lemma siblingCheck_sign:
  assumes "source_ok d" "in_doc d (child p j)" "i \<noteq> j"
  shows "sgn (siblingCheck d (Some (child p i)) (Some (child p j))) = (if i < j then -1 else 1)"
proof -
  have j: "j < childCount d p"
    using assms(2) by (cases p) (auto simp: in_doc_def nth_append dest: spec [of _ "length (path p)"])
  consider "nodeType d (child p i) = 1" "nodeType d (child p j) = 1" "\<exists>x. sourceIndex d x \<noteq> None"
    | "\<not> (nodeType d (child p i) = 1 \<and> nodeType d (child p j) = 1)" | "\<forall>x. sourceIndex d x = None" by blast
  then show ?thesis
  proof cases
    case 1
    with assms(1) obtain k l where "sourceIndex d (child p i) = Some k" "sourceIndex d (child p j) = Some l"
      "0 \<le> k" "0 \<le> l" "k < l \<longleftrightarrow> i < j" "l < k \<longleftrightarrow> j < i"
      by (auto simp: source_ok_def) (metis child_less path_child(2))
    with 1 assms(3) show ?thesis by (auto simp: siblingCheck_def inv_index_def sgn_if)
  qed (use assms(3) j in \<open>auto simp: siblingCheck_def after_siblings_child inv_index_def\<close>)
qed

text \<open>A node and its ancestors, from a prefix of its path on.\<close>

fun chain :: "nat \<Rightarrow> nat list \<Rightarrow> nat list \<Rightarrow> node list" where
  "chain t pre [] = [Node t pre]"
| "chain t pre (x # xs) = Node t pre # chain t (pre @ [x]) xs"

lemma ups_chain: "ups (Node t xs) (chain t xs zs) = chain t [] (xs @ zs)"
proof (induction xs arbitrary: zs rule: rev_induct)
  case Nil
  show ?case by (simp add: ups.simps parentNode_def)
next
  case (snoc x xs)
  from snoc [of "x # zs"] show ?case by (simp add: ups.simps [of "Node t (xs @ [x])"] parentNode_def)
qed

lemma ups_self: "ups n [n] = chain (tree n) [] (path n)"
  using ups_chain [of "tree n" "path n" "[]"] by simp

lemma chain_hd: "\<exists>zs. chain t pre xs = Node t pre # zs"
  by (cases xs) auto

lemma discrepancy_chain:
  "xs \<noteq> ys \<Longrightarrow> \<exists>j u v. discrepancy i (chain t pre xs) (chain t pre ys) = (j, u, v) \<and> i < j \<and>
     ((u = None \<and> v \<noteq> None \<and> xs < ys) \<or> (u \<noteq> None \<and> v = None \<and> ys < xs) \<or>
      (\<exists>q x y. u = Some (child (Node t q) x) \<and> v = Some (child (Node t q) y) \<and> x \<noteq> y \<and>
        (x < y \<longleftrightarrow> xs < ys) \<and> prefix (q @ [y]) (pre @ ys)))"
proof (induction xs arbitrary: pre ys i)
  case Nil
  then obtain y zs where "ys = y # zs" by (cases ys) auto
  then show ?case using chain_hd [of t "pre @ [y]" zs] by auto
next
  case (Cons x xs)
  show ?case
  proof (cases ys)
    case Nil
    then show ?thesis using chain_hd [of t "pre @ [x]" xs] by auto
  next
    case ys: (Cons y zs)
    show ?thesis
    proof (cases "x = y")
      case True
      with Cons.prems ys have "xs \<noteq> zs" by simp
      from Cons.IH [OF this, of "i + 1" "pre @ [x]"] show ?thesis using True ys by (auto intro: Suc_lessD)
    next
      case False
      with ys chain_hd [of t "pre @ [x]" xs] chain_hd [of t "pre @ [y]" zs] show ?thesis
        by (auto simp: child_def intro!: exI [of _ pre])
    qed
  qed
qed

lemma in_doc_prefix:
  assumes "in_doc d (Node t ys)" "prefix xs ys"
  shows "in_doc d (Node t xs)"
  using assms by (auto simp: in_doc_def prefix_def nth_append dest: spec split: if_splits)

lemma sort_walk_order:
  assumes "source_ok d" "in_doc d b" "tree a = preferred d" "tree b = preferred d"
  shows "sgn (fst (sort_walk d si a b)) = order_sign a b"
proof (cases "a = b")
  case True
  then show ?thesis by (simp add: sort_walk_def order_sign_def)
next
  case False
  obtain xs ys where ab: "a = Node (preferred d) xs" "b = Node (preferred d) ys"
    using assms(3,4) by (cases a; cases b) auto
  with False have ne: "xs \<noteq> ys" by simp
  consider "xs = []" | "xs \<noteq> []" "ys = []" | "xs \<noteq> []" "ys \<noteq> []" "butlast xs = butlast ys"
    | "xs \<noteq> []" "ys \<noteq> []" "butlast xs \<noteq> butlast ys" by blast
  then show ?thesis
  proof cases
    case 3
    then obtain p x y where p: "a = child p x" "b = child p y"
      using ab by (metis append_butlast_last_id child_def node.sel)
    with False have "x \<noteq> y" by auto
    with siblingCheck_sign [OF assms(1), of p y x] assms(2) p show ?thesis
      by (auto simp: sort_walk_def order_sign_def)
  next
    case 4
    obtain j u v where d: "discrepancy 0 (ups a [a]) (ups b [b]) = (j, u, v)" "0 < j"
      "(u = None \<and> v \<noteq> None \<and> xs < ys) \<or> (u \<noteq> None \<and> v = None \<and> ys < xs) \<or>
      (\<exists>q x y. u = Some (child (Node (preferred d) q) x) \<and> v = Some (child (Node (preferred d) q) y) \<and> x \<noteq> y \<and>
        (x < y \<longleftrightarrow> xs < ys) \<and> prefix (q @ [y]) ys)"
      using discrepancy_chain [OF ne, of 0 "preferred d" "[]"] ab by (auto simp: ups_self)
    have sw: "sort_walk d si a b = (siblingCheck d u v, False)"
      using False 4 ab d(1,2) by (simp add: sort_walk_def parentNode_def)
    from d(3) show ?thesis
    proof (elim disjE exE conjE)
      fix q x y assume q: "u = Some (child (Node (preferred d) q) x)" "v = Some (child (Node (preferred d) q) y)"
        "x \<noteq> y" "x < y \<longleftrightarrow> xs < ys" "prefix (q @ [y]) ys"
      have "in_doc d (child (Node (preferred d) q) y)"
        using in_doc_prefix [OF _ q(5)] assms(2) ab by (simp add: child_def)
      from siblingCheck_sign [OF assms(1) this q(3)] q(1-4) show ?thesis
        using ne by (auto simp: sw [unfolded ab] order_sign_def ab)
    qed (auto simp: sw [unfolded ab] siblingCheck_def order_sign_def ab)
  qed (use ne ab in \<open>auto simp: sort_walk_def parentNode_def order_sign_def doc_node_def neq_Nil_conv\<close>)
qed

lemma sort_native_order:
  assumes "tree a = tree b"
  shows "fst (sort_native d owner si a b) = order_sign a b"
proof (cases "a = b")
  case True
  then show ?thesis by (simp add: sort_native_def order_sign_def)
next
  case False
  then have "a < b \<or> b < a" by auto
  then show ?thesis
    using assms False by (auto simp: sort_native_def order_sign_def compareDocumentPosition_def Let_def dest: inside_less)
qed

section \<open>Sorting and removing duplicates\<close>

text \<open>
  The engine's sort with a comparison function, as an insertion sort; the flag tells whether a
  comparison met the same node twice (\<open>hasDuplicate\<close>).
\<close>

fun insert_cmp :: "('a \<Rightarrow> 'a \<Rightarrow> int \<times> bool) \<Rightarrow> 'a \<Rightarrow> 'a list \<Rightarrow> bool \<Rightarrow> 'a list \<times> bool" where
  "insert_cmp cmp x [] f = ([x], f)"
| "insert_cmp cmp x (y # ys) f =
     (case cmp x y of (k, same) \<Rightarrow>
        if k \<le> 0 then (x # y # ys, f \<or> same)
        else (case insert_cmp cmp x ys (f \<or> same) of (zs, g) \<Rightarrow> (y # zs, g)))"

fun sort_cmp :: "('a \<Rightarrow> 'a \<Rightarrow> int \<times> bool) \<Rightarrow> 'a list \<Rightarrow> bool \<Rightarrow> 'a list \<times> bool" where
  "sort_cmp cmp [] f = ([], f)"
| "sort_cmp cmp (x # xs) f = (case sort_cmp cmp xs f of (ys, g) \<Rightarrow> insert_cmp cmp x ys g)"

definition sortOrder :: "dom_env \<Rightarrow> (nat \<Rightarrow> nat) \<Rightarrow> node list option \<Rightarrow> node \<Rightarrow> node \<Rightarrow> int \<times> bool" where
  "sortOrder d owner si a b = (if hasCompare d then sort_native d owner si a b else sort_walk d si a b)"

text \<open>The indices of the elements that stand right after an equal one, and their removal from the last on.\<close>

fun duplicate_at :: "'a list \<Rightarrow> nat \<Rightarrow> nat list" where
  "duplicate_at (x # y # xs) i = (if x = y then (i + 1) # duplicate_at (y # xs) (i + 1) else duplicate_at (y # xs) (i + 1))"
| "duplicate_at _ i = []"

definition uniqueSort :: "dom_env \<Rightarrow> (nat \<Rightarrow> nat) \<Rightarrow> node list \<Rightarrow> node list" where
  "uniqueSort d owner results =
     (let sortInput = (if sortStable d then None else Some results)
      in case sort_cmp (sortOrder d owner sortInput) results (\<not> detectDuplicates d) of (xs, hasDuplicate) \<Rightarrow>
           if hasDuplicate then foldl (\<lambda>r i. splice_out i r) xs (rev (duplicate_at xs 0)) else xs)"

text \<open>Removing the marked elements is what the library calls \<open>remdups_adj\<close>.\<close>

lemma duplicate_at_Suc: "duplicate_at xs (Suc i) = map Suc (duplicate_at xs i)"
  by (induction xs i rule: duplicate_at.induct) auto

lemma splice_out_Suc: "splice_out (Suc i) (x # xs) = x # splice_out i xs"
  by (simp add: splice_out_def)

lemma foldl_splice_Suc: "foldl (\<lambda>r i. splice_out i r) (x # xs) (map Suc is) = x # foldl (\<lambda>r i. splice_out i r) xs is"
  by (induction "is" arbitrary: xs) (auto simp: splice_out_Suc)

lemma remove_duplicates: "foldl (\<lambda>r i. splice_out i r) xs (rev (duplicate_at xs 0)) = remdups_adj xs"
proof (induction xs rule: remdups_adj.induct)
  case (3 x y xs)
  have "rev (duplicate_at (y # xs) 1) = map Suc (rev (duplicate_at (y # xs) 0))"
    by (simp add: duplicate_at_Suc [of _ 0, simplified] rev_map)
  then show ?case using 3 foldl_splice_Suc [of x "y # xs"]
    by (auto simp: remdups_adj_Cons splice_out_def split: list.splits)
qed simp_all

text \<open>The sort with a comparison that is a linear order up to its sign.\<close>

locale comparison =
  fixes cmp :: "node \<Rightarrow> node \<Rightarrow> int \<times> bool"
    and S :: "node set"
  assumes cmp_le: "a \<in> S \<Longrightarrow> b \<in> S \<Longrightarrow> fst (cmp a b) \<le> 0 \<longleftrightarrow> a \<le> b"
    and cmp_same: "a \<in> S \<Longrightarrow> b \<in> S \<Longrightarrow> snd (cmp a b) \<longleftrightarrow> a = b"
begin

lemma insert_cmp_sorts:
  "sorted ys \<Longrightarrow> insert x (set ys) \<subseteq> S \<Longrightarrow>
   fst (insert_cmp cmp x ys f) = insort x ys \<and>
   (snd (insert_cmp cmp x ys f) \<longleftrightarrow> f \<or> x \<in> set ys)"
proof (induction ys arbitrary: f)
  case (Cons y ys)
  obtain k same where c: "cmp x y = (k, same)" by fastforce
  then have k: "k \<le> 0 \<longleftrightarrow> x \<le> y" "same \<longleftrightarrow> x = y"
    using cmp_le [of x y] cmp_same [of x y] Cons.prems(2) by auto
  from Cons c k show ?case by (auto simp: case_prod_beta)
qed simp

lemma sort_cmp_sorts:
  "set xs \<subseteq> S \<Longrightarrow> fst (sort_cmp cmp xs f) = sort xs \<and> (snd (sort_cmp cmp xs f) \<longleftrightarrow> f \<or> \<not> distinct xs)"
proof (induction xs)
  case (Cons x xs)
  then show ?case
    using insert_cmp_sorts [of "sort xs" x] by (auto simp: case_prod_beta)
qed simp

end

lemma sort_walk_same: "snd (sort_walk d si a b) \<longleftrightarrow> a = b"
  by (simp add: sort_walk_def)

lemma sort_native_same: "snd (sort_native d owner si a b) \<longleftrightarrow> a = b"
  by (simp add: sort_native_def Let_def)

text \<open>Both comparison functions keep the contract on the nodes of the document.\<close>

definition doc_nodes :: "dom_env \<Rightarrow> node set" where
  "doc_nodes d = {n. source_ok d \<and> in_doc d n \<and> tree n = preferred d}"

lemma order_sign_le: "sgn k = order_sign a b \<Longrightarrow> k \<le> 0 \<longleftrightarrow> a \<le> b"
  by (auto simp: order_sign_def sgn_if split: if_splits)

interpretation walked: comparison "sort_walk d si" "doc_nodes d" for d si
proof
  fix a b assume "a \<in> doc_nodes d" "b \<in> doc_nodes d"
  then show "fst (sort_walk d si a b) \<le> 0 \<longleftrightarrow> a \<le> b"
    using sort_walk_order [of d b a si] order_sign_le by (simp add: doc_nodes_def)
qed (rule sort_walk_same)

interpretation native: comparison "sort_native d owner si" "doc_nodes d" for d owner si
proof
  fix a b assume "a \<in> doc_nodes d" "b \<in> doc_nodes d"
  then show "fst (sort_native d owner si a b) \<le> 0 \<longleftrightarrow> a \<le> b"
    using sort_native_order [of a b d owner si] by (auto simp: doc_nodes_def order_sign_def)
qed (rule sort_native_same)

lemma remdups_adj_sorted: "sorted xs \<Longrightarrow> remdups_adj xs = sorted_list_of_set (set (xs :: node list))"
proof -
  have "sorted xs \<Longrightarrow> sorted (remdups_adj xs) \<and> distinct (remdups_adj xs)"
    by (induction xs rule: remdups_adj.induct) (auto simp: antisym)
  then show "sorted xs \<Longrightarrow> ?thesis"
    by (intro sorted_distinct_set_unique) simp_all
qed

lemma remdups_adj_sort: "remdups_adj (sort xs) = sorted_list_of_set (set (xs :: node list))"
  using remdups_adj_sorted [of "sort xs"] by simp

lemma uniqueSort_sorts:
  assumes "set xs \<subseteq> doc_nodes d"
  shows "uniqueSort d owner xs = sorted_list_of_set (set xs)"
proof -
  let ?cmp = "sortOrder d owner (if sortStable d then None else Some xs)"
  have "fst (sort_cmp ?cmp xs f) = sort xs \<and> (snd (sort_cmp ?cmp xs f) \<longleftrightarrow> f \<or> \<not> distinct xs)" for f
    using walked.sort_cmp_sorts [OF assms] native.sort_cmp_sorts [OF assms]
    by (cases "hasCompare d") (simp_all add: sortOrder_def [abs_def])
  moreover have "sort xs = sorted_list_of_set (set xs)" if "distinct xs"
    using that by (simp add: sorted_list_of_set_sort_remdups distinct_remdups_id)
  ultimately show ?thesis
    by (cases "detectDuplicates d \<and> distinct xs")
      (simp_all add: uniqueSort_def case_prod_beta remove_duplicates remdups_adj_sort)
qed

section \<open>The properties\<close>

text \<open>
  C11: on the nodes of a document the comparison Sizzle writes by hand (ancestor lists, first
  discrepancy, sibling walk or source index) has the sign of the comparison by the browser's
  position bits, and that sign is document order; and both forms of \<open>contains\<close> say which nodes are
  proper ancestors.
\<close>

theorem comparison_forms_agree:
  assumes "wf_env d" "source_ok d" "in_doc d b" "tree a = preferred d" "tree b = preferred d"
  shows "sgn (fst (sort_walk d si a b)) = fst (sort_native d owner si a b) \<and>
    fst (sort_native d owner si a b) = (if a < b then -1 else if b < a then 1 else 0) \<and>
    contains (d\<lparr>hasCompare := h\<rparr>) a b = inside a b"
proof -
  have "contains_native (d\<lparr>hasCompare := h\<rparr>) a b = contains_native d a b"
    by (simp add: contains_native_def Let_def split: option.split)
  then have c: "contains (d\<lparr>hasCompare := h\<rparr>) a b = inside a b"
    using contains_native_walk [OF assms(1,3)] contains_walk_inside by (cases h) (simp_all add: contains_def)
  have n: "fst (sort_native d owner si a b) = order_sign a b" using sort_native_order assms(4,5) by simp
  show ?thesis
    unfolding n sort_walk_order [OF assms(2-5)] c by (simp add: order_sign_def)
qed

text \<open>A page: a document with one element that has three children.\<close>

definition small_page :: dom_env where
  "small_page = \<lparr>nodeType = (\<lambda>n. if path n = [] then 9 else 1),
     childCount = (\<lambda>n. if path n = [] then 1 else if path n = [0] then 3 else 0),
     nodeValue = (\<lambda>_. ''''), textContent = (\<lambda>_. None), documentElement = (\<lambda>n. Node (tree n) [0]),
     hasCompare = False, detectDuplicates = True, sortStable = True, sortDetached = True,
     sourceIndex = (\<lambda>_. None), preferred = 0, follows = (\<lambda>_ _. True)\<rparr>"

lemma small_page_fields:
  "nodeType small_page = (\<lambda>n. if path n = [] then 9 else 1)" "preferred small_page = 0"
  "childCount small_page = (\<lambda>n. if path n = [] then 1 else if path n = [0] then 3 else 0)"
  "documentElement small_page = (\<lambda>n. Node (tree n) [0])" "sourceIndex small_page = (\<lambda>_. None)"
  by (simp_all add: small_page_def)

lemma small_page_ok: "wf_env small_page" "source_ok small_page"
proof -
  have "native_contains (Node (tree a) [0]) b" if "inside a b" "in_doc small_page b" "path a = []" for a b
    using that by (cases b; cases "path b")
      (auto simp: native_contains_def inside_def in_doc_def small_page_fields strict_prefix_def dest: spec [of _ 0])
  then show "wf_env small_page"
    by (auto simp: wf_env_def small_page_fields inside_def)
qed (simp add: source_ok_def small_page_fields)

lemma small_page_in: "k < 3 \<Longrightarrow> in_doc small_page (Node 0 [0, k])" "in_doc small_page (Node 0 [0])"
  by (auto simp: in_doc_def small_page_fields less_Suc_eq nth_Cons')

theorem comparison_forms_agree_witness:
  "sgn (fst (sort_walk small_page None (Node 0 [0, 2]) (Node 0 [0, 1]))) = 1 \<and>
   \<not> contains (small_page\<lparr>hasCompare := True\<rparr>) (Node 0 [0, 2]) (Node 0 [0, 1])"
  using comparison_forms_agree [OF small_page_ok small_page_in(1) [of 1], of "Node 0 [0, 2]" None id True]
  by (simp add: small_page_fields inside_def)

text \<open>
  C12: for nodes of the document, in any order and with any repetitions, and whatever of its
  features the browser has, \<open>uniqueSort\<close> returns each node once, in document order.
\<close>

theorem uniqueSort_document_order:
  assumes "source_ok d" "\<forall>n \<in> set xs. in_doc d n \<and> tree n = preferred d"
  shows "uniqueSort d owner xs = sorted_list_of_set (set xs)"
  by (rule uniqueSort_sorts) (use assms in \<open>auto simp: doc_nodes_def\<close>)

theorem uniqueSort_document_order_witness:
  "uniqueSort small_page id [Node 0 [0, 2], Node 0 [0], Node 0 [0, 2], Node 0 [0, 1]] = [Node 0 [0], Node 0 [0, 1], Node 0 [0, 2]]"
proof -
  have "sorted_list_of_set {Node 0 [0, 2], Node 0 [0], Node 0 [0, 1]} = [Node 0 [0], Node 0 [0, 1], Node 0 [0, 2]]"
    by (rule sorted_distinct_set_unique) auto
  then show ?thesis
    using uniqueSort_document_order [OF small_page_ok(2), of "[Node 0 [0, 2], Node 0 [0], Node 0 [0, 2], Node 0 [0, 1]]" id]
    by (simp add: small_page_fields small_page_in insert_commute)
qed

end
