(* ===== verification/JQ_Traverse.thy ===== *)
theory JQ_Traverse
  imports JQ_Core JQ_Tree
begin

text \<open>
  The traversal methods of jQuery (\<^verbatim>\<open>jquery.js\<close>, lines 2635 to 3046) on the nodes of theory
  \<open>JQ_Tree\<close>: the loops along parents and siblings, \<open>parents\<close>, \<open>nextAll\<close>, \<open>siblings\<close> and their
  relatives, \<open>closest\<close>, \<open>index\<close>, \<open>filter\<close>, \<open>not\<close>, \<open>is\<close>, \<open>has\<close>, \<open>find\<close> and \<open>add\<close>.  What a
  selector matches is the job of the selector engine: here a selector is the set of elements it
  matches, as a predicate.
\<close>

datatype direction = ParentNode | NextSibling | PreviousSibling

definition link :: "dom_env \<Rightarrow> direction \<Rightarrow> node \<Rightarrow> node option" where
  "link d r n =
     (case r of ParentNode \<Rightarrow> parentNode n | NextSibling \<Rightarrow> nextSibling d n
      | PreviousSibling \<Rightarrow> previousSibling n)"

text \<open>How far a walk in a direction can still go.\<close>

definition steps_left :: "dom_env \<Rightarrow> direction \<Rightarrow> node \<Rightarrow> nat" where
  "steps_left d r n =
     (case r of ParentNode \<Rightarrow> length (path n) | NextSibling \<Rightarrow> siblings_left d n
      | PreviousSibling \<Rightarrow> last (path n))"

lemma previousSibling_Some:
  "previousSibling n = Some m \<longleftrightarrow> (\<exists>p k. n = child p (Suc k) \<and> m = child p k)"
proof (cases "parentNode n")
  case None
  then show ?thesis by (auto simp: previousSibling_def)
next
  case (Some p)
  then obtain k where "n = child p k" by (auto simp: parentNode_Some)
  then show ?thesis by (cases k) (auto simp: previousSibling_def)
qed

lemma link_steps: "link d r n = Some m \<Longrightarrow> steps_left d r m < steps_left d r n"
  by (cases r) (auto simp: link_def steps_left_def parentNode_Some previousSibling_Some siblings_left_next)

section \<open>Walks\<close>

text \<open>
  What the second argument of a traversal may be: nothing, a selector, or an element or set of
  elements.
\<close>

datatype arg = NoArg | SelArg "node \<Rightarrow> bool" | SetArg "node list"

definition arg_matches :: "arg \<Rightarrow> node \<Rightarrow> bool" where
  "arg_matches a n = (case a of NoArg \<Rightarrow> False | SelArg s \<Rightarrow> s n | SetArg ns \<Rightarrow> n \<in> set ns)"

function dir_loop :: "dom_env \<Rightarrow> direction \<Rightarrow> arg \<Rightarrow> node option \<Rightarrow> node list \<Rightarrow> node list" where
  "dir_loop d r until None matched = matched"
| "dir_loop d r until (Some cur) matched =
     (if nodeType d cur \<noteq> 9 \<and> (until = NoArg \<or> nodeType d cur \<noteq> 1 \<or> \<not> arg_matches until cur)
      then dir_loop d r until (link d r cur) (if nodeType d cur = 1 then matched @ [cur] else matched)
      else matched)"
  by pat_completeness auto
termination
  by (relation "measure (\<lambda>(d, r, until, cur, matched). case cur of None \<Rightarrow> 0 | Some n \<Rightarrow> Suc (steps_left d r n))")
    (auto simp: link_steps split: option.split)

definition dir :: "dom_env \<Rightarrow> node \<Rightarrow> direction \<Rightarrow> arg \<Rightarrow> node list" where
  "dir d elem r until = dir_loop d r until (link d r elem) []"

text \<open>\<open>sibling\<close> with an excluded element, from the first node of the list on.\<close>

function sibling_loop :: "dom_env \<Rightarrow> node option \<Rightarrow> node option \<Rightarrow> node list \<Rightarrow> node list" where
  "sibling_loop d None elem r = r"
| "sibling_loop d (Some n) elem r =
     sibling_loop d (nextSibling d n) elem (if nodeType d n = 1 \<and> Some n \<noteq> elem then r @ [n] else r)"
  by pat_completeness auto
termination
  by (relation "measure (\<lambda>(d, cur, elem, r). case cur of None \<Rightarrow> 0 | Some n \<Rightarrow> Suc (siblings_left d n))")
    (auto simp: siblings_left_next split: option.split)

text \<open>The function \<open>sibling\<close> of one element: the next element in a direction.\<close>

function next_element :: "dom_env \<Rightarrow> direction \<Rightarrow> node \<Rightarrow> node option" where
  "next_element d r n =
     (case link d r n of None \<Rightarrow> None | Some c \<Rightarrow> if nodeType d c \<noteq> 1 then next_element d r c else Some c)"
  by pat_completeness auto
termination
  by (relation "measure (\<lambda>(d, r, n). steps_left d r n)") (auto simp: link_steps)

declare next_element.simps [simp del]

section \<open>Filtering\<close>

definition jq_filter :: "dom_env \<Rightarrow> (node \<Rightarrow> bool) \<Rightarrow> node list \<Rightarrow> bool \<Rightarrow> node list" where
  "jq_filter d sel es negate =
     (let expr = (if negate then \<lambda>n. \<not> sel n else sel)
      in if length es = 1 \<and> nodeType d (hd es) = 1 then (if expr (hd es) then [hd es] else [])
         else filter expr (grep es (\<lambda>n i. nodeType d n = 1) False))"

text \<open>A qualifier: a function, a node, a simple selector (one without \<open>:\<close>, \<open>#\<close>, \<open>[\<close>, \<open>.\<close> or \<open>,\<close> past its first character), another selector, or a set.\<close>

datatype qualifier = QFun "nat \<Rightarrow> node \<Rightarrow> bool" | QNode node | QSimple "node \<Rightarrow> bool"
  | QSel "node \<Rightarrow> bool" | QSet "node list"

definition winnow :: "dom_env \<Rightarrow> node list \<Rightarrow> qualifier \<Rightarrow> bool \<Rightarrow> node list" where
  "winnow d es q negate =
     (case q of
        QFun f \<Rightarrow> grep es (\<lambda>n i. f i n \<noteq> negate) False
      | QNode m \<Rightarrow> grep es (\<lambda>n i. (n = m) \<noteq> negate) False
      | QSimple s \<Rightarrow> jq_filter d s es negate
      | QSel s \<Rightarrow> (let q' = jq_filter d s es False
                  in grep es (\<lambda>n i. (0 \<le> inArray n (Some q') None) \<noteq> negate) False)
      | QSet ns \<Rightarrow> grep es (\<lambda>n i. (0 \<le> inArray n (Some ns) None) \<noteq> negate) False)"

definition fn_filter :: "dom_env \<Rightarrow> node jq \<Rightarrow> qualifier option \<Rightarrow> node jq" where
  "fn_filter d this q = pushStack this (winnow d (elems this) (case q of None \<Rightarrow> QSet [] | Some x \<Rightarrow> x) False)"

definition fn_not :: "dom_env \<Rightarrow> node jq \<Rightarrow> qualifier option \<Rightarrow> node jq" where
  "fn_not d this q = pushStack this (winnow d (elems this) (case q of None \<Rightarrow> QSet [] | Some x \<Rightarrow> x) True)"

definition fn_is :: "dom_env \<Rightarrow> node jq \<Rightarrow> qualifier option \<Rightarrow> bool" where
  "fn_is d this q \<longleftrightarrow> winnow d (elems this) (case q of None \<Rightarrow> QSet [] | Some x \<Rightarrow> x) False \<noteq> []"

text \<open>\<open>find\<close> with a set, and with a selector (\<open>found\<close>: what the engine finds under a node).\<close>

definition fn_find_set :: "dom_env \<Rightarrow> node jq \<Rightarrow> node list \<Rightarrow> node jq" where
  "fn_find_set d this ns =
     pushStack this (winnow d ns (QFun (\<lambda>i n. list_ex (\<lambda>s. contains d s n) (elems this))) False)"

definition fn_find :: "dom_env \<Rightarrow> (nat \<Rightarrow> nat) \<Rightarrow> node jq \<Rightarrow> (node \<Rightarrow> node list) \<Rightarrow> node jq" where
  "fn_find d owner this found =
     (let ret = foldl (\<lambda>ret s. ret @ found s) [] (elems this)
      in pushStack this (if length (elems this) > 1 then uniqueSort d owner ret else ret))"

definition fn_has :: "dom_env \<Rightarrow> node jq \<Rightarrow> node list \<Rightarrow> node jq" where
  "fn_has d this targets = fn_filter d this (Some (QFun (\<lambda>i n. list_ex (\<lambda>t. contains d n t) targets)))"

section \<open>closest, index and add\<close>

function closest_from :: "dom_env \<Rightarrow> (node \<Rightarrow> bool) \<Rightarrow> node option \<Rightarrow> node option \<Rightarrow> node option" where
  "closest_from d ok context None = None"
| "closest_from d ok context (Some cur) =
     (if Some cur = context then None
      else if nodeType d cur < 11 \<and> ok cur then Some cur
      else closest_from d ok context (parentNode cur))"
  by pat_completeness auto
termination
  by (relation "measure (\<lambda>(d, ok, context, cur). case cur of None \<Rightarrow> 0 | Some n \<Rightarrow> Suc (length (path n)))")
    (auto simp: parentNode_Some split: option.split)

text \<open>A positional selector and a set are looked up in (\<open>SetArg\<close>), other selectors are matched.\<close>

definition closest_ok :: "dom_env \<Rightarrow> arg \<Rightarrow> node \<Rightarrow> bool" where
  "closest_ok d sel cur \<longleftrightarrow>
     (case sel of
        SetArg ns \<Rightarrow> inArray cur (Some ns) None > -1
      | SelArg s \<Rightarrow> nodeType d cur = 1 \<and> s cur
      | NoArg \<Rightarrow> False)"

definition fn_closest :: "dom_env \<Rightarrow> (nat \<Rightarrow> nat) \<Rightarrow> node jq \<Rightarrow> arg \<Rightarrow> node option \<Rightarrow> node jq" where
  "fn_closest d owner this sel context =
     (let matched = foldl (\<lambda>m s. case closest_from d (closest_ok d sel) context (Some s) of
                                   Some n \<Rightarrow> m @ [n] | None \<Rightarrow> m) [] (elems this)
      in pushStack this (if length matched > 1 then uniqueSort d owner matched else matched))"

definition fn_add :: "dom_env \<Rightarrow> (nat \<Rightarrow> nat) \<Rightarrow> node jq \<Rightarrow> node list \<Rightarrow> node jq" where
  "fn_add d owner this ns = pushStack this (uniqueSort d owner (merge (elems this) ns))"

definition fn_addBack :: "dom_env \<Rightarrow> (nat \<Rightarrow> nat) \<Rightarrow> node jq \<Rightarrow> qualifier option \<Rightarrow> node jq" where
  "fn_addBack d owner this q =
     fn_add d owner this
       (case prevObject this of
          None \<Rightarrow> []
        | Some p \<Rightarrow> (case q of None \<Rightarrow> elems p | Some _ \<Rightarrow> elems (fn_filter d p q)))"

section \<open>The traversal methods\<close>

datatype traversal = Parent | Parents | ParentsUntil | Next | Prev | NextAll | PrevAll | NextUntil | PrevUntil
  | Siblings | Children | Contents "node \<Rightarrow> node option"

text \<open>
  The function of each method.  \<open>Contents\<close> carries what the content document of an \<open>iframe\<close> is
  (none for other elements).
\<close>

definition one :: "node option \<Rightarrow> node mapret" where
  "one n = (case n of None \<Rightarrow> NoVal | Some m \<Rightarrow> One m)"

definition traverse_fn :: "dom_env \<Rightarrow> traversal \<Rightarrow> arg \<Rightarrow> node \<Rightarrow> node mapret" where
  "traverse_fn d t until elem =
     (case t of
        Parent \<Rightarrow> (case parentNode elem of Some p \<Rightarrow> if nodeType d p \<noteq> 11 then One p else NoVal | None \<Rightarrow> NoVal)
      | Parents \<Rightarrow> Many (dir d elem ParentNode NoArg)
      | ParentsUntil \<Rightarrow> Many (dir d elem ParentNode until)
      | Next \<Rightarrow> one (next_element d NextSibling elem)
      | Prev \<Rightarrow> one (next_element d PreviousSibling elem)
      | NextAll \<Rightarrow> Many (dir d elem NextSibling NoArg)
      | PrevAll \<Rightarrow> Many (dir d elem PreviousSibling NoArg)
      | NextUntil \<Rightarrow> Many (dir d elem NextSibling until)
      | PrevUntil \<Rightarrow> Many (dir d elem PreviousSibling until)
      | Siblings \<Rightarrow> Many (sibling_loop d
                      (case parentNode elem of Some p \<Rightarrow> firstChild d p | None \<Rightarrow> None) (Some elem) [])
      | Children \<Rightarrow> Many (sibling_loop d (firstChild d elem) None [])
      | Contents frame \<Rightarrow> (case frame elem of Some doc \<Rightarrow> One doc
                            | None \<Rightarrow> Many (merge [] (map (child elem) [0..<childCount d elem]))))"

definition is_until :: "traversal \<Rightarrow> bool" where
  "is_until t \<longleftrightarrow> (case t of ParentsUntil \<Rightarrow> True | NextUntil \<Rightarrow> True | PrevUntil \<Rightarrow> True | _ \<Rightarrow> False)"

definition guaranteedUnique :: "traversal \<Rightarrow> bool" where
  "guaranteedUnique t \<longleftrightarrow> (case t of Children \<Rightarrow> True | Contents _ \<Rightarrow> True | Next \<Rightarrow> True | Prev \<Rightarrow> True | _ \<Rightarrow> False)"

text \<open>\<open>/^(?:parents|prev(?:Until|All))/\<close>.\<close>

definition rparentsprev :: "traversal \<Rightarrow> bool" where
  "rparentsprev t \<longleftrightarrow>
     (case t of Parents \<Rightarrow> True | ParentsUntil \<Rightarrow> True | PrevUntil \<Rightarrow> True | PrevAll \<Rightarrow> True | _ \<Rightarrow> False)"

definition traverse :: "dom_env \<Rightarrow> (nat \<Rightarrow> nat) \<Rightarrow> traversal \<Rightarrow> node jq \<Rightarrow> arg \<Rightarrow> arg \<Rightarrow> node jq" where
  "traverse d owner t this until selector =
     (let ret = jq_map (enumerate 0 (elems this)) (\<lambda>elem i. traverse_fn d t until elem);
          sel = (if is_until t then selector else until);
          ret1 = (case sel of SelArg s \<Rightarrow> jq_filter d s ret False | _ \<Rightarrow> ret);
          ret2 = (if length (elems this) > 1
                  then let r = (if guaranteedUnique t then ret1 else uniqueSort d owner ret1)
                       in if rparentsprev t then rev r else r
                  else ret1)
      in pushStack this ret2)"

text \<open>\<open>index\<close>: among the siblings, in the elements a selector finds, or of an element in the set.\<close>

definition fn_index :: "dom_env \<Rightarrow> (nat \<Rightarrow> nat) \<Rightarrow> node jq \<Rightarrow> arg \<Rightarrow> (node list) \<Rightarrow> int" where
  "fn_index d owner this a found =
     (case a of
        NoArg \<Rightarrow> (case elems this of
                    [] \<Rightarrow> -1
                  | n # _ \<Rightarrow> if parentNode n = None then -1
                             else int (length (elems (traverse d owner PrevAll (jq_first this) NoArg NoArg))))
      | SelArg _ \<Rightarrow> (case elems this of [] \<Rightarrow> -1 | n # _ \<Rightarrow> inArray n (Some found) None)
      | SetArg ns \<Rightarrow> (case ns of [] \<Rightarrow> -1 | n # _ \<Rightarrow> inArray n (Some (elems this)) None))"

section \<open>Walks as lists\<close>

text \<open>All the nodes of a walk, from a first node on.\<close>

function walk :: "dom_env \<Rightarrow> direction \<Rightarrow> node option \<Rightarrow> node list" where
  "walk d r None = []"
| "walk d r (Some cur) = cur # walk d r (link d r cur)"
  by pat_completeness auto
termination
  by (relation "measure (\<lambda>(d, r, cur). case cur of None \<Rightarrow> 0 | Some n \<Rightarrow> Suc (steps_left d r n))")
    (auto simp: link_steps split: option.split)

lemma dir_loop_walk:
  "dir_loop d r until c m = m @ filter (\<lambda>n. nodeType d n = 1)
     (takeWhile (\<lambda>n. nodeType d n \<noteq> 9 \<and> (until = NoArg \<or> nodeType d n \<noteq> 1 \<or> \<not> arg_matches until n)) (walk d r c))"
  by (induction d r until c m rule: dir_loop.induct) auto

lemma sibling_loop_walk:
  "sibling_loop d c elem r = r @ filter (\<lambda>n. nodeType d n = 1 \<and> Some n \<noteq> elem) (walk d NextSibling c)"
  by (induction d c elem r rule: sibling_loop.induct) (auto simp: link_def)

lemma next_element_walk:
  "next_element d r n = List.find (\<lambda>m. nodeType d m = 1) (walk d r (link d r n))"
proof (induction d r n rule: next_element.induct)
  case (1 d r n)
  then show ?case by (subst next_element.simps) (auto split: option.split)
qed

text \<open>A walk goes on in document order, or against it.\<close>

definition beyond :: "direction \<Rightarrow> node \<Rightarrow> node \<Rightarrow> bool" where
  "beyond r a b \<longleftrightarrow> (if r = NextSibling then a < b else b < a)"

lemma link_beyond: "link d r n = Some m \<Longrightarrow> beyond r n m"
  by (cases r) (auto simp: link_def beyond_def parentNode_Some nextSibling_Some previousSibling_Some,
    auto simp: inside_def strict_prefix_def intro!: inside_less)

lemma walk_beyond: "sorted_wrt (beyond r) (walk d r c)"
proof -
  have trans: "beyond r a z" if "beyond r a b" "beyond r b z" for r a b z
    using that by (auto simp: beyond_def split: if_splits)
  show ?thesis
  proof (induction d r c rule: walk.induct)
    case (2 d r cur)
    show ?case
    proof (cases "link d r cur")
      case (Some m)
      have s: "sorted_wrt (beyond r) (m # walk d r (link d r m))" using 2 Some by simp
      have "beyond r cur y" if "y \<in> set (walk d r (link d r m))" for y
        using trans [OF link_beyond [OF Some], of y] s that by simp
      with s link_beyond [OF Some] Some show ?thesis by simp
    qed simp
  qed simp
qed

lemma walk_parents: "set (walk d ParentNode (parentNode n)) = {a. inside a n}"
proof (induction "length (path n)" arbitrary: n)
  case 0
  then show ?case by (auto simp: parentNode_def inside_def)
next
  case (Suc k)
  then obtain p where p: "parentNode n = Some p" by (cases "path n = []") (auto simp: parentNode_def)
  then have "k = length (path p)" using Suc.hyps(2) by (auto simp: parentNode_Some)
  from Suc.hyps(1) [OF this] p show ?case by (auto simp: inside_parent [of _ n] link_def)
qed

lemma walk_next: "set (walk d NextSibling (Some (child p i))) = insert (child p i) {child p j |j. i < j \<and> j < childCount d p}"
proof (induction "childCount d p - i" arbitrary: i rule: less_induct)
  case less
  show ?case
  proof (cases "Suc i < childCount d p")
    case True
    then have n: "nextSibling d (child p i) = Some (child p (Suc i))" by (simp add: nextSibling_Some)
    have "insert (child p (Suc i)) {child p j |j. Suc i < j \<and> j < childCount d p} = {child p j |j. i < j \<and> j < childCount d p}"
      using True by (auto simp: Suc_lessI intro: Suc_lessI)
    with less [of "Suc i"] True n show ?thesis by (simp add: link_def)
  next
    case False
    then have "nextSibling d (child p i) = None" by (auto simp: nextSibling_def)
    with False show ?thesis by (auto simp: link_def)
  qed
qed

lemma walk_prev: "set (walk d PreviousSibling (Some (child p i))) = {child p j |j. j \<le> i}"
proof (induction i)
  case 0
  show ?case by (auto simp: link_def previousSibling_def)
next
  case (Suc i)
  have "link d PreviousSibling (child p (Suc i)) = Some (child p i)" by (auto simp: link_def previousSibling_Some)
  with Suc show ?case by (auto simp: le_Suc_eq)
qed

section \<open>Where the methods lead\<close>

text \<open>The nodes each method can reach from a node.\<close>

definition reaches :: "dom_env \<Rightarrow> traversal \<Rightarrow> node \<Rightarrow> node \<Rightarrow> bool" where
  "reaches d t x n \<longleftrightarrow>
     (case t of
        Parents \<Rightarrow> inside n x
      | NextAll \<Rightarrow> parentNode n \<noteq> None \<and> parentNode n = parentNode x \<and> x < n
      | PrevAll \<Rightarrow> parentNode n \<noteq> None \<and> parentNode n = parentNode x \<and> n < x
      | Siblings \<Rightarrow> parentNode n \<noteq> None \<and> parentNode n = parentNode x \<and> n \<noteq> x
      | _ \<Rightarrow> False)"

definition set_methods :: "traversal list" where
  "set_methods = [Parents, NextAll, PrevAll, Siblings]"

text \<open>The elements a method finds from one node, as the code lists them.\<close>

definition found :: "dom_env \<Rightarrow> traversal \<Rightarrow> node \<Rightarrow> node list" where
  "found d t x = (case traverse_fn d t NoArg x of Many ns \<Rightarrow> ns | One n \<Rightarrow> [n] | NoVal \<Rightarrow> [])"

lemma in_doc_child: "in_doc d (child p k) \<longleftrightarrow> in_doc d p \<and> k < childCount d p"
  by (cases p) (auto simp: in_doc_def nth_append less_Suc_eq dest: spec [of _ "length (path p)"])

lemma dir_elements:
  assumes "\<forall>n \<in> set (butlast (walk d r (link d r x))). nodeType d n \<noteq> 9"
  shows "dir d x r NoArg = filter (\<lambda>n. nodeType d n = 1) (walk d r (link d r x))"
proof -
  have "filter P (takeWhile Q xs) = filter P xs" if "\<forall>n \<in> set (butlast xs). Q n" "\<forall>n. P n \<longrightarrow> Q n"
    for P Q :: "node \<Rightarrow> bool" and xs
    using that by (induction xs) (auto split: if_splits)
  with assms show ?thesis by (simp add: dir_def dir_loop_walk)
qed

lemma sorted_wrt_butlast: "sorted_wrt R xs \<Longrightarrow> n \<in> set (butlast xs) \<Longrightarrow> R n (last xs)"
  by (induction xs) (auto split: if_splits)

lemma in_doc_inside:
  assumes "in_doc d x" "inside a x" shows "in_doc d a"
proof -
  obtain zs where "path x = path a @ zs" "tree a = tree x" using assms(2) by (auto simp: inside_def strict_prefix_def prefix_def)
  with in_doc_prefix [of d "tree x" "path x" "path a"] assms(1) show ?thesis by (cases a; cases x) simp
qed

lemma no_document_below: "wf_env d \<Longrightarrow> in_doc d (child p k) \<Longrightarrow> nodeType d (child p k) \<noteq> 9"
  unfolding wf_env_def by (metis append_is_Nil_conv insertCI not_Cons_self2 path_child(1))

lemma dir_parents:
  assumes "wf_env d" "in_doc d x"
  shows "dir d x ParentNode NoArg = filter (\<lambda>n. nodeType d n = 1) (walk d ParentNode (parentNode x))"
proof -
  let ?w = "walk d ParentNode (parentNode x)"
  have "nodeType d n \<noteq> 9" if n: "n \<in> set (butlast ?w)" for n
  proof
    assume "nodeType d n = 9"
    moreover have i: "inside n x" using in_set_butlastD [OF n] by (simp add: walk_parents)
    ultimately have "path n = []" using assms in_doc_inside [OF assms(2) i] by (simp add: wf_env_def)
    moreover have "last ?w < n" using sorted_wrt_butlast [OF walk_beyond n] by (simp add: beyond_def)
    moreover have "last ?w \<in> set ?w" using n by (intro last_in_set) auto
    then have "tree (last ?w) = tree n" using i by (auto simp: walk_parents inside_def)
    ultimately show False by (cases "last ?w"; cases n) auto
  qed
  then show ?thesis using dir_elements [of d ParentNode x] by (simp add: link_def)
qed

lemma next_walk: "set (walk d NextSibling (nextSibling d (child p i))) = {child p j |j. i < j \<and> j < childCount d p}"
proof (cases "Suc i < childCount d p")
  case True
  then have "nextSibling d (child p i) = Some (child p (Suc i))" by (simp add: nextSibling_Some)
  then show ?thesis using walk_next [of d p "Suc i"] True by (auto simp: Suc_lessI intro: Suc_lessI)
next
  case False
  then have "nextSibling d (child p i) = None" by (auto simp: nextSibling_def)
  with False show ?thesis by auto
qed

lemma prev_walk: "set (walk d PreviousSibling (previousSibling (child p i))) = {child p j |j. j < i}"
proof (cases i)
  case 0
  then show ?thesis by (auto simp: previousSibling_def)
next
  case (Suc k)
  then have "previousSibling (child p i) = Some (child p k)" by (auto simp: previousSibling_Some)
  with walk_prev [of d p k] Suc show ?thesis by auto
qed

lemma dir_siblings:
  assumes "wf_env d" "in_doc d (child p i)"
  shows "dir d (child p i) NextSibling NoArg = filter (\<lambda>n. nodeType d n = 1) (walk d NextSibling (nextSibling d (child p i)))"
    "dir d (child p i) PreviousSibling NoArg = filter (\<lambda>n. nodeType d n = 1) (walk d PreviousSibling (previousSibling (child p i)))"
proof -
  have p: "in_doc d p" "i < childCount d p" using assms(2) by (simp_all add: in_doc_child)
  then have "nodeType d n \<noteq> 9" if "n = child p j" "j < childCount d p" for n j
    using that no_document_below [OF assms(1), of p j] by (simp add: in_doc_child)
  then have "\<forall>n \<in> set (butlast (walk d NextSibling (nextSibling d (child p i)))). nodeType d n \<noteq> 9"
    "\<forall>n \<in> set (butlast (walk d PreviousSibling (previousSibling (child p i)))). nodeType d n \<noteq> 9"
    using p(2) by (auto dest!: in_set_butlastD simp: next_walk prev_walk)
  then show "dir d (child p i) NextSibling NoArg = filter (\<lambda>n. nodeType d n = 1) (walk d NextSibling (nextSibling d (child p i)))"
    "dir d (child p i) PreviousSibling NoArg = filter (\<lambda>n. nodeType d n = 1) (walk d PreviousSibling (previousSibling (child p i)))"
    using dir_elements [of d NextSibling "child p i"] dir_elements [of d PreviousSibling "child p i"] by (simp_all add: link_def)
qed

lemma dir_root: "parentNode x = None \<Longrightarrow> dir d x r a = []"
  by (cases r) (auto simp: dir_def link_def nextSibling_def previousSibling_def)

lemma found_set:
  assumes "wf_env d" "in_doc d x" "t \<in> set set_methods"
  shows "set (found d t x) = {n. nodeType d n = 1 \<and> in_doc d n \<and> reaches d t x n}"
proof (cases "parentNode x")
  case None
  moreover have "\<not> inside n x" for n using inside_parent [of n x] None by simp
  ultimately show ?thesis using assms(3)
    by (auto simp: set_methods_def found_def traverse_fn_def dir_root reaches_def)
next
  case (Some p)
  then obtain i where x: "x = child p i" by (auto simp: parentNode_Some)
  have p: "in_doc d p" "i < childCount d p" using assms(2) by (simp_all add: in_doc_child x)
  have ch: "parentNode n = Some p \<and> in_doc d n \<longleftrightarrow> (\<exists>j < childCount d p. n = child p j)" for n
    using p(1) by (auto simp: parentNode_Some in_doc_child)
  have chD: "parentNode n = Some p \<Longrightarrow> in_doc d n \<Longrightarrow> \<exists>j < childCount d p. n = child p j" for n
    using ch by blast
  have all: "set (walk d NextSibling (firstChild d p)) = {child p j |j. j < childCount d p}"
    using walk_next [of d p 0] p(2) by (auto simp: firstChild_def)
  have "t = Parents \<or> t = NextAll \<or> t = PrevAll \<or> t = Siblings" using assms(3) by (auto simp: set_methods_def)
  then show ?thesis
  proof (elim disjE)
    assume "t = Parents"
    then show ?thesis using in_doc_inside [OF assms(2)]
      by (auto simp: found_def traverse_fn_def reaches_def dir_parents [OF assms(1,2)] walk_parents)
  next
    assume "t = NextAll"
    then show ?thesis using ch dir_siblings(1) [OF assms(1), of p i] assms(2)
      by (auto simp: found_def traverse_fn_def reaches_def next_walk x dest!: chD)
  next
    assume "t = PrevAll"
    then show ?thesis using ch p dir_siblings(2) [OF assms(1), of p i] assms(2)
      by (auto simp: found_def traverse_fn_def reaches_def prev_walk x in_doc_child dest!: chD)
  next
    assume "t = Siblings"
    then show ?thesis using ch
      by (auto simp: found_def traverse_fn_def reaches_def sibling_loop_walk all x dest!: chD)
  qed
qed

text \<open>The order in which one walk lists what it finds.\<close>

lemma found_sorted:
  assumes "wf_env d" "in_doc d x" "t \<in> set set_methods"
  shows "if rparentsprev t then sorted (rev (found d t x)) \<and> distinct (found d t x)
         else sorted (found d t x) \<and> distinct (found d t x)"
proof -
  have down: "sorted (rev (filter P (walk d r c))) \<and> distinct (filter P (walk d r c))" if "r \<noteq> NextSibling" for P r c
  proof -
    have "sorted_wrt (\<lambda>a b. b < a) (walk d r c)" using walk_beyond [of r d c] that by (simp add: beyond_def [abs_def])
    then have s: "sorted_wrt (<) (rev (walk d r c))" by (simp add: sorted_wrt_rev)
    then have "sorted_wrt (<) (rev (filter P (walk d r c)))" by (simp add: rev_filter sorted_wrt_filter)
    then show ?thesis by (metis distinct_rev strict_sorted_iff)
  qed
  have up: "sorted (filter P (walk d NextSibling c)) \<and> distinct (filter P (walk d NextSibling c))" for P c
    using walk_beyond [of NextSibling d c] by (metis (no_types, lifting) beyond_def sorted_wrt_filter sorted_wrt_mono_rel strict_sorted_iff)
  have "t = Parents \<or> t = NextAll \<or> t = PrevAll \<or> t = Siblings" using assms(3) by (auto simp: set_methods_def)
  then show ?thesis
  proof (elim disjE)
    assume "t = Parents"
    then show ?thesis using down by (simp add: found_def traverse_fn_def rparentsprev_def dir_parents [OF assms(1,2)])
  next
    assume t: "t = NextAll"
    show ?thesis
    proof (cases "parentNode x")
      case (Some p)
      then obtain i where "x = child p i" by (auto simp: parentNode_Some)
      with t up dir_siblings(1) [OF assms(1)] assms(2) show ?thesis
        by (simp add: found_def traverse_fn_def rparentsprev_def)
    qed (use t in \<open>simp add: found_def traverse_fn_def dir_root rparentsprev_def\<close>)
  next
    assume t: "t = PrevAll"
    show ?thesis
    proof (cases "parentNode x")
      case (Some p)
      then obtain i where "x = child p i" by (auto simp: parentNode_Some)
      with t down dir_siblings(2) [OF assms(1)] assms(2) show ?thesis
        by (simp add: found_def traverse_fn_def rparentsprev_def)
    qed (use t in \<open>simp add: found_def traverse_fn_def dir_root rparentsprev_def\<close>)
  next
    assume "t = Siblings"
    then show ?thesis using up by (simp add: found_def traverse_fn_def rparentsprev_def sibling_loop_walk)
  qed
qed

lemma jq_map_found:
  "t \<in> set set_methods \<Longrightarrow> jq_map (enumerate 0 xs) (\<lambda>elem i. traverse_fn d t NoArg elem) = concat (map (found d t) xs)"
proof -
  assume t: "t \<in> set set_methods"
  have "flat (map (\<lambda>(i, x). traverse_fn d t NoArg x) (enumerate k xs)) = concat (map (found d t) xs)" for k
    using t by (induction xs arbitrary: k) (auto simp: found_def set_methods_def traverse_fn_def flat_append)
  then show ?thesis by (simp add: jq_map_flat)
qed

section \<open>The properties\<close>

text \<open>
  C13: \<open>parents\<close>, \<open>nextAll\<close>, \<open>prevAll\<close> and \<open>siblings\<close> of any set of nodes of a document are exactly
  the elements in that relation to some node of the set, each once, in document order (reversed
  for \<open>parents\<close> and \<open>prevAll\<close>).
\<close>

theorem traversal_order:
  assumes "wf_env d" "source_ok d" "\<forall>n \<in> set (elems this). in_doc d n \<and> tree n = preferred d"
    "t \<in> set set_methods"
  shows "elems (traverse d owner t this NoArg NoArg) =
    (if rparentsprev t then rev else id)
      (sorted_list_of_set {n. nodeType d n = 1 \<and> in_doc d n \<and> (\<exists>x \<in> set (elems this). reaches d t x n)})"
    (is "_ = _ (sorted_list_of_set ?S)")
proof -
  let ?ret = "concat (map (found d t) (elems this))"
  have u: "\<not> is_until t" "\<not> guaranteedUnique t" using assms(4) by (auto simp: set_methods_def is_until_def guaranteedUnique_def)
  have set: "set ?ret = ?S" using found_set [OF assms(1) _ assms(4)] assms(3) by auto
  have r: "tree n = tree x" if "reaches d t x n" for x n
    using that assms(4) by (auto simp: reaches_def set_methods_def inside_def parentNode_Some)
      (metis parentNode_Some path_child(2) option.exhaust)+
  have doc: "set ?ret \<subseteq> doc_nodes d"
    unfolding set using assms(2,3) r by (auto simp: doc_nodes_def)
  have "elems (traverse d owner t this NoArg NoArg) = (if rparentsprev t then rev else id) (sorted_list_of_set (set ?ret))"
  proof (cases "length (elems this) > 1")
    case True
    then show ?thesis using u uniqueSort_sorts [OF doc, of owner] jq_map_found [OF assms(4)]
      by (simp add: traverse_def Let_def)
  next
    case False
    then have "elems this = [] \<or> (\<exists>x. elems this = [x])" by (cases "elems this") auto
    moreover have "(if rparentsprev t then rev else id) (sorted_list_of_set (set xs)) = xs"
      if "if rparentsprev t then sorted (rev xs) \<and> distinct xs else sorted xs \<and> distinct xs" for xs :: "node list"
      using that sorted_list_of_set.idem_if_sorted_distinct [of "rev xs"] sorted_list_of_set.idem_if_sorted_distinct [of xs]
      by (auto split: if_splits)
    ultimately show ?thesis using u found_sorted [OF assms(1) _ assms(4)] assms(3) jq_map_found [OF assms(4), of "elems this" d]
      by (auto simp: traverse_def Let_def)
  qed
  then show ?thesis by (simp only: set)
qed

theorem traversal_order_witness:
  "elems (traverse small_page id Siblings (JQ [Node 0 [0, 1], Node 0 [0, 0]] None) NoArg NoArg) =
     [Node 0 [0, 0], Node 0 [0, 1], Node 0 [0, 2]]"
proof -
  have c: "in_doc small_page (Node 0 [0, k]) \<longleftrightarrow> k < 3" for k
    using in_doc_child [of small_page "Node 0 [0]" k] small_page_in(2) by (simp add: child_def small_page_fields)
  have p: "parentNode n = Some (Node 0 [0]) \<longleftrightarrow> (\<exists>k. n = Node 0 [0, k])" for n
    by (simp add: parentNode_Some child_def)
  have "{n. nodeType small_page n = 1 \<and> in_doc small_page n \<and>
      (\<exists>x \<in> set (elems (JQ [Node 0 [0, 1], Node 0 [0, 0]] None)). reaches small_page Siblings x n)} =
      {n. \<exists>k < 3. n = Node 0 [0, k]}"
    by (auto simp: reaches_def p c small_page_fields parentNode_def [of "Node 0 [0, _]"])
  also have "\<dots> = {Node 0 [0, 0], Node 0 [0, 1], Node 0 [0, 2]}"
    by (auto simp: less_Suc_eq numeral_3_eq_3)
  finally have "{n. nodeType small_page n = 1 \<and> in_doc small_page n \<and>
      (\<exists>x \<in> set (elems (JQ [Node 0 [0, 1], Node 0 [0, 0]] None)). reaches small_page Siblings x n)} =
      {Node 0 [0, 0], Node 0 [0, 1], Node 0 [0, 2]}" .
  moreover have "sorted_list_of_set {Node 0 [0, 0], Node 0 [0, 1], Node 0 [0, 2]} = [Node 0 [0, 0], Node 0 [0, 1], Node 0 [0, 2]]"
    by (rule sorted_distinct_set_unique) auto
  ultimately show ?thesis
    using traversal_order [OF small_page_ok, of "JQ [Node 0 [0, 1], Node 0 [0, 0]] None" Siblings id]
    by (simp add: small_page_fields small_page_in set_methods_def rparentsprev_def)
qed

text \<open>
  \<open>not\<close> drops text and comment nodes when the selector is a simple one, and keeps them when
  it is not simple, though no selector matches them: the set \<open>not\<close> leaves depends on how the
  selector is written.  \<open>filter\<close> gives the same elements either way.
\<close>

theorem not_drops_text:
  assumes "nodeType d x \<noteq> 1" "es = x # y # ys"
  shows "x \<notin> set (winnow d es (QSimple s) True) \<and> x \<in> set (winnow d es (QSel s) True) \<and>
    set (winnow d es (QSimple s) False) = set (winnow d es (QSel s) False)"
proof -
  have "grep_loop (\<lambda>n i. P n) True xs i ms = ms @ filter P xs" for xs ms :: "node list" and P i
    by (induction xs arbitrary: i ms) (auto simp: Let_def)
  then have g: "grep xs (\<lambda>n i. P n) False = filter P xs" for xs :: "node list" and P
    by (simp add: grep_def)
  have "set (jq_filter d p es i) = {n \<in> set es. nodeType d n = 1 \<and> (if i then \<not> p n else p n)}" for p i
    using assms(2) by (auto simp: jq_filter_def Let_def g)
  moreover have "0 \<le> inArray n (Some xs) None \<longleftrightarrow> n \<in> set xs" for n :: node and xs
    using inArray_gt_iff [of n xs] by linarith
  ultimately show ?thesis using assms
    by (auto simp: winnow_def Let_def g)
qed

theorem not_drops_text_witness:
  "let es = [Node 0 [0, 0], Node 0 [0, 1]]; d = small_page\<lparr>nodeType := \<lambda>_. 3\<rparr>
   in Node 0 [0, 0] \<notin> set (winnow d es (QSimple (\<lambda>_. False)) True) \<and>
      Node 0 [0, 0] \<in> set (winnow d es (QSel (\<lambda>_. False)) True)"
  using not_drops_text [of "small_page\<lparr>nodeType := \<lambda>_. 3\<rparr>" "Node 0 [0, 0]" _ "Node 0 [0, 1]" "[]" "\<lambda>_. False"]
  by (simp add: Let_def)

end
