(* ===== verification/JQ_Form.thy ===== *)
theory JQ_Form
  imports JQ_Core JS_Uri
begin

text \<open>
  The values of form controls and their serialization (\<^verbatim>\<open>jquery.js\<close>, lines 7713 to 7882 and 9435
  to 9533): \<open>val\<close> with its hooks for selects, check boxes and radio buttons, \<open>serializeArray\<close>,
  \<open>param\<close> and \<open>serialize\<close>.  A control is a record of the properties the code reads; the values a
  page hands to \<open>param\<close> are a data type of JavaScript values.
\<close>

section \<open>Controls\<close>

text \<open>
  An option of a select: its \<open>value\<close> attribute, its text, whether it is selected or disabled, and
  whether its parent is an \<open>optgroup\<close> that is disabled.
\<close>

record opt =
  oval :: "string option"
  otext :: string
  selected :: bool
  odisabled :: bool
  group_disabled :: bool

text \<open>
  A control: \<open>elem.type\<close>, \<open>nodeName\<close>, \<open>name\<close>, \<open>elem.value\<close> (none where it is null or undefined), the
  \<open>value\<close> attribute, whether it is checked and whether \<open>:disabled\<close> matches it, and its options.
\<close>

record control =
  ctype :: string
  nodeName :: string
  cname :: string
  cvalue :: "string option"
  value_attr :: "string option"
  checked :: bool
  disabled :: bool
  options :: "opt list"

text \<open>What \<open>val\<close> returns: a string, the list of a select with several choices, or null.\<close>

datatype fval = VStr string | VArr "string list" | VNull

definition option_get :: "opt \<Rightarrow> string" where
  "option_get o' = (case oval o' of Some v \<Rightarrow> v | None \<Rightarrow> trim (otext o'))"

text \<open>\<open>selectedIndex\<close>: the index of the first selected option, -1 where there is none.\<close>

definition selectedIndex :: "control \<Rightarrow> int" where
  "selectedIndex c = inArray True (Some (map selected (options c))) None"

text \<open>
  The loop over the options from \<open>i\<close> on, for a list that is not cut: the values of the options that
  are selected (or stand at \<open>index\<close>) and not disabled.
\<close>

fun chosen :: "int \<Rightarrow> int \<Rightarrow> opt list \<Rightarrow> string list" where
  "chosen index i [] = []"
| "chosen index i (o' # os) =
     (if (selected o' \<or> i = index) \<and> \<not> odisabled o' \<and> \<not> group_disabled o'
      then option_get o' # chosen index (i + 1) os else chosen index (i + 1) os)"

definition select_get :: "control \<Rightarrow> fval" where
  "select_get c =
     (let index = selectedIndex c;
          one = (ctype c = ''select-one'' \<or> index < 0);
          max = (if one then index + 1 else int (length (options c)));
          i = (if index < 0 then max else if one then index else 0);
          values = chosen index i (drop (nat i) (take (nat max) (options c)))
      in if one then (case values of v # _ \<Rightarrow> VStr v | [] \<Rightarrow> VNull) else VArr values)"

text \<open>\<open>checkOn\<close> is the browser support flag of the same name: the value of a check box is \<open>on\<close> by default.\<close>

definition val_get :: "bool \<Rightarrow> control \<Rightarrow> fval" where
  "val_get checkOn c =
     (let plain = (case cvalue c of Some s \<Rightarrow> VStr (filter (\<lambda>x. x \<noteq> CHR 0x0D) s) | None \<Rightarrow> VStr '''')
      in if ctype c \<in> {''radio'', ''checkbox''} then
           (if checkOn then plain
            else case value_attr c of None \<Rightarrow> VStr ''on'' | Some _ \<Rightarrow> VStr (case cvalue c of Some s \<Rightarrow> s | None \<Rightarrow> ''''))
         else if lower (nodeName c) = ''select'' then select_get c
         else plain)"

section \<open>Setting values\<close>

text \<open>
  What the assignment of \<open>option.selected\<close> does in a browser: in a select with one choice the other
  options are no longer selected, and one that would be left without a choice takes its first
  option that is not disabled (\<open>reset\<close> says whether it is displayed as a drop-down, which does so).
\<close>

definition reset_select :: "opt list \<Rightarrow> opt list" where
  "reset_select os =
     (if list_ex selected os then os
      else case inArray False (Some (map (\<lambda>o'. odisabled o' \<or> group_disabled o') os)) None of
             i \<Rightarrow> if i < 0 then os else os[nat i := (os ! nat i)\<lparr>selected := True\<rparr>])"

definition set_selected :: "bool \<Rightarrow> bool \<Rightarrow> nat \<Rightarrow> bool \<Rightarrow> opt list \<Rightarrow> opt list" where
  "set_selected multi reset i b os =
     (if multi then os[i := (os ! i)\<lparr>selected := b\<rparr>]
      else if b then (map (\<lambda>o'. o'\<lparr>selected := False\<rparr>) os)[i := (os ! i)\<lparr>selected := True\<rparr>]
      else (let os1 = os[i := (os ! i)\<lparr>selected := False\<rparr>] in if reset then reset_select os1 else os1))"

text \<open>The loop of \<open>valHooks.select.set\<close> over the options below \<open>i\<close>, from the last to the first.\<close>

fun set_loop :: "bool \<Rightarrow> bool \<Rightarrow> string list \<Rightarrow> nat \<Rightarrow> opt list \<Rightarrow> bool \<Rightarrow> opt list \<times> bool" where
  "set_loop multi reset values 0 os optionSet = (os, optionSet)"
| "set_loop multi reset values (Suc i) os optionSet =
     (if 0 \<le> inArray (option_get (os ! i)) (Some values) None
      then set_loop multi reset values i (set_selected multi reset i True os) True
      else set_loop multi reset values i (set_selected multi reset i False os) optionSet)"

definition select_set :: "bool \<Rightarrow> string list \<Rightarrow> control \<Rightarrow> control" where
  "select_set reset values c =
     (case set_loop (ctype c = ''select-multiple'') reset values (length (options c)) (options c) False of
        (os, optionSet) \<Rightarrow> c\<lparr>options := (if optionSet then os else map (\<lambda>o'. o'\<lparr>selected := False\<rparr>) os)\<rparr>)"

text \<open>The values a page sets: null or undefined, a number, a string, or an array of such values.\<close>

datatype vscalar = SNull | SNum int | SStr string

datatype vin = VOne vscalar | VMany "vscalar list"

definition int_str :: "int \<Rightarrow> string" where
  "int_str n = (if n < 0 then ''-'' @ nat_str (nat (- n)) else nat_str (nat n))"

fun scalar_str :: "vscalar \<Rightarrow> string" where
  "scalar_str SNull = ''''"
| "scalar_str (SNum n) = int_str n"
| "scalar_str (SStr s) = s"

text \<open>
  One round of the loop of \<open>val(value)\<close>: conversion to strings, the hook, or the plain property.  That
  checking a radio button takes the check mark of the others of its group is the browser's doing
  and not part of the control.
\<close>

definition val_set :: "bool \<Rightarrow> bool \<Rightarrow> vin \<Rightarrow> control \<Rightarrow> control" where
  "val_set checkOn reset v c =
     (let values = (case v of VOne x \<Rightarrow> [scalar_str x] | VMany xs \<Rightarrow> map scalar_str xs);
          plain = c\<lparr>cvalue := Some (join '','' values)\<rparr>
      in if ctype c \<in> {''radio'', ''checkbox''} then
           (case v of
              VMany _ \<Rightarrow> c\<lparr>checked := (case val_get checkOn c of VStr s \<Rightarrow> 0 \<le> inArray s (Some values) None | _ \<Rightarrow> False)\<rparr>
            | VOne _ \<Rightarrow> plain)
         else if lower (nodeName c) = ''select'' then select_set reset values c
         else plain)"

definition fn_val_set :: "bool \<Rightarrow> bool \<Rightarrow> (nat \<Rightarrow> fval \<Rightarrow> vin) \<Rightarrow> control list \<Rightarrow> control list" where
  "fn_val_set checkOn reset f cs = map (\<lambda>(i, c). val_set checkOn reset (f i (val_get checkOn c)) c) (enumerate 0 cs)"

section \<open>Serialization\<close>

text \<open>A member of a set that is serialized: a form with its elements, or a control.\<close>

datatype member = Form "control list" | Control control

definition rsubmittable :: "string \<Rightarrow> bool" where
  "rsubmittable nm \<longleftrightarrow> list_ex (\<lambda>p. take (length p) (lower nm) = p) [''input'', ''select'', ''textarea'', ''keygen'']"

definition rsubmitterTypes :: "string \<Rightarrow> bool" where
  "rsubmitterTypes t \<longleftrightarrow> lower t \<in> {''submit'', ''button'', ''image'', ''reset'', ''file''}"

definition rcheckableType :: "string \<Rightarrow> bool" where
  "rcheckableType t \<longleftrightarrow> lower t \<in> {''checkbox'', ''radio''}"

definition submits :: "control \<Rightarrow> bool" where
  "submits c \<longleftrightarrow> cname c \<noteq> '''' \<and> \<not> disabled c \<and> rsubmittable (nodeName c) \<and> \<not> rsubmitterTypes (ctype c) \<and>
     (checked c \<or> \<not> rcheckableType (ctype c))"

text \<open>\<open>replace(/\r?\n/g, "\r\n")\<close>.\<close>

fun crlf :: "string \<Rightarrow> string" where
  "crlf [] = []"
| "crlf (c # cs) =
     (if c = CHR 0x0A then CHR 0x0D # CHR 0x0A # crlf cs
      else if c = CHR 0x0D \<and> cs \<noteq> [] \<and> hd cs = CHR 0x0A then CHR 0x0D # CHR 0x0A # crlf (tl cs)
      else c # crlf cs)"

type_synonym entry = "string \<times> string"

text \<open>The callback of the second \<open>map\<close>: the pairs of name and value of a control.\<close>

definition pairs_of :: "bool \<Rightarrow> control \<Rightarrow> entry mapret" where
  "pairs_of checkOn c =
     (case val_get checkOn c of
        VNull \<Rightarrow> NoVal
      | VArr vs \<Rightarrow> Many (jq_map (enumerate (0 :: nat) vs) (\<lambda>v i. One (cname c, crlf v)))
      | VStr v \<Rightarrow> One (cname c, crlf v))"

definition elements_of :: "member \<Rightarrow> control mapret" where
  "elements_of m = (case m of Form cs \<Rightarrow> Many cs | Control c \<Rightarrow> One c)"

definition serializeArray :: "bool \<Rightarrow> member list \<Rightarrow> entry list" where
  "serializeArray checkOn ms =
     (let elements = jq_map (enumerate (0 :: nat) ms) (\<lambda>m i. elements_of m)
      in jq_map (enumerate (0 :: nat) (filter submits elements)) (\<lambda>c i. pairs_of checkOn c))"

section \<open>\<open>param\<close>\<close>

text \<open>
  The values \<open>param\<close> takes: those of JavaScript, an object as its keys in the order in which they
  are enumerated, a function with its source text and the value a call returns.
\<close>

datatype pv = PUndef | PNull | PBool bool | PNum int | PStr string | PFun string pv | PArr "pv list" | PObj "(string \<times> pv) list"

text \<open>Conversion to a string, as \<open>encodeURIComponent\<close> applies it.\<close>

fun to_str :: "pv \<Rightarrow> string" where
  "to_str PUndef = ''undefined''"
| "to_str PNull = ''null''"
| "to_str (PBool b) = (if b then ''true'' else ''false'')"
| "to_str (PNum n) = int_str n"
| "to_str (PStr s) = s"
| "to_str (PFun src r) = src"
| "to_str (PArr vs) = join '','' (map (\<lambda>v. if v = PUndef \<or> v = PNull then '''' else to_str v) vs)"
| "to_str (PObj ob) = ''[object Object]''"

text \<open>What \<open>add\<close> appends to the list \<open>s\<close>, before the encoding.\<close>

definition add_value :: "pv \<Rightarrow> string" where
  "add_value v = to_str (case v of PFun src r \<Rightarrow> r | PUndef \<Rightarrow> PStr '''' | PNull \<Rightarrow> PStr '''' | _ \<Rightarrow> v)"

definition rbracket :: "string \<Rightarrow> bool" where
  "rbracket s \<longleftrightarrow> 2 \<le> length s \<and> drop (length s - 2) s = ''[]''"

definition typeof_object :: "pv \<Rightarrow> bool" where
  "typeof_object v \<longleftrightarrow> (case v of PArr _ \<Rightarrow> True | PObj _ \<Rightarrow> True | PNull \<Rightarrow> True | _ \<Rightarrow> False)"

text \<open>The calls of \<open>add\<close> that \<open>buildParams\<close> makes, in order.\<close>

function buildParams :: "bool \<Rightarrow> string \<Rightarrow> pv \<Rightarrow> (string \<times> pv) list" where
  "buildParams traditional pre obj =
     (case obj of
        PArr vs \<Rightarrow>
          concat (map (\<lambda>(i, v).
            if traditional \<or> rbracket pre then [(pre, v)]
            else buildParams traditional (pre @ ''['' @ (if typeof_object v then nat_str i else '''') @ '']'') v)
            (enumerate 0 vs))
      | PObj ob \<Rightarrow>
          if traditional then [(pre, obj)]
          else concat (map (\<lambda>(name, v). buildParams traditional (pre @ ''['' @ name @ '']'') v) ob)
      | _ \<Rightarrow> [(pre, obj)])"
  by pat_completeness auto

lemma size_pv_arr: "(i, v) \<in> set (enumerate n vs) \<Longrightarrow> size v < Suc (size_list size vs)"
  by (auto simp: in_set_enumerate_eq less_Suc_eq_le intro!: size_list_estimation' nth_mem)

lemma size_pv_obj: "(k, v) \<in> set ob \<Longrightarrow> size v < Suc (size_list (size_prod (\<lambda>_. 0) size) ob)"
  by (auto simp: less_Suc_eq_le intro!: size_list_estimation')

termination buildParams
  by (relation "measure (\<lambda>(traditional, pre, obj). size obj)") (auto dest: size_pv_arr size_pv_obj)

declare buildParams.simps [simp del]

text \<open>The argument of \<open>param\<close>: an array of objects with a name and a value, or an object.\<close>

datatype parg = Elements "(string \<times> pv) list" | Plain "(string \<times> pv) list"

definition param_calls :: "bool \<Rightarrow> parg \<Rightarrow> (string \<times> pv) list" where
  "param_calls traditional a =
     (case a of Elements es \<Rightarrow> es | Plain ob \<Rightarrow> concat (map (\<lambda>(pre, v). buildParams traditional pre v) ob))"

definition add_pair :: "string \<times> pv \<Rightarrow> string" where
  "add_pair kv = encodeURIComponent (fst kv) @ ''='' @ encodeURIComponent (add_value (snd kv))"

text \<open>\<open>replace(/%20/g, "+")\<close>.\<close>

fun r20 :: "string \<Rightarrow> string" where
  "r20 (a # b # c # cs) = (if [a, b, c] = ''%20'' then CHR ''+'' # r20 cs else a # r20 (b # c # cs))"
| "r20 cs = cs"

definition param :: "bool \<Rightarrow> parg \<Rightarrow> string" where
  "param traditional a = r20 (join ''&'' (map add_pair (param_calls traditional a)))"

definition serialize :: "bool \<Rightarrow> bool \<Rightarrow> member list \<Rightarrow> string" where
  "serialize checkOn traditional ms = param traditional (Elements (map (\<lambda>(k, v). (k, PStr v)) (serializeArray checkOn ms)))"

section \<open>What a server reads\<close>

text \<open>
  The reference: how \<open>application/x-www-form-urlencoded\<close> is parsed.  Pieces between the ampersands
  are cut at their first equals sign, plus signs are spaces, and empty pieces are skipped.
\<close>

definition form_decode :: "string \<Rightarrow> string option" where
  "form_decode s = decodeURIComponent (map (\<lambda>c. if c = CHR ''+'' then CHR '' '' else c) s)"

definition parse_piece :: "string \<Rightarrow> string option \<times> string option" where
  "parse_piece p =
     (case index_sub ''='' p of
        None \<Rightarrow> (form_decode p, Some '''')
      | Some i \<Rightarrow> (form_decode (take i p), form_decode (drop (i + 1) p)))"

definition parse_query :: "string \<Rightarrow> (string option \<times> string option) list" where
  "parse_query s = map parse_piece (filter (\<lambda>p. p \<noteq> '''') (split_str ''&'' s))"

text \<open>A component as \<open>param\<close> leaves it: spaces are plus signs, the rest is encoded.\<close>

definition enc_plus :: "string \<Rightarrow> string" where
  "enc_plus s = concat (map (\<lambda>c. if c = CHR '' '' then ''+'' else enc_char c) s)"

lemma r20_other [simp]: "a \<noteq> CHR ''%'' \<Longrightarrow> r20 (a # s) = a # r20 s"
  by (cases "(a # s, ())" rule: prod.exhaust, cases s rule: r20.cases) auto

lemma hex_not_percent [simp]: "d < 16 \<Longrightarrow> hex_char d \<noteq> CHR ''%''"
  using hex_char_safe [of d] hex_val_hex_char [of d] by (auto simp: hex_val_def Let_def simp del: hex_val_hex_char)

lemma hex_char_inject: "d < 16 \<Longrightarrow> d' < 16 \<Longrightarrow> hex_char d = hex_char d' \<longleftrightarrow> d = d'"
  by (metis hex_val_hex_char option.inject)

lemma r20_byte: "b < 256 \<Longrightarrow> r20 (enc_byte b @ t) = (if b = 32 then CHR ''+'' # r20 t else enc_byte b @ r20 t)"
proof -
  assume b: "b < 256"
  have d: "b div 16 < 16" "b mod 16 < 16" using b by (auto simp: less_mult_imp_div_less)
  have "hex_char (b div 16) = CHR ''2'' \<and> hex_char (b mod 16) = CHR ''0'' \<longleftrightarrow> b div 16 = 2 \<and> b mod 16 = 0"
  proof -
    have "hex_char 2 = CHR ''2''" "hex_char 0 = CHR ''0''" by code_simp+
    then show ?thesis using hex_char_inject [OF d(1), of 2] hex_char_inject [OF d(2), of 0] by simp
  qed
  moreover have "b div 16 = 2 \<and> b mod 16 = 0 \<longleftrightarrow> b = 32" by auto
  ultimately show ?thesis using d by (simp add: enc_byte_def)
qed

lemma r20_char: "r20 (enc_char c @ t) = (if c = CHR '' '' then ''+'' else enc_char c) @ r20 t"
proof -
  let ?n = "of_char c :: nat"
  have n: "?n < 256" by (rule of_char_less)
  have sp: "c = CHR '' '' \<longleftrightarrow> ?n = 32"
    using of_char_eq_iff [of c "CHR '' ''", where 'a = nat] by simp
  show ?thesis
  proof (cases "unreserved c")
    case True
    then have "c \<noteq> CHR ''%''" "c \<noteq> CHR '' ''" by (auto simp: unreserved_def is_digit_def is_lower_def is_upper_def)
    with True show ?thesis by (simp add: enc_char_def Let_def)
  next
    case False
    then show ?thesis using n utf8_arith [OF n] sp
      by (auto simp: enc_char_def Let_def r20_byte)
  qed
qed

lemma r20_encode: "r20 (encodeURIComponent s @ t) = enc_plus s @ r20 t"
  by (induction s) (simp_all add: encodeURIComponent_def enc_plus_def r20_char)

lemma plus_char: "map (\<lambda>c. if c = CHR ''+'' then CHR '' '' else c) (enc_char c) = enc_char c"
proof -
  have "CHR ''+'' \<notin> set (enc_char c)"
    using encode_fresh [of "CHR ''+''" "[c]"] by (simp add: encodeURIComponent_def)
  then show ?thesis by (auto intro: map_idI)
qed

lemma decode_plus: "form_decode (enc_plus s) = Some s"
proof (induction s)
  case (Cons c s)
  then show ?case by (cases "c = CHR '' ''") (simp_all add: form_decode_def enc_plus_def plus_char decode_enc_char)
qed (simp add: form_decode_def enc_plus_def)

lemma enc_plus_fresh: "x \<in> set (enc_plus s) \<Longrightarrow> x \<noteq> CHR ''='' \<and> x \<noteq> CHR ''&''"
proof -
  have e: "x \<in> set (enc_char c) \<Longrightarrow> enc_safe x" for c
    using encode_safe [of x "[c]"] by (simp add: encodeURIComponent_def)
  have "\<not> enc_safe (CHR ''&'')" by (simp add: enc_safe_def unreserved_def is_digit_def is_lower_def is_upper_def)
  then show "x \<in> set (enc_plus s) \<Longrightarrow> x \<noteq> CHR ''='' \<and> x \<noteq> CHR ''&''"
    using e unsafe_chars(1) by (auto simp: enc_plus_def split: if_splits)
qed

definition plus_pair :: "string \<times> pv \<Rightarrow> string" where
  "plus_pair kv = enc_plus (fst kv) @ ''='' @ enc_plus (add_value (snd kv))"

lemma r20_pair: "r20 (add_pair kv @ t) = plus_pair kv @ r20 t"
  by (simp add: add_pair_def plus_pair_def r20_encode)

lemma r20_join: "r20 (join ''&'' (map add_pair kvs)) = join ''&'' (map plus_pair kvs)"
proof (induction kvs rule: induct_list012)
  case (2 kv)
  then show ?case using r20_pair [of kv "[]"] by simp
qed (simp_all add: r20_pair)

lemma parse_plus: "parse_piece (plus_pair kv) = (Some (fst kv), Some (add_value (snd kv)))"
proof -
  have "CHR ''='' \<notin> set (enc_plus (fst kv))" using enc_plus_fresh by blast
  from index_sub_at [OF this, of "[]" "enc_plus (add_value (snd kv))"]
  show ?thesis by (simp add: parse_piece_def plus_pair_def decode_plus)
qed

lemma parse_param_calls:
  "parse_query (param traditional a) = map (\<lambda>(k, v). (Some k, Some (add_value v))) (param_calls traditional a)"
proof (cases "param_calls traditional a = []")
  case True
  then show ?thesis by (simp add: param_def parse_query_def split_str_fresh)
next
  case False
  have "CHR ''&'' \<notin> set (plus_pair kv)" for kv using enc_plus_fresh by (fastforce simp: plus_pair_def)
  then have "split_str ''&'' (join ''&'' (map plus_pair (param_calls traditional a))) = map plus_pair (param_calls traditional a)"
    using False by (intro split_join) auto
  moreover have "filter (\<lambda>p. p \<noteq> []) (map plus_pair kvs) = map plus_pair kvs" for kvs
    by (auto simp: plus_pair_def intro: filter_True)
  ultimately show ?thesis
    by (simp add: param_def parse_query_def r20_join o_def parse_plus case_prod_beta)
qed

section \<open>Objects of objects\<close>

text \<open>
  The value at a path, the name \<open>param\<close> gives to a path, and the objects the claim below is about:
  no arrays, different keys without brackets at every level.
\<close>

fun fetch :: "string list \<Rightarrow> pv \<Rightarrow> pv option" where
  "fetch [] v = Some v"
| "fetch (k # ks) (PObj ob) = (case map_of ob k of None \<Rightarrow> None | Some v \<Rightarrow> fetch ks v)"
| "fetch (k # ks) v = None"

definition render :: "string \<Rightarrow> string list \<Rightarrow> string" where
  "render pre ks = pre @ concat (map (\<lambda>k. ''['' @ k @ '']'') ks)"

definition bare :: "string \<Rightarrow> bool" where
  "bare k \<longleftrightarrow> CHR ''['' \<notin> set k \<and> CHR '']'' \<notin> set k"

fun nested :: "pv \<Rightarrow> bool" where
  "nested (PObj ob) \<longleftrightarrow> distinct (map fst ob) \<and> list_all (\<lambda>kv. bare (fst kv) \<and> nested (snd kv)) ob"
| "nested (PArr vs) \<longleftrightarrow> False"
| "nested v \<longleftrightarrow> True"

fun is_obj :: "pv \<Rightarrow> bool" where
  "is_obj (PObj ob) = True"
| "is_obj v = False"

lemma render_Cons: "render pre (k # ks) = render (pre @ ''['' @ k @ '']'') ks"
  by (simp add: render_def)

lemma build_scalar: "nested v \<Longrightarrow> \<not> is_obj v \<Longrightarrow> buildParams tr pre v = [(pre, v)]"
  by (cases v) (auto simp: buildParams.simps)

lemma build_object:
  "buildParams False pre (PObj ob) = concat (map (\<lambda>(k, v). buildParams False (pre @ ''['' @ k @ '']'') v) ob)"
  by (subst buildParams.simps) simp

lemma fetch_scalar: "\<not> is_obj v \<Longrightarrow> fetch ks v = Some x \<longleftrightarrow> ks = [] \<and> x = v"
  by (cases v; cases ks) auto

lemma build_paths:
  "nested v \<Longrightarrow> (k, x) \<in> set (buildParams False pre v) \<longleftrightarrow>
     (\<exists>ks. list_all bare ks \<and> fetch ks v = Some x \<and> \<not> is_obj x \<and> k = render pre ks)"
proof (induction v arbitrary: pre)
  case (PObj ob)
  have d: "distinct (map fst ob)" and n: "(k', v) \<in> set ob \<Longrightarrow> bare k' \<and> nested v" for k' v
    using PObj.prems by (auto simp: list_all_iff)
  have IH: "(k, x) \<in> set (buildParams False (pre @ ''['' @ k' @ '']'') v) \<longleftrightarrow>
      (\<exists>ks. list_all bare ks \<and> fetch ks v = Some x \<and> \<not> is_obj x \<and> k = render (pre @ ''['' @ k' @ '']'') ks)"
    if "(k', v) \<in> set ob" for k' v
    using PObj.IH [OF that, of v] n [OF that] by simp
  have "(k, x) \<in> set (buildParams False pre (PObj ob)) \<longleftrightarrow>
      (\<exists>(k', v) \<in> set ob. (k, x) \<in> set (buildParams False (pre @ ''['' @ k' @ '']'') v))"
    by (auto simp: build_object)
  also have "\<dots> \<longleftrightarrow> (\<exists>k' v ks. map_of ob k' = Some v \<and> bare k' \<and> list_all bare ks \<and> fetch ks v = Some x \<and> \<not> is_obj x \<and> k = render pre (k' # ks))"
    using IH n d by (fastforce simp: render_Cons map_of_eq_Some_iff)
  also have "\<dots> \<longleftrightarrow> (\<exists>ks. list_all bare ks \<and> fetch ks (PObj ob) = Some x \<and> \<not> is_obj x \<and> k = render pre ks)"
  proof
    assume "\<exists>k' v ks. map_of ob k' = Some v \<and> bare k' \<and> list_all bare ks \<and> fetch ks v = Some x \<and> \<not> is_obj x \<and> k = render pre (k' # ks)"
    then obtain k' v ks where "map_of ob k' = Some v" "bare k'" "list_all bare ks" "fetch ks v = Some x" "\<not> is_obj x" "k = render pre (k' # ks)"
      by blast
    then show "\<exists>ks. list_all bare ks \<and> fetch ks (PObj ob) = Some x \<and> \<not> is_obj x \<and> k = render pre ks"
      by (intro exI [of _ "k' # ks"]) simp
  next
    assume "\<exists>ks. list_all bare ks \<and> fetch ks (PObj ob) = Some x \<and> \<not> is_obj x \<and> k = render pre ks"
    then obtain ks where k: "list_all bare ks" "fetch ks (PObj ob) = Some x" "\<not> is_obj x" "k = render pre ks" by blast
    then obtain k' ks' where "ks = k' # ks'" by (cases ks) auto
    with k show "\<exists>k' v ks. map_of ob k' = Some v \<and> bare k' \<and> list_all bare ks \<and> fetch ks v = Some x \<and> \<not> is_obj x \<and> k = render pre (k' # ks)"
      by (auto split: option.splits)
  qed
  finally show ?case .
qed (auto simp: build_scalar fetch_scalar render_def intro: exI [of _ "[]"])

lemma bare_cut: "bare k \<Longrightarrow> bare k' \<Longrightarrow> k @ CHR '']'' # s = k' @ CHR '']'' # s' \<longleftrightarrow> k = k' \<and> s = s'"
  by (auto simp: bare_def append_eq_append_conv2 append_eq_Cons_conv Cons_eq_append_conv)

lemma build_prefix: "nested v \<Longrightarrow> (k, x) \<in> set (buildParams False pre v) \<Longrightarrow> \<exists>s. k = pre @ s"
  by (auto simp: build_paths render_def)

lemma build_distinct: "nested v \<Longrightarrow> distinct (map fst (buildParams False pre v))"
proof (induction v arbitrary: pre)
  case (PObj ob)
  have n: "distinct (map fst ob)" "(k', v) \<in> set ob \<Longrightarrow> bare k' \<and> nested v" for k' v
    using PObj.prems by (auto simp: list_all_iff)
  have IH: "distinct (map fst (buildParams False (pre @ ''['' @ k' @ '']'') v))" if "(k', v) \<in> set ob" for k' v
    using PObj.IH [OF that, of v] n(2) [OF that] by simp
  have "distinct (map fst (concat (map (\<lambda>(k, v). buildParams False (pre @ ''['' @ k @ '']'') v) ob')))"
    if "set ob' \<subseteq> set ob" "distinct (map fst ob')" for ob'
    using that
  proof (induction ob')
    case (Cons kv ob')
    obtain k1 v1 where kv: "kv = (k1, v1)" by fastforce
    have "fst y \<noteq> fst z"
      if y: "y \<in> set (buildParams False (pre @ ''['' @ k1 @ '']'') v1)" and m: "(k2, v2) \<in> set ob'"
        and z: "z \<in> set (buildParams False (pre @ ''['' @ k2 @ '']'') v2)" for y z k2 v2
    proof -
      have in12: "(k1, v1) \<in> set ob" "(k2, v2) \<in> set ob" "k1 \<noteq> k2" using Cons.prems m kv by auto force
      obtain s1 s2 where "fst y = (pre @ ''['' @ k1 @ '']'') @ s1" "fst z = (pre @ ''['' @ k2 @ '']'') @ s2"
        using build_prefix n(2) in12 y z by (metis prod.collapse)
      then show ?thesis using bare_cut n(2) in12 by auto
    qed
    then show ?case using Cons IH [of k1 v1] kv by fastforce
  qed simp
  from this [of ob] n(1) show ?case by (simp add: build_object)
qed (auto simp: build_scalar)

section \<open>Selects\<close>

text \<open>The options without their selection, which setting a value does not change.\<close>

definition unselected :: "opt list \<Rightarrow> opt list" where
  "unselected os = map (\<lambda>o'. o'\<lparr>selected := False\<rparr>) os"

lemma option_get_selected [simp]: "option_get (o'\<lparr>selected := b\<rparr>) = option_get o'"
  by (simp add: option_get_def split: option.split)

lemma inArray_nonneg: "0 \<le> inArray x (Some xs) None \<longleftrightarrow> x \<in> set xs"
  using inArray_gt_iff [of x xs] by linarith

lemma unselected_update [simp]:
  "unselected (os[i := (os ! i)\<lparr>selected := b\<rparr>]) = unselected os"
  "unselected ((unselected os)[i := (os ! i)\<lparr>selected := b\<rparr>]) = unselected os"
proof -
  have i: "(map (\<lambda>o'. o'\<lparr>selected := False\<rparr>) os)[i := (os ! i)\<lparr>selected := False\<rparr>] = map (\<lambda>o'. o'\<lparr>selected := False\<rparr>) os"
    by (metis list_update_beyond list_update_id map_update not_le)
  then show "unselected (os[i := (os ! i)\<lparr>selected := b\<rparr>]) = unselected os"
    "unselected ((unselected os)[i := (os ! i)\<lparr>selected := b\<rparr>]) = unselected os"
    by (simp_all add: unselected_def map_update o_def)
qed

lemma unselected_simps [simp]: "unselected (unselected os) = unselected os" "length (unselected os) = length os"
  by (simp_all add: unselected_def)

lemma unselected_reset [simp]: "unselected (reset_select os) = unselected os"
  by (simp add: reset_select_def)

lemma unselected_set [simp]: "unselected (set_selected multi reset i b os) = unselected os"
  unfolding set_selected_def Let_def unselected_def [symmetric] by simp

lemma length_set_selected [simp]: "length (set_selected multi reset i b os) = length os"
  by (metis unselected_set unselected_simps(2))

lemma option_get_set [simp]:
  assumes "j < length os"
  shows "option_get (set_selected multi reset i b os ! j) = option_get (os ! j)"
proof -
  have "option_get (os' ! j) = option_get (unselected os' ! j)" if "j < length os'" for os'
    using that by (simp add: unselected_def)
  from this [of os] this [of "set_selected multi reset i b os"] show ?thesis using assms by simp
qed

definition matches :: "string list \<Rightarrow> opt \<Rightarrow> bool" where
  "matches values o' \<longleftrightarrow> option_get o' \<in> set values"

lemma inArray_matches [simp]: "0 \<le> inArray (option_get o') (Some values) None \<longleftrightarrow> matches values o'"
  by (simp add: matches_def inArray_nonneg)

lemma matches_selected [simp]:
  "matches values (o'\<lparr>selected := b\<rparr>) = matches values o'"
  "j < length os \<Longrightarrow> matches values (set_selected multi reset i b os ! j) = matches values (os ! j)"
  by (simp_all add: matches_def)

lemma set_loop_flag:
  "i \<le> length os \<Longrightarrow> snd (set_loop multi reset values i os b) \<longleftrightarrow> b \<or> list_ex (matches values) (take i os)"
proof (induction i arbitrary: os b)
  case (Suc i)
  have "list_ex (matches values) (take i (set_selected multi reset i x os)) \<longleftrightarrow> list_ex (matches values) (take i os)" for x
    using Suc.prems by (simp add: list_ex_length min_def cong: conj_cong)
  then show ?case using Suc by (auto simp: take_Suc_conv_app_nth)
qed simp

lemma set_loop_multi:
  "i \<le> length os \<Longrightarrow>
   fst (set_loop True reset values i os b) = map (\<lambda>o'. o'\<lparr>selected := matches values o'\<rparr>) (take i os) @ drop i os"
proof (induction i arbitrary: os b)
  case (Suc i)
  have "fst (set_loop True reset values i (set_selected True reset i x os) b') =
      map (\<lambda>o'. o'\<lparr>selected := matches values o'\<rparr>) (take i os) @ (os ! i)\<lparr>selected := x\<rparr> # drop (Suc i) os" for x b'
  proof -
    have "i < length (set_selected True reset i x os)" using Suc.prems by simp
    then have "drop i (set_selected True reset i x os) = (os ! i)\<lparr>selected := x\<rparr> # drop (Suc i) os"
      using Cons_nth_drop_Suc [of i "set_selected True reset i x os"] by (simp add: set_selected_def)
    then show ?thesis using Suc.IH [of "set_selected True reset i x os" b'] Suc.prems by (simp add: set_selected_def)
  qed
  then show ?case using Suc.prems by (simp add: take_Suc_conv_app_nth)
qed simp

text \<open>In a select with one choice: after a match nothing but the first match so far is selected.\<close>

definition only :: "nat \<Rightarrow> opt list \<Rightarrow> opt list" where
  "only j os = (unselected os)[j := (os ! j)\<lparr>selected := True\<rparr>]"

lemma only_set:
  assumes "j < length os"
  shows "set_selected False reset j True os = only j os"
    "i < j \<Longrightarrow> set_selected False reset i False (only j os) = only j os"
proof -
  show "set_selected False reset j True os = only j os"
    by (simp add: set_selected_def only_def unselected_def)
  assume i: "i < j"
  have "(only j os)[i := (only j os ! i)\<lparr>selected := False\<rparr>] = only j os"
    using i assms by (auto simp: only_def unselected_def list_eq_iff_nth_eq nth_list_update)
  moreover have "list_ex selected (only j os)"
    using assms by (auto simp: list_ex_length only_def intro!: exI [of _ j])
  ultimately show "set_selected False reset i False (only j os) = only j os"
    by (simp add: set_selected_def Let_def reset_select_def)
qed

lemma only_unselected: "unselected os = unselected os' \<Longrightarrow> j < length os \<Longrightarrow> only j os = only j os'"
proof -
  assume u: "unselected os = unselected os'" and j: "j < length os"
  have m: "(xs ! j)\<lparr>selected := True\<rparr> = (unselected xs ! j)\<lparr>selected := True\<rparr>" if "j < length xs" for xs
    using that by (simp add: unselected_def)
  have j': "j < length os'" using j arg_cong [OF u, of length] by simp
  show ?thesis unfolding only_def m [OF j] m [OF j'] u ..
qed

lemma set_loop_kept:
  assumes "i \<le> j" "j < length os" "\<forall>k < i. \<not> matches values (os ! k)"
  shows "fst (set_loop False reset values i (only j os) b) = only j os"
  using assms
proof (induction i)
  case (Suc i)
  have "option_get (only j os ! i) = option_get (os ! i)"
    using Suc.prems by (auto simp: only_def unselected_def nth_list_update)
  then show ?case using Suc only_set(2) [of j os i reset] by auto
qed simp

lemma set_loop_one:
  assumes "i \<le> length os" "j < i" "matches values (os ! j)" "\<forall>k < j. \<not> matches values (os ! k)"
  shows "fst (set_loop False reset values i os b) = only j os"
  using assms
proof (induction i arbitrary: os b)
  case (Suc i)
  have m: "matches values (set_selected False reset i x os ! k) \<longleftrightarrow> matches values (os ! k)" if "k \<le> i" for x k
    using that Suc.prems(1) by simp
  show ?case
  proof (cases "j = i")
    case True
    then show ?thesis
      using Suc.prems set_loop_kept [of i i os "values" reset True] only_set(1) [of i os reset] by simp
  next
    case False
    then have "fst (set_loop False reset values i (set_selected False reset i x os) b') = only j (set_selected False reset i x os)" for x b'
      using Suc.prems m by (intro Suc.IH) auto
    moreover have "only j (set_selected False reset i x os) = only j os" for x
      using Suc.prems by (intro only_unselected) auto
    ultimately show ?thesis by simp
  qed
qed simp

definition usable :: "opt \<Rightarrow> bool" where
  "usable o' \<longleftrightarrow> \<not> odisabled o' \<and> \<not> group_disabled o'"

lemma chosen_filter:
  "(\<forall>j < length os. i + int j = index \<longrightarrow> selected (os ! j)) \<Longrightarrow>
   chosen index i os = map option_get (filter (\<lambda>o'. selected o' \<and> usable o') os)"
proof (induction os arbitrary: i)
  case (Cons x os)
  have "\<forall>j < length os. i + 1 + int j = index \<longrightarrow> selected (os ! j)" using Cons.prems by fastforce
  then show ?case using Cons.IH [of "i + 1"] Cons.prems [rule_format, of 0] by (auto simp: usable_def)
qed simp

lemma selectedIndex_none: "\<not> list_ex selected (options c) \<Longrightarrow> select_get c = VNull"
proof -
  assume "\<not> list_ex selected (options c)"
  then have "selectedIndex c = -1" unfolding selectedIndex_def inArray_0_iff by (auto simp: list_ex_iff)
  then show ?thesis by (simp add: select_get_def Let_def)
qed

lemma selectedIndex_some:
  assumes "list_ex selected (options c)"
  shows "0 \<le> selectedIndex c" "nat (selectedIndex c) < length (options c)" "selected (options c ! nat (selectedIndex c))"
proof -
  have "True \<in> set (map selected (options c))" using assms by (auto simp: list_ex_iff)
  then have s: "selectedIndex c \<noteq> -1" unfolding selectedIndex_def inArray_0_iff by simp
  show "0 \<le> selectedIndex c" using inArray_found(4) [OF refl] s by (simp add: selectedIndex_def)
  have "nat (selectedIndex c) < length (map selected (options c))"
    using inArray_found(2) [OF refl s [unfolded selectedIndex_def]] by (simp add: selectedIndex_def)
  then show l: "nat (selectedIndex c) < length (options c)" by simp
  have "map selected (options c) ! nat (selectedIndex c)"
    using inArray_found(3) [OF refl s [unfolded selectedIndex_def]] by (simp add: selectedIndex_def)
  with l show "selected (options c ! nat (selectedIndex c))" by simp
qed

lemma select_get_many:
  assumes "list_ex selected (options c)" "ctype c \<noteq> ''select-one''"
  shows "select_get c = VArr (map option_get (filter (\<lambda>o'. selected o' \<and> usable o') (options c)))"
  using selectedIndex_some [OF assms(1)] assms(2)
  by (auto simp: select_get_def Let_def intro!: chosen_filter) (metis nat_int)

lemma select_get_one:
  assumes "options c = only j os" "j < length os" "ctype c = ''select-one''"
  shows "select_get c = (if usable (os ! j) then VStr (option_get (os ! j)) else VNull)"
proof -
  have ex: "list_ex selected (options c)" using assms by (auto simp: list_ex_length only_def intro!: exI [of _ j])
  note s = selectedIndex_some [OF ex]
  have sel: "nat (selectedIndex c) = j"
    using s(2,3) assms(1,2) by (auto simp: only_def unselected_def nth_list_update split: if_splits)
  then have i: "selectedIndex c = int j" using s(1) by simp
  have "drop j (take (Suc j) (options c)) = [options c ! j]"
    using s(2) sel by (simp add: take_Suc_conv_app_nth)
  moreover have "options c ! j = (os ! j)\<lparr>selected := True\<rparr>" using assms by (simp add: only_def)
  ultimately show ?thesis
    using i assms(3) by (simp add: select_get_def Let_def nat_add_distrib usable_def)
qed

text \<open>
  What is set in a select is read back.  A select with several choices reads the values of its
  usable options among those that were set, in the order of the options (null where no option
  matches); a select with one choice reads the value that was set when the first option with this
  value is usable, and null otherwise, whatever was selected before.
\<close>

theorem select_set_get:
  assumes "lower (nodeName c) = ''select''"
  shows "(ctype c = ''select-multiple'' \<longrightarrow>
      val_get checkOn (val_set checkOn reset (VMany (map SStr vs)) c) =
        (if list_ex (matches vs) (options c)
         then VArr (map option_get (filter (\<lambda>o'. matches vs o' \<and> usable o') (options c))) else VNull)) \<and>
    (ctype c = ''select-one'' \<longrightarrow>
      val_get checkOn (val_set checkOn reset (VOne (SStr v)) c) =
        (case List.find (matches [v]) (options c) of
           Some o' \<Rightarrow> if usable o' then VStr v else VNull
         | None \<Rightarrow> VNull))"
proof (intro conjI impI)
  let ?os = "options c"
  have get: "val_get checkOn (c\<lparr>options := os\<rparr>) = select_get (c\<lparr>options := os\<rparr>)"
    and set: "val_set checkOn reset (VMany (map SStr ws)) c = select_set reset ws c"
      "val_set checkOn reset (VOne (SStr v)) c = select_set reset [v] c"
    if "ctype c \<notin> {''radio'', ''checkbox''}" for os ws
    using assms that by (simp_all add: val_get_def val_set_def Let_def o_def)
  have none: "select_get (c\<lparr>options := map (\<lambda>o'. o'\<lparr>selected := False\<rparr>) os\<rparr>) = VNull" for os
    by (rule selectedIndex_none) (simp add: list_ex_iff)
  {
    assume m: "ctype c = ''select-multiple''"
    let ?new = "map (\<lambda>o'. o'\<lparr>selected := matches vs o'\<rparr>) ?os"
    have loop: "set_loop True reset vs (length ?os) ?os False = (?new, list_ex (matches vs) ?os)"
      using set_loop_multi [of "length ?os" ?os reset vs False] set_loop_flag [of "length ?os" ?os True reset vs False]
      by (simp add: prod_eq_iff)
    have "list_ex (matches vs) ?os \<Longrightarrow>
        select_get (c\<lparr>options := ?new\<rparr>) = VArr (map option_get (filter (\<lambda>o'. matches vs o' \<and> usable o') ?os))"
      using m select_get_many [of "c\<lparr>options := ?new\<rparr>"]
      by (simp add: list_ex_iff filter_map o_def usable_def)
    then show "val_get checkOn (val_set checkOn reset (VMany (map SStr vs)) c) =
        (if list_ex (matches vs) ?os then VArr (map option_get (filter (\<lambda>o'. matches vs o' \<and> usable o') ?os)) else VNull)"
      using m loop none get set(1) by (simp add: select_set_def del: map_map)
  next
    assume o: "ctype c = ''select-one''"
    have flag: "snd (set_loop False reset [v] (length ?os) ?os False) = list_ex (matches [v]) ?os"
      using set_loop_flag [of "length ?os" ?os False reset "[v]" False] by simp
    show "val_get checkOn (val_set checkOn reset (VOne (SStr v)) c) =
        (case List.find (matches [v]) ?os of Some o' \<Rightarrow> if usable o' then VStr v else VNull | None \<Rightarrow> VNull)"
    proof (cases "List.find (matches [v]) ?os")
      case None
      then have "\<not> list_ex (matches [v]) ?os" by (simp add: find_None_iff list_ex_iff)
      then show ?thesis using o flag none get set(2) None by (simp add: select_set_def case_prod_beta)
    next
      case (Some x)
      then obtain j where j: "j < length ?os" "matches [v] (?os ! j)" "x = ?os ! j" "\<forall>k < j. \<not> matches [v] (?os ! k)"
        by (auto simp: find_Some_iff)
      have "fst (set_loop False reset [v] (length ?os) ?os False) = only j ?os"
        using j by (intro set_loop_one) auto
      moreover have "list_ex (matches [v]) ?os" using j by (auto simp: list_ex_length)
      ultimately have "val_set checkOn reset (VOne (SStr v)) c = c\<lparr>options := only j ?os\<rparr>"
        using o flag set(2) by (simp add: select_set_def case_prod_beta)
      moreover have "option_get (?os ! j) = v" using j(2) by (simp add: matches_def)
      ultimately show ?thesis
        using o get select_get_one [of "c\<lparr>options := only j ?os\<rparr>" j ?os] j Some by simp
    qed
  }
qed

definition size_select :: control where
  "size_select = \<lparr>ctype = ''select-one'', nodeName = ''SELECT'', cname = ''size'', cvalue = Some ''s'', value_attr = None,
     checked = False, disabled = False,
     options = [\<lparr>oval = Some ''s'', otext = ''Small'', selected = True, odisabled = False, group_disabled = False\<rparr>,
       \<lparr>oval = None, otext = '' Large '', selected = False, odisabled = False, group_disabled = False\<rparr>]\<rparr>"

theorem select_set_get_witness:
  "val_get True (val_set True True (VOne (SStr ''Large'')) size_select) = VStr ''Large''"
proof -
  have "lower (nodeName size_select) = ''select''" "ctype size_select = ''select-one''" by code_simp+
  moreover have "List.find (matches [''Large'']) (options size_select) = Some (options size_select ! 1)" by code_simp
  moreover have "usable (options size_select ! 1)" by code_simp
  ultimately show ?thesis using select_set_get [of size_select True True "[]" "''Large''"] by simp
qed

text \<open>The pairs a form sends: the successful controls in document order, each with its values.\<close>

definition control_values :: "bool \<Rightarrow> control \<Rightarrow> string list" where
  "control_values checkOn c = (case val_get checkOn c of VNull \<Rightarrow> [] | VStr v \<Rightarrow> [v] | VArr vs \<Rightarrow> vs)"

definition members_controls :: "member list \<Rightarrow> control list" where
  "members_controls ms = concat (map (\<lambda>m. case m of Form cs \<Rightarrow> cs | Control c \<Rightarrow> [c]) ms)"

definition successful :: "bool \<Rightarrow> member list \<Rightarrow> entry list" where
  "successful checkOn ms =
     concat (map (\<lambda>c. map (\<lambda>v. (cname c, crlf v)) (control_values checkOn c)) (filter submits (members_controls ms)))"

lemma jq_map_enumerate: "jq_map (enumerate n xs) (\<lambda>x i. f x) = flat (map f xs)"
  unfolding jq_map_flat by (rule arg_cong [of _ _ flat], induction xs arbitrary: n) simp_all

lemma flat_One: "flat (map (\<lambda>v. One (f v)) vs) = map f vs"
  by (induction vs) simp_all

lemma flat_elements: "flat (map elements_of ms) = members_controls ms"
  by (induction ms) (auto simp: members_controls_def elements_of_def split: member.split)

lemma flat_pairs: "flat (map (pairs_of checkOn) cs) = concat (map (\<lambda>c. map (\<lambda>v. (cname c, crlf v)) (control_values checkOn c)) cs)"
  by (induction cs) (auto simp: pairs_of_def control_values_def jq_map_enumerate flat_One split: fval.split)

lemma serializeArray_successful: "serializeArray checkOn ms = successful checkOn ms"
  by (simp add: serializeArray_def successful_def jq_map_enumerate flat_elements flat_pairs)

text \<open>
  C20: a form arrives as it was filled in: reading the serialized form back gives the name and each
  value of each successful control (named, enabled, a form field that is no button, checked where
  it has to be), in document order, with its line breaks written as carriage return and line feed;
  and whatever is handed to \<open>param\<close>, what is read back is the list of its calls of \<open>add\<close>.
\<close>

theorem form_roundtrip:
  "parse_query (serialize checkOn traditional ms) = map (\<lambda>(k, v). (Some k, Some v)) (successful checkOn ms) \<and>
   parse_query (param traditional a) = map (\<lambda>(k, v). (Some k, Some (add_value v))) (param_calls traditional a)"
  by (simp add: serialize_def parse_param_calls param_calls_def serializeArray_successful add_value_def o_def case_prod_beta)

lemma takeWhile_render: "bare k \<Longrightarrow> takeWhile (\<lambda>c. c \<noteq> CHR ''['') (render k ks) = k"
proof -
  assume b: "bare k"
  have "takeWhile (\<lambda>c. c \<noteq> CHR ''['') (render k ks) = k @ takeWhile (\<lambda>c. c \<noteq> CHR ''['') (concat (map (\<lambda>k. ''['' @ k @ '']'') ks))"
    unfolding render_def by (rule takeWhile_append2) (use b in \<open>auto simp: bare_def\<close>)
  then show ?thesis by (cases ks) simp_all
qed

lemma fetch_bare: "nested v \<Longrightarrow> fetch ks v = Some x \<Longrightarrow> list_all bare ks"
proof (induction ks arbitrary: v)
  case (Cons k ks)
  then obtain ob where v: "v = PObj ob" by (cases v) auto
  with Cons.prems(2) obtain w where w: "map_of ob k = Some w" "fetch ks w = Some x" by (auto split: option.splits)
  from map_of_SomeD [OF w(1)] v Cons.prems(1) have "bare k" "nested w" by (auto simp: list_all_iff)
  with Cons.IH w(2) show ?case by simp
qed simp

lemma param_paths:
  assumes "nested (PObj ob)"
  shows "(k, x) \<in> set (param_calls False (Plain ob)) \<longleftrightarrow>
      (\<exists>k0 ks. fetch (k0 # ks) (PObj ob) = Some x \<and> \<not> is_obj x \<and> k = render k0 ks \<and> list_all bare (k0 # ks))"
    and "distinct (map fst (param_calls False (Plain ob)))"
proof -
  have n: "distinct (map fst ob)" "(k', v) \<in> set ob \<Longrightarrow> bare k' \<and> nested v" for k' v
    using assms by (auto simp: list_all_iff)
  have calls: "param_calls False (Plain ob') = concat (map (\<lambda>(k', v). buildParams False k' v) ob')" for ob'
    by (simp add: param_calls_def)
  show "(k, x) \<in> set (param_calls False (Plain ob)) \<longleftrightarrow>
      (\<exists>k0 ks. fetch (k0 # ks) (PObj ob) = Some x \<and> \<not> is_obj x \<and> k = render k0 ks \<and> list_all bare (k0 # ks))"
  proof -
    have "(k, x) \<in> set (param_calls False (Plain ob)) \<longleftrightarrow> (\<exists>(k0, v) \<in> set ob. (k, x) \<in> set (buildParams False k0 v))"
      by (auto simp: calls)
    also have "\<dots> \<longleftrightarrow> (\<exists>(k0, v) \<in> set ob. \<exists>ks. list_all bare ks \<and> fetch ks v = Some x \<and> \<not> is_obj x \<and> k = render k0 ks)"
      using n(2) by (intro bex_cong refl) (auto simp: build_paths)
    also have "\<dots> \<longleftrightarrow> (\<exists>k0 ks. fetch (k0 # ks) (PObj ob) = Some x \<and> \<not> is_obj x \<and> k = render k0 ks \<and> list_all bare (k0 # ks))"
    proof -
      have "fetch (k0 # ks) (PObj ob) = Some x \<longleftrightarrow> (\<exists>v. (k0, v) \<in> set ob \<and> fetch ks v = Some x)" for k0 ks
      proof -
        have "(k0, v) \<in> set ob \<longleftrightarrow> map_of ob k0 = Some v" for v using map_of_eq_Some_iff [OF n(1), of k0 v] by blast
        then show ?thesis by (cases "map_of ob k0") simp_all
      qed
      then show ?thesis using n(2) unfolding list.pred_inject by blast
    qed
    finally show ?thesis .
  qed
  have "distinct (map fst (param_calls False (Plain ob')))" if "set ob' \<subseteq> set ob" "distinct (map fst ob')" for ob'
    using that
  proof (induction ob')
    case (Cons kv ob')
    obtain k1 v1 where kv: "kv = (k1, v1)" by fastforce
    have "fst y \<noteq> fst z" if "y \<in> set (buildParams False k1 v1)" "(k2, v2) \<in> set ob'" "z \<in> set (buildParams False k2 v2)" for y z k2 v2
    proof -
      have in12: "(k1, v1) \<in> set ob" "(k2, v2) \<in> set ob" "k1 \<noteq> k2" using Cons.prems that kv by auto force
      have "takeWhile (\<lambda>c. c \<noteq> CHR ''['') (fst y) = k1" "takeWhile (\<lambda>c. c \<noteq> CHR ''['') (fst z) = k2"
        using that n(2) in12 build_paths [of v1 "fst y" "snd y" k1] build_paths [of v2 "fst z" "snd z" k2] takeWhile_render by auto
      then show ?thesis using in12 by auto
    qed
    moreover have "distinct (map fst (buildParams False k1 v1))" using build_distinct n(2) Cons.prems kv by auto
    ultimately show ?case using Cons kv by (fastforce simp: calls)
  qed (simp add: calls)
  from this [of ob] n(1) show "distinct (map fst (param_calls False (Plain ob)))" by simp
qed

text \<open>
  An object of objects survives as well: the value at each path (a key, then the keys inside) is
  read under the name \<open>key[inner]...\<close>, under which no other value is sent, and nothing else is sent.
\<close>

theorem param_nested:
  assumes "nested (PObj ob)" "fetch (k # ks) (PObj ob) = Some x" "\<not> is_obj x"
  shows "map_of (parse_query (param False (Plain ob))) (Some (render k ks)) = Some (Some (add_value x)) \<and>
    distinct (map fst (parse_query (param False (Plain ob))))"
proof -
  let ?calls = "param_calls False (Plain ob)"
  have read: "parse_query (param False (Plain ob)) = map (\<lambda>(k, v). (Some k, Some (add_value v))) ?calls"
    by (rule parse_param_calls)
  have "(render k ks, x) \<in> set ?calls" using param_paths(1) [OF assms(1)] assms(2,3) fetch_bare [OF assms(1,2)] by blast
  then have "(Some (render k ks), Some (add_value x)) \<in> set (parse_query (param False (Plain ob)))"
    unfolding read by force
  moreover have "distinct (map fst (parse_query (param False (Plain ob))))"
  proof -
    have "map fst (parse_query (param False (Plain ob))) = map Some (map fst ?calls)" by (simp add: read case_prod_beta)
    moreover have "distinct (map Some (map fst ?calls))"
      using param_paths(2) [OF assms(1)] unfolding distinct_map [of Some] by simp
    ultimately show ?thesis by (simp only:)
  qed
  ultimately show ?thesis by (intro conjI map_of_is_SomeI)
qed

theorem param_nested_witness:
  "map_of (parse_query (param False (Plain [(''a'', PObj [(''b'', PNum 1), (''c d'', PStr ''x&y'')])]))) (Some ''a[c d]'') = Some (Some ''x&y'')"
  using param_nested [of "[(''a'', PObj [(''b'', PNum 1), (''c d'', PStr ''x&y'')])]" "''a''" "[''c d'']" "PStr ''x&y''"]
  by (simp add: bare_def render_def add_value_def)

end
