(* ===== verification/JQ_Matcher.thy ===== *)
theory JQ_Matcher
  imports Complex_Main JQ_Traverse
begin

text \<open>
  The compiled selectors of Sizzle (\<^verbatim>\<open>jquery.js\<close>, lines 2092 to 2553): combinators that walk from an
  element to its ancestors or preceding siblings and cache what they find on the elements, the
  matcher of a compound selector, the compilation of a tokenized selector, the function that runs
  the matchers on elements, and \<open>select\<close>.  A filter token is a predicate on elements (the
  table \<open>Expr.filter\<close> and what it makes of the token's text are a parameter).  Positional filters
  and \<open>setMatcher\<close>, which they need, are not modelled.

  The cache is kept as the code keeps it: an element holds, for each direction, a reference to a
  record with the number of the run, the name of the combinator and a result, and all the elements
  that one walk has visited share one record.
\<close>

section \<open>State\<close>

datatype relative = Child | Desc | Adjacent | General    \<comment> \<open>\<open>>\<close>, space, \<open>+\<close> and \<open>~\<close>\<close>

definition rel_dir :: "relative \<Rightarrow> direction" where
  "rel_dir r = (if r \<in> {Child, Desc} then ParentNode else PreviousSibling)"

definition rel_first :: "relative \<Rightarrow> bool" where
  "rel_first r \<longleftrightarrow> r \<in> {Child, Adjacent}"

datatype 'f token = Rel relative | Filt 'f

text \<open>A context is a node or an array of nodes.\<close>

datatype contexts = OneNode node | Nodes "node list"

text \<open>\<open>outermostContext\<close>: undefined, false (where the context is the document), or a context.\<close>

datatype outermost = Undefined | NoContext | Outer contexts

record centry =
  run :: rat
  owner :: nat
  result :: "bool option"

record mstate =
  dirruns :: rat
  outermostContext :: outermost
  entries :: "nat \<Rightarrow> centry"
  fresh :: nat
  caches :: "node \<Rightarrow> direction \<Rightarrow> nat option"

type_synonym matcher = "contexts \<Rightarrow> bool \<Rightarrow> node \<Rightarrow> mstate \<Rightarrow> bool \<times> mstate"

definition set_result :: "nat \<Rightarrow> bool option \<Rightarrow> mstate \<Rightarrow> mstate" where
  "set_result c r s = s\<lparr>entries := (entries s)(c := (entries s c)\<lparr>result := r\<rparr>)\<rparr>"

section \<open>Combinators\<close>

text \<open>The loop of the first form: the closest element (or any node, where those count) decides.\<close>

function first_loop :: "dom_env \<Rightarrow> direction \<Rightarrow> bool \<Rightarrow> matcher \<Rightarrow> contexts \<Rightarrow> bool \<Rightarrow> node option \<Rightarrow> mstate \<Rightarrow> bool \<times> mstate" where
  "first_loop d dr nonElements m ctx xml None s = (False, s)"
| "first_loop d dr nonElements m ctx xml (Some elem) s =
     (if nodeType d elem = 1 \<or> nonElements then m ctx xml elem s
      else first_loop d dr nonElements m ctx xml (link d dr elem) s)"
  by pat_completeness auto
termination
  by (relation "measure (\<lambda>(d, dr, ne, m, ctx, xml, cur, s). case cur of None \<Rightarrow> 0 | Some n \<Rightarrow> Suc (steps_left d dr n))")
    (auto simp: link_steps split: option.split)

text \<open>The loop without a cache, for XML.\<close>

function xml_loop :: "dom_env \<Rightarrow> direction \<Rightarrow> bool \<Rightarrow> matcher \<Rightarrow> contexts \<Rightarrow> bool \<Rightarrow> node option \<Rightarrow> mstate \<Rightarrow> bool \<times> mstate" where
  "xml_loop d dr nonElements m ctx xml None s = (False, s)"
| "xml_loop d dr nonElements m ctx xml (Some elem) s =
     (if nodeType d elem = 1 \<or> nonElements
      then (case m ctx xml elem s of
              (True, s1) \<Rightarrow> (True, s1)
            | (False, s1) \<Rightarrow> xml_loop d dr nonElements m ctx xml (link d dr elem) s1)
      else xml_loop d dr nonElements m ctx xml (link d dr elem) s)"
  by pat_completeness auto
termination
  by (relation "measure (\<lambda>(d, dr, ne, m, ctx, xml, cur, s). case cur of None \<Rightarrow> 0 | Some n \<Rightarrow> Suc (steps_left d dr n))")
    (auto simp: link_steps split: option.split)

text \<open>The entry an element holds for a direction, if this run of this combinator has made it.\<close>

definition old_cache :: "node \<Rightarrow> direction \<Rightarrow> nat \<Rightarrow> mstate \<Rightarrow> nat option" where
  "old_cache elem dr doneName s =
     (case caches s elem dr of
        None \<Rightarrow> None
      | Some c \<Rightarrow> if run (entries s c) = dirruns s \<and> owner (entries s c) = doneName then Some c else None)"

text \<open>The loop with the cache; \<open>new\<close> is the entry \<open>newCache\<close> of this walk.\<close>

function cached_loop :: "dom_env \<Rightarrow> direction \<Rightarrow> bool \<Rightarrow> matcher \<Rightarrow> nat \<Rightarrow> nat \<Rightarrow> contexts \<Rightarrow> bool \<Rightarrow> node option \<Rightarrow> mstate \<Rightarrow> bool \<times> mstate" where
  "cached_loop d dr nonElements m doneName new ctx xml None s = (False, s)"
| "cached_loop d dr nonElements m doneName new ctx xml (Some elem) s =
     (if nodeType d elem = 1 \<or> nonElements
      then (case old_cache elem dr doneName s of
              Some c \<Rightarrow> (let r = result (entries s c) in (r = Some True, set_result new r s))
            | None \<Rightarrow>
                (case m ctx xml elem (s\<lparr>caches := (caches s)(elem := (caches s elem)(dr := Some new))\<rparr>) of
                   (True, s1) \<Rightarrow> (True, set_result new (Some True) s1)
                 | (False, s1) \<Rightarrow> cached_loop d dr nonElements m doneName new ctx xml (link d dr elem) (set_result new (Some False) s1)))
      else cached_loop d dr nonElements m doneName new ctx xml (link d dr elem) s)"
  by pat_completeness auto
termination
  by (relation "measure (\<lambda>(d, dr, ne, m, dn, new, ctx, xml, cur, s). case cur of None \<Rightarrow> 0 | Some n \<Rightarrow> Suc (steps_left d dr n))")
    (auto simp: link_steps split: option.split)

definition addCombinator :: "dom_env \<Rightarrow> matcher \<Rightarrow> relative \<Rightarrow> bool \<Rightarrow> nat \<Rightarrow> matcher" where
  "addCombinator d m r base doneName =
     (let dr = rel_dir r; checkNonElements = (base \<and> dr = ParentNode)
      in if rel_first r then (\<lambda>ctx xml elem s. first_loop d dr checkNonElements m ctx xml (link d dr elem) s)
         else (\<lambda>ctx xml elem s.
           if xml then xml_loop d dr checkNonElements m ctx xml (link d dr elem) s
           else cached_loop d dr checkNonElements m doneName (fresh s) ctx xml (link d dr elem)
             (s\<lparr>fresh := fresh s + 1, entries := (entries s)(fresh s := \<lparr>run = dirruns s, owner = doneName, result = None\<rparr>)\<rparr>)))"

fun all_from_last :: "matcher list \<Rightarrow> matcher" where
  "all_from_last [] ctx xml elem s = (True, s)"
| "all_from_last (m # ms) ctx xml elem s =
     (case m ctx xml elem s of (True, s1) \<Rightarrow> all_from_last ms ctx xml elem s1 | (False, s1) \<Rightarrow> (False, s1))"

definition elementMatcher :: "matcher list \<Rightarrow> matcher" where
  "elementMatcher matchers = (if 1 < length matchers then all_from_last (rev matchers) else hd matchers)"

section \<open>Compilation\<close>

text \<open>
  The foundational matcher: unless the selector begins with a combinator, nothing is to be checked
  in XML or when the context is not the outermost one; otherwise the element must be reachable from
  the context, or from one of its nodes.  \<open>names\<close> is the counter \<open>done\<close>.
\<close>

definition base_matcher :: "dom_env \<Rightarrow> relative option \<Rightarrow> nat \<Rightarrow> matcher" where
  "base_matcher d leadingRelative names =
     (let implicitRelative = (case leadingRelative of Some r \<Rightarrow> r | None \<Rightarrow> Desc);
          matchContext = addCombinator d (\<lambda>ctx xml elem s. (ctx = OneNode elem, s)) implicitRelative True names;
          matchAnyContext = addCombinator d (\<lambda>ctx xml elem s. (case ctx of Nodes ns \<Rightarrow> elem \<in> set ns | OneNode _ \<Rightarrow> False, s))
            implicitRelative True (names + 1)
      in (\<lambda>ctx xml elem s.
            if leadingRelative = None \<and> (xml \<or> outermostContext s \<noteq> Outer ctx) then (True, s)
            else case ctx of
                   OneNode _ \<Rightarrow> matchContext ctx xml elem s
                 | Nodes _ \<Rightarrow> matchAnyContext ctx xml elem s))"

fun compile_loop :: "dom_env \<Rightarrow> ('f \<Rightarrow> node \<Rightarrow> bool) \<Rightarrow> 'f token list \<Rightarrow> matcher list \<Rightarrow> nat \<Rightarrow> matcher \<times> nat" where
  "compile_loop d flt [] matchers names = (elementMatcher matchers, names)"
| "compile_loop d flt (Rel r # tokens) matchers names =
     compile_loop d flt tokens [addCombinator d (elementMatcher matchers) r False names] (names + 1)"
| "compile_loop d flt (Filt f # tokens) matchers names =
     compile_loop d flt tokens (matchers @ [\<lambda>ctx xml elem s. (flt f elem, s)]) names"

definition leading :: "'f token list \<Rightarrow> relative option" where
  "leading tokens = (case tokens of Rel r # _ \<Rightarrow> Some r | _ \<Rightarrow> None)"

definition matcherFromTokens :: "dom_env \<Rightarrow> ('f \<Rightarrow> node \<Rightarrow> bool) \<Rightarrow> 'f token list \<Rightarrow> nat \<Rightarrow> matcher \<times> nat" where
  "matcherFromTokens d flt tokens names =
     compile_loop d flt (if leading tokens = None then tokens else tl tokens) [base_matcher d (leading tokens) names] (names + 2)"

text \<open>The loop of \<open>compile\<close> over the groups (the parts between commas), from the last to the first.\<close>

fun compile_groups :: "dom_env \<Rightarrow> ('f \<Rightarrow> node \<Rightarrow> bool) \<Rightarrow> 'f token list list \<Rightarrow> nat \<Rightarrow> matcher list \<times> nat" where
  "compile_groups d flt [] names = ([], names)"
| "compile_groups d flt (g # gs) names =
     (case matcherFromTokens d flt g names of (m, names1) \<Rightarrow>
        case compile_groups d flt gs names1 of (ms, names2) \<Rightarrow> (m # ms, names2))"

definition compile :: "dom_env \<Rightarrow> ('f \<Rightarrow> node \<Rightarrow> bool) \<Rightarrow> 'f token list list \<Rightarrow> nat \<Rightarrow> matcher list \<times> nat" where
  "compile d flt match names = compile_groups d flt (rev match) names"

section \<open>Running\<close>

fun any_matcher :: "matcher list \<Rightarrow> matcher" where
  "any_matcher [] ctx xml elem s = (False, s)"
| "any_matcher (m # ms) ctx xml elem s =
     (case m ctx xml elem s of (True, s1) \<Rightarrow> (True, s1) | (False, s1) \<Rightarrow> any_matcher ms ctx xml elem s1)"

fun match_elems :: "matcher list \<Rightarrow> contexts \<Rightarrow> bool \<Rightarrow> bool \<Rightarrow> rat \<Rightarrow> node list \<Rightarrow> node list \<Rightarrow> mstate \<Rightarrow> node list \<times> mstate" where
  "match_elems ms ctx xml outermost dirrunsUnique [] results s = (results, s)"
| "match_elems ms ctx xml outermost dirrunsUnique (elem # els) results s =
     (case any_matcher ms ctx xml elem s of (b, s1) \<Rightarrow>
        match_elems ms ctx xml outermost dirrunsUnique els (if b then results @ [elem] else results)
          (if outermost then s1\<lparr>dirruns := dirrunsUnique\<rparr> else s1))"

text \<open>
  \<open>superMatcher\<close> where there are only element matchers: \<open>tags\<close> is \<open>Expr.find["TAG"]("*", ...)\<close>,
  \<open>random\<close> the value \<open>Math.random() || 0.1\<close>, \<open>outermost\<close> the last argument.
\<close>

definition superMatcher :: "dom_env \<Rightarrow> (contexts \<Rightarrow> node list) \<Rightarrow> rat \<Rightarrow> matcher list \<Rightarrow> node list option \<Rightarrow> contexts \<Rightarrow> bool \<Rightarrow> node list \<Rightarrow> contexts option \<Rightarrow> mstate \<Rightarrow> node list \<times> mstate" where
  "superMatcher d tags random ms seed ctx xml results outermost s =
     (let contextBackup = outermostContext s;
          els = (case seed of Some ns \<Rightarrow> ns
                   | None \<Rightarrow> if ms \<noteq> [] then (case outermost of Some o' \<Rightarrow> tags o' | None \<Rightarrow> []) else []);
          dirrunsUnique = dirruns s + (if contextBackup = Undefined then 1 else random);
          s1 = s\<lparr>dirruns := dirrunsUnique\<rparr>;
          s2 = (if outermost \<noteq> None
                then s1\<lparr>outermostContext := (if ctx = OneNode (doc_node d) then NoContext else Outer ctx)\<rparr> else s1)
      in case match_elems ms ctx xml (outermost \<noteq> None) dirrunsUnique els results s2 of
           (results1, s3) \<Rightarrow>
             (results1, if outermost \<noteq> None then s3\<lparr>dirruns := dirrunsUnique, outermostContext := contextBackup\<rparr> else s3))"

section \<open>The cache is right\<close>

text \<open>
  The truth table: what the result of an entry made by a combinator in this run has to be for each
  element that holds the entry.  A cache is valid for a table if all results are right, and a step
  is clean if it leaves the entries that exist as they are and puts on elements only new entries,
  of combinators of the table.
\<close>

type_synonym table = "nat \<Rightarrow> (node \<Rightarrow> bool) option"

definition valid :: "table \<Rightarrow> mstate \<Rightarrow> bool" where
  "valid T s \<longleftrightarrow> (\<forall>n dr c. caches s n dr = Some c \<longrightarrow> c < fresh s \<and> run (entries s c) \<le> dirruns s \<and>
     (\<forall>P. T (owner (entries s c)) = Some P \<and> run (entries s c) = dirruns s \<longrightarrow> result (entries s c) = Some (P n)))"

definition clean :: "table \<Rightarrow> mstate \<Rightarrow> mstate \<Rightarrow> bool" where
  "clean T s s' \<longleftrightarrow> dirruns s' = dirruns s \<and> outermostContext s' = outermostContext s \<and> fresh s \<le> fresh s' \<and>
     (\<forall>c < fresh s. entries s' c = entries s c) \<and>
     (\<forall>n dr. caches s' n dr = caches s n dr \<or>
        (\<exists>c. caches s' n dr = Some c \<and> fresh s \<le> c \<and> c < fresh s' \<and> owner (entries s' c) \<in> dom T))"

text \<open>A matcher is sound if it answers what it should and keeps the cache valid, with clean steps.\<close>

definition sound :: "table \<Rightarrow> contexts \<Rightarrow> bool \<Rightarrow> outermost \<Rightarrow> matcher \<Rightarrow> (node \<Rightarrow> bool) \<Rightarrow> bool" where
  "sound T ctx xml oc m t \<longleftrightarrow>
     (\<forall>s e. valid T s \<and> outermostContext s = oc \<longrightarrow>
        fst (m ctx xml e s) = t e \<and> valid T (snd (m ctx xml e s)) \<and> clean T s (snd (m ctx xml e s)))"

lemma soundD:
  assumes "sound T ctx xml oc m t" "valid T s" "outermostContext s = oc" "m ctx xml e s = (b, s')"
  shows "b = t e" "valid T s'" "clean T s s'" "outermostContext s' = oc"
proof -
  have "fst (m ctx xml e s) = t e \<and> valid T (snd (m ctx xml e s)) \<and> clean T s (snd (m ctx xml e s))"
    using assms(1-3) unfolding sound_def by blast
  then show "b = t e" "valid T s'" "clean T s s'" using assms(4) by simp_all
  then show "outermostContext s' = oc" using assms(3) by (simp add: clean_def)
qed

lemma clean_refl: "clean T s s"
  by (simp add: clean_def)

lemma clean_trans:
  assumes "clean T s0 s1" "clean T s1 s2"
  shows "clean T s0 s2"
proof -
  have "caches s2 n dr = caches s0 n dr \<or>
      (\<exists>c. caches s2 n dr = Some c \<and> fresh s0 \<le> c \<and> c < fresh s2 \<and> owner (entries s2 c) \<in> dom T)" for n dr
  proof (cases "caches s2 n dr = caches s1 n dr")
    case True
    have "caches s1 n dr = caches s0 n dr \<or>
        (\<exists>c. caches s1 n dr = Some c \<and> fresh s0 \<le> c \<and> c < fresh s1 \<and> owner (entries s1 c) \<in> dom T)"
      using assms(1) unfolding clean_def by blast
    then show ?thesis using True assms(2) unfolding clean_def by (metis less_le_trans)
  next
    case False
    then obtain c where "caches s2 n dr = Some c" "fresh s1 \<le> c" "c < fresh s2" "owner (entries s2 c) \<in> dom T"
      using assms(2) unfolding clean_def by metis
    moreover have "fresh s0 \<le> fresh s1" using assms(1) by (simp add: clean_def)
    ultimately show ?thesis by auto
  qed
  moreover have "entries s2 c = entries s0 c" if "c < fresh s0" for c
    using that assms unfolding clean_def by (metis less_le_trans)
  ultimately show ?thesis using assms unfolding clean_def by (metis le_trans)
qed

lemma map_le_in: "T \<subseteq>\<^sub>m T' \<Longrightarrow> T k = Some P \<Longrightarrow> T' k = Some P"
  by (metis domI map_le_def)

lemma valid_mono: "valid T' s \<Longrightarrow> T \<subseteq>\<^sub>m T' \<Longrightarrow> valid T s"
  unfolding valid_def by (intro allI impI conjI) (blast, blast, elim conjE, frule (1) map_le_in, blast)

lemma sound_mono:
  assumes "sound T ctx xml oc m t" "T \<subseteq>\<^sub>m T'"
  shows "sound T' ctx xml oc m t"
  unfolding sound_def
proof (intro allI impI, elim conjE)
  fix s e
  assume v: "valid T' s" and oc: "outermostContext s = oc"
  obtain b s' where m: "m ctx xml e s = (b, s')" by fastforce
  note S = soundD [OF assms(1) valid_mono [OF v assms(2)] oc m]
  have c': "clean T' s s'"
  proof -
    have "x \<in> dom T \<Longrightarrow> x \<in> dom T'" for x using map_le_in [OF assms(2)] by blast
    then show ?thesis using S(3) unfolding clean_def by blast
  qed
  have "valid T' s'"
    unfolding valid_def
  proof (intro allI impI)
    fix n dr c
    assume p: "caches s' n dr = Some c"
    show "c < fresh s' \<and> run (entries s' c) \<le> dirruns s' \<and> (\<forall>P. T' (owner (entries s' c)) = Some P \<and> run (entries s' c) = dirruns s' \<longrightarrow> result (entries s' c) = Some (P n))"
    proof (cases "caches s n dr = Some c")
      case True
      then have "c < fresh s" "entries s' c = entries s c" "dirruns s' = dirruns s" "fresh s \<le> fresh s'"
        using v S(3) by (auto simp: valid_def clean_def)
      with True v show ?thesis unfolding valid_def by (metis less_le_trans)
    next
      case False
      then have o': "owner (entries s' c) \<in> dom T" using p S(3) unfolding clean_def by (metis option.inject)
      then have "T' (owner (entries s' c)) = T (owner (entries s' c))" using assms(2) by (simp add: map_le_def)
      with p S(2) show ?thesis unfolding valid_def by simp
    qed
  qed
  with S c' m show "fst (m ctx xml e s) = t e \<and> valid T' (snd (m ctx xml e s)) \<and> clean T' s (snd (m ctx xml e s))" by simp
qed

lemma sound_pure: "sound T ctx xml oc (\<lambda>ctx xml e s. (f ctx xml e, s)) (f ctx xml)"
  by (simp add: sound_def clean_refl)

section \<open>Combinators\<close>

text \<open>The nodes a combinator looks at, from a node on.\<close>

definition eligible :: "dom_env \<Rightarrow> direction \<Rightarrow> bool \<Rightarrow> node option \<Rightarrow> node list" where
  "eligible d dr nonElements cur = filter (\<lambda>n. nodeType d n = 1 \<or> nonElements) (walk d dr cur)"

lemma eligible_simps [simp]:
  "eligible d dr ne None = []"
  "eligible d dr ne (Some e) =
     (if nodeType d e = 1 \<or> ne then e # eligible d dr ne (link d dr e) else eligible d dr ne (link d dr e))"
  by (simp_all add: eligible_def)

lemma sound_first_loop:
  assumes "sound T ctx xml oc m t" "valid T s" "outermostContext s = oc" "first_loop d dr ne m ctx xml cur s = (b, s')"
  shows "b = (case eligible d dr ne cur of [] \<Rightarrow> False | x # _ \<Rightarrow> t x) \<and> valid T s' \<and> clean T s s'"
  using assms(4)
proof (induction d dr cur rule: walk.induct)
  case (2 d dr cur)
  then show ?case using soundD [OF assms(1-3), of cur b s'] by (auto split: if_splits)
qed (use assms(2) in \<open>simp add: clean_refl\<close>)

lemma sound_xml_loop:
  assumes "sound T ctx xml oc m t" "valid T s" "outermostContext s = oc" "xml_loop d dr ne m ctx xml cur s = (b, s')"
  shows "b = (\<exists>x \<in> set (eligible d dr ne cur). t x) \<and> valid T s' \<and> clean T s s'"
  using assms(2-4)
proof (induction d dr cur arbitrary: s rule: walk.induct)
  case (2 d dr cur)
  show ?case
  proof (cases "nodeType d cur = 1 \<or> ne")
    case True
    obtain b1 s1 where m: "m ctx xml cur s = (b1, s1)" by fastforce
    note S = soundD [OF assms(1) "2.prems"(1,2) m]
    show ?thesis
    proof (cases b1)
      case True
      then show ?thesis using \<open>nodeType d cur = 1 \<or> ne\<close> S m "2.prems" by auto
    next
      case False
      have "b = (\<exists>x \<in> set (eligible d dr ne (link d dr cur)). t x) \<and> valid T s' \<and> clean T s1 s'"
        using "2.IH" [of s1] "2.prems" S(2,4) m False True by simp
      then show ?thesis using clean_trans [OF S(3)] S(1) False True by auto
    qed
  next
    case False
    then show ?thesis using 2 by simp
  qed
qed (simp add: clean_refl)

lemma walk_irrefl: "e \<notin> set (walk d dr (link d dr e))"
proof
  assume "e \<in> set (walk d dr (link d dr e))"
  moreover have "sorted_wrt (beyond dr) (walk d dr (Some e))" by (rule walk_beyond)
  ultimately have "beyond dr e e" by simp
  then show False by (simp add: beyond_def split: if_splits)
qed

lemma cleanI:
  assumes "dirruns s' = dirruns s" "outermostContext s' = outermostContext s" "fresh s \<le> fresh s'"
    and "\<And>c. c < fresh s \<Longrightarrow> entries s' c = entries s c"
    and "\<And>n dr. caches s' n dr \<noteq> caches s n dr \<Longrightarrow>
      \<exists>c. caches s' n dr = Some c \<and> fresh s \<le> c \<and> c < fresh s' \<and> owner (entries s' c) \<in> dom T"
  shows "clean T s s'"
  unfolding clean_def using assms by blast

lemma clean_more: "clean T s s' \<Longrightarrow> dom T \<subseteq> dom T' \<Longrightarrow> clean T' s s'"
  unfolding clean_def by blast

lemma clean_new:
  "clean T s s' \<Longrightarrow> caches s' n dr \<noteq> caches s n dr \<Longrightarrow>
   \<exists>c. caches s' n dr = Some c \<and> fresh s \<le> c \<and> c < fresh s' \<and> owner (entries s' c) \<in> dom T"
  unfolding clean_def by blast

lemma clean_same:
  assumes "clean T s s'"
  shows "dirruns s' = dirruns s" "outermostContext s' = outermostContext s" "fresh s \<le> fresh s'"
    "c < fresh s \<Longrightarrow> entries s' c = entries s c"
  using assms unfolding clean_def by blast+

lemma set_result_simps [simp]:
  "dirruns (set_result c r s) = dirruns s" "outermostContext (set_result c r s) = outermostContext s"
  "fresh (set_result c r s) = fresh s" "caches (set_result c r s) = caches s"
  "owner (entries (set_result c r s) c') = owner (entries s c')"
  "run (entries (set_result c r s) c') = run (entries s c')"
  "c' \<noteq> c \<Longrightarrow> entries (set_result c r s) c' = entries s c'"
  "result (entries (set_result c r s) c) = r"
  by (simp_all add: set_result_def)

text \<open>
  The invariant of the cached loop: \<open>k\<close> is the combinator, \<open>P\<close> its column of the table, \<open>new\<close> the
  entry of this walk, which began in state \<open>s0\<close>; the elements that hold it lie behind, and for
  them the answer is what is still to be found out.
\<close>

definition walking :: "table \<Rightarrow> nat \<Rightarrow> (node \<Rightarrow> bool) \<Rightarrow> nat \<Rightarrow> mstate \<Rightarrow> bool \<Rightarrow> node list \<Rightarrow> mstate \<Rightarrow> bool" where
  "walking T k P new s0 rest ahead s \<longleftrightarrow>
     valid T s \<and> clean (T(k \<mapsto> P)) s0 s \<and> fresh s0 \<le> new \<and> new < fresh s \<and>
     run (entries s new) = dirruns s \<and> owner (entries s new) = k \<and>
     (\<forall>n dr c. caches s n dr = Some c \<and> c \<noteq> new \<and> owner (entries s c) = k \<and> run (entries s c) = dirruns s \<longrightarrow>
        result (entries s c) = Some (P n)) \<and>
     (\<forall>n dr. caches s n dr = Some new \<longrightarrow> P n = rest \<and> n \<notin> set ahead)"

lemma walkingD:
  assumes "walking T k P new s0 rest ahead s"
  shows "valid T s" "clean (T(k \<mapsto> P)) s0 s" "fresh s0 \<le> new" "new < fresh s" "run (entries s new) = dirruns s"
    "owner (entries s new) = k"
    "caches s n dr = Some c \<Longrightarrow> c \<noteq> new \<Longrightarrow> owner (entries s c) = k \<Longrightarrow> run (entries s c) = dirruns s \<Longrightarrow> result (entries s c) = Some (P n)"
    "caches s n dr = Some new \<Longrightarrow> P n = rest \<and> n \<notin> set ahead"
  using assms unfolding walking_def by blast+

lemma validD: "valid T s \<Longrightarrow> caches s n dr = Some c \<Longrightarrow> c < fresh s"
  "valid T s \<Longrightarrow> caches s n dr = Some c \<Longrightarrow> run (entries s c) \<le> dirruns s"
  "valid T s \<Longrightarrow> caches s n dr = Some c \<Longrightarrow> T (owner (entries s c)) = Some P \<Longrightarrow> run (entries s c) = dirruns s \<Longrightarrow>
    result (entries s c) = Some (P n)"
  unfolding valid_def by blast+

lemma clean_set: "clean T s0 s \<Longrightarrow> fresh s0 \<le> c \<Longrightarrow> clean T s0 (set_result c r s)"
  by (rule cleanI) (simp_all add: clean_same clean_new)

lemma valid_set: "valid T s \<Longrightarrow> T (owner (entries s c)) = None \<Longrightarrow> valid T (set_result c r s)"
  unfolding valid_def by (metis option.distinct(1) set_result_simps(1,3-7))

lemma walking_set:
  assumes "walking T k P new s0 rest ahead s" "T k = None"
  shows "walking T k P new s0 rest ahead (set_result new r s)"
proof -
  note w = walkingD [OF assms(1)]
  show ?thesis
    unfolding walking_def set_result_simps
    using valid_set [OF w(1), of new r] clean_set [OF w(2,3), of r] w(3-8) w(6) assms(2) by auto
qed

text \<open>A walk that ends: the entry has the result, and everything that shares it agrees.\<close>

lemma walking_ends:
  assumes "walking T k P new s0 rest ahead s" "(\<exists>n dr. caches s n dr = Some new) \<Longrightarrow> result (entries s new) = Some rest"
  shows "valid (T(k \<mapsto> P)) s"
  unfolding valid_def
proof (intro allI impI conjI)
  note w = walkingD [OF assms(1)]
  fix n dr c
  assume p: "caches s n dr = Some c"
  show "c < fresh s" "run (entries s c) \<le> dirruns s" by (rule validD(1,2) [OF w(1) p])+
  fix Q
  assume Q: "(T(k \<mapsto> P)) (owner (entries s c)) = Some Q \<and> run (entries s c) = dirruns s"
  show "result (entries s c) = Some (Q n)"
  proof (cases "owner (entries s c) = k")
    case True
    then show ?thesis using assms(2) w(7,8) [of n dr] p Q by (cases "c = new") auto
  next
    case False
    then show ?thesis using validD(3) [OF w(1) p] Q by simp
  qed
qed

text \<open>One step: the entry is put on an element, and the matcher is asked.\<close>

abbreviation attach :: "node \<Rightarrow> direction \<Rightarrow> nat \<Rightarrow> mstate \<Rightarrow> mstate" where
  "attach e dr new s \<equiv> s\<lparr>caches := (caches s)(e := (caches s e)(dr := Some new))\<rparr>"

lemma attach_valid:
  assumes "walking T k P new s0 rest ahead s" "T k = None"
  shows "valid T (attach e dr new s)" "clean (T(k \<mapsto> P)) s0 (attach e dr new s)"
proof -
  note w = walkingD [OF assms(1)]
  show "valid T (attach e dr new s)"
    using w(1,4,5,6) assms(2) unfolding valid_def by auto
  show "clean (T(k \<mapsto> P)) s0 (attach e dr new s)"
  proof (rule cleanI)
    fix n dr'
    assume "caches (attach e dr new s) n dr' \<noteq> caches s0 n dr'"
    then have "n = e \<and> dr' = dr \<or> caches s n dr' \<noteq> caches s0 n dr' \<and> \<not> (n = e \<and> dr' = dr)" by (auto split: if_splits)
    then show "\<exists>c. caches (attach e dr new s) n dr' = Some c \<and> fresh s0 \<le> c \<and> c < fresh (attach e dr new s) \<and>
        owner (entries (attach e dr new s) c) \<in> dom (T(k \<mapsto> P))"
      using clean_new [OF w(2), of n dr'] w(3,4,6) by auto
  qed (use clean_same [OF w(2)] in simp_all)
qed

lemma walking_step:
  assumes "walking T k P new s0 rest (e # ahead) s" "T k = None"
    and "P e = rest" "valid T s2" "clean T (attach e dr new s) s2" "e \<notin> set ahead"
  shows "walking T k P new s0 rest ahead s2"
proof -
  let ?s1 = "attach e dr new s"
  note w = walkingD [OF assms(1)]
  note c = clean_same [OF assms(5), simplified]
  have new2: "caches s2 n dr' = caches ?s1 n dr'" if "caches s2 n dr' = Some c" "T (owner (entries s2 c)) = None \<or> c < fresh s" for n dr' c
  proof (rule ccontr)
    assume "caches s2 n dr' \<noteq> caches ?s1 n dr'"
    from clean_new [OF assms(5) this] that show False by auto
  qed
  have "clean (T(k \<mapsto> P)) ?s1 s2"
    by (rule clean_more [OF assms(5)]) auto
  then have cl: "clean (T(k \<mapsto> P)) s0 s2"
    using clean_trans attach_valid(2) [OF assms(1,2), of e dr] by blast
  have "result (entries s2 c) = Some (P n)"
    if p: "caches s2 n dr' = Some c" "c \<noteq> new" "owner (entries s2 c) = k" "run (entries s2 c) = dirruns s2" for n dr' c
  proof -
    have "caches s n dr' = Some c" using new2 [OF p(1)] p assms(2) by (auto split: if_splits)
    moreover from this have "entries s2 c = entries s c" using validD(1) [OF w(1)] c(4) by blast
    ultimately show ?thesis using w(7) p c(1) by metis
  qed
  moreover have "P n = rest \<and> n \<notin> set ahead" if p: "caches s2 n dr' = Some new" for n dr'
  proof -
    have "n = e \<or> caches s n dr' = Some new" using new2 [OF p] w(4) p by (auto split: if_splits)
    then show ?thesis using w(8) [of n dr'] assms(3,6) by auto
  qed
  ultimately show ?thesis
    using assms(4) cl w(3-6) c unfolding walking_def by auto
qed

lemma walking_skip: "walking T k P new s0 rest (e # ahead) s \<Longrightarrow> walking T k P new s0 rest ahead s"
  unfolding walking_def list.set by blast

lemma sound_cached_loop:
  assumes m: "sound T ctx xml oc m t" and k: "T k = None"
    and "\<And>n. P n \<longleftrightarrow> (\<exists>x \<in> set (eligible d dr ne (Some n)). t x)"
    and "walking T k P new s0 rest (walk d dr cur) s" "rest \<longleftrightarrow> (\<exists>x \<in> set (eligible d dr ne cur). t x)"
    and "outermostContext s = oc" "(\<exists>n dr. caches s n dr = Some new) \<Longrightarrow> result (entries s new) = Some False"
    and "cached_loop d dr ne m k new ctx xml cur s = (b, s')"
  shows "b = rest \<and> valid (T(k \<mapsto> P)) s' \<and> clean (T(k \<mapsto> P)) s0 s'"
  using assms(3-8)
proof (induction d dr cur arbitrary: s rest rule: walk.induct)
  case (1 d dr)
  then have r: "\<not> rest" "b = False" "s' = s" by simp_all
  then show ?case using walking_ends [OF "1.prems"(2)] "1.prems"(5) walkingD(2) [OF "1.prems"(2)] by (simp del: fun_upd_apply)
next
  case (2 d dr e)
  let ?ahead = "walk d dr (link d dr e)"
  have w: "walking T k P new s0 rest (e # ?ahead) s" using "2.prems"(2) by simp
  note W = walkingD [OF w]
  have step: "b = rest \<and> valid (T(k \<mapsto> P)) s' \<and> clean (T(k \<mapsto> P)) s0 s'"
    if "rest \<longleftrightarrow> (\<exists>x \<in> set (eligible d dr ne (link d dr e)). t x)"
      "walking T k P new s0 rest ?ahead s1" "outermostContext s1 = oc"
      "(\<exists>n dr. caches s1 n dr = Some new) \<Longrightarrow> result (entries s1 new) = Some False"
      "cached_loop d dr ne m k new ctx xml (link d dr e) s1 = (b, s')" for s1
    using "2.IH" [OF "2.prems"(1) that(2) that(1) that(3) that(4) that(5)] by blast
  show ?case
  proof (cases "nodeType d e = 1 \<or> ne")
    case False
    have "rest \<longleftrightarrow> (\<exists>x \<in> set (eligible d dr ne (link d dr e)). t x)" using "2.prems"(3) False by simp
    moreover have "cached_loop d dr ne m k new ctx xml (link d dr e) s = (b, s')" using "2.prems"(6) False by simp
    ultimately show ?thesis using step walking_skip [OF w] "2.prems"(4,5) by blast
  next
    case True
    have Pe: "P e = rest" using "2.prems"(1,3) by blast
    show ?thesis
    proof (cases "old_cache e dr k s")
      case (Some c)
      then have c: "caches s e dr = Some c" "run (entries s c) = dirruns s" "owner (entries s c) = k"
        by (auto simp: old_cache_def split: option.splits if_splits)
      have "c \<noteq> new" using W(8) [of e dr] c(1) by auto
      then have r: "result (entries s c) = Some rest" using W(7) [OF c(1)] c Pe by simp
      then have "b = rest" "s' = set_result new (Some rest) s" using "2.prems"(6) True Some by auto
      moreover have "walking T k P new s0 rest (e # ?ahead) (set_result new (Some rest) s)" by (rule walking_set [OF w k])
      ultimately show ?thesis using walking_ends walkingD(2) by (metis set_result_simps(8))
    next
      case None
      obtain b1 s2 where ms: "m ctx xml e (attach e dr new s) = (b1, s2)" by fastforce
      note S = soundD [OF m attach_valid(1) [OF w k] _ ms]
      have oc: "outermostContext (attach e dr new s) = oc" using "2.prems"(4) by simp
      have w2: "walking T k P new s0 rest ?ahead s2"
        by (rule walking_step [OF w k Pe S(2,3) [OF oc] walk_irrefl])
      have w3: "walking T k P new s0 rest ?ahead (set_result new r s2)" for r by (rule walking_set [OF w2 k])
      show ?thesis
      proof (cases b1)
        case b1: True
        have rest: "rest" using "2.prems"(3) True S(1) [OF oc] b1 by simp
        have "b = True" "s' = set_result new (Some True) s2" using "2.prems"(6) True None ms b1 by simp_all
        then show ?thesis using walking_ends [OF w3] walkingD(2) [OF w3] rest by (metis (full_types) set_result_simps(8))
      next
        case b1: False
        have "rest \<longleftrightarrow> (\<exists>x \<in> set (eligible d dr ne (link d dr e)). t x)"
          using "2.prems"(3) True S(1) [OF oc] b1 by simp
        moreover have "cached_loop d dr ne m k new ctx xml (link d dr e) (set_result new (Some False) s2) = (b, s')"
          using "2.prems"(6) True None ms b1 by simp
        ultimately show ?thesis using step [of "set_result new (Some False) s2"] w3 S(4) [OF oc] by (simp del: fun_upd_apply)
      qed
    qed
  qed
qed

text \<open>What a combinator answers, given what the matcher it asks answers.\<close>

definition reached :: "dom_env \<Rightarrow> relative \<Rightarrow> bool \<Rightarrow> (node \<Rightarrow> bool) \<Rightarrow> node \<Rightarrow> bool" where
  "reached d r base t e =
     (let ns = eligible d (rel_dir r) (base \<and> rel_dir r = ParentNode) (link d (rel_dir r) e)
      in if rel_first r then (case ns of [] \<Rightarrow> False | n # _ \<Rightarrow> t n) else list_ex t ns)"

lemma sound_addCombinator:
  assumes "sound T ctx xml oc m t" "T k = None"
  shows "\<exists>P. sound (T(k \<mapsto> P)) ctx xml oc (addCombinator d m r base k) (reached d r base t)"
proof -
  let ?dr = "rel_dir r" and ?ne = "base \<and> rel_dir r = ParentNode"
  define P where "P n \<longleftrightarrow> (\<exists>x \<in> set (eligible d ?dr ?ne (Some n)). t x)" for n
  have le: "T \<subseteq>\<^sub>m T(k \<mapsto> P)" using assms(2) by (auto simp: map_le_def)
  have "sound (T(k \<mapsto> P)) ctx xml oc (addCombinator d m r base k) (reached d r base t)"
    unfolding sound_def
  proof (intro allI impI, elim conjE)
    fix s e
    assume v: "valid (T(k \<mapsto> P)) s" and oc: "outermostContext s = oc"
    obtain b s' where run: "addCombinator d m r base k ctx xml e s = (b, s')" by fastforce
    note m' = sound_mono [OF assms(1) le]
    have "b = reached d r base t e \<and> valid (T(k \<mapsto> P)) s' \<and> clean (T(k \<mapsto> P)) s s'"
    proof (cases "rel_first r")
      case True
      then show ?thesis using sound_first_loop [OF m' v oc] run by (simp add: addCombinator_def reached_def Let_def)
    next
      case nf: False
      show ?thesis
      proof (cases xml)
        case True
        then show ?thesis using sound_xml_loop [OF m' v oc] run nf
          by (simp add: addCombinator_def reached_def Let_def list_ex_iff)
      next
        case False
        let ?s1 = "s\<lparr>fresh := fresh s + 1, entries := (entries s)(fresh s := \<lparr>run = dirruns s, owner = k, result = None\<rparr>)\<rparr>"
        have below: "caches s n dr = Some c \<Longrightarrow> c < fresh s" for n dr c using v by (auto simp: valid_def)
        have w: "walking T k P (fresh s) s (reached d r base t e) (walk d ?dr (link d ?dr e)) ?s1"
          unfolding walking_def
        proof (intro conjI allI impI)
          show "valid T ?s1" using valid_mono [OF v le] below unfolding valid_def by (fastforce simp: less_Suc_eq)
          show "clean (T(k \<mapsto> P)) s ?s1" by (rule cleanI) simp_all
        next
          fix n dr c
          assume "caches ?s1 n dr = Some c \<and> c \<noteq> fresh s \<and> owner (entries ?s1 c) = k \<and> run (entries ?s1 c) = dirruns ?s1"
          then show "result (entries ?s1 c) = Some (P n)" using validD(3) [OF v, of n dr c P] by auto
        next
          fix n dr
          assume "caches ?s1 n dr = Some (fresh s)"
          then have False using below by fastforce
          then show "P n = reached d r base t e" "n \<notin> set (walk d ?dr (link d ?dr e))" by blast+
        qed simp_all
        have r: "reached d r base t e \<longleftrightarrow> (\<exists>x \<in> set (eligible d ?dr ?ne (link d ?dr e)). t x)"
          using nf by (simp add: reached_def Let_def list_ex_iff)
        have run': "cached_loop d ?dr ?ne m k (fresh s) ctx xml (link d ?dr e) ?s1 = (b, s')"
          using run nf False by (simp add: addCombinator_def Let_def)
        have "\<not> (\<exists>n dr. caches ?s1 n dr = Some (fresh s))" using below by fastforce
        then show ?thesis using oc by (intro sound_cached_loop [OF assms P_def w r _ _ run']) (simp, blast)
      qed
    qed
    then show "fst (addCombinator d m r base k ctx xml e s) = reached d r base t e \<and>
        valid (T(k \<mapsto> P)) (snd (addCombinator d m r base k ctx xml e s)) \<and>
        clean (T(k \<mapsto> P)) s (snd (addCombinator d m r base k ctx xml e s))"
      using run by simp
  qed
  then show ?thesis by (rule exI [of _ P])
qed

section \<open>Compiled selectors\<close>

lemma sound_all:
  assumes "list_all2 (sound T ctx xml oc) ms ts" "valid T s" "outermostContext s = oc" "all_from_last ms ctx xml e s = (b, s')"
  shows "b = list_all (\<lambda>t. t e) ts \<and> valid T s' \<and> clean T s s'"
  using assms
proof (induction ms arbitrary: ts s)
  case (Cons m ms)
  then obtain t ts' where ts: "ts = t # ts'" "sound T ctx xml oc m t" "list_all2 (sound T ctx xml oc) ms ts'"
    by (auto simp: list_all2_Cons1)
  obtain b1 s1 where m: "m ctx xml e s = (b1, s1)" by fastforce
  note S = soundD [OF ts(2) Cons.prems(2,3) m]
  show ?case
  proof (cases b1)
    case True
    have "b = list_all (\<lambda>t. t e) ts' \<and> valid T s' \<and> clean T s1 s'"
      using Cons.IH [OF ts(3) S(2,4)] Cons.prems(4) m True by simp
    then show ?thesis using clean_trans [OF S(3)] S(1) True ts(1) by auto
  next
    case False
    then show ?thesis using S Cons.prems(4) m ts(1) by auto
  qed
qed (simp add: clean_refl)

lemma sound_elementMatcher:
  assumes "list_all2 (sound T ctx xml oc) ms ts" "ms \<noteq> []"
  shows "sound T ctx xml oc (elementMatcher ms) (\<lambda>e. list_all (\<lambda>t. t e) ts)"
proof (cases "1 < length ms")
  case True
  have "list_all2 (sound T ctx xml oc) (rev ms) (rev ts)" using assms(1) by simp
  from sound_all [OF this] show ?thesis using True unfolding sound_def elementMatcher_def
    by (auto simp: list_all_rev) (metis prod.collapse)+
next
  case False
  then obtain m where "ms = [m]" using assms(2) by (cases ms) auto
  then obtain t where "ts = [t]" "sound T ctx xml oc m t" using assms(1) by (auto simp: list_all2_Cons1)
  with \<open>ms = [m]\<close> show ?thesis by (simp add: elementMatcher_def)
qed

text \<open>The reference in the order of compilation.\<close>

fun chain_match :: "dom_env \<Rightarrow> ('f \<Rightarrow> node \<Rightarrow> bool) \<Rightarrow> 'f token list \<Rightarrow> (node \<Rightarrow> bool) \<Rightarrow> node \<Rightarrow> bool" where
  "chain_match d flt [] t = t"
| "chain_match d flt (Rel r # tokens) t = chain_match d flt tokens (reached d r False t)"
| "chain_match d flt (Filt f # tokens) t = chain_match d flt tokens (\<lambda>e. t e \<and> flt f e)"

lemma fresh_name: "dom T \<subseteq> {k0..<k :: nat} \<Longrightarrow> T k = None"
  by auto

lemma dom_update: "dom T \<subseteq> {k0..<k :: nat} \<Longrightarrow> k0 \<le> k \<Longrightarrow> T \<subseteq>\<^sub>m T(k \<mapsto> P) \<and> dom (T(k \<mapsto> P)) \<subseteq> {k0..<k + 1}"
  by (auto simp: map_le_def)

lemma sound_compile_loop:
  assumes "list_all2 (sound T ctx xml oc) ms ts" "ms \<noteq> []" "dom T \<subseteq> {k0..<names}" "k0 \<le> names"
    "compile_loop d flt tokens ms names = (m, names')"
  shows "\<exists>T'. T \<subseteq>\<^sub>m T' \<and> dom T' \<subseteq> {k0..<names'} \<and> names \<le> names' \<and>
    sound T' ctx xml oc m (chain_match d flt tokens (\<lambda>e. list_all (\<lambda>t. t e) ts))"
  using assms
proof (induction d flt tokens ms names arbitrary: T ts rule: compile_loop.induct)
  case (1 d flt matchers names)
  then show ?case using sound_elementMatcher [OF "1.prems"(1,2)] by (auto intro!: exI [of _ T])
next
  case (2 d flt r tokens matchers names)
  let ?t = "\<lambda>e. list_all (\<lambda>t. t e) ts"
  obtain P where "sound (T(names \<mapsto> P)) ctx xml oc (addCombinator d (elementMatcher matchers) r False names) (reached d r False ?t)"
    using sound_addCombinator [OF sound_elementMatcher [OF "2.prems"(1,2)] fresh_name [OF "2.prems"(3)]] by blast
  then obtain T1 where T1: "sound T1 ctx xml oc (addCombinator d (elementMatcher matchers) r False names) (reached d r False ?t)"
      "T \<subseteq>\<^sub>m T1" "dom T1 \<subseteq> {k0..<names + 1}"
    using dom_update [OF "2.prems"(3,4), of P] by blast
  then obtain T' where "T1 \<subseteq>\<^sub>m T'" "dom T' \<subseteq> {k0..<names'}" "names + 1 \<le> names'"
      "sound T' ctx xml oc m (chain_match d flt tokens (reached d r False ?t))"
    using "2.IH" [of T1 "[reached d r False ?t]"] "2.prems"(4,5) by auto
  with T1(2) show ?case by (auto intro!: exI [of _ T'] intro: map_le_trans)
next
  case (3 d flt f tokens matchers names)
  have "list_all2 (sound T ctx xml oc) (matchers @ [\<lambda>ctx xml elem s. (flt f elem, s)]) (ts @ [flt f])"
    using "3.prems"(1) sound_pure [of T ctx xml oc "\<lambda>_ _. flt f"] by (simp add: list_all2_appendI)
  from "3.IH" [OF this] show ?case using "3.prems" by simp
qed

text \<open>The elements in scope: below the context, or in the place the leading combinator says.\<close>

definition in_context :: "contexts \<Rightarrow> node \<Rightarrow> bool" where
  "in_context ctx n \<longleftrightarrow> (case ctx of OneNode c \<Rightarrow> c = n | Nodes ns \<Rightarrow> n \<in> set ns)"

definition scope :: "dom_env \<Rightarrow> relative option \<Rightarrow> contexts \<Rightarrow> bool \<Rightarrow> outermost \<Rightarrow> node \<Rightarrow> bool" where
  "scope d lead ctx xml oc e \<longleftrightarrow>
     lead = None \<and> (xml \<or> oc \<noteq> Outer ctx) \<or>
     reached d (case lead of Some r \<Rightarrow> r | None \<Rightarrow> Desc) True (in_context ctx) e"

lemma sound_base:
  fixes names :: nat
  shows "\<exists>T. dom T \<subseteq> {names..<names + 2} \<and> sound T ctx xml oc (base_matcher d lead names) (scope d lead ctx xml oc)"
proof -
  let ?r = "case lead of Some r \<Rightarrow> r | None \<Rightarrow> Desc"
  let ?one = "\<lambda>ctx xml elem s. (ctx = OneNode elem, s)" and ?any = "\<lambda>ctx xml elem s. (case ctx of Nodes ns \<Rightarrow> elem \<in> set ns | OneNode _ \<Rightarrow> False, s)"
  let ?k = "case ctx of OneNode _ \<Rightarrow> names | Nodes _ \<Rightarrow> names + 1" and ?m = "case ctx of OneNode _ \<Rightarrow> ?one | Nodes _ \<Rightarrow> ?any"
  have "sound Map.empty ctx xml oc ?m (in_context ctx)"
    by (cases ctx) (auto simp: sound_def clean_refl in_context_def)
  then obtain P where P: "sound [?k \<mapsto> P] ctx xml oc (addCombinator d ?m ?r True ?k) (reached d ?r True (in_context ctx))"
    using sound_addCombinator by fastforce
  have "sound [?k \<mapsto> P] ctx xml oc (base_matcher d lead names) (scope d lead ctx xml oc)"
    unfolding sound_def
  proof (intro allI impI, elim conjE)
    fix s e
    assume v: "valid [?k \<mapsto> P] s" "outermostContext s = oc"
    let ?b = "base_matcher d lead names ctx xml e s"
    show "fst ?b = scope d lead ctx xml oc e \<and> valid [?k \<mapsto> P] (snd ?b) \<and> clean [?k \<mapsto> P] s (snd ?b)"
    proof (cases "lead = None \<and> (xml \<or> oc \<noteq> Outer ctx)")
      case True
      then show ?thesis using v by (simp add: base_matcher_def Let_def scope_def clean_refl)
    next
      case False
      then have "?b = addCombinator d ?m ?r True ?k ctx xml e s"
        using v(2) by (auto simp: base_matcher_def Let_def split: contexts.split)
      moreover have "scope d lead ctx xml oc e = reached d ?r True (in_context ctx) e" using False unfolding scope_def by blast
      ultimately show ?thesis using P v unfolding sound_def by simp
    qed
  qed
  then show ?thesis by (intro exI [of _ "[?k \<mapsto> P]"]) (auto split: contexts.split)
qed

lemma chain_snoc: "chain_match d flt (xs @ [x]) t = chain_match d flt [x] (chain_match d flt xs t)"
  by (induction d flt xs t rule: chain_match.induct) (cases x; simp)+

lemma sound_matcherFromTokens:
  assumes "matcherFromTokens d flt tokens names = (m, names')"
  shows "\<exists>T. dom T \<subseteq> {names..<names'} \<and> names \<le> names' \<and>
    sound T ctx xml oc m (chain_match d flt (if leading tokens = None then tokens else tl tokens) (scope d (leading tokens) ctx xml oc))"
proof -
  let ?toks = "if leading tokens = None then tokens else tl tokens"
  obtain T where T: "dom T \<subseteq> {names..<names + 2}" "sound T ctx xml oc (base_matcher d (leading tokens) names) (scope d (leading tokens) ctx xml oc)"
    using sound_base by blast
  have "list_all2 (sound T ctx xml oc) [base_matcher d (leading tokens) names] [scope d (leading tokens) ctx xml oc]"
    using T(2) by simp
  from sound_compile_loop [OF this _ T(1) _ assms [unfolded matcherFromTokens_def]]
  obtain T' where "dom T' \<subseteq> {names..<names'}" "names + 2 \<le> names'"
      "sound T' ctx xml oc m (chain_match d flt ?toks (scope d (leading tokens) ctx xml oc))"
    by auto
  then show ?thesis by (intro exI [of _ T']) simp
qed

lemma sound_compile_groups:
  assumes "compile_groups d flt gs names = (ms, names')"
  shows "\<exists>T. dom T \<subseteq> {names..<names'} \<and> names \<le> names' \<and>
    list_all2 (sound T ctx xml oc) ms
      (map (\<lambda>g. chain_match d flt (if leading g = None then g else tl g) (scope d (leading g) ctx xml oc)) gs)"
  using assms
proof (induction gs arbitrary: names ms)
  case Nil
  then show ?case by (auto intro!: exI [of _ Map.empty])
next
  case (Cons g gs)
  obtain m names1 where g: "matcherFromTokens d flt g names = (m, names1)" by fastforce
  obtain ms' where gs: "compile_groups d flt gs names1 = (ms', names')" "ms = m # ms'"
    using Cons.prems g by (auto split: prod.splits)
  let ?t = "\<lambda>g. chain_match d flt (if leading g = None then g else tl g) (scope d (leading g) ctx xml oc)"
  obtain T1 where T1: "dom T1 \<subseteq> {names..<names1}" "names \<le> names1" "sound T1 ctx xml oc m (?t g)"
    using sound_matcherFromTokens [OF g] by blast
  obtain T2 where T2: "dom T2 \<subseteq> {names1..<names'}" "names1 \<le> names'" "list_all2 (sound T2 ctx xml oc) ms' (map ?t gs)"
    using Cons.IH [OF gs(1)] by blast
  have "dom T1 \<inter> dom T2 = {}" using T1(1) T2(1) by fastforce
  then have le: "T1 \<subseteq>\<^sub>m T1 ++ T2" "T2 \<subseteq>\<^sub>m T1 ++ T2"
    by (metis map_add_comm map_le_map_add) (rule map_le_map_add)
  have "list_all2 (sound (T1 ++ T2) ctx xml oc) ms' (map ?t gs)"
    by (rule list_all2_mono [OF T2(3)]) (rule sound_mono [OF _ le(2)])
  then have "list_all2 (sound (T1 ++ T2) ctx xml oc) ms (map ?t (g # gs))"
    using sound_mono [OF T1(3) le(1)] gs(2) by simp
  moreover have "dom (T1 ++ T2) \<subseteq> {names..<names'}" using T1(1,2) T2(1,2) by fastforce
  ultimately show ?case using T1(2) T2(2) by (intro exI [of _ "T1 ++ T2"]) auto
qed

lemma sound_any:
  assumes "list_all2 (sound T ctx xml oc) ms ts" "valid T s" "outermostContext s = oc" "any_matcher ms ctx xml e s = (b, s')"
  shows "b = list_ex (\<lambda>t. t e) ts \<and> valid T s' \<and> clean T s s'"
  using assms
proof (induction ms arbitrary: ts s)
  case (Cons m ms)
  then obtain t ts' where ts: "ts = t # ts'" "sound T ctx xml oc m t" "list_all2 (sound T ctx xml oc) ms ts'"
    by (auto simp: list_all2_Cons1)
  obtain b1 s1 where m: "m ctx xml e s = (b1, s1)" by fastforce
  note S = soundD [OF ts(2) Cons.prems(2,3) m]
  show ?case
  proof (cases b1)
    case False
    have "b = list_ex (\<lambda>t. t e) ts' \<and> valid T s' \<and> clean T s1 s'"
      using Cons.IH [OF ts(3) S(2,4)] Cons.prems(4) m False by simp
    then show ?thesis using clean_trans [OF S(3)] S(1) False ts(1) by auto
  next
    case True
    then show ?thesis using S Cons.prems(4) m ts(1) by auto
  qed
qed (simp add: clean_refl)

lemma match_elems_sound:
  assumes "list_all2 (sound T ctx xml oc) ms ts" "valid T s" "outermostContext s = oc" "dirruns s = u"
    "match_elems ms ctx xml om u els results s = (results', s')"
  shows "results' = results @ filter (\<lambda>e. list_ex (\<lambda>t. t e) ts) els \<and> valid T s' \<and> clean T s s'"
  using assms(2-5)
proof (induction els arbitrary: results s)
  case (Cons e els)
  obtain b s1 where m: "any_matcher ms ctx xml e s = (b, s1)" by fastforce
  have S: "b = list_ex (\<lambda>t. t e) ts" "valid T s1" "clean T s s1"
    using sound_any [OF assms(1) Cons.prems(1,2) m] by simp_all
  then have c: "outermostContext s1 = oc" "dirruns s1 = u" using Cons.prems by (simp_all add: clean_def)
  then have "s1\<lparr>dirruns := u\<rparr> = s1" by simp
  then have "match_elems ms ctx xml om u els (if b then results @ [e] else results) s1 = (results', s')"
    using Cons.prems(4) m by (cases om) simp_all
  from Cons.IH [OF S(2) c this] show ?case using clean_trans [OF S(3)] S(1) by auto
qed (simp add: clean_refl)

text \<open>Between the runs: the entries on the elements were made, and by runs up to the last one.\<close>

definition store_ok :: "mstate \<Rightarrow> bool" where
  "store_ok s \<longleftrightarrow> (\<forall>n dr c. caches s n dr = Some c \<longrightarrow> c < fresh s \<and> run (entries s c) \<le> dirruns s)"

lemma valid_store: "valid T s \<Longrightarrow> store_ok s"
  unfolding valid_def store_ok_def by blast

lemma store_valid: "store_ok s \<Longrightarrow> dirruns s < u \<Longrightarrow> valid T (s\<lparr>dirruns := u, outermostContext := oc\<rparr>)"
  unfolding valid_def store_ok_def by (fastforce intro: order_trans)

lemma store_valid': "store_ok s \<Longrightarrow> dirruns s < u \<Longrightarrow> valid T (s\<lparr>dirruns := u\<rparr>)"
  using store_valid [of s u T "outermostContext s"] by simp

section \<open>What a selector means\<close>

text \<open>
  The reference: the combinators as relations between nodes, and a selector read from its last
  token to its first.  The relation of a combinator holds for elements; towards the context (\<open>base\<close>)
  also for other ancestors.
\<close>

definition precedes :: "node \<Rightarrow> node \<Rightarrow> bool" where
  "precedes a b \<longleftrightarrow> tree a = tree b \<and> path a \<noteq> [] \<and> path b \<noteq> [] \<and> butlast (path a) = butlast (path b) \<and> last (path a) < last (path b)"

definition related :: "dom_env \<Rightarrow> relative \<Rightarrow> bool \<Rightarrow> node \<Rightarrow> node \<Rightarrow> bool" where
  "related d r base a e =
     (case r of
        Child \<Rightarrow> parentNode e = Some a \<and> (nodeType d a = 1 \<or> base)
      | Desc \<Rightarrow> inside a e \<and> (nodeType d a = 1 \<or> base)
      | General \<Rightarrow> precedes a e \<and> nodeType d a = 1
      | Adjacent \<Rightarrow> precedes a e \<and> nodeType d a = 1 \<and> (\<forall>b. precedes a b \<and> precedes b e \<longrightarrow> nodeType d b \<noteq> 1))"

fun matches_right :: "dom_env \<Rightarrow> ('f \<Rightarrow> node \<Rightarrow> bool) \<Rightarrow> (node \<Rightarrow> bool) \<Rightarrow> 'f token list \<Rightarrow> node \<Rightarrow> bool" where
  "matches_right d flt start [] e = start e"
| "matches_right d flt start (Filt f # tokens) e = (flt f e \<and> matches_right d flt start tokens e)"
| "matches_right d flt start (Rel r # tokens) e = (\<exists>a. related d r False a e \<and> matches_right d flt start tokens a)"

definition starts :: "dom_env \<Rightarrow> relative option \<Rightarrow> contexts \<Rightarrow> bool \<Rightarrow> node \<Rightarrow> bool" where
  "starts d lead ctx xml e =
     (case lead of
        Some r \<Rightarrow> (\<exists>c. in_context ctx c \<and> related d r True c e)
      | None \<Rightarrow> xml \<or> ctx = OneNode (doc_node d) \<or> (\<exists>c. in_context ctx c \<and> inside c e))"

definition selected :: "dom_env \<Rightarrow> ('f \<Rightarrow> node \<Rightarrow> bool) \<Rightarrow> 'f token list \<Rightarrow> contexts \<Rightarrow> bool \<Rightarrow> node \<Rightarrow> bool" where
  "selected d flt tokens ctx xml e \<longleftrightarrow>
     matches_right d flt (starts d (leading tokens) ctx xml) (rev (if leading tokens = None then tokens else tl tokens)) e"

text \<open>Only a document or a fragment is no element and has children.\<close>

definition tree_ok :: "dom_env \<Rightarrow> bool" where
  "tree_ok d \<longleftrightarrow> (\<forall>n. childCount d n > 0 \<and> nodeType d n \<noteq> 1 \<longrightarrow> path n = [])"

lemma precedes_child: "precedes a (child p j) \<longleftrightarrow> (\<exists>i < j. a = child p i)"
proof
  assume "precedes a (child p j)"
  then have "a = child p (last (path a)) \<and> last (path a) < j"
    by (cases a; cases p) (auto simp: precedes_def child_def)
  then show "\<exists>i < j. a = child p i" by blast
qed (auto simp: precedes_def child_def)

lemma eligible_prev:
  "set (eligible d PreviousSibling ne (link d PreviousSibling e)) = {a. precedes a e \<and> (nodeType d a = 1 \<or> ne)}"
proof (cases "parentNode e")
  case None
  then have "path e = []" by (simp add: parentNode_def split: if_splits)
  then show ?thesis using None by (simp add: eligible_def link_def previousSibling_def precedes_def)
next
  case (Some p)
  then obtain j where "e = child p j" by (auto simp: parentNode_Some)
  then show ?thesis using prev_walk [of d p j] by (auto simp: eligible_def link_def precedes_child)
qed

lemma eligible_up:
  "set (eligible d ParentNode ne (link d ParentNode e)) = {a. inside a e \<and> (nodeType d a = 1 \<or> ne)}"
  by (auto simp: eligible_def link_def walk_parents)

lemma eligible_sorted: "sorted_wrt (beyond dr) (eligible d dr ne cur)"
  unfolding eligible_def by (rule sorted_wrt_filter [OF walk_beyond])

lemma eligible_first_child:
  assumes "tree_ok d" "in_doc d e"
  shows "(case eligible d ParentNode ne (link d ParentNode e) of [] \<Rightarrow> False | a # _ \<Rightarrow> t a) \<longleftrightarrow>
    (\<exists>a. parentNode e = Some a \<and> (nodeType d a = 1 \<or> ne) \<and> t a)"
proof (cases "parentNode e")
  case None
  then show ?thesis by (simp add: link_def)
next
  case (Some p)
  have "nodeType d p = 1 \<or> link d ParentNode p = None"
  proof -
    obtain k where k: "e = child p k" using Some by (auto simp: parentNode_Some)
    have "k < childCount d p"
    proof -
      have "path e ! length (path p) < childCount d (Node (tree e) (take (length (path p)) (path e)))"
        using assms(2) k unfolding in_doc_def by (metis length_append_singleton lessI path_child(1))
      then show ?thesis using k by (cases p) (simp add: child_def nth_append)
    qed
    then show ?thesis using assms(1) by (cases "nodeType d p = 1") (auto simp: tree_ok_def link_def parentNode_def)
  qed
  then show ?thesis using Some by (auto simp: link_def)
qed

lemma eligible_first_prev:
  "(case eligible d PreviousSibling ne (link d PreviousSibling e) of [] \<Rightarrow> False | a # _ \<Rightarrow> t a) \<longleftrightarrow>
    (\<exists>a. precedes a e \<and> (nodeType d a = 1 \<or> ne) \<and> (\<forall>b. precedes a b \<and> precedes b e \<longrightarrow> \<not> (nodeType d b = 1 \<or> ne)) \<and> t a)"
proof -
  let ?ns = "eligible d PreviousSibling ne (link d PreviousSibling e)"
  have s: "sorted_wrt (\<lambda>a b. b < a) ?ns" proof -
    have "beyond PreviousSibling = (\<lambda>a b. b < a)" by (simp add: fun_eq_iff beyond_def)
    then show ?thesis using eligible_sorted [of PreviousSibling d ne] by simp
  qed
  have some_child: "\<exists>p j. b = child p j" if "precedes a b" for a b
    using that by (metis parentNode_Some parentNode_def precedes_def)
  have lt: "a < b" if "precedes a b" for a b using some_child [OF that] that by (auto simp: precedes_child)
  have tot: "a = b \<or> precedes a b \<or> precedes b a" if "precedes a e" "precedes b e" for a b
  proof -
    note ab = that
    have "\<exists>p j. e = child p j" by (rule some_child [OF that(1)])
    then obtain p j where e: "e = child p j" by blast
    then have "\<exists>i i'. a = child p i \<and> b = child p i'" using ab by (auto simp: precedes_child)
    then obtain i i' where "a = child p i" "b = child p i'" by blast
    then show ?thesis by (auto simp: precedes_child)
  qed
  show ?thesis
  proof (cases ?ns)
    case Nil
    then have "{a. precedes a e \<and> (nodeType d a = 1 \<or> ne)} = {}" using eligible_prev [of d ne e] by simp
    then show ?thesis using Nil by auto
  next
    case (Cons x xs)
    have x: "precedes x e" "nodeType d x = 1 \<or> ne" using eligible_prev [of d ne e] Cons by auto
    have first: "\<not> precedes x b" if "precedes b e" "nodeType d b = 1 \<or> ne" for b
    proof
      assume xb: "precedes x b"
      have "b \<in> set (x # xs)" using eligible_prev [of d ne e] Cons that by auto
      then have "b = x \<or> b < x" using s Cons by auto
      then show False using lt [OF xb] by auto
    qed
    have u: "a = x" if "precedes a e" "nodeType d a = 1 \<or> ne" "\<forall>b. precedes a b \<and> precedes b e \<longrightarrow> \<not> (nodeType d b = 1 \<or> ne)" for a
      using tot [OF that(1) x(1)] first [OF that(1,2)] that(3) x by blast
    have f: "\<forall>b. precedes x b \<and> precedes b e \<longrightarrow> \<not> (nodeType d b = 1 \<or> ne)" using first by blast
    have "(\<exists>a. precedes a e \<and> (nodeType d a = 1 \<or> ne) \<and> (\<forall>b. precedes a b \<and> precedes b e \<longrightarrow> \<not> (nodeType d b = 1 \<or> ne)) \<and> t a) \<longleftrightarrow> t x"
    proof
      assume "\<exists>a. precedes a e \<and> (nodeType d a = 1 \<or> ne) \<and> (\<forall>b. precedes a b \<and> precedes b e \<longrightarrow> \<not> (nodeType d b = 1 \<or> ne)) \<and> t a"
      then obtain a where "precedes a e" "nodeType d a = 1 \<or> ne" "\<forall>b. precedes a b \<and> precedes b e \<longrightarrow> \<not> (nodeType d b = 1 \<or> ne)" "t a" by blast
      with u show "t x" by blast
    qed (intro exI [of _ x] conjI x f)
    then show ?thesis using Cons by simp
  qed
qed

lemma reached_related:
  assumes "tree_ok d" "in_doc d e"
  shows "reached d r base t e \<longleftrightarrow> (\<exists>a. related d r base a e \<and> t a)"
proof (cases r)
  case Child
  then show ?thesis using eligible_first_child [OF assms] by (simp add: reached_def rel_dir_def rel_first_def related_def)
next
  case Desc
  then show ?thesis using eligible_up [of d base e] by (auto simp: reached_def rel_dir_def rel_first_def related_def list_ex_iff)
next
  case Adjacent
  then show ?thesis using eligible_first_prev [where d = d and ne = False and e = e and t = t] by (simp add: reached_def rel_dir_def rel_first_def related_def)
next
  case General
  then show ?thesis using eligible_prev [of d False e] by (auto simp: reached_def rel_dir_def rel_first_def related_def list_ex_iff)
qed

lemma in_doc_precedes: "in_doc d e \<Longrightarrow> precedes a e \<Longrightarrow> in_doc d a"
proof -
  assume e: "in_doc d e" and a: "precedes a e"
  then obtain p j where p: "e = child p j" by (metis parentNode_Some parentNode_def precedes_def)
  with a obtain i where i: "a = child p i" "i < j" by (auto simp: precedes_child)
  show "in_doc d a" using e i p by (simp add: in_doc_child)
qed

lemma in_doc_related: "in_doc d e \<Longrightarrow> related d r base a e \<Longrightarrow> in_doc d a"
  by (auto simp: related_def intro: in_doc_parent in_doc_inside in_doc_precedes split: relative.splits)

lemma chain_matches:
  assumes "tree_ok d" "in_doc d e"
  shows "chain_match d flt tokens t e \<longleftrightarrow> matches_right d flt t (rev tokens) e"
  using assms(2)
proof (induction tokens arbitrary: e rule: rev_induct)
  case (snoc x xs)
  show ?case
  proof (cases x)
    case (Rel r)
    then show ?thesis
      using reached_related [OF assms(1) snoc.prems, of r False "chain_match d flt xs t"] snoc.IH in_doc_related [OF snoc.prems]
      by (auto simp: chain_snoc [of d flt xs])
  next
    case (Filt f)
    then show ?thesis using snoc by (auto simp: chain_snoc [of d flt xs])
  qed
qed simp

lemma scope_starts:
  assumes "tree_ok d" "in_doc d e"
  shows "scope d lead ctx xml (if ctx = OneNode (doc_node d) then NoContext else Outer ctx) e \<longleftrightarrow> starts d lead ctx xml e"
proof (cases lead)
  case None
  have "reached d Desc True (in_context ctx) e \<longleftrightarrow> (\<exists>c. in_context ctx c \<and> inside c e)"
    using reached_related [OF assms, of Desc True "in_context ctx"] by (auto simp: related_def)
  then show ?thesis using None by (auto simp: scope_def starts_def)
next
  case (Some r)
  then show ?thesis using reached_related [OF assms, of r True "in_context ctx"] by (auto simp: scope_def starts_def)
qed

text \<open>
  C21: the compiled matchers with their caches select exactly what the selector means: in every run,
  whatever earlier runs (of this or of other selectors, with any context) have left on the elements,
  the elements selected are those for which a group of the selector, read as a relation between
  nodes, holds, in their order; and the caches are left in a state for which this holds again.
\<close>

theorem compiled_selector_correct:
  assumes "tree_ok d" "\<forall>e \<in> set els. in_doc d e" "store_ok s" "0 < random"
    and "compile d flt match names = (ms, names')"
    and "superMatcher d tags random ms (Some els) ctx xml results (Some outer) s = (results', s')"
  shows "results' = results @ filter (\<lambda>e. \<exists>g \<in> set match. selected d flt g ctx xml e) els \<and> store_ok s'"
proof -
  let ?oc = "if ctx = OneNode (doc_node d) then NoContext else Outer ctx"
  let ?u = "dirruns s + (if outermostContext s = Undefined then 1 else random)"
  let ?s = "s\<lparr>dirruns := ?u, outermostContext := ?oc\<rparr>"
  let ?t = "\<lambda>g. chain_match d flt (if leading g = None then g else tl g) (scope d (leading g) ctx xml ?oc)"
  obtain T where T: "list_all2 (sound T ctx xml ?oc) ms (map ?t (rev match))"
    using sound_compile_groups assms(5) unfolding compile_def by blast
  have "valid T ?s" by (rule store_valid [OF assms(3)]) (use assms(4) in simp)
  moreover obtain s2 where run: "match_elems ms ctx xml True ?u els results ?s = (results', s2)"
      "s' = s2\<lparr>dirruns := ?u, outermostContext := outermostContext s\<rparr>"
    using assms(6) by (auto simp: superMatcher_def Let_def split: prod.splits)
  ultimately have r: "results' = results @ filter (\<lambda>e. list_ex (\<lambda>t. t e) (map ?t (rev match))) els" "valid T s2" "clean T ?s s2"
    using match_elems_sound [OF T, of ?s ?u True els results results' s2] by simp_all
  have "list_ex (\<lambda>t. t e) (map ?t (rev match)) \<longleftrightarrow> (\<exists>g \<in> set match. selected d flt g ctx xml e)" if "in_doc d e" for e
  proof -
    have "?t g e \<longleftrightarrow> selected d flt g ctx xml e" for g
    proof -
      have eq: "matches_right d flt a ts e = matches_right d flt b ts e" if "\<And>n. in_doc d n \<Longrightarrow> a n = b n" "in_doc d e" for a b ts e
        using that(2)
      proof (induction ts arbitrary: e)
        case Nil
        then show ?case using that(1) by simp
      next
        case (Cons x ts)
        then show ?case using in_doc_related [OF Cons.prems] by (cases x) auto
      qed
      show ?thesis unfolding chain_matches [OF assms(1) that] selected_def
        by (rule eq [OF scope_starts [OF assms(1)] that])
    qed
    then show ?thesis by (simp add: list_ex_iff)
  qed
  then have "results' = results @ filter (\<lambda>e. \<exists>g \<in> set match. selected d flt g ctx xml e) els"
    using r(1) assms(2) by (simp cong: filter_cong)
  moreover have "s' = s2\<lparr>outermostContext := outermostContext s\<rparr>" using run(2) r(3) by (simp add: clean_def)
  then have "store_ok s'" using valid_store [OF r(2)] by (simp add: store_ok_def)
  ultimately show ?thesis ..
qed

definition no_caches :: mstate where
  "no_caches = \<lparr>dirruns = 0, outermostContext = Undefined, entries = (\<lambda>_. \<lparr>run = 0, owner = 0, result = None\<rparr>), fresh = 0, caches = (\<lambda>_ _. None)\<rparr>"

text \<open>The selector \<open>.first + *\<close> on the three children of the small page.\<close>

theorem compiled_selector_correct_witness:
  "fst (superMatcher small_page (\<lambda>_. []) 1
     (fst (compile small_page (\<lambda>f n. f \<longrightarrow> n = Node 0 [0, 0]) [[Filt True, Rel Adjacent, Filt False]] 0))
     (Some [Node 0 [0, 0], Node 0 [0, 1], Node 0 [0, 2]]) (OneNode (Node 0 [])) False [] (Some (OneNode (Node 0 []))) no_caches)
   = [Node 0 [0, 1]]"
proof -
  let ?flt = "\<lambda>f n. f \<longrightarrow> n = Node 0 [0, 0]" and ?sel = "[[Filt True, Rel Adjacent, Filt False]]"
  let ?els = "[Node 0 [0, 0], Node 0 [0, 1], Node 0 [0, 2]]" and ?ctx = "OneNode (Node 0 [])"
  obtain ms k where c: "compile small_page ?flt ?sel 0 = (ms, k)" by fastforce
  obtain r s where run: "superMatcher small_page (\<lambda>_. []) 1 ms (Some ?els) ?ctx False [] (Some ?ctx) no_caches = (r, s)" by fastforce
  have doc: "doc_node small_page = Node 0 []" by (simp add: doc_node_def small_page_fields)
  have "tree_ok small_page" by (simp add: tree_ok_def small_page_fields)
  moreover have "\<forall>e \<in> set ?els. in_doc small_page e" using small_page_in(1) [of 0] small_page_in(1) [of 1] small_page_in(1) [of 2] by simp
  moreover have "store_ok no_caches" by (simp add: store_ok_def no_caches_def)
  ultimately have r: "r = filter (\<lambda>e. \<exists>g \<in> set ?sel. selected small_page ?flt g ?ctx False e) ?els"
    using compiled_selector_correct [OF _ _ _ _ c run] by simp
  have sel: "selected small_page ?flt [Filt True, Rel Adjacent, Filt False] ?ctx False e \<longleftrightarrow>
      related small_page Adjacent False (Node 0 [0, 0]) e" for e
    by (auto simp: selected_def leading_def starts_def doc)
  have "related small_page Adjacent False (Node 0 [0, 0]) (Node 0 [0, 1])"
    by (auto simp: related_def precedes_def small_page_fields)
  moreover have "\<not> related small_page Adjacent False (Node 0 [0, 0]) (Node 0 [0, 0])"
    by (simp add: related_def precedes_def)
  moreover have "\<not> related small_page Adjacent False (Node 0 [0, 0]) (Node 0 [0, 2])"
    by (auto simp: related_def precedes_def small_page_fields intro!: exI [of _ "Node 0 [0, 1]"])
  ultimately show ?thesis using c run r sel by simp
qed

end
