(* ===== verification/JQ_Event.thy ===== *)
theory JQ_Event
  imports JQ_Tree JQ_Core "HOL-Library.Char_ord"
begin

text \<open>
  The event registry (\<^verbatim>\<open>jquery.js\<close>, lines 4249 to 4469, 4806 to 4830, 4893 to 4900 and 5130 to
  5268): what \<open>on\<close>, \<open>one\<close> and \<open>off\<close> do to the handler lists of the elements, to the
  listeners the browser calls, and to the special events, and what \<open>proxy\<close> (532 to 555) does to the
  numbers that tell functions apart.  Types are not names that every object
  has (\<open>toString\<close>), and a name space is literal text (the code builds a pattern from it, which
  would read \<open>+\<close> or \<open>[\<close> in one as an operator).
\<close>

datatype target = Elem node | Window

text \<open>
  A function object: one of the page (a proxy that \<open>jQuery.proxy\<close> makes for the page is one too),
  jQuery's own \<open>returnFalse\<close>, or a wrapper that \<open>one\<close> makes around another (the wrappers of one
  function differ in nothing that the code looks at).
\<close>

datatype fn = Fn nat | ReturnFalse | Wrap (orig: fn)

record 'v hobj =
  h_type :: string
  h_origType :: string
  h_data :: "'v option"
  h_handler :: fn
  h_guid :: nat
  h_selector :: "string option"
  h_needsContext :: bool
  h_namespace :: string

text \<open>The object a caller passes instead of a function: every property but the handler may be missing.\<close>

record 'v hobj_in =
  in_handler :: fn
  in_type :: "string option"
  in_origType :: "string option"
  in_data :: "'v option"
  in_guid :: "nat option"
  in_selector :: "string option"
  in_needsContext :: "bool option"
  in_namespace :: "string option"

record 'v hlist =
  hs :: "'v hobj list"
  delegateCount :: int

text \<open>
  The private data \<open>events\<close> and \<open>handle\<close> of each target, the types the browser calls the handle
  for, the counts and the capturing listeners of \<open>focusin\<close> and \<open>focusout\<close> on a document, the
  numbers given to functions, and the types ever used.
\<close>

record 'v evs =
  events :: "target \<Rightarrow> (string \<times> 'v hlist) list option"
  handle :: "target \<Rightarrow> bool"
  listeners :: "target \<Rightarrow> string list"
  attaches :: "target \<Rightarrow> string \<Rightarrow> int option"
  captures :: "target \<Rightarrow> string list"
  fguid :: "fn \<Rightarrow> nat option"
  guid :: nat
  global :: "string \<Rightarrow> bool"

text \<open>A special event.  A hook says whether it returned \<open>false\<close>.\<close>

record 'v special =
  bindType :: "string option"
  delegateType :: "string option"
  noBubble :: bool
  setupHook :: "(target \<Rightarrow> 'v evs \<Rightarrow> bool \<times> 'v evs) option"
  teardownHook :: "(target \<Rightarrow> 'v evs \<Rightarrow> bool \<times> 'v evs) option"
  sp_add :: "(target \<Rightarrow> 'v hobj \<Rightarrow> 'v evs \<Rightarrow> 'v hobj \<times> 'v evs) option"
  sp_remove :: "(target \<Rightarrow> 'v hobj \<Rightarrow> 'v evs \<Rightarrow> 'v evs) option"

type_synonym 'v specials = "string \<Rightarrow> 'v special option"

text \<open>The page: elements that take no data, owner documents, and the browser's \<open>focusin\<close>.\<close>

record ev_env = dom_env +
  noDataElem :: "node \<Rightarrow> bool"
  ownerDocument :: "node \<Rightarrow> node"
  focusinBubbles :: bool
  needsContext :: "string \<Rightarrow> bool"

definition acceptData :: "ev_env \<Rightarrow> target \<Rightarrow> bool" where
  "acceptData d e =
     (case e of
        Window \<Rightarrow> True
      | Elem n \<Rightarrow> (nodeType d n = 1 \<or> nodeType d n = 9) \<and> \<not> noDataElem d n)"

section \<open>Event names\<close>

definition split_types :: "string \<Rightarrow> string list" where
  "split_types types = (case words types of [] \<Rightarrow> [''''] | ws \<Rightarrow> ws)"

text \<open>
  \<open>rtypenamespace\<close>: the type before the first dot and what follows the dot.  A name that ends
  in its only dot does not match; then, and when nothing is before the dot, there is no type.
\<close>

definition rtypenamespace :: "string \<Rightarrow> (string \<times> string option) option" where
  "rtypenamespace w =
     (case dropWhile (\<lambda>c. c \<noteq> CHR ''.'') w of
        [] \<Rightarrow> Some (w, None)
      | [_] \<Rightarrow> None
      | _ # ns \<Rightarrow> Some (takeWhile (\<lambda>c. c \<noteq> CHR ''.'') w, Some ns))"

definition ev_type :: "string \<Rightarrow> string" where
  "ev_type w = (case rtypenamespace w of Some (ty, _) \<Rightarrow> ty | None \<Rightarrow> '''')"

definition ev_ns :: "string \<Rightarrow> string option" where
  "ev_ns w = (case rtypenamespace w of Some (_, ns) \<Rightarrow> ns | None \<Rightarrow> None)"

definition namespaces :: "string \<Rightarrow> string list" where
  "namespaces w = sort (split_str ''.'' (case ev_ns w of Some ns \<Rightarrow> ns | None \<Rightarrow> ''''))"

text \<open>
  The pattern made from sorted name spaces, on a handler's name space string: each is a whole
  word of it, in order, with any words between.
\<close>

definition ns_test :: "string list \<Rightarrow> string \<Rightarrow> bool" where
  "ns_test nss s = subseq nss (split_str ''.'' s)"

definition some_text :: "string option \<Rightarrow> bool" where
  "some_text s = (case s of Some (_ # _) \<Rightarrow> True | _ \<Rightarrow> False)"

definition or_else :: "'a option \<Rightarrow> 'a \<Rightarrow> 'a" where
  "or_else x y = (case x of Some z \<Rightarrow> z | None \<Rightarrow> y)"

section \<open>Special events\<close>

definition no_special :: "'v special" where
  "no_special = \<lparr>bindType = None, delegateType = None, noBubble = False, setupHook = None, teardownHook = None, sp_add = None, sp_remove = None\<rparr>"

definition special_of :: "'v specials \<Rightarrow> string \<Rightarrow> 'v special" where
  "special_of tab ty = or_else (tab ty) no_special"

definition mapped_type :: "'v specials \<Rightarrow> string option \<Rightarrow> string \<Rightarrow> string" where
  "mapped_type tab sel ty =
     or_else (if some_text sel then delegateType (special_of tab ty) else bindType (special_of tab ty)) ty"

definition doc_of :: "ev_env \<Rightarrow> target \<Rightarrow> target" where
  "doc_of d e = (case e of Window \<Rightarrow> Window | Elem n \<Rightarrow> if nodeType d n = 9 then Elem n else Elem (ownerDocument d n))"

text \<open>The first user of \<open>focusin\<close> in a document puts a capturing listener on it, the last takes it off.\<close>

definition focus_setup :: "ev_env \<Rightarrow> string \<Rightarrow> string \<Rightarrow> target \<Rightarrow> 'v evs \<Rightarrow> bool \<times> 'v evs" where
  "focus_setup d org fix_ty e s =
     (let doc = doc_of d e; n = or_else (attaches s doc fix_ty) 0;
          s1 = (if n = 0 then s\<lparr>captures := (captures s)(doc := List.insert org (captures s doc))\<rparr> else s)
      in (False, s1\<lparr>attaches := (attaches s1)(doc := (attaches s1 doc)(fix_ty := Some (n + 1)))\<rparr>))"

text \<open>Without a count the difference is not a number, which is falsy like zero.\<close>

definition focus_teardown :: "ev_env \<Rightarrow> string \<Rightarrow> string \<Rightarrow> target \<Rightarrow> 'v evs \<Rightarrow> bool \<times> 'v evs" where
  "focus_teardown d org fix_ty e s =
     (let doc = doc_of d e; n = or_else (attaches s doc fix_ty) 1 - 1
      in (False,
          if n = 0
          then s\<lparr>captures := (captures s)(doc := removeAll org (captures s doc)),
                 attaches := (attaches s)(doc := (attaches s doc)(fix_ty := None))\<rparr>
          else s\<lparr>attaches := (attaches s)(doc := (attaches s doc)(fix_ty := Some n))\<rparr>))"

definition focus_special :: "ev_env \<Rightarrow> string \<Rightarrow> string \<Rightarrow> 'v special" where
  "focus_special d org fix_ty = no_special\<lparr>setupHook := Some (focus_setup d org fix_ty), teardownHook := Some (focus_teardown d org fix_ty)\<rparr>"

definition enter_special :: "string \<Rightarrow> 'v special" where
  "enter_special fix_ty = no_special\<lparr>bindType := Some fix_ty, delegateType := Some fix_ty\<rparr>"

definition core_specials :: "ev_env \<Rightarrow> 'v specials" where
  "core_specials d = map_of
     ([(''load'', no_special\<lparr>noBubble := True\<rparr>),
       (''focus'', no_special\<lparr>delegateType := Some ''focusin''\<rparr>),
       (''blur'', no_special\<lparr>delegateType := Some ''focusout''\<rparr>),
       (''click'', no_special),
       (''beforeunload'', no_special),
       (''mouseenter'', enter_special ''mouseover''),
       (''mouseleave'', enter_special ''mouseout''),
       (''pointerenter'', enter_special ''pointerover''),
       (''pointerleave'', enter_special ''pointerout'')] @
      (if focusinBubbles d then []
       else [(''focusin'', focus_special d ''focus'' ''focusin''),
             (''focusout'', focus_special d ''blur'' ''focusout'')]))"

section \<open>Binding\<close>

definition splice_in :: "int \<Rightarrow> 'a \<Rightarrow> 'a list \<Rightarrow> 'a list" where
  "splice_in k x xs =
     (let i = (if k < 0 then nat (int (length xs) + k) else nat k) in take i xs @ x # drop i xs)"

definition handlers_at :: "'v evs \<Rightarrow> target \<Rightarrow> string \<Rightarrow> 'v hlist option" where
  "handlers_at s e ty = (case events s e of None \<Rightarrow> None | Some evl \<Rightarrow> oget evl ty)"

definition put_handlers :: "target \<Rightarrow> string \<Rightarrow> 'v hlist \<Rightarrow> 'v evs \<Rightarrow> 'v evs" where
  "put_handlers e ty hl s = s\<lparr>events := (events s)(e := Some (oset (or_else (events s e) []) ty hl))\<rparr>"

definition addListener :: "target \<Rightarrow> string \<Rightarrow> 'v evs \<Rightarrow> 'v evs" where
  "addListener e ty s = s\<lparr>listeners := (listeners s)(e := List.insert ty (listeners s e))\<rparr>"

definition removeEvent :: "target \<Rightarrow> string \<Rightarrow> 'v evs \<Rightarrow> 'v evs" where
  "removeEvent e ty s = s\<lparr>listeners := (listeners s)(e := removeAll ty (listeners s e))\<rparr>"

definition ensure_guid :: "fn \<Rightarrow> 'v evs \<Rightarrow> 'v evs" where
  "ensure_guid f s = (if fguid s f = None then s\<lparr>fguid := (fguid s)(f := Some (guid s)), guid := guid s + 1\<rparr> else s)"

definition extend_hobj :: "'v hobj_in option \<Rightarrow> 'v hobj \<Rightarrow> 'v hobj" where
  "extend_hobj hin h =
     (case hin of None \<Rightarrow> h
      | Some i \<Rightarrow>
          \<lparr>h_type = or_else (in_type i) (h_type h), h_origType = or_else (in_origType i) (h_origType h),
           h_data = (if in_data i = None then h_data h else in_data i), h_handler = in_handler i,
           h_guid = or_else (in_guid i) (h_guid h),
           h_selector = (if in_selector i = None then h_selector h else in_selector i),
           h_needsContext = or_else (in_needsContext i) (h_needsContext h),
           h_namespace = or_else (in_namespace i) (h_namespace h)\<rparr>)"

definition new_hobj :: "ev_env \<Rightarrow> 'v specials \<Rightarrow> 'v evs \<Rightarrow> fn \<Rightarrow> 'v option \<Rightarrow> string option \<Rightarrow> string \<Rightarrow> 'v hobj" where
  "new_hobj d tab s f data sel w =
     \<lparr>h_type = mapped_type tab sel (ev_type w), h_origType = ev_type w, h_data = data, h_handler = f,
      h_guid = or_else (fguid s f) 0, h_selector = sel,
      h_needsContext = (some_text sel \<and> needsContext d (or_else sel '''')),
      h_namespace = join ''.'' (namespaces w)\<rparr>"

definition init_handlers :: "'v special \<Rightarrow> target \<Rightarrow> string \<Rightarrow> 'v evs \<Rightarrow> 'v evs" where
  "init_handlers sp e ty s =
     (let s1 = put_handlers e ty \<lparr>hs = [], delegateCount = 0\<rparr> s
      in case setupHook sp of
           None \<Rightarrow> addListener e ty s1
         | Some hook \<Rightarrow> (case hook e s1 of (no, s2) \<Rightarrow> if no then addListener e ty s2 else s2))"

definition insert_hobj :: "bool \<Rightarrow> 'v hobj \<Rightarrow> 'v hlist \<Rightarrow> 'v hlist" where
  "insert_hobj dlg h hl =
     (if dlg then \<lparr>hs = splice_in (delegateCount hl) h (hs hl), delegateCount = delegateCount hl + 1\<rparr>
      else hl\<lparr>hs := hs hl @ [h]\<rparr>)"

definition call_add :: "'v special \<Rightarrow> target \<Rightarrow> fn \<Rightarrow> 'v hobj \<Rightarrow> 'v evs \<Rightarrow> 'v hobj \<times> 'v evs" where
  "call_add sp e f h s =
     (case sp_add sp of
        None \<Rightarrow> (h, s)
      | Some hook \<Rightarrow> (case hook e h s of (h', s') \<Rightarrow>
          (h', if fguid s' (h_handler h') = None then s'\<lparr>fguid := (fguid s')(h_handler h' := fguid s' f)\<rparr> else s')))"

definition add_type :: "ev_env \<Rightarrow> 'v specials \<Rightarrow> target \<Rightarrow> 'v hobj_in option \<Rightarrow> fn \<Rightarrow> 'v option \<Rightarrow> string option \<Rightarrow> string \<Rightarrow> 'v evs \<Rightarrow> 'v evs" where
  "add_type d tab e hin f data sel w s =
     (if ev_type w = '''' then s
      else let ty = mapped_type tab sel (ev_type w);
               sp = special_of tab ty;
               h = extend_hobj hin (new_hobj d tab s f data sel w);
               s1 = (if handlers_at s e ty = None then init_handlers sp e ty s else s)
           in case call_add sp e f h s1 of (h', s2) \<Rightarrow>
                let s3 = put_handlers e ty (insert_hobj (some_text sel) h' (or_else (handlers_at s2 e ty) \<lparr>hs = [], delegateCount = 0\<rparr>)) s2
                in s3\<lparr>global := (global s3)(ty := True)\<rparr>)"

datatype 'v hspec = Direct fn | Given "'v hobj_in"

fun event_add :: "ev_env \<Rightarrow> 'v specials \<Rightarrow> target \<Rightarrow> string \<Rightarrow> 'v hspec \<Rightarrow> 'v option \<Rightarrow> string option \<Rightarrow> 'v evs \<Rightarrow> 'v evs" where
  "event_add d tab e types spec data sel s =
     (if \<not> acceptData d e then s
      else let (hin, f, sl) = (case spec of Direct f \<Rightarrow> (None, f, sel) | Given i \<Rightarrow> (Some i, in_handler i, in_selector i));
               s1 = ensure_guid f s;
               s2 = (if events s1 e = None then s1\<lparr>events := (events s1)(e := Some [])\<rparr> else s1);
               s3 = (if handle s2 e then s2 else s2\<lparr>handle := (handle s2)(e := True)\<rparr>)
           in foldl (\<lambda>s w. add_type d tab e hin f data sl w s) s3 (rev (split_types types)))"

section \<open>Unbinding\<close>

text \<open>A call returns, or the stack is exhausted: the state is the one at the end of the call.\<close>

datatype 's run = Returns (after: 's) | RangeError (after: 's)

fun run_all :: "('x \<Rightarrow> 's \<Rightarrow> 's run) \<Rightarrow> 'x list \<Rightarrow> 's \<Rightarrow> 's run" where
  "run_all f [] s = Returns s"
| "run_all f (x # xs) s = (case f x s of Returns s' \<Rightarrow> run_all f xs s' | RangeError s' \<Rightarrow> RangeError s')"

definition matches_removal :: "'v evs \<Rightarrow> bool \<Rightarrow> string \<Rightarrow> fn option \<Rightarrow> string option \<Rightarrow> 'v hobj \<Rightarrow> bool" where
  "matches_removal s mappedTypes w f sel h \<longleftrightarrow>
     (mappedTypes \<or> ev_type w = h_origType h) \<and>
     (case f of None \<Rightarrow> True | Some g \<Rightarrow> fguid s g = Some (h_guid h)) \<and>
     (ev_ns w = None \<or> ns_test (namespaces w) (h_namespace h)) \<and>
     (\<not> some_text sel \<or> sel = h_selector h \<or> sel = Some ''**'' \<and> some_text (h_selector h))"

fun remove_loop :: "('v hobj \<Rightarrow> bool) \<Rightarrow> 'v special \<Rightarrow> target \<Rightarrow> string \<Rightarrow> nat \<Rightarrow> 'v evs \<Rightarrow> 'v evs" where
  "remove_loop P sp e ty 0 s = s"
| "remove_loop P sp e ty (Suc j) s =
     (case handlers_at s e ty of
        None \<Rightarrow> s
      | Some hl \<Rightarrow>
          let h = hs hl ! j;
              hl' = \<lparr>hs = splice_out j (hs hl),
                     delegateCount = (if some_text (h_selector h) then delegateCount hl - 1 else delegateCount hl)\<rparr>;
              s1 = put_handlers e ty hl' s
          in remove_loop P sp e ty j
               (if P h then (case sp_remove sp of None \<Rightarrow> s1 | Some hook \<Rightarrow> hook e h s1) else s))"

definition drop_type :: "'v special \<Rightarrow> target \<Rightarrow> string \<Rightarrow> 'v evs \<Rightarrow> 'v evs" where
  "drop_type sp e ty s =
     (let s1 = (case teardownHook sp of
                  None \<Rightarrow> removeEvent e ty s
                | Some hook \<Rightarrow> (case hook e s of (no, s') \<Rightarrow> if no then removeEvent e ty s' else s'))
      in s1\<lparr>events := (events s1)(e := map_option (\<lambda>evl. odel evl ty) (events s1 e))\<rparr>)"

definition remove_typed :: "'v specials \<Rightarrow> target \<Rightarrow> fn option \<Rightarrow> string option \<Rightarrow> bool \<Rightarrow> string \<Rightarrow> 'v evs \<Rightarrow> 'v evs" where
  "remove_typed tab e f sel mappedTypes w s =
     (let sp = special_of tab (ev_type w);
          ty = mapped_type tab sel (ev_type w)
      in case handlers_at s e ty of
           None \<Rightarrow> s
         | Some hl \<Rightarrow>
             let s1 = remove_loop (matches_removal s mappedTypes w f sel) sp e ty (length (hs hl)) s
             in if hs hl \<noteq> [] \<and> (case handlers_at s1 e ty of Some hl' \<Rightarrow> hs hl' = [] | None \<Rightarrow> True)
                then drop_type sp e ty s1 else s1)"

text \<open>The names of the events object, as the loop meets them: one that is gone by then is passed over.\<close>

definition remove_each :: "(string \<Rightarrow> 'v evs \<Rightarrow> 'v evs run) \<Rightarrow> target \<Rightarrow> string \<Rightarrow> 'v evs \<Rightarrow> 'v evs run" where
  "remove_each again e w s =
     run_all (\<lambda>ty s. if handlers_at s e ty = None then Returns s else again (ty @ w) s)
       (okeys (or_else (events s e) [])) s"

definition remove_word :: "(string \<Rightarrow> 'v evs \<Rightarrow> 'v evs run) \<Rightarrow> 'v specials \<Rightarrow> target \<Rightarrow> fn option \<Rightarrow> string option \<Rightarrow> bool \<Rightarrow> string \<Rightarrow> 'v evs \<Rightarrow> 'v evs run" where
  "remove_word again tab e f sel mappedTypes w s =
     (if ev_type w = '''' then remove_each again e w s
      else Returns (remove_typed tab e f sel mappedTypes w s))"

definition forget_empty :: "target \<Rightarrow> 'v evs \<Rightarrow> 'v evs" where
  "forget_empty e s =
     (if events s e = Some [] then s\<lparr>handle := (handle s)(e := False), events := (events s)(e := None)\<rparr> else s)"

text \<open>The number is the depth of the stack that is left; no stack, and the call raises.\<close>

primrec event_remove :: "nat \<Rightarrow> 'v specials \<Rightarrow> target \<Rightarrow> string \<Rightarrow> fn option \<Rightarrow> string option \<Rightarrow> bool \<Rightarrow> 'v evs \<Rightarrow> 'v evs run" where
  "event_remove 0 tab e types f sel mappedTypes s = RangeError s"
| "event_remove (Suc n) tab e types f sel mappedTypes s =
     (if events s e = None then Returns s
      else case run_all (remove_word (\<lambda>ty. event_remove n tab e ty f sel True) tab e f sel mappedTypes) (rev (split_types types)) s of
             RangeError s' \<Rightarrow> RangeError s'
           | Returns s' \<Rightarrow> Returns (forget_empty e s'))"

section \<open>The methods on and off\<close>

text \<open>
  What a page passes: nothing, a string, a function, \<open>false\<close>, or another value.  In the place of
  the function only nothing, \<open>false\<close> and functions are modelled; a selector is a string.
\<close>

datatype 'v arg = Undef | Null | Str string | Func fn | FalseArg | Val 'v

definition nullish :: "'v arg \<Rightarrow> bool" where
  "nullish a \<longleftrightarrow> a = Undef \<or> a = Null"

definition falsy :: "'v arg \<Rightarrow> bool" where
  "falsy a \<longleftrightarrow> nullish a \<or> a = FalseArg \<or> a = Str ''''"

definition as_selector :: "'v arg \<Rightarrow> string option" where
  "as_selector a = (case a of Str s \<Rightarrow> Some s | _ \<Rightarrow> None)"

definition as_data :: "'v arg \<Rightarrow> 'v arg option" where
  "as_data a = (if a = Undef then None else Some a)"

text \<open>The arguments of \<open>on\<close>, sorted out: selector, data and function.\<close>

definition on_args :: "'v arg \<Rightarrow> 'v arg \<Rightarrow> 'v arg \<Rightarrow> string option \<times> 'v arg \<times> 'v arg" where
  "on_args selector data f =
     (if nullish data \<and> nullish f then (None, Undef, selector)
      else if nullish f then
        (if as_selector selector \<noteq> None then (as_selector selector, Undef, data) else (None, selector, data))
      else (as_selector selector, data, f))"

definition as_function :: "'v arg \<Rightarrow> fn option" where
  "as_function a = (case a of Func f \<Rightarrow> Some f | FalseArg \<Rightarrow> Some ReturnFalse | _ \<Rightarrow> None)"

text \<open>The wrapper shares the number of the function it wraps.\<close>

definition wrap_once :: "fn \<Rightarrow> 'v evs \<Rightarrow> fn \<times> 'v evs" where
  "wrap_once f s =
     (let s1 = ensure_guid f s in (Wrap f, s1\<lparr>fguid := (fguid s1)(Wrap f := fguid s1 f)\<rparr>))"

text \<open>
  \<open>jQuery.proxy\<close>: a new function of the page, named \<open>Fn p\<close>, that has the number of the original,
  which gets one if it has none. The context and the first arguments of the proxy are part of what
  the new function does when it is called. What is no function has no proxy.
\<close>

definition proxy :: "'v arg \<Rightarrow> nat \<Rightarrow> 'v arg evs \<Rightarrow> 'v arg \<times> 'v arg evs" where
  "proxy f p s =
     (case f of
        Func g \<Rightarrow> let s1 = ensure_guid g s in (Func (Fn p), s1\<lparr>fguid := (fguid s1)(Fn p := fguid s1 g)\<rparr>)
      | _ \<Rightarrow> (Undef, s))"

definition on :: "ev_env \<Rightarrow> 'v arg specials \<Rightarrow> target list \<Rightarrow> string \<Rightarrow> 'v arg \<Rightarrow> 'v arg \<Rightarrow> 'v arg \<Rightarrow> bool \<Rightarrow> 'v arg evs \<Rightarrow> 'v arg evs" where
  "on d tab this types selector data f once s =
     (case on_args selector data f of (sel, data', f') \<Rightarrow>
        case as_function f' of
          None \<Rightarrow> s
        | Some g \<Rightarrow>
            let (h, s1) = (if once then wrap_once g s else (g, s))
            in foldl (\<lambda>s e. event_add d tab e types (Direct h) (as_data data') sel s) s1 this)"

text \<open>An object of types and functions: \<open>on\<close> for each of its names.\<close>

definition on_map :: "ev_env \<Rightarrow> 'v arg specials \<Rightarrow> target list \<Rightarrow> (string \<times> 'v arg) list \<Rightarrow> 'v arg \<Rightarrow> 'v arg \<Rightarrow> bool \<Rightarrow> 'v arg evs \<Rightarrow> 'v arg evs" where
  "on_map d tab this types selector data once s =
     (let (selector', data') = (if as_selector selector = None then (Undef, if falsy data then selector else data) else (selector, data))
      in foldl (\<lambda>s (ty, f). on d tab this ty selector' data' f once s) s types)"

definition one :: "ev_env \<Rightarrow> 'v arg specials \<Rightarrow> target list \<Rightarrow> string \<Rightarrow> 'v arg \<Rightarrow> 'v arg \<Rightarrow> 'v arg \<Rightarrow> 'v arg evs \<Rightarrow> 'v arg evs" where
  "one d tab this types selector data f s = on d tab this types selector data f True s"

definition off :: "nat \<Rightarrow> 'v arg specials \<Rightarrow> target list \<Rightarrow> string \<Rightarrow> 'v arg \<Rightarrow> 'v arg \<Rightarrow> 'v arg evs \<Rightarrow> 'v arg evs run" where
  "off n tab this types selector f s =
     (let (selector', f') = (if as_function selector \<noteq> None then (Undef, selector) else (selector, f))
      in run_all (\<lambda>e. event_remove n tab e types (as_function f') (as_selector selector') False) this s)"

definition off_map :: "nat \<Rightarrow> 'v arg specials \<Rightarrow> target list \<Rightarrow> (string \<times> 'v arg) list \<Rightarrow> 'v arg \<Rightarrow> 'v arg evs \<Rightarrow> 'v arg evs run" where
  "off_map n tab this types selector s = run_all (\<lambda>(ty, f). off n tab this ty selector f) types s"

text \<open>\<open>off\<close> with a dispatched event: the binding that is being called.\<close>

definition off_event :: "nat \<Rightarrow> 'v arg specials \<Rightarrow> target \<Rightarrow> 'v arg hobj \<Rightarrow> 'v arg evs \<Rightarrow> 'v arg evs run" where
  "off_event n tab delegateTarget h s =
     off n tab [delegateTarget]
       (if h_namespace h \<noteq> '''' then h_origType h @ ''.'' @ h_namespace h else h_origType h)
       (case h_selector h of Some sel \<Rightarrow> Str sel | None \<Rightarrow> Undef) (Func (h_handler h)) s"

section \<open>The laws of the special events\<close>

text \<open>
  What binding and unbinding rely on: a hook leaves the registry alone and asks for no listener,
  a type that a special event maps to is not mapped again, and only a special event that keeps its
  own type, with a set-up, has a tear-down.
\<close>

definition same_reg :: "'v evs \<Rightarrow> 'v evs \<Rightarrow> bool" where
  "same_reg s t \<longleftrightarrow> events t = events s \<and> handle t = handle s \<and> listeners t = listeners s \<and>
     fguid t = fguid s \<and> guid t = guid s \<and> global t = global s"

definition name_ok :: "string \<Rightarrow> bool" where
  "name_ok ty \<longleftrightarrow> ty \<noteq> '''' \<and> CHR ''.'' \<notin> set ty \<and> (\<forall>c \<in> set ty. \<not> is_space c)"

locale quiet_specials =
  fixes tab :: "'v specials"
  assumes setup_quiet: "setupHook (special_of tab ty) = Some hook \<Longrightarrow> \<not> fst (hook e s) \<and> same_reg s (snd (hook e s))"
    and teardown_quiet: "teardownHook (special_of tab ty) = Some hook \<Longrightarrow> \<not> fst (hook e s) \<and> same_reg s (snd (hook e s))"
    and add_quiet: "sp_add (special_of tab ty) = Some hook2 \<Longrightarrow> fst (hook2 e h s) = h \<and> same_reg s (snd (hook2 e h s))"
    and remove_quiet: "sp_remove (special_of tab ty) = Some hook3 \<Longrightarrow> same_reg s (hook3 e h s)"
    and mapped_direct: "mapped_type tab None (mapped_type tab sel ty) = mapped_type tab sel ty"
    and mapped_again: "mapped_type tab sel (mapped_type tab sel ty) = mapped_type tab sel ty"
    and mapped_name: "name_ok ty \<Longrightarrow> name_ok (mapped_type tab sel ty)"
    and teardown_own: "teardownHook (special_of tab ty) \<noteq> None \<Longrightarrow> setupHook (special_of tab (mapped_type tab sel ty)) \<noteq> None"

lemma same_reg_refl [simp]: "same_reg s s"
  by (simp add: same_reg_def)

lemma focus_setup_quiet: "\<not> fst (focus_setup d a b e s) \<and> same_reg s (snd (focus_setup d a b e s))"
  by (simp add: focus_setup_def same_reg_def Let_def)

lemma focus_teardown_quiet: "\<not> fst (focus_teardown d a b e s) \<and> same_reg s (snd (focus_teardown d a b e s))"
  by (simp add: focus_teardown_def same_reg_def Let_def)

lemma no_special_simps [simp]:
  "bindType no_special = None" "delegateType no_special = None" "setupHook no_special = None"
  "teardownHook no_special = None" "sp_add no_special = None" "sp_remove no_special = None"
  by (simp_all add: no_special_def)

text \<open>The table of the core, one type at a time.\<close>

lemma core_special_cases:
  obtains (plain) "special_of (core_specials d :: 'v specials) ty = no_special\<lparr>noBubble := (ty = ''load'')\<rparr>"
      "ty \<notin> {''focus'', ''blur'', ''mouseenter'', ''mouseleave'', ''pointerenter'', ''pointerleave''}"
  | (focus) "special_of (core_specials d :: 'v specials) ty = no_special\<lparr>delegateType := Some ''focusin''\<rparr>" "ty = ''focus''"
  | (blur) "special_of (core_specials d :: 'v specials) ty = no_special\<lparr>delegateType := Some ''focusout''\<rparr>" "ty = ''blur''"
  | (enter) fx where "special_of (core_specials d :: 'v specials) ty = enter_special fx"
      "(ty, fx) \<in> {(''mouseenter'', ''mouseover''), (''mouseleave'', ''mouseout''), (''pointerenter'', ''pointerover''), (''pointerleave'', ''pointerout'')}"
  | (bubble) og where "special_of (core_specials d :: 'v specials) ty = focus_special d og ty" "\<not> focusinBubbles d"
      "(ty, og) \<in> {(''focusin'', ''focus''), (''focusout'', ''blur'')}"
proof -
  have plain0: "no_special\<lparr>noBubble := False\<rparr> = (no_special :: 'v special)" by (simp add: no_special_def)
  consider "ty = ''load''" | "ty = ''focus''" | "ty = ''blur''" | "ty = ''mouseenter''" | "ty = ''mouseleave''"
    | "ty = ''pointerenter''" | "ty = ''pointerleave''" | "ty = ''focusin'' \<and> \<not> focusinBubbles d"
    | "ty = ''focusout'' \<and> \<not> focusinBubbles d"
    | "ty \<notin> {''load'', ''focus'', ''blur'', ''mouseenter'', ''mouseleave'', ''pointerenter'', ''pointerleave''}"
      "ty \<in> {''focusin'', ''focusout''} \<longrightarrow> focusinBubbles d" by auto
  then show thesis
  proof cases
    case 10
    have "special_of (core_specials d :: 'v specials) ty = no_special"
      using 10 by (auto simp: special_of_def core_specials_def or_else_def)
    then show thesis using 10 by (intro plain) (auto simp: plain0)
  next
    case 8
    then show thesis by (intro bubble) (auto simp: special_of_def core_specials_def or_else_def)
  next
    case 9
    then show thesis by (intro bubble) (auto simp: special_of_def core_specials_def or_else_def)
  qed (use plain focus blur enter in \<open>auto simp: special_of_def core_specials_def or_else_def\<close>)
qed

definition core_mapping :: "bool \<Rightarrow> string \<Rightarrow> string" where
  "core_mapping dlg ty =
     or_else (map_of ([(''mouseenter'', ''mouseover''), (''mouseleave'', ''mouseout''), (''pointerenter'', ''pointerover''),
                       (''pointerleave'', ''pointerout'')] @
                      (if dlg then [(''focus'', ''focusin''), (''blur'', ''focusout'')] else [])) ty) ty"

lemma core_mapping_focus [simp]: "core_mapping dlg ''focusin'' = ''focusin''" "core_mapping dlg ''focusout'' = ''focusout''"
  by (simp_all add: core_mapping_def or_else_def)

lemma core_mapped: "mapped_type (core_specials d :: 'v specials) sel ty = core_mapping (some_text sel) ty"
proof (rule core_special_cases [where 'v = 'v and d = d and ty = ty])
  assume a: "special_of (core_specials d :: 'v specials) ty = no_special\<lparr>noBubble := (ty = ''load'')\<rparr>"
    and "ty \<notin> {''focus'', ''blur'', ''mouseenter'', ''mouseleave'', ''pointerenter'', ''pointerleave''}"
  then have "core_mapping (some_text sel) ty = ty" by (simp add: core_mapping_def or_else_def)
  with a show ?thesis by (simp add: mapped_type_def or_else_def)
next
  fix og
  assume "special_of (core_specials d :: 'v specials) ty = focus_special d og ty"
    "(ty, og) \<in> {(''focusin'', ''focus''), (''focusout'', ''blur'')}"
  then show ?thesis by (auto simp: mapped_type_def or_else_def focus_special_def)
next
  fix fx
  assume "special_of (core_specials d :: 'v specials) ty = enter_special fx"
    "(ty, fx) \<in> {(''mouseenter'', ''mouseover''), (''mouseleave'', ''mouseout''), (''pointerenter'', ''pointerover''), (''pointerleave'', ''pointerout'')}"
  moreover from this(2) have "core_mapping (some_text sel) ty = fx" by (auto simp: core_mapping_def or_else_def)
  ultimately show ?thesis by (simp add: mapped_type_def or_else_def enter_special_def)
next
  assume "special_of (core_specials d :: 'v specials) ty = no_special\<lparr>delegateType := Some ''focusin''\<rparr>" "ty = ''focus''"
  then show ?thesis by (simp add: mapped_type_def or_else_def core_mapping_def)
next
  assume "special_of (core_specials d :: 'v specials) ty = no_special\<lparr>delegateType := Some ''focusout''\<rparr>" "ty = ''blur''"
  then show ?thesis by (simp add: mapped_type_def or_else_def core_mapping_def)
qed

lemma core_mapping_cases: "core_mapping dlg ty = ty \<or>
    core_mapping dlg ty \<in> {''mouseover'', ''mouseout'', ''pointerover'', ''pointerout'', ''focusin'', ''focusout''}"
  by (auto simp: core_mapping_def or_else_def)

lemma core_mapping_fixed:
  "core_mapping False (core_mapping dlg ty) = core_mapping dlg ty" "core_mapping dlg (core_mapping dlg ty) = core_mapping dlg ty"
proof -
  have fixed: "core_mapping b fx = fx"
    if "fx \<in> {''mouseover'', ''mouseout'', ''pointerover'', ''pointerout'', ''focusin'', ''focusout''}" for b fx
    using that by (auto simp: core_mapping_def or_else_def)
  have mono: "core_mapping False x = x" if "core_mapping dlg x = x" for x
    using that by (auto simp: core_mapping_def or_else_def split: if_splits)
  show "core_mapping dlg (core_mapping dlg ty) = core_mapping dlg ty"
    using core_mapping_cases [of dlg ty] fixed by metis
  then show "core_mapping False (core_mapping dlg ty) = core_mapping dlg ty" by (rule mono)
qed

lemma name_ok_core: "name_ok ty \<Longrightarrow> name_ok (core_mapping dlg ty)"
proof (rule disjE [OF core_mapping_cases [of dlg ty]])
  have names: "name_ok ''mouseover''" "name_ok ''mouseout''" "name_ok ''pointerover''" "name_ok ''pointerout''"
    "name_ok ''focusin''" "name_ok ''focusout''" by (simp_all add: name_ok_def is_space_def)
  assume "core_mapping dlg ty \<in> {''mouseover'', ''mouseout'', ''pointerover'', ''pointerout'', ''focusin'', ''focusout''}"
  with names show ?thesis by (metis insertE emptyE)
qed simp

interpretation core: quiet_specials "core_specials d :: 'v specials" for d :: ev_env
proof
  fix ty :: string and sel
  show "mapped_type (core_specials d :: 'v specials) None (mapped_type (core_specials d :: 'v specials) sel ty) = mapped_type (core_specials d :: 'v specials) sel ty"
    by (simp add: core_mapped core_mapping_fixed(1) some_text_def)
  show "mapped_type (core_specials d :: 'v specials) sel (mapped_type (core_specials d :: 'v specials) sel ty) = mapped_type (core_specials d :: 'v specials) sel ty"
    by (simp add: core_mapped core_mapping_fixed(2))
  show "name_ok ty \<Longrightarrow> name_ok (mapped_type (core_specials d :: 'v specials) sel ty)"
    by (simp add: core_mapped name_ok_core)
  show "teardownHook (special_of (core_specials d :: 'v specials) ty) \<noteq> None \<Longrightarrow>
        setupHook (special_of (core_specials d :: 'v specials) (mapped_type (core_specials d :: 'v specials) sel ty)) \<noteq> None"
    by (rule core_special_cases [where 'v = 'v and d = d and ty = ty])
       (auto simp: core_mapped core_mapping_focus enter_special_def focus_special_def)
next
  fix ty hook e and s :: "'v evs"
  show "setupHook (special_of (core_specials d :: 'v specials) ty) = Some hook \<Longrightarrow> \<not> fst (hook e s) \<and> same_reg s (snd (hook e s))"
    by (rule core_special_cases [where 'v = 'v and d = d and ty = ty]) (auto simp: enter_special_def focus_special_def focus_setup_quiet)
  show "teardownHook (special_of (core_specials d :: 'v specials) ty) = Some hook \<Longrightarrow> \<not> fst (hook e s) \<and> same_reg s (snd (hook e s))"
    by (rule core_special_cases [where 'v = 'v and d = d and ty = ty]) (auto simp: enter_special_def focus_special_def focus_teardown_quiet)
next
  fix ty hook2 e h and s :: "'v evs"
  show "sp_add (special_of (core_specials d :: 'v specials) ty) = Some hook2 \<Longrightarrow> fst (hook2 e h s) = h \<and> same_reg s (snd (hook2 e h s))"
    by (rule core_special_cases [where 'v = 'v and d = d and ty = ty]) (auto simp: enter_special_def focus_special_def)
next
  fix ty hook3 e h and s :: "'v evs"
  show "sp_remove (special_of (core_specials d :: 'v specials) ty) = Some hook3 \<Longrightarrow> same_reg s (hook3 e h s)"
    by (rule core_special_cases [where 'v = 'v and d = d and ty = ty]) (auto simp: enter_special_def focus_special_def)
qed

end
