(* ===== verification/JQ_Registry.thy ===== *)
theory JQ_Registry
  imports JQ_Event
begin

text \<open>
  The registry stays correct: what is bound on each target (\<open>bound\<close>), the invariant of the handler
  lists, the browser's listeners and the numbers of functions (\<open>evs_ok\<close>), what each operation does to
  what is bound, and when unbinding comes to an end.
\<close>

section \<open>What is bound\<close>

text \<open>The handlers of a type on a target, and what a correct registry looks like.\<close>

definition bound :: "'v evs \<Rightarrow> target \<Rightarrow> string \<Rightarrow> 'v hobj list" where
  "bound s e ty = (case handlers_at s e ty of None \<Rightarrow> [] | Some hl \<Rightarrow> hs hl)"

definition delegated :: "'v hobj \<Rightarrow> bool" where
  "delegated h \<longleftrightarrow> some_text (h_selector h)"

definition arrange :: "'v hobj list \<Rightarrow> 'v hobj list" where
  "arrange l = filter delegated l @ filter (\<lambda>h. \<not> delegated h) l"

definition ns_ok :: "string \<Rightarrow> bool" where
  "ns_ok s \<longleftrightarrow> (\<forall>c \<in> set s. \<not> is_space c) \<and> sorted (split_str ''.'' s)"

definition hobj_ok :: "'v specials \<Rightarrow> string \<Rightarrow> 'v hobj \<Rightarrow> bool" where
  "hobj_ok tab ty h \<longleftrightarrow> h_type h = ty \<and> name_ok (h_origType h) \<and> ns_ok (h_namespace h) \<and>
     mapped_type tab (h_selector h) (h_origType h) = ty"

definition hlist_ok :: "'v specials \<Rightarrow> string \<Rightarrow> 'v hlist \<Rightarrow> bool" where
  "hlist_ok tab ty hl \<longleftrightarrow>
     hs hl = arrange (hs hl) \<and> delegateCount hl = int (length (filter delegated (hs hl))) \<and> list_all (hobj_ok tab ty) (hs hl)"

definition entry_ok :: "'v specials \<Rightarrow> 'v evs \<Rightarrow> target \<Rightarrow> (string \<times> 'v hlist) list \<Rightarrow> bool" where
  "entry_ok tab s e evl \<longleftrightarrow>
     distinct (okeys evl) \<and> (\<forall>(ty, hl) \<in> set evl. hlist_ok tab ty hl \<and> hs hl \<noteq> []) \<and>
     (\<forall>ty. ty \<in> set (listeners s e) \<longleftrightarrow> ty \<in> set (okeys evl) \<and> setupHook (special_of tab ty) = None)"

definition target_ok :: "'v specials \<Rightarrow> 'v evs \<Rightarrow> target \<Rightarrow> bool" where
  "target_ok tab s e \<longleftrightarrow>
     (handle s e \<longleftrightarrow> events s e \<noteq> None) \<and>
     (case events s e of None \<Rightarrow> listeners s e = [] | Some evl \<Rightarrow> entry_ok tab s e evl)"

text \<open>
  Numbers of functions: given out below the counter, and a wrapper has the number of its function.
  Functions of the page share a number when they are proxies of the same function.
\<close>

fun innermost :: "fn \<Rightarrow> fn" where
  "innermost (Wrap f) = innermost f"
| "innermost f = f"

definition guids_ok :: "'v evs \<Rightarrow> bool" where
  "guids_ok s \<longleftrightarrow> (\<forall>f g. fguid s f = Some g \<longrightarrow> g < guid s \<and> 0 < g \<and> fguid s (innermost f) = Some g) \<and> 0 < guid s"

definition numbered :: "'v evs \<Rightarrow> bool" where
  "numbered s \<longleftrightarrow> (\<forall>e ty. \<forall>h \<in> set (bound s e ty). fguid s (h_handler h) = Some (h_guid h))"

definition evs_ok :: "'v specials \<Rightarrow> 'v evs \<Rightarrow> bool" where
  "evs_ok tab s \<longleftrightarrow> (\<forall>e. target_ok tab s e) \<and> guids_ok s \<and> numbered s"

definition no_events :: "'v evs" where
  "no_events = \<lparr>events = \<lambda>_. None, handle = \<lambda>_. False, listeners = \<lambda>_. [], attaches = \<lambda>_ _. None,
     captures = \<lambda>_. [], fguid = \<lambda>_. None, guid = 1, global = \<lambda>_. False\<rparr>"

subsection \<open>Reading the registry\<close>

named_theorems ev_simps \<open>what the operations on the registry read and write\<close>

lemma handlers_at_put [ev_simps]:
  "handlers_at (put_handlers e ty hl s) e' ty' = (if e' = e \<and> ty' = ty then Some hl else handlers_at s e' ty')"
  by (auto simp: handlers_at_def put_handlers_def or_else_def split: option.splits)

lemma put_handlers_fields [ev_simps]:
  "handle (put_handlers e ty hl s) = handle s" "listeners (put_handlers e ty hl s) = listeners s"
  "fguid (put_handlers e ty hl s) = fguid s" "guid (put_handlers e ty hl s) = guid s"
  by (simp_all add: put_handlers_def)

lemma bound_put [ev_simps]: "bound (put_handlers e ty hl s) e' ty' = (if e' = e \<and> ty' = ty then hs hl else bound s e' ty')"
  by (simp add: bound_def ev_simps)

lemma handlers_at_cong: "events t = events s \<Longrightarrow> handlers_at t = handlers_at s"
  by (simp add: handlers_at_def fun_eq_iff)

lemma bound_cong: "events t = events s \<Longrightarrow> bound t = bound s"
  by (simp add: bound_def fun_eq_iff handlers_at_def)

lemma same_regD:
  "same_reg s t \<Longrightarrow> events t = events s" "same_reg s t \<Longrightarrow> handle t = handle s" "same_reg s t \<Longrightarrow> listeners t = listeners s"
  "same_reg s t \<Longrightarrow> fguid t = fguid s" "same_reg s t \<Longrightarrow> guid t = guid s"
  by (simp_all add: same_reg_def)

lemma same_reg_trans [trans]: "same_reg s t \<Longrightarrow> same_reg t u \<Longrightarrow> same_reg s u"
  by (simp add: same_reg_def)

lemma oset_oset: "oset (oset ob k v) k w = oset ob k w"
  by (simp add: oset_def update_last)

lemma put_handlers_put: "put_handlers e ty hl' (put_handlers e ty hl s) = put_handlers e ty hl' s"
  by (simp add: put_handlers_def or_else_def oset_oset)

lemma arrange_add:
  "arrange l = l \<Longrightarrow> delegateCount hl = int (length (filter delegated l)) \<Longrightarrow> hs hl = l \<Longrightarrow>
   hs (insert_hobj (delegated h) h hl) = arrange (l @ [h])"
proof (cases "delegated h")
  case True
  assume l: "arrange l = l" "delegateCount hl = int (length (filter delegated l))" "hs hl = l"
  have "take (length (filter delegated l)) l = filter delegated l" "drop (length (filter delegated l)) l = filter (\<lambda>h. \<not> delegated h) l"
    using l(1) unfolding arrange_def by (metis append_eq_conv_conj)+
  then show ?thesis using True l(2,3) by (simp add: insert_hobj_def splice_in_def arrange_def)
next
  case False
  assume l: "arrange l = l" "hs hl = l"
  have "arrange (l @ [h]) = arrange l @ [h]" using False by (simp add: arrange_def)
  with False l show ?thesis by (simp add: insert_hobj_def)
qed

lemma arrange_arrange [simp]: "arrange (arrange l) = arrange l"
  by (simp add: arrange_def)

lemma filter_arrange: "arrange (filter P l) = filter P (arrange l)"
  by (simp add: arrange_def conj_commute)

lemma set_arrange [simp]: "set (arrange l) = set l"
  by (auto simp: arrange_def)

lemma hlist_ok_insert:
  assumes "hlist_ok tab ty hl" "hobj_ok tab ty h"
  shows "hlist_ok tab ty (insert_hobj (delegated h) h hl)"
proof -
  have "hs (insert_hobj (delegated h) h hl) = arrange (hs hl @ [h])"
    by (rule arrange_add) (use assms(1) in \<open>simp_all add: hlist_ok_def\<close>)
  moreover have "delegateCount (insert_hobj (delegated h) h hl) = int (length (filter delegated (arrange (hs hl @ [h]))))"
    using assms(1) by (simp add: insert_hobj_def hlist_ok_def arrange_def)
  ultimately show ?thesis using assms unfolding hlist_ok_def list_all_iff by simp
qed

subsection \<open>Binding keeps the registry correct\<close>

text \<open>What adding a name does to what is bound.\<close>

definition place :: "'v hobj \<Rightarrow> 'v hobj list \<Rightarrow> 'v hobj list" where
  "place h l = arrange (l @ [h])"

definition added :: "ev_env \<Rightarrow> 'v specials \<Rightarrow> 'v evs \<Rightarrow> fn \<Rightarrow> 'v option \<Rightarrow> string option \<Rightarrow> string \<Rightarrow> 'v hobj list \<Rightarrow> string \<Rightarrow> 'v hobj list" where
  "added d tab s f data sel ty l w =
     (if ev_type w \<noteq> '''' \<and> mapped_type tab sel (ev_type w) = ty then place (new_hobj d tab s f data sel w) l else l)"

text \<open>A function a page can pass: its own, or a wrapper that was made for it.\<close>

definition known :: "'v evs \<Rightarrow> fn \<Rightarrow> bool" where
  "known s f \<longleftrightarrow> innermost f = f \<or> fguid s f \<noteq> None"

lemma extend_None [simp]: "extend_hobj None h = h"
  by (simp add: extend_hobj_def)

lemma index_sub_before: "index_sub [c] s = Some i \<Longrightarrow> c \<notin> set (take i s)"
proof (induction s arbitrary: i)
  case (Cons x s)
  then show ?case by (cases "x = c") auto
qed (simp split: if_splits)

lemma split_str_pieces: "x \<in> set (split_str [c] s) \<Longrightarrow> c \<notin> set x"
proof (induction "[c]" s arbitrary: x rule: split_str.induct)
  case (1 s)
  show ?case
  proof (cases "index_sub [c] s")
    case None
    with "1.prems" index_sub_None_sep [OF None] show ?thesis by (simp add: split_str.simps [of "[c]" s])
  next
    case (Some i)
    with "1.prems" consider "x = take i s" | "x \<in> set (split_str [c] (drop (i + length [c]) s))"
      by (auto simp: split_str.simps [of "[c]" s])
    then show ?thesis
    proof cases
      case 1
      with index_sub_before [OF Some] show ?thesis by simp
    next
      case 2
      then show ?thesis using "1.hyps" [OF Some] by simp
    qed
  qed
qed

lemma split_join_namespaces: "split_str ''.'' (join ''.'' (namespaces w)) = namespaces w"
proof (rule split_join)
  show "namespaces w \<noteq> []" by (metis namespaces_def set_empty set_sort split_str_nonempty)
  show "\<forall>x \<in> set (namespaces w). CHR ''.'' \<notin> set x"
    by (auto simp: namespaces_def dest: split_str_pieces)
qed

lemma set_join: "c \<in> set (join sep xs) \<Longrightarrow> c \<in> set sep \<or> (\<exists>x \<in> set xs. c \<in> set x)"
  by (induction sep xs rule: join.induct) auto

lemma split_pieces_chars: "x \<in> set (split_str sep s) \<Longrightarrow> c \<in> set x \<Longrightarrow> c \<in> set s"
proof (induction sep s arbitrary: x rule: split_str.induct)
  case (1 sep s)
  show ?case
  proof (cases "index_sub sep s")
    case None
    with "1.prems" show ?thesis by (simp add: split_str.simps [of sep s])
  next
    case (Some i)
    show ?thesis
    proof (cases "sep = []")
      case True
      with "1.prems" Some show ?thesis by (simp add: split_str.simps [of "[]" s])
    next
      case False
      with "1.prems"(1) Some consider "x = take i s" | "x \<in> set (split_str sep (drop (i + length sep) s))"
        by (auto simp: split_str.simps [of sep s])
      then show ?thesis
        using "1.IH" [OF Some False] "1.prems"(2) by cases (auto dest: in_set_takeD in_set_dropD)
    qed
  qed
qed

lemma ev_ns_chars: "ev_ns w = Some ns \<Longrightarrow> c \<in> set ns \<Longrightarrow> c \<in> set w"
proof -
  assume a: "ev_ns w = Some ns" "c \<in> set ns"
  let ?dw = "dropWhile (\<lambda>c. c \<noteq> CHR ''.'') w"
  from a have "c \<in> set ?dw"
    by (cases ?dw rule: remdups_adj.cases)
       (auto simp: ev_ns_def rtypenamespace_def simp del: dropWhile_eq_Nil_conv split: if_splits)
  then show ?thesis by (rule set_dropWhileD)
qed

lemma namespaces_ok:
  assumes w: "\<forall>c \<in> set w. \<not> is_space c"
  shows "ns_ok (join ''.'' (namespaces w))"
  unfolding ns_ok_def split_join_namespaces
proof (intro conjI ballI)
  fix c assume "c \<in> set (join ''.'' (namespaces w))"
  then have "c = CHR ''.'' \<or> c \<in> set w"
    by (auto simp: namespaces_def dest!: set_join split_pieces_chars intro: ev_ns_chars split: option.splits)
  then show "\<not> is_space c" using w by (auto simp: is_space_def)
qed (simp add: namespaces_def)

lemma ev_type_ok: "ev_type w \<noteq> '''' \<Longrightarrow> (\<forall>c \<in> set w. \<not> is_space c) \<Longrightarrow> name_ok (ev_type w)"
  by (auto simp: ev_type_def rtypenamespace_def name_ok_def dest: set_takeWhileD split: list.splits option.splits if_splits)


lemma ensure_guid_fields:
  "events (ensure_guid f s) = events s" "handle (ensure_guid f s) = handle s" "listeners (ensure_guid f s) = listeners s"
  "fguid (ensure_guid f s) f \<noteq> None" "fguid s g = Some n \<Longrightarrow> fguid (ensure_guid f s) g = Some n"
  by (auto simp: ensure_guid_def)

lemma guids_okD:
  "guids_ok s \<Longrightarrow> fguid s g = Some n \<Longrightarrow> n < guid s" "guids_ok s \<Longrightarrow> fguid s g = Some n \<Longrightarrow> 0 < n"
  "guids_ok s \<Longrightarrow> fguid s g = Some n \<Longrightarrow> fguid s (innermost g) = Some n"
  "guids_ok s \<Longrightarrow> 0 < guid s"
  unfolding guids_ok_def by blast+

lemma guids_ok_cong: assumes "fguid t = fguid s" "guid t = guid s" shows "guids_ok t \<longleftrightarrow> guids_ok s"
  unfolding guids_ok_def assms by (rule refl)

lemma ensure_guid_ok:
  assumes ok: "guids_ok s" and "known s f"
  shows "guids_ok (ensure_guid f s)"
proof (cases "fguid s f = None")
  case True
  with assms(2) have f: "innermost f = f" by (simp add: known_def)
  define F where "F = (\<lambda>g. if g = f then Some (guid s) else fguid s g)"
  have t: "fguid (ensure_guid f s) = F" "guid (ensure_guid f s) = guid s + 1"
    using True by (auto simp: ensure_guid_def F_def)
  have Fo: "F g = Some n \<Longrightarrow> g \<noteq> f \<Longrightarrow> fguid s g = Some n" for g n by (simp add: F_def)
  have fresh: "innermost g \<noteq> f" if "fguid s g = Some n" for g n
    using guids_okD(3) [OF ok that] True by auto
  have less: "fguid s g = Some n \<Longrightarrow> n < guid s" for g n by (rule guids_okD(1) [OF ok])
  have *: "n < guid s + 1 \<and> 0 < n \<and> F (innermost g) = Some n" if "F g = Some n" for g n
  proof (cases "g = f")
    case True
    with that f guids_okD(4) [OF ok] show ?thesis by (simp add: F_def)
  next
    case False
    note o = Fo [OF that False]
    then show ?thesis using less [OF o] guids_okD(2,3) [OF ok o] fresh [OF o] by (simp add: F_def)
  qed
  then show ?thesis unfolding guids_ok_def t by (metis add_pos_nonneg guids_okD(4) ok zero_le)
qed (auto simp: ensure_guid_def ok)

lemma numbered_mono:
  "numbered s \<Longrightarrow> bound t = bound s \<Longrightarrow> (\<And>g n. fguid s g = Some n \<Longrightarrow> fguid t g = Some n) \<Longrightarrow> numbered t"
  by (simp add: numbered_def)

lemma foldl_added_set:
  "h \<in> set (foldl (added d tab s f data sel ty) l ws) \<Longrightarrow> h \<in> set l \<or> (\<exists>w \<in> set ws. ev_type w \<noteq> '''' \<and> h = new_hobj d tab s f data sel w)"
  by (induction ws arbitrary: l) (force simp: added_def place_def split: if_splits)+

lemma split_types_spaces: "w \<in> set (split_types types) \<Longrightarrow> \<forall>c \<in> set w. \<not> is_space c"
  by (auto simp: split_types_def words_def split: list.splits) (metis list.set_intros words_by_in)+

context quiet_specials
begin

lemma init_handlers_fields:
  "events (init_handlers (special_of tab ty) e ty s) = events (put_handlers e ty \<lparr>hs = [], delegateCount = 0\<rparr> s)"
  "handle (init_handlers (special_of tab ty) e ty s) = handle s"
  "fguid (init_handlers (special_of tab ty) e ty s) = fguid s"
  "guid (init_handlers (special_of tab ty) e ty s) = guid s"
  "listeners (init_handlers (special_of tab ty) e ty s) =
     (if setupHook (special_of tab ty) = None then (listeners s)(e := List.insert ty (listeners s e)) else listeners s)"
proof -
  let ?s1 = "put_handlers e ty \<lparr>hs = [], delegateCount = 0\<rparr> s"
  have q: "\<not> fst (hook e ?s1) \<and> same_reg ?s1 (snd (hook e ?s1))" if "setupHook (special_of tab ty) = Some hook" for hook
    by (rule setup_quiet) (rule that)
  show "events (init_handlers (special_of tab ty) e ty s) = events ?s1"
    "handle (init_handlers (special_of tab ty) e ty s) = handle s"
    "fguid (init_handlers (special_of tab ty) e ty s) = fguid s"
    "guid (init_handlers (special_of tab ty) e ty s) = guid s"
    "listeners (init_handlers (special_of tab ty) e ty s) =
     (if setupHook (special_of tab ty) = None then (listeners s)(e := List.insert ty (listeners s e)) else listeners s)"
    using q by (cases "setupHook (special_of tab ty)";
        simp add: init_handlers_def addListener_def ev_simps same_reg_def Let_def case_prod_beta)+
qed

lemma call_add_quiet:
  assumes "fguid s (h_handler h) \<noteq> None"
  shows "fst (call_add (special_of tab ty) e f h s) = h \<and> same_reg s (snd (call_add (special_of tab ty) e f h s))"
proof (cases "sp_add (special_of tab ty)")
  case (Some hook)
  obtain h' s' where hook: "hook e h s = (h', s')" by fastforce
  with add_quiet [OF Some, of e h s] have "h' = h" "same_reg s s'" by simp_all
  with Some hook assms show ?thesis by (auto simp: call_add_def same_reg_def)
qed (simp add: call_add_def)

text \<open>One name: where its handler goes, and what the browser listens to.\<close>

lemma add_type_fields:
  fixes sel :: "string option" and d :: ev_env and data :: "'v option"
  assumes w: "ev_type w \<noteq> ''''" and f: "fguid s f = Some g"
  defines "ty \<equiv> mapped_type tab sel (ev_type w)"
    and "h \<equiv> new_hobj d tab s f data sel w"
  shows "events (add_type d tab e None f data sel w s) =
      events (put_handlers e ty (insert_hobj (some_text sel) h (or_else (handlers_at s e ty) \<lparr>hs = [], delegateCount = 0\<rparr>)) s)"
    "handle (add_type d tab e None f data sel w s) = handle s"
    "fguid (add_type d tab e None f data sel w s) = fguid s"
    "guid (add_type d tab e None f data sel w s) = guid s"
    "listeners (add_type d tab e None f data sel w s) =
       (if handlers_at s e ty = None \<and> setupHook (special_of tab ty) = None
        then (listeners s)(e := List.insert ty (listeners s e)) else listeners s)"
proof -
  define s1 where "s1 = (if handlers_at s e ty = None then init_handlers (special_of tab ty) e ty s else s)"
  have fg: "fguid s1 = fguid s" by (simp add: s1_def init_handlers_fields)
  have h: "h_handler h = f" by (simp add: h_def new_hobj_def)
  have "fguid s1 (h_handler h) \<noteq> None" using f fg h by simp
  from call_add_quiet [OF this, where ty = ty and e = e and f = f]
  obtain s2 where s2: "call_add (special_of tab ty) e f h s1 = (h, s2)" "same_reg s1 s2"
    by (metis prod.collapse)
  let ?hl = "insert_hobj (some_text sel) h (or_else (handlers_at s2 e ty) \<lparr>hs = [], delegateCount = 0\<rparr>)"
  let ?s3 = "put_handlers e ty ?hl s2"
  have add: "add_type d tab e None f data sel w s = ?s3\<lparr>global := (global ?s3)(ty := True)\<rparr>"
    using w s2(1) by (simp add: add_type_def Let_def ty_def [symmetric] h_def [symmetric] s1_def [symmetric])
  have ev2: "events s2 = events s1" using s2(2) by (rule same_regD)
  have "or_else (handlers_at s2 e ty) \<lparr>hs = [], delegateCount = 0\<rparr> = or_else (handlers_at s e ty) \<lparr>hs = [], delegateCount = 0\<rparr>"
  proof (cases "handlers_at s e ty = None")
    case True
    have "handlers_at s1 e ty = handlers_at (put_handlers e ty \<lparr>hs = [], delegateCount = 0\<rparr> s) e ty"
      using True by (simp add: s1_def handlers_at_def init_handlers_fields)
    with True show ?thesis by (simp add: or_else_def handlers_at_cong [OF ev2] ev_simps)
  next
    case False
    then have "s1 = s" unfolding s1_def by (rule if_not_P)
    then show ?thesis by (simp add: handlers_at_cong [OF ev2])
  qed
  moreover have "events (put_handlers e ty hl s2) = events (put_handlers e ty hl s)" for hl
    using ev2 by (cases "handlers_at s e ty = None")
      (simp_all add: s1_def put_handlers_def init_handlers_fields or_else_def oset_oset)
  ultimately show "events (add_type d tab e None f data sel w s) =
      events (put_handlers e ty (insert_hobj (some_text sel) h (or_else (handlers_at s e ty) \<lparr>hs = [], delegateCount = 0\<rparr>)) s)"
    by (simp add: add)
  show "handle (add_type d tab e None f data sel w s) = handle s"
    "fguid (add_type d tab e None f data sel w s) = fguid s" "guid (add_type d tab e None f data sel w s) = guid s"
    "listeners (add_type d tab e None f data sel w s) =
       (if handlers_at s e ty = None \<and> setupHook (special_of tab ty) = None
        then (listeners s)(e := List.insert ty (listeners s e)) else listeners s)"
    using s2(2) by (simp_all add: add ev_simps same_regD s1_def init_handlers_fields)
qed

lemma add_type_ok:
  assumes ok: "target_ok tab s e" and w: "ev_type w \<noteq> ''''" "\<forall>c \<in> set w. \<not> is_space c"
    and f: "fguid s f = Some g" and evl: "events s e = Some evl"
  shows "target_ok tab (add_type d tab e None f data sel w s) e"
    and "bound (add_type d tab e None f data sel w s) e' ty' =
      (if e' = e \<and> ty' = mapped_type tab sel (ev_type w) then place (new_hobj d tab s f data sel w) (bound s e ty') else bound s e' ty')"
    and "\<exists>evl'. events (add_type d tab e None f data sel w s) e = Some evl'"
    and "e' \<noteq> e \<Longrightarrow> target_ok tab s e' \<Longrightarrow> target_ok tab (add_type d tab e None f data sel w s) e'"
proof -
  define ty where "ty = mapped_type tab sel (ev_type w)"
  define h where "h = new_hobj d tab s f data sel w"
  define hl where "hl = or_else (handlers_at s e ty) \<lparr>hs = [], delegateCount = 0\<rparr>"
  define s' where "s' = add_type d tab e None f data sel w s"
  note fields = add_type_fields [OF w(1) f, of d e data sel, folded ty_def h_def s'_def, folded hl_def]
  have sel: "some_text sel = delegated h" by (simp add: h_def new_hobj_def delegated_def)
  have ent: "entry_ok tab s e evl" using ok evl by (simp add: target_ok_def)
  have hl: "hlist_ok tab ty hl"
    using ent evl by (cases "oget evl ty")
      (auto simp: hl_def or_else_def handlers_at_def hlist_ok_def arrange_def entry_ok_def oget_def dest: map_of_SomeD)
  have h_ok: "hobj_ok tab ty h"
    using ev_type_ok [OF w] namespaces_ok [OF w(2)] by (simp add: hobj_ok_def h_def new_hobj_def ty_def)
  let ?hl' = "insert_hobj (some_text sel) h hl"
  have hl': "hlist_ok tab ty ?hl'" "hs ?hl' = place h (hs hl)"
    using hlist_ok_insert [OF hl h_ok] arrange_add [of "hs hl" hl h] hl
    by (simp_all add: sel place_def hlist_ok_def)
  have ne: "hs ?hl' \<noteq> []" by (simp add: hl'(2) place_def arrange_def filter_empty_conv)
  have ev: "events s' = (events s)(e := Some (oset evl ty ?hl'))"
    using evl by (simp add: fields(1) put_handlers_def or_else_def)
  have keys: "handlers_at s e ty = None \<longleftrightarrow> ty \<notin> set (okeys evl)"
    using evl by (simp add: handlers_at_def oget_None_iff)
  have "entry_ok tab s' e (oset evl ty ?hl')"
    unfolding entry_ok_def
  proof (intro conjI)
    show "distinct (okeys (oset evl ty ?hl'))" using ent by (simp add: entry_ok_def)
    show "\<forall>(t, hl) \<in> set (oset evl ty ?hl'). hlist_ok tab t hl \<and> hs hl \<noteq> []"
      using ent hl'(1) ne set_oset [of evl ty ?hl'] unfolding entry_ok_def by blast
    show "\<forall>t. t \<in> set (listeners s' e) \<longleftrightarrow> t \<in> set (okeys (oset evl ty ?hl')) \<and> setupHook (special_of tab t) = None"
      using ent keys by (auto simp: entry_ok_def fields(5))
  qed
  then show "target_ok tab s' e"
    using ok evl by (simp add: target_ok_def ev fields(2))
  show "bound s' e' ty' = (if e' = e \<and> ty' = ty then place h (bound s e ty') else bound s e' ty')"
    using hl'(2) evl by (auto simp: bound_def handlers_at_def ev hl_def or_else_def split: option.splits)
  show "\<exists>evl'. events s' e = Some evl'" by (simp add: ev)
  show "target_ok tab s' e'" if "e' \<noteq> e" "target_ok tab s e'"
    using that by (auto simp: target_ok_def entry_ok_def ev fields split: option.splits)
qed

lemma add_types:
  fixes d :: ev_env and data :: "'v option" and sel :: "string option"
  assumes "\<forall>w \<in> set ws. \<forall>c \<in> set w. \<not> is_space c"
    and "target_ok tab s e" "fguid s f = Some g" "events s e = Some evl"
  defines "s' \<equiv> foldl (\<lambda>s w. add_type d tab e None f data sel w s) s ws"
  shows "target_ok tab s' e" "fguid s' = fguid s \<and> guid s' = guid s" "\<exists>evl'. events s' e = Some evl'"
    "e' \<noteq> e \<Longrightarrow> target_ok tab s e' \<Longrightarrow> target_ok tab s' e'"
    "bound s' e' ty = (if e' = e then foldl (added d tab s f data sel ty) (bound s e ty) ws else bound s e' ty)"
proof -
  have "target_ok tab s' e \<and> fguid s' = fguid s \<and> guid s' = guid s \<and> (\<exists>evl'. events s' e = Some evl') \<and>
    (\<forall>e'. e' \<noteq> e \<longrightarrow> target_ok tab s e' \<longrightarrow> target_ok tab s' e') \<and>
    (\<forall>e' ty. bound s' e' ty = (if e' = e then foldl (added d tab s f data sel ty) (bound s e ty) ws else bound s e' ty))"
    using assms(1-4) unfolding s'_def
  proof (induction ws arbitrary: s evl)
    case (Cons w ws)
    let ?s1 = "add_type d tab e None f data sel w s"
    show ?case
    proof (cases "ev_type w = ''''")
      case True
      then have 1: "?s1 = s" by (simp add: add_type_def)
      have 2: "added d tab s f data sel ty l w = l" for ty l using True by (simp add: added_def)
      show ?thesis unfolding foldl.simps 1 2 by (rule Cons.IH) (use Cons.prems in auto)
    next
      case False
      have sp: "\<forall>c \<in> set w. \<not> is_space c" using Cons.prems(1) by simp
      note add = add_type_ok [OF Cons.prems(2) False sp Cons.prems(3,4), where d = d and data = data and sel = sel]
      note fields = add_type_fields [OF False Cons.prems(3), where d = d and data = data and sel = sel and e = e]
      obtain evl' where evl': "events ?s1 e = Some evl'" using add(3) by blast
      have fg: "fguid ?s1 f = Some g" by (simp add: fields Cons.prems(3))
      have new: "added d tab ?s1 f data sel = added d tab s f data sel"
        by (simp add: added_def new_hobj_def fields fun_eq_iff)
      have b: "bound ?s1 e ty = added d tab s f data sel ty (bound s e ty) w"
        "e' \<noteq> e \<Longrightarrow> bound ?s1 e' ty = bound s e' ty" for e' ty
        using False by (auto simp: add(2) added_def)
      have IH: "target_ok tab (foldl (\<lambda>s w. add_type d tab e None f data sel w s) ?s1 ws) e \<and>
        fguid (foldl (\<lambda>s w. add_type d tab e None f data sel w s) ?s1 ws) = fguid ?s1 \<and>
        guid (foldl (\<lambda>s w. add_type d tab e None f data sel w s) ?s1 ws) = guid ?s1 \<and>
        (\<exists>evl'. events (foldl (\<lambda>s w. add_type d tab e None f data sel w s) ?s1 ws) e = Some evl') \<and>
        (\<forall>e'. e' \<noteq> e \<longrightarrow> target_ok tab ?s1 e' \<longrightarrow> target_ok tab (foldl (\<lambda>s w. add_type d tab e None f data sel w s) ?s1 ws) e') \<and>
        (\<forall>e' ty. bound (foldl (\<lambda>s w. add_type d tab e None f data sel w s) ?s1 ws) e' ty =
          (if e' = e then foldl (added d tab ?s1 f data sel ty) (bound ?s1 e ty) ws else bound ?s1 e' ty))"
        by (rule Cons.IH [OF _ add(1) fg evl']) (use Cons.prems(1) in simp)
      then show ?thesis using add(4) by (simp add: fields new b)
    qed
  qed simp
  then show "target_ok tab s' e" "fguid s' = fguid s \<and> guid s' = guid s" "\<exists>evl'. events s' e = Some evl'"
    "e' \<noteq> e \<Longrightarrow> target_ok tab s e' \<Longrightarrow> target_ok tab s' e'"
    "bound s' e' ty = (if e' = e then foldl (added d tab s f data sel ty) (bound s e ty) ws else bound s e' ty)"
    by simp_all
qed

text \<open>Binding: the registry stays correct, and what is bound is what was bound, with the new handlers placed.\<close>

lemma event_add_ok:
  fixes d :: ev_env and data :: "'v option" and sel :: "string option" and e :: target and types :: string
  assumes ok: "evs_ok tab s" and f: "known s f"
  defines "s' \<equiv> event_add d tab e types (Direct f) data sel s"
  shows "evs_ok tab s'"
    "bound s' e' ty = (if e' = e \<and> acceptData d e then foldl (added d tab (ensure_guid f s) f data sel ty) (bound s e ty) (rev (split_types types)) else bound s e' ty)"
    "fguid s g = Some n \<Longrightarrow> fguid s' g = Some n"
    "acceptData d e \<Longrightarrow> fguid s' = fguid (ensure_guid f s)"
    "acceptData d e \<Longrightarrow> guid s' = guid (ensure_guid f s)"
proof -
  define s3 where "s3 = (let s1 = ensure_guid f s;
               s2 = (if events s1 e = None then s1\<lparr>events := (events s1)(e := Some [])\<rparr> else s1)
           in if handle s2 e then s2 else s2\<lparr>handle := (handle s2)(e := True)\<rparr>)"
  have s': "s' = (if acceptData d e then foldl (\<lambda>s w. add_type d tab e None f data sel w s) s3 (rev (split_types types)) else s)"
    by (simp add: s'_def s3_def Let_def)
  have s3: "events s3 = (events s)(e := Some (or_else (events s e) []))" "handle s3 = (handle s)(e := True)"
    "listeners s3 = listeners s" "fguid s3 = fguid (ensure_guid f s)" "guid s3 = guid (ensure_guid f s)"
    by (auto simp: s3_def Let_def ensure_guid_fields or_else_def fun_eq_iff)
  have b3: "bound s3 = bound s"
    by (auto simp: bound_def handlers_at_def s3 fun_eq_iff or_else_def split: option.splits)
  have ok3: "target_ok tab s3 e'" for e'
  proof -
    have "target_ok tab s e'" using ok by (simp add: evs_ok_def)
    then show ?thesis
      by (cases "events s e'"; cases "e' = e") (simp_all add: target_ok_def s3 entry_ok_def or_else_def okeys_def)
  qed
  obtain g where g: "fguid s3 f = Some g" using ensure_guid_fields(4) [of f s] by (auto simp: s3)
  have evl: "events s3 e = Some (or_else (events s e) [])" by (simp add: s3)
  have sp: "\<forall>w \<in> set (rev (split_types types)). \<forall>c \<in> set w. \<not> is_space c" using split_types_spaces by simp
  note loop = add_types [OF sp ok3 g evl, where d = d and data = data and sel = sel]
  have same: "added d tab s3 f data sel = added d tab (ensure_guid f s) f data sel"
    by (simp add: added_def new_hobj_def s3 fun_eq_iff)
  show bound': "bound s' e' ty = (if e' = e \<and> acceptData d e then foldl (added d tab (ensure_guid f s) f data sel ty) (bound s e ty) (rev (split_types types)) else bound s e' ty)" for e' ty
    by (simp add: s' loop(5) same b3)
  have fe: "fguid s' = fguid (ensure_guid f s) \<and> guid s' = guid (ensure_guid f s)" if "acceptData d e"
    unfolding s' if_P [OF that] using loop(2) unfolding s3 .
  then show "acceptData d e \<Longrightarrow> fguid s' = fguid (ensure_guid f s)" "acceptData d e \<Longrightarrow> guid s' = guid (ensure_guid f s)"
    by blast+
  show fg: "fguid s g = Some n \<Longrightarrow> fguid s' g = Some n" for g n
  proof (cases "acceptData d e")
    case True
    assume "fguid s g = Some n"
    then show ?thesis using fe [OF True] ensure_guid_fields(5) by metis
  qed (simp add: s')
  have "guids_ok s'"
  proof (cases "acceptData d e")
    case True
    from fe [OF this] have "fguid s' = fguid (ensure_guid f s)" "guid s' = guid (ensure_guid f s)" by simp_all
    moreover have "guids_ok (ensure_guid f s)" using ok f by (intro ensure_guid_ok) (simp_all add: evs_ok_def)
    ultimately show ?thesis using guids_ok_cong by blast
  qed (use ok in \<open>simp add: s' evs_ok_def\<close>)
  moreover have "target_ok tab s' e'" for e'
    using loop(1) loop(4) [of e', OF _ ok3] ok by (cases "e' = e") (auto simp: s' evs_ok_def)
  moreover have "numbered s'"
    unfolding numbered_def
  proof (intro allI ballI)
    fix e' ty h
    assume h: "h \<in> set (bound s' e' ty)"
    have old: "fguid s' (h_handler h) = Some (h_guid h)" if "h \<in> set (bound s e' ty)" for e'
      using ok that fg by (auto simp: evs_ok_def numbered_def)
    show "fguid s' (h_handler h) = Some (h_guid h)"
    proof (cases "e' = e \<and> acceptData d e")
      case True
      with h consider "h \<in> set (bound s e ty)" | w where "h = new_hobj d tab (ensure_guid f s) f data sel w"
        by (auto simp: bound' dest: foldl_added_set)
      then show ?thesis
      proof cases
        case 2
        with g True show ?thesis by (simp add: new_hobj_def fe s3 or_else_def)
      qed (rule old)
    next
      case False
      with h show ?thesis by (intro old [of e']) (simp add: bound')
    qed
  qed
  ultimately show "evs_ok tab s'" by (simp add: evs_ok_def)
qed

end

subsection \<open>Unbinding keeps the registry correct\<close>

declare event_remove.simps(2) [simp del]

declare event_add.simps [simp del]

text \<open>What a name of \<open>off\<close> takes off, of the handlers of a type.\<close>

definition hits :: "'v specials \<Rightarrow> (fn \<Rightarrow> nat option) \<Rightarrow> bool \<Rightarrow> fn option \<Rightarrow> string option \<Rightarrow> string \<Rightarrow> string \<Rightarrow> 'v hobj \<Rightarrow> bool" where
  "hits tab num mappedTypes f sel w ty h \<longleftrightarrow>
     (ev_type w = '''' \<or> mapped_type tab sel (ev_type w) = ty \<and> (mappedTypes \<or> ev_type w = h_origType h)) \<and>
     (case f of None \<Rightarrow> True | Some g \<Rightarrow> num g = Some (h_guid h)) \<and>
     (ev_ns w = None \<or> ns_test (namespaces w) (h_namespace h)) \<and>
     (\<not> some_text sel \<or> sel = h_selector h \<or> sel = Some ''**'' \<and> delegated h)"

text \<open>A state in which some handlers of a target are gone, and nothing else is different.\<close>

definition pruned :: "target \<Rightarrow> (string \<Rightarrow> 'v hobj \<Rightarrow> bool) \<Rightarrow> 'v evs \<Rightarrow> 'v evs \<Rightarrow> bool" where
  "pruned e P s t \<longleftrightarrow>
     (\<forall>ty. bound t e ty = filter (\<lambda>h. \<not> P ty h) (bound s e ty)) \<and>
     (\<forall>e'. e' \<noteq> e \<longrightarrow> events t e' = events s e' \<and> handle t e' = handle s e' \<and> listeners t e' = listeners s e') \<and>
     fguid t = fguid s \<and> guid t = guid s"

lemma bound_other: "events t e' = events s e' \<Longrightarrow> bound t e' ty = bound s e' ty"
  by (simp add: bound_def handlers_at_def)

lemma pruned_refl: "(\<And>ty h. h \<in> set (bound s e ty) \<Longrightarrow> \<not> P ty h) \<Longrightarrow> pruned e P s s"
  by (simp add: pruned_def)

lemma pruned_trans: "pruned e P s t \<Longrightarrow> pruned e Q t u \<Longrightarrow> pruned e (\<lambda>ty h. P ty h \<or> Q ty h) s u"
  by (simp add: pruned_def conj_commute)

lemma pruned_cong:
  "pruned e P s t \<Longrightarrow> (\<And>ty h. h \<in> set (bound s e ty) \<Longrightarrow> P ty h = Q ty h) \<Longrightarrow> pruned e Q s t"
  by (auto simp: pruned_def intro!: filter_cong)

lemma pruned_target_ok: "pruned e P s t \<Longrightarrow> e' \<noteq> e \<Longrightarrow> target_ok tab s e' \<Longrightarrow> target_ok tab t e'"
  by (auto simp: pruned_def target_ok_def entry_ok_def split: option.splits)

lemma pruned_ok:
  assumes "pruned e P s t" "evs_ok tab s" "target_ok tab t e"
  shows "evs_ok tab t"
proof -
  have "target_ok tab t e'" for e'
    using assms pruned_target_ok [of e P s t e' tab] by (cases "e' = e") (auto simp: evs_ok_def)
  moreover have "guids_ok t" using assms(1,2) guids_ok_cong [of t s] by (auto simp: pruned_def evs_ok_def)
  moreover have "numbered t"
    unfolding numbered_def
  proof (intro allI ballI)
    fix e' ty h assume "h \<in> set (bound t e' ty)"
    then have "h \<in> set (bound s e' ty)"
      using assms(1) bound_other [of t e' s ty] by (cases "e' = e") (auto simp: pruned_def)
    then show "fguid t (h_handler h) = Some (h_guid h)"
      using assms(1,2) by (auto simp: pruned_def evs_ok_def numbered_def)
  qed
  ultimately show ?thesis by (simp add: evs_ok_def)
qed

lemma bound_hlist_ok:
  assumes "target_ok tab s e" "handlers_at s e ty = Some hl"
  shows "hlist_ok tab ty hl" "hs hl \<noteq> []"
proof -
  from assms(2) obtain evl where evl: "events s e = Some evl" "oget evl ty = Some hl"
    by (auto simp: handlers_at_def split: option.splits)
  then have "(ty, hl) \<in> set evl" by (simp add: oget_def map_of_SomeD)
  with assms(1) evl show "hlist_ok tab ty hl" "hs hl \<noteq> []" by (auto simp: target_ok_def entry_ok_def)
qed

lemma bound_hobj_ok: "target_ok tab s e \<Longrightarrow> h \<in> set (bound s e ty) \<Longrightarrow> hobj_ok tab ty h"
  by (cases "handlers_at s e ty") (auto simp: bound_def hlist_ok_def list_all_iff dest: bound_hlist_ok(1))

lemma matches_removal_cong: assumes "fguid t = fguid s" shows "matches_removal t = matches_removal s"
  by (rule ext)+ (simp only: matches_removal_def assms)

lemma hits_typed:
  "ev_type w \<noteq> '''' \<Longrightarrow> hits tab (fguid s) m f sel w ty h \<longleftrightarrow> mapped_type tab sel (ev_type w) = ty \<and> matches_removal s m w f sel h"
  by (auto simp: hits_def matches_removal_def delegated_def)

lemma typeless_cases:
  assumes "ev_type w = ''''" "rtypenamespace w \<noteq> None"
  shows "w = [] \<or> (\<exists>c ns. w = CHR ''.'' # c # ns)"
proof (cases w)
  case (Cons x xs)
  have x: "x = CHR ''.''"
  proof (rule ccontr)
    assume "x \<noteq> CHR ''.''"
    with assms Cons show False
      by (simp add: ev_type_def rtypenamespace_def split: list.splits)
  qed
  with assms(2) Cons show ?thesis by (cases xs) (simp_all add: rtypenamespace_def)
qed simp

lemma typeless_parts:
  assumes "name_ok ty" "ev_type w = ''''" "rtypenamespace w \<noteq> None"
  shows "ev_type (ty @ w) = ty \<and> ev_ns (ty @ w) = ev_ns w"
proof -
  have dw: "dropWhile (\<lambda>c. c \<noteq> CHR ''.'') (ty @ w) = dropWhile (\<lambda>c. c \<noteq> CHR ''.'') w"
    "takeWhile (\<lambda>c. c \<noteq> CHR ''.'') (ty @ w) = ty @ takeWhile (\<lambda>c. c \<noteq> CHR ''.'') w"
  proof -
    have no: "\<And>x. x \<in> set ty \<Longrightarrow> x \<noteq> CHR ''.''" using assms(1) by (auto simp: name_ok_def)
    show "dropWhile (\<lambda>c. c \<noteq> CHR ''.'') (ty @ w) = dropWhile (\<lambda>c. c \<noteq> CHR ''.'') w"
      by (rule dropWhile_append2) (rule no)
    show "takeWhile (\<lambda>c. c \<noteq> CHR ''.'') (ty @ w) = ty @ takeWhile (\<lambda>c. c \<noteq> CHR ''.'') w"
      by (rule takeWhile_append2) (rule no)
  qed
  from typeless_cases [OF assms(2,3)] show ?thesis
  proof
    assume w: "w = []"
    have nil: "dropWhile (\<lambda>c. c \<noteq> CHR ''.'') ty = []" using dw(1) by (simp only: w append_Nil2 dropWhile.simps)
    from w show ?thesis by (simp add: ev_type_def ev_ns_def rtypenamespace_def nil del: dropWhile_eq_Nil_conv)
  next
    assume "\<exists>c ns. w = CHR ''.'' # c # ns"
    then obtain c ns where "w = CHR ''.'' # c # ns" by blast
    with dw show ?thesis by (simp add: ev_type_def ev_ns_def rtypenamespace_def)
  qed
qed

lemma take_splice: "j < length xs \<Longrightarrow> take j (splice_out j xs) = take j xs" "j < length xs \<Longrightarrow> drop j (splice_out j xs) = drop (Suc j) xs"
  by (simp_all add: splice_out_def)

lemma split_types_word: "w \<noteq> '''' \<Longrightarrow> \<forall>c \<in> set w. \<not> is_space c \<Longrightarrow> split_types w = [w]"
  by (simp add: split_types_def words_def words_by_word)

lemma pruned_fguid: "pruned e P s t \<Longrightarrow> fguid t = fguid s"
  by (simp add: pruned_def)

lemma hits_typeless:
  assumes "name_ok ty" "ev_type w = ''''" "rtypenamespace w \<noteq> None"
  shows "hits tab num True f sel (ty @ w) t h \<longleftrightarrow> mapped_type tab sel ty = t \<and> hits tab num m f sel w t h"
  using typeless_parts [OF assms] assms(1,2) by (auto simp: hits_def namespaces_def name_ok_def)

lemma bound_key: "events s e = Some evl \<Longrightarrow> h \<in> set (bound s e ty) \<Longrightarrow> ty \<in> set (okeys evl)"
  by (cases "oget evl ty") (auto simp: bound_def handlers_at_def dest: oget_Some_keys)

lemma forget_empty_ok:
  assumes "target_ok tab s e"
  shows "pruned e (\<lambda>_ _. False) s (forget_empty e s)" "target_ok tab (forget_empty e s) e"
proof -
  show "pruned e (\<lambda>_ _. False) s (forget_empty e s)"
    by (auto simp: pruned_def forget_empty_def bound_def handlers_at_def)
  show "target_ok tab (forget_empty e s) e"
  proof (cases "events s e = Some []")
    case True
    with assms have "entry_ok tab s e []" by (simp add: target_ok_def)
    then have "listeners s e = []" by (simp add: entry_ok_def okeys_def)
    with True show ?thesis by (simp add: forget_empty_def target_ok_def)
  qed (use assms in \<open>simp add: forget_empty_def\<close>)
qed

context quiet_specials
begin

lemma remove_loop_fields:
  fixes P :: "'v hobj \<Rightarrow> bool" and org :: string
  assumes "handlers_at s e ty = Some hl" "j \<le> length (hs hl)"
  defines "s' \<equiv> remove_loop P (special_of tab org) e ty j s"
    and "hl' \<equiv> \<lparr>hs = filter (\<lambda>h. \<not> P h) (take j (hs hl)) @ drop j (hs hl),
             delegateCount = delegateCount hl - int (length (filter (\<lambda>h. P h \<and> delegated h) (take j (hs hl))))\<rparr>"
  shows "events s' = events (put_handlers e ty hl' s) \<and> handle s' = handle s \<and> listeners s' = listeners s \<and>
    fguid s' = fguid s \<and> guid s' = guid s"
  using assms(1,2) unfolding s'_def hl'_def
proof (induction j arbitrary: s hl)
  case 0
  obtain evl where "events s e = Some evl" "oget evl ty = Some hl"
    using 0 by (auto simp: handlers_at_def split: option.splits)
  then have "oset evl ty hl = evl" by (simp add: oset_def oget_def update_triv)
  then have "oset evl ty \<lparr>hs = hs hl, delegateCount = delegateCount hl\<rparr> = evl" by (cases hl) simp
  then show ?case using \<open>events s e = Some evl\<close> by (simp add: put_handlers_def or_else_def fun_eq_iff)
next
  case (Suc j)
  let ?h = "hs hl ! j"
  have j: "j < length (hs hl)" using Suc.prems(2) by simp
  then have take: "take (Suc j) (hs hl) = take j (hs hl) @ [?h]" "drop j (hs hl) = ?h # drop (Suc j) (hs hl)"
    by (simp_all add: take_Suc_conv_app_nth Cons_nth_drop_Suc)
  show ?case
  proof (cases "P ?h")
    case False
    with Suc.IH [OF Suc.prems(1)] Suc.prems j show ?thesis by (simp add: take Let_def)
  next
    case True
    define hl1 where "hl1 = \<lparr>hs = splice_out j (hs hl), delegateCount = (if some_text (h_selector ?h) then delegateCount hl - 1 else delegateCount hl)\<rparr>"
    define s1 where "s1 = put_handlers e ty hl1 s"
    define s2 where "s2 = (case sp_remove (special_of tab org) of None \<Rightarrow> s1 | Some hook \<Rightarrow> hook e ?h s1)"
    have q: "same_reg s1 s2"
      using remove_quiet by (auto simp: s2_def split: option.splits)
    have at: "handlers_at s2 e ty = Some hl1"
      using handlers_at_cong [OF same_regD(1) [OF q]] by (simp add: s1_def ev_simps)
    have len: "j \<le> length (hs hl1)" using j by (simp add: hl1_def)
    have put: "events (put_handlers e ty hl2 s2) = events (put_handlers e ty hl2 s)" for hl2
      using same_regD(1) [OF q] by (simp add: s1_def put_handlers_def or_else_def oset_oset)
    have loop: "remove_loop P (special_of tab org) e ty (Suc j) s = remove_loop P (special_of tab org) e ty j s2"
      by (simp only: remove_loop.simps Suc.prems(1) option.case Let_def True if_True s2_def s1_def hl1_def)
    show ?thesis
      unfolding loop
      using Suc.IH [OF at len] True same_regD [OF q] j
      by (simp add: put take hl1_def take_splice s1_def ev_simps delegated_def algebra_simps)
  qed
qed

lemma drop_type_fields:
  "events (drop_type (special_of tab org) e ty s) = (events s)(e := map_option (\<lambda>evl. odel evl ty) (events s e))"
  "handle (drop_type (special_of tab org) e ty s) = handle s"
  "fguid (drop_type (special_of tab org) e ty s) = fguid s"
  "guid (drop_type (special_of tab org) e ty s) = guid s"
  "listeners (drop_type (special_of tab org) e ty s) =
     (if teardownHook (special_of tab org) = None then (listeners s)(e := removeAll ty (listeners s e)) else listeners s)"
proof -
  have q: "\<not> fst (hook e s) \<and> same_reg s (snd (hook e s))" if "teardownHook (special_of tab org) = Some hook" for hook
    by (rule teardown_quiet) (rule that)
  show "events (drop_type (special_of tab org) e ty s) = (events s)(e := map_option (\<lambda>evl. odel evl ty) (events s e))"
    "handle (drop_type (special_of tab org) e ty s) = handle s"
    "fguid (drop_type (special_of tab org) e ty s) = fguid s"
    "guid (drop_type (special_of tab org) e ty s) = guid s"
    "listeners (drop_type (special_of tab org) e ty s) =
      (if teardownHook (special_of tab org) = None then (listeners s)(e := removeAll ty (listeners s e)) else listeners s)"
    using q by (cases "teardownHook (special_of tab org)";
        simp add: drop_type_def removeEvent_def same_reg_def Let_def case_prod_beta)+
qed

text \<open>One name with a type.\<close>

lemma remove_typed_ok:
  fixes m :: bool and sel :: "string option" and f :: "fn option"
  assumes ok: "target_ok tab s e" and w: "ev_type w \<noteq> ''''"
  defines "s' \<equiv> remove_typed tab e f sel m w s"
  shows "pruned e (hits tab (fguid s) m f sel w) s s'" "target_ok tab s' e" "handle s' = handle s"
    "events s' e = None \<longleftrightarrow> events s e = None"
proof -
  define ty where "ty = mapped_type tab sel (ev_type w)"
  define P where "P = matches_removal s m w f sel"
  have hit: "hits tab (fguid s) m f sel w t h \<longleftrightarrow> t = ty \<and> P h" for t h
    by (auto simp: ty_def P_def hits_typed [OF w])
  have "pruned e (hits tab (fguid s) m f sel w) s s' \<and> target_ok tab s' e \<and> handle s' = handle s \<and> (events s' e = None \<longleftrightarrow> events s e = None)"
  proof (cases "handlers_at s e ty")
    case None
    then have "s' = s" by (simp add: s'_def remove_typed_def Let_def ty_def [symmetric])
    moreover have "bound s e ty = []" using None by (simp add: bound_def)
    ultimately show ?thesis using ok by (auto simp: hit intro!: pruned_refl)
  next
    case (Some hl)
    then obtain evl where evl: "events s e = Some evl" "oget evl ty = Some hl"
      by (auto simp: handlers_at_def split: option.splits)
    have ent: "entry_ok tab s e evl" using ok evl(1) by (simp add: target_ok_def)
    note hl = bound_hlist_ok [OF ok Some]
    define s1 where "s1 = remove_loop P (special_of tab (ev_type w)) e ty (length (hs hl)) s"
    define hl' where "hl' = \<lparr>hs = filter (\<lambda>h. \<not> P h) (hs hl), delegateCount = delegateCount hl - int (length (filter (\<lambda>h. P h \<and> delegated h) (hs hl)))\<rparr>"
    have s1: "events s1 = (events s)(e := Some (oset evl ty hl'))" "handle s1 = handle s" "listeners s1 = listeners s"
      "fguid s1 = fguid s" "guid s1 = guid s"
      using remove_loop_fields [OF Some le_refl, of P "ev_type w"] evl(1)
      by (simp_all add: s1_def hl'_def put_handlers_def or_else_def)
    have hl': "hlist_ok tab ty hl'"
    proof -
      have "length (filter delegated l) = length (filter (\<lambda>h. \<not> P h \<and> delegated h) l) + length (filter (\<lambda>h. P h \<and> delegated h) l)" for l
        by (induction l) auto
      from this [of "hs hl"] show ?thesis using hl(1)
        by (auto simp: hlist_ok_def hl'_def filter_arrange list_all_iff conj_commute)
    qed
    have at1: "handlers_at s1 e ty = Some hl'" by (simp add: handlers_at_def s1)
    have s': "s' = (if hs hl' = [] then drop_type (special_of tab (ev_type w)) e ty s1 else s1)"
      using Some hl(2) by (simp add: s'_def remove_typed_def Let_def ty_def [symmetric] P_def [symmetric] s1_def [symmetric] at1)
    show ?thesis
    proof (cases "hs hl' = []")
      case False
      have "entry_ok tab s1 e (oset evl ty hl')"
        using ent hl' False set_oset [of evl ty hl'] oget_Some_keys [OF evl(2)]
        by (auto simp: entry_ok_def s1 insert_absorb)
      then have "target_ok tab s1 e" using ok evl(1) by (simp add: target_ok_def s1)
      moreover have "pruned e (hits tab (fguid s) m f sel w) s s1"
        using evl by (auto simp: pruned_def s1 bound_def handlers_at_def hit hl'_def)
      ultimately show ?thesis using False evl by (simp add: s' s1)
    next
      case True
      note drop = drop_type_fields [of "ev_type w" e ty s1]
      have lis: "t \<in> set (listeners (drop_type (special_of tab (ev_type w)) e ty s1) e) \<longleftrightarrow> t \<noteq> ty \<and> t \<in> set (listeners s e)" for t
      proof (cases "teardownHook (special_of tab (ev_type w))")
        case (Some hook)
        then have "setupHook (special_of tab ty) \<noteq> None" using teardown_own [of "ev_type w" sel] by (simp add: ty_def)
        then have "ty \<notin> set (listeners s e)" using ent by (auto simp: entry_ok_def)
        with Some show ?thesis by (auto simp: drop s1)
      qed (auto simp: drop s1)
      have ent': "entry_ok tab s' e (odel (oset evl ty hl') ty)"
        unfolding entry_ok_def
      proof (intro conjI)
        show "distinct (okeys (odel (oset evl ty hl') ty))" using ent by (simp add: entry_ok_def)
        have rest: "(t, l) \<in> set (odel (oset evl ty hl') ty) \<Longrightarrow> t \<noteq> ty \<and> (t, l) \<in> set evl" for t l
          using set_odel [of "oset evl ty hl'" ty] set_oset [of evl ty hl'] by (auto simp: odel_def AList.delete_eq)
        show "\<forall>(t, l) \<in> set (odel (oset evl ty hl') ty). hlist_ok tab t l \<and> hs l \<noteq> []"
          using ent by (auto simp: entry_ok_def dest!: rest)
        show "\<forall>t. t \<in> set (listeners s' e) \<longleftrightarrow> t \<in> set (okeys (odel (oset evl ty hl') ty)) \<and> setupHook (special_of tab t) = None"
          using ent by (auto simp: s' True lis entry_ok_def)
      qed
      have "bound s e ty = hs hl" using Some by (simp add: bound_def)
      moreover have "filter (\<lambda>h. \<not> P h) (hs hl) = []" using True by (simp add: hl'_def)
      ultimately have "pruned e (hits tab (fguid s) m f sel w) s s'"
        using evl by (auto simp: pruned_def s' True drop s1 bound_def handlers_at_def hit)
      moreover have "target_ok tab s' e" using ok evl(1) ent' by (simp add: target_ok_def s' True drop s1)
      ultimately show ?thesis using evl by (simp add: s' True drop s1)
    qed
  qed
  then show "pruned e (hits tab (fguid s) m f sel w) s s'" "target_ok tab s' e" "handle s' = handle s"
    "events s' e = None \<longleftrightarrow> events s e = None" by simp_all
qed

text \<open>A call for one name that has a type needs one level of the stack.\<close>

lemma remove_single:
  fixes m :: bool
  assumes ok: "target_ok tab s e" and w: "ev_type w \<noteq> ''''" "\<forall>c \<in> set w. \<not> is_space c"
  shows "\<exists>s'. event_remove (Suc n) tab e w f sel m s = Returns s' \<and> pruned e (hits tab (fguid s) m f sel w) s s' \<and> target_ok tab s' e"
proof (cases "events s e = None")
  case True
  then show ?thesis using ok by (auto simp: event_remove.simps(2) bound_def handlers_at_def intro!: pruned_refl)
next
  case False
  have "w \<noteq> ''''" using w(1) by (auto simp: ev_type_def rtypenamespace_def)
  then have sp: "split_types w = [w]" using w(2) by (rule split_types_word)
  let ?s1 = "remove_typed tab e f sel m w s"
  have run: "event_remove (Suc n) tab e w f sel m s = Returns (forget_empty e ?s1)"
    by (simp add: event_remove.simps(2) False w(1) sp remove_word_def)
  have "pruned e (\<lambda>ty h. hits tab (fguid s) m f sel w ty h \<or> False) s (forget_empty e ?s1)"
    by (rule pruned_trans [OF remove_typed_ok(1) [OF ok w(1)] forget_empty_ok(1)]) (rule remove_typed_ok(2) [OF ok w(1)])
  with run show ?thesis using forget_empty_ok(2) [OF remove_typed_ok(2) [OF ok w(1)]] by simp
qed

text \<open>A name space without a type: the loop over the names of the events object.\<close>

lemma remove_keys_ok:
  fixes m :: bool
  assumes w: "ev_type w = ''''" "rtypenamespace w \<noteq> None" "\<forall>c \<in> set w. \<not> is_space c"
    and ok: "target_ok tab s e" and ks: "\<forall>k \<in> set ks. name_ok k"
  shows "\<exists>s' R. run_all (\<lambda>ty s. if handlers_at s e ty = None then Returns s else event_remove (Suc n) tab e (ty @ w) f sel True s) ks s = Returns s' \<and>
     pruned e (\<lambda>ty h. hits tab (fguid s) m f sel w ty h \<and> R ty) s s' \<and> target_ok tab s' e \<and>
     (\<forall>ty \<in> set ks. mapped_type tab sel ty = ty \<longrightarrow> R ty)"
  using ok ks
proof (induction ks arbitrary: s)
  case Nil
  then show ?case by (auto intro!: exI [of _ "\<lambda>_. False"] pruned_refl)
next
  case (Cons k ks)
  have k: "name_ok k" using Cons.prems(2) by simp
  have ks: "\<forall>k \<in> set ks. name_ok k" using Cons.prems(2) by simp
  show ?case
  proof (cases "handlers_at s e k = None")
    case True
    from Cons.IH [OF Cons.prems(1) ks] obtain s' R where
      R: "run_all (\<lambda>ty s. if handlers_at s e ty = None then Returns s else event_remove (Suc n) tab e (ty @ w) f sel True s) ks s = Returns s'"
        "pruned e (\<lambda>ty h. hits tab (fguid s) m f sel w ty h \<and> R ty) s s'" "target_ok tab s' e"
        "\<forall>ty \<in> set ks. mapped_type tab sel ty = ty \<longrightarrow> R ty" by blast
    have "bound s e k = []" using True by (simp add: bound_def)
    then have "pruned e (\<lambda>ty h. hits tab (fguid s) m f sel w ty h \<and> (ty = k \<or> R ty)) s s'"
      by (intro pruned_cong [OF R(2)]) auto
    with R True show ?thesis by (auto intro!: exI [of _ s'] exI [of _ "\<lambda>ty. ty = k \<or> R ty"])
  next
    case False
    have kw: "ev_type (k @ w) \<noteq> ''''" "\<forall>c \<in> set (k @ w). \<not> is_space c"
      using typeless_parts [OF k w(1,2)] k w(3) by (auto simp: name_ok_def)
    from remove_single [OF Cons.prems(1) kw, of n f sel True] obtain s1 where
      s1: "event_remove (Suc n) tab e (k @ w) f sel True s = Returns s1" "target_ok tab s1 e"
        "pruned e (hits tab (fguid s) True f sel (k @ w)) s s1" by blast
    from Cons.IH [OF s1(2) ks] obtain s' R where
      R: "run_all (\<lambda>ty s. if handlers_at s e ty = None then Returns s else event_remove (Suc n) tab e (ty @ w) f sel True s) ks s1 = Returns s'"
        "pruned e (\<lambda>ty h. hits tab (fguid s1) m f sel w ty h \<and> R ty) s1 s'" "target_ok tab s' e"
        "\<forall>ty \<in> set ks. mapped_type tab sel ty = ty \<longrightarrow> R ty" by blast
    have "pruned e (\<lambda>ty h. hits tab (fguid s) m f sel w ty h \<and> (mapped_type tab sel k = ty \<or> R ty)) s s'"
      by (rule pruned_cong [OF pruned_trans [OF s1(3) R(2)]])
         (auto simp: hits_typeless [OF k w(1,2), where m = m] pruned_fguid [OF s1(3)])
    with R False s1(1) show ?thesis
      by (auto intro!: exI [of _ s'] exI [of _ "\<lambda>ty. mapped_type tab sel k = ty \<or> R ty"])
  qed
qed

text \<open>Of a type that is no type of its own any more for this kind of binding, nothing is hit.\<close>

lemma hits_own_type:
  assumes "target_ok tab s e" "h \<in> set (bound s e ty)" "ev_type w = ''''" "hits tab num m f sel w ty h"
  shows "mapped_type tab sel ty = ty"
proof -
  from bound_hobj_ok [OF assms(1,2)] have h: "mapped_type tab (h_selector h) (h_origType h) = ty"
    by (simp add: hobj_ok_def)
  show ?thesis
  proof (cases "some_text sel")
    case True
    with assms(3,4) have "some_text (h_selector h)" by (auto simp: hits_def delegated_def)
    with True have "mapped_type tab sel x = mapped_type tab (h_selector h) x" for x by (simp add: mapped_type_def)
    with h mapped_again [of "h_selector h" "h_origType h"] show ?thesis by simp
  next
    case False
    then have "mapped_type tab sel x = mapped_type tab None x" for x by (simp add: mapped_type_def some_text_def)
    with h mapped_direct [of "h_selector h" "h_origType h"] show ?thesis by simp
  qed
qed

lemma key_name_ok:
  assumes ok: "target_ok tab s e" and evl: "events s e = Some evl" "ty \<in> set (okeys evl)"
  shows "name_ok ty" "bound s e ty \<noteq> []"
proof -
  from evl obtain hl where "handlers_at s e ty = Some hl"
    by (cases "oget evl ty") (auto simp: handlers_at_def oget_None_iff)
  from bound_hlist_ok [OF ok this] have hl: "hlist_ok tab ty hl" "hs hl \<noteq> []" by simp_all
  with \<open>handlers_at s e ty = Some hl\<close> show ne: "bound s e ty \<noteq> []" by (simp add: bound_def)
  then obtain h where "h \<in> set (bound s e ty)" by (meson hd_in_set)
  from bound_hobj_ok [OF ok this] have h: "mapped_type tab (h_selector h) (h_origType h) = ty" "name_ok (h_origType h)"
    by (simp_all add: hobj_ok_def)
  from mapped_name [OF h(2), of "h_selector h"] show "name_ok ty" unfolding h(1) .
qed

text \<open>One name of a call: with two levels of the stack left below it, it takes off what it hits.\<close>

lemma remove_word_ok:
  fixes m :: bool
  assumes ok: "target_ok tab s e" and w: "rtypenamespace w \<noteq> None" "\<forall>c \<in> set w. \<not> is_space c"
  shows "\<exists>s'. remove_word (\<lambda>ty. event_remove (Suc n) tab e ty f sel True) tab e f sel m w s = Returns s' \<and>
     pruned e (hits tab (fguid s) m f sel w) s s' \<and> target_ok tab s' e"
proof (cases "ev_type w = ''''")
  case False
  then show ?thesis using remove_typed_ok [OF ok False] by (simp add: remove_word_def)
next
  case True
  define ks where "ks = okeys (or_else (events s e) [])"
  have names: "\<forall>k \<in> set ks. name_ok k"
    using key_name_ok(1) [OF ok] by (cases "events s e") (auto simp: ks_def or_else_def okeys_def)
  from remove_keys_ok [OF True w ok names, of n f sel m] obtain s' R where
    R: "run_all (\<lambda>ty s. if handlers_at s e ty = None then Returns s else event_remove (Suc n) tab e (ty @ w) f sel True s) ks s = Returns s'"
      "pruned e (\<lambda>ty h. hits tab (fguid s) m f sel w ty h \<and> R ty) s s'" "target_ok tab s' e"
      "\<forall>ty \<in> set ks. mapped_type tab sel ty = ty \<longrightarrow> R ty" by blast
  have "pruned e (hits tab (fguid s) m f sel w) s s'"
  proof (rule pruned_cong [OF R(2)])
    fix ty h
    assume h: "h \<in> set (bound s e ty)"
    then have "ty \<in> set ks"
      using bound_key [of s e _ h ty] by (cases "events s e") (auto simp: ks_def or_else_def bound_def handlers_at_def)
    then show "(hits tab (fguid s) m f sel w ty h \<and> R ty) = hits tab (fguid s) m f sel w ty h"
      using hits_own_type [OF ok h True] R(4) by blast
  qed
  with R(1,3) True show ?thesis by (simp add: remove_word_def remove_each_def ks_def)
qed

lemma remove_words_ok:
  fixes m :: bool
  assumes "target_ok tab s e" "\<forall>w \<in> set ws. rtypenamespace w \<noteq> None \<and> (\<forall>c \<in> set w. \<not> is_space c)"
  shows "\<exists>s'. run_all (remove_word (\<lambda>ty. event_remove (Suc n) tab e ty f sel True) tab e f sel m) ws s = Returns s' \<and>
     pruned e (\<lambda>ty h. \<exists>w \<in> set ws. hits tab (fguid s) m f sel w ty h) s s' \<and> target_ok tab s' e"
  using assms
proof (induction ws arbitrary: s)
  case Nil
  then show ?case by (auto intro!: pruned_refl)
next
  case (Cons w ws)
  have w: "rtypenamespace w \<noteq> None" "\<forall>c \<in> set w. \<not> is_space c"
    and ws: "\<forall>w \<in> set ws. rtypenamespace w \<noteq> None \<and> (\<forall>c \<in> set w. \<not> is_space c)" using Cons.prems(2) by auto
  from remove_word_ok [OF Cons.prems(1) w, of n f sel m] obtain s1 where
    s1: "remove_word (\<lambda>ty. event_remove (Suc n) tab e ty f sel True) tab e f sel m w s = Returns s1"
      "pruned e (hits tab (fguid s) m f sel w) s s1" "target_ok tab s1 e" by blast
  from Cons.IH [OF s1(3) ws] obtain s2 where
    s2: "run_all (remove_word (\<lambda>ty. event_remove (Suc n) tab e ty f sel True) tab e f sel m) ws s1 = Returns s2"
      "pruned e (\<lambda>ty h. \<exists>w \<in> set ws. hits tab (fguid s1) m f sel w ty h) s1 s2" "target_ok tab s2 e" by blast
  have "pruned e (\<lambda>ty h. \<exists>w \<in> set (w # ws). hits tab (fguid s) m f sel w ty h) s s2"
    by (rule pruned_cong [OF pruned_trans [OF s1(2) s2(2)]]) (simp add: pruned_fguid [OF s1(2)])
  with s1(1) s2(1,3) show ?case by auto
qed

text \<open>Unbinding: it returns, and what is bound is what was bound less what the names hit.\<close>

lemma event_remove_ok:
  fixes m :: bool
  assumes ok: "target_ok tab s e" and types: "\<forall>w \<in> set (split_types types). rtypenamespace w \<noteq> None"
  shows "\<exists>s'. event_remove (Suc (Suc n)) tab e types f sel m s = Returns s' \<and>
     pruned e (\<lambda>ty h. \<exists>w \<in> set (split_types types). hits tab (fguid s) m f sel w ty h) s s' \<and> target_ok tab s' e"
proof (cases "events s e = None")
  case True
  then show ?thesis using ok by (auto simp: event_remove.simps(2) bound_def handlers_at_def intro!: pruned_refl)
next
  case False
  have ws: "\<forall>w \<in> set (rev (split_types types)). rtypenamespace w \<noteq> None \<and> (\<forall>c \<in> set w. \<not> is_space c)"
    using types split_types_spaces by simp
  from remove_words_ok [OF ok ws, of n f sel m] obtain s1 where
    s1: "run_all (remove_word (\<lambda>ty. event_remove (Suc n) tab e ty f sel True) tab e f sel m) (rev (split_types types)) s = Returns s1"
      "pruned e (\<lambda>ty h. \<exists>w \<in> set (rev (split_types types)). hits tab (fguid s) m f sel w ty h) s s1" "target_ok tab s1 e" by blast
  have run: "event_remove (Suc (Suc n)) tab e types f sel m s = Returns (forget_empty e s1)"
    by (simp only: event_remove.simps(2) [of "Suc n"] False if_False s1(1) run.case)
  have "pruned e (\<lambda>ty h. \<exists>w \<in> set (split_types types). hits tab (fguid s) m f sel w ty h) s (forget_empty e s1)"
    by (rule pruned_cong [OF pruned_trans [OF s1(2) forget_empty_ok(1) [OF s1(3)]]]) simp
  with run forget_empty_ok(2) [OF s1(3)] show ?thesis by blast
qed

end

subsection \<open>Names that do not match\<close>

lemma rtypenamespace_None: "rtypenamespace w = None \<longleftrightarrow> (\<exists>c. dropWhile (\<lambda>c. c \<noteq> CHR ''.'') w = [c])"
  unfolding rtypenamespace_def by (cases "dropWhile (\<lambda>c. c \<noteq> CHR ''.'') w" rule: remdups_adj.cases) (simp_all del: dropWhile_eq_Nil_conv)

lemma malformed_append:
  assumes "rtypenamespace w = None" "CHR ''.'' \<notin> set ty"
  shows "rtypenamespace (ty @ w) = None"
proof -
  have "dropWhile (\<lambda>c. c \<noteq> CHR ''.'') (ty @ w) = dropWhile (\<lambda>c. c \<noteq> CHR ''.'') w"
    by (rule dropWhile_append2) (use assms(2) in auto)
  then show ?thesis using assms(1) unfolding rtypenamespace_None by simp
qed

lemma malformed_type: "rtypenamespace w = None \<Longrightarrow> ev_type w = '''' \<and> w \<noteq> ''''"
  by (auto simp: ev_type_def rtypenamespace_def)

text \<open>What a call leaves behind in any case, also when the stack is exhausted.\<close>

definition left_ok :: "'v specials \<Rightarrow> target \<Rightarrow> 'v evs \<Rightarrow> 'v evs run \<Rightarrow> bool" where
  "left_ok tab e s r \<longleftrightarrow> (\<exists>P. pruned e P s (after r)) \<and> target_ok tab (after r) e"

lemma left_ok_run_all:
  assumes "\<And>x s. x \<in> set xs \<Longrightarrow> target_ok tab s e \<Longrightarrow> left_ok tab e s (f x s)" "target_ok tab s e"
  shows "left_ok tab e s (run_all f xs s)"
  using assms
proof (induction xs arbitrary: s)
  case Nil
  then show ?case by (auto simp: left_ok_def intro!: exI [of _ "\<lambda>_ _. False"] pruned_refl)
next
  case (Cons x xs)
  have x: "left_ok tab e s (f x s)" by (rule Cons.prems) (use Cons.prems in auto)
  show ?case
  proof (cases "f x s")
    case (Returns s1)
    have "left_ok tab e s1 (run_all f xs s1)"
      by (rule Cons.IH) (use Cons.prems x Returns in \<open>auto simp: left_ok_def\<close>)
    with x Returns show ?thesis by (auto simp: left_ok_def dest: pruned_trans)
  qed (use x in simp)
qed

context quiet_specials
begin

lemma event_remove_keeps:
  fixes m :: bool
  assumes "target_ok tab s e"
  shows "left_ok tab e s (event_remove n tab e types f sel m s)"
  using assms
proof (induction n arbitrary: types m s)
  case 0
  then show ?case by (auto simp: left_ok_def intro!: exI [of _ "\<lambda>_ _. False"] pruned_refl)
next
  case (Suc n)
  have same: "left_ok tab e s (Returns s)" if "target_ok tab s e" for s
    using that by (auto simp: left_ok_def intro!: exI [of _ "\<lambda>_ _. False"] pruned_refl)
  have word: "left_ok tab e s (remove_word (\<lambda>ty. event_remove n tab e ty f sel True) tab e f sel m w s)"
    if ok: "target_ok tab s e" for w s
  proof (cases "ev_type w = ''''")
    case True
    show ?thesis
      unfolding remove_word_def if_P [OF True] remove_each_def
      by (rule left_ok_run_all) (use same Suc.IH ok in auto)
  next
    case False
    with remove_typed_ok [OF ok False] show ?thesis by (auto simp: remove_word_def left_ok_def)
  qed
  let ?r = "run_all (remove_word (\<lambda>ty. event_remove n tab e ty f sel True) tab e f sel m) (rev (split_types types)) s"
  have r: "left_ok tab e s ?r" by (rule left_ok_run_all) (use word Suc.prems in auto)
  show ?case
  proof (cases "events s e = None")
    case True
    then show ?thesis using same [OF Suc.prems] by (simp add: event_remove.simps(2))
  next
    case False
    show ?thesis
    proof (cases ?r)
      case (Returns s1)
      then have "target_ok tab s1 e" "\<exists>P. pruned e P s s1" using r by (auto simp: left_ok_def)
      then have "\<exists>P. pruned e P s (forget_empty e s1)" "target_ok tab (forget_empty e s1) e"
        using forget_empty_ok [of tab s1 e] by (blast dest: pruned_trans)+
      then show ?thesis by (simp add: event_remove.simps(2) left_ok_def False Returns)
    qed (use r in \<open>simp add: event_remove.simps(2) False\<close>)
  qed
qed

text \<open>A name that does not match never gets to an end while something is bound.\<close>

lemma event_remove_malformed:
  fixes m :: bool
  assumes ok: "target_ok tab s e" and evl: "events s e = Some (kl # evl)"
    and w: "rtypenamespace w = None" "\<forall>c \<in> set w. \<not> is_space c"
  shows "event_remove n tab e w f sel m s = RangeError s"
  using w
proof (induction n arbitrary: w m)
  case (Suc n)
  obtain k hl where kl: "kl = (k, hl)" by fastforce
  have mal: "ev_type w = ''''" "w \<noteq> ''''" using malformed_type [OF Suc.prems(1)] by auto
  have sp: "split_types w = [w]" using mal(2) Suc.prems(2) by (rule split_types_word)
  have k: "name_ok k" by (rule key_name_ok(1) [OF ok evl]) (simp add: kl okeys_def)
  have at: "handlers_at s e k \<noteq> None" by (simp add: handlers_at_def evl kl oget_def)
  have kw: "rtypenamespace (k @ w) = None" "\<forall>c \<in> set (k @ w). \<not> is_space c"
    using malformed_append [OF Suc.prems(1)] k Suc.prems(2) by (auto simp: name_ok_def)
  from Suc.IH [OF kw, of True] have IH: "event_remove n tab e (k @ w) f sel True s = RangeError s" .
  show ?case
    using at by (auto simp: event_remove.simps(2) sp evl remove_word_def remove_each_def mal or_else_def okeys_def kl IH)
qed simp

lemma event_adds_ok:
  assumes "evs_ok tab s" "known s f"
  shows "evs_ok tab (foldl (\<lambda>s e. event_add d tab e types (Direct f) data sel s) s this)"
  using assms
proof (induction this arbitrary: s)
  case (Cons e this)
  note add = event_add_ok [OF Cons.prems, where d = d and e = e and types = types and data = data and sel = sel]
  have "known (event_add d tab e types (Direct f) data sel s) f"
    using Cons.prems(2) add(3) by (fastforce simp: known_def)
  from Cons.IH [OF add(1) this] show ?case by simp
qed simp

end

lemma evs_ok_cong:
  assumes ok: "evs_ok tab s" and same: "events t = events s" "handle t = handle s" "listeners t = listeners s"
    and g: "guids_ok t" "\<And>f n. fguid s f = Some n \<Longrightarrow> fguid t f = Some n"
  shows "evs_ok tab t"
proof -
  have b: "bound t = bound s" using same(1) by (rule bound_cong)
  have "target_ok tab t e" for e
  proof -
    have "target_ok tab s e" using ok by (simp add: evs_ok_def)
    then show ?thesis by (cases "events s e") (simp_all add: target_ok_def entry_ok_def same)
  qed
  moreover have "numbered t" using ok g(2) b by (auto simp: evs_ok_def intro: numbered_mono)
  ultimately show ?thesis using g(1) by (simp add: evs_ok_def)
qed

lemma wrap_once_ok:
  assumes ok: "evs_ok tab s" and f: "innermost f = f"
  shows "evs_ok tab (snd (wrap_once f s))" "known (snd (wrap_once f s)) (fst (wrap_once f s))"
    "events (snd (wrap_once f s)) = events s" "fst (wrap_once f s) = Wrap f"
proof -
  let ?s1 = "ensure_guid f s"
  define t where "t = ?s1\<lparr>fguid := (fguid ?s1)(Wrap f := fguid ?s1 f)\<rparr>"
  have w: "wrap_once f s = (Wrap f, t)" by (simp add: wrap_once_def t_def Let_def)
  obtain n where n: "fguid ?s1 f = Some n" using ensure_guid_fields(4) by blast
  have g1: "guids_ok ?s1" using ok f by (intro ensure_guid_ok) (simp_all add: evs_ok_def known_def)
  have ft: "fguid t g = (if g = Wrap f then Some n else fguid ?s1 g)" for g by (simp add: t_def n)
  have gt: "guid t = guid ?s1" by (simp add: t_def)
  have old: "\<exists>g'. fguid ?s1 g' = Some m \<and> innermost g' = innermost g" if "fguid t g = Some m" for g m
    using that n f by (cases "g = Wrap f") (auto simp: ft)
  have inner: "innermost g \<noteq> Wrap f" for g by (induction g) auto
  have "guids_ok t"
    unfolding guids_ok_def
  proof (intro conjI allI impI)
    fix g m assume "fguid t g = Some m"
    from old [OF this] obtain g' where g': "fguid ?s1 g' = Some m" "innermost g' = innermost g" by blast
    show "m < guid t" "0 < m" "fguid t (innermost g) = Some m"
      using guids_okD(1-3) [OF g1 g'(1)] g'(2) inner by (simp_all add: gt ft)
  next
    show "0 < guid t" using guids_okD(4) [OF g1] by (simp add: gt)
  qed
  moreover have "fguid t g = Some m" if g: "fguid s g = Some m" for g m
  proof (cases "g = Wrap f")
    case True
    have "fguid ?s1 g = Some m" using g by (rule ensure_guid_fields(5))
    then have "fguid ?s1 (innermost g) = Some m" by (rule guids_okD(3) [OF g1])
    with True f n show ?thesis by (simp add: ft)
  qed (use g in \<open>simp add: ft ensure_guid_fields(5)\<close>)
  ultimately have "evs_ok tab t"
    by (intro evs_ok_cong [OF ok]) (simp_all add: t_def ensure_guid_fields)
  then show "evs_ok tab (snd (wrap_once f s))" "known (snd (wrap_once f s)) (fst (wrap_once f s))"
    "events (snd (wrap_once f s)) = events s" "fst (wrap_once f s) = Wrap f"
    by (simp_all add: w known_def ft) (simp add: t_def ensure_guid_fields)
qed

section \<open>Runs of the page\<close>

text \<open>
  What a page does to the registry. The functions it passes are its own, not wrappers; a proxy is a
  new function, named by a number that the page has not used before.
\<close>

datatype 'v reg_call =
    On "target list" string "'v arg" "'v arg" "'v arg" bool
  | Off "target list" string "'v arg" "'v arg"
  | Proxied "'v arg" nat

definition page_arg :: "'v arg \<Rightarrow> bool" where
  "page_arg a \<longleftrightarrow> (case a of Func f \<Rightarrow> innermost f = f | _ \<Rightarrow> True)"

definition arg_names :: "'v arg \<Rightarrow> nat list" where
  "arg_names a = (case a of Func (Fn k) \<Rightarrow> [k] | _ \<Rightarrow> [])"

fun call_names :: "'v reg_call \<Rightarrow> nat list" where
  "call_names (On this types selector data f once) = arg_names selector @ arg_names data @ arg_names f"
| "call_names (Off this types selector f) = arg_names selector @ arg_names f"
| "call_names (Proxied f p) = p # arg_names f"

fun page_op :: "nat list \<Rightarrow> 'v reg_call \<Rightarrow> bool" where
  "page_op used (On this types selector data f once) \<longleftrightarrow> page_arg selector \<and> page_arg data \<and> page_arg f"
| "page_op used (Off this types selector f) \<longleftrightarrow> True"
| "page_op used (Proxied f p) \<longleftrightarrow> page_arg f \<and> p \<notin> set (arg_names f @ used)"

fun page_ops :: "nat list \<Rightarrow> 'v reg_call list \<Rightarrow> bool" where
  "page_ops used [] \<longleftrightarrow> True"
| "page_ops used (op # ops) \<longleftrightarrow> page_op used op \<and> page_ops (call_names op @ used) ops"

fun reg_op :: "nat \<Rightarrow> ev_env \<Rightarrow> 'v arg specials \<Rightarrow> 'v reg_call \<Rightarrow> 'v arg evs \<Rightarrow> 'v arg evs" where
  "reg_op n d tab (On this types selector data f once) s = on d tab this types selector data f once s"
| "reg_op n d tab (Off this types selector f) s = after (off n tab this types selector f s)"
| "reg_op n d tab (Proxied f p) s = snd (proxy f p s)"

definition reg_run :: "nat \<Rightarrow> ev_env \<Rightarrow> 'v arg specials \<Rightarrow> 'v reg_call list \<Rightarrow> 'v arg evs" where
  "reg_run n d tab ops = foldl (\<lambda>s op. reg_op n d tab op s) no_events ops"

text \<open>
  The function that a function stems from, by the proxies made so far, read off the page's calls;
  functions that share a number stem from the same one.
\<close>

fun stem_op :: "(fn \<Rightarrow> fn) \<Rightarrow> 'v reg_call \<Rightarrow> fn \<Rightarrow> fn" where
  "stem_op st (Proxied (Func f) p) = st(Fn p := st f)"
| "stem_op st op = st"

definition stem :: "'v reg_call list \<Rightarrow> fn \<Rightarrow> fn" where
  "stem ops = foldl stem_op (\<lambda>f. f) ops"

definition kin :: "(fn \<Rightarrow> fn) \<Rightarrow> 'v evs \<Rightarrow> bool" where
  "kin st s \<longleftrightarrow> (\<forall>f f' n. fguid s f = Some n \<longrightarrow> fguid s f' = Some n \<longrightarrow> st (innermost f) = st (innermost f'))"

definition only_used :: "nat list \<Rightarrow> 'v evs \<Rightarrow> bool" where
  "only_used used s \<longleftrightarrow> (\<forall>k. fguid s (Fn k) \<noteq> None \<longrightarrow> k \<in> set used)"

lemma left_ok_ok: "left_ok tab e s r \<Longrightarrow> evs_ok tab s \<Longrightarrow> evs_ok tab (after r)"
  by (auto simp: left_ok_def dest: pruned_ok)

lemma after_run_all_keeps:
  "Q s \<Longrightarrow> (\<And>x s. Q s \<Longrightarrow> Q (after (f x s))) \<Longrightarrow> Q (after (run_all f xs s))"
proof (induction xs arbitrary: s)
  case (Cons x xs)
  have x: "Q (after (f x s))" using Cons.prems by blast
  then show ?case using Cons.IH [of "after (f x s)"] Cons.prems(2) by (cases "f x s") auto
qed simp

lemma no_events_ok: "evs_ok tab no_events"
  by (simp add: evs_ok_def target_ok_def guids_ok_def numbered_def bound_def handlers_at_def no_events_def)

lemma on_args_page: "page_arg selector \<Longrightarrow> page_arg data \<Longrightarrow> page_arg f \<Longrightarrow> page_arg (snd (snd (on_args selector data f)))"
  by (simp add: on_args_def)

lemma as_function_page: "page_arg a \<Longrightarrow> as_function a = Some g \<Longrightarrow> innermost g = g"
  by (cases a) (auto simp: as_function_def page_arg_def)

lemma off_keeps:
  fixes tab :: "'v arg specials"
  assumes quiet: "quiet_specials tab" and ok: "evs_ok tab s"
  shows "evs_ok tab (after (off n tab this types selector f s))"
  unfolding off_def Let_def case_prod_beta
proof (rule after_run_all_keeps [where Q = "evs_ok tab", OF ok])
  fix e and s :: "'v arg evs"
  assume ok: "evs_ok tab s"
  then have "target_ok tab s e" by (simp add: evs_ok_def)
  from left_ok_ok [OF quiet_specials.event_remove_keeps [OF quiet this] ok]
  show "evs_ok tab (after (event_remove n tab e types g sel False s))" for g sel .
qed

lemma on_keeps:
  fixes tab :: "'v arg specials"
  assumes quiet: "quiet_specials tab" and ok: "evs_ok tab s"
    and page: "page_arg selector" "page_arg data" "page_arg f"
  shows "evs_ok tab (on d tab this types selector data f once s)"
proof -
  obtain sel data' f' where args: "on_args selector data f = (sel, data', f')" by (metis prod.collapse)
  show ?thesis
  proof (cases "as_function f'")
    case None
    with args ok show ?thesis by (simp add: on_def)
  next
    case (Some g)
    have g: "innermost g = g" using on_args_page [OF page] as_function_page [OF _ Some] args by simp
    note add = quiet_specials.event_adds_ok [OF quiet]
    show ?thesis
    proof (cases once)
      case True
      from wrap_once_ok [OF ok g] have "evs_ok tab (snd (wrap_once g s))" "known (snd (wrap_once g s)) (fst (wrap_once g s))" by simp_all
      from add [OF this, of d types _ sel this] True args Some show ?thesis by (simp add: on_def case_prod_beta Let_def)
    next
      case False
      have "known s g" using g by (simp add: known_def)
      from add [OF ok this, of d types _ sel this] False args Some show ?thesis by (simp add: on_def)
    qed
  qed
qed

text \<open>What binding and wrapping do to the numbers, and to the kinship of functions that share one.\<close>

lemma kin_cong: "fguid t = fguid s \<Longrightarrow> kin st t = kin st s"
  and only_used_cong: "fguid t = fguid s \<Longrightarrow> only_used used t = only_used used s"
  by (simp_all add: kin_def only_used_def)

lemma kin_ensure:
  assumes "guids_ok s" "kin st s"
  shows "kin st (ensure_guid f s)"
proof (cases "fguid s f")
  case None
  have less: "fguid s h \<noteq> Some (guid s)" for h using guids_okD(1) [OF assms(1), of h "guid s"] by auto
  show ?thesis
    unfolding kin_def
  proof (intro allI impI)
    fix h h' n
    assume "fguid (ensure_guid f s) h = Some n" "fguid (ensure_guid f s) h' = Some n"
    then have "h = f \<and> h' = f \<or> fguid s h = Some n \<and> fguid s h' = Some n"
      using None less by (auto simp: ensure_guid_def split: if_splits)
    then show "st (innermost h) = st (innermost h')" using assms(2) by (auto simp: kin_def)
  qed
qed (use assms in \<open>simp add: ensure_guid_def\<close>)

lemma kin_wrap:
  assumes "guids_ok s" "kin st s"
  shows "kin st (snd (wrap_once f s))"
proof -
  have k: "kin st (ensure_guid f s)" using assms by (rule kin_ensure)
  have as: "fguid (snd (wrap_once f s)) h = fguid (ensure_guid f s) (if h = Wrap f then f else h) \<and>
      innermost h = innermost (if h = Wrap f then f else h)" for h
    by (simp add: wrap_once_def Let_def)
  show ?thesis
    unfolding kin_def
  proof (intro allI impI)
    fix h h' n
    assume "fguid (snd (wrap_once f s)) h = Some n" "fguid (snd (wrap_once f s)) h' = Some n"
    with k as show "st (innermost h) = st (innermost h')" unfolding kin_def by metis
  qed
qed

lemma event_adds_fguid:
  fixes tab :: "'v specials" and data :: "'v option" and this :: "target list" and d :: ev_env and types :: string and sel :: "string option"
  assumes quiet: "quiet_specials tab" and ok: "evs_ok tab s" "known s f"
  defines "s' \<equiv> foldl (\<lambda>s e. event_add d tab e types (Direct f) data sel s) s this"
  shows "fguid s' = fguid s \<or> fguid s' = fguid (ensure_guid f s)"
proof -
  have "fguid s' = fguid s \<and> guid s' = guid s \<or> fguid s' = fguid (ensure_guid f s)"
    using ok unfolding s'_def
  proof (induction this arbitrary: s)
    case (Cons e this)
    note add = quiet_specials.event_add_ok [OF quiet Cons.prems, where d = d and e = e and types = types and data = data and sel = sel]
    let ?s1 = "event_add d tab e types (Direct f) data sel s"
    have kn: "known ?s1 f" using Cons.prems(2) add(3) by (fastforce simp: known_def)
    show ?case
    proof (cases "acceptData d e")
      case True
      have "fguid ?s1 f \<noteq> None" unfolding add(4) [OF True] by (rule ensure_guid_fields(4))
      then have "ensure_guid f ?s1 = ?s1" by (auto simp: ensure_guid_def [of f ?s1])
      with Cons.IH [OF add(1) kn] show ?thesis by (auto simp: add(4) [OF True])
    next
      case False
      then have 1: "?s1 = s" by (simp add: event_add.simps)
      from Cons.IH [OF Cons.prems] show ?thesis by (simp add: 1)
    qed
  qed simp
  then show ?thesis by blast
qed

lemma on_arg:
  assumes "on_args selector data f = (sel, data', f')" "as_function f' = Some g"
    "page_arg selector" "page_arg data" "page_arg f"
  shows "innermost g = g" "\<And>k. g = Fn k \<Longrightarrow> k \<in> set (arg_names selector @ arg_names data @ arg_names f)"
proof -
  have "f' \<in> {selector, data, f}" using assms(1) by (auto simp: on_args_def split: if_splits)
  then have "page_arg f'" and sub: "set (arg_names f') \<subseteq> set (arg_names selector @ arg_names data @ arg_names f)"
    using assms(3-5) by auto
  with assms(2) show "innermost g = g" by (cases f') (auto simp: as_function_def page_arg_def)
  show "k \<in> set (arg_names selector @ arg_names data @ arg_names f)" if "g = Fn k" for k
    using sub assms(2) that by (cases f') (auto simp: as_function_def arg_names_def split: fn.splits)
qed

lemma on_numbers:
  fixes tab :: "'v arg specials"
  assumes quiet: "quiet_specials tab" and ok: "evs_ok tab s" and kin: "kin st s" and used: "only_used used s"
    and page: "page_arg selector" "page_arg data" "page_arg f"
  shows "kin st (on d tab this types selector data f once s)"
    "only_used (arg_names selector @ arg_names data @ arg_names f @ used) (on d tab this types selector data f once s)"
proof -
  let ?s' = "on d tab this types selector data f once s"
  let ?used = "arg_names selector @ arg_names data @ arg_names f @ used"
  have g: "guids_ok s" using ok by (simp add: evs_ok_def)
  have more: "only_used ?used s" using used by (auto simp: only_used_def)
  obtain sel data' f' where args: "on_args selector data f = (sel, data', f')" by (metis prod.collapse)
  have "kin st ?s' \<and> only_used ?used ?s'"
  proof (cases "as_function f'")
    case None
    with args kin more show ?thesis by (simp add: on_def)
  next
    case (Some k)
    note arg = on_arg [OF args Some page]
    have used_e: "only_used ?used (ensure_guid k s)"
      using more arg(2) by (auto simp: only_used_def ensure_guid_def split: if_splits)
    note add = event_adds_fguid [OF quiet, where d = d and types = types and this = this and sel = sel and data = "as_data data'"]
    show ?thesis
    proof (cases once)
      case False
      have "known s k" using arg(1) by (simp add: known_def)
      from add [OF ok this] have "fguid ?s' = fguid s \<or> fguid ?s' = fguid (ensure_guid k s)"
        using False args Some by (simp add: on_def)
      then show ?thesis using kin more used_e kin_ensure [OF g kin] by (metis kin_cong only_used_cong)
    next
      case True
      let ?w = "snd (wrap_once k s)"
      have w: "evs_ok tab ?w" "known ?w (Wrap k)"
        using wrap_once_ok [OF ok arg(1)] by simp_all
      have "ensure_guid (Wrap k) ?w = ?w"
        using ensure_guid_fields(4) [of k s] by (auto simp: wrap_once_def Let_def ensure_guid_def [of "Wrap k"])
      with add [OF w] have "fguid ?s' = fguid ?w"
        using True args Some by (auto simp: on_def case_prod_beta Let_def wrap_once_ok(4) [OF ok arg(1)])
      moreover have "only_used ?used ?w" using used_e by (simp add: only_used_def wrap_once_def Let_def)
      ultimately show ?thesis using kin_wrap [OF g kin] by (metis kin_cong only_used_cong)
    qed
  qed
  then show "kin st ?s'" "only_used ?used ?s'" by simp_all
qed

lemma proxy_keeps:
  fixes s :: "'v arg evs"
  assumes ok: "evs_ok tab s" and kin: "kin st s" and used: "only_used used s"
    and page: "page_arg f" "p \<notin> set (arg_names f @ used)"
  shows "evs_ok tab (snd (proxy f p s))" "kin (stem_op st (Proxied f p)) (snd (proxy f p s))"
    "only_used (p # arg_names f @ used) (snd (proxy f p s))"
proof -
  have more: "only_used (p # arg_names f @ used) s" using used by (auto simp: only_used_def)
  have "evs_ok tab (snd (proxy f p s)) \<and> kin (stem_op st (Proxied f p)) (snd (proxy f p s)) \<and>
    only_used (p # arg_names f @ used) (snd (proxy f p s))"
  proof (cases f)
    case (Func g)
    have g: "innermost g = g" "g \<noteq> Fn p" using page Func by (auto simp: page_arg_def arg_names_def)
    let ?s1 = "ensure_guid g s"
    obtain n where n: "fguid ?s1 g = Some n" using ensure_guid_fields(4) by blast
    define t where "t = snd (proxy f p s)"
    have t: "t = ?s1\<lparr>fguid := (fguid ?s1)(Fn p := Some n)\<rparr>" by (simp add: t_def proxy_def Func Let_def n)
    have gs: "guids_ok s" using ok by (simp add: evs_ok_def)
    have "guids_ok ?s1" using gs g by (intro ensure_guid_ok) (simp_all add: known_def)
    note g1 = guids_okD [OF this]
    have k1: "kin st ?s1" by (rule kin_ensure [OF gs kin])
    have none: "fguid ?s1 (Fn p) = None" using used page(2) g(2) by (auto simp: only_used_def ensure_guid_def)
    have away: "innermost h \<noteq> Fn p" if "fguid ?s1 h = Some m" for h m
      using g1(3) [OF that] none by auto
    have ft: "fguid t h = (if h = Fn p then Some n else fguid ?s1 h)" for h by (simp add: t)
    have "guids_ok t"
      unfolding guids_ok_def using g1(1,2) [OF n] g1(4) g1(1-3) away by (auto simp: ft) (simp_all add: t)
    moreover have "fguid t h = Some m" if "fguid s h = Some m" for h m
      using ensure_guid_fields(5) [OF that] none by (auto simp: ft)
    ultimately have "evs_ok tab t"
      by (intro evs_ok_cong [OF ok]) (simp_all add: t ensure_guid_fields)
    moreover have "kin (stem_op st (Proxied f p)) t"
      unfolding kin_def
    proof (intro allI impI)
      fix h h' m
      assume m: "fguid t h = Some m" "fguid t h' = Some m"
      have val: "(stem_op st (Proxied f p)) (innermost h) = st (innermost (if h = Fn p then g else h)) \<and>
          fguid ?s1 (if h = Fn p then g else h) = Some m" if "fguid t h = Some m" for h
        using that n g(1) away by (auto simp: ft Func split: if_splits)
      from val [OF m(1)] val [OF m(2)] k1
      show "(stem_op st (Proxied f p)) (innermost h) = (stem_op st (Proxied f p)) (innermost h')"
        unfolding kin_def by metis
    qed
    moreover have "only_used (p # arg_names f @ used) t"
      using used n g(1) by (auto simp: only_used_def ft arg_names_def Func ensure_guid_def split: if_splits fn.splits)
    ultimately show ?thesis by (simp add: t_def)
  qed (use ok kin more in \<open>simp_all add: proxy_def\<close>)
  then show "evs_ok tab (snd (proxy f p s))" "kin (stem_op st (Proxied f p)) (snd (proxy f p s))"
    "only_used (p # arg_names f @ used) (snd (proxy f p s))" by simp_all
qed

lemma off_numbers:
  fixes tab :: "'v arg specials"
  assumes quiet: "quiet_specials tab" and ok: "evs_ok tab s"
  shows "fguid (after (off n tab this types selector f s)) = fguid s"
proof -
  have "evs_ok tab (after (off n tab this types selector f s)) \<and> fguid (after (off n tab this types selector f s)) = fguid s"
    unfolding off_def Let_def case_prod_beta
  proof (rule after_run_all_keeps [where Q = "\<lambda>t. evs_ok tab t \<and> fguid t = fguid s"])
    fix e and t :: "'v arg evs"
    assume t: "evs_ok tab t \<and> fguid t = fguid s"
    then have "target_ok tab t e" by (simp add: evs_ok_def)
    note keep = quiet_specials.event_remove_keeps [OF quiet this]
    show "evs_ok tab (after (event_remove n tab e types g sel False t)) \<and>
        fguid (after (event_remove n tab e types g sel False t)) = fguid s" for g sel
      using left_ok_ok [OF keep] t keep [of n types g sel False] by (auto simp: left_ok_def pruned_def)
  qed (use ok in simp)
  then show ?thesis by simp
qed


definition small_env :: ev_env where
  "small_env = dom_env.extend small_page
     \<lparr>noDataElem = \<lambda>_. False, ownerDocument = \<lambda>_. Node 0 [], focusinBubbles = False, needsContext = \<lambda>_. False\<rparr>"


lemma pruned_other: "pruned e P s t \<Longrightarrow> e' \<noteq> e \<Longrightarrow> bound t e' ty = bound s e' ty"
  by (rule bound_other) (simp add: pruned_def)

lemma two_levels: "2 \<le> n \<Longrightarrow> \<exists>k. n = Suc (Suc k)"
  by presburger

text \<open>
  C23: On a well-typed registry (C22), for names that all match \<open>rtypenamespace\<close> (none ends in its
  only dot, as \<open>click.\<close> does, for which C24 says what happens) and with two levels of stack,
  \<open>off\<close> returns, and takes exactly the handlers away that one of its names hits: the ones bound
  under the name's type (a name space alone means every type), with the number of the given
  function if one is given (so its proxies and its wrappers of \<open>one\<close> go with it), with the name
  spaces of the name among their own, and with the selector if one is given, or any selector for
  \<open>**\<close>. The others stay in their order, and no other element loses a handler.
\<close>

theorem off_removes_exactly:
  fixes s :: "'v evs"
  assumes "evs_ok (core_specials d) s" "\<forall>w \<in> set (split_types types). rtypenamespace w \<noteq> None" "2 \<le> n"
  shows "\<exists>s'. event_remove n (core_specials d) e types f sel False s = Returns s' \<and>
    (\<forall>e' ty. bound s' e' ty =
      (if e' = e then filter (\<lambda>h. \<not> (\<exists>w \<in> set (split_types types). hits (core_specials d) (fguid s) False f sel w ty h)) (bound s e ty)
       else bound s e' ty))"
proof -
  obtain k where n: "n = Suc (Suc k)" using two_levels [OF assms(3)] by (rule exE)
  have "target_ok (core_specials d) s e" using assms(1) by (simp add: evs_ok_def)
  have "\<exists>s'. event_remove n (core_specials d) e types f sel False s = Returns s' \<and>
      pruned e (\<lambda>ty h. \<exists>w \<in> set (split_types types). hits (core_specials d) (fguid s) False f sel w ty h) s s' \<and>
      target_ok (core_specials d) s' e"
    unfolding n by (rule core.event_remove_ok [OF \<open>target_ok (core_specials d) s e\<close> assms(2)])
  then obtain s' where
    s': "event_remove n (core_specials d) e types f sel False s = Returns s'"
      "pruned e (\<lambda>ty h. \<exists>w \<in> set (split_types types). hits (core_specials d) (fguid s) False f sel w ty h) s s'"
    by (elim exE conjE)
  have "bound s' e' ty = bound s e' ty" if "e' \<noteq> e" for e' ty
    using that by (rule pruned_other [OF s'(2)])
  with s' show ?thesis by (simp add: pruned_def)
qed

text \<open>
  C24: On a registry that is well typed, unbinding a name comes to an end exactly when the name
  matches the pattern or nothing is bound on the element: for a name that ends in its only dot, such
  as \<open>click.\<close>, the call for each bound type repeats the same mistake, however deep the stack.
\<close>

theorem off_returns_iff:
  fixes s :: "'v evs"
  assumes ok: "evs_ok (core_specials d) s" and w: "w \<noteq> ''''" "\<forall>c \<in> set w. \<not> is_space c"
  shows "(\<exists>n s'. event_remove n (core_specials d) e w f sel False s = Returns s') \<longleftrightarrow>
    rtypenamespace w \<noteq> None \<or> (\<forall>ty. bound s e ty = [])"
proof -
  have t: "target_ok (core_specials d) s e" using ok by (simp add: evs_ok_def)
  have sp: "split_types w = [w]" using w by (rule split_types_word)
  show ?thesis
  proof (cases "rtypenamespace w = None")
    case False
    then have "\<forall>w \<in> set (split_types w). rtypenamespace w \<noteq> None" by (simp add: sp)
    from core.event_remove_ok [OF t this, of 0 f sel False] False show ?thesis by blast
  next
    case mal: True
    show ?thesis
    proof (cases "events s e")
      case None
      then have "event_remove (Suc 0) (core_specials d) e w f sel False s = Returns s"
        by (simp add: event_remove.simps(2))
      moreover have "bound s e ty = []" for ty using None by (simp add: bound_def handlers_at_def)
      ultimately show ?thesis by blast
    next
      case (Some evl)
      show ?thesis
      proof (cases evl)
        case Nil
        have "event_remove (Suc 0) (core_specials d) e w f sel False s = Returns (forget_empty e s)"
          by (simp add: event_remove.simps(2) Some Nil sp remove_word_def remove_each_def malformed_type [OF mal] or_else_def okeys_def)
        moreover have "bound s e ty = []" for ty using Some Nil by (simp add: bound_def handlers_at_def)
        ultimately show ?thesis by blast
      next
        case (Cons kl evl')
        then have evl: "events s e = Some (kl # evl')" using Some by simp
        have "bound s e (fst kl) \<noteq> []" by (rule core.key_name_ok(2) [OF t evl]) (simp add: okeys_def)
        moreover have "event_remove n (core_specials d) e w f sel False s = RangeError s" for n
          by (rule core.event_remove_malformed [OF t evl mal w(2)])
        ultimately show ?thesis using mal by auto
      qed
    qed
  qed
qed

lemma namespaces_own: "ns_test (namespaces w) (join ''.'' (namespaces w))"
  by (simp add: ns_test_def split_join_namespaces)

lemma listeners_bound:
  assumes "evs_ok tab s"
  shows "ty \<in> set (listeners s e) \<longleftrightarrow> bound s e ty \<noteq> [] \<and> setupHook (special_of tab ty) = None"
proof -
  have t: "target_ok tab s e" using assms by (simp add: evs_ok_def)
  show ?thesis
  proof (cases "events s e")
    case None
    with t show ?thesis by (simp add: target_ok_def bound_def handlers_at_def)
  next
    case (Some evl)
    have "ty \<in> set (okeys evl) \<longleftrightarrow> bound s e ty \<noteq> []"
      using bound_hlist_ok(2) [OF t, of ty] Some
      by (cases "oget evl ty") (auto simp: bound_def handlers_at_def oget_None_iff [symmetric] dest: oget_Some_keys)
    with t Some show ?thesis by (simp add: target_ok_def entry_ok_def)
  qed
qed

lemma filter_foldl_added:
  assumes "arrange l = l"
    and "\<And>w. w \<in> set ws \<Longrightarrow> ev_type w \<noteq> '''' \<Longrightarrow> mapped_type tab sel (ev_type w) = ty \<Longrightarrow> \<not> Q (new_hobj d tab s f data sel w)"
  shows "filter Q (foldl (added d tab s f data sel ty) l ws) = filter Q l"
  using assms
proof (induction ws arbitrary: l)
  case (Cons w ws)
  let ?l = "added d tab s f data sel ty l w"
  have "arrange ?l = ?l" using Cons.prems(1) by (simp add: added_def place_def)
  moreover have "filter Q ?l = filter Q l"
  proof (cases "ev_type w \<noteq> '''' \<and> mapped_type tab sel (ev_type w) = ty")
    case True
    then have "\<not> Q (new_hobj d tab s f data sel w)" using Cons.prems(2) by simp
    then have "filter Q (arrange (l @ [new_hobj d tab s f data sel w])) = filter Q (arrange l)"
      by (simp add: filter_arrange [symmetric])
    with True Cons.prems(1) show ?thesis by (simp add: added_def place_def)
  qed (auto simp: added_def)
  ultimately show ?case using Cons.IH [of ?l] Cons.prems(2) by simp
qed simp

lemma unbind_restores:
  fixes s :: "'v evs"
  assumes ok: "evs_ok (core_specials d) s" and f: "innermost f = f"
    and fresh: "\<forall>ty. \<forall>h \<in> set (bound s e ty). fguid s f \<noteq> Some (h_guid h)"
    and types: "\<forall>w \<in> set (split_types types). rtypenamespace w \<noteq> None" and n: "2 \<le> n"
  shows "\<exists>s'. event_remove n (core_specials d) e types (Some f) sel False
      (event_add d (core_specials d) e types (Direct f) data sel s) = Returns s' \<and>
    (\<forall>e' ty. bound s' e' ty = bound s e' ty) \<and> (\<forall>e'. set (listeners s' e') = set (listeners s e'))"
proof -
  let ?tab = "core_specials d :: 'v specials"
  let ?s1 = "event_add d ?tab e types (Direct f) data sel s"
  obtain k where k: "n = Suc (Suc k)" using two_levels [OF n] by (rule exE)
  have kn: "known s f" using f by (simp add: known_def)
  note add = quiet_specials.event_add_ok [where d = d and e = e and types = types and data = data and sel = sel,
      OF core.quiet_specials_axioms ok kn]
  have t1: "target_ok ?tab ?s1 e" using add(1) by (simp add: evs_ok_def)
  have "\<exists>s'. event_remove n ?tab e types (Some f) sel False ?s1 = Returns s' \<and>
      pruned e (\<lambda>ty h. \<exists>w \<in> set (split_types types). hits ?tab (fguid ?s1) False (Some f) sel w ty h) ?s1 s' \<and> target_ok ?tab s' e"
    unfolding k by (rule core.event_remove_ok [OF t1 types])
  then obtain s' where
    s': "event_remove n ?tab e types (Some f) sel False ?s1 = Returns s'" "target_ok ?tab s' e"
      "pruned e (\<lambda>ty h. \<exists>w \<in> set (split_types types). hits ?tab (fguid ?s1) False (Some f) sel w ty h) ?s1 s'"
    by (elim exE conjE)
  have ok': "evs_ok ?tab s'" by (rule pruned_ok [OF s'(3) add(1) s'(2)])
  have old: "\<not> hits ?tab (fguid ?s1) False (Some f) sel w ty h" if h: "h \<in> set (bound s e ty)" for ty h w
  proof
    assume "hits ?tab (fguid ?s1) False (Some f) sel w ty h"
    then have now: "fguid ?s1 f = Some (h_guid h)" by (simp add: hits_def)
    have "fguid s (h_handler h) = Some (h_guid h)" using ok h by (auto simp: evs_ok_def numbered_def)
    moreover have "guids_ok s" using ok by (simp add: evs_ok_def)
    ultimately have less: "h_guid h < guid s" by (metis guids_okD(1))
    have "fguid s f \<noteq> Some (h_guid h)" using fresh h by blast
    moreover have "fguid ?s1 f = (if acceptData d e then fguid (ensure_guid f s) f else fguid s f)"
      using add(4) by (simp add: event_add.simps)
    ultimately show False using now less by (auto simp: ensure_guid_def split: if_splits)
  qed
  have b: "bound s' e' ty = bound s e' ty" for e' ty
  proof (cases "e' = e")
    case False
    then show ?thesis by (simp add: pruned_other [OF s'(3)] add(2))
  next
    case True
    let ?Q = "\<lambda>h. \<not> (\<exists>w \<in> set (split_types types). hits ?tab (fguid ?s1) False (Some f) sel w ty h)"
    have keep: "filter ?Q (bound s e ty) = bound s e ty" using old by (auto intro!: filter_True)
    have "bound s' e ty = filter ?Q (bound ?s1 e ty)" using s'(3) by (simp add: pruned_def)
    also have "\<dots> = bound s e ty"
    proof (cases "acceptData d e")
      case True
      have arr: "arrange (bound s e ty) = bound s e ty"
      proof (cases "handlers_at s e ty")
        case (Some hl)
        have "target_ok ?tab s e" using ok by (simp add: evs_ok_def)
        from bound_hlist_ok(1) [OF this Some] Some show ?thesis by (simp add: bound_def hlist_ok_def)
      qed (simp add: bound_def arrange_def)
      have new: "hits ?tab (fguid ?s1) False (Some f) sel w ty (new_hobj d ?tab (ensure_guid f s) f data sel w)"
        if "ev_type w \<noteq> ''''" "mapped_type ?tab sel (ev_type w) = ty" for w
        using that ensure_guid_fields(4) [of f s] namespaces_own [of w]
        by (auto simp: hits_def new_hobj_def add(4) [OF True] or_else_def)
      have "filter ?Q (foldl (added d ?tab (ensure_guid f s) f data sel ty) (bound s e ty) (rev (split_types types))) = filter ?Q (bound s e ty)"
        by (rule filter_foldl_added [OF arr]) (use new in auto)
      with keep True show ?thesis by (simp add: add(2))
    qed (use keep in \<open>simp add: add(2)\<close>)
    finally show ?thesis using True by simp
  qed
  have "set (listeners s' e') = set (listeners s e')" for e'
    by (rule set_eqI) (simp only: listeners_bound [OF ok'] listeners_bound [OF ok] b)
  with s'(1) b show ?thesis by blast
qed

text \<open>
  C25: Binding and unbinding are inverse: after \<open>off\<close> with the same names, selector and function as
  a preceding \<open>on\<close>, every target has the handlers it had, in their order, and the browser calls
  the registry for the same types. Conditions: the registry is well typed (C22), the function is
  one of the page, its own or a proxy, and no handler that is bound on the element before has its
  number (neither the function is bound there nor a proxy or wrapper of the same function), every
  name matches \<open>rtypenamespace\<close> (none ends in its only dot, as \<open>click.\<close>, which \<open>off\<close> may not
  survive), and two levels of stack are left.
\<close>

theorem on_off_roundtrip:
  fixes s :: "'v evs"
  assumes ok: "evs_ok (core_specials d) s" and f: "innermost f = f"
    and fresh: "\<forall>ty. \<forall>h \<in> set (bound s e ty). fguid s f \<noteq> Some (h_guid h)"
    and types: "\<forall>w \<in> set (split_types types). rtypenamespace w \<noteq> None" and n: "2 \<le> n"
  shows "\<exists>s'. event_remove n (core_specials d) e types (Some f) sel False
      (event_add d (core_specials d) e types (Direct f) data sel s) = Returns s' \<and>
    (\<forall>e' ty. bound s' e' ty = bound s e' ty) \<and> (\<forall>e'. set (listeners s' e') = set (listeners s e'))"
  using assms by (rule unbind_restores)

text \<open>A page with one binding, for the witnesses.\<close>

definition menu_evs :: "nat evs" where
  "menu_evs = event_add small_env (core_specials small_env) (Elem (Node 0 [0])) ''click.menu focus'' (Direct (Fn 0)) None None no_events"

lemma menu_ok: "evs_ok (core_specials small_env) menu_evs"
  unfolding menu_evs_def by (rule core.event_add_ok(1) [OF no_events_ok]) (simp add: known_def)

lemma menu_bound: "bound menu_evs (Elem (Node 0 [0])) ''click'' \<noteq> []"
  by code_simp

lemma menu_fresh: "fguid menu_evs (Fn (Suc 0)) = None"
  by code_simp

theorem off_removes_exactly_witness:
  "\<exists>s'. event_remove 2 (core_specials small_env) (Elem (Node 0 [0])) ''.menu'' None None False menu_evs = Returns s' \<and>
    (\<forall>e' ty. bound s' e' ty =
      (if e' = Elem (Node 0 [0])
       then filter (\<lambda>h. \<not> (\<exists>w \<in> set (split_types ''.menu''). hits (core_specials small_env) (fguid menu_evs) False None None w ty h)) (bound menu_evs (Elem (Node 0 [0])) ty)
       else bound menu_evs e' ty))"
  by (rule off_removes_exactly [OF menu_ok]) (simp_all add: split_types_def words_def words_by_def is_space_def rtypenamespace_def)

theorem off_returns_iff_witness:
  "\<not> (\<exists>n s'. event_remove n (core_specials small_env) (Elem (Node 0 [0])) ''click.'' None None False menu_evs = Returns s')"
proof -
  have "\<forall>c \<in> set ''click.''. \<not> is_space c" by (simp add: is_space_def)
  from off_returns_iff [OF menu_ok _ this, of "Elem (Node 0 [0])" None None] menu_bound show ?thesis
    by (auto simp: rtypenamespace_def)
qed

theorem on_off_roundtrip_witness:
  "\<exists>s'. event_remove 2 (core_specials small_env) (Elem (Node 0 [0])) ''click.menu blur'' (Some (Fn 1)) (Some ''a'') False
      (event_add small_env (core_specials small_env) (Elem (Node 0 [0])) ''click.menu blur'' (Direct (Fn 1)) None (Some ''a'') menu_evs) = Returns s' \<and>
    (\<forall>e' ty. bound s' e' ty = bound menu_evs e' ty) \<and> (\<forall>e'. set (listeners s' e') = set (listeners menu_evs e'))"
  by (rule on_off_roundtrip [OF menu_ok])
     (auto simp: split_types_def words_def words_by_def is_space_def rtypenamespace_def menu_fresh)

text \<open>What the browser's own \<open>focusin\<close> support is asked for.\<close>

lemma remove_loop_attaches: "sp_remove sp = None \<Longrightarrow> attaches (remove_loop P sp e ty j s) = attaches s \<and>
    captures (remove_loop P sp e ty j s) = captures s"
proof (induction j arbitrary: s)
  case (Suc j)
  then show ?case by (auto simp: Let_def put_handlers_def split: option.split)
qed simp

lemma remove_typed_attaches:
  "sp_remove (special_of tab (ev_type w)) = None \<Longrightarrow> teardownHook (special_of tab (ev_type w)) = None \<Longrightarrow>
   attaches (remove_typed tab e f sel m w s) = attaches s \<and> captures (remove_typed tab e f sel m w s) = captures s"
  by (auto simp: remove_typed_def Let_def drop_type_def removeEvent_def remove_loop_attaches split: option.split)

lemma focus_specials:
  assumes "\<not> focusinBubbles d"
  shows "special_of (core_specials d :: 'v specials) ''focus'' = no_special\<lparr>delegateType := Some ''focusin''\<rparr>"
    "special_of (core_specials d :: 'v specials) ''focusin'' = focus_special d ''focus'' ''focusin''"
  using assms by (simp_all add: special_of_def core_specials_def or_else_def)

lemma init_focus_attaches:
  "attaches (init_handlers (focus_special d og ty) e ty s) (doc_of d e) ty = Some (or_else (attaches s (doc_of d e) ty) 0 + 1)"
  "captures (init_handlers (focus_special d og ty) e ty s) (doc_of d e) =
     (if or_else (attaches s (doc_of d e) ty) 0 = 0 then List.insert og (captures s (doc_of d e)) else captures s (doc_of d e))"
  by (simp_all add: init_handlers_def focus_special_def focus_setup_def Let_def put_handlers_def)

lemma add_type_attaches:
  assumes "ev_type w \<noteq> ''''" "mapped_type tab sel (ev_type w) = ty" "sp_add (special_of tab ty) = None" "handlers_at s e ty = None"
  shows "attaches (add_type d tab e hin f data sel w s) = attaches (init_handlers (special_of tab ty) e ty s)"
    "captures (add_type d tab e hin f data sel w s) = captures (init_handlers (special_of tab ty) e ty s)"
  using assms by (simp_all add: add_type_def Let_def call_add_def put_handlers_def)

lemma add_focus_attaches:
  fixes s :: "'v evs"
  assumes d: "\<not> focusinBubbles d" "acceptData d e" and sel: "some_text sel"
    and s: "bound s e ''focusin'' = []" "evs_ok (core_specials d) s"
  shows "attaches (event_add d (core_specials d) e ''focus'' (Direct f) data sel s) (doc_of d e) ''focusin'' =
     Some (or_else (attaches s (doc_of d e) ''focusin'') 0 + 1)"
    "captures (event_add d (core_specials d) e ''focus'' (Direct f) data sel s) (doc_of d e) =
     (if or_else (attaches s (doc_of d e) ''focusin'') 0 = 0 then List.insert ''focus'' (captures s (doc_of d e)) else captures s (doc_of d e))"
proof -
  have "target_ok (core_specials d) s e" using s(2) by (simp add: evs_ok_def)
  with s(1) have none: "handlers_at s e ''focusin'' = None"
    by (cases "handlers_at s e ''focusin''") (auto simp: bound_def dest: bound_hlist_ok(2))
  have w: "split_types ''focus'' = [''focus'']" "ev_type ''focus'' = ''focus''"
    by (simp_all add: split_types_def words_def words_by_def is_space_def ev_type_def rtypenamespace_def)
  have map: "mapped_type (core_specials d :: 'v specials) sel (ev_type ''focus'') = ''focusin''"
    using sel by (simp add: w mapped_type_def focus_specials [OF d(1)] or_else_def)
  define s3 where "s3 = (let s1 = ensure_guid f s;
               s2 = (if events s1 e = None then s1\<lparr>events := (events s1)(e := Some [])\<rparr> else s1)
           in if handle s2 e then s2 else s2\<lparr>handle := (handle s2)(e := True)\<rparr>)"
  have add: "event_add d (core_specials d) e ''focus'' (Direct f) data sel s = add_type d (core_specials d) e None f data sel ''focus'' s3"
    using d(2) by (simp add: event_add.simps s3_def Let_def w)
  have s3: "attaches s3 = attaches s" "captures s3 = captures s" "handlers_at s3 e ''focusin'' = None"
    using none by (auto simp: s3_def Let_def ensure_guid_def handlers_at_def)
  have none3: "sp_add (special_of (core_specials d :: 'v specials) ''focusin'') = None"
    by (simp add: focus_specials [OF d(1)] focus_special_def)
  have map': "mapped_type (core_specials d :: 'v specials) sel (ev_type ''focus'') = ''focusin''" by (rule map)
  note same = add_type_attaches [OF _ map' none3 s3(3), of d None f data, unfolded focus_specials [OF d(1)]]
  have "ev_type ''focus'' \<noteq> []" by (simp add: w)
  from same [OF this]
  show "attaches (event_add d (core_specials d) e ''focus'' (Direct f) data sel s) (doc_of d e) ''focusin'' =
     Some (or_else (attaches s (doc_of d e) ''focusin'') 0 + 1)"
    "captures (event_add d (core_specials d) e ''focus'' (Direct f) data sel s) (doc_of d e) =
     (if or_else (attaches s (doc_of d e) ''focusin'') 0 = 0 then List.insert ''focus'' (captures s (doc_of d e)) else captures s (doc_of d e))"
    by (simp_all add: add init_focus_attaches s3)
qed

text \<open>
  C26: In a browser without \<open>focusin\<close>, unbinding a delegated \<open>focus\<close> handler by its name leaves the
  document's count of users where binding put it, one above what it was, and leaves the capturing
  listener of \<open>focus\<close> on the document, although nothing is bound to \<open>focusin\<close> on the element any
  more: \<open>off\<close> asks the special event \<open>focus\<close> for a tear-down, \<open>on\<close> had asked \<open>focusin\<close> for the
  set-up. Conditions: the registry is well typed, the element takes handlers and had none of
  \<open>focusin\<close> before, no handler on it has the function's number, and the document has the listener
  already if its count is not zero.
\<close>

theorem delegated_focus_leaks:
  fixes s :: "'v evs"
  assumes ok: "evs_ok (core_specials d) s" and d: "\<not> focusinBubbles d" "acceptData d e"
    and sel: "some_text sel" and f: "innermost f = f" and free: "bound s e ''focusin'' = []"
    and fresh: "\<forall>ty. \<forall>h \<in> set (bound s e ty). fguid s f \<noteq> Some (h_guid h)"
    and count: "or_else (attaches s (doc_of d e) ''focusin'') 0 = 0 \<or> ''focus'' \<in> set (captures s (doc_of d e))"
  shows "\<exists>s'. event_remove 2 (core_specials d) e ''focus'' (Some f) sel False
      (event_add d (core_specials d) e ''focus'' (Direct f) data sel s) = Returns s' \<and>
    bound s' e ''focusin'' = [] \<and>
    attaches s' (doc_of d e) ''focusin'' = Some (or_else (attaches s (doc_of d e) ''focusin'') 0 + 1) \<and>
    ''focus'' \<in> set (captures s' (doc_of d e))"
proof -
  let ?t = "event_add d (core_specials d) e ''focus'' (Direct f) data sel s"
  have w: "split_types ''focus'' = [''focus'']" "ev_type ''focus'' = ''focus''" "rtypenamespace ''focus'' \<noteq> None"
    by (simp_all add: split_types_def words_def words_by_def is_space_def ev_type_def rtypenamespace_def)
  have "\<forall>w \<in> set (split_types ''focus''). rtypenamespace w \<noteq> None" using w by simp
  from unbind_restores [OF ok f fresh this, of 2 sel data] free obtain s' where
    s': "event_remove 2 (core_specials d) e ''focus'' (Some f) sel False ?t = Returns s'" "bound s' e ''focusin'' = []" by auto
  let ?u = "remove_typed (core_specials d) e (Some f) sel False ''focus'' ?t"
  have "s' = ?t \<or> s' = forget_empty e ?u"
    using s'(1) by (auto simp: numeral_2_eq_2 event_remove.simps(2) w remove_word_def split: if_splits)
  moreover have "attaches ?u = attaches ?t \<and> captures ?u = captures ?t"
    by (rule remove_typed_attaches) (simp_all add: w focus_specials [OF d(1)])
  ultimately have "attaches s' = attaches ?t \<and> captures s' = captures ?t" by (auto simp: forget_empty_def)
  with s' add_focus_attaches [OF d sel free ok] count show ?thesis by auto
qed

theorem delegated_focus_leaks_witness:
  "\<exists>s'. event_remove 2 (core_specials small_env) (Elem (Node 0 [0])) ''focus'' (Some (Fn 1)) (Some ''a'') False
      (event_add small_env (core_specials small_env) (Elem (Node 0 [0])) ''focus'' (Direct (Fn 1)) None (Some ''a'') menu_evs) = Returns s' \<and>
    bound s' (Elem (Node 0 [0])) ''focusin'' = [] \<and>
    attaches s' (doc_of small_env (Elem (Node 0 [0]))) ''focusin'' =
      Some (or_else (attaches menu_evs (doc_of small_env (Elem (Node 0 [0]))) ''focusin'') 0 + 1) \<and>
    ''focus'' \<in> set (captures s' (doc_of small_env (Elem (Node 0 [0]))))"
proof (rule delegated_focus_leaks [OF menu_ok])
  show "acceptData small_env (Elem (Node 0 [0]))" by code_simp
  show "bound menu_evs (Elem (Node 0 [0])) ''focusin'' = []" by code_simp
  have "attaches menu_evs (doc_of small_env (Elem (Node 0 [0]))) ''focusin'' = None" by code_simp
  then show "or_else (attaches menu_evs (doc_of small_env (Elem (Node 0 [0]))) ''focusin'') 0 = 0 \<or>
      ''focus'' \<in> set (captures menu_evs (doc_of small_env (Elem (Node 0 [0]))))" by (simp add: or_else_def)
qed (auto simp: small_env_def dom_env.extend_def some_text_def menu_fresh)

end
