(* ===== verification/JQ_Dispatch.thy ===== *)
theory JQ_Dispatch
  imports JQ_Registry
begin

text \<open>
  Events on their way (\<^verbatim>\<open>jquery.js\<close>, lines 4255 to 4263, 4471 to 4812, 4862 to 4997 and 5000 to
  5021): the event object, its copy of a native event, the search for delegated handlers,
  \<open>dispatch\<close> on one target, \<open>trigger\<close> along the path to the window, and \<open>simulate\<close>.  The functions
  of the page are a parameter: they get and return the event object and the whole state, so they
  may bind and unbind while an event is under way.  What they do to the tree is not modelled, nor
  are exceptions they raise.
\<close>

text \<open>The native event that an event object wraps: what the methods of the object set on it.\<close>

record 'v native =
  n_type :: string
  n_target :: "target option"
  n_srcElement :: "target option"
  n_relatedTarget :: "target option"
  n_defaultPrevented :: "bool option"
  n_returnValue :: "'v arg"
  n_cancelBubble :: bool
  n_stopped :: bool
  n_immediateStopped :: bool
  n_button :: "int option"
  n_which :: "nat option"
  n_charCode :: "nat option"
  n_keyCode :: "nat option"
  n_metaKey :: "bool option"
  n_hasPreventDefault :: bool
  n_hasStopPropagation :: bool
  n_hasStopImmediate :: bool

record 'v event =
  e_type :: string
  e_target :: "target option"
  e_namespace :: "string list"          \<comment> \<open>sorted; empty when there is no pattern\<close>
  e_isTrigger :: "nat option"
  e_isSimulated :: bool
  e_result :: "'v arg"
  e_relatedTarget :: "target option"
  e_button :: "int option"
  e_which :: "nat option"
  e_metaKey :: "bool option"
  e_original :: "'v native option"
  isDefaultPrevented :: bool
  isPropagationStopped :: bool
  isImmediatePropagationStopped :: bool
  e_delegateTarget :: "target option"
  e_currentTarget :: "target option"
  e_handleObj :: "'v arg hobj option"
  e_data :: "'v arg option"

section \<open>The event object\<close>

text \<open>\<open>new jQuery.Event\<close> of a type, and of a native event.\<close>

definition new_event :: "string \<Rightarrow> 'v event" where
  "new_event ty = \<lparr>e_type = ty, e_target = None, e_namespace = [], e_isTrigger = None, e_isSimulated = False, e_result = Undef,
     e_relatedTarget = None, e_button = None, e_which = None, e_metaKey = None, e_original = None,
     isDefaultPrevented = False, isPropagationStopped = False, isImmediatePropagationStopped = False,
     e_delegateTarget = None, e_currentTarget = None, e_handleObj = None, e_data = None\<rparr>"

definition event_of :: "'v native \<Rightarrow> 'v event" where
  "event_of src = (new_event (n_type src))
     \<lparr>e_original := Some src,
      isDefaultPrevented := (n_defaultPrevented src = Some True \<or> n_defaultPrevented src = None \<and> n_returnValue src = FalseArg)\<rparr>"

definition preventDefault :: "'v event \<Rightarrow> 'v event" where
  "preventDefault ev =
     ev\<lparr>isDefaultPrevented := True,
        e_original := map_option (\<lambda>e. if n_hasPreventDefault e then e\<lparr>n_defaultPrevented := Some True\<rparr> else e\<lparr>n_returnValue := FalseArg\<rparr>) (e_original ev)\<rparr>"

definition stopPropagation :: "'v event \<Rightarrow> 'v event" where
  "stopPropagation ev =
     ev\<lparr>isPropagationStopped := True,
        e_original := map_option (\<lambda>e. e\<lparr>n_stopped := (n_stopped e \<or> n_hasStopPropagation e), n_cancelBubble := True\<rparr>) (e_original ev)\<rparr>"

definition stopImmediatePropagation :: "'v event \<Rightarrow> 'v event" where
  "stopImmediatePropagation ev =
     stopPropagation
       (ev\<lparr>isImmediatePropagationStopped := True,
           e_original := map_option (\<lambda>e. e\<lparr>n_immediateStopped := (n_immediateStopped e \<or> n_hasStopImmediate e)\<rparr>) (e_original ev)\<rparr>)"

section \<open>Copying a native event\<close>

text \<open>\<open>rkeyEvent\<close> and \<open>rmouseEvent\<close>.\<close>

definition is_key_event :: "string \<Rightarrow> bool" where
  "is_key_event ty \<longleftrightarrow> take 3 ty = ''key''"

definition is_mouse_event :: "string \<Rightarrow> bool" where
  "is_mouse_event ty \<longleftrightarrow> take 5 ty = ''mouse'' \<or> take 7 ty = ''pointer'' \<or> take 11 ty = ''contextmenu'' \<or> occurs ''click'' ty"

text \<open>The button of a click: 1 is left, 2 is middle, 3 is right.\<close>

definition mouse_which :: "int \<Rightarrow> nat" where
  "mouse_which button = (if odd button then 1 else if odd (button div 2) then 3 else if odd (button div 4) then 2 else 0)"

definition key_filter :: "'v event \<Rightarrow> 'v native \<Rightarrow> 'v event" where
  "key_filter ev e = (if e_which ev = None then ev\<lparr>e_which := (if n_charCode e \<noteq> None then n_charCode e else n_keyCode e)\<rparr> else ev)"

definition mouse_filter :: "'v event \<Rightarrow> 'v native \<Rightarrow> 'v event" where
  "mouse_filter ev e =
     (if or_else (e_which ev) 0 = 0 \<and> n_button e \<noteq> None
      then ev\<lparr>e_which := Some (mouse_which (the (n_button e)))\<rparr> else ev)"

text \<open>
  \<open>fix\<close> of a native event.  The coordinates, and \<open>relatedTarget\<close> where only \<open>fromElement\<close> exists, are
  left out of the copy.  The target is the source element of an old browser, else the document; a
  text node gives way to its parent.
\<close>

definition fix_event :: "ev_env \<Rightarrow> 'v native \<Rightarrow> 'v event" where
  "fix_event d src =
     (let target = or_else (n_target src) (or_else (n_srcElement src) (Elem (Node (preferred d) [])));
          target' = (case target of
                       Elem n \<Rightarrow> if nodeType d n = 3 then map_option Elem (parentNode n) else Some target
                     | Window \<Rightarrow> Some target);
          ev = (event_of src)
                 \<lparr>e_target := target', e_relatedTarget := n_relatedTarget src, e_which := n_which src,
                  e_button := (if is_mouse_event (n_type src) then n_button src else None),
                  e_metaKey := Some (n_metaKey src = Some True)\<rparr>
      in if is_mouse_event (n_type src) then mouse_filter ev src
         else if is_key_event (n_type src) then key_filter ev src else ev)"

section \<open>The state, the page and its functions\<close>

text \<open>
  The state: the registry, the type whose native method \<open>trigger\<close> is calling, the functions in
  \<open>onclick\<close> and the like, and the rest of the world.
\<close>

record ('v, 'w) dst =
  reg :: "'v arg evs"
  triggered :: "string option"
  inline :: "target \<Rightarrow> string \<Rightarrow> nat option"
  world :: 'w

text \<open>A function gets the object it is called on, the event and further arguments.\<close>

type_synonym ('v, 'w) runner =
  "nat \<Rightarrow> target \<Rightarrow> 'v event \<Rightarrow> 'v arg list \<Rightarrow> ('v, 'w) dst \<Rightarrow> 'v arg \<times> 'v event \<times> ('v, 'w) dst"

text \<open>
  The page: what \<open>find\<close> and \<open>index\<close> say of a selector in a context and a node, disabled elements,
  node names and types, whether a native method exists and what it does (which may be to raise),
  and the focused element.
\<close>

record ('v, 'w) page =
  penv :: ev_env
  finds :: "string \<Rightarrow> target \<Rightarrow> node \<Rightarrow> bool"
  within :: "string \<Rightarrow> target \<Rightarrow> node \<Rightarrow> bool"
  disabled :: "node \<Rightarrow> bool"
  nodeName :: "node \<Rightarrow> string"
  inputType :: "node \<Rightarrow> string"
  native_method :: "target \<Rightarrow> string \<Rightarrow> (('v, 'w) dst \<Rightarrow> bool \<times> ('v, 'w) dst) option"
  activeElement :: "('v, 'w) dst \<Rightarrow> target option"
  runs :: "('v, 'w) runner"
  table :: "'v arg specials"

definition nodeNameIs :: "('v, 'w) page \<Rightarrow> target \<Rightarrow> string \<Rightarrow> bool" where
  "nodeNameIs b t nm = (case t of Elem n \<Rightarrow> lower (nodeName b n) = lower nm | Window \<Rightarrow> False)"

text \<open>
  A call of a function.  A wrapper made by \<open>one\<close> first unbinds the binding that is being called (a
  binding's own name always matches, so two levels of the stack are enough), then calls on.
\<close>

fun call_fn :: "('v, 'w) page \<Rightarrow> fn \<Rightarrow> target \<Rightarrow> 'v event \<Rightarrow> 'v arg list \<Rightarrow> ('v, 'w) dst \<Rightarrow> 'v arg \<times> 'v event \<times> ('v, 'w) dst" where
  "call_fn b (Fn k) this ev args s = runs b k this ev args s"
| "call_fn b ReturnFalse this ev args s = (FalseArg, ev, s)"
| "call_fn b (Wrap f) this ev args s =
     (let s1 = (case (e_delegateTarget ev, e_handleObj ev) of
                  (Some t, Some h) \<Rightarrow> s\<lparr>reg := after (off_event 2 (table b) t h (reg s))\<rparr>
                | _ \<Rightarrow> s)
      in call_fn b f this ev args s1)"

section \<open>Finding the handlers\<close>

text \<open>
  The delegated handlers that match one node: the answer for a selector is kept under its text and
  not asked again.
\<close>

fun matching :: "('v, 'w) page \<Rightarrow> target \<Rightarrow> node \<Rightarrow> 'v arg hobj list \<Rightarrow> (string \<times> bool) list \<Rightarrow> 'v arg hobj list" where
  "matching b this cur [] asked = []"
| "matching b this cur (h # rest) asked =
     (let sel = or_else (h_selector h) ''undefined'' @ '' '';
          asked' = (case oget asked sel of
                      None \<Rightarrow> oset asked sel (if h_needsContext h then within b sel this cur else finds b sel this cur)
                    | Some _ \<Rightarrow> asked)
      in if oget asked' sel = Some True then h # matching b this cur rest asked' else matching b this cur rest asked')"

function delegates :: "('v, 'w) page \<Rightarrow> target \<Rightarrow> string \<Rightarrow> 'v arg hobj list \<Rightarrow> node \<Rightarrow> (target \<times> 'v arg hobj list) list" where
  "delegates b this ty dels cur =
     (if Elem cur = this then []
      else (let ms = (if nodeType (penv b) cur = 1 \<and> (\<not> disabled b cur \<or> ty \<noteq> ''click'') then matching b this cur dels [] else [])
            in (if ms \<noteq> [] then [(Elem cur, ms)] else []) @
               (case parentNode cur of None \<Rightarrow> [] | Some p \<Rightarrow> delegates b this ty dels p)))"
  by pat_completeness auto
termination
  by (relation "measure (\<lambda>(b, this, ty, dels, cur). length (path cur))") (auto simp: parentNode_Some)

declare delegates.simps [simp del]

definition handlers :: "('v, 'w) page \<Rightarrow> target \<Rightarrow> 'v event \<Rightarrow> 'v arg hlist \<Rightarrow> (target \<times> 'v arg hobj list) list" where
  "handlers b this ev hl =
     (let dc = nat (delegateCount hl);
          button = (or_else (e_button ev) 0 \<noteq> 0)
      in (case e_target ev of
            Some (Elem cur) \<Rightarrow>
              if dc \<noteq> 0 \<and> (\<not> button \<or> e_type ev \<noteq> ''click'') then delegates b this (e_type ev) (take dc (hs hl)) cur else []
          | _ \<Rightarrow> []) @
         (if dc < length (hs hl) then [(this, drop dc (hs hl))] else []))"

section \<open>Dispatch\<close>

text \<open>The special events \<open>mouseenter\<close> and its like have a \<open>handle\<close> of their own.\<close>

definition enter_types :: "string \<Rightarrow> string option" where
  "enter_types = map_of [(''mouseenter'', ''mouseover''), (''mouseleave'', ''mouseout''),
     (''pointerenter'', ''pointerover''), (''pointerleave'', ''pointerout'')]"

definition contains_target :: "('v, 'w) page \<Rightarrow> target \<Rightarrow> target \<Rightarrow> bool" where
  "contains_target b t u = (case (t, u) of (Elem m, Elem n) \<Rightarrow> contains (dom_env.truncate (penv b)) m n | _ \<Rightarrow> False)"

definition enter_handle :: "('v, 'w) page \<Rightarrow> string \<Rightarrow> 'v arg hobj \<Rightarrow> target \<Rightarrow> 'v event \<Rightarrow> 'v arg list \<Rightarrow> ('v, 'w) dst \<Rightarrow> 'v arg \<times> 'v event \<times> ('v, 'w) dst" where
  "enter_handle b fix_ty h this ev args s =
     (if (case e_relatedTarget ev of None \<Rightarrow> True | Some rel \<Rightarrow> rel \<noteq> this \<and> \<not> contains_target b this rel)
      then case call_fn b (h_handler h) this (ev\<lparr>e_type := h_origType h\<rparr>) args s of
             (ret, ev', s') \<Rightarrow> (ret, ev'\<lparr>e_type := fix_ty\<rparr>, s')
      else (Undef, ev, s))"

definition call_handler :: "('v, 'w) page \<Rightarrow> 'v arg hobj \<Rightarrow> target \<Rightarrow> 'v event \<Rightarrow> 'v arg list \<Rightarrow> ('v, 'w) dst \<Rightarrow> 'v arg \<times> 'v event \<times> ('v, 'w) dst" where
  "call_handler b h this ev args s =
     (case enter_types (h_origType h) of
        Some fix_ty \<Rightarrow> enter_handle b fix_ty h this ev args s
      | None \<Rightarrow> call_fn b (h_handler h) this ev args s)"

definition take_result :: "'v arg \<Rightarrow> 'v event \<Rightarrow> 'v event" where
  "take_result ret ev =
     (if ret = Undef then ev
      else let ev1 = ev\<lparr>e_result := ret\<rparr> in if ret = FalseArg then stopPropagation (preventDefault ev1) else ev1)"

definition ns_accepts :: "'v event \<Rightarrow> 'v arg hobj \<Rightarrow> bool" where
  "ns_accepts ev h \<longleftrightarrow> e_namespace ev = [] \<or> ns_test (e_namespace ev) (h_namespace h)"

text \<open>The handlers of one element, until one stops the event at once.\<close>

fun run_handlers :: "('v, 'w) page \<Rightarrow> target \<Rightarrow> 'v arg list \<Rightarrow> 'v arg hobj list \<Rightarrow> 'v event \<times> ('v, 'w) dst \<Rightarrow> 'v event \<times> ('v, 'w) dst" where
  "run_handlers b this args [] (ev, s) = (ev, s)"
| "run_handlers b this args (h # rest) (ev, s) =
     (if isImmediatePropagationStopped ev then (ev, s)
      else if ns_accepts ev h
      then (case call_handler b h this (ev\<lparr>e_handleObj := Some h, e_data := h_data h\<rparr>) args s of
              (ret, ev', s') \<Rightarrow> run_handlers b this args rest (take_result ret ev', s'))
      else run_handlers b this args rest (ev, s))"

text \<open>The elements of the queue, until one stops the event from going on.\<close>

fun run_queue :: "('v, 'w) page \<Rightarrow> 'v arg list \<Rightarrow> (target \<times> 'v arg hobj list) list \<Rightarrow> 'v event \<times> ('v, 'w) dst \<Rightarrow> 'v event \<times> ('v, 'w) dst" where
  "run_queue b args [] (ev, s) = (ev, s)"
| "run_queue b args ((e, l) # rest) (ev, s) =
     (if isPropagationStopped ev then (ev, s)
      else run_queue b args rest (run_handlers b e args l (ev\<lparr>e_currentTarget := Some e\<rparr>, s)))"

definition postDispatch :: "string \<Rightarrow> 'v event \<Rightarrow> 'v event" where
  "postDispatch ty ev =
     (if ty = ''beforeunload'' \<and> e_result ev \<noteq> Undef
      then ev\<lparr>e_original := map_option (\<lambda>e. e\<lparr>n_returnValue := e_result ev\<rparr>) (e_original ev)\<rparr> else ev)"

text \<open>The registry is read once, before the first handler runs.\<close>

definition dispatch :: "('v, 'w) page \<Rightarrow> target \<Rightarrow> 'v arg list \<Rightarrow> 'v event \<times> ('v, 'w) dst \<Rightarrow> 'v event \<times> ('v, 'w) dst" where
  "dispatch b this args es =
     (case es of (ev0, s) \<Rightarrow>
       let hl = or_else (handlers_at (reg s) this (e_type ev0)) \<lparr>hs = [], delegateCount = 0\<rparr>;
           ev1 = ev0\<lparr>e_delegateTarget := Some this\<rparr>
       in case run_queue b args (handlers b this ev1 hl) (ev1, s) of
            (ev2, s') \<Rightarrow> (postDispatch (e_type ev0) ev2, s'))"

text \<open>The handle the browser calls: it leaves out the native event of a \<open>trigger\<close> under way.\<close>

definition eventHandle :: "('v, 'w) page \<Rightarrow> target \<Rightarrow> 'v native \<Rightarrow> ('v, 'w) dst \<Rightarrow> 'v arg \<times> ('v, 'w) dst" where
  "eventHandle b this src s =
     (if triggered s \<noteq> Some (n_type src)
      then case dispatch b this [] (fix_event (penv b) src, s) of (ev, s') \<Rightarrow> (e_result ev, s')
      else (Undef, s))"

section \<open>Trigger\<close>

definition ontype :: "string \<Rightarrow> string option" where
  "ontype ty = (if CHR '':'' \<in> set ty then None else Some (''on'' @ ty))"

text \<open>\<open>rfocusMorph\<close>, on a type and what follows it (\<open>undefined\<close> when nothing is being triggered).\<close>

definition rfocusMorph :: "string \<Rightarrow> bool" where
  "rfocusMorph s \<longleftrightarrow> s = ''focusinfocus'' \<or> s = ''focusoutblur''"

function ancestors :: "node \<Rightarrow> node list" where
  "ancestors cur = cur # (case parentNode cur of None \<Rightarrow> [] | Some p \<Rightarrow> ancestors p)"
  by pat_completeness auto
termination
  by (relation "measure (\<lambda>cur. length (path cur))") (auto simp: parentNode_Some)

declare ancestors.simps [simp del]

definition owner_document :: "('v, 'w) page \<Rightarrow> node \<Rightarrow> node" where
  "owner_document b n = (if nodeType (penv b) n = 9 then Node (preferred (penv b)) [] else ownerDocument (penv b) n)"

text \<open>
  The path, known in advance: the element, its ancestors (the element again in place of nothing when
  the bubbling type is a focus type of another name), and the window above a document.
\<close>

definition eventPath :: "('v, 'w) page \<Rightarrow> bool \<Rightarrow> string \<Rightarrow> target \<Rightarrow> target list" where
  "eventPath b onlyHandlers ty elem =
     (let sp = special_of (table b) ty; bubbleType = or_else (delegateType sp) ty
      in elem #
         (case elem of
            Window \<Rightarrow> []
          | Elem n \<Rightarrow>
              if onlyHandlers \<or> noBubble sp then []
              else let ups = (if rfocusMorph (bubbleType @ ty) then ancestors n else tl (ancestors n));
                       tmp = (if ups = [] then n else last ups)
                   in map Elem ups @ (if tmp = owner_document b n then [Window] else [])))"

text \<open>One target of the path: the registry's handlers, then the function in \<open>onclick\<close> and the like.\<close>

definition visit :: "('v, 'w) page \<Rightarrow> string \<Rightarrow> 'v arg list \<Rightarrow> target \<Rightarrow> 'v event \<times> ('v, 'w) dst \<Rightarrow> 'v event \<times> ('v, 'w) dst" where
  "visit b ty args cur es =
     (case es of (ev, s) \<Rightarrow>
       let (ev1, s1) = (if handlers_at (reg s) cur (e_type ev) \<noteq> None \<and> handle (reg s) cur \<and> triggered s \<noteq> Some (e_type ev)
                        then dispatch b cur args (ev, s) else (ev, s))
       in case (case ontype ty of None \<Rightarrow> None | Some on_ty \<Rightarrow> inline s1 cur on_ty) of
            Some k \<Rightarrow>
              if acceptData (penv b) cur
              then case runs b k cur ev1 args s1 of
                     (ret, ev2, s2) \<Rightarrow> (if ret = FalseArg then preventDefault (ev2\<lparr>e_result := ret\<rparr>) else ev2\<lparr>e_result := ret\<rparr>, s2)
              else (ev1, s1)
          | None \<Rightarrow> (ev1, s1))"

fun run_path :: "('v, 'w) page \<Rightarrow> string \<Rightarrow> string \<Rightarrow> 'v arg list \<Rightarrow> target list \<Rightarrow> 'v event \<times> ('v, 'w) dst \<Rightarrow> 'v event \<times> ('v, 'w) dst" where
  "run_path b ty evty args [] (ev, s) = (ev, s)"
| "run_path b ty evty args (cur # rest) (ev, s) =
     (if isPropagationStopped ev then (ev, s)
      else run_path b ty (or_else (delegateType (special_of (table b) ty)) ty) args rest
             (visit b ty args cur (ev\<lparr>e_type := evty\<rparr>, s)))"

text \<open>
  The special events' own \<open>trigger\<close>: the native method is called in place of the handlers.  The first
  part of the result says that the hook returned \<open>false\<close>.
\<close>

definition special_trigger :: "('v, 'w) page \<Rightarrow> string \<Rightarrow> target \<Rightarrow> ('v, 'w) dst \<Rightarrow> bool \<times> ('v, 'w) dst" where
  "special_trigger b ty elem s =
     (if ty = ''focus'' \<and> activeElement b s \<noteq> Some elem then
        (case native_method b elem ''focus'' of None \<Rightarrow> (False, s) | Some m \<Rightarrow> (case m s of (raised, s') \<Rightarrow> (\<not> raised, s')))
      else if ty = ''blur'' \<and> activeElement b s = Some elem then
        (case native_method b elem ''blur'' of None \<Rightarrow> (False, s) | Some m \<Rightarrow> (True, snd (m s)))
      else if ty = ''click'' \<and> nodeNameIs b elem ''input'' \<and> (case elem of Elem n \<Rightarrow> inputType b n = ''checkbox'' | Window \<Rightarrow> False) then
        (case native_method b elem ''click'' of None \<Rightarrow> (False, s) | Some m \<Rightarrow> (True, snd (m s)))
      else (False, s))"

text \<open>The default action: the native method of the same name, with \<open>onclick\<close> and the like out of the way.\<close>

definition default_action :: "('v, 'w) page \<Rightarrow> string \<Rightarrow> target \<Rightarrow> 'v event \<Rightarrow> ('v, 'w) dst \<Rightarrow> ('v, 'w) dst" where
  "default_action b ty elem ev s =
     (if ty = ''click'' \<and> (case e_target ev of Some t \<Rightarrow> nodeNameIs b t ''a'' | None \<Rightarrow> False) then s
      else if \<not> acceptData (penv b) elem then s
      else case (ontype ty, native_method b elem ty) of
             (Some on_ty, Some m) \<Rightarrow>
               if elem = Window then s
               else let tmp = inline s elem on_ty;
                        s1 = (if tmp \<noteq> None then s\<lparr>inline := (inline s)(elem := (inline s elem)(on_ty := None))\<rparr> else s);
                        s2 = snd (m (s1\<lparr>triggered := Some ty\<rparr>));
                        s3 = s2\<lparr>triggered := None\<rparr>
                    in if tmp \<noteq> None then s3\<lparr>inline := (inline s3)(elem := (inline s3 elem)(on_ty := tmp))\<rparr> else s3
           | _ \<Rightarrow> s)"

text \<open>The type and the name spaces of a triggered name, and of an event object.\<close>

definition trigger_name :: "string \<Rightarrow> string list \<Rightarrow> string \<times> string list" where
  "trigger_name ty nss =
     (if CHR ''.'' \<in> set ty
      then case split_str ''.'' ty of t # rest \<Rightarrow> (t, sort rest) | [] \<Rightarrow> (ty, nss)
      else (ty, nss))"

definition ns_pattern :: "string list \<Rightarrow> string list" where
  "ns_pattern nss = (if join ''.'' nss = '''' then [] else nss)"

definition trigger_event :: "('v, 'w) page \<Rightarrow> 'v event \<Rightarrow> 'v arg list \<Rightarrow> target \<Rightarrow> bool \<Rightarrow> ('v, 'w) dst \<Rightarrow> 'v arg \<times> 'v event \<times> ('v, 'w) dst" where
  "trigger_event b ev args elem onlyHandlers s =
     (if (case elem of Elem n \<Rightarrow> nodeType (penv b) n = 3 \<or> nodeType (penv b) n = 8 | Window \<Rightarrow> False) \<or>
         rfocusMorph (e_type ev @ or_else (triggered s) ''undefined'')
      then (Undef, ev, s)
      else case trigger_name (e_type ev) (e_namespace ev) of (ty, nss) \<Rightarrow>
        let ev1 = ev\<lparr>e_isTrigger := Some (if onlyHandlers then 2 else 3), e_namespace := ns_pattern nss, e_result := Undef,
                     e_target := (if e_target ev = None then Some elem else e_target ev)\<rparr>;
            (no, s1) = (if onlyHandlers then (False, s) else special_trigger b ty elem s)
        in if no then (Undef, ev1, s1)
           else case run_path b ty (or_else (bindType (special_of (table b) ty)) ty) args (eventPath b onlyHandlers ty elem) (ev1, s1) of
                  (ev2, s2) \<Rightarrow>
                    let ev3 = ev2\<lparr>e_type := ty\<rparr>;
                        s3 = (if \<not> onlyHandlers \<and> \<not> isDefaultPrevented ev3 then default_action b ty elem ev3 s2 else s2)
                    in (e_result ev3, ev3, s3))"

text \<open>\<open>trigger\<close> with the name of an event, the method of a collection, and \<open>triggerHandler\<close>.\<close>

definition trigger :: "('v, 'w) page \<Rightarrow> string \<Rightarrow> 'v arg list \<Rightarrow> target \<Rightarrow> bool \<Rightarrow> ('v, 'w) dst \<Rightarrow> 'v arg \<times> ('v, 'w) dst" where
  "trigger b ty args elem onlyHandlers s =
     (case trigger_event b (new_event ty) args elem onlyHandlers s of (ret, _, s') \<Rightarrow> (ret, s'))"

definition fn_trigger :: "('v, 'w) page \<Rightarrow> string \<Rightarrow> 'v arg list \<Rightarrow> target list \<Rightarrow> ('v, 'w) dst \<Rightarrow> ('v, 'w) dst" where
  "fn_trigger b ty args this s = foldl (\<lambda>s e. snd (trigger b ty args e False s)) s this"

definition triggerHandler :: "('v, 'w) page \<Rightarrow> string \<Rightarrow> 'v arg list \<Rightarrow> target list \<Rightarrow> ('v, 'w) dst \<Rightarrow> 'v arg \<times> ('v, 'w) dst" where
  "triggerHandler b ty args this s = (case this of [] \<Rightarrow> (Undef, s) | e # _ \<Rightarrow> trigger b ty args e True s)"

text \<open>
  \<open>simulate\<close>: a copy of a donor event under another type, on its own bare original event; the donor
  is prevented when the copy is.
\<close>

definition bare_native :: "'v native" where
  "bare_native = \<lparr>n_type = '''', n_target = None, n_srcElement = None, n_relatedTarget = None, n_defaultPrevented = None,
     n_returnValue = Undef, n_cancelBubble = False, n_stopped = False, n_immediateStopped = False, n_button = None, n_which = None,
     n_charCode = None, n_keyCode = None, n_metaKey = None, n_hasPreventDefault = False, n_hasStopPropagation = False,
     n_hasStopImmediate = False\<rparr>"

definition simulate :: "('v, 'w) page \<Rightarrow> string \<Rightarrow> target \<Rightarrow> 'v event \<Rightarrow> bool \<Rightarrow> ('v, 'w) dst \<Rightarrow> 'v event \<times> ('v, 'w) dst" where
  "simulate b ty elem ev bubble s =
     (let e = ev\<lparr>e_type := ty, e_isSimulated := True, e_original := Some bare_native\<rparr>;
          (e', s') = (if bubble then (case trigger_event b e [] elem False s of (_, e', s') \<Rightarrow> (e', s')) else dispatch b elem [] (e, s))
      in (if isDefaultPrevented e' then preventDefault ev else ev, s'))"

section \<open>Which handlers, and in which order\<close>

definition sel_matches :: "('v, 'w) page \<Rightarrow> target \<Rightarrow> node \<Rightarrow> 'v arg hobj \<Rightarrow> bool" where
  "sel_matches b this cur h =
     (let sel = or_else (h_selector h) ''undefined'' @ '' '' in if h_needsContext h then within b sel this cur else finds b sel this cur)"

text \<open>Handlers whose selectors have the same text agree on whether it needs a context.\<close>

definition same_needs :: "'v arg hobj list \<Rightarrow> bool" where
  "same_needs l \<longleftrightarrow> (\<forall>h \<in> set l. \<forall>h' \<in> set l. or_else (h_selector h) ''undefined'' = or_else (h_selector h') ''undefined'' \<longrightarrow>
     h_needsContext h = h_needsContext h')"

definition answers_ok :: "('v, 'w) page \<Rightarrow> target \<Rightarrow> node \<Rightarrow> 'v arg hobj list \<Rightarrow> (string \<times> bool) list \<Rightarrow> bool" where
  "answers_ok b this cur l asked \<longleftrightarrow>
     (\<forall>h \<in> set l. \<forall>r. oget asked (or_else (h_selector h) ''undefined'' @ '' '') = Some r \<longrightarrow> r = sel_matches b this cur h)"

lemma sel_matches_cong:
  assumes "same_needs l" "h \<in> set l" "h' \<in> set l" and sel: "or_else (h_selector h) ''undefined'' = or_else (h_selector h') ''undefined''"
  shows "sel_matches b this cur h = sel_matches b this cur h'"
proof -
  have "h_needsContext h = h_needsContext h'" using assms unfolding same_needs_def by blast
  then show ?thesis unfolding sel_matches_def Let_def by (simp only: sel)
qed

lemma same_needs_sub: "same_needs l \<Longrightarrow> set l' \<subseteq> set l \<Longrightarrow> same_needs l'"
  unfolding same_needs_def by blast

lemma matching_filter:
  "same_needs l \<Longrightarrow> answers_ok b this cur l asked \<Longrightarrow> matching b this cur l asked = filter (sel_matches b this cur) l"
proof (induction l arbitrary: asked)
  case (Cons h l)
  let ?sel = "or_else (h_selector h) ''undefined'' @ '' ''"
  define asked' where "asked' = (case oget asked ?sel of
      None \<Rightarrow> oset asked ?sel (if h_needsContext h then within b ?sel this cur else finds b ?sel this cur) | Some _ \<Rightarrow> asked)"
  have now: "oget asked' ?sel = Some (sel_matches b this cur h)"
    using Cons.prems(2) by (cases "oget asked ?sel") (auto simp: asked'_def answers_ok_def sel_matches_def Let_def)
  have "answers_ok b this cur l asked'"
    unfolding answers_ok_def
  proof (intro ballI allI impI)
    fix h' r assume h': "h' \<in> set l" "oget asked' (or_else (h_selector h') ''undefined'' @ '' '') = Some r"
    show "r = sel_matches b this cur h'"
    proof (cases "or_else (h_selector h') ''undefined'' = or_else (h_selector h) ''undefined''")
      case True
      then have "sel_matches b this cur h' = sel_matches b this cur h"
        using Cons.prems(1) h'(1) by (intro sel_matches_cong [where l = "h # l"]) auto
      with True h'(2) now show ?thesis by simp
    next
      case False
      then have "oget asked (or_else (h_selector h') ''undefined'' @ '' '') = Some r"
        using h'(2) by (auto simp: asked'_def split: option.splits)
      with Cons.prems(2) h'(1) show ?thesis by (auto simp: answers_ok_def)
    qed
  qed
  moreover have "same_needs l" by (rule same_needs_sub [OF Cons.prems(1)]) auto
  ultimately have "matching b this cur l asked' = filter (sel_matches b this cur) l" by (intro Cons.IH)
  then show ?case using now by (simp add: Let_def asked'_def [symmetric])
qed simp

text \<open>The handlers of one node on the way up, and the calls in a queue.\<close>

definition eligible :: "('v, 'w) page \<Rightarrow> string \<Rightarrow> node \<Rightarrow> bool" where
  "eligible b ty cur \<longleftrightarrow> nodeType (penv b) cur = 1 \<and> (\<not> disabled b cur \<or> ty \<noteq> ''click'')"

definition queued :: "(target \<times> 'v arg hobj list) list \<Rightarrow> (target \<times> 'v arg hobj) list" where
  "queued q = concat (map (\<lambda>(e, l). map (Pair e) l) q)"

lemma queued_simps [simp]:
  "queued [] = []" "queued ((e, l) # q) = map (Pair e) l @ queued q" "queued (q @ q') = queued q @ queued q'"
  by (simp_all add: queued_def)

lemma delegates_queued:
  assumes "same_needs dels"
  shows "queued (delegates b this ty dels cur) =
    concat (map (\<lambda>n. map (Pair (Elem n)) (if eligible b ty n then filter (sel_matches b this n) dels else []))
      (takeWhile (\<lambda>n. Elem n \<noteq> this) (ancestors cur)))"
  using assms
proof (induction b this ty dels cur rule: delegates.induct)
  case (1 b this ty dels cur)
  show ?case
  proof (cases "Elem cur = this")
    case True
    then show ?thesis by (simp add: delegates.simps [of b this ty dels cur] ancestors.simps [of cur] queued_def)
  next
    case False
    have m: "matching b this cur dels [] = filter (sel_matches b this cur) dels"
      by (rule matching_filter [OF "1.prems"]) (simp add: answers_ok_def)
    show ?thesis
    proof (cases "parentNode cur")
      case None
      with False show ?thesis
        by (simp add: delegates.simps [of b this ty dels cur] ancestors.simps [of cur] queued_def Let_def m eligible_def)
    next
      case (Some p)
      with "1.IH" [OF False refl Some "1.prems"] False show ?thesis
        by (simp add: delegates.simps [of b this ty dels cur] ancestors.simps [of cur] queued_def Let_def m eligible_def)
    qed
  qed
qed

lemma handlers_listed:
  assumes "hs hl = arrange (hs hl)" "delegateCount hl = int (length (filter delegated (hs hl)))" "same_needs (hs hl)"
  shows "queued (handlers b this ev hl) =
    (case e_target ev of
       Some (Elem cur) \<Rightarrow>
         if e_type ev = ''click'' \<and> or_else (e_button ev) 0 \<noteq> 0 then []
         else concat (map (\<lambda>n. map (Pair (Elem n))
                (if eligible b (e_type ev) n then filter (\<lambda>h. delegated h \<and> sel_matches b this n h) (hs hl) else []))
              (takeWhile (\<lambda>n. Elem n \<noteq> this) (ancestors cur)))
     | _ \<Rightarrow> []) @
    map (Pair this) (filter (\<lambda>h. \<not> delegated h) (hs hl))"
proof -
  define dels where "dels = filter delegated (hs hl)"
  define own where "own = filter (\<lambda>h. \<not> delegated h) (hs hl)"
  have hl: "hs hl = dels @ own" using assms(1) by (simp add: arrange_def dels_def own_def)
  have dc: "nat (delegateCount hl) = length dels" using assms(2) by (simp add: dels_def)
  have split: "take (length dels) (hs hl) = dels" "drop (length dels) (hs hl) = own" by (simp_all add: hl)
  have needs: "same_needs dels" by (rule same_needs_sub [OF assms(3)]) (auto simp: dels_def)
  have q: "queued (x @ y) = queued x @ queued y" for x y :: "(target \<times> 'a arg hobj list) list" by (simp add: queued_def)
  have tail: "queued (if length dels < length (hs hl) then [(this, own)] else []) = map (Pair this) own"
    by (auto simp: hl queued_def)
  have sel: "filter (sel_matches b this n) dels = filter (\<lambda>h. delegated h \<and> sel_matches b this n h) (hs hl)" for n
    by (simp add: dels_def conj_commute)
  have none: "concat (map (\<lambda>n. map (Pair (Elem n)) (if eligible b ty n then filter (sel_matches b this n) [] else [])) ns) = []" for ty ns
    by (induction ns) auto
  show ?thesis
    unfolding handlers_def Let_def dc split q tail own_def [symmetric]
  proof (intro arg_cong2 [where f = append] refl)
    show "queued (case e_target ev of
            None \<Rightarrow> [] | Some (Elem cur) \<Rightarrow>
              if length dels \<noteq> 0 \<and> (\<not> or_else (e_button ev) 0 \<noteq> 0 \<or> e_type ev \<noteq> ''click'') then delegates b this (e_type ev) dels cur else []
          | Some Window \<Rightarrow> []) =
      (case e_target ev of
       None \<Rightarrow> [] | Some (Elem cur) \<Rightarrow>
         if e_type ev = ''click'' \<and> or_else (e_button ev) 0 \<noteq> 0 then []
         else concat (map (\<lambda>n. map (Pair (Elem n))
                (if eligible b (e_type ev) n then filter (\<lambda>h. delegated h \<and> sel_matches b this n h) (hs hl) else []))
              (takeWhile (\<lambda>n. Elem n \<noteq> this) (ancestors cur)))
       | Some Window \<Rightarrow> [])"
    proof (cases "dels = []")
      case True
      have "queued ([] :: (target \<times> 'a arg hobj list) list) = []" by (simp add: queued_def)
      with True show ?thesis using none
        by (auto simp: sel [symmetric] cong: if_cong split: option.split target.split)
    next
      case False
      have "queued ([] :: (target \<times> 'a arg hobj list) list) = []" by (simp add: queued_def)
      with False show ?thesis
        by (auto simp: sel [symmetric] delegates_queued [OF needs] cong: if_cong split: option.split target.split)
    qed
  qed
qed

text \<open>
  C27: The handlers of a target for an event: first the delegated ones, from the element the event
  hit up to below the target, for each element those whose selector it matches, in the order of
  binding; then the ones bound on the target itself.  Asking each selector once for an element gives
  the same as asking for every handler.  Elements that are not elements, or disabled and clicked, are
  passed over, and a click with another button than the first reaches no delegated handler.
\<close>

theorem handlers_in_order:
  assumes "hs hl = arrange (hs hl)" "delegateCount hl = int (length (filter delegated (hs hl)))" "same_needs (hs hl)"
  shows "queued (handlers b this ev hl) =
    (case e_target ev of
       Some (Elem cur) \<Rightarrow>
         if e_type ev = ''click'' \<and> or_else (e_button ev) 0 \<noteq> 0 then []
         else concat (map (\<lambda>n. map (Pair (Elem n))
                (if eligible b (e_type ev) n then filter (\<lambda>h. delegated h \<and> sel_matches b this n h) (hs hl) else []))
              (takeWhile (\<lambda>n. Elem n \<noteq> this) (ancestors cur)))
     | _ \<Rightarrow> []) @
    map (Pair this) (filter (\<lambda>h. \<not> delegated h) (hs hl))"
  using assms by (rule handlers_listed)

lemma matching_members: "set (matching b this cur l asked) \<subseteq> set l"
  by (induction l arbitrary: asked) (auto simp: Let_def)

lemma delegates_members: "c \<in> set (queued (delegates b this ty dels cur)) \<Longrightarrow> snd c \<in> set dels"
proof (induction b this ty dels cur rule: delegates.induct)
  case (1 b this ty dels cur)
  show ?case
  proof (cases "Elem cur = this")
    case True
    with "1.prems" show ?thesis by (simp add: delegates.simps [of b this ty dels cur] queued_def)
  next
    case False
    with "1.prems" consider "snd c \<in> set (matching b this cur dels [])"
      | p where "parentNode cur = Some p" "c \<in> set (queued (delegates b this ty dels p))"
      by (cases "parentNode cur") (auto simp: delegates.simps [of b this ty dels cur] Let_def split: if_splits)
    then show ?thesis
    proof cases
      case 1
      then show ?thesis using matching_members by blast
    next
      case (2 p)
      from "1.IH" [OF False refl 2] show ?thesis .
    qed
  qed
qed

lemma handlers_members: "c \<in> set (queued (handlers b this ev hl)) \<Longrightarrow> snd c \<in> set (hs hl)"
proof -
  assume c: "c \<in> set (queued (handlers b this ev hl))"
  from c consider cur where "c \<in> set (queued (delegates b this (e_type ev) (take (nat (delegateCount hl)) (hs hl)) cur))"
    | "snd c \<in> set (drop (nat (delegateCount hl)) (hs hl))"
    by (auto simp: handlers_def Let_def split: option.splits target.splits if_splits)
  then show ?thesis by cases (auto dest: delegates_members in_set_takeD in_set_dropD)
qed

section \<open>What a dispatch calls\<close>

text \<open>
  A page whose functions are observed: each call is added to the world with the object it is made
  on and whether it left the event stopped (a function also stops it by returning \<open>false\<close>) and
  stopped at once.  They may do anything to the registry and to the event, except to give the event
  other name spaces or to take a stop back (the event object has no method for it).
\<close>

definition kept_on :: "'v event \<Rightarrow> 'v event \<Rightarrow> bool" where
  "kept_on ev ev' \<longleftrightarrow> e_namespace ev' = e_namespace ev \<and>
     (isPropagationStopped ev \<longrightarrow> isPropagationStopped ev') \<and>
     (isImmediatePropagationStopped ev \<longrightarrow> isImmediatePropagationStopped ev')"

type_synonym call_entry = "nat \<times> target \<times> bool \<times> bool"

definition observed :: "('v, call_entry list) page \<Rightarrow> bool" where
  "observed b \<longleftrightarrow> (\<forall>k this ev args s ret ev' s'. runs b k this ev args s = (ret, ev', s') \<longrightarrow>
     world s' = world s @ [(k, this, isPropagationStopped ev' \<or> ret = FalseArg, isImmediatePropagationStopped ev')] \<and> kept_on ev ev')"

text \<open>
  A call of a handler on an object, with what it left: \<open>trace\<close> is what the world has of it (the
  functions of the page are observed, \<open>returnFalse\<close> is not).
\<close>

type_synonym 'v call = "(target \<times> 'v arg hobj) \<times> bool \<times> bool"

definition trace :: "'v call \<Rightarrow> call_entry list" where
  "trace y = (case y of ((t, h), p, i) \<Rightarrow> (case innermost (h_handler h) of Fn k \<Rightarrow> [(k, t, p, i)] | _ \<Rightarrow> []))"

text \<open>When one call may follow another, and when a call makes the rest of the queue be left out.\<close>

definition may_follow :: "'v call \<Rightarrow> 'v call \<Rightarrow> bool" where
  "may_follow y z = (case (y, z) of (((t, _), p, i), ((u, _), _)) \<Rightarrow> \<not> i \<and> (p \<longrightarrow> t = u))"

definition cuts :: "'v call \<Rightarrow> target \<times> 'v arg hobj \<Rightarrow> bool" where
  "cuts y c = (case (y, c) of (((t, _), p, i), (u, _)) \<Rightarrow> i \<or> p \<and> t \<noteq> u)"

definition stopping :: "'v call \<Rightarrow> bool" where
  "stopping y = (case y of ((_, h), p, _) \<Rightarrow> innermost (h_handler h) = ReturnFalse \<longrightarrow> p)"

lemma kept_on_refl [simp]: "kept_on ev ev"
  by (simp add: kept_on_def)

lemma kept_on_trans [trans]: "kept_on a b \<Longrightarrow> kept_on b c \<Longrightarrow> kept_on a c"
  by (simp add: kept_on_def)

lemma kept_on_updates:
  "kept_on ev (ev\<lparr>e_handleObj := x\<rparr>)" "kept_on ev (ev\<lparr>e_handleObj := x, e_data := y\<rparr>)" "kept_on ev (ev\<lparr>e_currentTarget := z\<rparr>)"
  by (simp_all add: kept_on_def)

lemma take_result_flags:
  "isPropagationStopped (take_result ret ev) \<longleftrightarrow> isPropagationStopped ev \<or> ret = FalseArg"
  "isImmediatePropagationStopped (take_result ret ev) = isImmediatePropagationStopped ev"
  by (auto simp: take_result_def stopPropagation_def preventDefault_def Let_def)

lemma kept_on_result: "kept_on ev (take_result ret ev)"
  by (simp add: kept_on_def take_result_def stopPropagation_def preventDefault_def Let_def)

lemma call_fn_observed:
  assumes "observed b"
  shows "call_fn b f this ev args s = (ret, ev', s') \<Longrightarrow>
    world s' = world s @ (case innermost f of
        Fn k \<Rightarrow> [(k, this, isPropagationStopped ev' \<or> ret = FalseArg, isImmediatePropagationStopped ev')] | _ \<Rightarrow> []) \<and>
    kept_on ev ev' \<and> (innermost f = ReturnFalse \<longrightarrow> ret = FalseArg)"
proof (induction f arbitrary: s)
  case (Fn k)
  with assms show ?case by (simp add: observed_def)
next
  case ReturnFalse
  then show ?case by simp
next
  case (Wrap f)
  define s1 where "s1 = (case (e_delegateTarget ev, e_handleObj ev) of
      (Some t, Some h) \<Rightarrow> s\<lparr>reg := after (off_event 2 (table b) t h (reg s))\<rparr> | _ \<Rightarrow> s)"
  have "world s1 = world s" by (simp add: s1_def split: option.split)
  moreover have "call_fn b f this ev args s1 = (ret, ev', s')" using Wrap.prems by (simp add: s1_def)
  ultimately show ?case using Wrap.IH [of s1] by simp
qed

lemma ns_accepts_kept: "kept_on ev ev' \<Longrightarrow> ns_accepts ev' = ns_accepts ev"
  by (simp add: kept_on_def ns_accepts_def fun_eq_iff)

lemma run_handlers_stopped: "isImmediatePropagationStopped ev \<Longrightarrow> run_handlers b this args l (ev, s) = (ev, s)"
  by (cases l) simp_all

text \<open>The handlers of one element: the calls, and the handlers that are left out.\<close>

definition handlers_run :: "('v event \<Rightarrow> 'v arg hobj list) \<Rightarrow> target \<Rightarrow> 'v event \<Rightarrow> call_entry list \<Rightarrow> 'v event \<Rightarrow> call_entry list \<Rightarrow>
    'v call list \<Rightarrow> (target \<times> 'v arg hobj) list \<Rightarrow> bool" where
  "handlers_run acc this ev w ev' w' ys zs \<longleftrightarrow>
     map (Pair this) (acc ev) = map fst ys @ zs \<and> w' = w @ concat (map trace ys) \<and> kept_on ev ev' \<and>
     sorted_wrt may_follow ys \<and> list_all stopping ys \<and>
     (\<forall>(_, p, i) \<in> set ys. (p \<longrightarrow> isPropagationStopped ev') \<and> (i \<longrightarrow> isImmediatePropagationStopped ev')) \<and>
     (if ys = [] then isPropagationStopped ev' = isPropagationStopped ev \<and> isImmediatePropagationStopped ev' = isImmediatePropagationStopped ev
      else snd (last ys) = (isPropagationStopped ev', isImmediatePropagationStopped ev')) \<and>
     (zs \<noteq> [] \<longrightarrow> isImmediatePropagationStopped ev')"

lemma handlers_run_elems:
  assumes "handlers_run acc e ev w ev' w' ys zs"
  shows "(\<forall>y \<in> set ys. fst (fst y) = e) \<and> (\<forall>z \<in> set zs. fst z = e)"
proof -
  have "\<forall>x \<in> set (map (Pair e) (acc ev)). fst x = e" by simp
  moreover have "map (Pair e) (acc ev) = map fst ys @ zs" using assms by (simp add: handlers_run_def)
  ultimately have "\<forall>x \<in> set (map fst ys @ zs). fst x = e" by (simp only:)
  then show ?thesis by simp
qed

lemma run_handlers_observed:
  assumes "observed b" "\<forall>h \<in> set l. enter_types (h_origType h) = None" "\<not> isImmediatePropagationStopped ev"
    and "run_handlers b this args l (ev, s) = (ev', s')"
  shows "\<exists>ys zs. handlers_run (\<lambda>ev. filter (ns_accepts ev) l) this ev (world s) ev' (world s') ys zs"
  using assms(2-4)
proof (induction l arbitrary: ev s)
  case Nil
  then show ?case by (intro exI [of _ "[]"]) (simp add: handlers_run_def)
next
  case (Cons h l)
  show ?case
  proof (cases "ns_accepts ev h")
    case False
    with Cons.prems have "run_handlers b this args l (ev, s) = (ev', s')" by simp
    with Cons.IH [OF _ Cons.prems(2) this] Cons.prems(1) False show ?thesis by (simp add: handlers_run_def)
  next
    case True
    let ?ev1 = "ev\<lparr>e_handleObj := Some h, e_data := h_data h\<rparr>"
    obtain ret ev2 s2 where call: "call_handler b h this ?ev1 args s = (ret, ev2, s2)" by (metis prod_cases3)
    let ?ev3 = "take_result ret ev2"
    let ?y = "((this, h), isPropagationStopped ?ev3, isImmediatePropagationStopped ?ev3)"
    have "enter_types (h_origType h) = None" using Cons.prems(1) by simp
    with call have "call_fn b (h_handler h) this ?ev1 args s = (ret, ev2, s2)" by (simp add: call_handler_def)
    from call_fn_observed [OF assms(1) this]
    have log: "world s2 = world s @ trace ?y" and st: "stopping ?y" and "kept_on ?ev1 ev2"
      by (auto simp: trace_def take_result_flags stopping_def)
    then have k: "kept_on ev ?ev3"
      using kept_on_trans [OF kept_on_trans [OF kept_on_updates(2)] kept_on_result] by blast
    have run: "run_handlers b this args l (?ev3, s2) = (ev', s')"
      using Cons.prems(2,3) True call by simp
    show ?thesis
    proof (cases "isImmediatePropagationStopped ?ev3")
      case stop: True
      have "ev' = ?ev3 \<and> s' = s2" using run unfolding run_handlers_stopped [OF stop] by simp
      then have e: "ev' = ?ev3" "s' = s2" by simp_all
      show ?thesis
        using True stop log st k unfolding e handlers_run_def
        by (intro exI [of _ "[?y]"] exI [of _ "map (Pair this) (filter (ns_accepts ev) l)"]) auto
    next
      case go: False
      from Cons.IH [OF _ go run] Cons.prems(1) obtain ys zs where
        IH: "handlers_run (\<lambda>ev. filter (ns_accepts ev) l) this ?ev3 (world s2) ev' (world s') ys zs" by auto
      have k': "kept_on ?ev3 ev'" using IH by (simp add: handlers_run_def)
      have same: "\<forall>y \<in> set ys. fst (fst y) = this" using handlers_run_elems [OF IH] by simp
      have "sorted_wrt may_follow (?y # ys)"
        using IH go same by (auto simp: handlers_run_def may_follow_def split: prod.split)
      moreover have "\<forall>(_, p, i) \<in> set (?y # ys). (p \<longrightarrow> isPropagationStopped ev') \<and> (i \<longrightarrow> isImmediatePropagationStopped ev')"
        using IH k' by (auto simp: handlers_run_def kept_on_def)
      ultimately show ?thesis
        using IH True log st k kept_on_trans [OF k k'] unfolding handlers_run_def ns_accepts_kept [OF k]
        by (intro exI [of _ "?y # ys"] exI [of _ zs]) auto
    qed
  qed
qed

definition accepted :: "'v event \<Rightarrow> (target \<times> 'v arg hobj) list \<Rightarrow> (target \<times> 'v arg hobj) list" where
  "accepted ev q = filter (\<lambda>c. ns_accepts ev (snd c)) q"

lemma accepted_simps [simp]:
  "accepted ev [] = []" "accepted ev (map (Pair e) l @ q) = map (Pair e) (filter (ns_accepts ev) l) @ accepted ev q"
  by (simp_all add: accepted_def filter_map o_def)

lemma accepted_elems: "c \<in> set (accepted ev (queued q)) \<Longrightarrow> fst c \<in> fst ` set q"
  by (force simp: accepted_def queued_def)

lemma run_queue_stopped:
  "isImmediatePropagationStopped ev \<Longrightarrow> run_queue b args q (ev, s) = (ev', s') \<Longrightarrow> s' = s"
proof (induction q arbitrary: ev)
  case (Cons c q)
  obtain e l where c: "c = (e, l)" by fastforce
  show ?case
  proof (cases "isPropagationStopped ev")
    case False
    let ?ev = "ev\<lparr>e_currentTarget := Some e\<rparr>"
    have "run_queue b args q (?ev, s) = (ev', s')"
      using Cons.prems False by (simp add: c run_handlers_stopped)
    with Cons.IH [OF _ this] Cons.prems(1) show ?thesis by simp
  qed (use Cons.prems c in simp)
qed simp

lemma run_queue_halted: "isPropagationStopped ev \<Longrightarrow> run_queue b args q (ev, s) = (ev, s)"
  by (cases q) auto

lemma run_queue_observed:
  assumes "observed b" "\<forall>c \<in> set (queued q). enter_types (h_origType (snd c)) = None" "distinct (map fst q)"
    "\<not> isPropagationStopped ev" "\<not> isImmediatePropagationStopped ev"
    and "run_queue b args q (ev, s) = (ev', s')"
  shows "\<exists>ys zs. accepted ev (queued q) = map fst ys @ zs \<and> world s' = world s @ concat (map trace ys) \<and>
    sorted_wrt may_follow ys \<and> list_all stopping ys \<and> (zs \<noteq> [] \<longrightarrow> ys \<noteq> [] \<and> cuts (last ys) (hd zs))"
  using assms(2-6)
proof (induction q arbitrary: ev s)
  case Nil
  then show ?case by (intro exI [of _ "[]"]) (simp add: queued_def)
next
  case (Cons c q)
  obtain e l where c: "c = (e, l)" by fastforce
  let ?ev0 = "ev\<lparr>e_currentTarget := Some e\<rparr>"
  obtain ev1 s1 where run: "run_handlers b e args l (?ev0, s) = (ev1, s1)" by fastforce
  have "\<forall>h \<in> set l. enter_types (h_origType h) = None"
  proof
    fix h assume "h \<in> set l"
    then have "(e, h) \<in> set (queued (c # q))" by (simp add: c)
    with Cons.prems(1) have "enter_types (h_origType (snd (e, h))) = None" by blast
    then show "enter_types (h_origType h) = None" by simp
  qed
  from run_handlers_observed [OF assms(1) this _ run] Cons.prems(4) obtain ys zs where
    R: "handlers_run (\<lambda>ev. filter (ns_accepts ev) l) e ?ev0 (world s) ev1 (world s1) ys zs" by auto
  have k: "kept_on ev ev1" using R by (auto simp: handlers_run_def intro: kept_on_trans [OF kept_on_updates(3)])
  have rest: "run_queue b args q (ev1, s1) = (ev', s')" using Cons.prems(3,5) run by (simp add: c)
  have acc: "accepted ev (queued (c # q)) = map fst ys @ zs @ accepted ev (queued q)"
    using R by (simp add: c handlers_run_def ns_accepts_kept [OF kept_on_updates(3)])
  have ys: "\<forall>y \<in> set ys. fst (fst y) = e" and zs: "\<forall>z \<in> set zs. fst z = e"
    using handlers_run_elems [OF R] by simp_all
  have base: "sorted_wrt may_follow ys" "list_all stopping ys" "world s1 = world s @ concat (map trace ys)"
    using R by (simp_all add: handlers_run_def)
  show ?case
  proof (cases "isImmediatePropagationStopped ev1")
    case True
    with R Cons.prems(4) have "ys \<noteq> []" "snd (snd (last ys))" by (auto simp: handlers_run_def split: if_splits)
    moreover have "s' = s1" by (rule run_queue_stopped [OF True rest])
    ultimately show ?thesis using acc base
      by (intro exI [of _ ys] exI [of _ "zs @ accepted ev (queued q)"]) (auto simp: cuts_def split: prod.splits)
  next
    case False
    then have z: "zs = []" using R by (auto simp: handlers_run_def)
    show ?thesis
    proof (cases "isPropagationStopped ev1")
      case True
      with R Cons.prems(3) have y: "ys \<noteq> []" "fst (snd (last ys))" by (auto simp: handlers_run_def split: if_splits)
      have "s' = s1" using rest unfolding run_queue_halted [OF True] by simp
      moreover have "cuts (last ys) (hd (accepted ev (queued q)))" if "accepted ev (queued q) \<noteq> []"
      proof -
        have "fst (hd (accepted ev (queued q))) \<in> fst ` set q" using that by (intro accepted_elems [where ev = ev] hd_in_set)
        then have "fst (hd (accepted ev (queued q))) \<noteq> e" using Cons.prems(2) by (auto simp: c)
        moreover have "fst (fst (last ys)) = e" using ys y(1) by simp
        ultimately show ?thesis using y(2) by (auto simp: cuts_def split: prod.splits)
      qed
      ultimately show ?thesis using acc base y(1) z
        by (intro exI [of _ ys] exI [of _ "accepted ev (queued q)"]) simp
    next
      case go: False
      have "\<forall>c \<in> set (queued q). enter_types (h_origType (snd c)) = None" "distinct (map fst q)"
        using Cons.prems(1,2) by (auto simp: c)
      from Cons.IH [OF this go False rest] obtain ys' zs' where
        I: "accepted ev1 (queued q) = map fst ys' @ zs'" "world s' = world s1 @ concat (map trace ys')"
          "sorted_wrt may_follow ys'" "list_all stopping ys'" "zs' \<noteq> [] \<longrightarrow> ys' \<noteq> [] \<and> cuts (last ys') (hd zs')" by blast
      have "accepted ev1 (queued q) = accepted ev (queued q)" by (simp add: accepted_def ns_accepts_kept [OF k])
      moreover have "\<forall>(_, p, i) \<in> set ys. \<not> p \<and> \<not> i" using R False go by (auto simp: handlers_run_def)
      then have "sorted_wrt may_follow (ys @ ys')"
        using base(1) I(3) by (fastforce simp: sorted_wrt_append may_follow_def)
      ultimately show ?thesis using acc base(2,3) I z
        by (intro exI [of _ "ys @ ys'"] exI [of _ zs']) (auto simp: last_append)
    qed
  qed
qed

text \<open>An element stands in the queue once.\<close>

lemma delegates_elems:
  "(e, l) \<in> set (delegates b this ty dels cur) \<Longrightarrow> e \<noteq> this \<and> (\<exists>n. e = Elem n \<and> length (path n) \<le> length (path cur))"
proof (induction b this ty dels cur rule: delegates.induct)
  case (1 b this ty dels cur)
  show ?case
  proof (cases "Elem cur = this")
    case True
    with "1.prems" show ?thesis by (simp add: delegates.simps [of b this ty dels cur])
  next
    case False
    with "1.prems" consider "e = Elem cur" | p where "parentNode cur = Some p" "(e, l) \<in> set (delegates b this ty dels p)"
      by (cases "parentNode cur") (auto simp: delegates.simps [of b this ty dels cur] Let_def split: if_splits)
    then show ?thesis
    proof cases
      case (2 p)
      from "1.IH" [OF False refl 2] show ?thesis using 2(1) by (auto simp: parentNode_Some)
    qed (use False in auto)
  qed
qed

lemma delegates_distinct: "distinct (map fst (delegates b this ty dels cur))"
proof (induction b this ty dels cur rule: delegates.induct)
  case (1 b this ty dels cur)
  show ?case
  proof (cases "Elem cur = this")
    case True
    then show ?thesis by (simp add: delegates.simps [of b this ty dels cur])
  next
    case False
    show ?thesis
    proof (cases "parentNode cur")
      case (Some p)
      then have "length (path p) < length (path cur)" by (auto simp: parentNode_Some)
      then have "Elem cur \<notin> fst ` set (delegates b this ty dels p)" by (auto dest: delegates_elems)
      with "1.IH" [OF False refl Some] False Some show ?thesis
        by (simp add: delegates.simps [of b this ty dels cur] Let_def)
    qed (use False in \<open>simp add: delegates.simps [of b this ty dels cur] Let_def\<close>)
  qed
qed

lemma handlers_distinct: "distinct (map fst (handlers b this ev hl))"
proof -
  have "this \<notin> fst ` set (delegates b this ty dels cur)" for ty dels cur by (auto dest: delegates_elems)
  then show ?thesis by (auto simp: handlers_def Let_def delegates_distinct split: option.split target.split)
qed

text \<open>
  C28: Whatever the functions do to the registry while an event is dispatched, the handlers that were
  bound when it began and whose name spaces the event asks for are called, in their order and each
  once, up to the point where one stops the event: a handler that is bound meanwhile is not called,
  one that is unbound meanwhile still is. After a call that stopped the event at once nothing is
  called; after one that stopped it (or returned \<open>false\<close>, as a handler \<open>false\<close> does) only
  handlers of the same element are; and when handlers are left out (\<open>zs\<close>), the last call made had
  stopped the event at once, or had stopped it and the first one left out is of another element.
  Conditions: the event is not stopped yet, functions do not change its name spaces or take a stop
  back, and no handler bound for the type is one of \<open>mouseenter\<close> or its like, which may
  decide not to call.
\<close>

theorem dispatch_calls_bound:
  fixes b :: "('v, call_entry list) page"
  assumes "observed b" "dispatch b this args (ev, s) = (ev', s')"
    and "\<not> isPropagationStopped ev" "\<not> isImmediatePropagationStopped ev"
    and "\<forall>h \<in> set (bound (reg s) this (e_type ev)). enter_types (h_origType h) = None"
  shows "\<exists>ys zs.
    accepted ev (queued (handlers b this (ev\<lparr>e_delegateTarget := Some this\<rparr>)
      (or_else (handlers_at (reg s) this (e_type ev)) \<lparr>hs = [], delegateCount = 0\<rparr>))) = map fst ys @ zs \<and>
    world s' = world s @ concat (map trace ys) \<and>
    sorted_wrt may_follow ys \<and> list_all stopping ys \<and> (zs \<noteq> [] \<longrightarrow> ys \<noteq> [] \<and> cuts (last ys) (hd zs))"
proof -
  let ?hl = "or_else (handlers_at (reg s) this (e_type ev)) \<lparr>hs = [], delegateCount = 0\<rparr>"
  let ?ev1 = "ev\<lparr>e_delegateTarget := Some this\<rparr>"
  obtain ev2 s2 where q: "run_queue b args (handlers b this ?ev1 ?hl) (?ev1, s) = (ev2, s2)" by fastforce
  have r: "s' = s2" using assms(2) q by (simp add: dispatch_def Let_def)
  have hl: "hs ?hl = bound (reg s) this (e_type ev)"
    by (simp add: or_else_def bound_def split: option.split)
  have "snd c \<in> set (hs ?hl)" if "c \<in> set (queued (handlers b this ?ev1 ?hl))" for c
    using that by (rule handlers_members)
  with assms(5) have "\<forall>c \<in> set (queued (handlers b this ?ev1 ?hl)). enter_types (h_origType (snd c)) = None"
    by (simp add: hl)
  note run_queue_observed [OF assms(1) this handlers_distinct _ _ q]
  moreover have "accepted ?ev1 = accepted ev" by (simp add: accepted_def ns_accepts_def fun_eq_iff)
  ultimately show ?thesis using assms(3,4) by (simp add: r)
qed

section \<open>Handlers that are called once\<close>

lemma binding_name:
  assumes "name_ok ty" "ns_ok ns"
  defines "w \<equiv> (if ns \<noteq> '''' then ty @ ''.'' @ ns else ty)"
  shows "split_types w = [w]" "ev_type w = ty" "ev_ns w = (if ns = '''' then None else Some ns)" "rtypenamespace w \<noteq> None"
    "ns \<noteq> '''' \<Longrightarrow> namespaces w = split_str ''.'' ns"
proof -
  have ty: "ty \<noteq> ''''" "\<forall>c \<in> set ty. \<not> is_space c" "rtypenamespace ty = Some (ty, None)"
  proof -
    show "ty \<noteq> ''''" "\<forall>c \<in> set ty. \<not> is_space c" using assms(1) by (simp_all add: name_ok_def)
    have "dropWhile (\<lambda>c. c \<noteq> CHR ''.'') ty = []" using assms(1) by (auto simp: name_ok_def)
    then show "rtypenamespace ty = Some (ty, None)" by (simp add: rtypenamespace_def del: dropWhile_eq_Nil_conv)
  qed
  have all: "split_types w = [w] \<and> ev_type w = ty \<and> ev_ns w = (if ns = '''' then None else Some ns) \<and> rtypenamespace w \<noteq> None"
  proof (cases ns)
    case Nil
    then show ?thesis using ty split_types_word [OF ty(1,2)] by (simp add: w_def ev_type_def ev_ns_def)
  next
    case (Cons c cs)
    let ?v = "''.'' @ ns"
    have v: "ev_type ?v = ''''" "rtypenamespace ?v \<noteq> None" "ev_ns ?v = Some ns"
      by (simp_all add: ev_type_def ev_ns_def rtypenamespace_def Cons)
    have w: "w = ty @ ?v" using Cons by (simp add: w_def)
    from typeless_parts [OF assms(1) v(1,2)] v(3) have p: "ev_type w = ty" "ev_ns w = Some ns" by (simp_all add: w)
    have "\<forall>c \<in> set w. \<not> is_space c" using ty(2) assms(2) by (auto simp: w ns_ok_def is_space_def)
    then have "split_types w = [w]" using ty(1) by (intro split_types_word) (simp_all add: w)
    moreover have "rtypenamespace w \<noteq> None" using p(2) by (cases "rtypenamespace w") (simp_all add: ev_ns_def)
    ultimately show ?thesis using p Cons by simp
  qed
  then show "split_types w = [w]" "ev_type w = ty" "ev_ns w = (if ns = '''' then None else Some ns)" "rtypenamespace w \<noteq> None" by simp_all
  assume "ns \<noteq> ''''"
  with all assms(2) show "namespaces w = split_str ''.'' ns" by (simp add: namespaces_def ns_ok_def sort_key_id_if_sorted sorted_sort_id)
qed

text \<open>The name an event's handler goes by, and what \<open>off\<close> with the event takes away.\<close>

definition own_name :: "'v hobj \<Rightarrow> string" where
  "own_name h = (if h_namespace h \<noteq> '''' then h_origType h @ ''.'' @ h_namespace h else h_origType h)"

lemma off_event_own:
  "off_event n tab e h s = event_remove n tab e (own_name h) (Some (h_handler h)) (h_selector h) False s"
proof -
  have sel: "as_selector (case h_selector h of Some sel \<Rightarrow> Str sel | None \<Rightarrow> Undef) = h_selector h"
    "as_function (case h_selector h of Some sel \<Rightarrow> Str sel | None \<Rightarrow> Undef) = None"
    "as_function (Func (h_handler h)) = Some (h_handler h)"
    by (simp_all add: as_selector_def as_function_def split: option.split)
  show ?thesis
    unfolding off_event_def own_name_def [symmetric] off_def Let_def sel by (simp add: sel split: run.split)
qed

lemma own_name_hits:
  assumes h: "hobj_ok tab ty h" and num: "gs (h_handler h) = Some (h_guid h)"
  shows "hits tab gs False (Some (h_handler h)) (h_selector h) (own_name h) ty' h' \<longleftrightarrow>
      ty' = ty \<and> h_origType h' = h_origType h \<and> h_guid h' = h_guid h \<and>
      (h_namespace h = '''' \<or> subseq (split_str ''.'' (h_namespace h)) (split_str ''.'' (h_namespace h'))) \<and>
      (delegated h \<longrightarrow> h_selector h' = h_selector h \<or> h_selector h = Some ''**'' \<and> delegated h')"
proof -
  from h have ho: "name_ok (h_origType h)" "ns_ok (h_namespace h)" "mapped_type tab (h_selector h) (h_origType h) = ty"
    by (simp_all add: hobj_ok_def)
  note nm = binding_name [OF ho(1,2), folded own_name_def]
  have "(ev_ns (own_name h) = None \<or> ns_test (namespaces (own_name h)) (h_namespace h')) \<longleftrightarrow>
      (h_namespace h = '''' \<or> subseq (split_str ''.'' (h_namespace h)) (split_str ''.'' (h_namespace h')))"
    using nm(3) nm(5) by (cases "h_namespace h = ''''") (simp_all add: ns_test_def)
  moreover have "ev_type (own_name h) \<noteq> ''''" using nm(2) ho(1) by (simp add: name_ok_def)
  moreover have "gs (h_handler h) = Some (h_guid h') \<longleftrightarrow> h_guid h' = h_guid h" using num by auto
  moreover have "ev_type (own_name h) = h_origType h' \<longleftrightarrow> h_origType h' = h_origType h" using nm(2) by auto
  moreover have "mapped_type tab (h_selector h) (ev_type (own_name h)) = ty' \<longleftrightarrow> ty' = ty" using nm(2) ho(3) by auto
  moreover have "(h_selector h = h_selector h') \<longleftrightarrow> (h_selector h' = h_selector h)" by auto
  ultimately show ?thesis unfolding hits_def delegated_def by simp
qed

lemma off_own_binding:
  fixes s :: "'v arg evs"
  assumes ok: "evs_ok (core_specials d) s" and h: "h \<in> set (bound s e ty)" and n: "2 \<le> n"
  shows "\<exists>s'. off_event n (core_specials d) e h s = Returns s' \<and> h \<notin> set (bound s' e ty) \<and>
    (\<forall>e' ty'. bound s' e' ty' =
      (if e' = e \<and> ty' = ty
       then filter (\<lambda>h'. \<not> (h_origType h' = h_origType h \<and> h_guid h' = h_guid h \<and>
              (h_namespace h = '''' \<or> subseq (split_str ''.'' (h_namespace h)) (split_str ''.'' (h_namespace h'))) \<and>
              (delegated h \<longrightarrow> h_selector h' = h_selector h \<or> h_selector h = Some ''**'' \<and> delegated h'))) (bound s e ty)
       else bound s e' ty'))"
proof -
  let ?tab = "core_specials d :: 'v arg specials"
  let ?hit = "hits ?tab (fguid s) False (Some (h_handler h)) (h_selector h) (own_name h)"
  obtain k where k: "n = Suc (Suc k)" using two_levels [OF n] by (rule exE)
  have t: "target_ok ?tab s e" using ok by (simp add: evs_ok_def)
  have ho: "hobj_ok ?tab ty h" by (rule bound_hobj_ok [OF t h])
  then have nm: "split_types (own_name h) = [own_name h]" "rtypenamespace (own_name h) \<noteq> None"
    using binding_name [of "h_origType h" "h_namespace h"] by (simp_all add: hobj_ok_def own_name_def)
  have num: "fguid s (h_handler h) = Some (h_guid h)" using ok h by (auto simp: evs_ok_def numbered_def)
  note hit = own_name_hits [where tab = ?tab and gs = "fguid s", OF ho num]
  have "\<forall>w \<in> set (split_types (own_name h)). rtypenamespace w \<noteq> None" using nm by simp
  from core.event_remove_ok [OF t this, of k "Some (h_handler h)" "h_selector h" False] obtain s' where
    s': "event_remove n ?tab e (own_name h) (Some (h_handler h)) (h_selector h) False s = Returns s'"
    "pruned e (\<lambda>ty' h'. \<exists>w \<in> set (split_types (own_name h)). hits ?tab (fguid s) False (Some (h_handler h)) (h_selector h) w ty' h') s s'"
    unfolding k by (elim exE conjE)
  have b: "bound s' e ty' = filter (\<lambda>h'. \<not> ?hit ty' h') (bound s e ty')" for ty'
    using s'(2) nm(1) by (simp add: pruned_def)
  have same: "filter (\<lambda>h'. \<not> ?hit ty' h') l = l" if "ty' \<noteq> ty" for ty' l
    using that by (simp add: hit)
  have "bound s' e' ty' =
      (if e' = e \<and> ty' = ty
       then filter (\<lambda>h'. \<not> (h_origType h' = h_origType h \<and> h_guid h' = h_guid h \<and>
              (h_namespace h = '''' \<or> subseq (split_str ''.'' (h_namespace h)) (split_str ''.'' (h_namespace h'))) \<and>
              (delegated h \<longrightarrow> h_selector h' = h_selector h \<or> h_selector h = Some ''**'' \<and> delegated h'))) (bound s e ty)
       else bound s e' ty')" for e' ty'
    using pruned_other [OF s'(2), of e' ty'] b [of ty'] same [of ty'] by (cases "e' = e"; cases "ty' = ty") (simp_all add: hit)
  moreover from this have "h \<notin> set (bound s' e ty)" by simp
  ultimately show ?thesis using s'(1) by (intro exI [of _ s'] conjI allI) (simp_all add: off_event_own)
qed

text \<open>
  C29: Calling the wrapper that \<open>one\<close> made, for a binding \<open>h\<close> of it on the target \<open>e\<close> of a
  dispatch (with the event that \<open>dispatch\<close> passes: \<open>e\<close> in \<open>delegateTarget\<close>, \<open>h\<close> in
  \<open>handleObj\<close>), is calling the wrapped function, on the same object with the same event and
  arguments, but with a registry from which the binding is gone already: the call of \<open>off\<close> with the
  event has returned, and of the target's handlers for the type it has removed exactly those that have
  the same number, were bound under the same name, with all the binding's name spaces, for the same
  selector if it has one (any for \<open>**\<close>). This takes the binding that is being called, and with it every binding of the
  function itself or a proxy of it that \<open>on\<close> made under the name. The registry is well typed (C22)
  when the wrapper is called, and its special events are those of the core.
\<close>

theorem once_unbinds:
  fixes b :: "('v, 'w) page"
  assumes tab: "table b = core_specials d" and ok: "evs_ok (table b) (reg s)"
    and h: "h \<in> set (bound (reg s) e ty)" "h_handler h = Wrap f"
    and ev: "e_delegateTarget ev = Some e" "e_handleObj ev = Some h"
  shows "\<exists>r. call_fn b (Wrap f) this ev args s = call_fn b f this ev args (s\<lparr>reg := r\<rparr>) \<and> h \<notin> set (bound r e ty) \<and>
    (\<forall>e' ty'. bound r e' ty' =
      (if e' = e \<and> ty' = ty
       then filter (\<lambda>h'. \<not> (h_origType h' = h_origType h \<and> h_guid h' = h_guid h \<and>
              (h_namespace h = '''' \<or> subseq (split_str ''.'' (h_namespace h)) (split_str ''.'' (h_namespace h'))) \<and>
              (delegated h \<longrightarrow> h_selector h' = h_selector h \<or> h_selector h = Some ''**'' \<and> delegated h'))) (bound (reg s) e ty)
       else bound (reg s) e' ty')) \<and>
    off_event 2 (table b) e h (reg s) = Returns r"
proof -
  have "evs_ok (core_specials d) (reg s)" using ok by (simp add: tab)
  from off_own_binding [OF this h(1) order_refl] obtain r where
    r: "off_event 2 (table b) e h (reg s) = Returns r" and gone: "h \<notin> set (bound r e ty)"
      "\<forall>e' ty'. bound r e' ty' =
        (if e' = e \<and> ty' = ty
         then filter (\<lambda>h'. \<not> (h_origType h' = h_origType h \<and> h_guid h' = h_guid h \<and>
              (h_namespace h = '''' \<or> subseq (split_str ''.'' (h_namespace h)) (split_str ''.'' (h_namespace h'))) \<and>
              (delegated h \<longrightarrow> h_selector h' = h_selector h \<or> h_selector h = Some ''**'' \<and> delegated h'))) (bound (reg s) e ty)
         else bound (reg s) e' ty')"
    unfolding tab by (elim exE conjE)
  have "call_fn b (Wrap f) this ev args s = call_fn b f this ev args (s\<lparr>reg := r\<rparr>)" by (simp add: ev r)
  with r gone show ?thesis by (intro exI conjI)
qed

section \<open>The path of a triggered event\<close>

lemma ancestors_take:
  "ancestors n = map (\<lambda>k. Node (tree n) (take k (path n))) (rev [0..<Suc (length (path n))])"
proof (induction n rule: ancestors.induct)
  case (1 n)
  show ?case
  proof (cases "path n" rule: rev_cases)
    case Nil
    then obtain t where "n = Node t []" by (cases n) simp
    then show ?thesis by (simp add: ancestors.simps [of "Node t []"] parentNode_def)
  next
    case (snoc p i)
    then have par: "parentNode n = Some (Node (tree n) p)" by (simp add: parentNode_def)
    have "map (\<lambda>k. Node (tree n) (take k p)) (rev [0..<Suc (length p)]) =
        map (\<lambda>k. Node (tree n) (take k (p @ [i]))) (rev [0..<Suc (length p)])"
      by (rule map_cong) auto
    then have m: "ancestors (Node (tree n) p) = map (\<lambda>k. Node (tree n) (take k (path n))) (rev [0..<Suc (length p)])"
      using "1.IH" [OF par] snoc by (simp del: upt_Suc take_append)
    have "ancestors n = n # ancestors (Node (tree n) p)" by (subst ancestors.simps) (simp add: par)
    moreover have "Node (tree n) (take (Suc (length p)) (path n)) = n" using snoc by (cases n) simp
    ultimately show ?thesis using m snoc by (simp del: take_append)
  qed
qed

lemma no_double_morph: "\<not> rfocusMorph (ty @ ty)"
proof -
  have half: "take (length zs div 2) zs = drop (length zs div 2) zs" if "ty @ ty = zs" for zs :: string
    using that by auto
  show ?thesis using half [of "''focusinfocus''"] half [of "''focusoutblur''"] by (auto simp: rfocusMorph_def)
qed

text \<open>
  The path of a triggered event, in a browser of any kind: the element, then its ancestors from
  the nearest to the root, each once, and the window exactly when the root is the element's
  document.  For \<open>focus\<close> and \<open>blur\<close> the element comes twice, once for the type and once for the
  bubbling type; for \<open>load\<close>, and when only the element's own handlers are asked for, it is all.
\<close>

theorem event_path_of_element:
  assumes "table b = core_specials (penv b)"
  shows "eventPath b onlyHandlers ty (Elem n) = Elem n #
    (if onlyHandlers \<or> ty = ''load'' then []
     else (if ty = ''focus'' \<or> ty = ''blur'' then [Elem n] else []) @
       map (\<lambda>k. Elem (Node (tree n) (take k (path n)))) (rev [0..<length (path n)]) @
       (if Node (tree n) [] = owner_document b n then [Window] else []))"
proof -
  let ?sp = "special_of (core_specials (penv b)) ty :: 'a arg special"
  have anc: "ancestors n = n # map (\<lambda>k. Node (tree n) (take k (path n))) (rev [0..<length (path n)])"
    by (cases n) (simp add: ancestors_take)
  have root: "last (ancestors n) = Node (tree n) []"
    by (simp add: ancestors_take last_map last_rev del: upt_Suc)

  have load: "noBubble ?sp \<longleftrightarrow> ty = ''load''"
    by (rule core_special_cases [where 'v = "'a arg" and d = "penv b" and ty = ty])
      (auto simp: no_special_def enter_special_def focus_special_def)
  have morph: "rfocusMorph (or_else (delegateType ?sp) ty @ ty) \<longleftrightarrow> ty = ''focus'' \<or> ty = ''blur''"
  proof (rule core_special_cases [where 'v = "'a arg" and d = "penv b" and ty = ty])
    assume "?sp = no_special\<lparr>noBubble := (ty = ''load'')\<rparr>" "ty \<notin> {''focus'', ''blur'', ''mouseenter'', ''mouseleave'', ''pointerenter'', ''pointerleave''}"
    then show ?thesis using no_double_morph [of ty] by (simp add: or_else_def)
  next
    fix og assume "?sp = focus_special (penv b) og ty" "(ty, og) \<in> {(''focusin'', ''focus''), (''focusout'', ''blur'')}"
    then show ?thesis using no_double_morph [of ty] by (auto simp: or_else_def focus_special_def)
  next
    fix fx assume sp: "?sp = enter_special fx"
      and "(ty, fx) \<in> {(''mouseenter'', ''mouseover''), (''mouseleave'', ''mouseout''), (''pointerenter'', ''pointerover''), (''pointerleave'', ''pointerout'')}"
    from this(2) have "\<not> rfocusMorph (fx @ ty)" "ty \<noteq> ''focus''" "ty \<noteq> ''blur''" by (auto simp: rfocusMorph_def)
    then show ?thesis unfolding sp by (simp add: or_else_def enter_special_def)
  qed (simp_all add: or_else_def rfocusMorph_def)
  define U where "U = map (\<lambda>k. Node (tree n) (take k (path n))) (rev [0..<length (path n)])"
  have U: "ancestors n = n # U" by (simp add: anc U_def)
  have lastU: "(if U = [] then n else last U) = Node (tree n) []"
    using root by (simp add: U split: if_splits)
  have E: "map (\<lambda>k. Elem (Node (tree n) (take k (path n)))) (rev [0..<length (path n)]) = map Elem U"
    by (simp add: U_def)
  show ?thesis
    unfolding eventPath_def Let_def assms load morph U E list.sel
    using lastU by (cases "U = []"; cases "onlyHandlers \<or> ty = ''load''"; cases "ty = ''focus'' \<or> ty = ''blur''") (simp_all add: U)
qed

section \<open>A triggered event reaches what is bound\<close>

text \<open>
  A page whose functions are observed and let events pass: they leave the registry, the inline
  functions and the course of the event alone and do not return \<open>false\<close>.
\<close>

definition same_course :: "'v event \<Rightarrow> 'v event \<Rightarrow> bool" where
  "same_course ev ev' \<longleftrightarrow> e_type ev' = e_type ev \<and> e_target ev' = e_target ev \<and> e_namespace ev' = e_namespace ev \<and>
     e_button ev' = e_button ev \<and> isPropagationStopped ev' = isPropagationStopped ev \<and>
     isImmediatePropagationStopped ev' = isImmediatePropagationStopped ev"

definition same_state :: "('v, 'w) dst \<Rightarrow> ('v, 'w) dst \<Rightarrow> bool" where
  "same_state s s' \<longleftrightarrow> reg s' = reg s \<and> inline s' = inline s \<and> triggered s' = triggered s"

definition calm :: "('v, (nat \<times> target) list) page \<Rightarrow> bool" where
  "calm b \<longleftrightarrow> (\<forall>k this ev args s ret ev' s'. runs b k this ev args s = (ret, ev', s') \<longrightarrow>
     world s' = world s @ [(k, this)] \<and> same_course ev ev' \<and> same_state s s' \<and> ret \<noteq> FalseArg)"

definition call_log :: "target \<times> 'v arg hobj \<Rightarrow> (nat \<times> target) list" where
  "call_log c = (case innermost (h_handler (snd c)) of Fn k \<Rightarrow> [(k, fst c)] | _ \<Rightarrow> [])"

lemma call_log_pair: "call_log (t, h) = (case innermost (h_handler h) of Fn k \<Rightarrow> [(k, t)] | _ \<Rightarrow> [])"
  by (simp add: call_log_def split: fn.split)

text \<open>Handlers that are functions of the page, bound under ordinary types.\<close>

definition plain_handler :: "'v arg hobj \<Rightarrow> bool" where
  "plain_handler h \<longleftrightarrow> (\<exists>k. h_handler h = Fn k) \<and> enter_types (h_origType h) = None"

lemma same_course_refl [simp]: "same_course ev ev" and same_state_refl [simp]: "same_state s s"
  by (simp_all add: same_course_def same_state_def)

lemma same_course_trans: "same_course a b \<Longrightarrow> same_course b c \<Longrightarrow> same_course a c"
  and same_state_trans: "same_state s t \<Longrightarrow> same_state t u \<Longrightarrow> same_state s u"
  by (simp_all add: same_course_def same_state_def)

lemma same_course_updates:
  "same_course ev (ev\<lparr>e_handleObj := x, e_data := y\<rparr>)" "same_course ev (ev\<lparr>e_currentTarget := z\<rparr>)"
  "same_course ev (ev\<lparr>e_delegateTarget := z\<rparr>)"
  by (simp_all add: same_course_def)

lemma same_course_result: "ret \<noteq> FalseArg \<Longrightarrow> same_course ev (take_result ret ev)"
  by (simp add: same_course_def take_result_def Let_def)

lemma ns_accepts_course: "same_course ev ev' \<Longrightarrow> ns_accepts ev' = ns_accepts ev"
  by (simp add: same_course_def ns_accepts_def fun_eq_iff)

lemma run_handlers_calm:
  assumes "calm b" "\<forall>h \<in> set l. plain_handler h" "\<not> isImmediatePropagationStopped ev"
    and "run_handlers b this args l (ev, s) = (ev', s')"
  shows "world s' = world s @ concat (map (\<lambda>h. call_log (this, h)) (filter (ns_accepts ev) l)) \<and> same_course ev ev' \<and> same_state s s'"
  using assms(2-4)
proof (induction l arbitrary: ev s)
  case (Cons h l)
  show ?case
  proof (cases "ns_accepts ev h")
    case False
    with Cons.prems have "run_handlers b this args l (ev, s) = (ev', s')" by simp
    from Cons.IH [OF _ _ this] Cons.prems False show ?thesis by simp
  next
    case True
    let ?ev1 = "ev\<lparr>e_handleObj := Some h, e_data := h_data h\<rparr>"
    obtain ret ev2 s2 where call: "call_handler b h this ?ev1 args s = (ret, ev2, s2)" by (metis prod_cases3)
    obtain k where k: "h_handler h = Fn k" "enter_types (h_origType h) = None"
      using Cons.prems(1) by (auto simp: plain_handler_def)
    with call have "runs b k this ?ev1 args s = (ret, ev2, s2)" by (simp add: call_handler_def)
    with assms(1) have r: "world s2 = world s @ [(k, this)]" "same_course ?ev1 ev2" "same_state s s2" "ret \<noteq> FalseArg"
      unfolding calm_def by blast+
    have c: "same_course ev (take_result ret ev2)"
      using same_course_trans [OF same_course_trans [OF same_course_updates(1) r(2)] same_course_result [OF r(4)]] .
    have "run_handlers b this args l (take_result ret ev2, s2) = (ev', s')"
      using Cons.prems(2,3) True call by simp
    moreover have "\<not> isImmediatePropagationStopped (take_result ret ev2)" using c Cons.prems(2) by (simp add: same_course_def)
    ultimately have "world s' = world s2 @ concat (map (\<lambda>h. call_log (this, h)) (filter (ns_accepts (take_result ret ev2)) l)) \<and>
        same_course (take_result ret ev2) ev' \<and> same_state s2 s'"
      using Cons.IH Cons.prems(1) by simp
    then show ?thesis
      using r(1,3) k True c same_course_trans same_state_trans
      by (simp add: ns_accepts_course [OF c] call_log_pair) blast
  qed
qed simp

lemma run_queue_calm:
  assumes "calm b" "\<forall>c \<in> set (queued q). plain_handler (snd c)"
    and "\<not> isPropagationStopped ev" "\<not> isImmediatePropagationStopped ev"
    and "run_queue b args q (ev, s) = (ev', s')"
  shows "world s' = world s @ concat (map call_log (accepted ev (queued q))) \<and> same_course ev ev' \<and> same_state s s'"
  using assms(2-5)
proof (induction q arbitrary: ev s)
  case (Cons c q)
  obtain e l where c: "c = (e, l)" by fastforce
  let ?ev0 = "ev\<lparr>e_currentTarget := Some e\<rparr>"
  obtain ev1 s1 where run: "run_handlers b e args l (?ev0, s) = (ev1, s1)" by fastforce
  have "\<forall>h \<in> set l. plain_handler h"
  proof
    fix h assume "h \<in> set l"
    then have "(e, h) \<in> set (queued (c # q))" by (simp add: c)
    with Cons.prems(1) have "plain_handler (snd (e, h))" by blast
    then show "plain_handler h" by simp
  qed
  from run_handlers_calm [OF assms(1) this _ run] Cons.prems(3)
  have h: "world s1 = world s @ concat (map (\<lambda>h. call_log (e, h)) (filter (ns_accepts ?ev0) l))" "same_course ?ev0 ev1" "same_state s s1"
    by simp_all
  have k: "same_course ev ev1" by (rule same_course_trans [OF same_course_updates(2) h(2)])
  have "run_queue b args q (ev1, s1) = (ev', s')" using Cons.prems(2,4) run by (simp add: c)
  moreover have "\<not> isPropagationStopped ev1" "\<not> isImmediatePropagationStopped ev1"
    using k Cons.prems(2,3) by (simp_all add: same_course_def)
  moreover have "\<forall>c \<in> set (queued q). plain_handler (snd c)" using Cons.prems(1) by (simp add: c)
  ultimately have q: "world s' = world s1 @ concat (map call_log (accepted ev1 (queued q)))" "same_course ev1 ev'" "same_state s1 s'"
    using Cons.IH by blast+
  have "ns_accepts ?ev0 = ns_accepts ev" by (rule ns_accepts_course [OF same_course_updates(2)])
  moreover have "accepted ev1 (queued q) = accepted ev (queued q)" by (simp add: accepted_def ns_accepts_course [OF k])
  ultimately have "world s' = world s @ concat (map call_log (accepted ev (queued (c # q))))"
    using h(1) q(1) by (simp add: c accepted_def filter_map o_def)
  then show ?case using k q(2,3) h(3) by (blast intro: same_course_trans same_state_trans)
qed (simp add: accepted_def)

text \<open>The calls an event makes on one target.\<close>

definition calls_at :: "('v, 'w) page \<Rightarrow> 'v event \<Rightarrow> 'v arg evs \<Rightarrow> target \<Rightarrow> (target \<times> 'v arg hobj) list" where
  "calls_at b ev r this =
     accepted ev (queued (handlers b this ev (or_else (handlers_at r this (e_type ev)) \<lparr>hs = [], delegateCount = 0\<rparr>)))"

lemma calls_at_course: assumes "same_course ev ev'" shows "calls_at b ev' = calls_at b ev"
proof -
  have c: "e_type ev' = e_type ev" "e_target ev' = e_target ev" "e_button ev' = e_button ev"
    using assms by (simp_all add: same_course_def)
  have "accepted ev' = accepted ev" by (simp add: accepted_def ns_accepts_course [OF assms] fun_eq_iff)
  moreover have "handlers b this ev' = handlers b this ev" for this
    by (rule ext) (simp only: handlers_def c)
  ultimately show ?thesis by (intro ext) (simp only: calls_at_def c)
qed

lemma calls_at_none: "handlers_at r this (e_type ev) = None \<Longrightarrow> calls_at b ev r this = []"
  by (simp add: calls_at_def or_else_def handlers_def accepted_def split: option.split target.split)

lemma ontype_Some: "ontype ty = Some on_ty \<Longrightarrow> on_ty = ''on'' @ ty"
  by (simp add: ontype_def split: if_splits)

lemma visit_calm:
  assumes "calm b" "evs_ok tab (reg s)" "triggered s = None" "\<And>t. inline s t (''on'' @ ty) = None"
    and "\<And>h. h \<in> set (bound (reg s) cur (e_type ev)) \<Longrightarrow> plain_handler h"
    and "\<not> isPropagationStopped ev" "\<not> isImmediatePropagationStopped ev"
    and "visit b ty args cur (ev, s) = (ev', s')"
  shows "world s' = world s @ concat (map call_log (calls_at b ev (reg s) cur)) \<and> same_course ev ev' \<and> same_state s s'"
proof (cases "handlers_at (reg s) cur (e_type ev)")
  case None
  with assms(3,4,8) show ?thesis by (auto simp: visit_def Let_def calls_at_none split: option.splits dest!: ontype_Some)
next
  case (Some hl)
  have "target_ok tab (reg s) cur" using assms(2) by (simp add: evs_ok_def)
  with Some have hd: "handle (reg s) cur" by (auto simp: target_ok_def handlers_at_def split: option.splits)
  obtain ev1 s1 where d: "dispatch b cur args (ev, s) = (ev1, s1)" by fastforce
  let ?ev0 = "ev\<lparr>e_delegateTarget := Some cur\<rparr>"
  obtain ev2 s2 where q: "run_queue b args (handlers b cur ?ev0 hl) (?ev0, s) = (ev2, s2)" by fastforce
  have r: "ev1 = postDispatch (e_type ev) ev2" "s1 = s2" using d q Some by (simp_all add: dispatch_def Let_def or_else_def)
  have "\<forall>c \<in> set (queued (handlers b cur ?ev0 hl)). plain_handler (snd c)"
    using handlers_members assms(5) Some by (fastforce simp: bound_def)
  from run_queue_calm [OF assms(1) this _ _ q] assms(6,7)
  have "world s2 = world s @ concat (map call_log (accepted ?ev0 (queued (handlers b cur ?ev0 hl))))" "same_course ?ev0 ev2" "same_state s s2"
    by simp_all
  moreover have "accepted ?ev0 (queued (handlers b cur ?ev0 hl)) = calls_at b ?ev0 (reg s) cur"
    using Some by (simp add: calls_at_def or_else_def)
  then have "accepted ?ev0 (queued (handlers b cur ?ev0 hl)) = calls_at b ev (reg s) cur"
    using calls_at_course [OF same_course_updates(3)] by metis
  moreover have "same_course ev2 (postDispatch (e_type ev) ev2)" by (simp add: same_course_def postDispatch_def)
  ultimately have res: "world s1 = world s @ concat (map call_log (calls_at b ev (reg s) cur))" "same_course ev ev1" "same_state s s1"
    unfolding r by (auto intro: same_course_trans same_course_updates)
  have "inline s1 t (''on'' @ ty) = None" for t using res(3) assms(4) by (simp add: same_state_def)
  then have "(ev', s') = (ev1, s1)"
    using assms(3,8) Some hd d by (auto simp: visit_def Let_def split: option.splits dest!: ontype_Some)
  with res show ?thesis by simp
qed

lemma run_path_calm:
  assumes "calm b" "evs_ok tab (reg s)" "triggered s = None" "\<And>t. inline s t (''on'' @ ty) = None"
    and "\<And>t h. h \<in> set (bound (reg s) t ty) \<Longrightarrow> plain_handler h"
    and "special_of (table b) ty = no_special"
    and "\<not> isPropagationStopped ev" "\<not> isImmediatePropagationStopped ev"
    and "run_path b ty ty args cs (ev, s) = (ev', s')"
  shows "world s' = world s @ concat (map (\<lambda>cur. concat (map call_log (calls_at b (ev\<lparr>e_type := ty\<rparr>) (reg s) cur))) cs) \<and> same_state s s'"
  using assms(2-5,7-9)
proof (induction cs arbitrary: ev s)
  case (Cons cur cs)
  let ?ev0 = "ev\<lparr>e_type := ty\<rparr>"
  obtain ev1 s1 where v: "visit b ty args cur (?ev0, s) = (ev1, s1)" by fastforce
  have flags: "\<not> isPropagationStopped ?ev0" "\<not> isImmediatePropagationStopped ?ev0" using Cons.prems(5,6) by simp_all
  have plain: "\<And>h. h \<in> set (bound (reg s) cur (e_type ?ev0)) \<Longrightarrow> plain_handler h" using Cons.prems(4) by simp
  from visit_calm [OF assms(1) Cons.prems(1,2) Cons.prems(3) plain flags v]
  have 1: "world s1 = world s @ concat (map call_log (calls_at b ?ev0 (reg s) cur))" "same_course ?ev0 ev1" "same_state s s1"
    by simp_all
  have path: "run_path b ty ty args cs (ev1, s1) = (ev', s')"
    using Cons.prems(5,7) v assms(6) by (simp add: or_else_def)
  have keep: "evs_ok tab (reg s1)" "triggered s1 = None" "\<And>t. inline s1 t (''on'' @ ty) = None"
    "\<And>t h. h \<in> set (bound (reg s1) t ty) \<Longrightarrow> plain_handler h"
    "\<not> isPropagationStopped ev1" "\<not> isImmediatePropagationStopped ev1"
    using 1(2,3) Cons.prems(1-6) by (simp_all add: same_state_def same_course_def)
  have ev: "same_course ?ev0 (ev1\<lparr>e_type := ty\<rparr>)" using 1(2) by (simp add: same_course_def)
  from Cons.IH [OF keep path] have
    "world s' = world s1 @ concat (map (\<lambda>cur. concat (map call_log (calls_at b ?ev0 (reg s) cur))) cs)" "same_state s1 s'"
    using 1(3) by (simp_all add: calls_at_course [OF ev] same_state_def)
  with 1 show ?case by (auto intro: same_state_trans)
qed simp

lemma ordinary_type:
  assumes "special_of (core_specials d) ty = (no_special :: 'v special)"
  shows "ty \<noteq> ''focus''" "ty \<noteq> ''blur''"
proof -
  have "delegateType (special_of (core_specials d) ty :: 'v special) = None" by (simp add: assms)
  then show "ty \<noteq> ''focus''" "ty \<noteq> ''blur''" by (auto simp: special_of_def or_else_def core_specials_def)
qed

lemma trigger_calls:
  fixes b :: "('v, (nat \<times> target) list) page"
  assumes calm: "calm b" and tab: "table b = core_specials (penv b)" and ok: "evs_ok (table b) (reg s)"
    and ty: "special_of (core_specials (penv b)) ty = (no_special :: 'v arg special)" "CHR ''.'' \<notin> set ty"
    and elem: "nodeType (penv b) n = 1" "ty = ''click'' \<longrightarrow> \<not> nodeNameIs b (Elem n) ''input''"
    and quiet: "triggered s = None" "\<forall>t. inline s t (''on'' @ ty) = None" "native_method b (Elem n) ty = None"
    and plain: "\<forall>t. \<forall>h \<in> set (bound (reg s) t ty). plain_handler h"
  shows "world (snd (trigger b ty args (Elem n) False s)) = world s @
    concat (map (\<lambda>cur. concat (map call_log (calls_at b ((new_event ty)\<lparr>e_target := Some (Elem n)\<rparr>) (reg s) cur)))
      (eventPath b False ty (Elem n)))"
proof -
  have sp: "special_of (table b) ty = no_special" "ty \<noteq> ''focus''" "ty \<noteq> ''blur''"
    using ordinary_type [OF ty(1)] ty(1) by (simp_all add: tab)
  have morph: "\<not> rfocusMorph (ty @ ''undefined'')"
  proof
    assume "rfocusMorph (ty @ ''undefined'')"
    then have "last (ty @ ''undefined'') = CHR ''s'' \<or> last (ty @ ''undefined'') = CHR ''r''" by (auto simp: rfocusMorph_def)
    then show False by simp
  qed
  let ?ev = "(new_event ty :: 'v event)\<lparr>e_isTrigger := Some 3, e_namespace := [], e_result := Undef, e_target := Some (Elem n)\<rparr>"
  obtain ev2 s2 where path: "run_path b ty ty args (eventPath b False ty (Elem n)) (?ev, s) = (ev2, s2)" by fastforce
  have "world s2 = world s @ concat (map (\<lambda>cur. concat (map call_log (calls_at b (?ev\<lparr>e_type := ty\<rparr>) (reg s) cur))) (eventPath b False ty (Elem n))) \<and> same_state s s2"
    by (rule run_path_calm [OF calm ok quiet(1) _ _ sp(1) _ _ path]) (use quiet(2) plain in \<open>auto simp: new_event_def\<close>)
  moreover have "same_course ((new_event ty)\<lparr>e_target := Some (Elem n)\<rparr>) (?ev\<lparr>e_type := ty\<rparr>)"
    by (simp add: same_course_def new_event_def)
  note calls_at_course [OF this, where b = b]
  moreover have "world (snd (trigger b ty args (Elem n) False s)) = world s2"
  proof -
    have nm: "trigger_name (e_type (new_event ty)) (e_namespace (new_event ty)) = (ty, [])"
      using ty(2) by (simp add: trigger_name_def new_event_def)
    have tr: "special_trigger b ty (Elem n) s = (False, s)" using sp(2,3) elem(2) by (auto simp: special_trigger_def)
    have df: "default_action b ty (Elem n) ev s2 = s2" for ev
      using quiet(3) by (simp add: default_action_def split: option.split)
    have ne: "e_type (new_event ty :: 'v event) = ty" "e_target (new_event ty :: 'v event) = None" by (simp_all add: new_event_def)
    have start: "(new_event ty :: 'v event)\<lparr>e_isTrigger := Some 3, e_namespace := ns_pattern [], e_result := Undef, e_target := Some (Elem n)\<rparr> = ?ev"
      by (simp add: ns_pattern_def)
    have bind: "or_else (bindType (special_of (table b) ty)) ty = ty" by (simp add: sp(1) or_else_def)
    have go: "\<not> ((case Elem n of Elem n \<Rightarrow> nodeType (penv b) n = 3 \<or> nodeType (penv b) n = 8 | Window \<Rightarrow> False) \<or>
        rfocusMorph (e_type (new_event ty :: 'v event) @ or_else (triggered s) ''undefined''))"
      using elem morph quiet(1) by (simp add: ne or_else_def)
    show ?thesis
      unfolding trigger_def trigger_event_def if_not_P [OF go] nm
      by (simp add: Let_def ne tr start bind path df)
  qed
  ultimately show ?thesis by simp
qed

text \<open>
  The way of an event in the tree, read off the paths of the nodes: the node and its ancestors up to
  the root of its tree, and the window when that root is the node's document. On each target an event
  reaches the delegated handlers whose selector matches a node of the way below the target, from the
  lowest node upwards, and then the target's own handlers.
\<close>

definition nodes_up :: "node \<Rightarrow> node list" where
  "nodes_up n = map (\<lambda>k. Node (tree n) (take k (path n))) (rev [0..<Suc (length (path n))])"

definition way_up :: "('v, 'w) page \<Rightarrow> node \<Rightarrow> target list" where
  "way_up b n = map Elem (nodes_up n) @ (if Node (tree n) [] = owner_document b n then [Window] else [])"

definition reached :: "('v, 'w) page \<Rightarrow> 'v arg evs \<Rightarrow> string \<Rightarrow> node \<Rightarrow> target \<Rightarrow> (target \<times> 'v arg hobj) list" where
  "reached b r ty n cur =
     concat (map (\<lambda>m. map (Pair (Elem m))
         (if eligible b ty m then filter (\<lambda>h. delegated h \<and> sel_matches b cur m h) (bound r cur ty) else []))
       (takeWhile (\<lambda>m. Elem m \<noteq> cur) (nodes_up n))) @
     map (Pair cur) (filter (\<lambda>h. \<not> delegated h) (bound r cur ty))"

lemma calls_at_reached:
  assumes ok: "evs_ok tab r" and needs: "same_needs (bound r cur ty)"
  shows "calls_at b ((new_event ty)\<lparr>e_target := Some (Elem n)\<rparr>) r cur = reached b r ty n cur"
proof -
  define ev :: "'a event" where "ev = (new_event ty)\<lparr>e_target := Some (Elem n)\<rparr>"
  define hl where "hl = or_else (handlers_at r cur ty) \<lparr>hs = [], delegateCount = 0\<rparr>"
  have ev: "e_target ev = Some (Elem n)" "e_type ev = ty" "or_else (e_button ev) 0 = 0" "e_namespace ev = []"
    by (simp_all add: ev_def new_event_def or_else_def)
  have t: "target_ok tab r cur" using ok by (simp add: evs_ok_def)
  have hl: "hs hl = bound r cur ty" by (simp add: hl_def or_else_def bound_def split: option.split)
  have arr: "hs hl = arrange (hs hl)" "delegateCount hl = int (length (filter delegated (hs hl)))"
    using bound_hlist_ok(1) [OF t, of ty]
    by (cases "handlers_at r cur ty"; simp add: hl_def or_else_def hlist_ok_def arrange_def)+
  have up: "ancestors n = nodes_up n" by (simp add: ancestors_take nodes_up_def)
  have "same_needs (hs hl)" using needs by (simp add: hl)
  from handlers_listed [OF arr this, of b cur ev] have "queued (handlers b cur ev hl) = reached b r ty n cur"
    unfolding ev hl reached_def by (simp add: up)
  moreover have "accepted ev = (\<lambda>q. q)" by (simp add: accepted_def ns_accepts_def ev fun_eq_iff)
  ultimately have "calls_at b ev r cur = reached b r ty n cur" by (simp add: calls_at_def ev(2) hl_def)
  then show ?thesis by (simp add: ev_def)
qed

lemma event_path_way_up:
  assumes "table b = core_specials (penv b)" "special_of (core_specials (penv b)) ty = (no_special :: 'v arg special)"
  shows "eventPath (b :: ('v, 'w) page) False ty (Elem n) = way_up b n"
proof -
  have "noBubble (special_of (core_specials (penv b)) ''load'' :: 'v arg special)"
    by (simp add: special_of_def core_specials_def or_else_def no_special_def)
  then have "ty \<noteq> ''load''" using assms(2) by (auto simp: no_special_def)
  moreover have "Node (tree n) (path n) = n" by (cases n) simp
  ultimately show ?thesis
    using ordinary_type [OF assms(2)] by (simp add: event_path_of_element [OF assms(1)] way_up_def nodes_up_def)
qed

text \<open>
  C30: A triggered event of an ordinary type gets everywhere: on the element, its ancestors from the
  nearest to the root, and the window when the root is the element's document, one after the other,
  it calls first the delegated handlers whose selector matches the element or an ancestor below the
  target, lowest first, then the target's own, in the order of binding, each once, and nothing else.
  Conditions: the type has no special event and no dot; the registry is well typed (C22); functions
  leave the registry, inline functions and the event's course alone and do not return \<open>false\<close>;
  the type's handlers are functions of the page (no wrapper of \<open>one\<close>, no \<open>false\<close>, none of
  \<open>mouseenter\<close> or its like); there is no inline function for the type, no native method of its name
  on the element, and none being triggered; a click is not on an input; equal selectors agree on
  needing a context.
\<close>

theorem trigger_reaches_bound:
  fixes b :: "('v, (nat \<times> target) list) page"
  assumes calm: "calm b" and tab: "table b = core_specials (penv b)" and ok: "evs_ok (table b) (reg s)"
    and ty: "special_of (core_specials (penv b)) ty = (no_special :: 'v arg special)" "CHR ''.'' \<notin> set ty"
    and elem: "nodeType (penv b) n = 1" "ty = ''click'' \<longrightarrow> \<not> nodeNameIs b (Elem n) ''input''"
    and quiet: "triggered s = None" "\<forall>t. inline s t (''on'' @ ty) = None" "native_method b (Elem n) ty = None"
    and plain: "\<forall>t. \<forall>h \<in> set (bound (reg s) t ty). plain_handler h"
    and needs: "\<forall>t. same_needs (bound (reg s) t ty)"
  shows "world (snd (trigger b ty args (Elem n) False s)) = world s @
    concat (map (\<lambda>cur. concat (map call_log (reached b (reg s) ty n cur))) (way_up b n))"
proof -
  have "calls_at b ((new_event ty)\<lparr>e_target := Some (Elem n)\<rparr>) (reg s) = reached b (reg s) ty n"
    using needs by (intro ext calls_at_reached [OF ok]) simp
  with trigger_calls [OF assms(1-11)] event_path_way_up [OF tab ty(1)] show ?thesis by simp
qed

text \<open>A page with two handlers for a click on its element, a delegated one and its own.\<close>

definition body :: target where
  "body = Elem (Node 0 [0])"

definition click_evs :: "nat arg evs" where
  "click_evs = event_add small_env (core_specials small_env) body ''click'' (Direct (Fn 1)) None (Some ''a'')
     (event_add small_env (core_specials small_env) body ''click'' (Direct (Fn 0)) None None no_events)"

definition demo_page :: "(nat, (nat \<times> target) list) page" where
  "demo_page = \<lparr>penv = small_env, finds = \<lambda>_ _ _. True, within = \<lambda>_ _ _. False, disabled = \<lambda>_. False, nodeName = \<lambda>_. ''DIV'',
     inputType = \<lambda>_. '''', native_method = \<lambda>_ _. None, activeElement = \<lambda>_. None,
     runs = \<lambda>k this ev args s. (Undef, ev, s\<lparr>world := world s @ [(k, this)]\<rparr>),
     table = core_specials small_env\<rparr>"

definition demo_state :: "(nat, (nat \<times> target) list) dst" where
  "demo_state = \<lparr>reg = click_evs, triggered = None, inline = \<lambda>_ _. None, world = []\<rparr>"

lemma add_one_bound:
  assumes "evs_ok (core_specials d) s" "h \<in> set (bound (event_add d (core_specials d) e types (Direct (Fn k)) data sel s) e' ty)"
  shows "h \<in> set (bound s e' ty) \<or>
    (\<exists>w \<in> set (split_types types). ev_type w \<noteq> '''' \<and> h = new_hobj d (core_specials d) (ensure_guid (Fn k) s) (Fn k) data sel w)"
proof -
  have "known s (Fn k)" by (simp add: known_def)
  note add = quiet_specials.event_add_ok(2) [where d = d and e = e and types = types and data = data and sel = sel,
      OF core.quiet_specials_axioms assms(1) this]
  from assms(2) show ?thesis unfolding add by (auto split: if_splits dest!: foldl_added_set)
qed

lemma click_evs_ok: "evs_ok (core_specials small_env) click_evs"
  unfolding click_evs_def by (rule core.event_add_ok(1) [OF core.event_add_ok(1) [OF no_events_ok]]) (simp_all add: known_def)

lemma click_evs_plain: "h \<in> set (bound click_evs e ty) \<Longrightarrow> plain_handler h \<and> h_origType h = ''click'' \<and> \<not> h_needsContext h"
proof -
  have ok: "evs_ok (core_specials small_env)
      (event_add small_env (core_specials small_env) body ''click'' (Direct (Fn 0)) None None (no_events :: nat arg evs))"
    by (rule core.event_add_ok(1) [OF no_events_ok]) (simp add: known_def)
  have w: "split_types ''click'' = [''click'']" "ev_type ''click'' = ''click''"
    by (simp_all add: split_types_def words_def words_by_def is_space_def ev_type_def rtypenamespace_def)
  have nc: "needsContext small_env = (\<lambda>_. False)" by (simp add: small_env_def dom_env.extend_def)
  have none: "bound no_events e ty = []" for e ty by (simp add: bound_def handlers_at_def no_events_def)
  have plain: "plain_handler (new_hobj small_env tab s (Fn k) data sel ''click'') \<and>
      h_origType (new_hobj small_env tab s (Fn k) data sel ''click'') = ''click'' \<and>
      \<not> h_needsContext (new_hobj small_env tab s (Fn k) data sel ''click'')"
    for tab :: "nat arg specials" and s k data sel
    by (simp add: w plain_handler_def new_hobj_def enter_types_def nc)
  assume "h \<in> set (bound click_evs e ty)"
  from add_one_bound [OF ok this [unfolded click_evs_def]] show ?thesis
  proof
    assume "h \<in> set (bound (event_add small_env (core_specials small_env) body ''click'' (Direct (Fn 0)) None None no_events) e ty)"
    from add_one_bound [OF no_events_ok this] plain show ?thesis by (auto simp: none w)
  qed (use plain in \<open>auto simp: w\<close>)
qed

lemma event_add_bound:
  fixes s :: "'v evs"
  assumes "evs_ok (core_specials d) s" "known s f" "acceptData d e" "split_types types = [w]" "ev_type w \<noteq> ''''"
  shows "bound (event_add d (core_specials d) e types (Direct f) data sel s) e (mapped_type (core_specials d :: 'v specials) sel (ev_type w)) \<noteq> []"
proof -
  note add = quiet_specials.event_add_ok(2) [where d = d and e = e and types = types and data = data and sel = sel,
      OF core.quiet_specials_axioms assms(1,2)]
  show ?thesis unfolding add using assms(3-5) by (simp add: added_def place_def arrange_def filter_empty_conv)
qed

lemma body_accepts: "acceptData small_env body"
  by (simp add: acceptData_def body_def small_env_def dom_env.extend_def small_page_def)

lemma click_type: "mapped_type (core_specials d) None ''click'' = ''click''" "mapped_type (core_specials d) (Some x) ''click'' = ''click''"
  by (simp_all add: core_mapped core_mapping_def or_else_def)

lemma demo_calm: "calm demo_page"
  by (auto simp: calm_def demo_page_def same_state_def)

theorem trigger_reaches_bound_witness:
  "world (snd (trigger demo_page ''click'' [] body False demo_state)) =
    concat (map (\<lambda>cur. concat (map call_log (reached demo_page click_evs ''click'' (Node 0 [0]) cur)))
      [body, Elem (Node 0 []), Window])"
proof -
  have "special_of (core_specials (penv demo_page)) ''click'' = (no_special :: nat arg special)"
    by (simp add: special_of_def core_specials_def or_else_def)
  moreover have "nodeType (penv demo_page) (Node 0 [0]) = 1"
    by (simp add: demo_page_def small_env_def dom_env.extend_def small_page_def)
  moreover have "way_up demo_page (Node 0 [0]) = [body, Elem (Node 0 []), Window]"
    by (simp add: way_up_def nodes_up_def body_def demo_page_def owner_document_def small_env_def dom_env.extend_def small_page_def)
  moreover have "same_needs (bound click_evs t ''click'')" for t
    unfolding same_needs_def using click_evs_plain by blast
  ultimately show ?thesis
    using trigger_reaches_bound [OF demo_calm, of demo_state "''click''" "Node 0 [0]" "[]"] click_evs_ok click_evs_plain
    by (simp add: demo_page_def demo_state_def body_def nodeNameIs_def lower_def to_lower_def is_upper_def)
qed

text \<open>A page whose functions forget all bindings and stop the event.\<close>

definition wild_page :: "(nat, call_entry list) page" where
  "wild_page = \<lparr>penv = small_env, finds = \<lambda>_ _ _. True, within = \<lambda>_ _ _. False, disabled = \<lambda>_. False, nodeName = \<lambda>_. ''DIV'',
     inputType = \<lambda>_. '''', native_method = \<lambda>_ _. None, activeElement = \<lambda>_. None,
     runs = \<lambda>k this ev args s. (FalseArg, ev, s\<lparr>reg := no_events,
       world := world s @ [(k, this, True, isImmediatePropagationStopped ev)]\<rparr>),
     table = core_specials small_env\<rparr>"

definition wild_state :: "(nat, call_entry list) dst" where
  "wild_state = \<lparr>reg = click_evs, triggered = None, inline = \<lambda>_ _. None, world = []\<rparr>"

theorem dispatch_calls_bound_witness:
  "\<exists>ys zs.
    accepted (new_event ''click'') (queued (handlers wild_page body ((new_event ''click'')\<lparr>e_delegateTarget := Some body\<rparr>)
      (or_else (handlers_at click_evs body ''click'') \<lparr>hs = [], delegateCount = 0\<rparr>))) = map fst ys @ zs \<and>
    world (snd (dispatch wild_page body [] (new_event ''click'', wild_state))) = concat (map trace ys) \<and>
    sorted_wrt may_follow ys \<and> list_all stopping ys \<and> (zs \<noteq> [] \<longrightarrow> ys \<noteq> [] \<and> cuts (last ys) (hd zs))"
proof -
  have f: "reg wild_state = click_evs" "world wild_state = []" "e_type (new_event ''click'' :: nat event) = ''click''"
    "\<not> isPropagationStopped (new_event ''click'' :: nat event)" "\<not> isImmediatePropagationStopped (new_event ''click'' :: nat event)"
    by (simp_all add: wild_state_def new_event_def)
  have o: "observed wild_page" by (simp add: observed_def wild_page_def kept_on_def)
  have "\<forall>h \<in> set (bound (reg wild_state) body (e_type (new_event ''click'' :: nat event))). enter_types (h_origType h) = None"
    using click_evs_plain unfolding f plain_handler_def by blast
  from dispatch_calls_bound [OF o prod.collapse [symmetric] f(4,5) this, of "[]"] show ?thesis
    by (simp only: f append_Nil)
qed

theorem handlers_in_order_witness:
  "queued (handlers demo_page body ((new_event ''click'')\<lparr>e_target := Some (Elem (Node 0 [0, 1]))\<rparr>) (the (handlers_at click_evs body ''click''))) =
    concat (map (\<lambda>n. map (Pair (Elem n))
      (if eligible demo_page ''click'' n
       then filter (\<lambda>h. delegated h \<and> sel_matches demo_page body n h) (hs (the (handlers_at click_evs body ''click''))) else []))
      (takeWhile (\<lambda>n. Elem n \<noteq> body) (ancestors (Node 0 [0, 1])))) @
    map (Pair body) (filter (\<lambda>h. \<not> delegated h) (hs (the (handlers_at click_evs body ''click''))))"
proof -
  have t: "target_ok (core_specials small_env) click_evs body" using click_evs_ok by (simp add: evs_ok_def)
  have w: "split_types ''click'' = [''click'']" "ev_type ''click'' = ''click''"
    by (simp_all add: split_types_def words_def words_by_def is_space_def ev_type_def rtypenamespace_def)
  have "evs_ok (core_specials small_env) (event_add small_env (core_specials small_env) body ''click'' (Direct (Fn 0)) None None (no_events :: nat arg evs))"
    by (rule core.event_add_ok(1) [OF no_events_ok]) (simp add: known_def)
  from event_add_bound [OF this _ body_accepts w(1), where f = "Fn 1" and sel = "Some ''a''"]
  have "bound click_evs body ''click'' \<noteq> []" by (simp add: click_evs_def w click_type known_def)
  then obtain hl where hl: "handlers_at click_evs body ''click'' = Some hl"
    by (cases "handlers_at click_evs body ''click''") (simp_all add: bound_def)
  have ok: "hlist_ok (core_specials small_env) ''click'' hl" by (rule bound_hlist_ok(1) [OF t hl])
  have "same_needs (hs hl)"
    unfolding same_needs_def using click_evs_plain [of _ body "''click''"] hl by (simp add: bound_def)
  with ok have l: "hs hl = arrange (hs hl)" "delegateCount hl = int (length (filter delegated (hs hl)))" "same_needs (hs hl)"
    unfolding hlist_ok_def by blast+
  have the: "the (handlers_at click_evs body ''click'') = hl" using hl by simp
  show ?thesis
    using handlers_in_order [OF l, of "demo_page" body "(new_event ''click'')\<lparr>e_target := Some (Elem (Node 0 [0, 1]))\<rparr>"]
    unfolding the by (simp add: new_event_def or_else_def)
qed

theorem event_path_of_element_witness:
  "eventPath demo_page False ''focus'' (Elem (Node 0 [0, 1])) =
     [Elem (Node 0 [0, 1]), Elem (Node 0 [0, 1]), Elem (Node 0 [0]), Elem (Node 0 []), Window]"
  using event_path_of_element [of "demo_page" False "''focus''" "Node 0 [0, 1]"]
  by (simp add: demo_page_def owner_document_def small_env_def dom_env.extend_def small_page_def numeral_eq_Suc)

text \<open>A page that binds with \<open>one\<close>.\<close>

definition once_evs :: "nat arg evs" where
  "once_evs = one small_env (core_specials small_env) [body] ''click.menu'' (Func (Fn 0)) Undef Undef no_events"

lemma once_evs_facts: "evs_ok (core_specials small_env) once_evs" "bound once_evs body ''click'' \<noteq> []"
proof -
  show "evs_ok (core_specials small_env) once_evs"
    unfolding once_evs_def one_def
    by (intro on_keeps [OF core.quiet_specials_axioms] no_events_ok) (simp_all add: page_arg_def)
  have w: "split_types ''click.menu'' = [''click.menu'']" "ev_type ''click.menu'' = ''click''"
    by (simp_all add: split_types_def words_def words_by_def is_space_def ev_type_def rtypenamespace_def)
  have one: "once_evs = event_add small_env (core_specials small_env) body ''click.menu'' (Direct (Wrap (Fn 0))) None None (snd (wrap_once (Fn 0) no_events))"
    by (simp add: once_evs_def one_def on_def on_args_def nullish_def as_function_def as_data_def wrap_once_def Let_def)
  have wrapped: "evs_ok (core_specials small_env) (snd (wrap_once (Fn 0) (no_events :: nat arg evs)))"
    by (rule wrap_once_ok(1) [OF no_events_ok]) simp
  have "known (snd (wrap_once (Fn 0) (no_events :: nat arg evs))) (fst (wrap_once (Fn 0) (no_events :: nat arg evs)))"
    by (rule wrap_once_ok(2) [OF no_events_ok [of "core_specials small_env"]]) simp
  then have "known (snd (wrap_once (Fn 0) (no_events :: nat arg evs))) (Wrap (Fn 0))"
    by (simp add: wrap_once_def Let_def)
  from event_add_bound [OF wrapped this body_accepts w(1), where data = None and sel = None] show "bound once_evs body ''click'' \<noteq> []"
    by (simp add: one w click_type)
qed

theorem once_unbinds_witness:
  "\<exists>h r. h \<in> set (bound once_evs body ''click'') \<and>
    call_fn demo_page (Wrap (Fn 0)) body ((new_event ''click'')\<lparr>e_delegateTarget := Some body, e_handleObj := Some h\<rparr>) []
      (demo_state\<lparr>reg := once_evs\<rparr>) =
    call_fn demo_page (Fn 0) body ((new_event ''click'')\<lparr>e_delegateTarget := Some body, e_handleObj := Some h\<rparr>) []
      (demo_state\<lparr>reg := r\<rparr>) \<and> h \<notin> set (bound r body ''click'')"
proof -
  let ?h = "hd (bound once_evs body ''click'')"
  have h: "?h \<in> set (bound (reg (demo_state\<lparr>reg := once_evs\<rparr>)) body ''click'')" using once_evs_facts(2) by simp
  have w: "h_handler ?h = Wrap (Fn 0)" by code_simp
  have tab: "table demo_page = core_specials small_env" by (simp add: demo_page_def)
  have ok: "evs_ok (table demo_page) (reg (demo_state\<lparr>reg := once_evs\<rparr>))" using once_evs_facts(1) by (simp add: tab)
  let ?ev = "(new_event ''click'')\<lparr>e_delegateTarget := Some body, e_handleObj := Some ?h\<rparr>"
  have "\<exists>r. call_fn demo_page (Wrap (Fn 0)) body ?ev [] (demo_state\<lparr>reg := once_evs\<rparr>) =
      call_fn demo_page (Fn 0) body ?ev [] (demo_state\<lparr>reg := once_evs\<rparr>\<lparr>reg := r\<rparr>) \<and> ?h \<notin> set (bound r body ''click'')"
    using once_unbinds [OF tab ok h w, of ?ev body "[]"] by (simp del: call_fn.simps) blast
  then show ?thesis using h by (simp del: call_fn.simps) blast
qed

end
