(* ===== verification/JQ_Deferred.thy ===== *)
theory JQ_Deferred
  imports JQ_Callbacks
begin

text \<open>
  \<open>jQuery.Deferred\<close> (\<^verbatim>\<open>jquery.js\<close>, lines 3251 to 3391): an object with three callback lists, for the
  resolution, the rejection and the progress, and a state.  The lists are those of \<open>JQ_Callbacks\<close>:
  deferred \<open>n\<close> owns the lists \<open>lst n a\<close>.  What the object adds to its own lists when it is made, what
  \<open>then\<close> adds to forward a result, and what \<open>when\<close> adds to count them are functions of the model; what
  the functions of the page do is a parameter.
\<close>

section \<open>Deferreds and their lists\<close>

datatype action = Resolve | Reject | Notify

fun other :: "action \<Rightarrow> action" where
  "other Resolve = Reject"
| "other Reject = Resolve"
| "other Notify = Notify"

fun final_state :: "action \<Rightarrow> string option" where
  "final_state Resolve = Some ''resolved''"
| "final_state Reject = Some ''rejected''"
| "final_state Notify = None"

fun flags :: "action \<Rightarrow> string" where
  "flags Notify = ''memory''"
| "flags a = ''once memory''"

definition lst :: "nat \<Rightarrow> action \<Rightarrow> nat" where
  "lst n a = 3 * n + (case a of Resolve \<Rightarrow> 0 | Reject \<Rightarrow> 1 | Notify \<Rightarrow> 2)"

definition owner :: "nat \<Rightarrow> nat" where
  "owner l = l div 3"

definition action_of :: "nat \<Rightarrow> action" where
  "action_of l = (if l mod 3 = 0 then Resolve else if l mod 3 = 1 then Reject else Notify)"

lemma lst_inverse [simp]: "owner (lst n a) = n" "action_of (lst n a) = a" "lst (owner l) (action_of l) = l"
  by (auto simp: owner_def action_of_def lst_def split: action.split) presburger+

lemma lst_inject [simp]: "lst n a = lst m b \<longleftrightarrow> n = m \<and> a = b"
  by (metis lst_inverse(1,2))

text \<open>
  Values: \<open>undefined\<close>, a deferred, a promise of one, an array of values, the array in which \<open>when\<close>
  collects the contexts of its subordinates (for progress or not), or anything else.
\<close>

datatype 'v val = Undef | Val 'v | Deferred nat | Promise nat | Arr "'v val list" | Contexts nat bool

text \<open>What a page can add to a list: its own functions, and \<open>resolve\<close>, \<open>reject\<close> or \<open>notify\<close> of a deferred.\<close>

datatype pfn = Page nat | FireFn nat action

text \<open>
  The functions in the lists: besides those, the ones a deferred adds to its own lists, the one \<open>then\<close>
  adds to the lists of one deferred for another, and the one \<open>when\<close> adds to those of a subordinate.
\<close>

datatype dfn =
  Call pfn | SetState nat action | DisableOf nat action | LockOf nat
| Forward nat nat action "pfn option" | Gather nat nat bool

text \<open>A call of \<open>when\<close>: what its closures share.  The arrays are empty when there are fewer than two arguments.\<close>

record 'v gather =
  remaining :: int
  master :: nat
  progressValues :: "'v val list"
  resolveValues :: "'v val list"
  progressContexts :: "'v val list"
  resolveContexts :: "'v val list"

record ('v, 'x) dext =
  dstate :: "nat \<Rightarrow> string"
  whens :: "nat \<Rightarrow> 'v gather"
  page_ext :: 'x

type_synonym 'v call_data = "'v val \<times> 'v val list"
type_synonym ('v, 'x) dop_list = "(dfn, 'v call_data, ('v, 'x) dext) op list"
type_synonym ('v, 'x) dworld = "(dfn, 'v call_data, ('v, 'x) dext) world"

section \<open>What the functions of a deferred do\<close>

text \<open>\<open>deferred.resolve\<close>, \<open>reject\<close> and \<open>notify\<close>: the context of the deferred itself is its promise.\<close>

definition fireFn :: "nat \<Rightarrow> action \<Rightarrow> 'v val \<Rightarrow> 'v val list \<Rightarrow> (dfn, 'v call_data, 'y) op" where
  "fireFn n a this args = On (lst n a) (FireWith (if this = Deferred n then Promise n else this, args))"

definition promise_of :: "'v val \<Rightarrow> nat option" where
  "promise_of v = (case v of Deferred n \<Rightarrow> Some n | Promise n \<Rightarrow> Some n | _ \<Rightarrow> None)"

text \<open>The callbacks a new deferred adds to its own lists.\<close>

definition internals :: "nat \<Rightarrow> action \<Rightarrow> dfn list" where
  "internals n a = [SetState n a, DisableOf n (other a), LockOf n]"

definition set_up :: "nat \<Rightarrow> ('v, 'x) dop_list" where
  "set_up n = concat (map (\<lambda>a. if final_state a \<noteq> None then [On (lst n a) (Add (map AFun (internals n a)))] else [])
     [Resolve, Reject, Notify])"

text \<open>\<open>done\<close>, \<open>fail\<close> and \<open>progress\<close> are the \<open>add\<close> of the three lists.\<close>

definition always :: "nat \<Rightarrow> dfn arg list \<Rightarrow> ('v, 'x) dop_list" where
  "always n args = [On (lst n Resolve) (Add [AArr args]), On (lst n Reject) (Add [AArr args])]"

text \<open>\<open>then\<close>, on deferred \<open>n\<close>, with the new deferred \<open>m\<close> and the three arguments.\<close>

definition then_ops :: "nat \<Rightarrow> nat \<Rightarrow> (action \<Rightarrow> pfn option) \<Rightarrow> ('v, 'x) dop_list" where
  "then_ops n m fns = map (\<lambda>a. On (lst n a) (Add [AFun (Forward n m a (fns a))])) [Resolve, Reject, Notify]"

text \<open>A promise that a filter has returned: the new deferred follows it.\<close>

definition follow :: "nat \<Rightarrow> nat \<Rightarrow> ('v, 'x) dop_list" where
  "follow k m = map (\<lambda>a. On (lst k a) (Add [AFun (Call (FireFn m a))])) [Resolve, Reject, Notify]"

section \<open>when\<close>

definition upd_when :: "nat \<Rightarrow> ('v gather \<Rightarrow> 'v gather) \<Rightarrow> ('v, 'x) dext \<Rightarrow> ('v, 'x) dext" where
  "upd_when w g x = x\<lparr>whens := (whens x)(w := g (whens x w))\<rparr>"

text \<open>
  The function that \<open>updateFunc\<close> makes.  The array of contexts is passed on as it is and may change
  later; the array of values is copied by the call.
\<close>

definition slot :: "'v val list \<Rightarrow> 'v val" where
  "slot args = (case args of [] \<Rightarrow> Undef | [v] \<Rightarrow> v | _ \<Rightarrow> Arr args)"

definition gather_ops :: "nat \<Rightarrow> nat \<Rightarrow> bool \<Rightarrow> 'v val \<Rightarrow> 'v val list \<Rightarrow> ('v, 'x) dop_list" where
  "gather_ops w i progress this args =
     (if progress
      then [Ext (upd_when w (\<lambda>g. g\<lparr>progressContexts := (progressContexts g)[i := this], progressValues := (progressValues g)[i := slot args]\<rparr>)),
            Dyn (\<lambda>x. [On (lst (master (whens x w)) Notify) (FireWith (Contexts w True, progressValues (whens x w)))])]
      else [Ext (upd_when w (\<lambda>g. g\<lparr>resolveContexts := (resolveContexts g)[i := this], resolveValues := (resolveValues g)[i := slot args],
              remaining := remaining g - 1\<rparr>)),
            Dyn (\<lambda>x. if remaining (whens x w) = 0
                 then [On (lst (master (whens x w)) Resolve) (FireWith (Contexts w False, resolveValues (whens x w)))] else [])])"

definition subordinate :: "nat \<Rightarrow> nat \<Rightarrow> nat \<Rightarrow> 'v val \<Rightarrow> ('v, 'x) dop_list" where
  "subordinate w m i v =
     (case promise_of v of
        Some k \<Rightarrow> [On (lst k Resolve) (Add [AFun (Gather w i False)]), On (lst k Reject) (Add [AFun (Call (FireFn m Reject))]),
                   On (lst k Notify) (Add [AFun (Gather w i True)])]
      | None \<Rightarrow> [Ext (upd_when w (\<lambda>g. g\<lparr>remaining := remaining g - 1\<rparr>))])"

text \<open>
  \<open>when\<close>, its call numbered \<open>w\<close>, with the new deferred \<open>m\<close>.  A single deferred is its own master; then
  nothing is done, and the promise is the one of the argument.
\<close>

definition jq_when :: "nat \<Rightarrow> nat \<Rightarrow> 'v val list \<Rightarrow> ('v, 'x) dop_list \<times> 'v val" where
  "jq_when w m vs =
     (let r = (if length vs \<noteq> 1 \<or> promise_of (hd vs) \<noteq> None then length vs else 0)
      in case (if r = 1 then promise_of (hd vs) else None) of
           Some k \<Rightarrow> ([], Promise k)
         | None \<Rightarrow>
             (Ext (upd_when w (\<lambda>g. \<lparr>remaining = int r, master = m,
                progressValues = (if length vs > 1 then replicate (length vs) Undef else []), resolveValues = vs,
                progressContexts = (if length vs > 1 then replicate (length vs) Undef else []),
                resolveContexts = (if length vs > 1 then replicate (length vs) Undef else [])\<rparr>)) #
              (if length vs > 1 then concat (map (\<lambda>(i, v). subordinate w m i v) (enumerate 0 vs)) else []) @
              [Dyn (\<lambda>x. if remaining (whens x w) = 0
                 then [On (lst m Resolve) (FireWith (if length vs > 1 then Contexts w False else Undef, resolveValues (whens x w)))] else [])],
              Promise m))"

section \<open>What a page does, and its functions\<close>

text \<open>
  The calls a function of the page may make.  The deferreds it will ever make exist from the start;
  \<open>Then\<close> and \<open>When\<close> name the one they make.
\<close>

datatype ('v, 'x) dop =
  AddTo nat action "pfn arg list" | Always nat "pfn arg list" | Then nat nat "action \<Rightarrow> pfn option"
| Settle nat action "'v val" "'v val list" | SettleWith nat action "'v val" "'v val list"
| When nat nat "'v val list" | PageExt "'x \<Rightarrow> 'x" | Throw

definition compile :: "('v, 'x) dop \<Rightarrow> ('v, 'x) dop_list" where
  "compile p = (case p of
     AddTo n a args \<Rightarrow> [On (lst n a) (Add (map (map_arg Call) args))]
   | Always n args \<Rightarrow> always n (map (map_arg Call) args)
   | Then n m fns \<Rightarrow> then_ops n m fns
   | Settle n a this args \<Rightarrow> [fireFn n a this args]
   | SettleWith n a this args \<Rightarrow> [On (lst n a) (FireWith (this, args))]
   | When w m vs \<Rightarrow> fst (jq_when w m vs)
   | PageExt g \<Rightarrow> [Ext (\<lambda>x. x\<lparr>page_ext := g (page_ext x)\<rparr>)]
   | Throw \<Rightarrow> [Raise])"

text \<open>What a function of the page does in a world, with its \<open>this\<close> and arguments, and what it returns.\<close>

type_synonym ('v, 'x) page_fns =
  "('v, 'x) dworld \<Rightarrow> nat \<Rightarrow> 'v val \<Rightarrow> 'v val list \<Rightarrow> ('v, 'x) dop list \<times> 'v val"

definition call_pfn :: "('v, 'x) page_fns \<Rightarrow> ('v, 'x) dworld \<Rightarrow> pfn \<Rightarrow> 'v val \<Rightarrow> 'v val list \<Rightarrow> ('v, 'x) dop_list \<times> 'v val" where
  "call_pfn pf w f this args =
     (case f of
        Page k \<Rightarrow> (case pf w k this args of (ps, ret) \<Rightarrow> (concat (map compile ps), ret))
      | FireFn n a \<Rightarrow> ([fireFn n a this args], this))"

definition d_ops :: "('v, 'x) page_fns \<Rightarrow> ('v, 'x) dworld \<Rightarrow> dfn \<Rightarrow> 'v val \<Rightarrow> 'v val list \<Rightarrow> ('v, 'x) dop_list" where
  "d_ops pf w f this args =
     (case f of
        Call g \<Rightarrow> fst (call_pfn pf w g this args)
      | SetState n a \<Rightarrow> [Ext (\<lambda>x. x\<lparr>dstate := (dstate x)(n := the (final_state a))\<rparr>)]
      | DisableOf n a \<Rightarrow> [On (lst n a) Disable]
      | LockOf n \<Rightarrow> [On (lst n Notify) Lock]
      | Gather wn i progress \<Rightarrow> gather_ops wn i progress this args
      | Forward n m a g \<Rightarrow>
          (let this' = (if this = Promise n then Promise m else this)
           in case g of
                None \<Rightarrow> [On (lst m a) (FireWith (this', args))]
              | Some h \<Rightarrow>
                  (case call_pfn pf w h this args of (ops, ret) \<Rightarrow>
                     ops @ (case promise_of ret of
                              Some k \<Rightarrow> follow k m
                            | None \<Rightarrow> [On (lst m a) (FireWith (this', [ret]))]))))"

definition d_beh :: "('v, 'x) page_fns \<Rightarrow> (dfn, 'v call_data, ('v, 'x) dext) beh" where
  "d_beh pf w f d = (d_ops pf w f (fst d) (snd d), False)"

text \<open>The world before the page's first call: every deferred has been made.\<close>

definition unmade :: "'x \<Rightarrow> ('v, 'x) dworld" where
  "unmade x = fresh (\<lambda>l. OptString (flags (action_of l)))
     \<lparr>dstate = \<lambda>_. ''pending'',
      whens = \<lambda>_. \<lparr>remaining = 0, master = 0, progressValues = [], resolveValues = [], progressContexts = [], resolveContexts = []\<rparr>,
      page_ext = x\<rparr>"

definition made :: "'x \<Rightarrow> ('v, 'x) dworld" where
  "made x = (unmade x)\<lparr>w_lists := (\<lambda>l.
     if final_state (action_of l) \<noteq> None
     then (w_lists (unmade x :: ('v, 'x) dworld) l)\<lparr>cb_list := Some (internals (owner l) (action_of l))\<rparr> else w_lists (unmade x) l)\<rparr>"

section \<open>Pending and settled deferreds\<close>

text \<open>The functions a deferred adds to its own lists are in no other list.\<close>

definition fn_ok :: "nat \<Rightarrow> dfn \<Rightarrow> bool" where
  "fn_ok l f = (case f of
     SetState n a \<Rightarrow> l = lst n a \<and> a \<noteq> Notify
   | DisableOf n a \<Rightarrow> l = lst n (other a) \<and> a \<noteq> Notify
   | LockOf n \<Rightarrow> owner l = n \<and> action_of l \<noteq> Notify
   | _ \<Rightarrow> True)"

definition fns_ok :: "nat \<Rightarrow> dfn list option \<Rightarrow> bool" where
  "fns_ok l fs \<longleftrightarrow> (\<forall>gs. fs = Some gs \<longrightarrow> (\<forall>f \<in> set gs. fn_ok l f))"

definition unlogged :: "nat \<Rightarrow> ('v, 'x) dworld \<Rightarrow> bool" where
  "unlogged l w \<longleftrightarrow> (\<forall>f d. (l, f, d) \<notin> set (w_log w))"

definition untouched :: "nat \<Rightarrow> ('v, 'x) dworld \<Rightarrow> bool" where
  "untouched l w \<longleftrightarrow> (let c = w_lists w l in
     \<not> fired c \<and> memory c = None \<and> firingStart c = 0 \<and> unlogged l w \<and>
     (\<exists>rest. cb_list c = Some (internals (owner l) (action_of l) @ rest)))"

definition pending :: "nat \<Rightarrow> ('v, 'x) dworld \<Rightarrow> bool" where
  "pending n w \<longleftrightarrow> dstate (w_ext w) n = ''pending'' \<and> untouched (lst n Resolve) w \<and> untouched (lst n Reject) w"

definition settled :: "nat \<Rightarrow> action \<Rightarrow> ('v, 'x) dworld \<Rightarrow> bool" where
  "settled n a w \<longleftrightarrow> a \<noteq> Notify \<and> dstate (w_ext w) n = the (final_state a) \<and> fired (w_lists w (lst n a)) \<and>
     cb_list (w_lists w (lst n (other a))) = None \<and> \<not> fired (w_lists w (lst n (other a))) \<and> unlogged (lst n (other a)) w"

definition deferred_ok :: "nat \<Rightarrow> ('v, 'x) dworld \<Rightarrow> bool" where
  "deferred_ok n w \<longleftrightarrow> pending n w \<or> (\<exists>a. settled n a w)"

definition deferreds_ok :: "('v, 'x) dworld \<Rightarrow> bool" where
  "deferreds_ok w \<longleftrightarrow> (\<forall>l. fns_ok l (cb_list (w_lists w l))) \<and> (\<forall>n. deferred_ok n w)"

definition persists :: "('v, 'x) dworld \<Rightarrow> ('v, 'x) dworld \<Rightarrow> bool" where
  "persists w w' \<longleftrightarrow> (\<forall>n a. settled n a w \<longrightarrow> settled n a w')"

definition stays :: "('v, 'x) dworld \<Rightarrow> ('v, 'x) dworld \<Rightarrow> bool" where
  "stays w w' \<longleftrightarrow> deferreds_ok w' \<and> persists w w'"

lemma persists_refl [simp]: "persists w w"
  by (simp add: persists_def)

lemma persists_trans: "persists w w1 \<Longrightarrow> persists w1 w2 \<Longrightarrow> persists w w2"
  by (simp add: persists_def)

lemma stays_trans: "persists w w1 \<Longrightarrow> stays w1 w2 \<Longrightarrow> stays w w2"
  by (auto simp: stays_def intro: persists_trans)

lemma stays_refl: "deferreds_ok w \<Longrightarrow> stays w w"
  by (simp add: stays_def)

lemma other_other [simp]: "other (other a) = a" by (cases a) simp_all
lemma other_neq [simp]: "other a = a \<longleftrightarrow> a = Notify" "a = other a \<longleftrightarrow> a = Notify" by (cases a; simp)+
lemma other_Notify [simp]: "other a = Notify \<longleftrightarrow> a = Notify" by (cases a) simp_all

lemma all_lists: "(\<forall>l. P l) \<longleftrightarrow> (\<forall>n a. P (lst n a))"
  by (metis lst_inverse(3))

text \<open>An update of one list that no deferred is concerned by.\<close>

definition tame :: "nat \<Rightarrow> (dfn, 'd) cbs \<Rightarrow> (dfn, 'd) cbs \<Rightarrow> bool" where
  "tame l c c' \<longleftrightarrow> fns_ok l (cb_list c') \<and>
     (action_of l \<noteq> Notify \<longrightarrow> fired c' = fired c \<and>
       (\<not> fired c \<longrightarrow>
         (case cb_list c of
            None \<Rightarrow> cb_list c' = None
          | Some fs \<Rightarrow> memory c' = memory c \<and> firingStart c' = firingStart c \<and> (\<exists>new. cb_list c' = Some (fs @ new)))))"

lemma staysI:
  assumes "deferreds_ok w" "\<And>l. fns_ok l (cb_list (w_lists w' l))" "dstate (w_ext w') = dstate (w_ext w)"
    and u: "\<And>k. action_of k \<noteq> Notify \<Longrightarrow> untouched k w \<Longrightarrow> untouched k w'"
    and s: "\<And>n a. settled n a w \<Longrightarrow> settled n a w'"
  shows "stays w w'"
proof -
  have "deferred_ok n w'" for n
  proof -
    have "deferred_ok n w" using assms(1) by (simp add: deferreds_ok_def)
    then show ?thesis using u s assms(3) unfolding deferred_ok_def pending_def by fastforce
  qed
  with assms(2) s show ?thesis by (simp add: stays_def deferreds_ok_def persists_def)
qed

lemma stays_upd:
  assumes "deferreds_ok w" "tame l (w_lists w l) (g (w_lists w l))"
  shows "stays w (upd l g w)"
proof (rule staysI [OF assms(1)])
  show "fns_ok k (cb_list (w_lists (upd l g w) k))" for k
    using assms by (simp add: deferreds_ok_def tame_def)
  show "untouched k (upd l g w)" if "action_of k \<noteq> Notify" "untouched k w" for k
    using that assms(2) by (cases "k = l") (auto simp: untouched_def unlogged_def tame_def Let_def)
  show "settled n a (upd l g w)" if "settled n a w" for n a
    using that assms(2) by (auto simp: settled_def unlogged_def tame_def)
qed simp

lemma stays_call:
  assumes "deferreds_ok w" "fired (w_lists w l) \<or> action_of l = Notify"
  shows "stays w (call l f d w)"
proof (rule staysI [OF assms(1)])
  show "untouched k (call l f d w)" if "action_of k \<noteq> Notify" "untouched k w" for k
    using that assms(2) by (auto simp: untouched_def unlogged_def Let_def)
  show "settled n a (call l f d w)" if "settled n a w" for n a
    using that assms(2) by (auto simp: settled_def unlogged_def)
qed (use assms(1) in \<open>simp_all add: deferreds_ok_def\<close>)

lemma stays_ext:
  assumes "deferreds_ok w" "dstate x = dstate (w_ext w)"
  shows "stays w (w\<lparr>w_ext := x\<rparr>)"
  by (rule staysI [OF assms(1)])
    (use assms in \<open>auto simp: deferreds_ok_def untouched_def unlogged_def settled_def\<close>)

section \<open>The operations a page can reach\<close>

definition internal :: "dfn \<Rightarrow> bool" where
  "internal f = (case f of SetState n a \<Rightarrow> True | DisableOf n a \<Rightarrow> True | LockOf n \<Rightarrow> True | _ \<Rightarrow> False)"

inductive public :: "(dfn, 'd, ('v, 'x) dext) op \<Rightarrow> bool" where
  "(\<And>arg f. arg \<in> set args \<Longrightarrow> f \<in> set_arg arg \<Longrightarrow> \<not> internal f) \<Longrightarrow> public (On l (Add args))"
| "public (On l (FireWith d))"
| "(\<And>x. dstate (g x) = dstate x) \<Longrightarrow> public (Ext g)"
| "public Raise"
| "(\<And>x p. p \<in> set (h x) \<Longrightarrow> public p) \<Longrightarrow> public (Dyn h)"

inductive_simps public_simps [simp]:
  "public (On l (Add args))" "public (On l (FireWith d))" "public (Ext g)" "public Raise" "public (Dyn h)"
  "public (On l (Remove fs))" "public (On l Empty)" "public (On l Disable)" "public (On l Lock)"

lemma public_follow: "p \<in> set (follow k m) \<Longrightarrow> public p"
  by (auto simp: follow_def internal_def)

lemma public_gather: "p \<in> set (gather_ops w i progress this args) \<Longrightarrow> public p"
  by (auto simp: gather_ops_def upd_when_def split: if_splits)

lemma public_when: "p \<in> set (fst (jq_when w m vs)) \<Longrightarrow> public p"
  by (auto simp: jq_when_def subordinate_def upd_when_def internal_def Let_def split: if_splits option.splits)


lemma public_compile: "p \<in> set (compile q) \<Longrightarrow> public p"
  by (cases q) (auto simp: compile_def always_def then_ops_def fireFn_def internal_def arg.set_map intro: public_when)

lemma public_call_pfn: "p \<in> set (fst (call_pfn pf w f this args)) \<Longrightarrow> public p"
  by (cases f) (auto simp: call_pfn_def fireFn_def dest: public_compile split: prod.splits)

lemma public_call_pfn_eq: "(ops, ret) = call_pfn pf w f this args \<Longrightarrow> p \<in> set ops \<Longrightarrow> public p"
  using public_call_pfn [of p pf w f this args] by (metis fst_conv)

lemma public_d_ops:
  assumes "\<not> internal f" "p \<in> set (d_ops pf w f this args)"
  shows "public p"
  using assms
  by (cases f) (auto simp: d_ops_def internal_def Let_def
      intro: public_follow public_gather public_call_pfn public_call_pfn_eq split: option.splits prod.splits)

section \<open>Every run keeps the deferreds in order\<close>

text \<open>
  While a deferred settles, its first two callbacks have not both run yet: the state of the deferred
  and the other list are not as they will be.  No function of the page runs meanwhile.
\<close>

definition settling :: "nat \<Rightarrow> action \<Rightarrow> nat \<Rightarrow> ('v, 'x) dworld \<Rightarrow> bool" where
  "settling n a i w \<longleftrightarrow> a \<noteq> Notify \<and> i < 2 \<and> (\<forall>l. fns_ok l (cb_list (w_lists w l))) \<and>
     (\<forall>m. m \<noteq> n \<longrightarrow> deferred_ok m w) \<and>
     (let c = w_lists w (lst n a) in fired c \<and> firingIndex c = int i \<and> (\<exists>rest. cb_list c = Some (internals n a @ rest))) \<and>
     untouched (lst n (other a)) w \<and> dstate (w_ext w) n = (if i = 0 then ''pending'' else the (final_state a))"

text \<open>What the functions a deferred has added may do once it is settled.\<close>

definition own_op :: "(dfn, 'd, ('v, 'x) dext) op \<Rightarrow> ('v, 'x) dworld \<Rightarrow> bool" where
  "own_op p w \<longleftrightarrow>
     (\<exists>n a. settled n a w \<and> (p = Ext (\<lambda>x. x\<lparr>dstate := (dstate x)(n := the (final_state a))\<rparr>) \<or>
        p = On (lst n (other a)) Disable \<or> p = On (lst n Notify) Lock))"

definition can_run :: "(dfn, 'v call_data, ('v, 'x) dext) task \<Rightarrow> ('v, 'x) dworld \<Rightarrow> bool" where
  "can_run t w = (case t of
     TFire l d \<Rightarrow> deferreds_ok w
   | TLoop l d \<Rightarrow> deferreds_ok w \<or> (\<exists>n a i. l = lst n a \<and> settling n a i w)
   | TOp p \<Rightarrow> deferreds_ok w \<and> (public p \<or> own_op p w)
   | TOps ps \<Rightarrow> deferreds_ok w \<and> ((\<forall>p \<in> set ps. public p) \<or> (\<exists>p. ps = [p] \<and> own_op p w)))"

definition ends_ok :: "('v, 'x) dworld \<Rightarrow> ('v, 'x) dworld outcome \<Rightarrow> bool" where
  "ends_ok w r = (case r of Done w' \<Rightarrow> stays w w' | Thrown e w' \<Rightarrow> stays w w' | NoFuel \<Rightarrow> True)"

definition keeps_order :: "('v, 'x) page_fns \<Rightarrow> nat \<Rightarrow> bool" where
  "keeps_order pf k \<longleftrightarrow> (\<forall>t (w :: ('v, 'x) dworld). wf_world w \<longrightarrow> task_ok t w \<longrightarrow> can_run t w \<longrightarrow> ends_ok w (run k (d_beh pf) t w))"

lemma ends_ok_simps [simp]: "ends_ok w (Done w') = stays w w'" "ends_ok w (Thrown e w') = stays w w'" "ends_ok w NoFuel"
  by (simp_all add: ends_ok_def)

lemma ends_ok_mono: "persists w w1 \<Longrightarrow> ends_ok w1 r \<Longrightarrow> ends_ok w r"
  by (auto simp: ends_ok_def intro: stays_trans split: outcome.splits)

lemma staysD: "stays w w' \<Longrightarrow> deferreds_ok w'" "stays w w' \<Longrightarrow> persists w w'"
  by (simp_all add: stays_def)

lemma keeps_orderD:
  "keeps_order pf k \<Longrightarrow> wf_world w \<Longrightarrow> task_ok t w \<Longrightarrow> can_run t w \<Longrightarrow> ends_ok w (run k (d_beh pf) t w)"
  by (simp add: keeps_order_def)

lemma keeps_order_after:
  "keeps_order pf k \<Longrightarrow> wf_world w1 \<Longrightarrow> task_ok t w1 \<Longrightarrow> can_run t w1 \<Longrightarrow> persists w w1 \<Longrightarrow>
   ends_ok w (run k (d_beh pf) t w1)"
  by (blast intro: ends_ok_mono keeps_orderD)

lemma add_args_grows: "\<exists>new. add_args u fs as = fs @ new \<and> set new \<subseteq> (\<Union>a \<in> set as. set_arg a)"
proof (induction u fs as rule: add_args.induct)
  case (2 uniq fs f as)
  then show ?case by (fastforce split: if_splits)
next
  case (3 uniq fs xs as)
  then show ?case by fastforce
qed auto

lemma tame_cases:
  assumes "deferreds_ok w" and c: "c = w_lists w l"
  shows "tame l c (c\<lparr>firing := b\<rparr>)" "tame l c (c\<lparr>firingIndex := i\<rparr>)" "tame l c (c\<lparr>firingLength := i\<rparr>)"
    "tame l c (c\<lparr>stack := st\<rparr>)"
  using assms by (auto simp: tame_def deferreds_ok_def split: option.splits)

lemma tame_fired:
  assumes "fired (w_lists w l) \<or> action_of l = Notify" "fired c'" "fns_ok l (cb_list c')"
  shows "tame l (w_lists w l) c'"
  using assms by (auto simp: tame_def)

lemma lists_fns_ok: "deferreds_ok w \<Longrightarrow> fns_ok l (cb_list (w_lists w l))"
  by (simp add: deferreds_ok_def)

lemma unfired_state:
  assumes "deferreds_ok w" "\<not> fired (w_lists w l)" "action_of l \<noteq> Notify" "cb_list (w_lists w l) \<noteq> None"
  shows "pending (owner l) w"
proof -
  have l: "l = lst (owner l) (action_of l)" by simp
  have "settled (owner l) a w \<Longrightarrow> False" for a
    using assms(2,3,4) by (subst (asm) (1 2) l) (cases "action_of l"; cases a; auto simp: settled_def simp del: lst_inverse)
  then show ?thesis using assms(1) by (auto simp: deferreds_ok_def deferred_ok_def)
qed

lemma pending_not_settled: "pending n w \<Longrightarrow> \<not> settled n a w"
  by (cases a) (auto simp: pending_def settled_def untouched_def Let_def)

lemma persists_other:
  assumes "pending n w" "\<And>m l. owner l = m \<Longrightarrow> m \<noteq> n \<Longrightarrow> w_lists w' l = w_lists w l"
    and "\<And>m. m \<noteq> n \<Longrightarrow> dstate (w_ext w') m = dstate (w_ext w) m" "\<And>l. owner l \<noteq> n \<Longrightarrow> unlogged l w \<Longrightarrow> unlogged l w'"
  shows "persists w w'"
  unfolding persists_def
proof (intro allI impI)
  fix m a assume s: "settled m a w"
  then have "m \<noteq> n" using pending_not_settled [OF assms(1)] by auto
  then show "settled m a w'" using s assms(2-4) by (simp add: settled_def)
qed

lemma after_loop_keeps:
  assumes k: "keeps_order pf k" and wf: "wf_world w1" and ok: "deferreds_ok w1" and f: "firing (w_lists w1 l)"
  shows "ends_ok w1 (after_loop (run k (d_beh pf)) l w1)"
proof -
  let ?w2 = "upd l (\<lambda>c. c\<lparr>firing := False\<rparr>) w1"
  let ?c = "w_lists ?w2 l"
  have s2: "stays w1 ?w2" by (rule stays_upd [OF ok]) (rule tame_cases(1) [OF ok refl])
  have wf2: "wf_world ?w2" using wf by (simp add: wf_upd simple_wf wf_at)
  have fd: "fired (w_lists w1 l)" using wf_at [OF wf, of l] f by (simp add: cb_wf_def)
  have rest: "stays w1 (upd l g ?w2)" if "fired (g ?c)" "fns_ok l (cb_list (g ?c))" for g
    by (rule stays_trans [OF staysD(2) [OF s2]], rule stays_upd [OF staysD(1) [OF s2]], rule tame_fired) (use that fd in simp_all)
  have "ends_ok w1 (run k (d_beh pf) (TFire l d') (upd l (\<lambda>c. c\<lparr>stack := Some ds\<rparr>) ?w2))"
    if "stack ?c = Some (d' # ds)" "cb_list ?c \<noteq> None" for d' ds
  proof (rule keeps_order_after [OF k])
    let ?w3 = "upd l (\<lambda>c. c\<lparr>stack := Some ds\<rparr>) ?w2"
    have s3: "stays w1 ?w3" by (rule rest) (use fd lists_fns_ok [OF ok] in simp_all)
    show "wf_world ?w3" using wf_at [OF wf2, of l] that by (intro wf_upd [OF wf2]) (auto simp: cb_wf_def)
    show "can_run (TFire l d') ?w3" "persists w1 ?w3" using s3 by (simp_all add: can_run_def stays_def)
    show "task_ok (TFire l d') ?w3" using that by (simp add: task_ok_def)
  qed
  moreover have "stays w1 (upd l (\<lambda>c. c\<lparr>cb_list := Some []\<rparr>) ?w2)" "stays w1 (upd l cb_disable ?w2)"
    by (rule rest; simp add: fd fns_ok_def cb_disable_def)+
  ultimately show ?thesis
    using s2 by (auto simp: after_loop_def Let_def split: option.splits list.splits)
qed

lemma fire_keeps:
  assumes k: "keeps_order pf k" and wf: "wf_world w" and ok: "deferreds_ok w" and t: "task_ok (TFire l d) w"
  shows "ends_ok w (fire (run k (d_beh pf)) l d w)"
proof -
  let ?w1 = "upd l (begin_fire d) w"
  let ?r = "run k (d_beh pf) (TLoop l d) ?w1"
  have wf1: "wf_world ?w1" using wf by (simp add: wf_upd simple_wf wf_at)
  have t1: "task_ok (TLoop l d) ?w1"
    using wf_firingStart [OF wf_at [OF wf, of l]] by (simp add: task_ok_def begin_fire_def)
  have c: "can_run (TLoop l d) ?w1 \<and> persists w ?w1"
  proof (cases "fired (w_lists w l) \<or> action_of l = Notify")
    case True
    then have "stays w ?w1"
      by (intro stays_upd [OF ok], intro tame_fired) (simp_all add: begin_fire_def lists_fns_ok [OF ok])
    then show ?thesis by (simp add: can_run_def stays_def)
  next
    case False
    with unfired_state [OF ok _ _ , of l] t have p: "pending (owner l) w" by (simp add: task_ok_def)
    have "persists w ?w1" by (rule persists_other [OF p]) (auto simp: unlogged_def)
    moreover
    have "settling (owner l) (action_of l) 0 ?w1"
    proof -
      have u: "untouched (lst (owner l) b) w" if "b \<noteq> Notify" for b
        using p that by (cases b) (simp_all add: pending_def)
      have o: "deferred_ok m ?w1" if "m \<noteq> owner l" for m
      proof -
        have "deferred_ok m w" using ok by (simp add: deferreds_ok_def)
        moreover have "untouched (lst m b) w \<Longrightarrow> untouched (lst m b) ?w1" for b
          using that by (auto simp: untouched_def unlogged_def)
        ultimately show ?thesis using \<open>persists w ?w1\<close>
          by (auto simp: deferred_ok_def pending_def persists_def)
      qed
      have f: "fns_ok j (cb_list (w_lists ?w1 j))" for j using lists_fns_ok [OF ok] by (simp add: begin_fire_def)
      have ne: "lst (owner l) (other (action_of l)) \<noteq> l" using False by (metis lst_inverse(2) other_neq(1))
      have "untouched (lst (owner l) (other (action_of l))) ?w1"
        using u [of "other (action_of l)"] False ne by (simp add: untouched_def unlogged_def)
      moreover have "untouched l w" using u [of "action_of l"] False by simp
      ultimately show ?thesis
        using False f o p by (auto simp: settling_def pending_def begin_fire_def untouched_def Let_def)
    qed
    then have "\<exists>n a i. l = lst n a \<and> settling n a i ?w1" using lst_inverse(3) [of l, symmetric] by blast
    ultimately show ?thesis by (simp add: can_run_def)
  qed
  have g: "good ?w1 ?r" by (rule sound_at [OF run_sound wf1 t1])
  have e: "ends_ok w ?r" using keeps_order_after [OF k wf1 t1] c by blast
  show ?thesis
  proof (cases ?r)
    case (Done w1)
    then have "firing (w_lists w1 l)" using g t1 by (simp add: good_Done keeps_def task_ok_def)
    then have "ends_ok w1 (after_loop (run k (d_beh pf)) l w1)"
      by (intro after_loop_keeps [OF k]) (use Done g e in \<open>simp_all add: good_Done staysD\<close>)
    with Done e t show ?thesis by (auto simp: fire_def task_ok_def dest: staysD intro: ends_ok_mono)
  qed (use e t in \<open>auto simp: fire_def task_ok_def\<close>)
qed

lemma loop_step:
  assumes "cb_list (w_lists w l) = Some fs" "firingIndex (w_lists w l) = int i" "i < length fs"
    and "firingLength (w_lists w l) = int (length fs)" "beh (call l (fs ! i) d w) (fs ! i) d = (ops, False)"
  shows "fire_loop rec beh l d w =
    (case rec (TOps ops) (call l (fs ! i) d w) of
       Done w1 \<Rightarrow> rec (TLoop l d) (upd l (\<lambda>c. c\<lparr>firingIndex := firingIndex c + 1\<rparr>) w1)
     | r \<Rightarrow> r)"
  using assms by (simp add: fire_loop_def Let_def cong: outcome.case_cong)

lemma own_in_list:
  assumes ok: "deferreds_ok w" and f: "cb_list (w_lists w l) = Some fs" "f \<in> set fs" "internal f" and fd: "fired (w_lists w l)"
  shows "\<exists>p. d_ops pf w f this args = [p] \<and> own_op p w"
proof -
  have fn: "fn_ok l f" using lists_fns_ok [OF ok, of l] f(1,2) by (simp add: fns_ok_def)
  have s: "settled (owner l) (action_of l) w" if a: "action_of l \<noteq> Notify"
  proof -
    have np: "\<not> pending (owner l) w"
      using fd a lst_inverse(3) [of l] by (cases "action_of l") (auto simp: pending_def untouched_def Let_def)
    then obtain b where b: "settled (owner l) b w" using ok by (auto simp: deferreds_ok_def deferred_ok_def)
    have "b = action_of l"
    proof (rule ccontr)
      assume "b \<noteq> action_of l"
      then have "other b = action_of l" using a b by (cases b; cases "action_of l") (auto simp: settled_def)
      then have "lst (owner l) (other b) = l" by simp
      with b f(1) show False by (simp add: settled_def)
    qed
    with b show ?thesis by simp
  qed
  show ?thesis
  proof (cases f)
    case (SetState n a)
    then have "settled n a w" using fn s by (auto simp: fn_ok_def)
    with SetState show ?thesis by (auto simp: d_ops_def own_op_def)
  next
    case (DisableOf n a)
    then have "settled n (other a) w" using fn s by (auto simp: fn_ok_def)
    then have "own_op (On (lst n a) Disable) w" unfolding own_op_def using other_other [of a] by metis
    with DisableOf show ?thesis by (simp add: d_ops_def)
  next
    case (LockOf n)
    then have "settled n (action_of l) w" using fn s by (auto simp: fn_ok_def)
    with LockOf show ?thesis by (auto simp: d_ops_def own_op_def)
  qed (use f(3) in \<open>simp_all add: internal_def\<close>)
qed


lemma fire_loop_keeps:
  assumes k: "keeps_order pf k" and wf: "wf_world w" and ok: "deferreds_ok w" and t: "task_ok (TLoop l d) w"
  shows "ends_ok w (fire_loop (run k (d_beh pf)) (d_beh pf) l d w)"
proof (cases "cb_list (w_lists w l)")
  case None
  with ok show ?thesis by (simp add: fire_loop_def Let_def stays_refl)
next
  case (Some fs)
  let ?c = "w_lists w l"
  let ?i = "nat (firingIndex ?c)"
  let ?f = "fs ! ?i"
  let ?w0 = "call l ?f d w"
  let ?ops = "d_ops pf ?w0 ?f (fst d) (snd d)"
  let ?r = "run k (d_beh pf) (TOps ?ops) ?w0"
  have c: "cb_wf ?c" by (rule wf_at [OF wf])
  have fir: "firing ?c" "0 \<le> firingIndex ?c" "fired ?c" using t c by (auto simp: task_ok_def cb_wf_def)
  have len: "firingLength ?c = int (length fs)" using c fir Some by (auto simp: cb_wf_def)
  show ?thesis
  proof (cases "firingIndex ?c < firingLength ?c")
    case False
    with Some ok show ?thesis by (simp add: fire_loop_def Let_def stays_refl)
  next
    case True
    have i: "firingIndex ?c = int ?i" "?i < length fs" using True fir(2) len by simp_all
    have s0: "stays w ?w0" using stays_call [OF ok] fir(3) by blast
    have wf0: "wf_world ?w0" using wf by (simp add: wf_world_def)
    have cr: "can_run (TOps ?ops) ?w0"
    proof (cases "internal ?f")
      case True
      have "cb_list (w_lists ?w0 l) = Some fs" "?f \<in> set fs" "fired (w_lists ?w0 l)" using Some i(2) fir(3) by simp_all
      from own_in_list [OF staysD(1) [OF s0] this(1,2) True this(3), of pf "fst d" "snd d"] s0
      show ?thesis by (auto simp: can_run_def dest: staysD)
    next
      case False
      with s0 show ?thesis by (auto simp: can_run_def dest: staysD intro: public_d_ops)
    qed
    have e: "ends_ok w ?r" by (rule keeps_order_after [OF k wf0 task_ok_ops(1) cr staysD(2) [OF s0]])
    have g: "good ?w0 ?r" by (rule sound_at [OF run_sound wf0 task_ok_ops(1)])
    have step: "fire_loop (run k (d_beh pf)) (d_beh pf) l d w =
      (case ?r of Done w1 \<Rightarrow> run k (d_beh pf) (TLoop l d) (upd l (\<lambda>c. c\<lparr>firingIndex := firingIndex c + 1\<rparr>) w1) | r \<Rightarrow> r)"
      by (rule loop_step [OF Some i len]) (simp add: d_beh_def)
    show ?thesis
    proof (cases ?r)
      case (Done w1)
      let ?w2 = "upd l (\<lambda>c. c\<lparr>firingIndex := firingIndex c + 1\<rparr>) w1"
      have w1: "wf_world w1" "keeps ?w0 w1" "stays w w1" using Done g e by (simp_all add: good_Done)
      have ok1: "deferreds_ok w1" by (rule staysD(1) [OF w1(3)])
      have s2: "stays w1 ?w2" by (rule stays_upd [OF ok1]) (rule tame_cases(2) [OF ok1 refl])
      have "ends_ok w (run k (d_beh pf) (TLoop l d) ?w2)"
      proof (rule keeps_order_after [OF k])
        show "wf_world ?w2" using wf_at [OF w1(1), of l] by (intro wf_upd [OF w1(1)]) (auto simp: cb_wf_def)
        have "firing (w_lists w1 l)" using w1(2) fir(1) by (simp add: keeps_def)
        then show "task_ok (TLoop l d) ?w2" using wf_at [OF w1(1), of l] by (auto simp: task_ok_def cb_wf_def)
        show "can_run (TLoop l d) ?w2" using staysD(1) [OF s2] by (simp add: can_run_def)
        show "persists w ?w2" by (rule persists_trans [OF staysD(2) [OF w1(3)] staysD(2) [OF s2]])
      qed
      with Done step show ?thesis by simp
    qed (use e step in simp_all)
  qed
qed

lemma settling_step:
  assumes k: "keeps_order pf k" and wf: "wf_world w" and st: "settling n a i w" and t: "task_ok (TLoop (lst n a) d) w"
  shows "ends_ok w (fire_loop (run k (d_beh pf)) (d_beh pf) (lst n a) d w)"
proof -
  let ?l = "lst n a"
  obtain rest where fs: "cb_list (w_lists w ?l) = Some (internals n a @ rest)" using st by (auto simp: settling_def Let_def)
  let ?fs = "internals n a @ rest"
  let ?p = "if i = 0 then Ext (\<lambda>x. x\<lparr>dstate := (dstate x)(n := the (final_state a))\<rparr>) else On (lst n (other a)) Disable"
  let ?w0 = "call ?l (?fs ! i) d w"
  let ?w1 = "if i = 0 then ?w0\<lparr>w_ext := (w_ext w)\<lparr>dstate := (dstate (w_ext w))(n := the (final_state a))\<rparr>\<rparr>
    else upd (lst n (other a)) cb_disable ?w0"
  let ?w2 = "upd ?l (\<lambda>c. c\<lparr>firingIndex := firingIndex c + 1\<rparr>) ?w1"
  have a: "a \<noteq> Notify" "i < 2" "firingIndex (w_lists w ?l) = int i" "fired (w_lists w ?l)"
    using st by (simp_all add: settling_def Let_def)
  have c: "cb_wf (w_lists w ?l)" by (rule wf_at [OF wf])
  have "firingLength (w_lists w ?l) = int (length ?fs)" using c fs t by (auto simp: cb_wf_def task_ok_def)
  moreover have "d_beh pf ?w0 (?fs ! i) d = ([?p], False)"
    using a(2) by (cases i) (auto simp: d_beh_def d_ops_def internals_def)
  ultimately have step: "fire_loop (run k (d_beh pf)) (d_beh pf) ?l d w =
    (case run k (d_beh pf) (TOps [?p]) ?w0 of Done w1 \<Rightarrow> run k (d_beh pf) (TLoop ?l d) (upd ?l (\<lambda>c. c\<lparr>firingIndex := firingIndex c + 1\<rparr>) w1) | r \<Rightarrow> r)"
    by (intro loop_step [OF fs a(3)]) (use a(2) in \<open>simp_all add: internals_def\<close>)
  have one: "run k (d_beh pf) (TOps [?p]) ?w0 = (if k < 2 then NoFuel else Done ?w1)"
    by (cases k; cases "k - 1") (auto simp: run_one_op run_op_def list_op_def)
  have p: "\<not> settled n b w" for b
    using st by (cases b; cases a) (auto simp: settling_def settled_def untouched_def Let_def)
  have u: "untouched (lst n (other a)) w" using st by (simp add: settling_def)
  have log: "unlogged l ?w2 = unlogged l w" if "l \<noteq> ?l" for l using that by (auto simp: unlogged_def)
  have lists: "w_lists ?w2 l = w_lists w l" if "owner l \<noteq> n" for l using that by auto
  have ext: "dstate (w_ext ?w2) m = dstate (w_ext w) m" if "m \<noteq> n" for m using that by simp
  have per: "persists w ?w2"
    unfolding persists_def
  proof (intro allI impI)
    fix m b assume s: "settled m b w"
    then have m: "m \<noteq> n" using p by auto
    then show "settled m b ?w2" using s by (simp add: settled_def lists log ext del: lists_upd)
  qed
  have others: "deferred_ok m ?w2" if "m \<noteq> n" for m
  proof -
    have "deferred_ok m w" using st that by (simp add: settling_def)
    then show ?thesis
      using that by (simp add: deferred_ok_def pending_def untouched_def settled_def lists log ext Let_def del: lists_upd)
  qed
  have fns: "fns_ok l (cb_list (w_lists ?w2 l))" for l
    using st by (auto simp: settling_def cb_disable_def fns_ok_def)
  have "can_run (TLoop ?l d) ?w2"
  proof (cases "i = 0")
    case True
    have "untouched (lst n (other a)) ?w2" using u a True by (auto simp: untouched_def unlogged_def Let_def)
    then have "settling n a 1 ?w2"
      using st a fs True fns others by (simp add: settling_def Let_def)
    then show ?thesis by (auto simp: can_run_def)
  next
    case False
    then have i: "i = 1" using a(2) by simp
    have "settled n a ?w2"
      using st a i u by (auto simp: settled_def settling_def untouched_def unlogged_def cb_disable_def Let_def)
    then have "deferred_ok n ?w2" unfolding deferred_ok_def by blast
    then have "deferred_ok m ?w2" for m using others [of m] by blast
    then have "deferreds_ok ?w2" using fns unfolding deferreds_ok_def by blast
    then show ?thesis by (simp add: can_run_def)
  qed
  moreover have "wf_world ?w2"
    using wf wf_at [OF wf, of ?l] simple_wf(2) [OF wf_at [OF wf, of "lst n (other a)"]] a
    by (auto simp: wf_world_def cb_wf_def)
  moreover have "task_ok (TLoop ?l d) ?w2" using t a by (auto simp: task_ok_def)
  ultimately have "ends_ok w (run k (d_beh pf) (TLoop ?l d) ?w2)" by (intro keeps_order_after [OF k _ _ _ per])
  then show ?thesis unfolding step one by simp
qed

lemma tame_more:
  assumes ok: "deferreds_ok w" and c: "cb_list (w_lists w l) = Some fs" and new: "\<And>f. f \<in> set new \<Longrightarrow> \<not> internal f"
  shows "tame l (w_lists w l) ((w_lists w l)\<lparr>cb_list := Some (fs @ new)\<rparr>)"
    "tame l (w_lists w l) ((w_lists w l)\<lparr>cb_list := Some (fs @ new), firingLength := i\<rparr>)"
    "memory (w_lists w l) \<noteq> None \<Longrightarrow> tame l (w_lists w l) ((w_lists w l)\<lparr>cb_list := Some (fs @ new), firingStart := i\<rparr>)"
proof -
  have "fn_ok l f" if "f \<in> set (fs @ new)" for f
    using that lists_fns_ok [OF ok, of l] c new [of f] by (auto simp: fns_ok_def fn_ok_def internal_def split: dfn.splits)
  then have fn: "fns_ok l (Some (fs @ new))" by (simp add: fns_ok_def)
  then show "tame l (w_lists w l) ((w_lists w l)\<lparr>cb_list := Some (fs @ new)\<rparr>)"
    "tame l (w_lists w l) ((w_lists w l)\<lparr>cb_list := Some (fs @ new), firingLength := i\<rparr>)"
    using c by (simp_all add: tame_def)
  assume m: "memory (w_lists w l) \<noteq> None"
  have "fired (w_lists w l) \<or> action_of l = Notify"
  proof (rule ccontr)
    assume "\<not> (fired (w_lists w l) \<or> action_of l = Notify)"
    with unfired_state [OF ok, of l] c have "pending (owner l) w" "action_of l \<noteq> Notify" by simp_all
    then have "untouched (lst (owner l) (action_of l)) w" by (cases "action_of l") (auto simp: pending_def simp del: lst_inverse(3))
    with m show False by (simp add: untouched_def Let_def)
  qed
  then show "tame l (w_lists w l) ((w_lists w l)\<lparr>cb_list := Some (fs @ new), firingStart := i\<rparr>)"
    using fn by (auto simp: tame_def)
qed

lemma cb_add_keeps:
  assumes k: "keeps_order pf k" and wf: "wf_world w" and ok: "deferreds_ok w"
    and args: "\<And>arg f. arg \<in> set args \<Longrightarrow> f \<in> set_arg arg \<Longrightarrow> \<not> internal f"
  shows "ends_ok w (cb_add (run k (d_beh pf)) l args w)"
proof (cases "cb_list (w_lists w l)")
  case None
  with ok show ?thesis by (simp add: cb_add_def Let_def stays_refl)
next
  case (Some fs)
  let ?c = "w_lists w l"
  obtain new where new: "add_args (opt_unique ?c) fs args = fs @ new" "set new \<subseteq> (\<Union>a \<in> set args. set_arg a)"
    using add_args_grows [of "opt_unique ?c" fs args] by (elim exE conjE)
  have n: "\<not> internal f" if "f \<in> set new" for f using subsetD [OF new(2) that] args by (elim UN_E)
  note tame = tame_more [OF ok Some n]
  have s1: "stays w (upd l (\<lambda>c. c\<lparr>cb_list := Some (fs @ new)\<rparr>) w)" by (rule stays_upd [OF ok]) (rule tame(1))
  have s2: "stays w (upd l (\<lambda>c. c\<lparr>cb_list := Some (fs @ new), firingLength := i\<rparr>) w)" for i by (rule stays_upd [OF ok]) (rule tame(2))
  let ?w2 = "upd l (\<lambda>c. c\<lparr>cb_list := Some (fs @ new), firingStart := int (length fs)\<rparr>) w"
  have "ends_ok w (run k (d_beh pf) (TFire l m) ?w2)" if m: "memory ?c = Some m" "\<not> firing ?c" for m
  proof (rule keeps_order_after [OF k])
    have s: "stays w ?w2" by (rule stays_upd [OF ok]) (rule tame(3), simp_all add: m)
    then show "can_run (TFire l m) ?w2" "persists w ?w2" by (simp_all add: can_run_def stays_def)
    show "wf_world ?w2"
      using wf_at [OF wf, of l] Some m(2) wf new(1) distinct_add_args [of fs args] by (auto simp: wf_world_def cb_wf_def)
    show "task_ok (TFire l m) ?w2" using m(2) by (simp add: task_ok_def)
  qed
  then have "ends_ok w (case memory ?c of None \<Rightarrow> Done (upd l (\<lambda>c. c\<lparr>cb_list := Some (fs @ new)\<rparr>) w) | Some m \<Rightarrow> run k (d_beh pf) (TFire l m) ?w2)"
    if "\<not> firing ?c" using that s1 by (cases "memory ?c") simp_all
  with s2 Some new(1) show ?thesis by (cases "memory ?c") (simp_all add: cb_add_def Let_def)
qed

lemma cb_fireWith_keeps:
  assumes k: "keeps_order pf k" and wf: "wf_world w" and ok: "deferreds_ok w"
  shows "ends_ok w (cb_fireWith (run k (d_beh pf)) l d w)"
proof -
  let ?c = "w_lists w l"
  have "ends_ok w (run k (d_beh pf) (TFire l d) w)" if "cb_list ?c \<noteq> None" "\<not> firing ?c"
    by (rule keeps_orderD [OF k wf]) (use that ok in \<open>simp_all add: task_ok_def can_run_def\<close>)
  moreover have "stays w (upd l (\<lambda>c. c\<lparr>stack := st\<rparr>) w)" for st by (rule stays_upd [OF ok]) (rule tame_cases(4) [OF ok refl])
  ultimately show ?thesis
    using ok by (cases "stack ?c") (simp_all add: cb_fireWith_def Let_def stays_refl)
qed

lemma own_op_keeps:
  assumes ok: "deferreds_ok w" and p: "own_op p w"
  shows "ends_ok w (run_op rec beh p w)"
proof -
  obtain n a where s: "settled n a w" and cases: "p = Ext (\<lambda>x. x\<lparr>dstate := (dstate x)(n := the (final_state a))\<rparr>) \<or>
      p = On (lst n (other a)) Disable \<or> p = On (lst n Notify) Lock" using p by (auto simp: own_op_def)
  have "(dstate (w_ext w))(n := the (final_state a)) = dstate (w_ext w)" using s by (auto simp: settled_def)
  then have 1: "stays w (w\<lparr>w_ext := (w_ext w)\<lparr>dstate := (dstate (w_ext w))(n := the (final_state a))\<rparr>\<rparr>)"
    by (intro stays_ext [OF ok]) simp
  have 2: "stays w (upd (lst n (other a)) cb_disable w)"
    by (rule stays_upd [OF ok]) (use s in \<open>simp add: tame_def settled_def cb_disable_def fns_ok_def\<close>)
  have 3: "stays w (upd (lst n Notify) cb_lock w)"
    by (rule stays_upd [OF ok]) (use lists_fns_ok [OF ok] in \<open>simp add: tame_def cb_lock_def cb_disable_def fns_ok_def Let_def\<close>)
  from cases 1 2 3 show ?thesis by (elim disjE) (simp_all add: run_op_def list_op_def)
qed

lemma run_op_keeps:
  assumes k: "keeps_order pf k" and wf: "wf_world w" and ok: "deferreds_ok w" and p: "public p"
  shows "ends_ok w (run_op (run k (d_beh pf)) (d_beh pf) p w)"
  using p
proof (cases rule: public.cases)
  case (1 args l)
  then show ?thesis using cb_add_keeps [OF k wf ok] by (simp add: run_op_def list_op_def)
next
  case (2 l d)
  then show ?thesis using cb_fireWith_keeps [OF k wf ok] by (simp add: run_op_def list_op_def)
next
  case (3 g)
  then show ?thesis using stays_ext [OF ok] by (simp add: run_op_def)
next
  case 4
  then show ?thesis using stays_refl [OF ok] by (simp add: run_op_def)
next
  case (5 h)
  have "ends_ok w (run k (d_beh pf) (TOps (h (w_ext w))) w)"
    by (rule keeps_orderD [OF k wf]) (use 5 ok in \<open>auto simp: can_run_def\<close>)
  with 5 show ?thesis by (simp add: run_op_def)
qed

lemma run_ops_keeps:
  assumes k: "keeps_order pf k" and wf: "wf_world w" and c: "can_run (TOps ps) w"
  shows "ends_ok w (run_ops (run k (d_beh pf)) ps w)"
proof (cases ps)
  case Nil
  with c show ?thesis by (simp add: run_ops_def can_run_def stays_refl)
next
  case (Cons p ps')
  let ?r = "run k (d_beh pf) (TOp p) w"
  have cp: "can_run (TOp p) w" "\<forall>q \<in> set ps'. public q" using c Cons by (auto simp: can_run_def)
  have e: "ends_ok w ?r" by (rule keeps_orderD [OF k wf task_ok_ops(2) cp(1)])
  have g: "good w ?r" by (rule sound_at [OF run_sound wf task_ok_ops(2)])
  have "ends_ok w (run k (d_beh pf) (TOps ps') w1)" if "?r = Done w1" for w1
    by (rule keeps_order_after [OF k]) (use that e g cp in \<open>auto simp: good_Done can_run_def stays_def\<close>)
  with Cons e show ?thesis by (auto simp: run_ops_def split: outcome.splits)
qed

lemma order_kept: "keeps_order pf k"
proof (induction k)
  case 0
  show ?case by (simp add: keeps_order_def)
next
  case (Suc k)
  show ?case unfolding keeps_order_def
  proof (intro allI impI)
    fix t and w :: "('a, 'b) dworld"
    assume "wf_world w" "task_ok t w" "can_run t w"
    then show "ends_ok w (run (Suc k) (d_beh pf) t w)"
      using fire_keeps [OF Suc] fire_loop_keeps [OF Suc] settling_step [OF Suc] run_op_keeps [OF Suc] own_op_keeps run_ops_keeps [OF Suc]
      by (cases t) (auto simp: can_run_def)
  qed
qed

section \<open>Making a deferred\<close>

definition new_list :: "action \<Rightarrow> dfn list \<Rightarrow> (dfn, 'd) cbs" where
  "new_list a fs =
     \<lparr>opt_once = (a \<noteq> Notify), opt_memory = True, opt_unique = False, opt_stopOnFalse = False, firing = False,
      memory = None, fired = False, firingLength = 0, firingIndex = 0, firingStart = 0,
      cb_list = Some fs, stack = (if a = Notify then Some [] else None)\<rparr>"

lemma memory_options: "new_cbs (snd (createOptions [] ''memory'')) = new_list Notify []"
proof -
  have "words ''memory'' = [''memory'']" by code_simp
  then show ?thesis by (simp add: createOptions_def new_cbs_def opt_def Let_def new_list_def)
qed

lemma unmade_list: "w_lists (unmade x) l = new_list (action_of l) []"
proof -
  have "w_lists (unmade x) l = new_cbs (snd (createOptions [] (flags (action_of l))))"
    by (simp add: unmade_def fresh_def Callbacks_def split: prod.split)
  then show ?thesis
    by (cases "action_of l") (simp_all add: once_memory_options memory_options, simp_all add: new_list_def)
qed

lemma made_list: "w_lists (made x) l = new_list (action_of l) (if action_of l = Notify then [] else internals (owner l) (action_of l))"
  by (cases "action_of l") (simp_all add: made_def unmade_list new_list_def)

lemma made_simps [simp]: "w_log (made x) = []" "dstate (w_ext (made x)) n = ''pending''" "page_ext (w_ext (made x)) = x"
  by (simp_all add: made_def unmade_def fresh_def)

lemmas eval_simps = run_numeral run_body_def run_ops_def run_op_def list_op_def cb_add_def cb_fireWith_def fire_def fire_loop_def
  after_loop_def begin_fire_def cb_disable_def cb_lock_def new_list_def Let_def internals_def d_beh_def d_ops_def call_pfn_def

text \<open>Running the set-up of a deferred on new lists makes it what \<open>made\<close> says.\<close>

lemma set_up_makes:
  assumes "20 \<le> k"
  shows "\<exists>w. run k (d_beh pf) (TOps (set_up n)) (unmade x) = Done w \<and> w_log w = [] \<and> w_ext w = w_ext (made x) \<and>
    (\<forall>l. w_lists w l = (if owner l = n then w_lists (made x) l else w_lists (unmade x) l))"
proof -
  define w :: "('a, 'b) dworld" where "w = upd (lst n Reject) (\<lambda>c. c\<lparr>cb_list := Some (internals n Reject)\<rparr>)
    (upd (lst n Resolve) (\<lambda>c. c\<lparr>cb_list := Some (internals n Resolve)\<rparr>) (unmade x))"
  have "run 20 (d_beh pf) (TOps (set_up n)) (unmade x) = Done w"
    by (simp add: run_numeral run_body_def set_up_def run_ops_def run_op_def list_op_def cb_add_def unmade_list new_list_def Let_def add_args_plain w_def)
  then have "run k (d_beh pf) (TOps (set_up n)) (unmade x) = Done w" by (rule run_more [OF _ _ assms]) simp
  moreover have "w_lists w l = (if owner l = n then w_lists (made x) l else w_lists (unmade x) l)" for l
    using lst_inverse(3) [of l] by (cases "action_of l") (auto simp: w_def made_list unmade_list new_list_def)
  ultimately show ?thesis by (auto simp: w_def made_def unmade_def fresh_def)
qed

lemma made_untouched: "action_of l \<noteq> Notify \<Longrightarrow> untouched l (made x)"
  by (simp add: untouched_def unlogged_def made_list new_list_def Let_def)

lemma made_ok: "deferreds_ok (made x :: ('v, 'x) dworld)"
proof -
  have "fns_ok l (cb_list (w_lists (made x :: ('v, 'x) dworld) l))" for l
    by (auto simp: fns_ok_def made_list new_list_def internals_def fn_ok_def)
  then show ?thesis by (simp add: deferreds_ok_def deferred_ok_def pending_def made_untouched)
qed

lemma made_wf: "wf_world (made x)"
  by (auto simp: wf_world_def cb_wf_def made_list new_list_def)

section \<open>The properties\<close>

definition page_run :: "nat \<Rightarrow> ('v, 'x) page_fns \<Rightarrow> ('v, 'x) dop list \<Rightarrow> ('v, 'x) dworld \<Rightarrow> ('v, 'x) dworld outcome" where
  "page_run k pf ps w = run k (d_beh pf) (TOps (concat (map compile ps))) w"

text \<open>A deferred whose lists have called nothing, and one that is settled, all its callbacks with the same data.\<close>

definition undecided :: "nat \<Rightarrow> ('v, 'x) dworld \<Rightarrow> bool" where
  "undecided n w \<longleftrightarrow> dstate (w_ext w) n = ''pending'' \<and> unlogged (lst n Resolve) w \<and> unlogged (lst n Reject) w"

definition decided :: "nat \<Rightarrow> action \<Rightarrow> ('v, 'x) dworld \<Rightarrow> bool" where
  "decided n a w \<longleftrightarrow> dstate (w_ext w) n = the (final_state a) \<and> unlogged (lst n (other a)) w \<and>
     (\<exists>d. \<forall>f e. (lst n a, f, e) \<in> set (w_log w) \<longrightarrow> e = d)"

definition run_state :: "('v, 'x) dworld \<Rightarrow> bool" where
  "run_state w \<longleftrightarrow> wf_world w \<and> deferreds_ok w \<and> (\<forall>l. action_of l \<noteq> Notify \<longrightarrow> once_state l w)"

lemma run_state_made: "run_state (made x)"
  by (auto simp: run_state_def made_wf made_ok once_state_def unfired_def made_list new_list_def)

lemma page_can_run: "run_state w \<Longrightarrow> can_run (TOps (concat (map compile ps))) w"
  by (auto simp: can_run_def run_state_def intro: public_compile)

lemma run_state_run:
  assumes "run_state w" "page_run k pf ps w = Done w'"
  shows "run_state w' \<and> persists w w'"
proof -
  have wf: "wf_world w" using assms(1) by (simp add: run_state_def)
  have "ends_ok w (Done w')"
    using keeps_orderD [OF order_kept wf task_ok_ops(1) page_can_run [OF assms(1)], of k pf ps] assms(2) by (simp add: page_run_def)
  moreover have "good w (Done w')"
    using sound_at [OF run_sound wf task_ok_ops(1)] assms(2) unfolding page_run_def by metis
  moreover have "once_state l w'" if "action_of l \<noteq> Notify" for l
    by (rule once_kept.run_ops_keep [OF wf _ assms(2) [unfolded page_run_def]]) (use assms(1) that in \<open>simp add: run_state_def\<close>)
  ultimately show ?thesis by (simp add: run_state_def good_Done stays_def)
qed

lemma run_state_decided:
  assumes "run_state w"
  shows "undecided n w \<and> pending n w \<or> (\<exists>a \<in> {Resolve, Reject}. decided n a w \<and> settled n a w)"
proof -
  have "deferred_ok n w" using assms by (simp add: run_state_def deferreds_ok_def)
  then show ?thesis unfolding deferred_ok_def
  proof
    assume "pending n w"
    then show ?thesis by (simp add: undecided_def pending_def untouched_def Let_def)
  next
    assume "\<exists>a. settled n a w"
    then obtain a where a: "settled n a w" by auto
    then have n: "a \<noteq> Notify" by (simp add: settled_def)
    then have "once_state (lst n a) w" using assms by (simp add: run_state_def)
    then have "\<exists>d. \<forall>f e. (lst n a, f, e) \<in> set (w_log w) \<longrightarrow> e = d"
      by (auto simp: once_state_def once_data_def unfired_def)
    then have "decided n a w" using a by (simp add: decided_def settled_def)
    then show ?thesis using a n by (cases a) auto
  qed
qed

text \<open>
  C31: A deferred settles at most once, whatever the functions of the page do, in their turn settling
  deferreds and adding callbacks: it is pending, and then none of its done and fail callbacks has
  been called, or it is resolved or rejected, and then no callback of the other kind has been called
  or ever will be, and all of its kind with the same context and arguments; and what a program has
  settled no later one changes.
\<close>

theorem deferred_settles_once:
  fixes pf :: "('v, 'x) page_fns"
  assumes "page_run k pf ps (made x) = Done w" "page_run j pf qs w = Done w'"
  shows "(undecided n w' \<or> decided n Resolve w' \<or> decided n Reject w') \<and>
    (undecided n w \<or> dstate (w_ext w') n = dstate (w_ext w) n)"
proof -
  have 1: "run_state w" using run_state_run [OF run_state_made assms(1)] by simp
  have 2: "run_state w'" "persists w w'" using run_state_run [OF 1 assms(2)] by simp_all
  have "dstate (w_ext w') n = dstate (w_ext w) n" if d: "\<not> undecided n w"
  proof -
    obtain a where a: "settled n a w" using d run_state_decided [OF 1, of n] by auto
    then have "settled n a w'" using 2(2) by (simp add: persists_def)
    with a show ?thesis by (simp add: settled_def)
  qed
  then show ?thesis using run_state_decided [OF 2(1), of n] by auto
qed

text \<open>A page whose first function rejects deferred 0 and resolves deferred 1, for the witness.\<close>

definition busy_page :: "(nat, unit) page_fns" where
  "busy_page w k this args = ([Settle 0 Reject (Deferred 0) [Val k], Settle 1 Resolve this args], Undef)"

theorem deferred_settles_once_witness:
  "\<exists>w w'. page_run 40 busy_page [AddTo 0 Resolve [AFun (Page 0)], Settle 0 Resolve (Deferred 0) [Val 7]] (made ()) = Done w \<and>
    page_run 40 busy_page [Settle 1 Reject (Deferred 1) []] w = Done w' \<and>
    (undecided 1 w' \<or> decided 1 Resolve w' \<or> decided 1 Reject w') \<and> dstate (w_ext w') 1 = ''resolved''"
proof -
  let ?ps = "[AddTo 0 Resolve [AFun (Page 0)], Settle 0 Resolve (Deferred 0) [Val 7]] :: (nat, unit) dop list"
  let ?qs = "[Settle 1 Reject (Deferred 1) []] :: (nat, unit) dop list"
  have ev: "\<exists>w w'. page_run 40 busy_page ?ps (made ()) = Done w \<and> page_run 40 busy_page ?qs w = Done w' \<and> dstate (w_ext w) 1 = ''resolved''"
    by (simp add: page_run_def compile_def fireFn_def busy_page_def eval_simps made_list)
  then obtain w w' where w: "page_run 40 busy_page ?ps (made ()) = Done w" "page_run 40 busy_page ?qs w = Done w'" "dstate (w_ext w) 1 = ''resolved''"
    by (elim exE conjE)
  from deferred_settles_once [OF w(1,2), of 1] w show ?thesis
    by (intro exI [of _ w] exI [of _ w']) (auto simp: undecided_def)
qed

text \<open>A deferred that is new: pending, with nothing in its lists but what it added itself.\<close>

definition start_fns :: "nat \<Rightarrow> action \<Rightarrow> dfn list" where
  "start_fns n a = (if a = Notify then [] else internals n a)"

definition has_fns :: "nat \<Rightarrow> (action \<Rightarrow> dfn list) \<Rightarrow> ('v, 'x) dworld \<Rightarrow> bool" where
  "has_fns n fs w \<longleftrightarrow> (\<forall>a. w_lists w (lst n a) = new_list a (fs a))"

definition new_deferred :: "nat \<Rightarrow> ('v, 'x) dworld \<Rightarrow> bool" where
  "new_deferred n w \<longleftrightarrow> dstate (w_ext w) n = ''pending'' \<and> has_fns n (start_fns n) w"

lemma new_deferredD: "new_deferred n w \<Longrightarrow> w_lists w (lst n a) = new_list a (if a = Notify then [] else internals n a)"
  "new_deferred n w \<Longrightarrow> dstate (w_ext w) n = ''pending''"
  by (simp_all add: new_deferred_def has_fns_def start_fns_def)

lemma new_deferred_made: "new_deferred n (made x)"
  by (simp add: new_deferred_def has_fns_def start_fns_def made_list)

text \<open>Settling a deferred that another one follows.\<close>

lemma settle_linked:
  assumes "p \<noteq> m" "b \<noteq> Notify" "w_lists w (lst p b) = new_list b (internals p b @ [Call (FireFn m b)])"
    and "w_lists w (lst m b) = new_list b (internals m b)"
  shows "\<exists>w'. page_run 40 pf [SettleWith p b c args] w = Done w' \<and>
    dstate (w_ext w') m = the (final_state b) \<and>
    memory (w_lists w' (lst m b)) = Some (if c = Deferred m then Promise m else c, args)"
  using assms by (cases b) (simp_all add: page_run_def compile_def fireFn_def eval_simps)

text \<open>The two orders: \<open>then\<close> before the settling, and after it.\<close>

definition then_settle :: "bool \<Rightarrow> nat \<Rightarrow> nat \<Rightarrow> (action \<Rightarrow> pfn option) \<Rightarrow> action \<Rightarrow> 'v val \<Rightarrow> 'v val list \<Rightarrow> ('v, 'x) dop list" where
  "then_settle late n m fns a c args =
     (if late then [SettleWith n a c args, Then n m fns] else [Then n m fns, SettleWith n a c args])"

lemma then_plain_early:
  fixes pf :: "('v, 'x) page_fns"
  assumes "n \<noteq> m" "a \<noteq> Notify" "new_deferred n w0" "new_deferred m w0"
    and "fns a = None"
  shows "\<exists>w. page_run 40 pf (then_settle False n m fns a c args) w0 = Done w \<and>
    dstate (w_ext w) n = the (final_state a) \<and> dstate (w_ext w) m = the (final_state a) \<and>
    memory (w_lists w (lst m a)) = Some (if c = Promise n then Promise m else c, args)"
proof -
  note ev = page_run_def compile_def then_ops_def fireFn_def eval_simps then_settle_def
    new_deferredD [OF assms(3)] new_deferredD [OF assms(4)]
  from assms(1,2,5) show ?thesis by (cases a) (simp_all add: ev)
qed

lemma then_value_early:
  fixes pf :: "('v, 'x) page_fns"
  assumes "n \<noteq> m" "a \<noteq> Notify" "new_deferred n w0" "new_deferred m w0"
    and "fns a = Some (Page f)" "\<And>w. pf w f c args = ([], v)" "promise_of v = None"
  shows "\<exists>w. page_run 40 pf (then_settle False n m fns a c args) w0 = Done w \<and>
    dstate (w_ext w) n = the (final_state a) \<and> dstate (w_ext w) m = the (final_state a) \<and>
    memory (w_lists w (lst m a)) = Some (if c = Promise n then Promise m else c, [v])"
proof -
  note ev = page_run_def compile_def then_ops_def fireFn_def eval_simps then_settle_def
    new_deferredD [OF assms(3)] new_deferredD [OF assms(4)]
  from assms(1,2,5-7) show ?thesis by (cases a) (simp_all add: ev)
qed

lemma then_following_early:
  fixes pf :: "('v, 'x) page_fns"
  assumes "n \<noteq> m" "a \<noteq> Notify" "new_deferred n w0" "new_deferred m w0"
    and "new_deferred p w0"
    and "fns a = Some (Page f)" "\<And>w. pf w f c args = ([], v)" "promise_of v = Some p" "p \<noteq> n" "p \<noteq> m" "b \<noteq> Notify"
  shows "\<exists>w. page_run 40 pf (then_settle False n m fns a c args) w0 = Done w \<and>
    dstate (w_ext w) n = the (final_state a) \<and> dstate (w_ext w) m = ''pending'' \<and>
    w_lists w (lst p b) = new_list b (internals p b @ [Call (FireFn m b)]) \<and> w_lists w (lst m b) = new_list b (internals m b)"
proof -
  note ev = page_run_def compile_def then_ops_def fireFn_def follow_def eval_simps then_settle_def
    new_deferredD [OF assms(3)] new_deferredD [OF assms(4)] new_deferredD [OF assms(5)]
  from assms(1,2,6-11) show ?thesis by (cases a; cases b) (simp_all add: ev)
qed

lemma then_plain_late:
  fixes pf :: "('v, 'x) page_fns"
  assumes "n \<noteq> m" "a \<noteq> Notify" "new_deferred n w0" "new_deferred m w0"
    and "fns a = None"
  shows "\<exists>w. page_run 40 pf (then_settle True n m fns a c args) w0 = Done w \<and>
    dstate (w_ext w) n = the (final_state a) \<and> dstate (w_ext w) m = the (final_state a) \<and>
    memory (w_lists w (lst m a)) = Some (if c = Promise n then Promise m else c, args)"
proof -
  note ev = page_run_def compile_def then_ops_def fireFn_def eval_simps then_settle_def
    new_deferredD [OF assms(3)] new_deferredD [OF assms(4)]
  from assms(1,2,5) show ?thesis by (cases a) (simp_all add: ev)
qed

lemma then_value_late:
  fixes pf :: "('v, 'x) page_fns"
  assumes "n \<noteq> m" "a \<noteq> Notify" "new_deferred n w0" "new_deferred m w0"
    and "fns a = Some (Page f)" "\<And>w. pf w f c args = ([], v)" "promise_of v = None"
  shows "\<exists>w. page_run 40 pf (then_settle True n m fns a c args) w0 = Done w \<and>
    dstate (w_ext w) n = the (final_state a) \<and> dstate (w_ext w) m = the (final_state a) \<and>
    memory (w_lists w (lst m a)) = Some (if c = Promise n then Promise m else c, [v])"
proof -
  note ev = page_run_def compile_def then_ops_def fireFn_def eval_simps then_settle_def
    new_deferredD [OF assms(3)] new_deferredD [OF assms(4)]
  from assms(1,2,5-7) show ?thesis by (cases a) (simp_all add: ev)
qed

lemma then_following_late:
  fixes pf :: "('v, 'x) page_fns"
  assumes "n \<noteq> m" "a \<noteq> Notify" "new_deferred n w0" "new_deferred m w0"
    and "new_deferred p w0"
    and "fns a = Some (Page f)" "\<And>w. pf w f c args = ([], v)" "promise_of v = Some p" "p \<noteq> n" "p \<noteq> m" "b \<noteq> Notify"
  shows "\<exists>w. page_run 40 pf (then_settle True n m fns a c args) w0 = Done w \<and>
    dstate (w_ext w) n = the (final_state a) \<and> dstate (w_ext w) m = ''pending'' \<and>
    w_lists w (lst p b) = new_list b (internals p b @ [Call (FireFn m b)]) \<and> w_lists w (lst m b) = new_list b (internals m b)"
proof -
  note ev = page_run_def compile_def then_ops_def fireFn_def follow_def eval_simps then_settle_def
    new_deferredD [OF assms(3)] new_deferredD [OF assms(4)] new_deferredD [OF assms(5)]
  from assms(1,2,6-11) show ?thesis by (cases a; cases b) (simp_all add: ev)
qed

text \<open>
  C32: \<open>then\<close>, called before or after its deferred settles, forwards the settling, with any context
  and arguments, to the new deferred. Without a function for it, the new one is settled in the same
  way, with the same arguments. With one, the function gets the context and the arguments, and its
  result (\<open>g\<close> of both) decides: a plain value settles the new deferred in the same way with that
  value, also after a rejection; a deferred or a promise leaves the new one pending until that one
  settles, and then it is settled as that one is, with its context and arguments. The promise of the
  old deferred as the context becomes that of the new one. Conditions: the deferreds are distinct and
  new (those of the rest of the page in any state), the function does nothing else, and the fuel is
  at least 40 calls.
\<close>

theorem then_forwards:
  fixes pf :: "('v, 'x) page_fns"
  assumes "n \<noteq> m" "a \<noteq> Notify" "new_deferred n w0" "new_deferred m w0"
    and fn: "\<And>h. fns a = Some h \<Longrightarrow> \<exists>f. h = Page f \<and> (\<forall>w this args. pf w f this args = ([], g this args))"
    and follows: "\<And>p. fns a \<noteq> None \<Longrightarrow> promise_of (g c args) = Some p \<Longrightarrow> p \<noteq> n \<and> p \<noteq> m \<and> new_deferred p w0"
    and "b \<noteq> Notify" and k: "40 \<le> k"
  shows "\<exists>w. page_run k pf (then_settle late n m fns a c args) w0 = Done w \<and>
    dstate (w_ext w) n = the (final_state a) \<and>
    (case (if fns a = None then None else promise_of (g c args)) of
       None \<Rightarrow> dstate (w_ext w) m = the (final_state a) \<and>
         memory (w_lists w (lst m a)) =
           Some (if c = Promise n then Promise m else c, if fns a = None then args else [g c args])
     | Some p \<Rightarrow> dstate (w_ext w) m = ''pending'' \<and>
         (\<exists>w'. page_run k pf [SettleWith p b c' args'] w = Done w' \<and> dstate (w_ext w') m = the (final_state b) \<and>
            memory (w_lists w' (lst m b)) = Some (if c' = Deferred m then Promise m else c', args')))"
proof -
  have more: "page_run k pf ps w = Done w'" if "page_run 40 pf ps w = Done w'" for ps and w w' :: "('v, 'x) dworld"
    using run_more [OF that [unfolded page_run_def] _ k] by (simp add: page_run_def)
  show ?thesis
  proof (cases "if fns a = None then None else promise_of (g c args)")
    case None
    have "\<exists>w. page_run 40 pf (then_settle late n m fns a c args) w0 = Done w \<and>
        dstate (w_ext w) n = the (final_state a) \<and> dstate (w_ext w) m = the (final_state a) \<and>
        memory (w_lists w (lst m a)) = Some (if c = Promise n then Promise m else c, if fns a = None then args else [g c args])"
    proof (cases "fns a")
      case None
      with then_plain_early [OF assms(1-4)] then_plain_late [OF assms(1-4)] show ?thesis by (cases late) simp_all
    next
      case (Some h)
      with fn obtain f where f: "fns a = Some (Page f)" "\<And>w. pf w f c args = ([], g c args)" by fastforce
      have "promise_of (g c args) = None" using None Some by simp
      with then_value_early [where pf = pf and fns = fns and f = f and v = "g c args", OF assms(1-4) f] then_value_late [where pf = pf and fns = fns and f = f and v = "g c args", OF assms(1-4) f] Some show ?thesis by (cases late) simp_all
    qed
    then obtain w where "page_run 40 pf (then_settle late n m fns a c args) w0 = Done w"
      "dstate (w_ext w) n = the (final_state a)" "dstate (w_ext w) m = the (final_state a)"
      "memory (w_lists w (lst m a)) = Some (if c = Promise n then Promise m else c, if fns a = None then args else [g c args])"
      by (elim exE conjE)
    with more None show ?thesis by (intro exI [of _ w]) simp
  next
    case (Some p)
    then obtain h where h: "fns a = Some h" and p: "promise_of (g c args) = Some p" by (auto split: if_splits)
    with fn obtain f where f: "fns a = Some (Page f)" "\<And>w. pf w f c args = ([], g c args)" by fastforce
    have p': "p \<noteq> n" "p \<noteq> m" "new_deferred p w0" using follows [OF _ p] h by simp_all
    have "\<exists>w. page_run 40 pf (then_settle late n m fns a c args) w0 = Done w \<and>
        dstate (w_ext w) n = the (final_state a) \<and> dstate (w_ext w) m = ''pending'' \<and>
        w_lists w (lst p b) = new_list b (internals p b @ [Call (FireFn m b)]) \<and> w_lists w (lst m b) = new_list b (internals m b)"
      using then_following_early [where pf = pf and fns = fns and f = f and v = "g c args", OF assms(1-4) p'(3) f p p'(1,2) assms(7)]
        then_following_late [where pf = pf and fns = fns and f = f and v = "g c args", OF assms(1-4) p'(3) f p p'(1,2) assms(7)] by (cases late) simp_all
    then obtain w where
      w: "page_run 40 pf (then_settle late n m fns a c args) w0 = Done w"
      "dstate (w_ext w) n = the (final_state a)" "dstate (w_ext w) m = ''pending''"
      "w_lists w (lst p b) = new_list b (internals p b @ [Call (FireFn m b)])" "w_lists w (lst m b) = new_list b (internals m b)"
      by (elim exE conjE)
    from settle_linked [OF p'(2) assms(7) w(4,5), of pf c' args'] obtain w' where
      w': "page_run 40 pf [SettleWith p b c' args'] w = Done w'" "dstate (w_ext w') m = the (final_state b)"
        "memory (w_lists w' (lst m b)) = Some (if c' = Deferred m then Promise m else c', args')" by (elim exE conjE)
    show ?thesis using Some w(2,3) more [OF w(1)] more [OF w'(1)] w'(2,3) by (intro exI [of _ w]) simp
  qed
qed

text \<open>
  A function that returns its arguments with its context in front, after the settling; and one that
  returns a promise, before it.
\<close>

theorem then_forwards_witness:
  "(\<exists>w. page_run 40 (\<lambda>_ _ this args. ([], Arr (this # args))) (then_settle True 0 1 (\<lambda>_. Some (Page 0)) Reject (Promise 0) [Val (7 :: nat)])
       (made ()) = Done w \<and>
     dstate (w_ext w) 1 = ''rejected'' \<and> memory (w_lists w (lst 1 Reject)) = Some (Promise 1, [Arr [Promise 0, Val 7]])) \<and>
   (\<exists>w. page_run 40 (\<lambda>_ _ _ _. ([], Promise 2)) (then_settle False 0 1 (\<lambda>_. Some (Page 0)) Resolve Undef [Val (7 :: nat)]) (made ()) = Done w \<and>
     dstate (w_ext w) 0 = ''resolved'' \<and> dstate (w_ext w) 1 = ''pending'' \<and>
     (\<exists>w'. page_run 40 (\<lambda>_ _ _ _. ([], Promise 2)) [SettleWith 2 Reject (Val 9) [Val 8]] w = Done w' \<and>
        dstate (w_ext w') 1 = ''rejected'' \<and> memory (w_lists w' (lst 1 Reject)) = Some (Val 9, [Val 8])))"
proof (intro conjI)
  let ?pf = "\<lambda>_ _ this args. ([], Arr (this # args)) :: (nat, unit) dop list \<times> nat val"
  have 1: "(0 :: nat) \<noteq> 1" "Reject \<noteq> Notify" "Resolve \<noteq> Notify" "(40 :: nat) \<le> 40" by simp_all
  have pf: "\<exists>f. h = Page f \<and> (\<forall>w this args. ?pf w f this args = ([], Arr (this # args)))" if "Some (Page 0) = Some h" for h
    using that by auto
  show "\<exists>w. page_run 40 ?pf (then_settle True 0 1 (\<lambda>_. Some (Page 0)) Reject (Promise 0) [Val (7 :: nat)]) (made ()) = Done w \<and>
     dstate (w_ext w) 1 = ''rejected'' \<and> memory (w_lists w (lst 1 Reject)) = Some (Promise 1, [Arr [Promise 0, Val 7]])"
    using then_forwards [where pf = ?pf and fns = "\<lambda>_. Some (Page 0)" and g = "\<lambda>this args. Arr (this # args)" and late = True
        and c = "Promise 0" and args = "[Val 7]", OF 1(1,2) new_deferred_made new_deferred_made pf _ 1(3,4)]
    by (auto simp: promise_of_def)
next
  let ?pf = "\<lambda>_ _ _ _. ([], Promise 2) :: (nat, unit) dop list \<times> nat val"
  have 1: "(0 :: nat) \<noteq> 1" "Reject \<noteq> Notify" "Resolve \<noteq> Notify" "(40 :: nat) \<le> 40" by simp_all
  have pf: "\<exists>f. h = Page f \<and> (\<forall>w this args. ?pf w f this args = ([], Promise 2))" if "Some (Page 0) = Some h" for h
    using that by auto
  have p: "q \<noteq> 0 \<and> q \<noteq> 1 \<and> new_deferred q (made ())" if "promise_of (Promise 2 :: nat val) = Some q" for q
    using that by (auto simp: promise_of_def new_deferred_made)
  show "\<exists>w. page_run 40 ?pf (then_settle False 0 1 (\<lambda>_. Some (Page 0)) Resolve Undef [Val (7 :: nat)]) (made ()) = Done w \<and>
     dstate (w_ext w) 0 = ''resolved'' \<and> dstate (w_ext w) 1 = ''pending'' \<and>
     (\<exists>w'. page_run 40 ?pf [SettleWith 2 Reject (Val 9) [Val 8]] w = Done w' \<and>
        dstate (w_ext w') 1 = ''rejected'' \<and> memory (w_lists w' (lst 1 Reject)) = Some (Val 9, [Val 8]))"
    using then_forwards [where pf = ?pf and fns = "\<lambda>_. Some (Page 0)" and g = "\<lambda>_ _. Promise 2" and late = False and b = Reject
        and c = Undef and args = "[Val 7]" and c' = "Val 9" and args' = "[Val 8]",
        OF 1(1,3) new_deferred_made new_deferred_made pf p 1(2,4)]
    by (simp add: promise_of_def)
qed

section \<open>Several deferreds at once\<close>

definition subs :: "'v val list \<Rightarrow> nat set" where
  "subs vs = {i. i < length vs \<and> promise_of (vs ! i) \<noteq> None}"

definition sub :: "'v val list \<Rightarrow> nat \<Rightarrow> nat" where
  "sub vs i = the (promise_of (vs ! i))"

text \<open>The lists of a subordinate that waits, of the call \<open>wn\<close> of \<open>when\<close> with the master \<open>m\<close>.\<close>

definition waiting_fns :: "nat \<Rightarrow> nat \<Rightarrow> nat \<Rightarrow> nat \<Rightarrow> action \<Rightarrow> dfn list" where
  "waiting_fns wn m k i a = (case a of
     Resolve \<Rightarrow> internals k Resolve @ [Gather wn i False]
   | Reject \<Rightarrow> internals k Reject @ [Call (FireFn m Reject)]
   | Notify \<Rightarrow> [Gather wn i True])"

text \<open>The call has met the first \<open>j\<close> arguments.\<close>

definition collecting :: "nat \<Rightarrow> nat \<Rightarrow> 'v val list \<Rightarrow> nat \<Rightarrow> ('v, 'x) dworld \<Rightarrow> bool" where
  "collecting wn m vs j w \<longleftrightarrow>
     remaining (whens (w_ext w) wn) = int (card (subs vs)) + int (card ({j..<length vs} - subs vs)) \<and>
     master (whens (w_ext w) wn) = m \<and> resolveValues (whens (w_ext w) wn) = vs \<and>
     dstate (w_ext w) = (\<lambda>_. ''pending'') \<and>
     (\<forall>i \<in> subs vs. i < j \<longrightarrow> has_fns (sub vs i) (waiting_fns wn m (sub vs i) i) w) \<and>
     (\<forall>n. n \<notin> sub vs ` {i \<in> subs vs. i < j} \<longrightarrow> has_fns n (start_fns n) w)"

lemma add_one:
  assumes "w_lists w l = new_list a fs"
  shows "run_op rec beh (On l (Add [AFun f])) w = Done (upd l (\<lambda>c. c\<lparr>cb_list := Some (fs @ [f])\<rparr>) w)"
  using assms by (simp add: run_op_def list_op_def cb_add_def new_list_def Let_def)

lemma has_fns_upd:
  "has_fns n fs w \<Longrightarrow> owner l \<noteq> n \<Longrightarrow> has_fns n fs (upd l g w)"
  by (auto simp: has_fns_def)

lemma subordinate_run:
  assumes inj: "inj_on (sub vs) (subs vs)" and j: "j < length vs" and c: "collecting wn m vs j w"
  shows "\<exists>w'. run 5 beh (TOps (subordinate wn m j (vs ! j))) w = Done w' \<and> collecting wn m vs (Suc j) w'"
proof (cases "promise_of (vs ! j)")
  case None
  then have n: "j \<notin> subs vs" by (simp add: subs_def)
  define w' where "w' = w\<lparr>w_ext := upd_when wn (\<lambda>g. g\<lparr>remaining := remaining g - 1\<rparr>) (w_ext w)\<rparr>"
  have "{j..<length vs} - subs vs = insert j ({Suc j..<length vs} - subs vs)" using j n by auto
  then have "card ({j..<length vs} - subs vs) = Suc (card ({Suc j..<length vs} - subs vs))" by simp
  moreover have "{i \<in> subs vs. i < Suc j} = {i \<in> subs vs. i < j}" using n by (auto simp: less_Suc_eq)
  moreover have "i < j" if "i \<in> subs vs" "i < Suc j" for i using that n by (metis less_antisym)
  ultimately have "collecting wn m vs (Suc j) w'"
    using c by (simp add: collecting_def w'_def upd_when_def has_fns_def)
  moreover have "run 5 beh (TOps (subordinate wn m j (vs ! j))) w = Done w'"
    by (simp add: subordinate_def None run_numeral run_body_def run_ops_def run_op_def w'_def)
  ultimately show ?thesis by blast
next
  case (Some k)
  then have s: "j \<in> subs vs" "sub vs j = k" using j by (simp_all add: subs_def sub_def)
  have old: "k \<notin> sub vs ` {i \<in> subs vs. i < j}" using inj s by (auto dest: inj_onD)
  then have k: "w_lists w (lst k a) = new_list a (start_fns k a)" for a using c by (simp add: collecting_def has_fns_def)
  define w' where "w' = upd (lst k Notify) (\<lambda>c. c\<lparr>cb_list := Some (waiting_fns wn m k j Notify)\<rparr>)
    (upd (lst k Reject) (\<lambda>c. c\<lparr>cb_list := Some (waiting_fns wn m k j Reject)\<rparr>)
    (upd (lst k Resolve) (\<lambda>c. c\<lparr>cb_list := Some (waiting_fns wn m k j Resolve)\<rparr>) w))"
  have "run 5 beh (TOps (subordinate wn m j (vs ! j))) w = Done w'"
    by (simp add: subordinate_def Some run_numeral run_body_def run_ops_def add_one k w'_def start_fns_def waiting_fns_def)
  moreover have "collecting wn m vs (Suc j) w'"
  proof -
    have new: "has_fns k (waiting_fns wn m k j) w'"
      unfolding has_fns_def
    proof
      show "w_lists w' (lst k a) = new_list a (waiting_fns wn m k j a)" for a
        by (cases a) (simp_all add: w'_def k new_list_def)
    qed
    have same: "has_fns n fs w \<Longrightarrow> n \<noteq> k \<Longrightarrow> has_fns n fs w'" for n fs
      by (simp add: w'_def has_fns_upd)
    have "{j..<length vs} - subs vs = {Suc j..<length vs} - subs vs" using s(1) by (auto simp: order_le_less Suc_le_eq)
    moreover have "has_fns (sub vs i) (waiting_fns wn m (sub vs i) i) w'" if "i \<in> subs vs" "i < Suc j" for i
    proof (cases "i = j")
      case True
      with new s show ?thesis by simp
    next
      case False
      with that(2) have i: "i < j" by simp
      then have "sub vs i \<noteq> k" using that(1) old by auto
      then show ?thesis using same c that(1) i by (simp add: collecting_def)
    qed
    moreover have "has_fns n (start_fns n) w'" if "n \<notin> sub vs ` {i \<in> subs vs. i < Suc j}" for n
    proof -
      have "n \<noteq> k" using that s by auto
      moreover have "n \<notin> sub vs ` {i \<in> subs vs. i < j}" using that by auto
      ultimately show ?thesis using same c by (simp add: collecting_def)
    qed
    moreover have "w_ext w' = w_ext w" by (simp add: w'_def)
    ultimately show ?thesis using c by (simp add: collecting_def)
  qed
  ultimately show ?thesis by blast
qed

lemma collect_all:
  assumes inj: "inj_on (sub vs) (subs vs)" and "j \<le> length vs" "collecting wn m vs j w"
  shows "\<exists>w'. run (5 * (length vs - j) + 1) beh (TOps (concat (map (\<lambda>(i, v). subordinate wn m i v) (enumerate j (drop j vs))))) w = Done w' \<and>
    collecting wn m vs (length vs) w'"
  using assms(2,3)
proof (induction "length vs - j" arbitrary: j w)
  case 0
  then show ?case by (auto simp: run_ops_def)
next
  case (Suc d)
  then have j: "j < length vs" and d: "d = length vs - Suc j" by simp_all
  obtain w1 where w1: "run 5 beh (TOps (subordinate wn m j (vs ! j))) w = Done w1" "collecting wn m vs (Suc j) w1"
    using subordinate_run [OF inj j Suc.prems(2)] by blast
  obtain w2 where w2: "run (5 * (length vs - Suc j) + 1) beh
      (TOps (concat (map (\<lambda>(i, v). subordinate wn m i v) (enumerate (Suc j) (drop (Suc j) vs))))) w1 = Done w2" "collecting wn m vs (length vs) w2"
    using Suc.hyps(1) [OF d _ w1(2)] j by (auto simp del: run.simps)
  have "drop j vs = vs ! j # drop (Suc j) vs" using j by (simp add: Cons_nth_drop_Suc)
  then have eq: "concat (map (\<lambda>(i, v). subordinate wn m i v) (enumerate j (drop j vs))) =
    subordinate wn m j (vs ! j) @ concat (map (\<lambda>(i, v). subordinate wn m i v) (enumerate (Suc j) (drop (Suc j) vs)))" by simp
  have "5 + (5 * (length vs - Suc j) + 1) \<le> 5 * (length vs - j) + 1" using j by simp
  from run_append [OF w1(1) w2(1) this] w2(2) show ?case unfolding eq by blast
qed

text \<open>The subordinates in \<open>D\<close> have been resolved, subordinate \<open>i\<close> with the arguments \<open>args i\<close>.\<close>

definition gathered :: "nat \<Rightarrow> nat \<Rightarrow> 'v val list \<Rightarrow> (nat \<Rightarrow> 'v val list) \<Rightarrow> nat set \<Rightarrow> ('v, 'x) dworld \<Rightarrow> bool" where
  "gathered wn m vs args D w \<longleftrightarrow>
     D \<subseteq> subs vs \<and> remaining (whens (w_ext w) wn) = int (card (subs vs - D)) \<and> master (whens (w_ext w) wn) = m \<and>
     resolveValues (whens (w_ext w) wn) = map (\<lambda>i. if i \<in> D then slot (args i) else vs ! i) [0..<length vs] \<and>
     dstate (w_ext w) m = ''pending'' \<and> has_fns m (start_fns m) w \<and>
     (\<forall>i \<in> subs vs - D. has_fns (sub vs i) (waiting_fns wn m (sub vs i) i) w)"

definition combined :: "nat \<Rightarrow> nat \<Rightarrow> 'v val list \<Rightarrow> (nat \<Rightarrow> 'v val list) \<Rightarrow> ('v, 'x) dworld \<Rightarrow> bool" where
  "combined wn m vs args w \<longleftrightarrow> dstate (w_ext w) m = ''resolved'' \<and>
     memory (w_lists w (lst m Resolve)) =
       Some (Contexts wn False, map (\<lambda>i. if i \<in> subs vs then slot (args i) else vs ! i) [0..<length vs])"

lemma finite_subs [simp]: "finite (subs vs)"
  by (simp add: subs_def)

lemma when_run:
  assumes inj: "inj_on (sub vs) (subs vs)" and m: "m \<notin> sub vs ` subs vs" and len: "1 < length vs" and k: "5 * length vs + 30 \<le> k"
  shows "\<exists>w. page_run k pf [When wn m vs] (made x) = Done w \<and>
    (if subs vs = {} then combined wn m vs args w else gathered wn m vs args {} w)"
proof -
  let ?w0 = "(made x)\<lparr>w_ext := upd_when wn (\<lambda>g. \<lparr>remaining = int (length vs), master = m, progressValues = replicate (length vs) Undef,
    resolveValues = vs, progressContexts = replicate (length vs) Undef, resolveContexts = replicate (length vs) Undef\<rparr>) (w_ext (made x))\<rparr>"
  let ?subs = "concat (map (\<lambda>(i, v). subordinate wn m i v) (enumerate 0 vs))"
  let ?final = "[Dyn (\<lambda>x. if remaining (whens x wn) = 0 then [On (lst m Resolve) (FireWith (Contexts wn False, resolveValues (whens x wn)))] else [])]"
  let ?first = "Ext (upd_when wn (\<lambda>g. \<lparr>remaining = int (length vs), master = m, progressValues = replicate (length vs) Undef,
    resolveValues = vs, progressContexts = replicate (length vs) Undef, resolveContexts = replicate (length vs) Undef\<rparr>))"
  have ops: "concat (map compile [When wn m vs]) = [?first] @ ?subs @ ?final"
    using len by (simp add: compile_def jq_when_def Let_def)
  have pr: "page_run k pf [When wn m vs] (made x) = run k (d_beh pf) (TOps ([?first] @ ?subs @ ?final)) (made x)"
    unfolding page_run_def ops by (rule refl)
  have one: "run 2 (d_beh pf) (TOps [?first]) (made x) = Done ?w0" by (simp add: run_numeral run_body_def run_ops_def run_op_def)
  have "card (subs vs) + card ({0..<length vs} - subs vs) = length vs"
    using card_Un_disjoint [of "subs vs" "{0..<length vs} - subs vs"] by (simp add: Un_absorb1 subs_def subset_iff)
  then have "collecting wn m vs 0 ?w0"
    by (auto simp: collecting_def upd_when_def has_fns_def made_list start_fns_def simp flip: of_nat_add)
  with collect_all [OF inj, of 0 wn m ?w0 "d_beh pf"] obtain w where
    w: "run (5 * length vs + 1) (d_beh pf) (TOps ?subs) ?w0 = Done w" "collecting wn m vs (length vs) w" by auto
  have le: "2 + (5 * length vs + 1 + 20) \<le> k" using k by simp
  have all: "{i \<in> subs vs. i < length vs} = subs vs" by (auto simp: subs_def)
  have fm: "has_fns m (start_fns m) w" using w(2) m by (simp add: collecting_def all)
  have rv: "map (\<lambda>i. if i \<in> {} then slot (args i) else vs ! i) [0..<length vs] = vs" by (simp add: map_nth)
  show ?thesis
  proof (cases "subs vs = {}")
    case True
    have "\<exists>w'. run 20 (d_beh pf) (TOps ?final) w = Done w' \<and> combined wn m vs args w'"
      using w(2) fm True by (simp add: combined_def collecting_def has_fns_def start_fns_def eval_simps map_nth)
    then obtain w' where w': "run 20 (d_beh pf) (TOps ?final) w = Done w'" "combined wn m vs args w'" by blast
    have "run k (d_beh pf) (TOps ([?first] @ ?subs @ ?final)) (made x) = Done w'"
      by (rule run_append [OF one run_append [OF w(1) w'(1) order_refl] le])
    with w'(2) True show ?thesis unfolding pr by (simp del: run.simps)
  next
    case False
    then have "card (subs vs) \<noteq> 0" by simp
    then have "run 20 (d_beh pf) (TOps ?final) w = Done w"
      using w(2) by (simp add: collecting_def eval_simps)
    then have "run k (d_beh pf) (TOps ([?first] @ ?subs @ ?final)) (made x) = Done w"
      by (rule run_append [OF one run_append [OF w(1) _ order_refl] le])
    moreover have "gathered wn m vs args {} w"
      using w(2) fm rv by (simp add: gathered_def collecting_def all) (auto simp: subs_def)
    ultimately show ?thesis using False unfolding pr by (simp del: run.simps)
  qed
qed

text \<open>A subordinate is resolved: its function counts it, and the last one resolves the master.\<close>

lemma resolve_waiting:
  assumes l: "has_fns n (waiting_fns wn m n i) w" and more: "remaining (whens (w_ext w) wn) \<noteq> 1"
  shows "\<exists>w'. page_run 40 pf [Settle n Resolve (Deferred n) args] w = Done w' \<and>
    (\<forall>l. owner l \<noteq> n \<longrightarrow> w_lists w' l = w_lists w l) \<and> (\<forall>p. p \<noteq> n \<longrightarrow> dstate (w_ext w') p = dstate (w_ext w) p) \<and>
    (let g = whens (w_ext w) wn; g' = whens (w_ext w') wn
     in remaining g' = remaining g - 1 \<and> master g' = master g \<and> resolveValues g' = (resolveValues g)[i := slot args])"
  using assms
  by (auto simp: has_fns_def waiting_fns_def page_run_def compile_def fireFn_def gather_ops_def upd_when_def eval_simps)

lemma resolve_last:
  assumes l: "has_fns n (waiting_fns wn m n i) w" and last: "remaining (whens (w_ext w) wn) = 1" and m: "master (whens (w_ext w) wn) = m"
    and lm: "has_fns m (start_fns m) w" and "n \<noteq> m"
  shows "\<exists>w'. page_run 40 pf [Settle n Resolve (Deferred n) args] w = Done w' \<and> dstate (w_ext w') m = ''resolved'' \<and>
    memory (w_lists w' (lst m Resolve)) = Some (Contexts wn False, (resolveValues (whens (w_ext w) wn))[i := slot args])"
  using assms
  by (simp add: has_fns_def waiting_fns_def start_fns_def page_run_def compile_def fireFn_def gather_ops_def upd_when_def eval_simps)

lemma page_append:
  assumes "page_run k pf ps w = Done w1" "page_run j pf qs w1 = Done w2" "k + j \<le> n"
  shows "page_run n pf (ps @ qs) w = Done w2"
  using run_append [OF assms(1,2) [unfolded page_run_def] assms(3)] by (simp add: page_run_def)

lemma gathered_resolve:
  assumes inj: "inj_on (sub vs) (subs vs)" and m: "m \<notin> sub vs ` subs vs"
    and g: "gathered wn m vs args D w" and i: "i \<in> subs vs - D"
  shows "\<exists>w'. page_run 40 pf [Settle (sub vs i) Resolve (Deferred (sub vs i)) (args i)] w = Done w' \<and>
    (if insert i D = subs vs then combined wn m vs args w' else gathered wn m vs args (insert i D) w')"
proof -
  let ?n = "sub vs i"
  have n: "has_fns ?n (waiting_fns wn m ?n i) w" using g i by (simp add: gathered_def)
  have nm: "?n \<noteq> m" using i m by (metis DiffD1 imageI)
  have len: "i < length vs" using i by (simp add: subs_def)
  have "subs vs - insert i D = subs vs - D - {i}" by auto
  then have c: "card (subs vs - D) = Suc (card (subs vs - insert i D))"
    using card_Suc_Diff1 [OF _ i] by simp
  have rv: "(map (\<lambda>j. if j \<in> D then slot (args j) else vs ! j) [0..<length vs])[i := slot (args i)] =
      map (\<lambda>j. if j \<in> insert i D then slot (args j) else vs ! j) [0..<length vs]"
    using len by (intro nth_equalityI) (auto simp: nth_list_update)
  have D: "D \<subseteq> subs vs" "remaining (whens (w_ext w) wn) = int (card (subs vs - D))" "master (whens (w_ext w) wn) = m"
    "resolveValues (whens (w_ext w) wn) = map (\<lambda>i. if i \<in> D then slot (args i) else vs ! i) [0..<length vs]"
    "dstate (w_ext w) m = ''pending''" "has_fns m (start_fns m) w"
    "\<forall>i \<in> subs vs - D. has_fns (sub vs i) (waiting_fns wn m (sub vs i) i) w"
    using g by (simp_all add: gathered_def)
  show ?thesis
  proof (cases "insert i D = subs vs")
    case True
    then have "remaining (whens (w_ext w) wn) = 1" using D(2) c by simp
    from resolve_last [OF n this D(3,6) nm, of pf "args i"] obtain w' where
      w': "page_run 40 pf [Settle ?n Resolve (Deferred ?n) (args i)] w = Done w'" "dstate (w_ext w') m = ''resolved''"
      "memory (w_lists w' (lst m Resolve)) = Some (Contexts wn False, (resolveValues (whens (w_ext w) wn))[i := slot (args i)])"
      by (elim exE conjE)
    then have "combined wn m vs args w'" using True by (simp add: combined_def D(4) rv)
    with w'(1) True show ?thesis by auto
  next
    case False
    then have "subs vs - insert i D \<noteq> {}" using i D(1) by auto
    then have "card (subs vs - insert i D) \<noteq> 0" by simp
    then have "remaining (whens (w_ext w) wn) \<noteq> 1" using D(2) c by simp
    from resolve_waiting [OF n this, of pf "args i"] obtain w' where
      w': "page_run 40 pf [Settle ?n Resolve (Deferred ?n) (args i)] w = Done w'" "\<forall>l. owner l \<noteq> ?n \<longrightarrow> w_lists w' l = w_lists w l"
        "\<forall>p. p \<noteq> ?n \<longrightarrow> dstate (w_ext w') p = dstate (w_ext w) p"
        "remaining (whens (w_ext w') wn) = remaining (whens (w_ext w) wn) - 1" "master (whens (w_ext w') wn) = master (whens (w_ext w) wn)"
        "resolveValues (whens (w_ext w') wn) = (resolveValues (whens (w_ext w) wn))[i := slot (args i)]"
      unfolding Let_def by (elim exE conjE)
    have same: "has_fns p fs w \<Longrightarrow> p \<noteq> ?n \<Longrightarrow> has_fns p fs w'" for p fs using w'(2) by (simp add: has_fns_def)
    have "sub vs j \<noteq> ?n" if "j \<in> subs vs - insert i D" for j using that i inj by (auto dest: inj_onD)
    then have "gathered wn m vs args (insert i D) w'"
      using D i w'(3) nm c same by (simp add: gathered_def w'(4-6) rv)
    with w'(1) False show ?thesis by auto
  qed
qed

definition settle_all :: "'v val list \<Rightarrow> (nat \<Rightarrow> 'v val list) \<Rightarrow> nat list \<Rightarrow> ('v, 'x) dop list" where
  "settle_all vs args is = map (\<lambda>i. Settle (sub vs i) Resolve (Deferred (sub vs i)) (args i)) is"

lemma gathered_resolve_all:
  assumes inj: "inj_on (sub vs) (subs vs)" and m: "m \<notin> sub vs ` subs vs"
    and "gathered wn m vs args D w" "D \<noteq> subs vs" "distinct is" "set is \<inter> D = {}" "set is \<subseteq> subs vs"
  shows "\<exists>w'. page_run (40 * length is + 1) pf (settle_all vs args is) w = Done w' \<and>
    (if D \<union> set is = subs vs then combined wn m vs args w' else gathered wn m vs args (D \<union> set is) w')"
  using assms(3-)
proof (induction "is" arbitrary: D w)
  case Nil
  then show ?case by (simp add: page_run_def settle_all_def run_ops_def)
next
  case (Cons i "is")
  have i: "i \<in> subs vs - D" using Cons.prems(4,5) by auto
  obtain w1 where w1: "page_run 40 pf [Settle (sub vs i) Resolve (Deferred (sub vs i)) (args i)] w = Done w1"
    "if insert i D = subs vs then combined wn m vs args w1 else gathered wn m vs args (insert i D) w1"
    using gathered_resolve [OF inj m Cons.prems(1) i, of pf] by blast
  show ?case
  proof (cases "insert i D = subs vs")
    case True
    then have e: "is = []" using Cons.prems(3-5) by (cases "is") auto
    have "page_run 41 pf [Settle (sub vs i) Resolve (Deferred (sub vs i)) (args i)] w = Done w1"
      using run_more [OF w1(1) [unfolded page_run_def], of 41] by (simp add: page_run_def del: run.simps)
    with w1(2) True show ?thesis by (auto simp: settle_all_def e)
  next
    case False
    then have "gathered wn m vs args (insert i D) w1" using w1(2) by simp
    from Cons.IH [OF this False] Cons.prems(3-5) obtain w2 where
      w2: "page_run (40 * length is + 1) pf (settle_all vs args is) w1 = Done w2"
      "if insert i D \<union> set is = subs vs then combined wn m vs args w2 else gathered wn m vs args (insert i D \<union> set is) w2"
      by auto
    have "page_run (40 * length (i # is) + 1) pf ([Settle (sub vs i) Resolve (Deferred (sub vs i)) (args i)] @ settle_all vs args is) w = Done w2"
      by (rule page_append [OF w1(1) w2(1)]) simp
    then have "page_run (40 * length (i # is) + 1) pf (settle_all vs args (i # is)) w = Done w2" by (simp add: settle_all_def)
    moreover have u: "insert i D \<union> set is = D \<union> set (i # is)" by auto
    ultimately show ?thesis using w2(2) [unfolded u] by blast
  qed
qed

lemma gathered_reject:
  assumes m: "m \<notin> sub vs ` subs vs" and g: "gathered wn m vs args D w" and j: "j \<in> subs vs - D" and k: "40 \<le> k"
  shows "\<exists>w'. page_run k pf [Settle (sub vs j) Reject (Deferred (sub vs j)) es] w = Done w' \<and>
    dstate (w_ext w') m = ''rejected'' \<and> memory (w_lists w' (lst m Reject)) = Some (Promise (sub vs j), es)"
proof -
  have "sub vs j \<noteq> m" using j m by (metis DiffD1 imageI)
  moreover have "w_lists w (lst (sub vs j) Reject) = new_list Reject (internals (sub vs j) Reject @ [Call (FireFn m Reject)])"
    using g j by (simp add: gathered_def has_fns_def waiting_fns_def)
  moreover have "w_lists w (lst m Reject) = new_list Reject (internals m Reject)"
    using g by (simp add: gathered_def has_fns_def start_fns_def)
  moreover have "page_run 40 pf [Settle (sub vs j) Reject (Deferred (sub vs j)) es] w =
      page_run 40 pf [SettleWith (sub vs j) Reject (Promise (sub vs j)) es] w"
    by (simp add: page_run_def compile_def fireFn_def del: run.simps)
  ultimately obtain w' where w': "page_run 40 pf [Settle (sub vs j) Reject (Deferred (sub vs j)) es] w = Done w'"
    "dstate (w_ext w') m = ''rejected''" "memory (w_lists w' (lst m Reject)) = Some (Promise (sub vs j), es)"
    using settle_linked [of "sub vs j" m Reject w pf "Promise (sub vs j)" es] by auto
  have "page_run k pf [Settle (sub vs j) Reject (Deferred (sub vs j)) es] w = Done w'"
    using run_more [OF w'(1) [unfolded page_run_def] _ k] by (simp add: page_run_def del: run.simps)
  with w'(2,3) show ?thesis by blast
qed

text \<open>
  C33: \<open>when\<close> of two or more arguments, among them different deferreds: however the deferreds resolve,
  the master is resolved after the last of them and not before, and its callbacks get the arguments in
  their places, each deferred's replaced by the value it was resolved with (an array of several); a
  deferred that is rejected before that rejects the master at once with its context and arguments.
\<close>

theorem when_collects:
  fixes pf :: "('v, 'x) page_fns"
  assumes len: "1 < length vs" and inj: "inj_on (sub vs) (subs vs)" and m: "m \<notin> sub vs ` subs vs"
    and "is": "distinct is" "set is \<subseteq> subs vs" and k: "45 * length vs + 50 \<le> k"
  shows "\<exists>w. page_run k pf (When wn m vs # settle_all vs args is) (made x) = Done w \<and>
    (if set is = subs vs then combined wn m vs args w
     else dstate (w_ext w) m = ''pending'' \<and>
       (\<forall>j \<in> subs vs - set is. \<exists>w'. page_run k pf [Settle (sub vs j) Reject (Deferred (sub vs j)) es] w = Done w' \<and>
          dstate (w_ext w') m = ''rejected'' \<and> memory (w_lists w' (lst m Reject)) = Some (Promise (sub vs j), es)))"
proof -
  have "card (set is) \<le> card {..<length vs}" by (rule card_mono) (use "is"(2) in \<open>auto simp: subs_def\<close>)
  then have short: "length is \<le> length vs" using distinct_card [OF "is"(1)] by simp
  obtain w1 where w1: "page_run (5 * length vs + 30) pf [When wn m vs] (made x) = Done w1"
    "if subs vs = {} then combined wn m vs args w1 else gathered wn m vs args {} w1"
    using when_run [OF inj m len order_refl, where pf = pf and wn = wn and x = x and args = args] by (elim exE conjE)
  have "\<exists>w2. page_run (40 * length is + 1) pf (settle_all vs args is) w1 = Done w2 \<and>
    (if set is = subs vs then combined wn m vs args w2 else gathered wn m vs args (set is) w2)"
  proof (cases "subs vs = {}")
    case True
    with w1(2) "is"(2) show ?thesis by (simp add: page_run_def settle_all_def run_ops_def)
  next
    case False
    then have "gathered wn m vs args {} w1" "{} \<noteq> subs vs" using w1(2) by auto
    from gathered_resolve_all [OF inj m this "is"(1) _ "is"(2), of pf] show ?thesis
      by (simp only: Un_empty_left Int_empty_right simp_thms)
  qed
  then obtain w2 where w2: "page_run (40 * length is + 1) pf (settle_all vs args is) w1 = Done w2"
    "if set is = subs vs then combined wn m vs args w2 else gathered wn m vs args (set is) w2" by blast
  have run: "page_run k pf (When wn m vs # settle_all vs args is) (made x) = Done w2"
    using page_append [OF w1(1) w2(1), of k] k short by simp
  show ?thesis
  proof (cases "set is = subs vs")
    case True
    with run w2(2) show ?thesis by (intro exI [of _ w2]) simp
  next
    case False
    then have g: "gathered wn m vs args (set is) w2" using w2(2) by simp
    then have "dstate (w_ext w2) m = ''pending''" by (simp add: gathered_def)
    with run False gathered_reject [OF m g, of _ k pf es] k show ?thesis by (intro exI [of _ w2]) simp
  qed
qed

theorem when_collects_witness:
  "\<exists>w. page_run 200 (\<lambda>_ _ _ _. ([], Undef)) (When 0 9 [Promise 3, Val (7 :: nat), Deferred 4] #
      settle_all [Promise 3, Val 7, Deferred 4] (\<lambda>i. [Val i]) [2, 0]) (made ()) = Done w \<and>
    combined 0 9 [Promise 3, Val 7, Deferred 4] (\<lambda>i. [Val i]) w"
proof -
  let ?vs = "[Promise 3, Val (7 :: nat), Deferred 4]"
  have s: "subs ?vs = {0, 2}" by (auto simp: subs_def promise_of_def less_Suc_eq numeral_3_eq_3)
  have "inj_on (sub ?vs) (subs ?vs)" "9 \<notin> sub ?vs ` subs ?vs" unfolding s by (auto simp: sub_def promise_of_def)
  from when_collects [OF _ this, of "[2, 0]" 200 "\<lambda>_ _ _ _. ([], Undef)" 0 "\<lambda>i. [Val i]" "()"] s
  show ?thesis by (simp add: insert_commute)
qed

end
