(* ===== verification/JQ_Queue.thy ===== *)
theory JQ_Queue
  imports JQ_Callbacks
begin

text \<open>
  The queues of functions that elements carry (\<^verbatim>\<open>jquery.js\<close>, lines 3957 to 4089, and \<open>delay\<close>, lines
  7644 to 7654): \<open>queue\<close>, \<open>dequeue\<close>, the hooks of a queue with the callback list that fires when it
  is empty, \<open>clearQueue\<close> and \<open>promise\<close>.  A queue belongs to an element and a type; the empty type is
  left out.  The functions in a queue are those of the page, a parameter, which may queue and dequeue
  in their turn, and those \<open>delay\<close> makes.  The deferred of a \<open>promise\<close> is its flag \<open>resolved\<close>, and a
  timer may run out at any time.
\<close>

section \<open>State\<close>

type_synonym qkey = "nat \<times> string"   \<comment> \<open>an element and a type\<close>

datatype qfn = Page nat | Delay

text \<open>An array of functions, and the sentinel at the front of the queue \<open>fx\<close> while one of them runs.\<close>

datatype item = Run qfn | InProgress

text \<open>
  What is called: a function of a queue, with \<open>next\<close> and the hooks of its queue; what the hooks' list
  holds at first; the \<open>resolve\<close> of a call of \<open>promise\<close>; and a callback the page adds to that list.
\<close>

datatype qcall = Body qfn qkey | CleanUp qkey | Countdown nat | PageHook nat

text \<open>
  The hooks of a queue are known by their callback list \<open>empty\<close>; \<open>stops\<close> is the timer their \<open>stop\<close>
  clears.  The log of started functions is a ghost.
\<close>

record 'x qext =
  queues :: "qkey \<Rightarrow> item list option"
  hooks :: "qkey \<Rightarrow> nat option"
  stops :: "nat \<Rightarrow> nat option"
  next_list :: nat
  timers :: "(nat \<times> qkey) list"
  next_timer :: nat
  counts :: "nat \<Rightarrow> int"
  resolved :: "nat \<Rightarrow> bool"
  started :: "(qkey \<times> qfn) list"
  page_ext :: 'x

type_synonym 'x qops = "(qcall, unit, 'x qext) op list"
type_synonym 'x qworld = "(qcall, unit, 'x qext) world"

section \<open>The functions queue and dequeue\<close>

definition get_queue :: "qkey \<Rightarrow> 'x qext \<Rightarrow> item list" where
  "get_queue key x = (case queues x key of Some q \<Rightarrow> q | None \<Rightarrow> [])"

text \<open>\<open>jQuery.queue\<close> with data: a function to append, or an array that replaces the queue.\<close>

datatype qdata = One qfn | Many "qfn list"

definition queue_data :: "qkey \<Rightarrow> qdata \<Rightarrow> 'x qext \<Rightarrow> 'x qext" where
  "queue_data key data x =
     x\<lparr>queues := (queues x)(key \<mapsto> (case data of One f \<Rightarrow> get_queue key x @ [Run f] | Many fs \<Rightarrow> map Run fs))\<rparr>"

text \<open>\<open>_queueHooks\<close>: the hooks there are, or new ones.\<close>

definition hooks_of :: "qkey \<Rightarrow> 'x qext \<Rightarrow> nat" where
  "hooks_of key x = (case hooks x key of Some l \<Rightarrow> l | None \<Rightarrow> next_list x)"

definition queueHooks :: "qkey \<Rightarrow> (qcall, unit, 'x qext) op" where
  "queueHooks key = Dyn (\<lambda>x.
     if hooks x key = None
     then [On (next_list x) (Add [AFun (CleanUp key)]),
           Ext (\<lambda>x. x\<lparr>hooks := (hooks x)(key \<mapsto> next_list x), next_list := next_list x + 1\<rparr>)]
     else [])"

definition set_array :: "qkey \<Rightarrow> item list \<Rightarrow> 'x qext \<Rightarrow> 'x qext" where
  "set_array key q x = x\<lparr>queues := (queues x)(key := map_option (\<lambda>_. q) (queues x key))\<rparr>"

definition dequeue :: "qkey \<Rightarrow> (qcall, unit, 'x qext) op" where
  "dequeue key = Dyn (\<lambda>x.
     let queue = get_queue key x;
         rest = (if queue \<noteq> [] \<and> hd queue = InProgress then tl queue else queue);
         l = hooks_of key x
     in queueHooks key #
        (case rest of
           [] \<Rightarrow> [Ext (set_array key []), On l (FireWith ())]
         | fn # queue' \<Rightarrow>
             [Ext (set_array key (if snd key = ''fx'' then InProgress # queue' else queue')),
              Ext (\<lambda>x. x\<lparr>stops := (stops x)(l := None)\<rparr>),
              (case fn of Run f \<Rightarrow> Apply (Body f key) () | InProgress \<Rightarrow> Raise)]))"

section \<open>The methods\<close>

definition queue_method :: "nat list \<Rightarrow> string \<Rightarrow> qdata \<Rightarrow> 'x qops" where
  "queue_method es ty data = concat (map (\<lambda>e.
     [Ext (queue_data (e, ty) data), queueHooks (e, ty),
      Dyn (\<lambda>x. if ty = ''fx'' \<and> (get_queue (e, ty) x = [] \<or> hd (get_queue (e, ty) x) \<noteq> InProgress) then [dequeue (e, ty)] else [])]) es)"

definition dequeue_method :: "nat list \<Rightarrow> string \<Rightarrow> 'x qops" where
  "dequeue_method es ty = map (\<lambda>e. dequeue (e, ty)) es"

definition clearQueue :: "nat list \<Rightarrow> string \<Rightarrow> 'x qops" where
  "clearQueue es ty = queue_method es ty (Many [])"

text \<open>\<open>promise\<close>, its call numbered \<open>p\<close>: it counts itself and the queues that have hooks, the last element first.\<close>

definition countdown :: "nat \<Rightarrow> 'x qops" where
  "countdown p =
     [Ext (\<lambda>x. x\<lparr>counts := (counts x)(p := counts x p - 1)\<rparr>),
      Dyn (\<lambda>x. if counts x p = 0 then [Ext (\<lambda>x. x\<lparr>resolved := (resolved x)(p := True)\<rparr>)] else [])]"

definition promise :: "nat \<Rightarrow> nat list \<Rightarrow> string \<Rightarrow> 'x qops" where
  "promise p es ty =
     Ext (\<lambda>x. x\<lparr>counts := (counts x)(p := 1)\<rparr>) #
     map (\<lambda>e. Dyn (\<lambda>x. case hooks x (e, ty) of
           None \<Rightarrow> []
         | Some l \<Rightarrow> [Ext (\<lambda>x. x\<lparr>counts := (counts x)(p := counts x p + 1)\<rparr>), On l (Add [AFun (Countdown p)])])) (rev es) @
     countdown p"

text \<open>The function that \<open>delay\<close> queues, in the hooks \<open>l\<close>; the \<open>stop\<close> it leaves there; and the timer's end.\<close>

definition delay_body :: "qkey \<Rightarrow> (qcall, unit, 'x qext) op" where
  "delay_body key = Ext (\<lambda>x. x\<lparr>timers := timers x @ [(next_timer x, key)],
     stops := (stops x)(hooks_of key x \<mapsto> next_timer x), next_timer := next_timer x + 1\<rparr>)"

definition stop :: "qkey \<Rightarrow> (qcall, unit, 'x qext) op" where
  "stop key = Ext (\<lambda>x. case stops x (hooks_of key x) of
     None \<Rightarrow> x | Some t \<Rightarrow> x\<lparr>timers := filter (\<lambda>(t', _). t' \<noteq> t) (timers x)\<rparr>)"

definition timeout :: "nat \<Rightarrow> (qcall, unit, 'x qext) op" where
  "timeout t = Dyn (\<lambda>x. case map_of (timers x) t of
     None \<Rightarrow> [] | Some key \<Rightarrow> [Ext (\<lambda>x. x\<lparr>timers := filter (\<lambda>(t', _). t' \<noteq> t) (timers x)\<rparr>), dequeue key])"

section \<open>What a page does\<close>

datatype 'x qcmd =
  QueueData qkey qdata | Next qkey | Queue "nat list" string qdata | Dequeue "nat list" string | Clear "nat list" string
| Promise nat "nat list" string | Stop qkey | Timeout nat | OnEmpty qkey nat | PageExt "'x \<Rightarrow> 'x" | Throw

definition compile :: "'x qcmd \<Rightarrow> 'x qops" where
  "compile c = (case c of
     QueueData key data \<Rightarrow> [Ext (queue_data key data)]
   | Next key \<Rightarrow> [dequeue key]
   | Queue es ty data \<Rightarrow> queue_method es ty data
   | Dequeue es ty \<Rightarrow> dequeue_method es ty
   | Clear es ty \<Rightarrow> clearQueue es ty
   | Promise p es ty \<Rightarrow> promise p es ty
   | Stop key \<Rightarrow> [stop key]
   | Timeout t \<Rightarrow> [timeout t]
   | OnEmpty key k \<Rightarrow> [Dyn (\<lambda>x. case hooks x key of None \<Rightarrow> [Raise] | Some l \<Rightarrow> [On l (Add [AFun (PageHook k)])])]
   | PageExt g \<Rightarrow> [Ext (\<lambda>x. x\<lparr>page_ext := g (page_ext x)\<rparr>)]
   | Throw \<Rightarrow> [Raise])"

text \<open>What the page's functions do when a queue calls them, and its callbacks for an empty queue.\<close>

record 'x qpage =
  body :: "'x qworld \<Rightarrow> nat \<Rightarrow> qkey \<Rightarrow> 'x qcmd list"
  emptied :: "'x qworld \<Rightarrow> nat \<Rightarrow> 'x qcmd list"

definition q_beh :: "'x qpage \<Rightarrow> (qcall, unit, 'x qext) beh" where
  "q_beh pg w f d =
     ((case f of
         Body g key \<Rightarrow>
           Ext (\<lambda>x. x\<lparr>started := started x @ [(key, g)]\<rparr>) #
           (case g of Page k \<Rightarrow> concat (map compile (body pg w k key)) | Delay \<Rightarrow> [delay_body key])
       | CleanUp key \<Rightarrow> [Ext (\<lambda>x. x\<lparr>queues := (queues x)(key := None), hooks := (hooks x)(key := None)\<rparr>)]
       | Countdown p \<Rightarrow> countdown p
       | PageHook k \<Rightarrow> concat (map compile (emptied pg w k))), False)"

text \<open>The world at first: no queues, and lists that are only made when they are needed.\<close>

definition start :: "'x \<Rightarrow> 'x qworld" where
  "start x = fresh (\<lambda>l. OptString ''once memory'')
     \<lparr>queues = \<lambda>_. None, hooks = \<lambda>_. None, stops = \<lambda>_. None, next_list = 0, timers = [], next_timer = 0,
      counts = \<lambda>_. 0, resolved = \<lambda>_. False, started = [], page_ext = x\<rparr>"

definition page_run :: "nat \<Rightarrow> 'x qpage \<Rightarrow> 'x qcmd list \<Rightarrow> 'x qworld \<Rightarrow> 'x qworld outcome" where
  "page_run k pg cs w = run k (q_beh pg) (TOps (concat (map compile cs))) w"

section \<open>A server of functions, one at a time\<close>

text \<open>
  What the queue \<open>fx\<close> of an element promises: a function is started when nothing runs, and waits
  otherwise; when the running one calls \<open>next\<close>, the one that has waited longest is started; whoever
  asks is told when nothing runs any more.
\<close>

record server =
  busy :: bool
  waiting :: "qfn list"
  begun :: "qfn list"
  asked :: "nat list"
  told :: "nat set"

datatype request = Enqueue qfn | Finish | Ask nat

fun serve :: "server \<Rightarrow> request \<Rightarrow> server" where
  "serve s (Enqueue f) = (if busy s then s\<lparr>waiting := waiting s @ [f]\<rparr> else s\<lparr>busy := True, begun := begun s @ [f]\<rparr>)"
| "serve s Finish =
     (case waiting s of
        [] \<Rightarrow> s\<lparr>busy := False, asked := [], told := told s \<union> set (asked s)\<rparr>
      | f # fs \<Rightarrow> s\<lparr>waiting := fs, begun := begun s @ [f]\<rparr>)"
| "serve s (Ask p) = (if busy s then s\<lparr>asked := asked s @ [p]\<rparr> else s\<lparr>told := insert p (told s)\<rparr>)"

definition idle_server :: server where
  "idle_server = \<lparr>busy = False, waiting = [], begun = [], asked = [], told = {}\<rparr>"

definition command :: "nat \<Rightarrow> request \<Rightarrow> 'x qcmd" where
  "command e r = (case r of Enqueue f \<Rightarrow> Queue [e] ''fx'' (One f) | Finish \<Rightarrow> Next (e, ''fx'') | Ask p \<Rightarrow> Promise p [e] ''fx'')"

definition asks :: "request list \<Rightarrow> nat list" where
  "asks rs = concat (map (\<lambda>r. case r of Ask p \<Rightarrow> [p] | _ \<Rightarrow> []) rs)"

definition enqueued :: "request list \<Rightarrow> qfn list" where
  "enqueued rs = concat (map (\<lambda>r. case r of Enqueue f \<Rightarrow> [f] | _ \<Rightarrow> []) rs)"

text \<open>The server that the state of an element's queue stands for.\<close>

definition unrun :: "item list \<Rightarrow> qfn list" where
  "unrun q = concat (map (\<lambda>i. case i of Run f \<Rightarrow> [f] | InProgress \<Rightarrow> []) q)"

definition askers :: "qcall list \<Rightarrow> nat list" where
  "askers fs = concat (map (\<lambda>f. case f of Countdown p \<Rightarrow> [p] | _ \<Rightarrow> []) fs)"

definition server_of :: "nat \<Rightarrow> 'x qworld \<Rightarrow> server" where
  "server_of e w =
     (let x = w_ext w; q = get_queue (e, ''fx'') x
      in \<lparr>busy = (InProgress \<in> set q), waiting = unrun q, begun = map snd (filter (\<lambda>(k, f). k = (e, ''fx'')) (started x)),
          asked = (case hooks x (e, ''fx'') of
                     Some l \<Rightarrow> (case cb_list (w_lists w l) of Some fs \<Rightarrow> askers fs | None \<Rightarrow> []) | None \<Rightarrow> []),
          told = Collect (resolved x)\<rparr>)"

definition once_list :: "qcall list \<Rightarrow> (qcall, unit) cbs" where
  "once_list fs =
     \<lparr>opt_once = True, opt_memory = True, opt_unique = False, opt_stopOnFalse = False, firing = False,
      memory = None, fired = False, firingLength = 0, firingIndex = 0, firingStart = 0,
      cb_list = Some fs, stack = None\<rparr>"

definition implements :: "nat \<Rightarrow> server \<Rightarrow> 'x qworld \<Rightarrow> bool" where
  "implements e s w \<longleftrightarrow>
     (let x = w_ext w; key = (e, ''fx'')
      in (if busy s
          then queues x key = Some (InProgress # map Run (waiting s)) \<and>
            (\<exists>l. l < next_list x \<and> hooks x key = Some l \<and> w_lists w l = once_list (CleanUp key # map Countdown (asked s)))
          else queues x key = None \<and> hooks x key = None \<and> waiting s = [] \<and> asked s = []) \<and>
         (\<forall>l \<ge> next_list x. w_lists w l = once_list []) \<and> (\<forall>p. resolved x p \<longleftrightarrow> p \<in> told s) \<and>
         (\<forall>p \<in> set (asked s). counts x p = 1) \<and> distinct (asked s) \<and> started x = map (Pair key) (begun s))"

lemma unrun_simps [simp]: "unrun [] = []" "unrun (Run f # q) = f # unrun q" "unrun (InProgress # q) = unrun q"
  by (simp_all add: unrun_def)

lemma unrun_map [simp]: "unrun (map Run fs) = fs"
  by (induction fs) simp_all

lemma askers_map [simp]: "askers (CleanUp key # map Countdown ps) = ps"
  by (induction ps) (simp_all add: askers_def)

lemma implements_server_of:
  assumes "implements e s w"
  shows "server_of e w = s"
proof -

  have r: "Collect (resolved (w_ext w)) = told s" using assms by (auto simp: implements_def Let_def)
  show ?thesis
    using assms r by (cases s) (auto simp: implements_def server_of_def get_queue_def once_list_def Let_def comp_def split: if_splits)
qed

lemma start_implements: "implements e idle_server (start x)"
proof -
  have "w_lists (start x) l = once_list []" for l
    unfolding start_def fresh_once_memory [of _ l, folded once_list_def] by (simp add: fresh_def Callbacks_def once_memory_options once_list_def split: prod.split)
  then show ?thesis by (simp add: implements_def idle_server_def start_def fresh_def)
qed

section \<open>Firing the list of an empty queue\<close>

text \<open>A loop whose callbacks change nothing but the rest of the state.\<close>

lemma loop_ext:
  assumes ext: "\<And>f w. f \<in> set fs \<Longrightarrow> run m beh (TOps (fst (beh w f d))) w = Done (w\<lparr>w_ext := g f (w_ext w)\<rparr>) \<and> \<not> snd (beh w f d)"
    and w: "w_lists w l = c\<lparr>firingIndex := int i\<rparr>" "cb_list c = Some fs" "firingLength c = int (length fs)" "i \<le> length fs"
  shows "\<exists>w'. run (m + (length fs - i) + 1) beh (TLoop l d) w = Done w' \<and> w_ext w' = fold g (drop i fs) (w_ext w) \<and>
    (\<forall>j. w_lists w' j = (if j = l then c\<lparr>firingIndex := int (length fs)\<rparr> else w_lists w j))"
  using w
proof (induction "length fs - i" arbitrary: i w)
  case 0
  then have "i = length fs" by simp
  with 0 show ?case by (intro exI [of _ w]) (simp add: fire_loop_def)
next
  case (Suc k)
  then have i: "i < length fs" by simp
  let ?w0 = "call l (fs ! i) d w"
  let ?w1 = "upd l (\<lambda>c. c\<lparr>firingIndex := firingIndex c + 1\<rparr>) (?w0\<lparr>w_ext := g (fs ! i) (w_ext w)\<rparr>)"
  have f: "run m beh (TOps (fst (beh ?w0 (fs ! i) d))) ?w0 = Done (?w0\<lparr>w_ext := g (fs ! i) (w_ext ?w0)\<rparr>)" "\<not> snd (beh ?w0 (fs ! i) d)"
    using ext [of "fs ! i" ?w0] i by auto
  obtain ops where b: "beh ?w0 (fs ! i) d = (ops, False)" using f(2) by (cases "beh ?w0 (fs ! i) d") simp
  have r: "run (m + (length fs - i)) beh (TOps ops) ?w0 = Done (?w0\<lparr>w_ext := g (fs ! i) (w_ext w)\<rparr>)"
    by (rule run_more [of m]) (use f(1) b in simp_all)
  have "k = length fs - Suc i" using Suc.hyps(2) by simp
  from Suc.hyps(1) [OF this, of ?w1] Suc.prems i obtain w' where
    w': "run (m + (length fs - Suc i) + 1) beh (TLoop l d) ?w1 = Done w'" "w_ext w' = fold g (drop (Suc i) fs) (g (fs ! i) (w_ext w))"
      "\<forall>j. w_lists w' j = (if j = l then c\<lparr>firingIndex := int (length fs)\<rparr> else w_lists w j)"
    by (auto simp del: run.simps)
  have "run (m + (length fs - i) + 1) beh (TLoop l d) w = run (m + (length fs - Suc i) + 1) beh (TLoop l d) ?w1"
    using Suc.prems i b r by (simp add: run_Suc run_body_def fire_loop_def Let_def Suc_diff_Suc del: run.simps)
  moreover have "drop i fs = fs ! i # drop (Suc i) fs" using i by (simp add: Cons_nth_drop_Suc)
  ultimately show ?case using w' by (intro exI [of _ w']) (simp del: run.simps)
qed

definition cleaned :: "qkey \<Rightarrow> 'x qext \<Rightarrow> 'x qext" where
  "cleaned key x = x\<lparr>queues := (queues x)(key := None), hooks := (hooks x)(key := None)\<rparr>"

definition counted :: "nat \<Rightarrow> 'x qext \<Rightarrow> 'x qext" where
  "counted p x =
     (let x1 = x\<lparr>counts := (counts x)(p := counts x p - 1)\<rparr>
      in if counts x1 p = 0 then x1\<lparr>resolved := (resolved x1)(p := True)\<rparr> else x1)"

lemma run_countdown: "run 6 (q_beh pg) (TOps (countdown p)) w = Done (w\<lparr>w_ext := counted p (w_ext w)\<rparr>)"
  by (simp add: countdown_def counted_def run_numeral run_body_def run_ops_def run_op_def Let_def)

lemma fold_counted:
  assumes "distinct ps" "\<forall>p \<in> set ps. counts x p = 1"
  shows "fold counted ps x = x\<lparr>counts := (\<lambda>p. if p \<in> set ps then 0 else counts x p), resolved := (\<lambda>p. p \<in> set ps \<or> resolved x p)\<rparr>"
  using assms
proof (induction ps arbitrary: x)
  case (Cons p ps)
  have "fold counted (p # ps) x = fold counted ps (x\<lparr>counts := (counts x)(p := 0), resolved := (resolved x)(p := True)\<rparr>)"
    using Cons.prems by (simp add: counted_def Let_def)
  also have "\<dots> = x\<lparr>counts := (\<lambda>q. if q \<in> set (p # ps) then 0 else counts x q), resolved := (\<lambda>q. q \<in> set (p # ps) \<or> resolved x q)\<rparr>"
    using Cons.prems by (subst Cons.IH) (auto simp: fun_eq_iff)
  finally show ?case .
qed simp

lemma fire_empty:
  assumes l: "w_lists w l = once_list (CleanUp key # map Countdown ps)" and ps: "distinct ps" "\<forall>p \<in> set ps. counts (w_ext w) p = 1"
  shows "\<exists>w'. run (length ps + 20) (q_beh pg) (TOps [On l (FireWith ())]) w = Done w' \<and> (\<forall>j. j \<noteq> l \<longrightarrow> w_lists w' j = w_lists w j) \<and>
    w_ext w' = cleaned key ((w_ext w)\<lparr>counts := (\<lambda>p. if p \<in> set ps then 0 else counts (w_ext w) p), resolved := (\<lambda>p. p \<in> set ps \<or> resolved (w_ext w) p)\<rparr>)"
proof -
  let ?fs = "CleanUp key # map Countdown ps"
  let ?c = "begin_fire () (once_list ?fs)"
  let ?w1 = "upd l (begin_fire ()) w"
  define g :: "qcall \<Rightarrow> 'a qext \<Rightarrow> 'a qext" where "g = (\<lambda>f. case f of CleanUp key \<Rightarrow> cleaned key | Countdown p \<Rightarrow> counted p | _ \<Rightarrow> id)"
  have "run 6 (q_beh pg) (TOps (fst (q_beh pg w f ()))) w = Done (w\<lparr>w_ext := g f (w_ext w)\<rparr>) \<and> \<not> snd (q_beh pg w f ())" if "f \<in> set ?fs" for f w
    using that run_countdown [of pg _ w] by (auto simp: q_beh_def g_def cleaned_def run_numeral run_body_def run_ops_def run_op_def)
  from loop_ext [where fs = ?fs and m = 6 and beh = "q_beh pg" and d = "()" and g = g and w = ?w1 and l = l and c = ?c and i = 0, OF this] l obtain w2 where
    w2: "run (8 + length ps) (q_beh pg) (TLoop l ()) ?w1 = Done w2" "w_ext w2 = fold g (map Countdown ps) (g (CleanUp key) (w_ext w))"
      "\<forall>j. w_lists w2 j = (if j = l then ?c\<lparr>firingIndex := int (length ?fs)\<rparr> else w_lists ?w1 j)"
    by (auto simp: begin_fire_def once_list_def simp del: run.simps)
  have gm: "fold g (map Countdown ps) x = fold counted ps x" for x by (induction ps arbitrary: x) (simp_all add: g_def)
  have "w_ext w2 = fold counted ps (cleaned key (w_ext w))" using w2(2) gm by (simp add: g_def)
  also have "\<dots> = cleaned key ((w_ext w)\<lparr>counts := (\<lambda>p. if p \<in> set ps then 0 else counts (w_ext w) p), resolved := (\<lambda>p. p \<in> set ps \<or> resolved (w_ext w) p)\<rparr>)"
    by (subst fold_counted) (use ps in \<open>auto intro!: qext.equality simp: cleaned_def\<close>)
  finally have x: "w_ext w2 = \<dots>" .
  let ?w3 = "upd l (\<lambda>c. c\<lparr>cb_list := Some []\<rparr>) (upd l (\<lambda>c. c\<lparr>firing := False\<rparr>) w2)"
  define m where "m = length ps + 17"
  have loop: "run m (q_beh pg) (TLoop l ()) ?w1 = Done w2" by (rule run_more [OF w2(1)]) (simp_all add: m_def)
  have fire: "run (Suc m) (q_beh pg) (TFire l ()) w = Done ?w3"
    using l loop w2(3) by (simp add: run_Suc run_body_def fire_def after_loop_def begin_fire_def once_list_def Let_def del: run.simps)
  have op: "run (Suc (Suc m)) (q_beh pg) (TOp (On l (FireWith ()))) w = Done ?w3"
    using l fire by (simp add: run_Suc [of "Suc _"] run_body_def run_op_def list_op_def cb_fireWith_def once_list_def Let_def del: run.simps)
  have "run (Suc (Suc (Suc m))) (q_beh pg) (TOps [On l (FireWith ())]) w = Done ?w3"
    unfolding run_one_op using op by (simp del: run.simps)
  then have run: "run (length ps + 20) (q_beh pg) (TOps [On l (FireWith ())]) w = Done ?w3" by (simp add: m_def eval_nat_numeral del: run.simps)
  show ?thesis using run x w2(3) by (intro exI [of _ ?w3]) simp
qed

section \<open>The queue implements the server\<close>

lemmas eval_simps = run_numeral run_body_def run_ops_def run_op_def list_op_def cb_add_def Let_def q_beh_def get_queue_def
  queue_data_def set_array_def hooks_of_def queueHooks_def dequeue_def compile_def page_run_def

definition silent_page :: "'x qpage \<Rightarrow> bool" where
  "silent_page pg \<longleftrightarrow> body pg = (\<lambda>w k key. [])"

lemma enqueue_idle:
  assumes "silent_page pg" "implements e s w" "\<not> busy s"
  shows "\<exists>w'. page_run 40 pg [command e (Enqueue f)] w = Done w' \<and> implements e (serve s (Enqueue f)) w'"
  using assms
  by (cases f) (auto simp: command_def queue_method_def eval_simps silent_page_def delay_body_def implements_def once_list_def)

lemma enqueue_busy:
  assumes "implements e s w" "busy s"
  shows "\<exists>w'. page_run 40 pg [command e (Enqueue f)] w = Done w' \<and> implements e (serve s (Enqueue f)) w'"
  using assms by (auto simp: command_def queue_method_def eval_simps implements_def once_list_def)

lemma finish_idle:
  assumes "implements e s w" "\<not> busy s"
  shows "\<exists>w'. page_run 40 pg [command e Finish] w = Done w' \<and> implements e (serve s Finish) w'"
proof -
  have l: "w_lists w (next_list (w_ext w)) = once_list []" using assms by (simp add: implements_def Let_def)
  show ?thesis
    using assms l by (auto simp: command_def eval_simps implements_def once_list_def cb_fireWith_def fire_def fire_loop_def after_loop_def begin_fire_def)
qed

lemma finish_next:
  assumes "silent_page pg" "implements e s w" "busy s" "waiting s = f # fs"
  shows "\<exists>w'. page_run 40 pg [command e Finish] w = Done w' \<and> implements e (serve s Finish) w'"
  using assms
  by (cases f) (auto simp: command_def eval_simps silent_page_def delay_body_def implements_def once_list_def)

lemma run_dyn: "run k beh (TOps (g (w_ext w))) w = Done w' \<Longrightarrow> run (Suc (Suc k)) beh (TOps [Dyn g]) w = Done w'"
  by (simp add: run_one_op run_op_def del: run.simps(1))

lemma finish_last:
  assumes i: "implements e s w" and b: "busy s" and ws: "waiting s = []"
  shows "\<exists>w'. page_run (length (asked s) + 40) pg [command e Finish] w = Done w' \<and> implements e (serve s Finish) w'"
proof -
  let ?key = "(e, ''fx'')"
  obtain l where l: "l < next_list (w_ext w)" "hooks (w_ext w) ?key = Some l" "w_lists w l = once_list (CleanUp ?key # map Countdown (asked s))"
    using i b by (auto simp: implements_def Let_def)
  let ?w1 = "w\<lparr>w_ext := set_array ?key [] (w_ext w)\<rparr>"
  have q: "queues (w_ext w) ?key = Some [InProgress]" using i b ws by (simp add: implements_def Let_def)
  have "distinct (asked s)" "\<forall>p \<in> set (asked s). counts (w_ext ?w1) p = 1" "w_lists ?w1 l = once_list (CleanUp ?key # map Countdown (asked s))"
    using i l by (auto simp: implements_def Let_def set_array_def)
  from fire_empty [OF this(3,1,2), of pg] obtain w2 where
    w2: "run (length (asked s) + 20) (q_beh pg) (TOps [On l (FireWith ())]) ?w1 = Done w2" "\<forall>j. j \<noteq> l \<longrightarrow> w_lists w2 j = w_lists w j"
      "w_ext w2 = cleaned ?key ((w_ext ?w1)\<lparr>counts := (\<lambda>p. if p \<in> set (asked s) then 0 else counts (w_ext ?w1) p),
         resolved := (\<lambda>p. p \<in> set (asked s) \<or> resolved (w_ext ?w1) p)\<rparr>)" by auto
  have first: "run 6 (q_beh pg) (TOps [queueHooks ?key, Ext (set_array ?key [])]) w = Done ?w1"
    using l(2) by (simp add: run_numeral run_body_def run_ops_def run_op_def queueHooks_def)
  have "run (length (asked s) + 38) (q_beh pg) (TOps ([queueHooks ?key, Ext (set_array ?key [])] @ [On l (FireWith ())])) w = Done w2"
    by (rule run_append [OF first w2(1)]) simp
  then have "run (Suc (Suc (length (asked s) + 38))) (q_beh pg) (TOps [dequeue ?key]) w = Done w2"
    unfolding dequeue_def by (intro run_dyn) (use q l(2) in \<open>simp add: get_queue_def hooks_of_def del: run.simps\<close>)
  then have "page_run (length (asked s) + 40) pg [command e Finish] w = Done w2"
    by (simp add: page_run_def compile_def command_def eval_nat_numeral del: run.simps)
  moreover have "implements e (serve s Finish) w2"
    using i b ws w2(2,3) l(1) by (auto simp: implements_def cleaned_def set_array_def Let_def)
  ultimately show ?thesis by blast
qed

lemma ask_step:
  assumes "implements e s w" "p \<notin> set (asked s)"
  shows "\<exists>w'. page_run 40 pg [command e (Ask p)] w = Done w' \<and> implements e (serve s (Ask p)) w'"
proof (cases "busy s")
  case True
  with assms obtain l where "hooks (w_ext w) (e, ''fx'') = Some l" "w_lists w l = once_list (CleanUp (e, ''fx'') # map Countdown (asked s))"
    by (auto simp: implements_def Let_def)
  with True assms show ?thesis
    by (auto simp: command_def promise_def countdown_def eval_simps implements_def once_list_def)
next
  case False
  with assms show ?thesis by (auto simp: command_def promise_def countdown_def eval_simps implements_def)
qed

lemma serve_asked: "length (asked (serve s r)) \<le> Suc (length (asked s))" "set (asked (serve s r)) \<subseteq> set (asked s) \<union> set (asks [r])"
  by (cases r; auto simp: asks_def split: list.split)+

lemma serve_distinct: "distinct (asked s @ asks (r # rs)) \<Longrightarrow> distinct (asked (serve s r) @ asks rs)"
  by (cases r) (auto simp: asks_def split: list.split)

lemma request_step:
  assumes "silent_page pg" "implements e s w" "distinct (asked s @ asks [r])"
  shows "\<exists>w'. page_run (length (asked s) + 40) pg [command e r] w = Done w' \<and> implements e (serve s r) w'"
proof -
  have more: "page_run (length (asked s) + 40) pg cs w = Done w'" if "page_run 40 pg cs w = Done w'" for cs w'
    unfolding page_run_def by (rule run_more [OF that [unfolded page_run_def]]) simp_all
  show ?thesis
  proof (cases r)
    case (Enqueue f)
    then show ?thesis using enqueue_idle [OF assms(1,2), of f] enqueue_busy [OF assms(2), of pg f] more by blast
  next
    case Finish
    show ?thesis
    proof (cases "busy s")
      case True
      show ?thesis
      proof (cases "waiting s")
        case Nil
        then show ?thesis using finish_last [OF assms(2) True, of pg] Finish by simp
      next
        case (Cons f fs)
        then show ?thesis using finish_next [OF assms(1,2) True Cons] Finish more by blast
      qed
    next
      case False
      then show ?thesis using finish_idle [OF assms(2), of pg] Finish more by blast
    qed
  next
    case (Ask p)
    then have "p \<notin> set (asked s)" using assms(3) by (simp add: asks_def)
    then show ?thesis using ask_step [OF assms(2), of p pg] Ask more by blast
  qed
qed

lemma requests_served:
  assumes "silent_page pg" "implements e s w" "distinct (asked s @ asks rs)" "length (asked s) + length rs \<le> b"
  shows "\<exists>w'. page_run ((b + 40) * length rs + 1) pg (map (command e) rs) w = Done w' \<and> implements e (foldl serve s rs) w'"
  using assms(2-4)
proof (induction rs arbitrary: s w)
  case Nil
  then show ?case by (simp add: page_run_def run_ops_def)
next
  case (Cons r rs)
  have "distinct (asked s @ asks [r])" using Cons.prems(2) by (auto simp: asks_def)
  from request_step [OF assms(1) Cons.prems(1) this] obtain w1 where
    w1: "page_run (length (asked s) + 40) pg [command e r] w = Done w1" "implements e (serve s r) w1" by (elim exE conjE)
  have "length (asked (serve s r)) + length rs \<le> b" using serve_asked(1) [of s r] Cons.prems(3) by simp
  from Cons.IH [OF w1(2) serve_distinct [OF Cons.prems(2)] this] obtain w2 where
    w2: "page_run ((b + 40) * length rs + 1) pg (map (command e) rs) w1 = Done w2" "implements e (foldl serve (serve s r) rs) w2" by (elim exE conjE)
  have "length (asked s) + 40 + ((b + 40) * length rs + 1) \<le> (b + 40) * length (r # rs) + 1" using Cons.prems(3) by simp
  from run_append [OF w1(1) [unfolded page_run_def] w2(1) [unfolded page_run_def] this]
  have "page_run ((b + 40) * length (r # rs) + 1) pg (map (command e) (r # rs)) w = Done w2" by (simp add: page_run_def del: run.simps)
  with w2(2) show ?case by auto
qed

lemma served_in_order:
  assumes "\<not> busy s \<Longrightarrow> waiting s = []"
  shows "begun (foldl serve s rs) @ waiting (foldl serve s rs) = begun s @ waiting s @ enqueued rs"
  using assms
proof (induction rs arbitrary: s)
  case (Cons r rs)
  have "\<not> busy (serve s r) \<Longrightarrow> waiting (serve s r) = []"
    using Cons.prems by (cases r) (auto split: list.splits)
  from Cons.IH [OF this] show ?case
    using Cons.prems by (cases r) (auto simp: enqueued_def split: list.split)
qed (simp add: enqueued_def)

section \<open>The properties\<close>

text \<open>
  C34: The queue \<open>fx\<close> of an element implements the server: after any sequence of calls of \<open>queue\<close> with
  a function, of \<open>next\<close> and of \<open>promise\<close>, with functions that do not call back at once, its state is
  that of the server; so the functions are started in the order they were queued, one at a time, the
  next when \<open>next\<close> is called, and a promise is resolved as soon as no function runs.
\<close>

theorem fx_queue_serves:
  assumes "silent_page pg" "distinct (asks rs)" "(length rs + 40) * length rs + 1 \<le> k"
  shows "\<exists>w. page_run k pg (map (command e) rs) (start x) = Done w \<and> server_of e w = foldl serve idle_server rs \<and>
    begun (server_of e w) @ waiting (server_of e w) = enqueued rs"
proof -
  obtain w where w: "page_run ((length rs + 40) * length rs + 1) pg (map (command e) rs) (start x) = Done w" "implements e (foldl serve idle_server rs) w"
    using requests_served [OF assms(1) start_implements, of rs "length rs" e x] assms(2) by (auto simp: idle_server_def)
  have "page_run k pg (map (command e) rs) (start x) = Done w"
    unfolding page_run_def by (rule run_more [OF w(1) [unfolded page_run_def] _ assms(3)]) simp
  moreover have "begun (foldl serve idle_server rs) @ waiting (foldl serve idle_server rs) = enqueued rs"
    by (subst served_in_order) (simp_all add: idle_server_def)
  ultimately show ?thesis using implements_server_of [OF w(2)] by auto
qed

theorem fx_queue_serves_witness:
  "\<exists>w. page_run 300 \<lparr>body = \<lambda>_ _ _. [], emptied = \<lambda>_ _. []\<rparr>
      (map (command 0) [Enqueue (Page 1), Enqueue Delay, Ask 5, Finish, Finish]) (start ()) = Done w \<and>
    busy (server_of 0 w) = False \<and> begun (server_of 0 w) = [Page 1, Delay] \<and> told (server_of 0 w) = {5}"
  using fx_queue_serves [of "\<lparr>body = \<lambda>_ _ _. [], emptied = \<lambda>_ _. []\<rparr>" "[Enqueue (Page 1), Enqueue Delay, Ask 5, Finish, Finish]" 300 0 "()"]
  by (auto simp: silent_page_def asks_def idle_server_def)

end
