(* ===== verification/JQ_Ready.thy ===== *)
theory JQ_Ready
  imports JQ_Core "HOL-Library.Sublist"
begin

text \<open>
  When the page is ready (\<^verbatim>\<open>jquery.js\<close>, lines 3393 to 3497): the functions given to \<open>ready\<close>, the holds on
  it, and the events of the browser that end the wait, in a browser with \<open>addEventListener\<close>.  The
  deferred behind \<open>ready\<close> appears as the list of functions it has not called and of those it has; that
  it calls each once, in order, is shown in \<open>JQ_Deferred\<close> and \<open>JQ_Callbacks\<close>.
\<close>

section \<open>State and operations\<close>

record 'f ready_state =
  isReady :: bool
  readyWait :: int
  readyList :: bool               \<comment> \<open>the deferred has been made\<close>
  waiting_fns :: "'f list"
  called_fns :: "'f list"
  resolved :: bool
  attached :: bool                \<comment> \<open>the listeners for DOMContentLoaded and load\<close>
  timeouts :: nat                 \<comment> \<open>calls of ready that wait in timers\<close>
  triggered :: nat                \<comment> \<open>how often the event ready has been triggered\<close>
  has_body :: bool
  complete :: bool                \<comment> \<open>document.readyState\<close>

definition initial :: "'f ready_state" where
  "initial = \<lparr>isReady = False, readyWait = 1, readyList = False, waiting_fns = [], called_fns = [], resolved = False,
     attached = False, timeouts = 0, triggered = 0, has_body = False, complete = False\<rparr>"

definition resolve_list :: "'f ready_state \<Rightarrow> 'f ready_state" where
  "resolve_list s = (if resolved s then s else s\<lparr>resolved := True, called_fns := called_fns s @ waiting_fns s, waiting_fns := []\<rparr>)"

text \<open>\<open>jQuery.ready\<close>, with \<open>true\<close> or without.\<close>

definition ready :: "bool \<Rightarrow> 'f ready_state \<Rightarrow> 'f ready_state" where
  "ready wait s =
     (let s1 = (if wait then s\<lparr>readyWait := readyWait s - 1\<rparr> else s)
      in if (if wait then readyWait s1 \<noteq> 0 else isReady s1) then s1
         else if \<not> has_body s1 then s1\<lparr>timeouts := timeouts s1 + 1\<rparr>
         else let s2 = s1\<lparr>isReady := True\<rparr>;
                  s3 = (if \<not> wait then s2\<lparr>readyWait := readyWait s2 - 1\<rparr> else s2)
              in if \<not> wait \<and> readyWait s3 > 0 then s3
                 else (resolve_list s3)\<lparr>triggered := triggered s3 + 1\<rparr>)"

definition holdReady :: "bool \<Rightarrow> 'f ready_state \<Rightarrow> 'f ready_state" where
  "holdReady hold s = (if hold then s\<lparr>readyWait := readyWait s + 1\<rparr> else ready True s)"

definition completed :: "'f ready_state \<Rightarrow> 'f ready_state" where
  "completed s = ready False (s\<lparr>attached := False\<rparr>)"

definition ready_promise :: "'f ready_state \<Rightarrow> 'f ready_state" where
  "ready_promise s =
     (if readyList s then s
      else let s1 = s\<lparr>readyList := True\<rparr>
           in if complete s1 then s1\<lparr>timeouts := timeouts s1 + 1\<rparr> else s1\<lparr>attached := True\<rparr>)"

definition ready_fn :: "'f \<Rightarrow> 'f ready_state \<Rightarrow> 'f ready_state" where
  "ready_fn f s =
     (let s1 = ready_promise s
      in if resolved s1 then s1\<lparr>called_fns := called_fns s1 @ [f]\<rparr> else s1\<lparr>waiting_fns := waiting_fns s1 @ [f]\<rparr>)"

text \<open>
  What happens to a page: a script asks to be called, holds or releases; the parser meets the body;
  the document is complete; a listener or a timer is called.
\<close>

datatype 'f page_event = Ready 'f | Hold | Release | Body | Complete | DomEvent | Timer

definition page_step :: "'f page_event \<Rightarrow> 'f ready_state \<Rightarrow> 'f ready_state" where
  "page_step ev s = (case ev of
     Ready f \<Rightarrow> ready_fn f s
   | Hold \<Rightarrow> holdReady True s
   | Release \<Rightarrow> holdReady False s
   | Body \<Rightarrow> s\<lparr>has_body := True\<rparr>
   | Complete \<Rightarrow> s\<lparr>complete := True\<rparr>
   | DomEvent \<Rightarrow> (if attached s then completed s else s)
   | Timer \<Rightarrow> (if timeouts s > 0 then ready False (s\<lparr>timeouts := timeouts s - 1\<rparr>) else s))"

definition page_after :: "'f page_event list \<Rightarrow> 'f ready_state" where
  "page_after evs = foldl (\<lambda>s ev. page_step ev s) initial evs"

section \<open>Who is called, and when\<close>

definition holds :: "'f page_event list \<Rightarrow> int" where
  "holds evs = int (length (filter (\<lambda>ev. ev = Hold) evs)) - int (length (filter (\<lambda>ev. ev = Release) evs))"

definition asked_fns :: "'f page_event list \<Rightarrow> 'f list" where
  "asked_fns evs = concat (map (\<lambda>ev. case ev of Ready f \<Rightarrow> [f] | _ \<Rightarrow> []) evs)"

text \<open>The page was ready, with no hold left, at some time.\<close>

definition was_free :: "'f page_event list \<Rightarrow> bool" where
  "was_free evs \<longleftrightarrow> (\<exists>ps. prefix ps evs \<and> isReady (page_after ps) \<and> holds ps = 0)"

definition ready_inv :: "'f page_event list \<Rightarrow> 'f ready_state \<Rightarrow> bool" where
  "ready_inv evs s \<longleftrightarrow>
     readyWait s = 1 + holds evs - (if isReady s then 1 else 0) \<and> (isReady s \<longrightarrow> has_body s) \<and>
     (resolved s \<longleftrightarrow> was_free evs) \<and> (resolved s \<longrightarrow> isReady s) \<and>
     called_fns s @ waiting_fns s = asked_fns evs \<and> (if resolved s then waiting_fns s = [] else called_fns s = [])"

lemma page_after_snoc [simp]: "page_after (evs @ [ev]) = page_step ev (page_after evs)"
  by (simp add: page_after_def)

lemma was_free_snoc:
  "was_free (evs @ [ev]) \<longleftrightarrow> was_free evs \<or> isReady (page_step ev (page_after evs)) \<and> holds (evs @ [ev]) = 0"
  by (auto simp: was_free_def prefix_snoc)

lemma holds_snoc [simp]:
  "holds (evs @ [ev]) = holds evs + (case ev of Hold \<Rightarrow> 1 | Release \<Rightarrow> -1 | _ \<Rightarrow> 0)"
  by (cases ev) (simp_all add: holds_def)

lemma asked_snoc [simp]: "asked_fns (evs @ [ev]) = asked_fns evs @ (case ev of Ready f \<Rightarrow> [f] | _ \<Rightarrow> [])"
  by (simp add: asked_fns_def)

lemma free_when_ready:
  "ready_inv evs s \<Longrightarrow> s = page_after evs \<Longrightarrow> isReady s \<Longrightarrow> holds evs = 0 \<Longrightarrow> resolved s"
  by (auto simp: ready_inv_def was_free_def)

lemma ready_inv_step:
  assumes i: "ready_inv evs (page_after evs)" and h: "0 \<le> holds (evs @ [ev])" "0 \<le> holds evs"
  shows "ready_inv (evs @ [ev]) (page_after (evs @ [ev]))"
  using i h free_when_ready [OF i refl] unfolding ready_inv_def was_free_snoc
  by (cases ev) (auto simp: page_step_def ready_fn_def ready_promise_def holdReady_def completed_def ready_def resolve_list_def Let_def)

lemma ready_inv_all:
  assumes "\<And>ps. prefix ps evs \<Longrightarrow> 0 \<le> holds ps"
  shows "ready_inv evs (page_after evs)"
  using assms
proof (induction evs rule: rev_induct)
  case Nil
  have "\<not> was_free ([] :: 'a page_event list)" by (simp add: was_free_def page_after_def initial_def)
  then show ?case by (simp add: ready_inv_def page_after_def initial_def holds_def asked_fns_def)
next
  case (snoc ev evs)
  have "ready_inv evs (page_after evs)" by (rule snoc.IH) (simp add: snoc.prems prefix_snoc)
  then show ?case
  proof (rule ready_inv_step)
    show "0 \<le> holds (evs @ [ev])" "0 \<le> holds evs" by (rule snoc.prems; simp)+
  qed
qed

text \<open>
  C35: A function given to \<open>ready\<close> is called once the page has been ready with no hold left, in the order
  of the calls of \<open>ready\<close> and each once, and before that none is; as long as no hold is released twice.
\<close>

theorem ready_waits:
  assumes "\<forall>ps. prefix ps evs \<longrightarrow> 0 \<le> holds ps"
  shows "called_fns (page_after evs) = (if \<exists>ps. prefix ps evs \<and> isReady (page_after ps) \<and> holds ps = 0 then asked_fns evs else [])"
  using ready_inv_all [of evs] assms by (auto simp: ready_inv_def was_free_def split: if_splits)

theorem ready_waits_witness:
  "called_fns (page_after [Hold, Ready (1 :: nat), Body, DomEvent, Ready 2, Release, Ready 3]) = [1, 2, 3]"
proof -
  let ?evs = "[Hold, Ready (1 :: nat), Body, DomEvent, Ready 2, Release, Ready 3]"
  let ?ps = "[Hold, Ready (1 :: nat), Body, DomEvent, Ready 2, Release]"
  have "\<forall>ps. prefix ps ?evs \<longrightarrow> 0 \<le> holds ps" by (auto simp: prefix_Cons holds_def)
  moreover have "prefix ?ps ?evs \<and> isReady (page_after ?ps) \<and> holds ?ps = 0" by code_simp
  ultimately show ?thesis using ready_waits [of ?evs] by (auto simp: asked_fns_def)
qed

end
