(* ===== verification/JQ_Convert.thy ===== *)
theory JQ_Convert
  imports JQ_Core
begin

text \<open>
  The responses of a request (\<^verbatim>\<open>jquery.js\<close>, lines 8671 to 8819): which of the responses of a transport is
  taken, and how it is converted from type to type.  The patterns for content types are predicates, and
  a converter is \<open>true\<close> or a function that returns or raises.  The names of the converters are two types
  with a space between them.
\<close>

section \<open>Settings\<close>

datatype 'v jv = Undef | V 'v

datatype 'v conv = is_same: Same | Conv "'v jv \<Rightarrow> 'v jv + 'v jv"   \<comment> \<open>\<open>Inl\<close>: raises\<close>

record 'v settings =
  dataType :: "string option"
  dataTypes :: "string list"
  contents :: "(string \<times> (string \<Rightarrow> bool)) list"
  responseFields :: "string obj"
  converters :: "'v conv obj"
  dataFilter :: "('v jv \<Rightarrow> string option \<Rightarrow> 'v jv) option"
  throws :: bool
  mimeType :: "string option"

section \<open>The response that is taken\<close>

text \<open>\<open>ajaxHandleResponses\<close>: it takes the types \<open>*\<close> off the front, puts the type of the content there when
  it knows it, and the type of the response it has taken.\<close>

definition content_type :: "'v settings \<Rightarrow> string option \<Rightarrow> string option" where
  "content_type s header = (if dataTypes s \<noteq> [] \<and> hd (dataTypes s) = ''*'' then (case mimeType s of Some m \<Rightarrow> if m = '''' then header else Some m | None \<Rightarrow> header) else None)"

definition known_type :: "'v settings \<Rightarrow> string option \<Rightarrow> string option" where
  "known_type s ct = (case ct of
     None \<Rightarrow> None
   | Some c \<Rightarrow> if c = '''' then None else map_option fst (find (\<lambda>(ty, test). test c) (contents s)))"

definition wanted_types :: "'v settings \<Rightarrow> string option \<Rightarrow> string list" where
  "wanted_types s header =
     (let rest = dropWhile (\<lambda>ty. ty = ''*'') (dataTypes s)
      in case known_type s (content_type s header) of None \<Rightarrow> rest | Some ty \<Rightarrow> ty # rest)"

definition final_type :: "'v settings \<Rightarrow> string list \<Rightarrow> 'v jv obj \<Rightarrow> string option" where
  "final_type s tys responses =
     (if tys \<noteq> [] \<and> oget responses (hd tys) \<noteq> None then Some (hd tys)
      else case find (\<lambda>ty. tys = [] \<or> hd tys = '''' \<or> oget (converters s) (ty @ '' '' @ hd tys) \<noteq> None) (okeys responses) of
             Some ty \<Rightarrow> Some ty
           | None \<Rightarrow> (case okeys responses of [] \<Rightarrow> None | ty # _ \<Rightarrow> Some ty))"

definition ajaxHandleResponses :: "'v settings \<Rightarrow> string option \<Rightarrow> 'v jv obj \<Rightarrow> 'v settings \<times> 'v jv" where
  "ajaxHandleResponses s header responses =
     (let tys = wanted_types s header
      in case final_type s tys responses of
           None \<Rightarrow> (s\<lparr>dataTypes := tys\<rparr>, Undef)
         | Some ty \<Rightarrow> (s\<lparr>dataTypes := (if tys \<noteq> [] \<and> hd tys = ty then tys else ty # tys)\<rparr>,
                      (case oget responses ty of Some v \<Rightarrow> v | None \<Rightarrow> Undef)))"

section \<open>The chain of conversions\<close>

datatype 'v converted = Success "'v jv" | ParserError "'v jv" | NoConversion string string | Raised "'v jv"

definition lower_keys :: "'v conv obj \<Rightarrow> 'v conv obj" where
  "lower_keys tab = foldl (\<lambda>t (k, c). oset t (lower k) c) [] tab"

definition lookup :: "'v conv obj \<Rightarrow> string \<Rightarrow> string \<Rightarrow> 'v conv option" where
  "lookup tab a b = (case oget tab (a @ '' '' @ b) of Some c \<Rightarrow> Some c | None \<Rightarrow> oget tab (''* '' @ b))"

text \<open>
  The search for a converter: a direct one, else the first in the table that ends at the type and
  whose source can be reached.  The result is the converter, the type it ends at, and the type that
  has to follow when this is on the way only.
\<close>

definition key_types :: "string \<Rightarrow> (string \<times> string) option" where
  "key_types k = (case split_str '' '' k of a # b # _ \<Rightarrow> Some (a, b) | _ \<Rightarrow> None)"

definition second_half :: "'v conv obj \<Rightarrow> string \<Rightarrow> string \<Rightarrow> (string \<times> 'v conv) option" where
  "second_half tab prev cur =
     find (\<lambda>(k, c). case key_types k of None \<Rightarrow> False | Some (a, b) \<Rightarrow> b = cur \<and> lookup tab prev a \<noteq> None) tab"

definition seek :: "'v conv obj \<Rightarrow> string \<Rightarrow> string \<Rightarrow> 'v conv option \<times> string \<times> string list" where
  "seek tab prev cur =
     (case lookup tab prev cur of
        Some c \<Rightarrow> (Some c, cur, [])
      | None \<Rightarrow>
          (case second_half tab prev cur of
             None \<Rightarrow> (None, cur, [])
           | Some (k, conv2) \<Rightarrow>
               (case key_types k of
                  None \<Rightarrow> (None, cur, [])
                | Some (a, b) \<Rightarrow>
                    (case lookup tab prev a of
                       Some Same \<Rightarrow> (Some conv2, cur, [])
                     | conv \<Rightarrow> if is_same conv2 then (conv, cur, []) else (conv, a, [b])))))"

definition enter :: "'v settings \<Rightarrow> string \<Rightarrow> 'v jv \<Rightarrow> 'v jv obj \<Rightarrow> 'v jv obj" where
  "enter s cur v resp = (case oget (responseFields s) cur of None \<Rightarrow> resp | Some f \<Rightarrow> oset resp f v)"

definition filtered :: "'v settings \<Rightarrow> bool \<Rightarrow> 'v jv \<Rightarrow> 'v jv" where
  "filtered s first v = (case dataFilter s of Some f \<Rightarrow> if first then f v (dataType s) else v | None \<Rightarrow> v)"

definition failed :: "'v settings \<Rightarrow> 'v jv \<Rightarrow> 'v converted" where
  "failed s e = (if throws s then Raised e else ParserError e)"

text \<open>The loop, with the number of rounds it may take; \<open>first\<close> in the first round of a success.\<close>

fun conv_loop :: "nat \<Rightarrow> 'v settings \<Rightarrow> 'v conv obj \<Rightarrow> bool \<Rightarrow> string \<Rightarrow> string list \<Rightarrow> 'v jv \<Rightarrow> 'v jv obj \<Rightarrow> ('v converted \<times> 'v jv obj) option" where
  "conv_loop 0 s tab first current types v resp = None"
| "conv_loop (Suc n) s tab first current types v resp =
     (if current = '''' then Some (Success v, resp)
      else let resp' = enter s current v resp; v' = filtered s first v
           in case types of
                [] \<Rightarrow> Some (Success v', resp')
              | nxt # rest \<Rightarrow>
                  if nxt = '''' then Some (Success v', resp')
                  else if nxt = ''*'' then conv_loop n s tab False current rest v' resp'
                  else if current = ''*'' \<or> current = nxt then conv_loop n s tab False nxt rest v' resp'
                  else case seek tab current nxt of (conv, nxt', after) \<Rightarrow>
                    (case conv of
                       None \<Rightarrow> Some (NoConversion current nxt', resp')
                     | Some Same \<Rightarrow> conv_loop n s tab False nxt' (after @ rest) v' resp'
                     | Some (Conv f) \<Rightarrow>
                         (case f v' of
                            Inl e \<Rightarrow> Some (failed s e, resp')
                          | Inr v'' \<Rightarrow> conv_loop n s tab False nxt' (after @ rest) v'' resp')))"

definition ajaxConvert :: "'v settings \<Rightarrow> 'v jv \<Rightarrow> bool \<Rightarrow> 'v jv obj \<Rightarrow> ('v converted \<times> 'v jv obj) option" where
  "ajaxConvert s v isSuccess resp =
     (case dataTypes s of
        [] \<Rightarrow> Some (Success v, resp)
      | current # rest \<Rightarrow>
          conv_loop (2 * length rest + 1) s (if rest \<noteq> [] \<and> hd rest \<noteq> '''' then lower_keys (converters s) else [])
            isSuccess current rest v resp)"

section \<open>What the chain means\<close>

text \<open>
  The reference: from each type to the next either nothing is to do, or there is a direct converter,
  or the first pair of converters in the table that leads there.
\<close>

definition way :: "'v conv obj \<Rightarrow> string \<Rightarrow> string \<Rightarrow> ('v conv \<times> string) list option" where
  "way tab a b =
     (case lookup tab a b of
        Some c \<Rightarrow> Some [(c, b)]
      | None \<Rightarrow>
          (case find (\<lambda>(k, c). case key_types k of None \<Rightarrow> False | Some (mid, b') \<Rightarrow> b' = b \<and> lookup tab a mid \<noteq> None) tab of
             None \<Rightarrow> None
           | Some (k, c2) \<Rightarrow>
               (case key_types k of
                  None \<Rightarrow> None
                | Some (mid, _) \<Rightarrow>
                    (case lookup tab a mid of
                       None \<Rightarrow> None
                     | Some c \<Rightarrow> if is_same c then Some [(c2, b)] else if is_same c2 then Some [(c, b)] else Some [(c, mid), (c2, b)]))))"

fun walk :: "'v settings \<Rightarrow> ('v conv \<times> string) list \<Rightarrow> 'v jv \<Rightarrow> 'v jv obj \<Rightarrow> 'v jv \<times> 'v jv obj + 'v jv \<times> 'v jv obj" where
  "walk s [] v resp = Inr (v, resp)"
| "walk s ((Same, ty) # ws) v resp = walk s ws v (enter s ty v resp)"
| "walk s ((Conv f, ty) # ws) v resp = (case f v of Inl e \<Rightarrow> Inl (e, resp) | Inr v' \<Rightarrow> walk s ws v' (enter s ty v' resp))"

fun chain :: "'v settings \<Rightarrow> 'v conv obj \<Rightarrow> string \<Rightarrow> string list \<Rightarrow> 'v jv \<Rightarrow> 'v jv obj \<Rightarrow> 'v converted \<times> 'v jv obj" where
  "chain s tab a [] v resp = (Success v, resp)"
| "chain s tab a (b # tys) v resp =
     (if b = ''*'' then chain s tab a tys v (enter s a v resp)
      else if a = ''*'' \<or> a = b then chain s tab b tys v (enter s b v resp)
      else case way tab a b of
             None \<Rightarrow> (NoConversion a b, resp)
           | Some ws \<Rightarrow> (case walk s ws v resp of
               Inl (e, resp') \<Rightarrow> (failed s e, resp')
             | Inr (v', resp') \<Rightarrow> chain s tab b tys v' resp'))"

section \<open>The loop follows the chain\<close>

definition key_ok :: "string \<Rightarrow> bool" where
  "key_ok k \<longleftrightarrow> (case key_types k of None \<Rightarrow> False | Some (a, b) \<Rightarrow> a \<noteq> '''' \<and> b \<noteq> '''' \<and> k = a @ '' '' @ b)"

definition table_ok :: "'v conv obj \<Rightarrow> bool" where
  "table_ok tab \<longleftrightarrow> distinct (okeys tab) \<and> (\<forall>k \<in> set (okeys tab). key_ok k)"

lemma oget_member: "distinct (okeys tab) \<Longrightarrow> (k, c) \<in> set tab \<Longrightarrow> oget tab k = Some c"
  by (simp add: oget_def okeys_def)

text \<open>The pair that is found: its source is neither \<open>*\<close> nor one of the two types, and from there the way is direct.\<close>

lemma second_half_pair:
  assumes ok: "table_ok tab" and none: "lookup tab a b = None" and sh: "second_half tab a b = Some (k, c2)" "key_types k = Some (mid, b')"
  shows "b' = b" "lookup tab a mid \<noteq> None" "lookup tab mid b = Some c2" "mid \<noteq> ''*''" "mid \<noteq> ''''" "mid \<noteq> b" "mid \<noteq> a"
proof -
  from sh(1) have "(k, c2) \<in> set tab \<and> (case key_types k of None \<Rightarrow> False | Some (x, y) \<Rightarrow> y = b \<and> lookup tab a x \<noteq> None)"
    unfolding second_half_def by (auto simp: find_Some_iff) (metis nth_mem)
  then have k: "(k, c2) \<in> set tab" and b: "b' = b" "lookup tab a mid \<noteq> None" using sh(2) by auto
  show "b' = b" "lookup tab a mid \<noteq> None" by (rule b)+
  have "key_ok k" using ok k by (force simp: table_ok_def okeys_def)
  then have m: "mid \<noteq> ''''" "k = mid @ '' '' @ b" using sh(2) b by (auto simp: key_ok_def)
  have g: "oget tab (mid @ '' '' @ b) = Some c2" using ok k m(2) by (simp add: table_ok_def oget_member)
  then show "lookup tab mid b = Some c2" by (simp add: lookup_def)
  show "mid \<noteq> ''''" by (rule m)
  show "mid \<noteq> ''*''" using none g by (auto simp: lookup_def split: option.splits)
  show "mid \<noteq> a" using none g by (auto simp: lookup_def split: option.splits)
  show "mid \<noteq> b" using none b by auto
qed

lemma enter_enter: "enter s a v (enter s a v resp) = enter s a v resp"
  by (auto simp: enter_def oset_def split: option.split)

lemma loop_chain:
  assumes ok: "table_ok tab" and a: "a \<noteq> ''''" and tys: "'''' \<notin> set tys" and n: "2 * length tys < n"
  shows "conv_loop n s tab first a tys v resp = Some (chain s tab a tys (filtered s first v) (enter s a v resp))"
  using a tys n
proof (induction tys arbitrary: n a v resp first)
  case Nil
  then obtain m where "n = Suc m" by (cases n) auto
  with Nil show ?case by simp
next
  case (Cons b tys)
  obtain m j where m: "n = Suc j" "j = Suc m" using Cons.prems(3) by (cases n; cases "n - 1") auto
  have b: "b \<noteq> ''''" "'''' \<notin> set tys" using Cons.prems(2) by auto
  have f: "filtered s False v = v" for v by (simp add: filtered_def split: option.split)
  have ih: "conv_loop k s tab False c tys v resp = Some (chain s tab c tys v (enter s c v resp))"
    if "m \<le> k" "c \<noteq> ''''" for c k v resp
    using Cons.IH [of c k False] that b Cons.prems(3) m by (simp add: f)
  have ihk: "conv_loop j s tab False c tys v resp = Some (chain s tab c tys v (enter s c v resp))" if "c \<noteq> ''''" for c v resp
    by (rule ih) (use that m in simp_all)
  show ?case
  proof (cases "b = ''*'' \<or> a = ''*'' \<or> a = b")
    case True
    then show ?thesis using Cons.prems(1) b by (auto simp: m(1) f ihk Let_def)
  next
    case go: False
    show ?thesis
    proof (cases "lookup tab a b")
      case (Some c)
      then have "seek tab a b = (Some c, b, [])" "way tab a b = Some [(c, b)]" by (simp_all add: seek_def way_def)
      then show ?thesis
        using go Cons.prems(1) b by (cases c) (auto simp: m(1) f ihk Let_def split: sum.split)
    next
      case none: None
      show ?thesis
      proof (cases "second_half tab a b")
        case None
        then have "seek tab a b = (None, b, [])" "way tab a b = None"
          using none by (simp_all add: seek_def way_def second_half_def)
        then show ?thesis using go Cons.prems(1) b by (auto simp: m(1) f Let_def)
      next
        case (Some kc)
        obtain k c2 where kc: "kc = (k, c2)" by (cases kc)
        have "(k, c2) \<in> set tab" using Some kc unfolding second_half_def by (auto simp: find_Some_iff) (metis nth_mem)
        then have "key_ok k" using ok by (force simp: table_ok_def okeys_def)
        then obtain mid b' where kt: "key_types k = Some (mid, b')" by (auto simp: key_ok_def split: option.splits)
        note p = second_half_pair [OF ok none Some [unfolded kc] kt]
        obtain c where c: "lookup tab a mid = Some c" using p(2) by auto
        have w: "way tab a b = (if is_same c then Some [(c2, b)] else if is_same c2 then Some [(c, b)] else Some [(c, mid), (c2, b)])"
          using Some kc none kt c by (simp add: way_def second_half_def)
        have sk: "seek tab a b = (if is_same c then (Some c2, b, []) else if is_same c2 then (Some c, b, []) else (Some c, mid, [b]))"
          using Some kc none kt c p(1) by (cases c) (simp_all add: seek_def)
        have direct: "seek tab mid b = (Some c2, b, [])" using p(3) by (simp add: seek_def)
        have two: "conv_loop j s tab False mid (b # tys) v resp =
          (case c2 of Same \<Rightarrow> Some (chain s tab b tys v (enter s b v (enter s mid v resp)))
           | Conv g \<Rightarrow> (case g v of Inl e \<Rightarrow> Some (failed s e, enter s mid v resp)
               | Inr v' \<Rightarrow> Some (chain s tab b tys v' (enter s b v' (enter s mid v resp)))))" for v resp
          using p b go by (cases c2) (auto simp: m(2) f ih direct Let_def split: sum.split)
        show ?thesis
          using go Cons.prems(1) b p
          by (cases c; cases c2) (auto simp: m(1) f ihk two w sk Let_def split: sum.split)
      qed
    qed
  qed
qed

text \<open>
  C38: Converting a response comes to an end and does what the chain of types means: from each type to
  the next different one that is not \<open>*\<close> it applies the direct converter or, where there is none, the
  first two in the table that lead there, the result of the one given to the other; it stops with an
  error when there is no way, or when a converter raises, and it leaves the response at each type it
  passes in the field for that type.  The filter is applied once, before the first conversion.
\<close>

theorem convert_follows_chain:
  assumes "dataTypes s = a # tys" "'''' \<notin> set (a # tys)" "table_ok (lower_keys (converters s))"
  shows "ajaxConvert s v isSuccess resp =
    Some (chain s (lower_keys (converters s)) a tys (filtered s isSuccess v) (enter s a v resp))"
proof (cases tys)
  case Nil
  then show ?thesis using assms(1,2) by (auto simp: ajaxConvert_def eval_nat_numeral)
next
  case (Cons b bs)
  then have b: "b \<noteq> []" "a \<noteq> []" "[] \<notin> set tys" using assms(2) by auto
  have "ajaxConvert s v isSuccess resp = conv_loop (2 * length tys + 1) s (lower_keys (converters s)) isSuccess a tys v resp"
    using b(1) by (simp add: ajaxConvert_def assms(1) Cons del: conv_loop.simps)
  also have "\<dots> = Some (chain s (lower_keys (converters s)) a tys (filtered s isSuccess v) (enter s a v resp))"
    by (rule loop_chain [OF assms(3) b(2,3)]) simp
  finally show ?thesis .
qed

text \<open>The converters that jQuery comes with, on values that are text or something parsed.\<close>

definition default_converters :: "('v jv \<Rightarrow> 'v jv) \<Rightarrow> ('v jv \<Rightarrow> 'v jv + 'v jv) \<Rightarrow> ('v jv \<Rightarrow> 'v jv + 'v jv) \<Rightarrow> 'v conv obj" where
  "default_converters String parseJSON parseXML =
     [(''* text'', Conv (\<lambda>v. Inr (String v))), (''text html'', Same), (''text json'', Conv parseJSON), (''text xml'', Conv parseXML)]"

definition sample_settings :: "nat settings" where
  "sample_settings = \<lparr>dataType = None, dataTypes = [''*'', ''script'', ''json''], contents = [], responseFields = [(''text'', ''responseText'')],
     converters = default_converters id (\<lambda>v. case v of V n \<Rightarrow> Inr (V (n + 1)) | Undef \<Rightarrow> Inl Undef) Inl, dataFilter = None, throws = False, mimeType = None\<rparr>"

theorem convert_follows_chain_witness:
  "ajaxConvert sample_settings (V 4) True [] = Some (Success (V 5), [(''responseText'', V 4)])"
proof -
  have t: "table_ok (lower_keys (converters sample_settings))" by code_simp
  have "ajaxConvert sample_settings (V 4) True [] = Some (chain sample_settings (lower_keys (converters sample_settings)) ''*'' [''script'', ''json'']
      (filtered sample_settings True (V 4)) (enter sample_settings ''*'' (V 4) []))"
    by (rule convert_follows_chain [OF _ _ t]) (simp_all add: sample_settings_def)
  moreover have "chain sample_settings (lower_keys (converters sample_settings)) ''*'' [''script'', ''json'']
      (filtered sample_settings True (V 4)) (enter sample_settings ''*'' (V 4) []) = (Success (V 5), [(''responseText'', V 4)])" by code_simp
  ultimately show ?thesis by simp
qed

section \<open>The response that is converted\<close>

lemma final_type_found:
  assumes "responses \<noteq> []"
  obtains ty where "final_type s tys responses = Some ty" "oget responses ty \<noteq> None"
proof -
  have "final_type s tys responses \<noteq> None"
    using assms by (cases responses) (auto simp: final_type_def okeys_def split: option.split)
  then obtain ty where ty: "final_type s tys responses = Some ty" by auto
  have "find P (okeys responses) = Some t \<Longrightarrow> t \<in> set (okeys responses)" for P t
    by (auto simp: find_Some_iff)
  then have "oget responses ty \<noteq> None"
    using ty by (auto simp: final_type_def oget_None_iff split: if_splits option.splits list.splits)
  with ty show ?thesis by (rule that)
qed

text \<open>
  Of the responses of a transport one is taken whenever there is one, and the conversion starts at
  its type: that type is at the front of the types, it is the type of the value that is returned, it is
  the type that was wanted (that of the content, or the first one asked for) when there is a response of
  that type, and the types asked for follow in their order, those \<open>*\<close> at the front taken off.
\<close>

theorem handle_takes:
  assumes "responses \<noteq> []" "ajaxHandleResponses s header responses = (s', v)"
  shows "\<exists>ty rest. dataTypes s' = ty # rest \<and> oget responses ty = Some v
    \<and> (rest = wanted_types s header \<or> ty # rest = wanted_types s header)
    \<and> (wanted_types s header \<noteq> [] \<and> oget responses (hd (wanted_types s header)) \<noteq> None \<longrightarrow> ty = hd (wanted_types s header))"
proof -
  obtain ty where f: "final_type s (wanted_types s header) responses = Some ty" "oget responses ty \<noteq> None"
    using assms(1) by (rule final_type_found)
  then show ?thesis using assms(2)
    by (auto simp: ajaxHandleResponses_def Let_def final_type_def neq_Nil_conv split: if_splits option.splits)
qed

theorem handle_takes_witness:
  "\<exists>rest. dataTypes (fst (ajaxHandleResponses sample_settings None [(''text'', V 4)])) = ''text'' # rest
    \<and> (rest = [''script'', ''json''] \<or> ''text'' # rest = [''script'', ''json''])"
proof -
  have w: "wanted_types sample_settings None = [''script'', ''json'']" by code_simp
  have one: "oget [(''text'', V (4 :: nat))] ty = Some v \<Longrightarrow> ty = ''text''" for ty v by (simp add: oget_Cons split: if_splits)
  obtain s' v where r: "ajaxHandleResponses sample_settings None [(''text'', V 4)] = (s', v)" by fastforce
  obtain ty rest where "dataTypes s' = ty # rest" "oget [(''text'', V 4)] ty = Some v" "rest = [''script'', ''json''] \<or> ty # rest = [''script'', ''json'']"
    using handle_takes [OF _ r] unfolding w by auto
  then show ?thesis using one unfolding r by auto
qed

end
