(* ===== verification/JQ_Request.thy ===== *)
theory JQ_Request
  imports JQ_Convert
begin

text \<open>
  How a request is put together (\<^verbatim>\<open>jquery.js\<close>, lines 8545 to 8593 and 9037 to 9138): its address, the
  origin it goes to, its types, the query and the headers.  The settings are those that
  \<open>ajaxSetup\<close> has merged; data is the text that \<open>param\<close> has made (see \<open>JQ_Form\<close>).
\<close>

section \<open>The request\<close>

record request =
  url :: string
  verb :: string                 \<comment> \<open>\<open>s.type\<close>\<close>
  verbs :: "string list"         \<comment> \<open>\<open>options.method\<close>, \<open>options.type\<close>, \<open>s.method\<close> and \<open>s.type\<close>, empty when absent\<close>
  data :: string                 \<comment> \<open>empty for none\<close>
  cache :: "bool option"
  ifModified :: bool
  contentType :: "string option" \<comment> \<open>\<open>None\<close> for \<open>false\<close>\<close>
  own_contentType :: bool        \<comment> \<open>whether the options of the call have one\<close>
  accepts :: "string obj"
  headers :: "string obj"
  global :: bool
  async :: bool
  timeout :: nat
  crossDomain :: "bool option"

section \<open>The address\<close>

definition line_end :: "char \<Rightarrow> bool" where
  "line_end c \<longleftrightarrow> of_char c = (10 :: nat) \<or> of_char c = (13 :: nat)"

text \<open>\<open>rhash\<close>: from the first \<open>#\<close> with no line end after it.\<close>

fun strip_hash :: "string \<Rightarrow> string" where
  "strip_hash [] = []"
| "strip_hash (c # cs) = (if c = CHR ''#'' \<and> list_all (\<lambda>x. \<not> line_end x) cs then [] else c # strip_hash cs)"

type_synonym parts = "string \<times> string option \<times> string option"   \<comment> \<open>the three groups of \<open>rurl\<close>\<close>

definition add_protocol :: "parts option \<Rightarrow> string \<Rightarrow> string" where
  "add_protocol loc u =
     (if take 2 u = ''//'' then (case loc of Some (p, _) \<Rightarrow> p | None \<Rightarrow> ''undefined'') @ ''//'' @ drop 2 u else u)"

definition first_truthy :: "string list \<Rightarrow> string" where
  "first_truthy xs = (case find (\<lambda>x. x \<noteq> '''') xs of Some x \<Rightarrow> x | None \<Rightarrow> '''')"

definition request_url :: "string \<Rightarrow> parts option \<Rightarrow> string \<Rightarrow> string \<Rightarrow> string" where
  "request_url location loc arg u = add_protocol loc (strip_hash (first_truthy [arg, u, location]))"

text \<open>\<open>rurl\<close>: a scheme with its colon, and after two slashes a user, a host and a port.\<close>

definition word_char :: "char \<Rightarrow> bool" where
  "word_char c \<longleftrightarrow> is_lower c \<or> is_upper c \<or> is_digit c \<or> c = CHR ''_''"

definition scheme_char :: "char \<Rightarrow> bool" where
  "scheme_char c \<longleftrightarrow> word_char c \<or> c \<in> {CHR ''.'', CHR ''+'', CHR ''-''}"

definition in_authority :: "char \<Rightarrow> bool" where
  "in_authority c \<longleftrightarrow> c \<notin> {CHR ''/'', CHR ''?'', CHR ''#''}"

definition drop_user :: "string \<Rightarrow> string" where
  "drop_user s =
     (let a = takeWhile in_authority s
      in if CHR ''@'' \<in> set a then rev (takeWhile (\<lambda>c. c \<noteq> CHR ''@'') (rev a)) @ drop (length a) s else s)"

definition host_port :: "string \<Rightarrow> string \<times> string option" where
  "host_port s =
     (let h = takeWhile (\<lambda>c. in_authority c \<and> c \<noteq> CHR '':'') s; r = drop (length h) s
      in (h, if r \<noteq> [] \<and> hd r = CHR '':'' \<and> takeWhile is_digit (tl r) \<noteq> [] then Some (takeWhile is_digit (tl r)) else None))"

definition url_parts :: "string \<Rightarrow> parts option" where
  "url_parts u =
     (let s = takeWhile scheme_char u; r = drop (length s) u
      in if s = [] \<or> r = [] \<or> hd r \<noteq> CHR '':'' then None
         else if take 2 (tl r) = ''//'' then (case host_port (drop_user (drop 2 (tl r))) of (h, p) \<Rightarrow> Some (s @ '':'', Some h, p))
         else Some (s @ '':'', None, None))"

definition port_of :: "parts \<Rightarrow> string" where
  "port_of p = (case p of (scheme, _, port) \<Rightarrow>
     (case port of Some d \<Rightarrow> d | None \<Rightarrow> if scheme = ''http:'' then ''80'' else ''443''))"

definition cross_domain :: "parts option \<Rightarrow> string \<Rightarrow> bool" where
  "cross_domain loc u =
     (case url_parts (lower u) of
        None \<Rightarrow> False
      | Some p \<Rightarrow> (case loc of None \<Rightarrow> True
          | Some l \<Rightarrow> fst p \<noteq> fst l \<or> fst (snd p) \<noteq> fst (snd l) \<or> port_of p \<noteq> port_of l))"

section \<open>Types and method\<close>

definition split_types :: "string option \<Rightarrow> string list" where
  "split_types ty =
     (case words (lower (jq_trim (Some (case ty of Some t \<Rightarrow> if t = '''' then ''*'' else t | None \<Rightarrow> ''*'')))) of
        [] \<Rightarrow> [''''] | ws \<Rightarrow> ws)"

definition has_content :: "request \<Rightarrow> bool" where
  "has_content r \<longleftrightarrow> verb r \<noteq> ''GET'' \<and> verb r \<noteq> ''HEAD''"

section \<open>The query\<close>

definition add_query :: "string \<Rightarrow> string \<Rightarrow> string" where
  "add_query u q = u @ (if CHR ''?'' \<in> set u then ''&'' else ''?'') @ q"

text \<open>\<open>rts\<close>: the value of the first parameter \<open>_\<close> is replaced.\<close>

fun replace_ts :: "string \<Rightarrow> string \<Rightarrow> string option" where
  "replace_ts n [] = None"
| "replace_ts n (c # cs) =
     (if (c = CHR ''?'' \<or> c = CHR ''&'') \<and> take 2 cs = ''_='' then Some (c # ''_='' @ n @ dropWhile (\<lambda>x. x \<noteq> CHR ''&'') (drop 2 cs))
      else map_option (Cons c) (replace_ts n cs))"

text \<open>A request without content: the data goes to the address, and a number against the cache.  The result
  has the address without that number, \<open>cacheURL\<close>, too.\<close>

definition with_query :: "request \<Rightarrow> nat \<Rightarrow> request \<times> string \<times> nat" where
  "with_query r nonce =
     (if has_content r then (r, url r, nonce)
      else let cu = (if data r \<noteq> '''' then add_query (url r) (data r) else url r);
               r' = r\<lparr>url := cu, data := ''''\<rparr>
           in if cache r = Some False
              then (r'\<lparr>url := (case replace_ts (nat_str nonce) cu of Some u \<Rightarrow> u | None \<Rightarrow> add_query cu (''_='' @ nat_str nonce))\<rparr>, cu, nonce + 1)
              else (r', cu, nonce))"

section \<open>Headers\<close>

text \<open>The headers that are sent, and the spelling each name was first set with.\<close>

record hdrs =
  sent :: "string obj"
  spelling :: "string obj"

definition set_header :: "string \<Rightarrow> string \<Rightarrow> hdrs \<Rightarrow> hdrs" where
  "set_header nm v h =
     (let nm' = (case oget (spelling h) (lower nm) of Some m \<Rightarrow> if m = '''' then nm else m | None \<Rightarrow> nm)
      in h\<lparr>spelling := oset (spelling h) (lower nm) nm', sent := oset (sent h) nm' v\<rparr>)"

definition accept_value :: "request \<Rightarrow> string list \<Rightarrow> string" where
  "accept_value r types =
     (case oget (accepts r) (hd types) of
        Some a \<Rightarrow> if hd types \<noteq> '''' \<and> a \<noteq> '''' then a @ (if hd types \<noteq> ''*'' then '', */*; q=0.01'' else '''')
                   else (case oget (accepts r) ''*'' of Some b \<Rightarrow> b | None \<Rightarrow> ''undefined'')
      | None \<Rightarrow> (case oget (accepts r) ''*'' of Some b \<Rightarrow> b | None \<Rightarrow> ''undefined''))"

text \<open>The headers that \<open>ajax\<close> sets, in their order.\<close>

definition own_headers :: "request \<Rightarrow> string list \<Rightarrow> string obj \<Rightarrow> string obj \<Rightarrow> string \<Rightarrow> string obj" where
  "own_headers r types lastModified etag cacheURL =
     (if ifModified r then
        (case oget lastModified cacheURL of Some m \<Rightarrow> if m \<noteq> '''' then [(''If-Modified-Since'', m)] else [] | None \<Rightarrow> [])
        @ (case oget etag cacheURL of Some m \<Rightarrow> if m \<noteq> '''' then [(''If-None-Match'', m)] else [] | None \<Rightarrow> [])
      else [])
     @ (if data r \<noteq> '''' \<and> has_content r \<and> contentType r \<noteq> None \<or> own_contentType r
        then [(''Content-Type'', case contentType r of Some t \<Rightarrow> t | None \<Rightarrow> ''false'')] else [])
     @ [(''Accept'', accept_value r types)]
     @ headers r"

definition set_headers :: "string obj \<Rightarrow> hdrs \<Rightarrow> hdrs" where
  "set_headers kvs h = foldl (\<lambda>h (k, v). set_header k v h) h kvs"

text \<open>The header block of an answer (\<open>rheaders\<close>), by lower-case names; the last of several lines counts.\<close>

definition header_lines :: "string \<Rightarrow> string list" where
  "header_lines s = words_by line_end s"

definition header_entry :: "string \<Rightarrow> (string \<times> string) option" where
  "header_entry l =
     (if CHR '':'' \<in> set l
      then Some (lower (takeWhile (\<lambda>c. c \<noteq> CHR '':'') l),
                 dropWhile (\<lambda>c. c = CHR '' '' \<or> of_char c = (9 :: nat)) (tl (dropWhile (\<lambda>c. c \<noteq> CHR '':'') l)))
      else None)"

definition parse_headers :: "string \<Rightarrow> string obj" where
  "parse_headers s =
     foldl (\<lambda>t l. case header_entry l of Some (k, v) \<Rightarrow> oset t k v | None \<Rightarrow> t) [] (header_lines s)"

section \<open>The origin\<close>

lemma takeWhile_stop: "list_all P xs \<Longrightarrow> ys = [] \<or> \<not> P (hd ys) \<Longrightarrow> takeWhile P (xs @ ys) = xs"
  by (cases ys) (auto simp: list_all_iff takeWhile_tail)

definition plain_host :: "char \<Rightarrow> bool" where
  "plain_host c \<longleftrightarrow> in_authority c \<and> c \<noteq> CHR '':'' \<and> c \<noteq> CHR ''@''"

text \<open>An address from its pieces; what follows the authority is empty or starts with one of its ends.\<close>

definition make_url :: "string \<Rightarrow> string option \<Rightarrow> string \<Rightarrow> string option \<Rightarrow> string \<Rightarrow> string" where
  "make_url scheme user host port path =
     scheme @ ''://'' @ (case user of Some u \<Rightarrow> u @ ''@'' | None \<Rightarrow> '''') @ host
       @ (case port of Some d \<Rightarrow> '':'' @ d | None \<Rightarrow> '''') @ path"

definition url_ok :: "string \<Rightarrow> string option \<Rightarrow> string \<Rightarrow> string option \<Rightarrow> string \<Rightarrow> bool" where
  "url_ok scheme user host port path \<longleftrightarrow>
     scheme \<noteq> [] \<and> list_all scheme_char scheme \<and> list_all plain_host host
     \<and> (case user of Some u \<Rightarrow> list_all in_authority u | None \<Rightarrow> True)
     \<and> (case port of Some d \<Rightarrow> d \<noteq> [] \<and> list_all is_digit d | None \<Rightarrow> True)
     \<and> (path = [] \<or> \<not> in_authority (hd path))"

lemma digit_auth: "is_digit c \<Longrightarrow> plain_host c"
  by (auto simp: is_digit_def plain_host_def in_authority_def)

lemma drop_user_made:
  assumes "list_all plain_host host" "list_all in_authority rest" "CHR ''@'' \<notin> set rest" "path = [] \<or> \<not> in_authority (hd path)"
    and "case user of Some u \<Rightarrow> list_all in_authority u | None \<Rightarrow> True"
  shows "drop_user ((case user of Some u \<Rightarrow> u @ ''@'' | None \<Rightarrow> '''') @ host @ rest @ path) = host @ rest @ path"
proof -
  let ?a = "(case user of Some u \<Rightarrow> u @ ''@'' | None \<Rightarrow> '''') @ host @ rest"
  have host: "CHR ''@'' \<notin> set host" "list_all in_authority host"
    using assms(1) by (auto simp: list_all_iff plain_host_def)
  have all: "list_all in_authority ?a"
    using host assms(2,5) by (auto simp: in_authority_def split: option.split)
  have tw: "takeWhile in_authority (?a @ path) = ?a" using all assms(4) by (rule takeWhile_stop)
  have bk: "takeWhile (\<lambda>c. c \<noteq> CHR ''@'') (rev rest @ rev host @ CHR ''@'' # ys) = rev rest @ rev host" for ys
    using host(1) assms(3) takeWhile_stop [of "\<lambda>c. c \<noteq> CHR ''@''" "rev rest @ rev host" "CHR ''@'' # ys"]
    by (auto simp: list_all_iff)
  show ?thesis
    using tw host(1) assms(3) by (cases user) (simp_all add: drop_user_def bk)
qed

lemma url_parts_made:
  assumes "url_ok scheme user host port path"
  shows "url_parts (make_url scheme user host port path) = Some (scheme @ '':'', Some host, port)"
proof -
  let ?p = "case port of Some d \<Rightarrow> '':'' @ d | None \<Rightarrow> ''''"
  have ok: "scheme \<noteq> []" "list_all scheme_char scheme" "list_all plain_host host" "path = [] \<or> \<not> in_authority (hd path)"
    "case user of Some u \<Rightarrow> list_all in_authority u | None \<Rightarrow> True"
    "case port of Some d \<Rightarrow> d \<noteq> [] \<and> list_all is_digit d | None \<Rightarrow> True"
    using assms by (auto simp: url_ok_def)
  have dg: "list_all in_authority d \<and> CHR ''@'' \<notin> set d" if "list_all is_digit d" for d
    using that digit_auth unfolding list_all_iff plain_host_def by blast
  have p: "list_all in_authority ?p" "CHR ''@'' \<notin> set ?p"
    using ok(6) dg by (auto simp: in_authority_def split: option.split)
  have s: "takeWhile scheme_char (make_url scheme user host port path) = scheme"
    unfolding make_url_def using ok(2) by (rule takeWhile_stop) (simp add: scheme_char_def word_char_def is_lower_def is_upper_def is_digit_def)
  have u: "drop_user ((case user of Some u \<Rightarrow> u @ ''@'' | None \<Rightarrow> '''') @ host @ ?p @ path) = host @ ?p @ path"
    by (rule drop_user_made [OF ok(3) p ok(4,5)])
  have h: "takeWhile (\<lambda>c. in_authority c \<and> c \<noteq> CHR '':'') (host @ ?p @ path) = host"
    by (rule takeWhile_stop) (use ok(3,4) in \<open>auto simp: list_all_iff plain_host_def split: option.split\<close>)
  have d: "takeWhile is_digit (d @ path) = d" if "list_all is_digit d" for d
    by (rule takeWhile_stop [OF that]) (use ok(4) in \<open>auto simp: is_digit_def in_authority_def\<close>)
  have "host_port (host @ ?p @ path) = (host, port)"
    using h ok(4,6) d by (cases port) (auto simp: host_port_def Let_def in_authority_def)
  then show ?thesis
    using s u ok(1) by (simp add: url_parts_def) (simp add: make_url_def)
qed

lemma lower_char_class:
  "scheme_char c \<Longrightarrow> scheme_char (to_lower c)" "in_authority c \<Longrightarrow> in_authority (to_lower c)"
  "plain_host c \<Longrightarrow> plain_host (to_lower c)" "is_digit c \<Longrightarrow> to_lower c = c" "\<not> in_authority c \<Longrightarrow> to_lower c = c"
proof -
  have up: "is_lower (to_lower c) \<and> plain_host (to_lower c)" if "is_upper c"
    using is_lower_to_lower [OF that] by (auto simp: plain_host_def in_authority_def is_lower_def)
  have low: "to_lower c = c" if "\<not> is_upper c" by (rule not_upper_to_lower [OF that])
  show "scheme_char c \<Longrightarrow> scheme_char (to_lower c)" using up low by (cases "is_upper c") (auto simp: scheme_char_def word_char_def)
  show "in_authority c \<Longrightarrow> in_authority (to_lower c)" using up low by (cases "is_upper c") (auto simp: plain_host_def)
  show "plain_host c \<Longrightarrow> plain_host (to_lower c)" using up low by (cases "is_upper c") auto
  show "is_digit c \<Longrightarrow> to_lower c = c" by (rule low) (simp add: is_digit_def is_upper_def)
  show "\<not> in_authority c \<Longrightarrow> to_lower c = c" by (rule low) (auto simp: in_authority_def is_upper_def)
qed

lemma lower_id: "list_all is_digit d \<Longrightarrow> lower d = d"
  by (auto simp: lower_def list_all_iff lower_char_class(4) intro: map_idI)

lemma url_ok_lower:
  assumes "url_ok scheme user host port path"
  shows "url_ok (lower scheme) (map_option lower user) (lower host) port (lower path)"
  using assms by (cases path) (auto simp: url_ok_def lower_def list_all_iff lower_char_class split: option.splits)

lemma make_url_lower:
  assumes "url_ok scheme user host port path"
  shows "lower (make_url scheme user host port path) = make_url (lower scheme) (map_option lower user) (lower host) port (lower path)"
proof -
  have c: "to_lower (CHR '':'') = CHR '':''" "to_lower (CHR ''/'') = CHR ''/''" "to_lower (CHR ''@'') = CHR ''@''" by code_simp+
  have "lower d = d" if "port = Some d" for d using assms that by (intro lower_id) (simp add: url_ok_def)
  then show ?thesis by (cases user; cases port) (simp_all add: make_url_def lower_def c)
qed

definition port_or_default :: "string \<Rightarrow> string option \<Rightarrow> string" where
  "port_or_default scheme port = (case port of Some d \<Rightarrow> d | None \<Rightarrow> if lower scheme = ''http'' then ''80'' else ''443'')"

text \<open>
  C39: A request is taken for one to another origin exactly when its scheme, host or port differs from
  the ones of the page, without regard to letter case, with 80 for the port of \<open>http\<close> and 443 for
  that of any other scheme when there is none, and whatever user and path there are.
\<close>

theorem cross_domain_origin:
  assumes "url_ok scheme user host port path" "url_ok scheme0 user0 host0 port0 path0"
  shows "cross_domain (url_parts (lower (make_url scheme0 user0 host0 port0 path0))) (make_url scheme user host port path) \<longleftrightarrow>
    \<not> (lower scheme = lower scheme0 \<and> lower host = lower host0 \<and> port_or_default scheme port = port_or_default scheme0 port0)"
proof -
  have p: "url_parts (lower (make_url s u h p q)) = Some (lower s @ '':'', Some (lower h), p)" if "url_ok s u h p q" for s u h p q
    using url_parts_made [OF url_ok_lower [OF that]] make_url_lower [OF that] by simp
  have po: "port_of (lower s @ '':'', h, p) = port_or_default s p" for s h p
    by (cases p) (auto simp: port_of_def port_or_default_def append_eq_Cons_conv split: list.splits)
  show ?thesis by (simp add: cross_domain_def p [OF assms(1)] p [OF assms(2)] po)
qed

theorem cross_domain_origin_witness:
  "\<not> cross_domain (url_parts (lower ''http://Docs.example:80/a'')) ''HTTP://me@docs.example/b?c''
   \<and> cross_domain (url_parts (lower ''http://docs.example/a'')) ''https://docs.example/b''"
proof -
  have "url_ok ''HTTP'' (Some ''me'') ''docs.example'' None ''/b?c''" "url_ok ''http'' None ''Docs.example'' (Some ''80'') ''/a''"
    "url_ok ''https'' None ''docs.example'' None ''/b''" "url_ok ''http'' None ''docs.example'' None ''/a''" by code_simp+
  from cross_domain_origin [OF this(1,2)] cross_domain_origin [OF this(3,4)] show ?thesis
    by (simp add: make_url_def port_or_default_def) code_simp
qed

section \<open>The headers are set once\<close>

definition no_hdrs :: hdrs where
  "no_hdrs = \<lparr>sent = [], spelling = []\<rparr>"

definition last_value :: "string obj \<Rightarrow> string \<Rightarrow> string option" where
  "last_value kvs nm = map_of (rev (map (\<lambda>(k, v). (lower k, v)) kvs)) (lower nm)"

definition first_spelling :: "string obj \<Rightarrow> string \<Rightarrow> string option" where
  "first_spelling kvs nm = map_of (map (\<lambda>(k, v). (lower k, k)) kvs) (lower nm)"

lemma set_headers_inv:
  "(\<forall>nm. oget (spelling (set_headers kvs no_hdrs)) (lower nm) = first_spelling kvs nm)
   \<and> (\<forall>m. oget (sent (set_headers kvs no_hdrs)) m = (if first_spelling kvs m = Some m then last_value kvs m else None))
   \<and> distinct (okeys (sent (set_headers kvs no_hdrs)))"
proof (induction kvs rule: rev_induct)
  case Nil
  show ?case by (simp add: set_headers_def no_hdrs_def first_spelling_def last_value_def okeys_def)
next
  case (snoc kv kvs)
  obtain k v where kv: "kv = (k, v)" by fastforce
  let ?h = "set_headers kvs no_hdrs"
  let ?n = "case first_spelling kvs k of Some m \<Rightarrow> m | None \<Rightarrow> k"
  have lw: "lower m = lower k" if "first_spelling kvs k = Some m" for m
    using map_of_SomeD [OF that [unfolded first_spelling_def]] by auto
  have empty: "lower m = [] \<longleftrightarrow> m = []" for m by (simp add: lower_def)
  have nm: "(case oget (spelling ?h) (lower k) of Some m \<Rightarrow> if m = '''' then k else m | None \<Rightarrow> k) = ?n"
    using snoc.IH lw empty by (auto split: option.split) (metis list.map_disc_iff lower_def)
  have st: "set_headers (kvs @ [kv]) no_hdrs = ?h\<lparr>spelling := oset (spelling ?h) (lower k) ?n, sent := oset (sent ?h) ?n v\<rparr>"
    using nm by (simp add: set_headers_def kv set_header_def Let_def)
  have ln: "lower ?n = lower k" using lw by (auto split: option.split)
  have fs: "first_spelling (kvs @ [kv]) m = (if lower m = lower k then Some ?n else first_spelling kvs m)" for m
    by (auto simp: first_spelling_def kv map_add_def split: option.splits)
  have lv: "last_value (kvs @ [kv]) m = (if lower m = lower k then Some v else last_value kvs m)" for m
    by (simp add: last_value_def kv)
  have sn: "oget (sent ?h) m = (if first_spelling kvs m = Some m then last_value kvs m else None)" for m
    using snoc.IH by blast
  show ?case
  proof (intro conjI allI)
    show "oget (spelling (set_headers (kvs @ [kv]) no_hdrs)) (lower m) = first_spelling (kvs @ [kv]) m" for m
      using snoc.IH by (simp add: st fs)
    show "oget (sent (set_headers (kvs @ [kv]) no_hdrs)) m =
        (if first_spelling (kvs @ [kv]) m = Some m then last_value (kvs @ [kv]) m else None)" (is "?lhs = ?rhs") for m
    proof (cases "lower m = lower k")
      case True
      then have "first_spelling kvs m = first_spelling kvs k" by (simp add: first_spelling_def)
      then have "m \<noteq> ?n \<Longrightarrow> first_spelling kvs m \<noteq> Some m" by auto
      then show ?thesis using sn True by (simp add: st fs lv eq_commute)
    next
      case False
      then have "m \<noteq> ?n" using ln by metis
      then show ?thesis using sn False by (simp add: st fs lv)
    qed
    show "distinct (okeys (sent (set_headers (kvs @ [kv]) no_hdrs)))"
      using snoc.IH by (simp add: st)
  qed
qed

text \<open>
  C40: Of the headers that are set for a request each name is sent once, whatever the letter case it was
  set with: with the value that was set last and spelled as it was first.
\<close>

theorem headers_sent_once:
  "distinct (map lower (okeys (sent (set_headers kvs no_hdrs))))
   \<and> (oget (sent (set_headers kvs no_hdrs)) m = Some v \<longleftrightarrow> first_spelling kvs m = Some m \<and> last_value kvs m = Some v)"
proof
  let ?s = "sent (set_headers kvs no_hdrs)"
  have d: "distinct (okeys ?s)" and g: "oget ?s m = (if first_spelling kvs m = Some m then last_value kvs m else None)" for m
    using set_headers_inv [of kvs] by auto
  have "inj_on lower (set (okeys ?s))"
  proof (rule inj_onI)
    fix a b assume "a \<in> set (okeys ?s)" "b \<in> set (okeys ?s)" "lower a = lower b"
    then have "first_spelling kvs a = Some a" "first_spelling kvs b = Some b" using g oget_None_iff [of ?s] by metis+
    then show "a = b" using \<open>lower a = lower b\<close> by (simp add: first_spelling_def)
  qed
  with d show "distinct (map lower (okeys ?s))" by (simp add: distinct_map)
  show "oget ?s m = Some v \<longleftrightarrow> first_spelling kvs m = Some m \<and> last_value kvs m = Some v" using g by simp
qed

section \<open>The query of a request without content\<close>

lemma replace_ts_found:
  "replace_ts n u = Some w \<Longrightarrow> \<exists>a c v b. u = a @ c # ''_='' @ v @ b \<and> w = a @ c # ''_='' @ n @ b \<and> (c = CHR ''?'' \<or> c = CHR ''&'')
     \<and> CHR ''&'' \<notin> set v \<and> (b = [] \<or> hd b = CHR ''&'')"
proof (induction n u arbitrary: w rule: replace_ts.induct)
  case (2 n c cs)
  show ?case
  proof (cases "(c = CHR ''?'' \<or> c = CHR ''&'') \<and> take 2 cs = ''_=''")
    case True
    let ?v = "takeWhile (\<lambda>x. x \<noteq> CHR ''&'') (drop 2 cs)" and ?b = "dropWhile (\<lambda>x. x \<noteq> CHR ''&'') (drop 2 cs)"
    have "c # cs = [] @ c # ''_='' @ ?v @ ?b" using True append_take_drop_id [of 2 cs] by simp
    moreover have "w = [] @ c # ''_='' @ n @ ?b" using 2(2) True by simp
    moreover have "CHR ''&'' \<notin> set ?v" using set_takeWhileD [of "CHR ''&''" "\<lambda>x. x \<noteq> CHR ''&''" "drop 2 cs"] by blast
    moreover have "?b = [] \<or> hd ?b = CHR ''&''" using hd_dropWhile [of "\<lambda>x. x \<noteq> CHR ''&''" "drop 2 cs"] by blast
    ultimately show ?thesis using True by blast
  next
    case False
    then obtain w' where w: "replace_ts n cs = Some w'" "w = c # w'" using 2(2) by auto
    from 2(1) [OF False w(1)] obtain a d v b where
      "cs = a @ d # ''_='' @ v @ b" "w' = a @ d # ''_='' @ n @ b" "d = CHR ''?'' \<or> d = CHR ''&''" "CHR ''&'' \<notin> set v" "b = [] \<or> hd b = CHR ''&''"
      by blast
    then have "c # cs = (c # a) @ d # ''_='' @ v @ b" "w = (c # a) @ d # ''_='' @ n @ b" using w(2) by simp_all
    with \<open>d = CHR ''?'' \<or> d = CHR ''&''\<close> \<open>CHR ''&'' \<notin> set v\<close> \<open>b = [] \<or> hd b = CHR ''&''\<close> show ?thesis
      by (intro exI [of _ "c # a"] exI [of _ d] exI [of _ v] exI [of _ b] conjI)
  qed
qed simp

text \<open>The number against the cache is the value of a parameter, and the only change to the address.\<close>

lemma no_cache_parameter:
  assumes "\<not> has_content r" "cache r = Some False" "with_query r nonce = (r', cu, nonce')"
  shows "nonce' = nonce + 1" "data r' = []" "cu = (if data r = [] then url r else add_query (url r) (data r))"
    "\<exists>a c v b. (cu = a @ c # ''_='' @ v @ b \<or> cu = a \<and> v = [] \<and> b = []) \<and> url r' = a @ c # ''_='' @ nat_str nonce @ b
       \<and> (c = CHR ''?'' \<or> c = CHR ''&'') \<and> (b = [] \<or> hd b = CHR ''&'')"
proof -
  show "nonce' = nonce + 1" "data r' = []" and cu: "cu = (if data r = [] then url r else add_query (url r) (data r))"
    using assms by (auto simp: with_query_def Let_def)
  show "\<exists>a c v b. (cu = a @ c # ''_='' @ v @ b \<or> cu = a \<and> v = [] \<and> b = []) \<and> url r' = a @ c # ''_='' @ nat_str nonce @ b
       \<and> (c = CHR ''?'' \<or> c = CHR ''&'') \<and> (b = [] \<or> hd b = CHR ''&'')"
  proof (cases "replace_ts (nat_str nonce) cu")
    case None
    then have "url r' = cu @ (if CHR ''?'' \<in> set cu then CHR ''&'' else CHR ''?'') # ''_='' @ nat_str nonce @ []"
      using assms cu by (auto simp: with_query_def Let_def add_query_def)
    then show ?thesis by fastforce
  next
    case (Some w)
    then have "url r' = w" using assms cu by (auto simp: with_query_def Let_def)
    with replace_ts_found [OF Some] show ?thesis by blast
  qed
qed

section \<open>The headers of an answer\<close>

definition header_block :: "string obj \<Rightarrow> string" where
  "header_block kvs = concat (map (\<lambda>(k, v). k @ '': '' @ v @ [char_of (13 :: nat), char_of (10 :: nat)]) kvs)"

definition header_ok :: "string \<times> string \<Rightarrow> bool" where
  "header_ok kv \<longleftrightarrow> (case kv of (k, v) \<Rightarrow>
     list_all (\<lambda>c. \<not> line_end c \<and> c \<noteq> CHR '':'') k \<and> list_all (\<lambda>c. \<not> line_end c) v
     \<and> (v = [] \<or> hd v \<noteq> CHR '' '' \<and> of_char (hd v) \<noteq> (9 :: nat)))"

lemma header_lines_block:
  "list_all header_ok kvs \<Longrightarrow> header_lines (header_block kvs) = map (\<lambda>(k, v). k @ '': '' @ v) kvs"
proof (induction kvs)
  case (Cons kv kvs)
  obtain k v where kv: "kv = (k, v)" by fastforce
  have l: "line_end (char_of (13 :: nat))" "line_end (char_of (10 :: nat))" by (simp_all add: line_end_def of_char_of)
  have w: "words_by line_end (k @ '': '' @ v) = [k @ '': '' @ v]"
    by (rule words_by_word) (use Cons.prems kv in \<open>auto simp: header_ok_def list_all_iff line_end_def\<close>)
  have "header_block (kv # kvs) = (k @ '': '' @ v) @ char_of (13 :: nat) # char_of (10 :: nat) # header_block kvs"
    by (simp add: header_block_def kv)
  then have "words_by line_end (header_block (kv # kvs)) = (k @ '': '' @ v) # words_by line_end (header_block kvs)"
    using w l by (simp only: words_by_sep [where sp = line_end] words_by_Cons_sep [where sp = line_end] append_Cons append_Nil)
  then show ?case using Cons by (simp add: kv header_lines_def)
qed (simp add: header_block_def header_lines_def)

lemma header_entry_line: "header_ok (k, v) \<Longrightarrow> header_entry (k @ '': '' @ v) = Some (lower k, v)"
proof -
  assume "header_ok (k, v)"
  then have k: "list_all (\<lambda>c. c \<noteq> CHR '':'') k" and v: "v = [] \<or> hd v \<noteq> CHR '' '' \<and> of_char (hd v) \<noteq> (9 :: nat)"
    by (auto simp: header_ok_def list_all_iff)
  have "takeWhile (\<lambda>c. c \<noteq> CHR '':'') (k @ '': '' @ v) = k" by (rule takeWhile_stop [OF k]) simp
  moreover have "dropWhile (\<lambda>c. c \<noteq> CHR '':'') (k @ '': '' @ v) = '': '' @ v" using k by (induction k) simp_all
  moreover have "dropWhile (\<lambda>c. c = CHR '' '' \<or> of_char c = (9 :: nat)) ('' '' @ v) = v" using v by (cases v) auto
  ultimately show ?thesis by (simp add: header_entry_def)
qed

text \<open>
  The header block of an answer is read back: under each name, in whatever letter case, the value of
  the last line with that name.
\<close>

theorem header_block_read:
  assumes "list_all header_ok kvs"
  shows "oget (parse_headers (header_block kvs)) (lower k) = last_value kvs k"
proof -
  have "foldl (\<lambda>t l. case header_entry l of Some (k, v) \<Rightarrow> oset t k v | None \<Rightarrow> t) t (map (\<lambda>(k, v). k @ '': '' @ v) kvs)
      = foldl (\<lambda>t (k, v). oset t k v) t (map (\<lambda>(k, v). (lower k, v)) kvs)" for t
    using assms
  proof (induction kvs arbitrary: t)
    case (Cons kv kvs)
    then show ?case using header_entry_line by (cases kv) simp
  qed simp
  then show ?thesis
    using header_lines_block [OF assms] obj_store.look_foldl_put [of "[]" "map (\<lambda>(k, v). (lower k, v)) kvs" "lower k"]
    by (simp add: parse_headers_def last_value_def split: option.splits)
qed

theorem header_block_read_witness:
  "oget (parse_headers (header_block [(''Etag'', ''x:1''), (''Content-Type'', ''text/html''), (''ETag'', ''y'')])) (lower ''etag'') = Some ''y''"
proof -
  have "list_all header_ok [(''Etag'', ''x:1''), (''Content-Type'', ''text/html''), (''ETag'', ''y'')]" by code_simp
  from header_block_read [OF this, of "''etag''"] show ?thesis by (simp add: last_value_def) code_simp
qed

end
