(* ===== verification/JQ_Ajax.thy ===== *)
theory JQ_Ajax
  imports JQ_Request
begin

text \<open>
  The life of a request (\<^verbatim>\<open>jquery.js\<close>, lines 8595 to 8650 and 8913 to 9302): prefilters and transports,
  the call of \<open>ajax\<close> up to the call of the transport, and what happens to the request afterwards, with
  the counter of the requests that are open.  What a page provides is a parameter: prefilters,
  \<open>beforeSend\<close>, the factories of transports and the handlers of global events are functions from the
  state to the operations they apply, and do not raise (an exception of theirs would leave \<open>ajax\<close> with
  the request counted as open); a factory returns a transport or nothing, and a transport answers, or
  raises.  What the callbacks of the page
  do once a request is done is no part of it: \<open>abort_done\<close> shows that aborting has no effect then.
\<close>

section \<open>State\<close>

text \<open>A text as the code passes it on: a string, or the exception that took its place.\<close>

datatype 'v msg = Text string | Exn "'v jv" | TypeErr

datatype 'v effect =
  AjaxStart | AjaxSend | AjaxSuccess "'v jv" | AjaxError "'v msg" | is_complete: AjaxComplete | AjaxStop
| Sent request "string obj" | TransportAbort string | StatusRan "nat list"

record 'v xhr =
  req :: request
  sets :: "'v settings"
  state :: nat
  hds :: hdrs
  has_transport :: bool
  timer :: bool
  str_abort :: string
  cacheURL :: string
  fireGlobals :: bool
  headersString :: string
  readyState :: nat
  status :: int
  statusText :: "'v msg"
  resp_fields :: "'v jv obj"                             \<comment> \<open>\<open>responseText\<close> and the like\<close>
  statusCode :: "(int \<times> nat list) list option"    \<comment> \<open>\<open>None\<close> once it is dereferenced\<close>
  installed :: bool                                 \<comment> \<open>whether the callbacks of the settings are on the deferreds\<close>
  settled :: "('v jv + 'v msg) option"              \<comment> \<open>\<open>Inl\<close>: resolved with the data, \<open>Inr\<close>: rejected\<close>
  completed :: "'v msg option"
  active :: int                                     \<comment> \<open>\<open>jQuery.active\<close>\<close>
  lastModified :: "string obj"
  etag :: "string obj"
  nonce :: nat
  effects :: "'v effect list"

datatype 'v out = Fine | Thrown "'v msg" | Hangs

definition say :: "'v effect \<Rightarrow> 'v xhr \<Rightarrow> 'v xhr" where
  "say e x = x\<lparr>effects := effects x @ [e]\<rparr>"

section \<open>The request object\<close>

definition getResponseHeader :: "'v xhr \<Rightarrow> string \<Rightarrow> string option" where
  "getResponseHeader x key = (if state x = 2 then oget (parse_headers (headersString x)) (lower key) else None)"

definition setRequestHeader :: "string \<Rightarrow> string \<Rightarrow> 'v xhr \<Rightarrow> 'v xhr" where
  "setRequestHeader nm v x = (if state x = 0 then x\<lparr>hds := set_header nm v (hds x)\<rparr> else x)"

definition overrideMimeType :: "string \<Rightarrow> 'v xhr \<Rightarrow> 'v xhr" where
  "overrideMimeType ty x = (if state x = 0 then x\<lparr>sets := (sets x)\<lparr>mimeType := Some ty\<rparr>\<rparr> else x)"

definition add_codes :: "(int \<times> nat) list \<Rightarrow> (int \<times> nat list) list \<Rightarrow> (int \<times> nat list) list" where
  "add_codes kvs m = foldl (\<lambda>m (c, f). oset m c ((case oget m c of Some fs \<Rightarrow> fs | None \<Rightarrow> []) @ [f])) m kvs"

definition run_codes :: "int \<Rightarrow> (int \<times> nat list) list \<Rightarrow> 'v xhr \<Rightarrow> 'v xhr" where
  "run_codes c m x = (case oget m c of Some fs \<Rightarrow> say (StatusRan fs) x | None \<Rightarrow> x)"

definition on_status :: "(int \<times> nat) list \<Rightarrow> 'v xhr \<Rightarrow> 'v xhr \<times> 'v out" where
  "on_status kvs x =
     (if state x < 2 then
        (case statusCode x of
           Some m \<Rightarrow> (x\<lparr>statusCode := Some (add_codes kvs m)\<rparr>, Fine)
         | None \<Rightarrow> if kvs = [] then (x, Fine) else (x, Thrown TypeErr))
      else (run_codes (status x) (add_codes kvs []) x, Fine))"

section \<open>Done\<close>

fun truthy :: "'v msg \<Rightarrow> bool" where
  "truthy (Text t) \<longleftrightarrow> t \<noteq> ''''"
| "truthy (Exn Undef) \<longleftrightarrow> False"
| "truthy (Exn (V e)) \<longleftrightarrow> True"
| "truthy TypeErr \<longleftrightarrow> True"

definition is_success :: "int \<Rightarrow> bool" where
  "is_success code \<longleftrightarrow> 200 \<le> code \<and> code < 300 \<or> code = 304"

text \<open>What an answer amounts to: whether it is a success, the status text and code, the data and the error.\<close>

definition verdict :: "string \<Rightarrow> int \<Rightarrow> 'v msg \<Rightarrow> 'v converted \<Rightarrow> bool \<times> 'v msg \<times> int \<times> 'v jv \<times> 'v msg" where
  "verdict method code native conv =
     (if is_success code then
        if code = 204 \<or> method = ''HEAD'' then (True, Text ''nocontent'', code, Undef, Exn Undef)
        else if code = 304 then (True, Text ''notmodified'', code, Undef, Exn Undef)
        else (case conv of
            Success v \<Rightarrow> (True, Text ''success'', code, v, Exn Undef)
          | ParserError e \<Rightarrow> (\<not> truthy (Exn e), Text ''parsererror'', code, Undef, Exn e)
          | NoConversion a b \<Rightarrow> (False, Text ''parsererror'', code, Undef, Text (''No conversion from '' @ a @ '' to '' @ b))
          | Raised e \<Rightarrow> (False, Exn e, code, Undef, Exn e))
      else if code \<noteq> 0 \<or> \<not> truthy native then (False, Text ''error'', if code < 0 then 0 else code, Undef, native)
      else (False, native, code, Undef, native))"

definition keep_modified :: "'v xhr \<Rightarrow> 'v xhr" where
  "keep_modified x =
     (if ifModified (req x) then
        let x1 = (case getResponseHeader x ''Last-Modified'' of Some m \<Rightarrow> if m \<noteq> '''' then x\<lparr>lastModified := oset (lastModified x) (cacheURL x) m\<rparr> else x | None \<Rightarrow> x)
        in (case getResponseHeader x1 ''etag'' of Some m \<Rightarrow> if m \<noteq> '''' then x1\<lparr>etag := oset (etag x1) (cacheURL x1) m\<rparr> else x1 | None \<Rightarrow> x1)
      else x)"

definition settle :: "'v msg \<Rightarrow> bool \<times> 'v msg \<times> int \<times> 'v jv \<times> 'v msg \<Rightarrow> 'v xhr \<Rightarrow> 'v xhr" where
  "settle native res x = (case res of (ok, st, code, v, err) \<Rightarrow>
     let x1 = x\<lparr>status := code, statusText := (if truthy native then native else st),
                settled := (case settled x of None \<Rightarrow> Some (if ok then Inl v else Inr err) | Some d \<Rightarrow> Some d)\<rparr>;
         x2 = (case statusCode x1 of Some m \<Rightarrow> run_codes code m x1 | None \<Rightarrow> x1)\<lparr>statusCode := None\<rparr>;
         x3 = (if fireGlobals x2 then say (if ok then AjaxSuccess v else AjaxError err) x2 else x2);
         x4 = x3\<lparr>completed := (case completed x3 of None \<Rightarrow> Some st | Some t \<Rightarrow> Some t)\<rparr>
     in if fireGlobals x4 then
          let x5 = say AjaxComplete x4; x6 = x5\<lparr>active := active x5 - 1\<rparr>
          in if active x6 = 0 then say AjaxStop x6 else x6
        else x4)"

text \<open>\<open>xhr_done\<close> is \<open>done\<close>; an answer that is not a success takes no part in the cache of modifications.\<close>

definition xhr_done :: "int \<Rightarrow> 'v msg \<Rightarrow> 'v jv obj option \<Rightarrow> string \<Rightarrow> 'v xhr \<Rightarrow> 'v xhr \<times> 'v out" where
  "xhr_done code native responses hdrs x =
     (if state x = 2 then (x, Fine)
      else let x1 = x\<lparr>state := 2, timer := False, has_transport := False, headersString := hdrs, readyState := (if code > 0 then 4 else 0)\<rparr>;
               (s', response) = (case responses of None \<Rightarrow> (sets x1, Undef)
                  | Some rs \<Rightarrow> ajaxHandleResponses (sets x1) (getResponseHeader x1 ''Content-Type'') rs);
               x2 = x1\<lparr>sets := s'\<rparr>
           in case ajaxConvert s' response (is_success code) (resp_fields x2) of
                None \<Rightarrow> (x2, Hangs)
              | Some (conv, fs) \<Rightarrow>
                  (let x3 = x2\<lparr>resp_fields := fs\<rparr>
                   in case conv of
                        Raised e \<Rightarrow> (x3, Thrown (Exn e))
                      | _ \<Rightarrow> (settle native (verdict (verb (req x3)) code native conv) (if is_success code then keep_modified x3 else x3), Fine)))"

definition abort :: "string \<Rightarrow> 'v xhr \<Rightarrow> 'v xhr \<times> 'v out" where
  "abort text x =
     (let t = (if text \<noteq> '''' then text else str_abort x)
      in xhr_done 0 (Text t) None '''' (if has_transport x then say (TransportAbort t) x else x))"

section \<open>What the page does\<close>

datatype 'v opn = Abort string | Header string string | Mime string | OnStatus "(int \<times> nat) list" | Alter "request \<Rightarrow> request"

fun run_opn :: "'v opn \<Rightarrow> 'v xhr \<Rightarrow> 'v xhr \<times> 'v out" where
  "run_opn (Abort t) x = abort t x"
| "run_opn (Header nm v) x = (setRequestHeader nm v x, Fine)"
| "run_opn (Mime ty) x = (overrideMimeType ty x, Fine)"
| "run_opn (OnStatus kvs) x = on_status kvs x"
| "run_opn (Alter f) x = (x\<lparr>req := f (req x)\<rparr>, Fine)"

fun run_opns :: "'v opn list \<Rightarrow> 'v xhr \<Rightarrow> 'v xhr \<times> 'v out" where
  "run_opns [] x = (x, Fine)"
| "run_opns (p # ps) x = (case run_opn p x of (x', Fine) \<Rightarrow> run_opns ps x' | r \<Rightarrow> r)"

text \<open>A prefilter or factory returns nothing, the name of a type, or a transport.\<close>

datatype ret = Nothing | Type string | Transport

type_synonym 'v hook = "'v xhr \<Rightarrow> 'v opn list \<times> ret"

section \<open>Prefilters and transports\<close>

definition add_hook :: "'f list obj \<Rightarrow> 'f \<Rightarrow> string \<Rightarrow> 'f list obj" where
  "add_hook table f ty =
     (if hd ty = CHR ''+''
      then let ty' = (if tl ty \<noteq> '''' then tl ty else ''*'')
           in oset table ty' (f # (case oget table ty' of Some fs \<Rightarrow> fs | None \<Rightarrow> []))
      else oset table ty ((case oget table ty of Some fs \<Rightarrow> fs | None \<Rightarrow> []) @ [f]))"

definition addToPrefiltersOrTransports :: "'f list obj \<Rightarrow> string option \<Rightarrow> 'f \<Rightarrow> 'f list obj" where
  "addToPrefiltersOrTransports table expr f =
     foldl (\<lambda>st ty. add_hook st f ty) table (words (lower (case expr of Some e \<Rightarrow> e | None \<Rightarrow> ''*'')))"

definition hooks_of :: "'f list obj \<Rightarrow> string \<Rightarrow> 'f list" where
  "hooks_of table ty = (case oget table ty of Some fs \<Rightarrow> fs | None \<Rightarrow> [])"

definition unshift_type :: "string \<Rightarrow> 'v xhr \<Rightarrow> 'v xhr" where
  "unshift_type ty x = x\<lparr>sets := (sets x)\<lparr>dataTypes := ty # dataTypes (sets x)\<rparr>\<rparr>"

text \<open>\<open>inspect\<close> on the functions of one type: the state, the types inspected and whether one is selected.\<close>

function inspect :: "'v hook list obj \<Rightarrow> bool \<Rightarrow> string list \<Rightarrow> 'v hook list \<Rightarrow> 'v xhr \<Rightarrow> 'v xhr \<times> 'v out \<times> string list \<times> bool" where
  "inspect table seeking inspected [] x = (x, Fine, inspected, False)"
| "inspect table seeking inspected (h # hs) x =
     (case h x of (ps, ret) \<Rightarrow>
      case run_opns ps x of (x', out) \<Rightarrow>
        if out \<noteq> Fine then (x', out, inspected, False)
        else case ret of
          Type t \<Rightarrow> if \<not> seeking \<and> t \<notin> set inspected then inspect table seeking (t # inspected) (hooks_of table t) (unshift_type t x')
                     else if seeking \<and> t \<noteq> '''' then (x', Fine, inspected, True)
                     else inspect table seeking inspected hs x'
        | Transport \<Rightarrow> if seeking then (x', Fine, inspected, True) else inspect table seeking inspected hs x'
        | Nothing \<Rightarrow> inspect table seeking inspected hs x')"
  by pat_completeness auto
termination
proof (relation "measures [\<lambda>(table, seeking, inspected, hs, x). card (set (okeys table) - set inspected), \<lambda>(table, seeking, inspected, hs, x). length hs]")
  fix table :: "'v hook list obj" and seeking :: bool and inspected :: "string list" and h hs and x x' x'' :: "'v xhr" and t
  assume t: "\<not> seeking \<and> t \<notin> set inspected"
  show "((table, seeking, t # inspected, hooks_of table t, unshift_type t x'), table, seeking, inspected, h # hs, x)
    \<in> measures [\<lambda>(table, seeking, inspected, hs, x). card (set (okeys table) - set inspected), \<lambda>(table, seeking, inspected, hs, x). length hs]"
  proof (cases "t \<in> set (okeys table)")
    case True
    then have "card (set (okeys table) - set (t # inspected)) < card (set (okeys table) - set inspected)"
      using t by (intro psubset_card_mono) auto
    then show ?thesis by simp
  next
    case False
    then have "hooks_of table t = []" "set (okeys table) - set (t # inspected) = set (okeys table) - set inspected"
      by (auto simp: hooks_of_def oget_None_iff [THEN iffD2])
    then show ?thesis by simp
  qed
qed simp_all

definition inspectPrefiltersOrTransports :: "'v hook list obj \<Rightarrow> bool \<Rightarrow> 'v xhr \<Rightarrow> 'v xhr \<times> 'v out \<times> bool" where
  "inspectPrefiltersOrTransports table seeking x =
     (let ty = (case dataTypes (sets x) of [] \<Rightarrow> ''undefined'' | ty # _ \<Rightarrow> ty)
      in case inspect table seeking [ty] (hooks_of table ty) x of
           (x1, out, inspected, selected) \<Rightarrow>
             if out \<noteq> Fine \<or> selected \<or> ''*'' \<in> set inspected then (x1, out, selected)
             else (case inspect table seeking (''*'' # inspected) (hooks_of table ''*'') x1 of
                     (x2, out', _, selected') \<Rightarrow> (x2, out', selected')))"

section \<open>The call\<close>

datatype 'v answer = Answer int string "'v jv obj option" string

record 'v page =
  location :: string
  ajaxLocParts :: "parts option"
  prefilters :: "'v hook list obj"
  transports :: "'v hook list obj"
  on_start :: "'v xhr \<Rightarrow> 'v opn list"                          \<comment> \<open>handlers of \<open>ajaxStart\<close>\<close>
  on_send :: "'v xhr \<Rightarrow> 'v opn list"                           \<comment> \<open>handlers of \<open>ajaxSend\<close>\<close>
  beforeSend :: "('v xhr \<Rightarrow> 'v opn list \<times> bool) option"       \<comment> \<open>whether it returns \<open>false\<close>\<close>
  send :: "'v xhr \<Rightarrow> 'v answer list \<times> 'v jv option"             \<comment> \<open>what the transport answers at once, and raises\<close>

definition set_up :: "'v page \<Rightarrow> string \<Rightarrow> 'v xhr \<Rightarrow> 'v xhr" where
  "set_up page arg x =
     (let r = req x; u = request_url (location page) (ajaxLocParts page) arg (url r)
      in x\<lparr>req := r\<lparr>url := u, verb := first_truthy (verbs r),
                    crossDomain := (case crossDomain r of None \<Rightarrow> Some (cross_domain (ajaxLocParts page) u) | Some b \<Rightarrow> Some b)\<rparr>,
           sets := (sets x)\<lparr>dataTypes := split_types (dataType (sets x))\<rparr>\<rparr>)"

definition open_request :: "'v page \<Rightarrow> 'v xhr \<Rightarrow> 'v xhr \<times> 'v out" where
  "open_request page x =
     (let x1 = x\<lparr>fireGlobals := global (req x)\<rparr>
      in if fireGlobals x1 then
           (let x2 = x1\<lparr>active := active x1 + 1\<rparr>
            in if active x1 = 0 then let x3 = say AjaxStart x2 in run_opns (on_start page x3) x3 else (x2, Fine))
         else (x1, Fine))"

definition build :: "'v xhr \<Rightarrow> 'v xhr" where
  "build x =
     (case with_query ((req x)\<lparr>verb := upper (verb (req x))\<rparr>) (nonce x) of
        (r, cu, n) \<Rightarrow>
          foldl (\<lambda>x (k, v). setRequestHeader k v x) (x\<lparr>req := r, cacheURL := cu, nonce := n\<rparr>)
            (own_headers r (dataTypes (sets x)) (lastModified x) (etag x) cu))"

definition before_send :: "'v page \<Rightarrow> 'v xhr \<Rightarrow> 'v xhr \<times> 'v out \<times> bool" where
  "before_send page x =
     (case beforeSend page of
        None \<Rightarrow> (x, Fine, True)
      | Some f \<Rightarrow>
          (case f x of (ps, no) \<Rightarrow>
             (case run_opns ps x of (x1, out) \<Rightarrow>
                if out \<noteq> Fine then (x1, out, False)
                else if no \<or> state x1 = 2 then (case abort '''' x1 of (x2, out') \<Rightarrow> (x2, out', False))
                else (x1, Fine, True))))"

fun answers :: "'v answer list \<Rightarrow> 'v xhr \<Rightarrow> 'v xhr \<times> 'v out" where
  "answers [] x = (x, Fine)"
| "answers (Answer code native responses hdrs # rest) x =
     (case xhr_done code (Text native) responses hdrs x of (x', Fine) \<Rightarrow> answers rest x' | r \<Rightarrow> r)"

text \<open>\<open>transport.send\<close>: what it raises is caught.\<close>

definition sending :: "'v page \<Rightarrow> 'v xhr \<Rightarrow> 'v xhr \<times> 'v out" where
  "sending page x =
     (if has_transport x then
        let x1 = say (Sent (req x) (sent (hds x))) x
        in case send page x1 of (ans, raised) \<Rightarrow>
             (case answers ans x1 of
                (x2, Fine) \<Rightarrow> (x2, case raised of None \<Rightarrow> Fine | Some e \<Rightarrow> Thrown (Exn e))
              | r \<Rightarrow> r)
      else (x, Thrown TypeErr))"

definition send_request :: "'v page \<Rightarrow> 'v xhr \<Rightarrow> 'v xhr \<times> 'v out" where
  "send_request page x =
     (let x1 = x\<lparr>has_transport := True, readyState := 1\<rparr>
      in case (if fireGlobals x1 then let x2 = say AjaxSend x1 in run_opns (on_send page x2) x2 else (x1, Fine)) of
           (x3, out) \<Rightarrow>
             if out \<noteq> Fine then (x3, out)
             else let x4 = (if async (req x3) \<and> timeout (req x3) > 0 then x3\<lparr>timer := True\<rparr> else x3)
                  in case sending page (x4\<lparr>state := 1\<rparr>) of
                       (x5, Thrown e) \<Rightarrow> if state x5 < 2 then xhr_done (- 1) e None '''' x5 else (x5, Thrown e)
                     | r \<Rightarrow> r)"

definition find_transport :: "'v page \<Rightarrow> 'v xhr \<Rightarrow> 'v xhr \<times> 'v out" where
  "find_transport page x =
     (case inspectPrefiltersOrTransports (transports page) True (x\<lparr>str_abort := ''abort'', installed := True\<rparr>) of
        (x1, out, found) \<Rightarrow>
          if out \<noteq> Fine then (x1, out)
          else if found then send_request page x1
          else xhr_done (- 1) (Text ''No Transport'') None '''' x1)"

definition ajax :: "'v page \<Rightarrow> string \<Rightarrow> 'v xhr \<Rightarrow> 'v xhr \<times> 'v out" where
  "ajax page arg x =
     (case inspectPrefiltersOrTransports (prefilters page) False (set_up page arg x) of
        (x1, out, _) \<Rightarrow>
          if out \<noteq> Fine \<or> state x1 = 2 then (x1, out)
          else case open_request page x1 of
            (x2, out) \<Rightarrow>
              if out \<noteq> Fine then (x2, out)
              else case before_send page (build x2) of
                (x3, out, go) \<Rightarrow> if go then find_transport page x3 else (x3, out))"

text \<open>A request as it is made, with what the page keeps from one to the next.\<close>

definition fresh :: "request \<Rightarrow> 'v settings \<Rightarrow> (int \<times> nat list) list \<Rightarrow> int \<Rightarrow> string obj \<Rightarrow> string obj \<Rightarrow> nat \<Rightarrow> 'v xhr" where
  "fresh r s codes a lm et n =
     \<lparr>req = r, sets = s, state = 0, hds = no_hdrs, has_transport = False, timer = False, str_abort = ''canceled'',
      cacheURL = '''', fireGlobals = False, headersString = '''', readyState = 0, status = 0, statusText = Text '''', resp_fields = [],
      statusCode = Some codes, installed = False, settled = None, completed = None, active = a, lastModified = lm, etag = et,
      nonce = n, effects = []\<rparr>"

section \<open>Afterwards\<close>

datatype 'v event = Answered "'v answer" | TimedOut | User "'v opn"

fun step :: "'v event \<Rightarrow> 'v xhr \<Rightarrow> 'v xhr \<times> 'v out" where
  "step (Answered a) x = answers [a] x"
| "step TimedOut x = (if timer x then abort ''timeout'' x else (x, Fine))"
| "step (User p) x = run_opn p x"

definition happens :: "'v event list \<Rightarrow> 'v xhr \<Rightarrow> 'v xhr" where
  "happens es x = foldl (\<lambda>x e. fst (step e x)) x es"

section \<open>The prefilter and the transports that jQuery comes with\<close>

text \<open>Scripts are not cached; those from another origin make no global events and are not counted.\<close>

definition script_prefilter :: "'v hook" where
  "script_prefilter x =
     ([Alter (\<lambda>r. let r1 = (if cache r = None then r\<lparr>cache := Some False\<rparr> else r)
                 in if crossDomain r = Some True then r1\<lparr>verb := ''GET'', global := False\<rparr> else r1)], Nothing)"

definition script_transport :: "'v hook" where
  "script_transport x = ([], if crossDomain (req x) = Some True then Transport else Nothing)"

definition xhr_transport :: "bool \<Rightarrow> 'v hook" where
  "xhr_transport cors x = ([], if crossDomain (req x) \<noteq> Some True \<or> cors then Transport else Nothing)"

text \<open>The answer that an \<open>XMLHttpRequest\<close> amounts to: its status is set right where browsers are wrong.\<close>

definition xhr_answer :: "(string \<Rightarrow> 'v) \<Rightarrow> bool \<Rightarrow> request \<Rightarrow> int \<Rightarrow> string \<Rightarrow> string option \<Rightarrow> string \<Rightarrow> 'v answer" where
  "xhr_answer str isLocal r code stText responseText hdrs =
     Answer (if code = 0 \<and> isLocal \<and> crossDomain r \<noteq> Some True
             then (case responseText of Some t \<Rightarrow> if t \<noteq> '''' then 200 else 404 | None \<Rightarrow> 404)
             else if code = 1223 then 204 else code)
       stText (Some (case responseText of Some t \<Rightarrow> [(''text'', V (str t))] | None \<Rightarrow> [])) hdrs"

section \<open>The conversion comes back\<close>

lemma find_holds: "find P xs = Some x \<Longrightarrow> P x"
  by (induction xs) (auto split: if_splits)

lemma second_half_ends: "second_half tab a b = Some (k, c) \<Longrightarrow> key_types k = Some (m, b') \<Longrightarrow> b' = b"
  unfolding second_half_def by (drule find_holds) simp

lemma seek_after: "seek tab a b = (conv, b', rest) \<Longrightarrow> set rest \<subseteq> {b}"
  by (auto simp: seek_def dest: second_half_ends split: option.splits if_splits conv.splits prod.splits)

lemma conv_loop_nonempty:
  "conv_loop n s tab first a tys v resp = conv_loop n s tab first a (takeWhile (\<lambda>ty. ty \<noteq> '''') tys) v resp"
proof (induction n s tab first a tys v resp rule: conv_loop.induct)
  case (2 n s tab first current types v resp)
  show ?case
  proof (cases types)
    case (Cons nxt rest)
    show ?thesis
    proof (cases "current = '''' \<or> nxt = ''''")
      case False
      have w: "takeWhile (\<lambda>ty. ty \<noteq> '''') (after @ rest) = after @ takeWhile (\<lambda>ty. ty \<noteq> '''') rest"
        if "seek tab current nxt = (conv, nxt', after)" for conv nxt' after
        using seek_after [OF that] False by (intro takeWhile_append2) auto
      show ?thesis
        using False Cons 2 w by (auto simp: Let_def split: prod.split option.split conv.split sum.split)
    qed (use Cons in auto)
  qed simp
qed simp

lemma ajaxConvert_returns:
  assumes "table_ok (lower_keys (converters s))"
  shows "\<exists>r. ajaxConvert s v ok resp = Some r"
proof (cases "dataTypes s")
  case (Cons a rest)
  let ?ts = "takeWhile (\<lambda>ty. ty \<noteq> '''') rest"
  have eq: "ajaxConvert s v ok resp = conv_loop (2 * length rest + 1) s (if rest \<noteq> [] \<and> hd rest \<noteq> '''' then lower_keys (converters s) else []) ok a ?ts v resp"
    unfolding ajaxConvert_def Cons list.case by (rule conv_loop_nonempty)
  show ?thesis
  proof (cases "a = '''' \<or> ?ts = []")
    case True
    then show ?thesis unfolding eq by (cases ?ts) (auto simp: eval_nat_numeral Let_def)
  next
    case False
    then have "rest \<noteq> [] \<and> hd rest \<noteq> ''''" by (cases rest) auto
    moreover have "2 * length ?ts < 2 * length rest + 1" using length_takeWhile_le [of _ rest] by (simp add: le_imp_less_Suc)
    moreover have "'''' \<notin> set ?ts" using set_takeWhileD by fastforce
    ultimately show ?thesis unfolding eq using loop_chain [OF assms, of a ?ts] False by (simp del: conv_loop.simps)
  qed
qed (simp add: ajaxConvert_def)

lemma conv_loop_not_raised:
  "conv_loop n s tab first a tys v resp = Some (c, r) \<Longrightarrow> \<not> throws s \<Longrightarrow> c \<noteq> Raised e"
  by (induction n s tab first a tys v resp arbitrary: c r rule: conv_loop.induct)
     (auto simp: Let_def failed_def split: if_splits list.splits prod.splits option.splits conv.splits sum.splits)

lemma ajaxConvert_not_raised:
  "ajaxConvert s v ok resp = Some (c, r) \<Longrightarrow> \<not> throws s \<Longrightarrow> c \<noteq> Raised e"
  by (cases "dataTypes s") (auto simp: ajaxConvert_def simp del: conv_loop.simps dest: conv_loop_not_raised)

section \<open>What holds of a request\<close>

definition completes :: "'v xhr \<Rightarrow> nat" where
  "completes x = length (filter is_complete (effects x))"

text \<open>The request is open and counted, or done, settled, completed and counted no more.\<close>

definition steady :: "int \<Rightarrow> 'v xhr \<Rightarrow> bool" where
  "steady a x \<longleftrightarrow> table_ok (lower_keys (converters (sets x))) \<and> \<not> throws (sets x) \<and>
     (if state x = 2 then settled x \<noteq> None \<and> completed x \<noteq> None \<and> active x = a \<and> completes x = of_bool (fireGlobals x)
      else state x < 2 \<and> settled x = None \<and> completed x = None \<and> statusCode x \<noteq> None
           \<and> active x = a + of_bool (fireGlobals x) \<and> completes x = 0)"

lemma steady_state: "steady a x \<Longrightarrow> state x \<noteq> 2 \<longleftrightarrow> state x < 2"
  by (simp add: steady_def split: if_splits)

lemma say_fields [simp]:
  "state (say e x) = state x" "settled (say e x) = settled x" "completed (say e x) = completed x" "statusCode (say e x) = statusCode x"
  "active (say e x) = active x" "fireGlobals (say e x) = fireGlobals x" "sets (say e x) = sets x" "req (say e x) = req x"
  "has_transport (say e x) = has_transport x"
  by (simp_all add: say_def)

lemma completes_say [simp]: "completes (say e x) = completes x + of_bool (is_complete e)"
  by (simp add: completes_def say_def)

lemma steady_say: "\<not> is_complete e \<Longrightarrow> steady a (say e x) = steady a x"
  by (simp add: steady_def)

lemma keep_modified_fields:
  "state (keep_modified x) = state x" "settled (keep_modified x) = settled x" "completed (keep_modified x) = completed x"
  "statusCode (keep_modified x) = statusCode x" "active (keep_modified x) = active x" "fireGlobals (keep_modified x) = fireGlobals x"
  "sets (keep_modified x) = sets x" "has_transport (keep_modified x) = has_transport x" "effects (keep_modified x) = effects x"
  by (auto simp: keep_modified_def Let_def split: option.split)

lemma run_codes_fields [simp]:
  "state (run_codes c m x) = state x" "settled (run_codes c m x) = settled x" "completed (run_codes c m x) = completed x"
  "statusCode (run_codes c m x) = statusCode x" "active (run_codes c m x) = active x" "fireGlobals (run_codes c m x) = fireGlobals x"
  "sets (run_codes c m x) = sets x" "completes (run_codes c m x) = completes x" "has_transport (run_codes c m x) = has_transport x"
  by (auto simp: run_codes_def split: option.split)

lemma completes_update [simp]:
  "completes (x\<lparr>status := c\<rparr>) = completes x" "completes (x\<lparr>statusText := t\<rparr>) = completes x" "completes (x\<lparr>settled := d\<rparr>) = completes x"
  "completes (x\<lparr>statusCode := m\<rparr>) = completes x" "completes (x\<lparr>completed := w\<rparr>) = completes x" "completes (x\<lparr>active := n\<rparr>) = completes x"
  "completes (x\<lparr>state := k\<rparr>) = completes x" "completes (x\<lparr>sets := s\<rparr>) = completes x" "completes (x\<lparr>resp_fields := f\<rparr>) = completes x"
  "completes (x\<lparr>timer := b\<rparr>) = completes x" "completes (x\<lparr>has_transport := b\<rparr>) = completes x" "completes (x\<lparr>headersString := u\<rparr>) = completes x"
  "completes (x\<lparr>readyState := r\<rparr>) = completes x" "completes (x\<lparr>hds := h\<rparr>) = completes x" "completes (x\<lparr>req := q\<rparr>) = completes x"
  "completes (x\<lparr>str_abort := u\<rparr>) = completes x" "completes (x\<lparr>installed := b\<rparr>) = completes x" "completes (x\<lparr>fireGlobals := b\<rparr>) = completes x"
  "completes (x\<lparr>cacheURL := u\<rparr>) = completes x" "completes (x\<lparr>nonce := r\<rparr>) = completes x"
  by (simp_all add: completes_def)

lemma settle_fields:
  "state (settle nat_text res x) = state x" "sets (settle nat_text res x) = sets x" "fireGlobals (settle nat_text res x) = fireGlobals x"
  "active (settle nat_text res x) = active x - of_bool (fireGlobals x)"
  "completes (settle nat_text res x) = completes x + of_bool (fireGlobals x)"
  "has_transport (settle nat_text res x) = has_transport x"
  "settled (settle nat_text res x) \<noteq> None" "completed (settle nat_text res x) \<noteq> None"
  by (auto simp: settle_def Let_def split: prod.split option.split)

lemma handle_keeps:
  "ajaxHandleResponses s header rs = (s', v) \<Longrightarrow> converters s' = converters s \<and> throws s' = throws s"
  by (auto simp: ajaxHandleResponses_def Let_def split: option.splits)

text \<open>\<open>done\<close> works once.\<close>

lemma done_again: "state x = 2 \<Longrightarrow> xhr_done code t rs h x = (x, Fine)"
  by (simp add: xhr_done_def)

lemma done_fields:
  assumes "state x \<noteq> 2" "table_ok (lower_keys (converters (sets x)))" "\<not> throws (sets x)" "xhr_done code t rs h x = (y, out)"
  shows "out = Fine" "state y = 2" "fireGlobals y = fireGlobals x" "active y = active x - of_bool (fireGlobals x)"
    "completes y = completes x + of_bool (fireGlobals x)" "settled y \<noteq> None" "completed y \<noteq> None" "\<not> has_transport y"
    "converters (sets y) = converters (sets x)" "throws (sets y) = throws (sets x)"
proof -
  define x1 where "x1 = x\<lparr>state := 2, timer := False, has_transport := False, headersString := h, readyState := (if code > 0 then 4 else 0)\<rparr>"
  obtain s' response where r: "(case rs of None \<Rightarrow> (sets x1, Undef)
      | Some rs \<Rightarrow> ajaxHandleResponses (sets x1) (getResponseHeader x1 ''Content-Type'') rs) = (s', response)" by fastforce
  have s': "converters s' = converters (sets x) \<and> throws s' = throws (sets x)"
    using r by (auto simp: x1_def dest: handle_keeps split: option.splits)
  have ok: "table_ok (lower_keys (converters s'))" "\<not> throws s'" using assms(2,3) s' by simp_all
  obtain conv fs where c: "ajaxConvert s' response (is_success code) (resp_fields x1) = Some (conv, fs)"
    using ajaxConvert_returns [OF ok(1)] by fastforce
  have nr: "\<And>e. conv \<noteq> Raised e" using ajaxConvert_not_raised [OF c ok(2)] by blast
  define x3 where "x3 = x1\<lparr>sets := s', resp_fields := fs\<rparr>"
  have "xhr_done code t rs h x = (settle t (verdict (verb (req x3)) code t conv) (if is_success code then keep_modified x3 else x3), Fine)"
    using assms(1) r c nr by (simp add: xhr_done_def x1_def [symmetric] Let_def x3_def split: converted.split)
  then have o: "out = Fine" and y: "y = settle t (verdict (verb (req x3)) code t conv) (if is_success code then keep_modified x3 else x3)"
    using assms(4) by auto
  have k: "completes (keep_modified x3) = completes x3" by (simp add: completes_def keep_modified_fields)
  have z: "state x3 = 2" "fireGlobals x3 = fireGlobals x" "active x3 = active x" "completes x3 = completes x" "\<not> has_transport x3"
    "converters (sets x3) = converters (sets x)" "throws (sets x3) = throws (sets x)"
    using s' by (simp_all add: x3_def x1_def)
  show "out = Fine" by (rule o)
  show "state y = 2" "fireGlobals y = fireGlobals x" "active y = active x - of_bool (fireGlobals x)"
    "completes y = completes x + of_bool (fireGlobals x)" "settled y \<noteq> None" "completed y \<noteq> None" "\<not> has_transport y"
    "converters (sets y) = converters (sets x)" "throws (sets y) = throws (sets x)"
    using z k unfolding y by (simp_all add: settle_fields keep_modified_fields)
qed

lemma done_steady:
  assumes "steady a x" "xhr_done code t rs h x = (y, out)"
  shows "out = Fine \<and> steady a y \<and> state y = 2 \<and> fireGlobals y = fireGlobals x"
proof (cases "state x = 2")
  case True
  then show ?thesis using assms by (auto simp: done_again)
next
  case False
  then have ok: "table_ok (lower_keys (converters (sets x)))" "\<not> throws (sets x)" using assms(1) by (simp_all add: steady_def)
  from done_fields [OF False ok assms(2)] assms(1) False show ?thesis by (auto simp: steady_def)
qed

text \<open>When a converter raises and errors are let through, the request is done but still counted, and never settled.\<close>

lemma throws_leaks:
  assumes "state x \<noteq> 2" "ajaxConvert (sets x) Undef (is_success code) (resp_fields x) = Some (Raised e, fs)"
    "xhr_done code t None h x = (y, out)"
  shows "out = Thrown (Exn e) \<and> state y = 2 \<and> active y = active x \<and> settled y = settled x \<and> effects y = effects x"
  using assms by (auto simp: xhr_done_def Let_def)

lemma abort_done: "state x = 2 \<Longrightarrow> \<not> has_transport x \<Longrightarrow> abort t x = (x, Fine)"
  by (simp add: abort_def done_again)

lemma abort_again: "state x = 2 \<Longrightarrow> abort t x = (y, out) \<Longrightarrow> settled y = settled x"
  by (auto simp: abort_def done_again Let_def split: if_splits)

lemma abort_steady:
  "steady a x \<Longrightarrow> abort t x = (y, out) \<Longrightarrow> out = Fine \<and> steady a y \<and> state y = 2 \<and> fireGlobals y = fireGlobals x"
  unfolding abort_def Let_def by (drule done_steady [rotated]) (auto simp: steady_say split: if_splits)

section \<open>Operations of the page\<close>

definition no_abort :: "'v opn list \<Rightarrow> bool" where
  "no_abort ps \<longleftrightarrow> list_all (\<lambda>p. case p of Abort _ \<Rightarrow> False | _ \<Rightarrow> True) ps"

lemma run_opn_steady:
  "steady a x \<Longrightarrow> run_opn p x = (y, out) \<Longrightarrow> out = Fine \<and> steady a y \<and> fireGlobals y = fireGlobals x \<and> (state x = 2 \<longrightarrow> state y = 2)
     \<and> ((case p of Abort _ \<Rightarrow> False | _ \<Rightarrow> True) \<longrightarrow> state y = state x \<and> has_transport y = has_transport x)"
  using abort_steady [of a x _ y out]
  by (cases p) (auto simp: steady_def setRequestHeader_def overrideMimeType_def on_status_def split: if_splits option.splits)

lemma run_opns_steady:
  "steady a x \<Longrightarrow> run_opns ps x = (y, out) \<Longrightarrow> out = Fine \<and> steady a y \<and> fireGlobals y = fireGlobals x \<and> (state x = 2 \<longrightarrow> state y = 2)
     \<and> (no_abort ps \<longrightarrow> state y = state x \<and> has_transport y = has_transport x)"
proof (induction ps arbitrary: x)
  case (Cons p ps)
  obtain x1 o1 where r: "run_opn p x = (x1, o1)" by fastforce
  from run_opn_steady [OF Cons.prems(1) r] Cons.prems(2) r Cons.IH [of x1] show ?case
    by (auto simp: no_abort_def)
qed (simp add: no_abort_def)

section \<open>The course of a request\<close>

definition quiet_hooks :: "'v hook list obj \<Rightarrow> bool" where
  "quiet_hooks tab \<longleftrightarrow> (\<forall>(k, hs) \<in> set tab. \<forall>h \<in> set hs. \<forall>x. no_abort (fst (h x)))"

lemma quiet_hooks_of:
  assumes "quiet_hooks tab" "h \<in> set (hooks_of tab ty)"
  shows "no_abort (fst (h x))"
proof (cases "oget tab ty")
  case (Some hs)
  then have "(ty, hs) \<in> set tab" "h \<in> set hs" using assms(2) by (auto simp: hooks_of_def oget_def dest: map_of_SomeD)
  then show ?thesis using assms(1) unfolding quiet_hooks_def by blast
qed (use assms(2) in \<open>simp add: hooks_of_def\<close>)

lemma steady_unshift: "steady a (unshift_type t x) = steady a x"
  by (simp add: steady_def unshift_type_def)

lemma inspect_steady:
  "inspect tab seeking inspected hs x = (y, out, inspected', sel) \<Longrightarrow> steady a x \<Longrightarrow>
     out = Fine \<and> steady a y \<and> fireGlobals y = fireGlobals x \<and> (state x = 2 \<longrightarrow> state y = 2)
     \<and> (quiet_hooks tab \<longrightarrow> (\<forall>h \<in> set hs. \<forall>x. no_abort (fst (h x))) \<longrightarrow> state y = state x)"
proof (induction tab seeking inspected hs x rule: inspect.induct)
  case (2 tab seeking inspected h hs x)
  obtain ps ret where h: "h x = (ps, ret)" by fastforce
  obtain x1 o1 where r: "run_opns ps x = (x1, o1)" by fastforce
  note s = run_opns_steady [OF "2.prems"(2) r]
  have q: "(\<forall>h' \<in> set (h # hs). \<forall>x. no_abort (fst (h' x))) \<longrightarrow> state x1 = state x \<and> (\<forall>h' \<in> set hs. \<forall>x. no_abort (fst (h' x)))"
    using s h by (metis fst_conv list.set_intros)
  have u: "fireGlobals (unshift_type t z) = fireGlobals z" "state (unshift_type t z) = state z" for t z
    by (simp_all add: unshift_type_def)
  show ?case
  proof (cases ret)
    case (Type t)
    show ?thesis
    proof (cases "\<not> seeking \<and> t \<notin> set inspected")
      case True
      then have "inspect tab seeking (t # inspected) (hooks_of tab t) (unshift_type t x1) = (y, out, inspected', sel)"
        using "2.prems"(1) h r s Type by simp
      from "2.IH"(2) [OF h [symmetric] r [symmetric] _ Type True this] s show ?thesis
        using q quiet_hooks_of [of tab _ t] by (metis steady_unshift u)
    next
      case f: False
      show ?thesis
      proof (cases "seeking \<and> t \<noteq> ''''")
        case True
        then have "y = x1" "out = Fine" using "2.prems"(1) h r s Type by auto
        then show ?thesis using s q by metis
      next
        case False
        then have "inspect tab seeking inspected hs x1 = (y, out, inspected', sel)"
          using "2.prems"(1) h r s Type f by auto
        from "2.IH"(3) [OF h [symmetric] r [symmetric] _ Type f False this] s show ?thesis using q by metis
      qed
    qed
  next
    case Nothing
    then have "inspect tab seeking inspected hs x1 = (y, out, inspected', sel)" using "2.prems"(1) h r s by simp
    from "2.IH"(1) [OF h [symmetric] r [symmetric] _ Nothing this] s show ?thesis using q by metis
  next
    case tr: Transport
    show ?thesis
    proof (cases seeking)
      case True
      then have "y = x1" "out = Fine" using "2.prems"(1) h r s tr by auto
      then show ?thesis using s q by metis
    next
      case False
      then have "inspect tab seeking inspected hs x1 = (y, out, inspected', sel)" using "2.prems"(1) h r s tr by simp
      from "2.IH"(4) [OF h [symmetric] r [symmetric] _ tr False this] s show ?thesis using q by metis
    qed
  qed
qed simp

lemma inspectAll_steady:
  assumes "inspectPrefiltersOrTransports tab seeking x = (y, out, sel)" "steady a x"
  shows "out = Fine \<and> steady a y \<and> fireGlobals y = fireGlobals x \<and> (state x = 2 \<longrightarrow> state y = 2) \<and> (quiet_hooks tab \<longrightarrow> state y = state x)"
proof -
  define ty where "ty = (case dataTypes (sets x) of [] \<Rightarrow> ''undefined'' | ty # _ \<Rightarrow> ty)"
  obtain x1 o1 i1 s1 where r: "inspect tab seeking [ty] (hooks_of tab ty) x = (x1, o1, i1, s1)" by (metis prod_cases4)
  note a = inspect_steady [OF r assms(2)]
  obtain x2 o2 i2 s2 where r2: "inspect tab seeking (''*'' # i1) (hooks_of tab ''*'') x1 = (x2, o2, i2, s2)" by (metis prod_cases4)
  note b = inspect_steady [OF r2, of a]
  show ?thesis
    using assms(1) a b r r2 quiet_hooks_of [of tab]
    by (auto simp: inspectPrefiltersOrTransports_def ty_def [symmetric] Let_def split: if_splits)
qed

lemma answers_steady:
  "steady a x \<Longrightarrow> answers ans x = (y, out) \<Longrightarrow> out = Fine \<and> steady a y \<and> fireGlobals y = fireGlobals x \<and> (ans \<noteq> [] \<or> state x = 2 \<longrightarrow> state y = 2)
    \<and> (ans = [] \<longrightarrow> y = x)"
proof (induction ans arbitrary: x)
  case (Cons an ans)
  obtain code t rs h where an: "an = Answer code t rs h" by (cases an)
  obtain x1 o1 where r: "xhr_done code (Text t) rs h x = (x1, o1)" by fastforce
  from done_steady [OF Cons.prems(1) r] Cons.prems(2) Cons.IH [of x1] show ?case by (auto simp: an r)
qed simp

lemma build_steady: "steady a (build x) = steady a x \<and> state (build x) = state x \<and> fireGlobals (build x) = fireGlobals x"
proof -
  have s: "steady a (setRequestHeader k v x) = steady a x" "state (setRequestHeader k v x) = state x" "fireGlobals (setRequestHeader k v x) = fireGlobals x"
    for k v and x :: "'a xhr"
    by (auto simp: setRequestHeader_def steady_def)
  have "steady a (foldl (\<lambda>x (k, v). setRequestHeader k v x) x kvs) = steady a x
      \<and> state (foldl (\<lambda>x (k, v). setRequestHeader k v x) x kvs) = state x
      \<and> fireGlobals (foldl (\<lambda>x (k, v). setRequestHeader k v x) x kvs) = fireGlobals x" for kvs and x :: "'a xhr"
  proof (induction kvs arbitrary: x)
    case (Cons kv kvs)
    show ?case by (cases kv) (simp add: Cons.IH s)
  qed simp
  moreover have "steady a (x\<lparr>req := r, cacheURL := cu, nonce := n\<rparr>) = steady a x" for r cu n by (simp add: steady_def)
  ultimately show ?thesis by (simp add: build_def split: prod.split)
qed

lemma send_steady:
  assumes x: "steady a x" "state x < 2" and quiet: "\<And>x. no_abort (on_send page x)" and r: "send_request page x = (y, out)"
  shows "out \<noteq> Hangs \<and> steady a y \<and> 0 < state y \<and> fireGlobals y = fireGlobals x"
proof -
  define x1 where "x1 = x\<lparr>has_transport := True, readyState := 1\<rparr>"
  have x1: "steady a x1" "state x1 = state x" "has_transport x1" "fireGlobals x1 = fireGlobals x" using x by (simp_all add: x1_def steady_def)
  obtain x3 o3 where r3: "(if fireGlobals x1 then let x2 = say AjaxSend x1 in run_opns (on_send page x2) x2 else (x1, Fine)) = (x3, o3)"
    by fastforce
  have x3: "o3 = Fine" "steady a x3" "state x3 = state x" "has_transport x3" "fireGlobals x3 = fireGlobals x"
    using r3 x1 quiet run_opns_steady [of a "say AjaxSend x1" "on_send page (say AjaxSend x1)" x3 o3]
    by (auto simp: steady_say Let_def split: if_splits)
  define x4 where "x4 = (if async (req x3) \<and> timeout (req x3) > 0 then x3\<lparr>timer := True\<rparr> else x3)\<lparr>state := 1\<rparr>"
  have x4: "steady a x4" "state x4 = 1" "has_transport x4" "fireGlobals x4 = fireGlobals x" using x3 x(2) by (auto simp: x4_def steady_def)
  obtain x5 o5 where r5: "sending page x4 = (x5, o5)" by fastforce
  define s where "s = say (Sent (req x4) (sent (hds x4))) x4"
  obtain ans raised where a: "send page s = (ans, raised)" by fastforce
  obtain z oz where z: "answers ans s = (z, oz)" by fastforce
  have "steady a s" "state s = 1" "fireGlobals s = fireGlobals x" using x4 by (simp_all add: s_def steady_say)
  with answers_steady [OF _ z] have za: "oz = Fine" "steady a z" "fireGlobals z = fireGlobals x" "0 < state z"
    by (cases "ans = []"; auto)+
  have x5: "o5 \<noteq> Hangs" "x5 = z" using r5 x4(3) a z za(1) by (auto simp: sending_def Let_def s_def [symmetric] split: option.splits)
  have top: "send_request page x = (case (x5, o5) of (x5, Thrown e) \<Rightarrow> if state x5 < 2 then xhr_done (- 1) e None '''' x5 else (x5, Thrown e) | r \<Rightarrow> r)"
    unfolding send_request_def Let_def x1_def [symmetric] r3 [unfolded Let_def] prod.case x3(1)
    using r5 [unfolded x4_def] by (simp only: simp_thms if_False prod.case)
  show ?thesis
  proof (cases o5)
    case (Thrown e)
    show ?thesis
    proof (cases "state z < 2")
      case True
      then have "xhr_done (- 1) e None '''' z = (y, out)" using top r Thrown x5 by simp
      from done_steady [OF za(2) this] za show ?thesis by simp
    next
      case False
      then show ?thesis using top r Thrown x5 za by auto
    qed
  qed (use top r x5 za in auto)
qed

lemma open_steady:
  assumes "steady a x" "state x < 2" "\<not> fireGlobals x" "\<And>x. no_abort (on_start page x)" "open_request page x = (y, out)"
  shows "out = Fine \<and> steady a y \<and> state y = state x \<and> fireGlobals y = global (req x)"
proof -
  define x1 where "x1 = x\<lparr>fireGlobals := global (req x)\<rparr>"
  define x2 where "x2 = x1\<lparr>active := active x1 + 1\<rparr>"
  show ?thesis
  proof (cases "global (req x)")
    case True
    have x2: "steady a x2" "steady a (say AjaxStart x2)" "state x2 = state x" "fireGlobals x2"
      using assms(1-3) True by (simp_all add: steady_say) (simp_all add: steady_def x2_def x1_def split: if_splits)
    show ?thesis
    proof (cases "active x1 = 0")
      case z: True
      then have "run_opns (on_start page (say AjaxStart x2)) (say AjaxStart x2) = (y, out)"
        using assms(5) True by (simp add: open_request_def x1_def x2_def Let_def)
      from run_opns_steady [OF x2(2) this] assms(4) x2 True show ?thesis by simp
    next
      case False
      then show ?thesis using assms(5) True x2 by (auto simp: open_request_def x1_def x2_def Let_def)
    qed
  next
    case False
    then show ?thesis using assms by (auto simp: open_request_def Let_def steady_def)
  qed
qed

lemma before_steady:
  assumes "steady a x" "state x < 2" "before_send page x = (y, out, go)"
  shows "out = Fine \<and> steady a y \<and> fireGlobals y = fireGlobals x \<and> (if go then state y < 2 else state y = 2)"
proof (cases "beforeSend page")
  case None
  then show ?thesis using assms by (auto simp: before_send_def)
next
  case (Some f)
  obtain ps no where f: "f x = (ps, no)" by fastforce
  obtain x1 o1 where r: "run_opns ps x = (x1, o1)" by fastforce
  obtain x2 o2 where ab: "abort '''' x1 = (x2, o2)" by fastforce
  note x1 = run_opns_steady [OF assms(1) r]
  note x2 = abort_steady [of a x1, OF _ ab]
  show ?thesis
    using assms(3) f r ab x1 x2 steady_state [of a x1] by (auto simp: before_send_def Some split: if_splits)
qed

lemma find_steady:
  assumes "steady a x" "state x < 2" "quiet_hooks (transports page)" "\<And>x. no_abort (on_send page x)" "find_transport page x = (y, out)"
  shows "out \<noteq> Hangs \<and> steady a y \<and> 0 < state y \<and> fireGlobals y = fireGlobals x"
proof -
  let ?x = "x\<lparr>str_abort := ''abort'', installed := True\<rparr>"
  have x: "steady a ?x" "state ?x < 2" "fireGlobals ?x = fireGlobals x" using assms(1,2) by (simp_all add: steady_def)
  obtain x1 o1 found where r: "inspectPrefiltersOrTransports (transports page) True ?x = (x1, o1, found)" by (metis prod_cases3)
  from inspectAll_steady [OF r x(1)] assms(3) x have x1: "o1 = Fine" "steady a x1" "state x1 < 2" "fireGlobals x1 = fireGlobals x" by auto
  show ?thesis
  proof (cases found)
    case True
    then have "send_request page x1 = (y, out)" using assms(5) r x1(1) by (simp add: find_transport_def)
    from send_steady [OF x1(2,3) assms(4) this] x1 show ?thesis by simp
  next
    case False
    then have "xhr_done (- 1) (Text ''No Transport'') None '''' x1 = (y, out)" using assms(5) r x1(1) by (simp add: find_transport_def)
    from done_steady [OF x1(2) this] x1 show ?thesis by simp
  qed
qed

lemma steady_fresh:
  "table_ok (lower_keys (converters s)) \<Longrightarrow> \<not> throws s \<Longrightarrow>
   steady a (set_up page arg (fresh r s codes a lm et n)) \<and> state (set_up page arg (fresh r s codes a lm et n)) = 0
   \<and> \<not> fireGlobals (set_up page arg (fresh r s codes a lm et n))"
  by (simp add: steady_def set_up_def fresh_def completes_def Let_def)

lemma ajax_steady:
  assumes s: "table_ok (lower_keys (converters s))" "\<not> throws s"
    and quiet: "\<And>x. no_abort (on_start page x)" "\<And>x. no_abort (on_send page x)" "quiet_hooks (transports page)"
    and r: "ajax page arg (fresh r s codes a lm et n) = (y, out)"
  shows "out \<noteq> Hangs \<and> steady a y \<and> 0 < state y"
proof -
  note x0 = steady_fresh [OF s, of a page arg r codes lm et n]
  obtain x1 o1 f1 where r1: "inspectPrefiltersOrTransports (prefilters page) False (set_up page arg (fresh r s codes a lm et n)) = (x1, o1, f1)"
    by (metis prod_cases3)
  from inspectAll_steady [OF r1] x0 have x1: "o1 = Fine" "steady a x1" "\<not> fireGlobals x1" by auto
  show ?thesis
  proof (cases "state x1 = 2")
    case True
    then show ?thesis using r r1 x1 by (auto simp: ajax_def)
  next
    case False
    obtain x2 o2 where r2: "open_request page x1 = (x2, o2)" by fastforce
    from open_steady [OF x1(2) _ x1(3) quiet(1) r2] steady_state [OF x1(2)] False
    have x2: "o2 = Fine" "steady a x2" "state x2 < 2" by auto
    obtain x3 o3 go where r3: "before_send page (build x2) = (x3, o3, go)" by (metis prod_cases3)
    from before_steady [OF _ _ r3, of a] x2 build_steady [of a x2]
    have x3: "o3 = Fine" "steady a x3" "if go then state x3 < 2 else state x3 = 2" by auto
    show ?thesis
    proof (cases go)
      case True
      then have "find_transport page x3 = (y, out)" using r r1 r2 r3 x1 x2 False by (simp add: ajax_def)
      from find_steady [OF x3(2) _ quiet(3,2) this] x3 True show ?thesis by simp
    next
      case go: False
      then have "y = x3" "out = Fine" using r r1 r2 r3 x1 x2 x3 False by (simp_all add: ajax_def)
      then show ?thesis using x3 go by simp
    qed
  qed
qed

lemma step_steady:
  assumes "steady a x" "step e x = (y, out)"
  shows "out = Fine \<and> steady a y \<and> fireGlobals y = fireGlobals x \<and> (state y = state x \<or> state y = 2)
    \<and> ((\<exists>an. e = Answered an) \<or> state x = 2 \<longrightarrow> state y = 2) \<and> (state x = 2 \<longrightarrow> settled y = settled x)"
proof (cases e)
  case (Answered an)
  have "state x = 2 \<longrightarrow> y = x" using assms(2) Answered by (cases an) (auto simp: done_again)
  then show ?thesis using answers_steady [OF assms(1), of "[an]" y out] assms(2) Answered by auto
next
  case TimedOut
  then show ?thesis using abort_steady [OF assms(1), of "''timeout''" y out] abort_again assms by (auto split: if_splits)
next
  case (User p)
  have "state x = 2 \<longrightarrow> settled y = settled x"
    using assms(2) User abort_again by (cases p) (auto simp: setRequestHeader_def overrideMimeType_def on_status_def split: if_splits)
  moreover have "state y = state x \<or> state y = 2"
    using run_opn_steady [OF assms(1), of p y out] abort_steady [OF assms(1)] assms(2) User by (cases p) auto
  ultimately show ?thesis using run_opn_steady [OF assms(1), of p y out] assms(2) User by auto
qed

lemma happens_steady:
  "steady a x \<Longrightarrow> steady a (happens es x) \<and> fireGlobals (happens es x) = fireGlobals x
     \<and> (state (happens es x) = state x \<or> state (happens es x) = 2)
     \<and> ((\<exists>an. Answered an \<in> set es) \<or> state x = 2 \<longrightarrow> state (happens es x) = 2) \<and> (state x = 2 \<longrightarrow> settled (happens es x) = settled x)"
proof (induction es arbitrary: x)
  case (Cons e es)
  obtain x1 o1 where r: "step e x = (x1, o1)" by fastforce
  have h: "happens (e # es) x = happens es x1" using r by (simp add: happens_def)
  from step_steady [OF Cons.prems r] Cons.IH [of x1] show ?case unfolding h by auto
qed (simp add: happens_def)

lemma happens_append: "happens (es @ fs) x = happens fs (happens es x)"
  by (simp add: happens_def)

text \<open>
  C36: A request is settled and completed exactly once and counted exactly as long as it is open: whatever
  prefilters and \<open>beforeSend\<close> do (an abort included), whatever the transport answers, at once or later and
  however often, and whatever comes afterwards, time-outs and aborts included, it is either open, not
  settled and counted once when it has global events, or done, settled, with one \<open>ajaxComplete\<close> when it
  has global events, and the counter is what it was before.  What it is settled with stays, and any
  answer settles it.  This holds when no converter's error is let through and none of the handlers of
  \<open>ajaxStart\<close> and \<open>ajaxSend\<close> and the factories of transports aborts the request.
\<close>

theorem request_completes_once:
  assumes "table_ok (lower_keys (converters s))" "\<not> throws s"
    and "\<And>x. no_abort (on_start page x)" "\<And>x. no_abort (on_send page x)" "quiet_hooks (transports page)"
    and "ajax page arg (fresh r s codes a lm et n) = (x, out)" "y = happens es x"
  shows "out \<noteq> Hangs
    \<and> (state y = 1 \<and> settled y = None \<and> active y = a + of_bool (fireGlobals x) \<and> completes y = 0
       \<or> state y = 2 \<and> settled y \<noteq> None \<and> active y = a \<and> completes y = of_bool (fireGlobals x))
    \<and> (settled y \<noteq> None \<longrightarrow> settled (happens fs y) = settled y)
    \<and> ((\<exists>an. Answered an \<in> set es) \<longrightarrow> state y = 2)"
proof (intro conjI)
  note x = ajax_steady [OF assms(1-6)]
  note y = happens_steady [of a x es, folded assms(7)]
  show "out \<noteq> Hangs" using x by simp
  show "state y = 1 \<and> settled y = None \<and> active y = a + of_bool (fireGlobals x) \<and> completes y = 0
     \<or> state y = 2 \<and> settled y \<noteq> None \<and> active y = a \<and> completes y = of_bool (fireGlobals x)"
    using x y by (auto simp: steady_def split: if_splits)
  show "settled y \<noteq> None \<longrightarrow> settled (happens fs y) = settled y"
    using happens_steady [of a y fs] x y by (auto simp: steady_def split: if_splits)
  show "(\<exists>an. Answered an \<in> set es) \<longrightarrow> state y = 2" using x y by simp
qed

text \<open>
  C37: A handler of \<open>ajaxSend\<close> that aborts the request has it completed twice: the request is done, but
  the call goes on and makes it open again, the missing transport raises an error, and that error is
  its second answer.  The counter of open requests ends one below where it was, and \<open>ajaxComplete\<close> is
  triggered twice.
\<close>

theorem abort_in_ajaxSend_twice:
  assumes "steady a x" "state x < 2" "fireGlobals x" "on_send page = (\<lambda>_. [Abort t])" "send_request page x = (y, out)"
  shows "state y = 2 \<and> completes y = 2 \<and> active y = a - 1"
proof -
  have x: "table_ok (lower_keys (converters (sets x)))" "\<not> throws (sets x)" "active x = a + 1" "completes x = 0"
    using assms(1-3) by (simp_all add: steady_def split: if_splits)
  define x2 where "x2 = say AjaxSend (x\<lparr>has_transport := True, readyState := 1\<rparr>)"
  obtain x3 o3 where r: "abort t x2 = (x3, o3)" by fastforce
  define u where "u = (if t \<noteq> '''' then t else str_abort x2)"
  have ab: "xhr_done 0 (Text u) None '''' (say (TransportAbort u) x2) = (x3, o3)"
    using r unfolding abort_def Let_def u_def [symmetric] by (simp add: x2_def)
  have x2: "state x2 < 2" "sets x2 = sets x" "fireGlobals x2" "active x2 = a + 1" "completes x2 = 0"
    using assms(2,3) x by (simp_all add: x2_def)
  note d = done_fields [OF _ _ _ ab]
  have x3: "o3 = Fine" "\<not> has_transport x3" "active x3 = a" "completes x3 = 1" "fireGlobals x3"
    "converters (sets x3) = converters (sets x)" "throws (sets x3) = throws (sets x)"
    using d x2 x by simp_all
  define x4 where "x4 = (if async (req x3) \<and> timeout (req x3) > 0 then x3\<lparr>timer := True\<rparr> else x3)\<lparr>state := 1\<rparr>"
  have x4: "state x4 = 1" "\<not> has_transport x4" "active x4 = a" "completes x4 = 1" "fireGlobals x4"
    "converters (sets x4) = converters (sets x)" "throws (sets x4) = throws (sets x)"
    using x3 by (simp_all add: x4_def)
  have h: "(if fireGlobals (x\<lparr>has_transport := True, readyState := 1\<rparr>)
      then run_opns (on_send page x2) x2 else (x\<lparr>has_transport := True, readyState := 1\<rparr>, Fine)) = (x3, Fine)"
    using r x3(1) assms(3,4) by simp
  have "send_request page x = (case sending page x4 of (x5, Thrown e) \<Rightarrow> if state x5 < 2 then xhr_done (- 1) e None '''' x5 else (x5, Thrown e) | r \<Rightarrow> r)"
    unfolding send_request_def Let_def x2_def [symmetric] h prod.case x4_def by (simp only: simp_thms if_False)
  then have e: "xhr_done (- 1) TypeErr None '''' x4 = (y, out)"
    using assms(5) x4 by (simp add: sending_def)
  show ?thesis using done_fields [OF _ _ _ e] x4 x by simp
qed

section \<open>Examples\<close>

definition sample_request :: request where
  "sample_request = \<lparr>url = ''data.json#top'', verb = '''', verbs = ['''', ''get''], data = ''q=1'', cache = Some False, ifModified = False,
     contentType = None, own_contentType = False, accepts = [(''*'', ''*/*''), (''json'', ''application/json'')], headers = [(''X-A'', ''1'')],
     global = True, async = True, timeout = 5, crossDomain = None\<rparr>"

definition json_settings :: "nat settings" where
  "json_settings = sample_settings\<lparr>dataType := Some ''json''\<rparr>"

definition sample_page :: "nat page" where
  "sample_page = \<lparr>location = ''http://docs.example/'', ajaxLocParts = url_parts ''http://docs.example/'',
     prefilters = [(''script'', [script_prefilter])], transports = [(''script'', [script_transport]), (''*'', [xhr_transport False])],
     on_start = (\<lambda>_. []), on_send = (\<lambda>_. []), beforeSend = Some (\<lambda>_. ([Header ''x-a'' ''2''], False)), send = (\<lambda>_. ([], None))\<rparr>"

definition sample_events :: "nat event list" where
  "sample_events = [Answered (Answer 200 ''OK'' (Some [(''text'', V 4)]) ''''), TimedOut, User (Abort '''')]"

lemma sample_course:
  "(case ajax sample_page '''' (fresh sample_request json_settings [] 2 [] [] 7) of (x, out) \<Rightarrow>
      (out, state x, active x, timer x, sent (hds x), url (req x)))
    = (Fine, 1, 3, True, [(''Accept'', ''application/json, */*; q=0.01''), (''X-A'', ''2'')], ''data.json?q=1&_=7'')"
  by code_simp

theorem request_completes_once_witness:
  "(case happens sample_events (fst (ajax sample_page '''' (fresh sample_request json_settings [] 2 [] [] 7))) of y \<Rightarrow>
      state y = 2 \<and> settled y \<noteq> None \<and> active y = 2)"
proof -
  have q: "table_ok (lower_keys (converters json_settings))" "\<not> throws json_settings" by code_simp+
  have p: "no_abort (on_start sample_page x)" "no_abort (on_send sample_page x)" "quiet_hooks (transports sample_page)" for x
    by (simp_all add: sample_page_def no_abort_def quiet_hooks_def script_transport_def xhr_transport_def)
  obtain x out where r: "ajax sample_page '''' (fresh sample_request json_settings [] 2 [] [] 7) = (x, out)" by fastforce
  have "\<exists>an. Answered an \<in> set sample_events" by (auto simp: sample_events_def)
  then show ?thesis
    using request_completes_once [OF q p r refl, of sample_events "[]"] by (auto simp: r)
qed

definition open_xhr :: "nat xhr" where
  "open_xhr = (fresh sample_request json_settings [] 1 [] [] 7)\<lparr>fireGlobals := True\<rparr>"

theorem abort_in_ajaxSend_twice_witness:
  "(case send_request (sample_page\<lparr>on_send := \<lambda>_. [Abort '''']\<rparr>) open_xhr of (y, out) \<Rightarrow> completes y = 2 \<and> active y = - 1)"
proof -
  have "table_ok (lower_keys (converters json_settings))" "\<not> throws json_settings" by code_simp+
  then have "steady 0 open_xhr" by (simp add: steady_def open_xhr_def fresh_def completes_def)
  moreover obtain y out where "send_request (sample_page\<lparr>on_send := \<lambda>_. [Abort '''']\<rparr>) open_xhr = (y, out)" by fastforce
  ultimately show ?thesis
    using abort_in_ajaxSend_twice [of 0 open_xhr "sample_page\<lparr>on_send := \<lambda>_. [Abort '''']\<rparr>" "''''"]
    by (simp add: open_xhr_def fresh_def)
qed

end
