(* ===== verification/Spec2Isabelle.thy ===== *)
theory Spec2Isabelle
  imports JQ_Core JQ_Callbacks JQ_Classes Doc_Asciidoc Doc_Cookie
    BS_Modal BS_Carousel BS_Collapse BS_Dropdown BS_Affix BS_Alert BS_Tab BS_ScrollSpy BS_Placement
    BS_Tooltip JQ_Data JQ_Tree JQ_Traverse JQ_Form JQ_Matcher JQ_Event JQ_Registry JQ_Dispatch JQ_Deferred JQ_Queue JQ_Ready
    JQ_Ajax
begin

text \<open>
  The JavaScript of the documentation of crunchy-containers.

  The repository packages PostgreSQL in containers.  Its only program code besides shell scripts and
  small Go services is the JavaScript that its documentation pages run: Bootstrap
  (\<^verbatim>\<open>docs/bootstrap.js\<close>, of which \<^verbatim>\<open>docs/htmldoc/js/bootstrap.js\<close> is a copy), jQuery
  (\<^verbatim>\<open>docs/htmldoc/javascripts/jquery.js\<close>) and page scripts beside it.  This development models
  that code as far as it is logic and not the browser.

  \<^bold>\<open>Parts.\<close>  The page scripts and the Bootstrap plugins call jQuery: for class attributes, data attached
  to elements, traversal of the page, and events.  jQuery's own parts rest on each other: the
  traversal methods on the order of the tree, the data on the utilities.

  \<^bold>\<open>Theories.\<close>
  \<^descr> \<open>JS_Prelude\<close> holds the JavaScript notions: property objects as association lists, array scans,
    strings, and the interfaces \<open>kv_store\<close> and \<open>kv_alias\<close> of a store of values by keys, which
    property objects, the attributes of a page, the cookie jar and the data of an element interpret.
    \<open>JS_Uri\<close> holds the encoding of URI components.
  \<^descr> \<open>JQ_Core\<close> (utilities and the stack of sets), \<open>JQ_Callbacks\<close> (callback lists, re-entrant),
    \<open>JQ_Classes\<close> (class strings; interface \<open>class_list\<close>), \<open>JQ_Data\<close> (the data cache and its
    identifiers), \<open>JQ_Tree\<close> (containment and document order; interface \<open>comparison\<close>),
    \<open>JQ_Traverse\<close> (traversal and filtering), \<open>JQ_Matcher\<close> (the compiled selectors of Sizzle with
    their caches), \<open>JQ_Form\<close> (form values and their serialization), \<open>JQ_Event\<close> (binding and unbinding of
    handlers; interface \<open>quiet_specials\<close> of the table of special events), \<open>JQ_Registry\<close> (what holds of
    the registry), \<open>JQ_Dispatch\<close> (the event object, dispatch and trigger), \<open>JQ_Deferred\<close> (deferreds,
    \<open>then\<close> and \<open>when\<close>), \<open>JQ_Queue\<close> (queues of functions), \<open>JQ_Ready\<close> (the wait for the page),
    \<open>JQ_Convert\<close> (the choice and the conversion of a response), \<open>JQ_Request\<close> (address, origin and headers of a
    request) and \<open>JQ_Ajax\<close> (prefilters, transports and the life of a request) model \<^verbatim>\<open>jquery.js\<close>.  \<open>JQ_Deferred\<close> and \<open>JQ_Queue\<close> are programs for the interpreter of \<open>JQ_Callbacks\<close>.
  \<^descr> \<open>BS_Dom\<close> is the page the plugins share, with the interface \<open>switch\<close> of a widget that is shown and
    hidden; \<open>BS_Modal\<close>, \<open>BS_Carousel\<close>, \<open>BS_Collapse\<close>, \<open>BS_Dropdown\<close>, \<open>BS_Affix\<close>, \<open>BS_Alert\<close> (with the
    button and the support of transitions), \<open>BS_Tab\<close>, \<open>BS_ScrollSpy\<close>, \<open>BS_Tooltip\<close> (with the popover)
    and \<open>BS_Placement\<close> (the geometry of tips, over the rationals) model \<^verbatim>\<open>bootstrap.js\<close>, one plugin each.
  \<^descr> \<open>Doc_Asciidoc\<close> and \<open>Doc_Cookie\<close> model \<^verbatim>\<open>asciidoc.js\<close> and \<^verbatim>\<open>jquery.cookie.js\<close>.

  \<^bold>\<open>State and operations.\<close>  A plugin's state is a record with the classes, attributes and data of the page
  it works on, what it has installed (listeners, timers) and what waits (callbacks for the end of a
  transition); each handler of the code is a function on this record, named as in the source, and
  each event that the browser delivers is a step.  Errors are values (\<open>None\<close>, a field \<open>thrown\<close>, or
  an outcome).  The lemmas of a theory show first which fields an operation leaves alone, then what
  each operation does to the invariant, and the properties follow by induction over the steps.

  \<^bold>\<open>Specifications.\<close>  The properties compare the operations with what is defined beside the code: the
  headers and notes of a page by the paths of its tree (\<open>header_at\<close>, \<open>number_of\<close>), what the user did by
  the events alone (\<open>user_wants\<close>), the visible part of the page (\<open>shown_area\<close>), the way of an event by
  the path of its node (\<open>way_up\<close>, \<open>reached\<close>), which calls may follow a call that stopped an event
  (\<open>may_follow\<close>, \<open>cuts\<close>), and the function another stems from by proxies (\<open>stem\<close>).  A cookie is seen in
  scopes, which path, domain and security make and the browser decides on.

  \<^bold>\<open>Loops.\<close>  All loops are total functions with a measure, but for the firing of callback lists, where a
  callback may call back for ever: there the interpreter takes fuel, and the properties either hold
  for any outcome or state how much fuel is enough (the number of operations and callbacks).  A walk
  along parents or siblings is bounded by the depth of the node or the number of its siblings.
  Unbinding calls itself for each type when a name has no type of its own; the model counts the depth
  of the stack, and two levels are enough for every name the pattern accepts.  For the others no
  depth is, which \<open>off_returns_iff\<close> states.  The conversion of a response takes two rounds for each type
  at most when the names of the converters are two types each (\<open>loop_chain\<close>, \<open>ajaxConvert_returns\<close>).

  \<^bold>\<open>Not modelled.\<close>  What is the browser's: parsing of HTML and of selectors' text, computed styles,
  network requests, animation frames.  What a page provides (listeners that prevent an event, the
  functions bound as handlers, the browser's support of transitions, measured positions) is a
  parameter.  The plugins' theories take the events they trigger as steps and do not rest on the
  model of dispatch.  Of the event system, the delegation of submit and change in old browsers, the
  coordinates of the mouse, exceptions of handlers and changes they make to the tree are left out; the
  proxies of \<open>jQuery.proxy\<close> are functions of the page that share a number.
  Of Ajax, the merging of settings, JSONP, \<open>load\<close> and what the browser does with a request are left out; a
  transport is what it answers.  jQuery's effects are not modelled, nor are positional selectors, the
  shims for old browsers (\<^verbatim>\<open>html5shiv.js\<close>, \<^verbatim>\<open>respond.js\<close>), the minified scripts, and the Go and shell
  programs, which are input and output around other programs.
\<close>

end
